(* ===== verification/Wire.thy ===== *)
theory Wire
  imports Mix_Prelude
begin

text \<open>
  The messages of the event stream, as \<open>crates/events/proto/mix/events/v1/events.proto\<close>
  declares them and the generated \<open>mix_events::v1\<close> holds them: a message is a record, a
  \<open>oneof\<close> a datatype, and an enumeration a datatype with its number. A field of an enumeration's
  type is the number on the wire (the generated structs hold an \<open>i32\<close>); reading it back gives
  the \<open>Unspecified\<close> value for a number the enumeration does not have, as the generated accessors
  do. The payload of a result, an observation or a journal record is kept as its encoded bytes:
  nothing modelled here looks into it.

  Node ids and sequence numbers are natural numbers: they count what the process itself started,
  so they stay far below \<open>2 ^ 64\<close>.
\<close>

section \<open>Enumerations\<close>

datatype cancellation =
    Cancellation_Unspecified
  | Cancellation_Interrupted
  | Cancellation_Terminated
  | Cancellation_ClientGone

primrec cancellation_i32 :: "cancellation \<Rightarrow> i32" where
    "cancellation_i32 Cancellation_Unspecified = 0"
  | "cancellation_i32 Cancellation_Interrupted = 1"
  | "cancellation_i32 Cancellation_Terminated = 2"
  | "cancellation_i32 Cancellation_ClientGone = 3"


datatype status =
    Status_Unspecified
  | Status_Succeeded
  | Status_AlreadySatisfied
  | Status_Failed
  | Status_Cancelled

primrec status_i32 :: "status \<Rightarrow> i32" where
    "status_i32 Status_Unspecified = 0"
  | "status_i32 Status_Succeeded = 1"
  | "status_i32 Status_AlreadySatisfied = 2"
  | "status_i32 Status_Failed = 3"
  | "status_i32 Status_Cancelled = 4"


datatype not_run_reason =
    NotRunReason_Unspecified
  | NotRunReason_NotReached
  | NotRunReason_Skipped
  | NotRunReason_Blocked

primrec not_run_reason_i32 :: "not_run_reason \<Rightarrow> i32" where
    "not_run_reason_i32 NotRunReason_Unspecified = 0"
  | "not_run_reason_i32 NotRunReason_NotReached = 1"
  | "not_run_reason_i32 NotRunReason_Skipped = 2"
  | "not_run_reason_i32 NotRunReason_Blocked = 3"


datatype severity =
    Severity_Unspecified
  | Severity_Error
  | Severity_Warning

primrec severity_i32 :: "severity \<Rightarrow> i32" where
    "severity_i32 Severity_Unspecified = 0"
  | "severity_i32 Severity_Error = 1"
  | "severity_i32 Severity_Warning = 2"


datatype verb =
    Verb_Unspecified
  | Verb_Creating
  | Verb_Removing
  | Verb_Installing
  | Verb_Writing
  | Verb_Configuring
  | Verb_Activating
  | Verb_Recording
  | Verb_Restarting
  | Verb_Repairing
  | Verb_Recovering
  | Verb_Updating
  | Verb_Reclaiming

primrec verb_i32 :: "verb \<Rightarrow> i32" where
    "verb_i32 Verb_Unspecified = 0"
  | "verb_i32 Verb_Creating = 1"
  | "verb_i32 Verb_Removing = 2"
  | "verb_i32 Verb_Installing = 3"
  | "verb_i32 Verb_Writing = 4"
  | "verb_i32 Verb_Configuring = 5"
  | "verb_i32 Verb_Activating = 6"
  | "verb_i32 Verb_Recording = 7"
  | "verb_i32 Verb_Restarting = 8"
  | "verb_i32 Verb_Repairing = 9"
  | "verb_i32 Verb_Recovering = 10"
  | "verb_i32 Verb_Updating = 11"
  | "verb_i32 Verb_Reclaiming = 12"


datatype operation =
    Operation_Unspecified
  | Operation_CreateDir
  | Operation_PutFile
  | Operation_SetMode
  | Operation_SetOwner
  | Operation_SetAside
  | Operation_RemoveCreated
  | Operation_RemoveCreatedTree
  | Operation_Restore
  | Operation_ReclaimTree
  | Operation_CopyTree
  | Operation_AddGroup
  | Operation_SetGroupGid
  | Operation_DeleteGroup
  | Operation_AddUser
  | Operation_SetUserIds
  | Operation_DeleteUser
  | Operation_AddMember
  | Operation_RemoveMember
  | Operation_InstallUnit
  | Operation_EnableUnit
  | Operation_DisableUnit
  | Operation_StartUnit
  | Operation_StopUnit
  | Operation_RestartUnit
  | Operation_DaemonReload
  | Operation_InstallRuntime
  | Operation_RemoveRuntime
  | Operation_ActivateProfile
  | Operation_SwitchGeneration
  | Operation_DeleteGeneration
  | Operation_RecordState
  | Operation_Commit
  | Operation_ApplyGeneration
  | Operation_CreateDirs
  | Operation_CollectGarbage
  | Operation_DrainService
  | Operation_CreateRepository
  | Operation_Discard
  | Operation_Keep

primrec operation_i32 :: "operation \<Rightarrow> i32" where
    "operation_i32 Operation_Unspecified = 0"
  | "operation_i32 Operation_CreateDir = 1"
  | "operation_i32 Operation_PutFile = 2"
  | "operation_i32 Operation_SetMode = 3"
  | "operation_i32 Operation_SetOwner = 4"
  | "operation_i32 Operation_SetAside = 5"
  | "operation_i32 Operation_RemoveCreated = 6"
  | "operation_i32 Operation_RemoveCreatedTree = 7"
  | "operation_i32 Operation_Restore = 8"
  | "operation_i32 Operation_ReclaimTree = 9"
  | "operation_i32 Operation_CopyTree = 10"
  | "operation_i32 Operation_AddGroup = 11"
  | "operation_i32 Operation_SetGroupGid = 12"
  | "operation_i32 Operation_DeleteGroup = 13"
  | "operation_i32 Operation_AddUser = 14"
  | "operation_i32 Operation_SetUserIds = 15"
  | "operation_i32 Operation_DeleteUser = 16"
  | "operation_i32 Operation_AddMember = 17"
  | "operation_i32 Operation_RemoveMember = 18"
  | "operation_i32 Operation_InstallUnit = 19"
  | "operation_i32 Operation_EnableUnit = 20"
  | "operation_i32 Operation_DisableUnit = 21"
  | "operation_i32 Operation_StartUnit = 22"
  | "operation_i32 Operation_StopUnit = 23"
  | "operation_i32 Operation_RestartUnit = 24"
  | "operation_i32 Operation_DaemonReload = 25"
  | "operation_i32 Operation_InstallRuntime = 26"
  | "operation_i32 Operation_RemoveRuntime = 27"
  | "operation_i32 Operation_ActivateProfile = 28"
  | "operation_i32 Operation_SwitchGeneration = 29"
  | "operation_i32 Operation_DeleteGeneration = 30"
  | "operation_i32 Operation_RecordState = 31"
  | "operation_i32 Operation_Commit = 32"
  | "operation_i32 Operation_ApplyGeneration = 33"
  | "operation_i32 Operation_CreateDirs = 34"
  | "operation_i32 Operation_CollectGarbage = 35"
  | "operation_i32 Operation_DrainService = 36"
  | "operation_i32 Operation_CreateRepository = 37"
  | "operation_i32 Operation_Discard = 38"
  | "operation_i32 Operation_Keep = 39"


datatype code =
    Code_Unspecified
  | Code_Internal
  | Code_Io
  | Code_PermissionDenied
  | Code_CommandFailed
  | Code_SpawnFailed
  | Code_LockMissing
  | Code_Conflict
  | Code_UnitFailed
  | Code_SystemdUnreachable
  | Code_JournalUnwritable
  | Code_CleanupIncomplete
  | Code_InterruptedRequest
  | Code_Network
  | Code_Integrity
  | Code_UnsupportedTarget
  | Code_Decompression
  | Code_MalformedArchive
  | Code_NotRoot
  | Code_UnsupportedHost
  | Code_UnsupportedKernel
  | Code_SystemdNotReady
  | Code_AlreadyManaged
  | Code_CrossDeviceStore
  | Code_RollbackIncomplete
  | Code_InvalidMirror
  | Code_NotBootstrapped
  | Code_RootNotAllowed
  | Code_InvalidPackage
  | Code_InvalidState
  | Code_NewerState
  | Code_ProtectedPackage
  | Code_GitRecordFailed
  | Code_UnknownPackage
  | Code_BuildFailed
  | Code_UpdateUnavailable
  | Code_Unrepairable
  | Code_PrivilegesUnavailable
  | Code_WorkerEnded
  | Code_VersionMismatch
  | Code_Usage
  | Code_DaemonOutdated
  | Code_ConfirmationRequired
  | Code_DaemonUnavailable
  | Code_DaemonVersionMismatch
  | Code_DiskFull
  | Code_NoInodes
  | Code_PackageCollision
  | Code_OutOfMemory

primrec code_i32 :: "code \<Rightarrow> i32" where
    "code_i32 Code_Unspecified = 0"
  | "code_i32 Code_Internal = 1"
  | "code_i32 Code_Io = 2"
  | "code_i32 Code_PermissionDenied = 3"
  | "code_i32 Code_CommandFailed = 4"
  | "code_i32 Code_SpawnFailed = 5"
  | "code_i32 Code_LockMissing = 7"
  | "code_i32 Code_Conflict = 8"
  | "code_i32 Code_UnitFailed = 9"
  | "code_i32 Code_SystemdUnreachable = 10"
  | "code_i32 Code_JournalUnwritable = 11"
  | "code_i32 Code_CleanupIncomplete = 12"
  | "code_i32 Code_InterruptedRequest = 13"
  | "code_i32 Code_Network = 20"
  | "code_i32 Code_Integrity = 21"
  | "code_i32 Code_UnsupportedTarget = 22"
  | "code_i32 Code_Decompression = 23"
  | "code_i32 Code_MalformedArchive = 24"
  | "code_i32 Code_NotRoot = 25"
  | "code_i32 Code_UnsupportedHost = 26"
  | "code_i32 Code_UnsupportedKernel = 27"
  | "code_i32 Code_SystemdNotReady = 28"
  | "code_i32 Code_AlreadyManaged = 29"
  | "code_i32 Code_CrossDeviceStore = 30"
  | "code_i32 Code_RollbackIncomplete = 31"
  | "code_i32 Code_InvalidMirror = 32"
  | "code_i32 Code_NotBootstrapped = 41"
  | "code_i32 Code_RootNotAllowed = 42"
  | "code_i32 Code_InvalidPackage = 43"
  | "code_i32 Code_InvalidState = 44"
  | "code_i32 Code_NewerState = 45"
  | "code_i32 Code_ProtectedPackage = 46"
  | "code_i32 Code_GitRecordFailed = 47"
  | "code_i32 Code_UnknownPackage = 48"
  | "code_i32 Code_BuildFailed = 49"
  | "code_i32 Code_UpdateUnavailable = 50"
  | "code_i32 Code_Unrepairable = 60"
  | "code_i32 Code_PrivilegesUnavailable = 70"
  | "code_i32 Code_WorkerEnded = 71"
  | "code_i32 Code_VersionMismatch = 72"
  | "code_i32 Code_Usage = 73"
  | "code_i32 Code_DaemonOutdated = 74"
  | "code_i32 Code_ConfirmationRequired = 75"
  | "code_i32 Code_DaemonUnavailable = 76"
  | "code_i32 Code_DaemonVersionMismatch = 77"
  | "code_i32 Code_DiskFull = 78"
  | "code_i32 Code_NoInodes = 79"
  | "code_i32 Code_PackageCollision = 80"
  | "code_i32 Code_OutOfMemory = 81"


datatype unfixable =
    Unfixable_Unspecified
  | Unfixable_NotADirectory
  | Unfixable_MissingUser
  | Unfixable_MissingRuntime
  | Unfixable_Unrecovered
  | Unfixable_InTheWay
  | Unfixable_Outside
  | Unfixable_Masked
  | Unfixable_Newer

primrec unfixable_i32 :: "unfixable \<Rightarrow> i32" where
    "unfixable_i32 Unfixable_Unspecified = 0"
  | "unfixable_i32 Unfixable_NotADirectory = 1"
  | "unfixable_i32 Unfixable_MissingUser = 2"
  | "unfixable_i32 Unfixable_MissingRuntime = 3"
  | "unfixable_i32 Unfixable_Unrecovered = 4"
  | "unfixable_i32 Unfixable_InTheWay = 5"
  | "unfixable_i32 Unfixable_Outside = 6"
  | "unfixable_i32 Unfixable_Masked = 7"
  | "unfixable_i32 Unfixable_Newer = 8"


text \<open>Reading a number back, as \<open>NodeFinished::status()\<close> and \<open>NotRun::reason()\<close> do.\<close>

definition status_of_i32 :: "i32 \<Rightarrow> status" where
  "status_of_i32 n =
     (if n = 1 then Status_Succeeded else if n = 2 then Status_AlreadySatisfied
      else if n = 3 then Status_Failed else if n = 4 then Status_Cancelled
      else Status_Unspecified)"

definition reason_of_i32 :: "i32 \<Rightarrow> not_run_reason" where
  "reason_of_i32 n =
     (if n = 1 then NotRunReason_NotReached else if n = 2 then NotRunReason_Skipped
      else if n = 3 then NotRunReason_Blocked else NotRunReason_Unspecified)"

lemma status_of_i32_inverse [simp]: "status_of_i32 (status_i32 s) = s"
  by (cases s) (simp_all add: status_of_i32_def)

lemma reason_of_i32_inverse [simp]: "reason_of_i32 (not_run_reason_i32 r) = r"
  by (cases r) (simp_all add: reason_of_i32_def)

lemma cancellation_i32_zero [simp]: "cancellation_i32 c = 0 \<longleftrightarrow> c = Cancellation_Unspecified"
  by (cases c) simp_all

section \<open>Diagnostics\<close>

datatype detail =
    Detail_Io (io_path: string) (io_kind: string)
  | Detail_Command (cmd_command: string) (cmd_status: "int option") (cmd_tail: string)
  | Detail_Network (net_url: string)
  | Detail_Integrity (int_artifact: string) (int_expected: string) (int_actual: string)
  | Detail_Target (tgt_arch: string) (tgt_os: string)
  | Detail_Host (host_host: i32) (host_state: string)
  | Detail_Path (path_path: string)
  | Detail_Packages (pkg_packages: "string list")
  | Detail_Format (fmt_format: u32)
  | Detail_Unrepairable (unr_artifact: string) (unr_reason: i32)
  | Detail_Lock (lock_path: string) (lock_holder: "string option")
  | Detail_Steps (steps_steps: "string list")
  | Detail_Conflict (con_subject: string) (con_expected: string) (con_found: string)
  | Detail_Unit (unit_operation: string) (unit_unit: string) (unit_invocation: "string option")

datatype diagnostic =
  Diagnostic (diag_code: i32) (diag_severity: i32) (diag_node: nat) (diag_message: string)
    (diag_causes: "diagnostic list") (diag_detail: "detail option")

definition default_diagnostic :: diagnostic where
  "default_diagnostic = Diagnostic 0 0 0 '''' [] None"

section \<open>Nodes\<close>

datatype request =
    Request_Bootstrap bool "string option" "string option"
  | Request_Install "string list"
  | Request_Remove "string list"
  | Request_Repair
  | Request_Doctor
  | Request_Clean bool
  | Request_Explain "i32 option"
  | Request_List
  | Request_Update
  | Request_UserRemove
  | Request_Purge

record command =
  mix_version :: string
  schema_minor :: u32
  dry_run :: bool
  request :: "request option"

datatype kind =
    Kind_Command command
  | Kind_Plan string
  | Kind_Step i32 string
  | Kind_Rollback nat
  | Kind_Process string "string list"
  | Kind_Download string string
  | Kind_Inspection string i32
  | Kind_LockWait string "string option" "string option"
  | Kind_NixActivity string string
  | Kind_Action i32 string

type_synonym payload = bytes

datatype node_result =
    Result_Bootstrap payload
  | Result_Install payload
  | Result_Remove payload
  | Result_Repair payload
  | Result_Doctor payload
  | Result_Inspection payload
  | Result_Process "int option" "int option"
  | Result_Clean payload
  | Result_Explain payload
  | Result_List payload
  | Result_Update payload
  | Result_UserRemove payload
  | Result_Purge payload

record byte_count =
  bytes_done :: u64
  bytes_total :: "u64 option"

record build_count =
  builds_done :: u64
  builds_expected :: u64
  builds_running :: u64
  downloads_done :: u64
  downloads_expected :: u64
  downloads_running :: u64
  download_bytes_done :: u64
  download_bytes_expected :: u64

datatype progress =
    Progress_Bytes byte_count
  | Progress_Builds build_count
  | Progress_Line string i32
  | Progress_Command string
  | Progress_Fetch string
  | Progress_Build string string
  | Progress_Stopping i32
  | Progress_CommandFinished string "int option" "int option"
  | Progress_Observed payload
  | Progress_Journaled payload
  | Progress_Substitution string string
  | Progress_Waiting string "string option" "string option"

record node_started =
  ns_id :: nat
  ns_parent :: nat
  ns_key :: string
  ns_planned :: "string list"
  ns_shielded :: bool
  ns_kind :: "kind option"

record node_progress =
  np_id :: nat
  np_progress :: "progress option"

record node_finished =
  nf_id :: nat
  nf_status :: i32
  nf_diagnostic :: "diagnostic option"
  nf_exit_code :: u32
  nf_cancellation :: i32
  nf_result :: "node_result option"

record not_run =
  nr_parent :: nat
  nr_key :: string
  nr_reason :: i32
  nr_blocked_by :: string

datatype event =
    Event_NodeStarted node_started
  | Event_NodeProgress node_progress
  | Event_NodeFinished node_finished
  | Event_NotRun not_run
  | Event_Diagnostic diagnostic

record envelope =
  env_seq :: nat
  env_request :: string
  env_event :: "event option"

end
