(* ===== verification/Outbox.thy ===== *)
theory Outbox
  imports Wire
begin

text \<open>
  The queue between the tree of nodes and the reader of the stream
  (\<open>crates/events/src/outbox.rs\<close>). A gauge (a byte count or a build count of one node) that has
  not been read yet is superseded by the next gauge of the same node and kind; everything else
  is delivered once, in order, under consecutive sequence numbers.

  The mutex makes each \<open>push\<close>, \<open>pop\<close> and \<open>drain\<close> one atomic step on the \<open>Queue\<close> inside, so
  concurrent use is a sequence of these steps, \<open>schedule\<close> below. The \<open>wake\<close> closure is not
  modelled: it is called outside the lock and touches nothing of the queue.
\<close>

section \<open>The queue\<close>

datatype gauge = Gauge_Bytes | Gauge_Builds

type_synonym slot = "nat \<times> gauge"

fun slot_of :: "event \<Rightarrow> slot option" where
  "slot_of (Event_NodeProgress p) =
     (case np_progress p of
        Some (Progress_Bytes _) \<Rightarrow> Some (np_id p, Gauge_Bytes)
      | Some (Progress_Builds _) \<Rightarrow> Some (np_id p, Gauge_Builds)
      | Some _ \<Rightarrow> None
      | None \<Rightarrow> None)"
| "slot_of (Event_NodeStarted _) = None"
| "slot_of (Event_NodeFinished _) = None"
| "slot_of (Event_NotRun _) = None"
| "slot_of (Event_Diagnostic _) = None"

record queue =
  q_head :: nat
  q_seq :: nat
  q_items :: "event list"
  q_pending :: "slot \<rightharpoonup> nat"
  q_superseded :: "nat set"

definition empty_queue :: queue where
  "empty_queue =
     \<lparr>q_head = 0, q_seq = 0, q_items = [], q_pending = Map.empty, q_superseded = {}\<rparr>"

definition outbox_push :: "queue \<Rightarrow> event \<Rightarrow> queue" where
  "outbox_push q e =
     (let position = q_head q + length (q_items q);
          q' = (case slot_of e of
                  None \<Rightarrow> q
                | Some s \<Rightarrow>
                    (let q1 = q\<lparr>q_pending := (q_pending q)(s \<mapsto> position)\<rparr>
                     in case q_pending q s of
                          None \<Rightarrow> q1
                        | Some superseded \<Rightarrow>
                            q1\<lparr>q_superseded := insert superseded (q_superseded q1)\<rparr>))
      in q'\<lparr>q_items := q_items q' @ [e]\<rparr>)"

function outbox_next :: "string \<Rightarrow> queue \<Rightarrow> envelope option \<times> queue" where
  "outbox_next req q =
     (case q_items q of
        [] \<Rightarrow> (None, q)
      | e # rest \<Rightarrow>
          (let position = q_head q;
               q1 = q\<lparr>q_items := rest, q_head := q_head q + 1\<rparr>
           in if position \<in> q_superseded q1
              then outbox_next req (q1\<lparr>q_superseded := q_superseded q1 - {position}\<rparr>)
              else
                (let q2 = (case slot_of e of
                             None \<Rightarrow> q1
                           | Some s \<Rightarrow>
                               if q_pending q1 s = Some position
                               then q1\<lparr>q_pending := (q_pending q1)(s := None)\<rparr> else q1);
                     q3 = q2\<lparr>q_seq := q_seq q2 + 1\<rparr>
                 in (Some \<lparr>env_seq = q_seq q3, env_request = req, env_event = Some e\<rparr>, q3))))"
  by pat_completeness auto
termination
  by (relation "measure (\<lambda>(req, q). length (q_items q))") auto

declare outbox_next.simps [simp del]

lemma outbox_next_shorter:
  "outbox_next req q = (Some env, q') \<Longrightarrow> length (q_items q') < length (q_items q)"
proof (induction req q rule: outbox_next.induct)
  case (1 req q)
  show ?case
  proof (cases "q_items q")
    case (Cons e rest)
    show ?thesis
    proof (cases "q_head q \<in> q_superseded q")
      case True
      with Cons "1.prems" show ?thesis
        using "1.IH" [OF Cons refl refl] by (simp add: outbox_next.simps [of req q] Let_def)
    next
      case False
      with Cons "1.prems" show ?thesis
        by (auto simp: outbox_next.simps [of req q] Let_def split: option.splits if_splits)
    qed
  qed (use "1.prems" in \<open>simp add: outbox_next.simps\<close>)
qed

function outbox_drain :: "string \<Rightarrow> queue \<Rightarrow> envelope list \<times> queue" where
  "outbox_drain req q =
     (case outbox_next req q of
        (None, q') \<Rightarrow> ([], q')
      | (Some env, q') \<Rightarrow> (let (envs, q'') = outbox_drain req q' in (env # envs, q'')))"
  by pat_completeness auto
termination
  by (relation "measure (\<lambda>(req, q). length (q_items q))") (auto dest: outbox_next_shorter [OF sym])

declare outbox_drain.simps [simp del]

section \<open>What the queue holds\<close>

text \<open>An item is stale when a later one reports the same gauge of the same node.\<close>

definition stale :: "event \<Rightarrow> event list \<Rightarrow> bool" where
  "stale e later \<longleftrightarrow> slot_of e \<noteq> None \<and> (\<exists>e' \<in> set later. slot_of e' = slot_of e)"

text \<open>The superseded positions and the pending positions are functions of the items.\<close>

fun stale_positions :: "nat \<Rightarrow> event list \<Rightarrow> nat set" where
  "stale_positions h [] = {}"
| "stale_positions h (e # es) =
     (if stale e es then insert h (stale_positions (Suc h) es) else stale_positions (Suc h) es)"

fun last_positions :: "nat \<Rightarrow> event list \<Rightarrow> slot \<rightharpoonup> nat" where
  "last_positions h [] = Map.empty"
| "last_positions h (e # es) =
     (\<lambda>s. case last_positions (Suc h) es s of
            Some p \<Rightarrow> Some p
          | None \<Rightarrow> if slot_of e = Some s then Some h else None)"

definition queue_ok :: "queue \<Rightarrow> bool" where
  "queue_ok q \<longleftrightarrow>
     q_superseded q = stale_positions (q_head q) (q_items q) \<and>
     q_pending q = last_positions (q_head q) (q_items q)"

lemma queue_ok_empty [simp]: "queue_ok empty_queue"
  by (simp add: queue_ok_def empty_queue_def)

lemma stale_positions_ge: "p \<in> stale_positions h es \<Longrightarrow> h \<le> p"
  by (induction es arbitrary: h) (auto split: if_splits dest: Suc_leD)

lemma last_positions_None: "last_positions h es s = None \<longleftrightarrow> (\<forall>e \<in> set es. slot_of e \<noteq> Some s)"
proof (induction es arbitrary: h)
  case (Cons e es)
  then show ?case by (cases "last_positions (Suc h) es s") fastforce+
qed simp

lemma last_positions_ge: "last_positions h es s = Some p \<Longrightarrow> h \<le> p"
  by (induction es arbitrary: h) (auto split: option.splits if_splits dest: Suc_leD)

lemma last_positions_snoc:
  "last_positions h (es @ [e]) =
     (case slot_of e of None \<Rightarrow> last_positions h es
      | Some s \<Rightarrow> (last_positions h es)(s \<mapsto> h + length es))"
  by (induction es arbitrary: h) (auto simp: fun_eq_iff split: option.splits)

lemma stale_snoc:
  "stale x (es @ [e]) \<longleftrightarrow> stale x es \<or> (slot_of x \<noteq> None \<and> slot_of e = slot_of x)"
  by (auto simp: stale_def)

lemma stale_last_positions:
  "slot_of x = Some s \<Longrightarrow> stale x es \<longleftrightarrow> last_positions h es s \<noteq> None"
  by (auto simp: stale_def last_positions_None)

lemma stale_positions_snoc:
  "stale_positions h (es @ [e]) =
     stale_positions h es \<union>
     (case slot_of e of None \<Rightarrow> {} | Some s \<Rightarrow> set_option (last_positions h es s))"
proof (induction es arbitrary: h)
  case Nil
  show ?case by (auto simp: stale_def split: option.splits)
next
  case (Cons x es)
  show ?case
  proof (cases "slot_of e")
    case None
    with Cons show ?thesis by (auto simp: stale_snoc)
  next
    case (Some s)
    show ?thesis
    proof (cases "slot_of x = Some s")
      case True
      with Some Cons show ?thesis
        by (cases "last_positions (Suc h) es s")
          (auto simp: stale_snoc stale_last_positions [OF True, of es "Suc h"])
    next
      case False
      with Some Cons show ?thesis
        by (cases "last_positions (Suc h) es s") (auto simp: stale_snoc)
    qed
  qed
qed

lemma queue_ok_push: "queue_ok q \<Longrightarrow> queue_ok (outbox_push q e)"
  by (auto simp: queue_ok_def outbox_push_def Let_def stale_positions_snoc last_positions_snoc
      split: option.splits)

lemma q_items_push [simp]: "q_items (outbox_push q e) = q_items q @ [e]"
  by (auto simp: outbox_push_def Let_def split: option.splits)

lemma q_seq_push [simp]: "q_seq (outbox_push q e) = q_seq q"
  by (auto simp: outbox_push_def Let_def split: option.splits)

fun all_stale :: "event list \<Rightarrow> event list \<Rightarrow> bool" where
  "all_stale [] later = True"
| "all_stale (d # ds) later = (stale d (ds @ later) \<and> all_stale ds later)"

lemma stale_positions_head: "stale e es \<longleftrightarrow> h \<in> stale_positions h (e # es)"
  using stale_positions_ge [of h "Suc h" es] by auto

lemma stale_positions_rest:
  "stale_positions h (e # es) - {h} = stale_positions (Suc h) es"
  using stale_positions_ge [of h "Suc h" es] by auto

lemma last_positions_rest:
  "stale e es \<Longrightarrow> last_positions h (e # es) = last_positions (Suc h) es"
  "\<not> stale e es \<Longrightarrow> last_positions (Suc h) es =
     (case slot_of e of None \<Rightarrow> last_positions h (e # es)
      | Some s \<Rightarrow> (last_positions h (e # es))(s := None))"
proof -
  assume st: "stale e es"
  then obtain s where s: "slot_of e = Some s" by (auto simp: stale_def)
  with st have "last_positions (Suc h) es s \<noteq> None"
    using stale_last_positions [OF s, of es "Suc h"] by blast
  with s show "last_positions h (e # es) = last_positions (Suc h) es"
    by (auto simp: fun_eq_iff split: option.splits)
next
  assume st: "\<not> stale e es"
  show "last_positions (Suc h) es =
     (case slot_of e of None \<Rightarrow> last_positions h (e # es)
      | Some s \<Rightarrow> (last_positions h (e # es))(s := None))"
  proof (cases "slot_of e")
    case (Some s)
    with st have "last_positions (Suc h) es s = None"
      using stale_last_positions [OF Some, of es "Suc h"] by blast
    with Some show ?thesis by (auto simp: fun_eq_iff split: option.splits)
  qed (simp add: fun_eq_iff split: option.splits)
qed

text \<open>One round of the loop of \<open>next\<close>, on an item that is superseded and on one that is not.\<close>

lemma outbox_next_stale:
  assumes ok: "queue_ok q" and items: "q_items q = e # rest" and st: "stale e rest"
  shows "\<exists>q1. outbox_next req q = outbox_next req q1 \<and> queue_ok q1 \<and>
    q_items q1 = rest \<and> q_seq q1 = q_seq q"
proof -
  let ?h = "q_head q"
  let ?q1 = "q\<lparr>q_items := rest, q_head := ?h + 1, q_superseded := q_superseded q - {?h}\<rparr>"
  from ok items have sup: "q_superseded q = stale_positions ?h (e # rest)"
    and pend: "q_pending q = last_positions ?h (e # rest)"
    by (simp_all add: queue_ok_def)
  then have "?h \<in> q_superseded q" using st stale_positions_head by simp
  with items have "outbox_next req q = outbox_next req ?q1"
    by (simp add: outbox_next.simps [of req q] Let_def)
  moreover have "queue_ok ?q1"
    using sup pend last_positions_rest(1) [OF st] stale_positions_rest
    by (simp add: queue_ok_def del: stale_positions.simps last_positions.simps)
  ultimately show ?thesis by (intro exI [of _ ?q1]) simp
qed

lemma outbox_next_live:
  assumes ok: "queue_ok q" and items: "q_items q = e # rest" and st: "\<not> stale e rest"
  shows "\<exists>q'. outbox_next req q =
      (Some \<lparr>env_seq = Suc (q_seq q), env_request = req, env_event = Some e\<rparr>, q') \<and>
    queue_ok q' \<and> q_items q' = rest \<and> q_seq q' = Suc (q_seq q)"
proof -
  let ?h = "q_head q"
  let ?q' = "q\<lparr>q_items := rest, q_head := ?h + 1, q_pending := (case slot_of e of
      None \<Rightarrow> q_pending q | Some s \<Rightarrow> (q_pending q)(s := None)), q_seq := Suc (q_seq q)\<rparr>"
  from ok items have sup: "q_superseded q = stale_positions ?h (e # rest)"
    and pend: "q_pending q = last_positions ?h (e # rest)"
    by (simp_all add: queue_ok_def)
  then have mem: "?h \<notin> q_superseded q" using st stale_positions_head by metis
  have "q_pending q s = Some ?h" if "slot_of e = Some s" for s
    using that st pend stale_last_positions [OF that, of rest "Suc ?h"] by auto
  with items mem have "outbox_next req q =
      (Some \<lparr>env_seq = Suc (q_seq q), env_request = req, env_event = Some e\<rparr>, ?q')"
    by (auto simp: outbox_next.simps [of req q] Let_def split: option.splits)
  moreover have "q_superseded q = stale_positions (Suc ?h) rest"
    using sup mem stale_positions_rest [of ?h e rest] by auto
  then have "queue_ok ?q'"
    using pend last_positions_rest(2) [OF st, of ?h]
    by (simp add: queue_ok_def split: option.splits del: last_positions.simps)
  ultimately show ?thesis by (intro exI [of _ ?q']) simp
qed

text \<open>One \<open>pop\<close>: what it skips was superseded, what it returns is the first item that was not.\<close>

lemma outbox_next_None:
  "queue_ok q \<Longrightarrow> outbox_next req q = (None, q') \<Longrightarrow> q_items q = [] \<and> q' = q"
proof (induction "q_items q" arbitrary: q)
  case Nil
  then show ?case by (simp add: outbox_next.simps [of req q])
next
  case (Cons e rest)
  show ?case
  proof (cases "stale e rest")
    case True
    with Cons.prems(1) Cons.hyps(2) [symmetric] obtain q1 where q1: "queue_ok q1" "q_items q1 = rest"
      "outbox_next req q = outbox_next req q1" by (metis outbox_next_stale)
    with Cons.hyps(1) [of q1] Cons.prems(2) have "rest = []" by simp
    with True show ?thesis by (simp add: stale_def)
  next
    case False
    with outbox_next_live [OF Cons.prems(1) Cons.hyps(2) [symmetric] False, of req] Cons.prems(2)
    show ?thesis by auto
  qed
qed

lemma outbox_next_Some:
  "queue_ok q \<Longrightarrow> outbox_next req q = (Some env, q') \<Longrightarrow>
    (\<exists>ds e. q_items q = ds @ e # q_items q' \<and> all_stale ds (e # q_items q') \<and>
      env = \<lparr>env_seq = Suc (q_seq q), env_request = req, env_event = Some e\<rparr>) \<and>
    queue_ok q' \<and> q_seq q' = Suc (q_seq q)"
proof (induction "q_items q" arbitrary: q)
  case Nil
  then show ?case by (simp add: outbox_next.simps [of req q])
next
  case (Cons e rest)
  note items = Cons.hyps(2) [symmetric]
  show ?case
  proof (cases "stale e rest")
    case True
    obtain q1 where q1: "queue_ok q1" "q_items q1 = rest" "q_seq q1 = q_seq q"
      "outbox_next req q = outbox_next req q1"
      using outbox_next_stale [OF Cons.prems(1) items True] by metis
    with Cons.hyps(1) [of q1] Cons.prems(2) obtain ds e' where
      "rest = ds @ e' # q_items q'" "all_stale ds (e' # q_items q')" "queue_ok q'"
      "q_seq q' = Suc (q_seq q)"
      "env = \<lparr>env_seq = Suc (q_seq q), env_request = req, env_event = Some e'\<rparr>"
      by auto
    with True items show ?thesis by (auto intro!: exI [of _ "e # ds"])
  next
    case False
    with outbox_next_live [OF Cons.prems(1) items False, of req] Cons.prems(2) items
    show ?thesis by (auto intro!: exI [of _ "[]"])
  qed
qed

section \<open>Any interleaving of writers and a reader\<close>

text \<open>
  \<open>coalesced xs ys\<close>: \<open>ys\<close> is \<open>xs\<close> without some gauges each of which a later gauge of \<open>xs\<close>
  supersedes. So \<open>ys\<close> keeps the order, every event that is no gauge, and the last gauge of
  every slot.
\<close>

inductive coalesced :: "event list \<Rightarrow> event list \<Rightarrow> bool" where
  coalesced_Nil: "coalesced [] []"
| coalesced_keep: "coalesced xs ys \<Longrightarrow> coalesced (x # xs) (x # ys)"
| coalesced_drop: "stale x xs \<Longrightarrow> coalesced xs ys \<Longrightarrow> coalesced (x # xs) ys"

lemma coalesced_refl [simp]: "coalesced xs xs"
  by (induction xs) (auto intro: coalesced.intros)

lemma coalesced_append: "coalesced ys zs \<Longrightarrow> coalesced (xs @ ys) (xs @ zs)"
  by (induction xs) (auto intro: coalesced_keep)

lemma stale_append: "stale x xs \<Longrightarrow> stale x (xs @ ys)"
  by (auto simp: stale_def)

lemma coalesced_prefix: "all_stale ds later \<Longrightarrow> coalesced (later @ xs) ys \<Longrightarrow> coalesced (ds @ later @ xs) ys"
proof (induction ds)
  case (Cons d ds)
  then show ?case
    using stale_append [of d "ds @ later" xs] by (auto intro: coalesced_drop)
qed simp

lemma coalesced_subseq: "coalesced xs ys \<Longrightarrow> subseq ys xs"
  by (induction rule: coalesced.induct) auto

lemma stale_subseq: "stale x ys \<Longrightarrow> subseq ys xs \<Longrightarrow> stale x xs"
proof -
  assume "stale x ys" and sub: "subseq ys xs"
  then obtain e where e: "slot_of x \<noteq> None" "e \<in> set ys" "slot_of e = slot_of x"
    by (auto simp: stale_def)
  from list_emb_set [OF sub e(2)] e(1,3) show "stale x xs" unfolding stale_def by blast
qed

lemma coalesced_trans: "coalesced xs ys \<Longrightarrow> coalesced ys zs \<Longrightarrow> coalesced xs zs"
proof (induction arbitrary: zs rule: coalesced.induct)
  case (coalesced_keep xs ys x)
  note trans = coalesced_keep.IH and sub = coalesced_subseq [OF coalesced_keep.hyps]
  from coalesced_keep.prems show ?case
  proof cases
    case (coalesced_keep zs')
    then show ?thesis using trans by (auto intro: coalesced.coalesced_keep)
  next
    case coalesced_drop
    then show ?thesis using trans stale_subseq [OF _ sub] by (auto intro: coalesced.coalesced_drop)
  qed
qed (auto intro: coalesced_drop)

lemma coalesced_keeps_others:
  "coalesced xs ys \<Longrightarrow> filter (\<lambda>e. slot_of e = None) ys = filter (\<lambda>e. slot_of e = None) xs"
  by (induction rule: coalesced.induct) (auto simp: stale_def)

definition gauges :: "slot \<Rightarrow> event list \<Rightarrow> event list" where
  "gauges s = filter (\<lambda>e. slot_of e = Some s)"

lemma gauges_simps [simp]:
  "gauges s [] = []"
  "gauges s (e # es) = (if slot_of e = Some s then e # gauges s es else gauges s es)"
  by (simp_all add: gauges_def)

lemma stale_gauges: "stale e es \<Longrightarrow> slot_of e = Some s \<Longrightarrow> gauges s es \<noteq> []"
  by (auto simp: stale_def gauges_def filter_empty_conv)

lemma coalesced_keeps_last:
  "coalesced xs ys \<Longrightarrow>
    (gauges s ys = [] \<longleftrightarrow> gauges s xs = []) \<and> (gauges s xs \<noteq> [] \<longrightarrow> last (gauges s ys) = last (gauges s xs))"
  by (induction rule: coalesced.induct) (auto dest: stale_gauges)

datatype queue_step = Push event | Pop

fun run_steps ::
  "('q \<Rightarrow> event \<Rightarrow> 'q) \<Rightarrow> ('q \<Rightarrow> envelope option \<times> 'q) \<Rightarrow> queue_step list \<Rightarrow> 'q \<Rightarrow> envelope list \<times> 'q" where
  "run_steps push pop [] q = ([], q)"
| "run_steps push pop (Push e # ss) q = run_steps push pop ss (push q e)"
| "run_steps push pop (Pop # ss) q =
     (case pop q of
        (None, q') \<Rightarrow> run_steps push pop ss q'
      | (Some env, q') \<Rightarrow> (let (envs, q'') = run_steps push pop ss q' in (env # envs, q'')))"

fun pushed :: "queue_step list \<Rightarrow> event list" where
  "pushed [] = []"
| "pushed (Push e # ss) = e # pushed ss"
| "pushed (Pop # ss) = pushed ss"

definition events_of :: "envelope list \<Rightarrow> event list" where
  "events_of envs = List.map_filter env_event envs"

definition numbered :: "nat \<Rightarrow> string \<Rightarrow> event list \<Rightarrow> envelope list" where
  "numbered n req es =
     map (\<lambda>(i, e). \<lparr>env_seq = i, env_request = req, env_event = Some e\<rparr>) (zip [Suc n..<Suc n + length es] es)"

lemma numbered_Nil [simp]: "numbered n req [] = []"
  by (simp add: numbered_def)

lemma numbered_Cons [simp]:
  "numbered n req (e # es) =
     \<lparr>env_seq = Suc n, env_request = req, env_event = Some e\<rparr> # numbered (Suc n) req es"
  by (simp add: numbered_def upt_rec)

lemma numbered_append: "numbered n req (xs @ ys) = numbered n req xs @ numbered (n + length xs) req ys"
  by (induction xs arbitrary: n) simp_all

text \<open>What the tree and the readers rely on: the contract of a queue that may coalesce.\<close>

locale event_queue =
  fixes push :: "'q \<Rightarrow> event \<Rightarrow> 'q"
    and pop :: "'q \<Rightarrow> envelope option \<times> 'q"
    and items :: "'q \<Rightarrow> event list"
    and sent :: "'q \<Rightarrow> nat"
    and ok :: "'q \<Rightarrow> bool"
    and req :: string
  assumes ok_push: "ok q \<Longrightarrow> ok (push q e)"
    and items_push: "ok q \<Longrightarrow> items (push q e) = items q @ [e]"
    and sent_push: "ok q \<Longrightarrow> sent (push q e) = sent q"
    and pop_none: "ok q \<Longrightarrow> pop q = (None, q') \<Longrightarrow> items q = [] \<and> q' = q"
    and pop_some: "ok q \<Longrightarrow> pop q = (Some env, q') \<Longrightarrow>
      (\<exists>ds e. items q = ds @ e # items q' \<and> all_stale ds (e # items q') \<and>
        env = \<lparr>env_seq = Suc (sent q), env_request = req, env_event = Some e\<rparr>) \<and>
      ok q' \<and> sent q' = Suc (sent q)"
begin

lemma run_delivers:
  "ok q \<Longrightarrow> run_steps push pop ss q = (envs, q') \<Longrightarrow>
     ok q' \<and> (\<exists>es. envs = numbered (sent q) req es \<and> sent q' = sent q + length es \<and>
       coalesced (items q @ pushed ss) (es @ items q'))"
proof (induction ss arbitrary: q envs q')
  case (Cons s ss)
  show ?case
  proof (cases s)
    case (Push e)
    with Cons.prems have "run_steps push pop ss (push q e) = (envs, q')" by simp
    from Cons.IH [OF ok_push [OF Cons.prems(1)] this] Push Cons.prems(1)
    show ?thesis by (simp add: items_push sent_push)
  next
    case Pop
    obtain r q1 where pop: "pop q = (r, q1)" by (cases "pop q")
    show ?thesis
    proof (cases r)
      case None
      with pop_none [OF Cons.prems(1)] pop Pop Cons.prems Cons.IH [OF Cons.prems(1)]
      show ?thesis by auto
    next
      case (Some env)
      with pop_some [OF Cons.prems(1)] pop obtain ds e where one:
        "items q = ds @ e # items q1" "all_stale ds (e # items q1)"
        "env = \<lparr>env_seq = Suc (sent q), env_request = req, env_event = Some e\<rparr>"
        "ok q1" "sent q1 = Suc (sent q)" by blast
      obtain envs1 where rest: "run_steps push pop ss q1 = (envs1, q')" "envs = env # envs1"
        using Cons.prems(2) Pop pop Some by (auto simp: Let_def split: prod.splits)
      from Cons.IH [OF one(4) rest(1)] obtain es where es: "ok q'"
        "envs1 = numbered (sent q1) req es" "sent q' = sent q1 + length es" "coalesced (items q1 @ pushed ss) (es @ items q')"
        by blast
      then have "coalesced (ds @ (e # items q1) @ pushed ss) ((e # es) @ items q')"
        by (intro coalesced_prefix [OF one(2)]) (simp add: coalesced_keep)
      with es one rest Pop show ?thesis by (intro conjI exI [of _ "e # es"]) simp_all
    qed
  qed
qed (auto intro!: exI [of _ "[]"])

end

interpretation outbox: event_queue outbox_push "outbox_next req" q_items q_seq queue_ok req for req
  by unfold_locales
    (simp_all add: queue_ok_push outbox_next_None outbox_next_Some)

lemma outbox_drain_empties:
  "queue_ok q \<Longrightarrow> outbox_drain req q = (envs, q') \<Longrightarrow>
     q_items q' = [] \<and> (\<exists>es. envs = numbered (q_seq q) req es \<and> coalesced (q_items q) es)"
proof (induction req q arbitrary: envs q' rule: outbox_drain.induct)
  case (1 req q)
  show ?case
  proof (cases "outbox_next req q")
    case (Pair r q1)
    show ?thesis
    proof (cases r)
      case None
      with Pair "1.prems" outbox_next_None [OF "1.prems"(1)] show ?thesis
        by (auto simp: outbox_drain.simps [of req q] intro!: exI [of _ "[]"])
    next
      case (Some env)
      note pop = outbox_next_Some [OF "1.prems"(1) Pair [unfolded Some]]
      obtain envs1 where rest: "outbox_drain req q1 = (envs1, q')" "envs = env # envs1"
        using "1.prems"(2) Pair Some
        by (auto simp: outbox_drain.simps [of req q] split: prod.splits)
      from pop have "queue_ok q1" by blast
      from "1.IH" [OF Pair [symmetric] Some this rest(1)] pop rest(2) show ?thesis
        by (metis append_Nil2 coalesced_keep coalesced_prefix numbered_Cons)
    qed
  qed
qed

text \<open>The queue from its creation: the writers' and the reader's steps in the order they took the lock.\<close>

definition run_queue :: "string \<Rightarrow> queue_step list \<Rightarrow> envelope list \<times> queue" where
  "run_queue req ss = run_steps outbox_push (outbox_next req) ss empty_queue"

end
