(* ===== verification/Event_Tree.thy ===== *)
theory Event_Tree
  imports Outbox
begin

text \<open>
  The tree of running nodes (\<open>crates/events/src/tree.rs\<close>): which nodes run, which of their
  children's keys are taken, and the events each operation sends. Operations that are refused
  return a \<open>Misuse\<close> and leave the tree as it was.

  The events go to the outbox in the order they are sent; the tree keeps only the list of them
  (\<open>t_sent\<close>), and theory Outbox says what the queue makes of it. The \<open>stopped\<close> closure
  is read once per use, so its answer is an argument of the operation that asks for it. The
  handles \<open>Node\<close> are borrows of the same operations and are not modelled; a node handle that is
  dropped calls \<open>abandon\<close>.
\<close>

section \<open>State\<close>

datatype misuse =
    NotOpen nat
  | ChildrenOpen nat nat
  | DuplicateKey nat string

text \<open>
  What an operation that does not succeed does: return a misuse, panic on a broken invariant,
  or walk up a cycle of parents for ever. The last two are shown not to happen.
\<close>

datatype tree_error =
    Misused misuse
  | TreePanic string
  | TreeDiverges

definition ROOT :: nat where
  "ROOT = 1"

record start =
  start_key :: string
  start_kind :: kind
  start_planned :: "string list"
  start_shielded :: bool

definition start_new :: "string \<Rightarrow> kind \<Rightarrow> start" where
  "start_new key k = \<lparr>start_key = key, start_kind = k, start_planned = [], start_shielded = False\<rparr>"

record ending =
  end_status :: status
  end_cancellation :: cancellation
  end_diagnostic :: "diagnostic option"
  end_result :: "node_result option"
  end_exit_code :: u32

definition ending_new :: "status \<Rightarrow> ending" where
  "ending_new s =
     \<lparr>end_status = s, end_cancellation = Cancellation_Unspecified, end_diagnostic = None,
      end_result = None, end_exit_code = 0\<rparr>"

definition ending_succeeded :: ending where
  "ending_succeeded = ending_new Status_Succeeded"

definition ending_already_satisfied :: ending where
  "ending_already_satisfied = ending_new Status_AlreadySatisfied"

definition ending_failed :: "diagnostic \<Rightarrow> ending" where
  "ending_failed d = (ending_new Status_Failed)\<lparr>end_diagnostic := Some d\<rparr>"

definition ending_cancelled :: "cancellation \<Rightarrow> ending" where
  "ending_cancelled cause = (ending_new Status_Cancelled)\<lparr>end_cancellation := cause\<rparr>"

text \<open>The exit code of the root (\<open>Ending::for_root\<close>).\<close>

definition exit_succeeded :: u32 where "exit_succeeded = 0"
definition exit_failed :: u32 where "exit_failed = 1"
definition exit_usage :: u32 where "exit_usage = 2"
definition exit_problems_remain :: u32 where "exit_problems_remain = 3"
definition exit_interrupted :: u32 where "exit_interrupted = 130"

definition ending_for_root :: "bool \<Rightarrow> ending \<Rightarrow> ending" where
  "ending_for_root problems_remain e =
     (let misused = (case end_diagnostic e of
            None \<Rightarrow> False
          | Some d \<Rightarrow> diag_code d = code_i32 Code_Usage \<or> diag_code d = code_i32 Code_ConfirmationRequired);
          code = (case end_status e of
            Status_Failed \<Rightarrow> if misused then exit_usage else exit_failed
          | Status_Cancelled \<Rightarrow> exit_interrupted
          | _ \<Rightarrow> if problems_remain then exit_problems_remain else exit_succeeded)
      in e\<lparr>end_exit_code := code\<rparr>)"

record open_node =
  on_parent :: nat
  on_planned :: "string list"
  on_used :: "string set"
  on_children :: nat
  on_bytes :: "byte_count option"
  on_builds :: "build_count option"

text \<open>\<open>Open::changed\<close>: whether the progress is news, and the gauge it leaves.\<close>

fun open_changed :: "progress \<Rightarrow> open_node \<Rightarrow> bool \<times> open_node" where
  "open_changed (Progress_Builds b) n = (on_builds n \<noteq> Some b, n\<lparr>on_builds := Some b\<rparr>)"
| "open_changed (Progress_Bytes b) n = (on_bytes n \<noteq> Some b, n\<lparr>on_bytes := Some b\<rparr>)"
| "open_changed _ n = (True, n)"

record tree =
  t_sent :: "event list"
  t_next :: nat
  t_open :: "open_node option list"

definition tree_get :: "tree \<Rightarrow> nat \<rightharpoonup> open_node" where
  "tree_get t nid = (if nid < length (t_open t) then t_open t ! nid else None)"

definition tree_set :: "tree \<Rightarrow> nat \<Rightarrow> open_node option \<Rightarrow> tree" where
  "tree_set t nid n = t\<lparr>t_open := (t_open t)[nid := n]\<rparr>"

definition tree_send :: "tree \<Rightarrow> event \<Rightarrow> tree" where
  "tree_send t e = t\<lparr>t_sent := t_sent t @ [e]\<rparr>"

definition is_open :: "tree \<Rightarrow> nat \<Rightarrow> bool" where
  "is_open t nid \<longleftrightarrow> tree_get t nid \<noteq> None"

section \<open>Operations\<close>

definition tree_claim :: "tree \<Rightarrow> nat \<Rightarrow> string \<Rightarrow> tree_error + tree" where
  "tree_claim t parent key =
     (case tree_get t parent of
        None \<Rightarrow> Inl (Misused (NotOpen parent))
      | Some n \<Rightarrow>
          if key \<in> on_used n then Inl (Misused (DuplicateKey parent key))
          else Inr (tree_set t parent (Some (n\<lparr>on_used := insert key (on_used n)\<rparr>))))"

definition tree_open_node :: "tree \<Rightarrow> nat \<Rightarrow> start \<Rightarrow> nat \<times> tree" where
  "tree_open_node t parent s =
     (let nid = t_next t;
          t1 = t\<lparr>t_next := nid + 1\<rparr>;
          t2 = (case tree_get t1 parent of
                  None \<Rightarrow> t1
                | Some n \<Rightarrow> tree_set t1 parent (Some (n\<lparr>on_children := on_children n + 1\<rparr>)));
          t3 = tree_send t2 (Event_NodeStarted
                 \<lparr>ns_id = nid, ns_parent = parent, ns_key = start_key s,
                  ns_planned = start_planned s, ns_shielded = start_shielded s,
                  ns_kind = Some (start_kind s)\<rparr>);
          t4 = (if length (t_open t3) \<le> nid
                then t3\<lparr>t_open := t_open t3 @ replicate (nid + 1 - length (t_open t3)) None\<rparr>
                else t3)
      in (nid, tree_set t4 nid (Some
           \<lparr>on_parent = parent, on_planned = start_planned s, on_used = {}, on_children = 0,
            on_bytes = None, on_builds = None\<rparr>)))"

definition tree_new :: "start \<Rightarrow> tree" where
  "tree_new s = snd (tree_open_node \<lparr>t_sent = [], t_next = ROOT, t_open = []\<rparr> 0 s)"

definition tree_start :: "tree \<Rightarrow> nat \<Rightarrow> start \<Rightarrow> tree_error + (nat \<times> tree)" where
  "tree_start t parent s =
     and_then (tree_claim t parent (start_key s)) (\<lambda>t'. Inr (tree_open_node t' parent s))"

definition emit_not_run :: "nat \<Rightarrow> not_run_reason \<Rightarrow> string \<Rightarrow> string \<Rightarrow> event" where
  "emit_not_run parent reason blocked_by key =
     Event_NotRun \<lparr>nr_parent = parent, nr_key = key, nr_reason = not_run_reason_i32 reason,
       nr_blocked_by = blocked_by\<rparr>"

definition tree_not_run :: "tree \<Rightarrow> nat \<Rightarrow> string \<Rightarrow> not_run_reason \<Rightarrow> tree_error + tree" where
  "tree_not_run t parent key reason =
     and_then (tree_claim t parent key) (\<lambda>t'. Inr (tree_send t' (emit_not_run parent reason [] key)))"

definition tree_blocked :: "tree \<Rightarrow> nat \<Rightarrow> string \<Rightarrow> string \<Rightarrow> tree_error + tree" where
  "tree_blocked t parent key by =
     and_then (tree_claim t parent key)
       (\<lambda>t'. Inr (tree_send t' (emit_not_run parent NotRunReason_Blocked by key)))"

definition tree_progress :: "tree \<Rightarrow> nat \<Rightarrow> progress \<Rightarrow> tree_error + tree" where
  "tree_progress t nid p =
     (case tree_get t nid of
        None \<Rightarrow> Inl (Misused (NotOpen nid))
      | Some n \<Rightarrow>
          (let (changed, n') = open_changed p n; t' = tree_set t nid (Some n')
           in Inr (if changed
                   then tree_send t' (Event_NodeProgress \<lparr>np_id = nid, np_progress = Some p\<rparr>)
                   else t')))"

definition tree_warn :: "tree \<Rightarrow> nat \<Rightarrow> diagnostic \<Rightarrow> tree_error + tree" where
  "tree_warn t nid d =
     (if \<not> is_open t nid then Inl (Misused (NotOpen nid))
      else Inr (tree_send t (Event_Diagnostic
             (Diagnostic (diag_code d) (severity_i32 Severity_Warning) nid (diag_message d)
               (diag_causes d) (diag_detail d)))))"

definition find_child :: "tree \<Rightarrow> nat \<Rightarrow> nat option" where
  "find_child t nid =
     find_index (\<lambda>n. case n of None \<Rightarrow> False | Some n \<Rightarrow> on_parent n = nid) (t_open t)"

definition tree_finish :: "tree \<Rightarrow> nat \<Rightarrow> ending \<Rightarrow> tree_error + tree" where
  "tree_finish t nid e =
     (case tree_get t nid of
        None \<Rightarrow> Inl (Misused (NotOpen nid))
      | Some n \<Rightarrow>
          if on_children n > 0 then
            (case find_child t nid of
               None \<Rightarrow> Inl (TreePanic ''a counted child is open'')
             | Some child \<Rightarrow> Inl (Misused (ChildrenOpen nid child)))
          else
            (let t1 = tree_set t nid None;
                 t2 = (case tree_get t1 (on_parent n) of
                         None \<Rightarrow> t1
                       | Some p \<Rightarrow>
                           tree_set t1 (on_parent n) (Some (p\<lparr>on_children := on_children p - 1\<rparr>)));
                 t3 = fold (\<lambda>key t. tree_send t (emit_not_run nid NotRunReason_NotReached [] key))
                        (filter (\<lambda>key. key \<notin> on_used n) (on_planned n)) t2
             in Inr (tree_send t3 (Event_NodeFinished
                  \<lparr>nf_id = nid, nf_status = status_i32 (end_status e),
                   nf_diagnostic = end_diagnostic e, nf_exit_code = end_exit_code e,
                   nf_cancellation = cancellation_i32 (end_cancellation e),
                   nf_result = end_result e\<rparr>))))"

text \<open>
  The walk up to the root. It visits one open node after another, so in a table of \<open>n\<close> entries
  either it ends within \<open>Suc n\<close> rounds or it never does.
\<close>

fun descends_within :: "nat \<Rightarrow> tree \<Rightarrow> nat \<Rightarrow> nat \<Rightarrow> bool option" where
  "descends_within 0 t node ancestor = None"
| "descends_within (Suc fuel) t node ancestor =
     (if node = ancestor then Some True
      else case tree_get t node of
        Some n \<Rightarrow> descends_within fuel t (on_parent n) ancestor
      | None \<Rightarrow> Some False)"

definition descends_from :: "tree \<Rightarrow> nat \<Rightarrow> nat \<Rightarrow> bool option" where
  "descends_from t node ancestor = descends_within (Suc (length (t_open t))) t node ancestor"

definition abandoned_ending :: "cancellation option \<Rightarrow> ending" where
  "abandoned_ending stopped =
     (case stopped of Some cause \<Rightarrow> ending_cancelled cause | None \<Rightarrow> ending_new Status_Failed)"

fun finish_all :: "ending \<Rightarrow> nat list \<Rightarrow> tree \<Rightarrow> tree_error + tree" where
  "finish_all e [] t = Inr t"
| "finish_all e (node # nodes) t =
     (case tree_finish t node e of
        Inl _ \<Rightarrow> Inl (TreePanic ''a child always has a higher nid than its parent'')
      | Inr t' \<Rightarrow> finish_all e nodes t')"

definition tree_abandon :: "cancellation option \<Rightarrow> tree \<Rightarrow> nat \<Rightarrow> tree_error + tree" where
  "tree_abandon stopped t nid =
     (let running = filter (is_open t) [0..<length (t_open t)]
      in if \<exists>node \<in> set running. descends_from t node nid = None then Inl TreeDiverges
         else
           (let below = filter (\<lambda>node. descends_from t node nid = Some True) running
            in if below = [] then Inl (Misused (NotOpen nid))
               else finish_all (abandoned_ending stopped) (rev (sort below)) t))"

text \<open>\<open>Drop for Tree\<close>: whatever still runs is abandoned with the root.\<close>

definition tree_drop :: "cancellation option \<Rightarrow> tree \<Rightarrow> tree_error + tree" where
  "tree_drop stopped t = (if is_open t ROOT then tree_abandon stopped t ROOT else Inr t)"

section \<open>The invariant of the table\<close>

text \<open>
  A parent is open and has a smaller id than its children, and every node counts its open
  children. The invariant is stated of the lookup function, so that each operation's effect is
  a function update.
\<close>

definition kids :: "(nat \<rightharpoonup> open_node) \<Rightarrow> nat \<Rightarrow> nat set" where
  "kids g i = {c. \<exists>n. g c = Some n \<and> on_parent n = i}"

definition forest :: "(nat \<rightharpoonup> open_node) \<Rightarrow> nat \<Rightarrow> bool" where
  "forest g b \<longleftrightarrow>
     (\<forall>i n. g i = Some n \<longrightarrow> 0 < i \<and> i < b \<and> on_children n = card (kids g i) \<and>
        (if i = ROOT then on_parent n = 0 else on_parent n < i \<and> g (on_parent n) \<noteq> None))"

definition tree_ok :: "tree \<Rightarrow> bool" where
  "tree_ok t \<longleftrightarrow> length (t_open t) = t_next t \<and> 1 < t_next t \<and> forest (tree_get t) (t_next t)"

lemma forestD:
  assumes "forest g b" and "g i = Some n"
  shows "0 < i" "i < b" "on_children n = card (kids g i)"
    "i = ROOT \<Longrightarrow> on_parent n = 0" "i \<noteq> ROOT \<Longrightarrow> on_parent n < i" "i \<noteq> ROOT \<Longrightarrow> g (on_parent n) \<noteq> None"
  using assms unfolding forest_def by (metis (full_types))+

lemma finite_kids: "forest g b \<Longrightarrow> finite (kids g i)"
  by (rule finite_subset [of _ "{..<b}"]) (auto simp: kids_def dest: forestD(2))

lemma kids_greater: "forest g b \<Longrightarrow> c \<in> kids g i \<Longrightarrow> i < c"
proof -
  assume f: "forest g b" and "c \<in> kids g i"
  then obtain n where n: "g c = Some n" "on_parent n = i" by (auto simp: kids_def)
  show "i < c"
  proof (cases "c = ROOT")
    case True
    from forestD(4) [OF f n(1) True] forestD(1) [OF f n(1)] n(2) show ?thesis by simp
  next
    case False
    from forestD(5) [OF f n(1) False] n(2) show ?thesis by simp
  qed
qed

lemma forestI:
  assumes "\<And>i n. g i = Some n \<Longrightarrow> 0 < i" "\<And>i n. g i = Some n \<Longrightarrow> i < b"
    and "\<And>i n. g i = Some n \<Longrightarrow> on_children n = card (kids g i)"
    and "\<And>n. g ROOT = Some n \<Longrightarrow> on_parent n = 0"
    and "\<And>i n. g i = Some n \<Longrightarrow> i \<noteq> ROOT \<Longrightarrow> on_parent n < i \<and> g (on_parent n) \<noteq> None"
  shows "forest g b"
  unfolding forest_def
proof (intro allI impI)
  fix i n assume g: "g i = Some n"
  show "0 < i \<and> i < b \<and> on_children n = card (kids g i) \<and>
      (if i = ROOT then on_parent n = 0 else on_parent n < i \<and> g (on_parent n) \<noteq> None)"
  proof (intro conjI)
    show "0 < i" "i < b" "on_children n = card (kids g i)" by (rule assms(1-3) [OF g])+
    show "if i = ROOT then on_parent n = 0 else on_parent n < i \<and> g (on_parent n) \<noteq> None"
    proof (cases "i = ROOT")
      case True
      with assms(4) g have "on_parent n = 0" by blast
      with True show ?thesis by (simp only: if_True simp_thms)
    next
      case False
      from assms(5) [OF g False] False show ?thesis by (simp only: if_False simp_thms)
    qed
  qed
qed

lemma forest_same:
  assumes f: "forest g b" and g: "g i = Some n"
    and n': "on_parent n' = on_parent n" "on_children n' = on_children n"
  shows "forest (g(i \<mapsto> n')) b"
proof -
  have kids: "kids (g(i \<mapsto> n')) j = kids g j" for j
  proof (rule set_eqI)
    fix c
    show "c \<in> kids (g(i \<mapsto> n')) j \<longleftrightarrow> c \<in> kids g j"
      by (cases "c = i") (simp_all add: kids_def g n')
  qed
  have old: "\<exists>m0. g j = Some m0 \<and> on_parent m = on_parent m0 \<and> on_children m = on_children m0"
    if "(g(i \<mapsto> n')) j = Some m" for j m
    using that by (cases "j = i") (simp_all add: g n' [symmetric])
  show ?thesis
  proof (rule forestI)
    fix j m assume "(g(i \<mapsto> n')) j = Some m"
    from old [OF this] obtain m0 where m0: "g j = Some m0" and m: "on_parent m = on_parent m0"
      "on_children m = on_children m0" by blast
    show "0 < j" "j < b" by (rule forestD [OF f m0])+
    show "on_children m = card (kids (g(i \<mapsto> n')) j)" using forestD(3) [OF f m0] m by (simp add: kids)
    show "on_parent m < j \<and> (g(i \<mapsto> n')) (on_parent m) \<noteq> None" if "j \<noteq> ROOT"
      using forestD(5,6) [OF f m0 that] m by simp
  next
    fix m assume "(g(i \<mapsto> n')) ROOT = Some m"
    from old [OF this] obtain m0 where "g ROOT = Some m0" "on_parent m = on_parent m0" by blast
    with forestD(4) [OF f this(1)] show "on_parent m = 0" by simp
  qed
qed

lemma forest_add:
  assumes f: "forest g b" and g: "g p = Some n" and new: "on_parent m = p" "on_children m = 0"
    and n': "on_parent n' = on_parent n" "on_children n' = Suc (on_children n)" and b: "1 < b"
  shows "forest (g(p \<mapsto> n', b \<mapsto> m)) (Suc b)" (is "forest ?g _")
proof -
  have p: "0 < p" "p < b" using forestD [OF f g] by auto
  have gb: "g b = None" using forestD(2) [OF f, of b] by fastforce
  have kids: "kids ?g j = (if j = p then insert b (kids g j) else kids g j)" for j
    using g new n' p gb by (auto simp: kids_def)
  have "b \<notin> kids g p" using gb by (auto simp: kids_def)
  then have count: "card (kids ?g p) = Suc (card (kids g p))"
    using finite_kids [OF f] by (simp add: kids)
  have leaf: "kids g b = {}"
    using kids_greater [OF f, of _ b] forestD(2) [OF f] by (fastforce simp: kids_def)
  show ?thesis
  proof (rule forestI)
    fix j k assume gj: "?g j = Some k"
    consider "j = b" "k = m" | "j = p" "k = n'" | "j \<noteq> b" "j \<noteq> p" "g j = Some k"
      using gj by (auto split: if_splits)
    note cases = this
    show "0 < j" by (cases rule: cases) (use b p in \<open>auto dest: forestD [OF f]\<close>)
    show "j < Suc b" by (cases rule: cases) (use p in \<open>auto dest: forestD(2) [OF f]\<close>)
    show "on_children k = card (kids ?g j)"
    proof (cases rule: cases)
      case 1
      with p leaf new show ?thesis by (simp add: kids)
    next
      case 2
      with count n' forestD(3) [OF f g] show ?thesis by simp
    next
      case 3
      with forestD(3) [OF f 3(3)] show ?thesis by (simp add: kids)
    qed
    show "on_parent k < j \<and> ?g (on_parent k) \<noteq> None" if "j \<noteq> ROOT"
      using that
      by (cases rule: cases) (use p new n' forestD(5,6) [OF f g] in \<open>auto dest: forestD(5,6) [OF f]\<close>)
  next
    fix k assume "?g ROOT = Some k"
    with b have "ROOT = p \<and> k = n' \<or> ROOT \<noteq> p \<and> g ROOT = Some k"
      by (auto simp: ROOT_def split: if_splits)
    then show "on_parent k = 0" using n' forestD(4) [OF f g] by (auto dest: forestD(4) [OF f])
  qed
qed

text \<open>What \<open>finish\<close> does to the table.\<close>

definition cut_leaf :: "(nat \<rightharpoonup> open_node) \<Rightarrow> nat \<Rightarrow> open_node \<Rightarrow> nat \<rightharpoonup> open_node" where
  "cut_leaf g i n =
     (case (g(i := None)) (on_parent n) of
        None \<Rightarrow> g(i := None)
      | Some p \<Rightarrow> g(i := None, on_parent n \<mapsto> p\<lparr>on_children := on_children p - 1\<rparr>))"

lemma cut_leaf_Some:
  "cut_leaf g i n j = Some m \<longleftrightarrow> j \<noteq> i \<and> (\<exists>m0. g j = Some m0 \<and>
     m = (if j = on_parent n then m0\<lparr>on_children := on_children m0 - 1\<rparr> else m0))"
  by (auto simp: cut_leaf_def split: option.splits if_splits)

lemma cut_leaf_None: "cut_leaf g i n j = None \<longleftrightarrow> j = i \<or> g j = None"
  by (auto simp: cut_leaf_def split: option.splits if_splits)

lemma forest_remove:
  assumes f: "forest g b" and g: "g i = Some n" and leaf: "on_children n = 0"
  shows "forest (cut_leaf g i n) b"
proof -
  let ?g = "cut_leaf g i n"
  have none: "kids g i = {}" using forestD(3) [OF f g] leaf finite_kids [OF f] by simp
  have kids: "kids ?g j = kids g j - {i}" for j
  proof (rule set_eqI)
    fix c
    show "c \<in> kids ?g j \<longleftrightarrow> c \<in> kids g j - {i}"
      by (cases "c = on_parent n"; cases "g c") (auto simp: kids_def cut_leaf_Some)
  qed
  have mem: "i \<in> kids g j \<longleftrightarrow> j = on_parent n" for j using g by (auto simp: kids_def)
  have count: "card (kids ?g j) = (if j = on_parent n then card (kids g j) - 1 else card (kids g j))" for j
    using mem [of j] by (auto simp: kids)
  show ?thesis
  proof (rule forestI)
    fix j m assume "?g j = Some m"
    then obtain m0 where m0: "g j = Some m0" "j \<noteq> i"
      and m: "m = (if j = on_parent n then m0\<lparr>on_children := on_children m0 - 1\<rparr> else m0)"
      by (auto simp: cut_leaf_Some)
    show "0 < j" "j < b" using forestD [OF f m0(1)] by auto
    show "on_children m = card (kids ?g j)" using forestD(3) [OF f m0(1)] m by (simp add: count)
    show "on_parent m < j \<and> ?g (on_parent m) \<noteq> None" if "j \<noteq> ROOT"
    proof -
      have "on_parent m0 \<noteq> i" using none m0(1) by (auto simp: kids_def)
      with forestD(5,6) [OF f m0(1) that] m show ?thesis by (simp add: cut_leaf_None)
    qed
  next
    fix m assume "?g ROOT = Some m"
    then show "on_parent m = 0" using forestD(4) [OF f] by (auto simp: cut_leaf_Some)
  qed
qed

section \<open>Effects\<close>

lemma tree_get_set [simp]:
  "tree_get (tree_set t i x) = (if i < length (t_open t) then (tree_get t)(i := x) else tree_get t)"
  by (auto simp: tree_get_def tree_set_def fun_eq_iff)

lemma tree_set_simps [simp]:
  "t_sent (tree_set t i x) = t_sent t" "t_next (tree_set t i x) = t_next t"
  "length (t_open (tree_set t i x)) = length (t_open t)"
  by (simp_all add: tree_set_def)

lemma tree_send_simps [simp]:
  "tree_get (tree_send t e) = tree_get t" "t_sent (tree_send t e) = t_sent t @ [e]"
  "t_next (tree_send t e) = t_next t" "t_open (tree_send t e) = t_open t"
  by (simp_all add: tree_send_def tree_get_def fun_eq_iff)

lemma tree_get_Some_less: "tree_get t i = Some n \<Longrightarrow> i < length (t_open t)"
  by (simp add: tree_get_def split: if_splits)

lemma tree_claim_Inr:
  "tree_claim t p k = Inr t' \<longleftrightarrow>
     (\<exists>n. tree_get t p = Some n \<and> k \<notin> on_used n \<and>
       t' = tree_set t p (Some (n\<lparr>on_used := insert k (on_used n)\<rparr>)))"
  by (auto simp: tree_claim_def split: option.splits if_splits)

definition fresh_node :: "nat \<Rightarrow> string list \<Rightarrow> open_node" where
  "fresh_node p planned = \<lparr>on_parent = p, on_planned = planned, on_used = {}, on_children = 0,
     on_bytes = None, on_builds = None\<rparr>"

definition started_event :: "nat \<Rightarrow> nat \<Rightarrow> start \<Rightarrow> event" where
  "started_event i p s = Event_NodeStarted
     \<lparr>ns_id = i, ns_parent = p, ns_key = start_key s, ns_planned = start_planned s,
      ns_shielded = start_shielded s, ns_kind = Some (start_kind s)\<rparr>"

definition finished_event :: "nat \<Rightarrow> ending \<Rightarrow> event" where
  "finished_event i e = Event_NodeFinished
     \<lparr>nf_id = i, nf_status = status_i32 (end_status e), nf_diagnostic = end_diagnostic e,
      nf_exit_code = end_exit_code e, nf_cancellation = cancellation_i32 (end_cancellation e),
      nf_result = end_result e\<rparr>"

lemma tree_start_effect:
  assumes "tree_start t p s = Inr (i, t')" and "length (t_open t) = t_next t"
  shows "\<exists>n. tree_get t p = Some n \<and> start_key s \<notin> on_used n \<and> i = t_next t \<and>
    t_sent t' = t_sent t @ [started_event i p s] \<and> t_next t' = Suc (t_next t) \<and>
    length (t_open t') = t_next t' \<and>
    tree_get t' = (tree_get t)(p \<mapsto> n\<lparr>on_used := insert (start_key s) (on_used n),
        on_children := Suc (on_children n)\<rparr>, i \<mapsto> fresh_node p (start_planned s))"
proof -
  from assms(1) obtain n where n: "tree_get t p = Some n" "start_key s \<notin> on_used n"
    and op: "tree_open_node (tree_set t p (Some (n\<lparr>on_used := insert (start_key s) (on_used n)\<rparr>))) p s = (i, t')"
    by (auto simp: tree_start_def tree_claim_Inr)
  have "p < length (t_open t)" using n(1) by (rule tree_get_Some_less)
  with op n assms(2) show ?thesis
    by (auto simp: tree_open_node_def Let_def tree_get_def tree_set_def tree_send_def fresh_node_def
        started_event_def fun_eq_iff nth_append nth_list_update)
qed

lemma fold_send:
  "fold (\<lambda>key t. tree_send t (f key)) keys t = t\<lparr>t_sent := t_sent t @ map f keys\<rparr>"
  by (induction keys arbitrary: t) (simp_all add: tree_send_def)

lemma tree_get_sent [simp]: "tree_get (t\<lparr>t_sent := x\<rparr>) = tree_get t"
  by (simp add: tree_get_def fun_eq_iff)

lemma tree_finish_effect:
  assumes "tree_finish t i e = Inr t'"
  shows "\<exists>n. tree_get t i = Some n \<and> on_children n = 0 \<and>
    t_sent t' = t_sent t
      @ map (emit_not_run i NotRunReason_NotReached []) (filter (\<lambda>k. k \<notin> on_used n) (on_planned n))
      @ [finished_event i e] \<and>
    t_next t' = t_next t \<and> length (t_open t') = length (t_open t) \<and>
    tree_get t' = cut_leaf (tree_get t) i n"
proof -
  from assms obtain n where n: "tree_get t i = Some n" and leaf: "on_children n = 0"
    by (auto simp: tree_finish_def split: option.splits if_splits)
  note less = tree_get_Some_less [OF n]
  show ?thesis
  proof (cases "((tree_get t)(i := None)) (on_parent n)")
    case None
    with assms n leaf less show ?thesis
      by (simp add: tree_finish_def Let_def fold_send finished_event_def cut_leaf_def) auto
  next
    case (Some p)
    then have "on_parent n < length (t_open t)"
      by (auto split: if_splits dest: tree_get_Some_less)
    with assms n leaf less Some show ?thesis
      by (simp add: tree_finish_def Let_def fold_send finished_event_def cut_leaf_def) auto
  qed
qed

lemma tree_finish_leaf:
  "tree_get t i = Some n \<Longrightarrow> on_children n = 0 \<Longrightarrow> \<exists>t'. tree_finish t i e = Inr t'"
  by (simp add: tree_finish_def Let_def)

section \<open>Every operation keeps the invariant\<close>

lemma tree_ok_new: "tree_ok (tree_new s)"
  by (auto simp: tree_ok_def tree_new_def tree_open_node_def Let_def tree_get_def tree_set_def
      tree_send_def forest_def ROOT_def kids_def nth_Cons' split: if_splits)

lemma tree_ok_send [simp]: "tree_ok (tree_send t e) = tree_ok t"
  by (simp add: tree_ok_def)

lemma tree_ok_same:
  "tree_ok t \<Longrightarrow> tree_get t i = Some n \<Longrightarrow> on_parent n' = on_parent n \<Longrightarrow>
    on_children n' = on_children n \<Longrightarrow> tree_ok (tree_set t i (Some n'))"
  by (auto simp: tree_ok_def dest: tree_get_Some_less intro: forest_same)

lemma tree_ok_claim: "tree_ok t \<Longrightarrow> tree_claim t p k = Inr t' \<Longrightarrow> tree_ok t'"
  by (auto simp: tree_claim_Inr intro: tree_ok_same)

lemma tree_ok_start: "tree_ok t \<Longrightarrow> tree_start t p s = Inr (i, t') \<Longrightarrow> tree_ok t'"
  by (drule tree_start_effect) (auto simp: tree_ok_def fresh_node_def intro!: forest_add)

lemma tree_ok_not_run: "tree_ok t \<Longrightarrow> tree_not_run t p k r = Inr t' \<Longrightarrow> tree_ok t'"
  by (auto simp: tree_not_run_def dest: tree_ok_claim)

lemma tree_ok_blocked: "tree_ok t \<Longrightarrow> tree_blocked t p k by = Inr t' \<Longrightarrow> tree_ok t'"
  by (auto simp: tree_blocked_def dest: tree_ok_claim)

lemma open_changed_keeps:
  "open_changed p n = (c, n') \<Longrightarrow> on_parent n' = on_parent n \<and> on_children n' = on_children n \<and>
     on_used n' = on_used n \<and> on_planned n' = on_planned n"
  by (cases p) auto

lemma tree_ok_progress: "tree_ok t \<Longrightarrow> tree_progress t i p = Inr t' \<Longrightarrow> tree_ok t'"
  by (auto simp: tree_progress_def Let_def split: option.splits prod.splits
      dest!: open_changed_keeps intro: tree_ok_same)

lemma tree_ok_warn: "tree_ok t \<Longrightarrow> tree_warn t i d = Inr t' \<Longrightarrow> tree_ok t'"
  by (auto simp: tree_warn_def split: if_splits)

lemma tree_ok_finish: "tree_ok t \<Longrightarrow> tree_finish t i e = Inr t' \<Longrightarrow> tree_ok t'"
  by (drule tree_finish_effect) (auto simp: tree_ok_def intro: forest_remove)

section \<open>Abandoning a subtree\<close>

text \<open>Parents have smaller ids, so the walk up ends, and more rounds than the id change nothing.\<close>

lemma parent_less:
  assumes f: "forest g b" and g: "g i = Some n"
  shows "on_parent n < i"
proof (cases "i = ROOT")
  case True
  then show ?thesis using forestD(4) [OF f g True] by (simp add: ROOT_def)
next
  case False
  then show ?thesis by (rule forestD(5) [OF f g])
qed

lemma descends_within_enough:
  "forest (tree_get t) b \<Longrightarrow> node < m \<Longrightarrow> node < k \<Longrightarrow>
    descends_within m t node a = descends_within k t node a \<and> descends_within m t node a \<noteq> None"
proof (induction node arbitrary: m k rule: less_induct)
  case (less node)
  then obtain m' k' where m: "m = Suc m'" "k = Suc k'" by (metis Nat.less_imp_Suc_add)
  show ?case
  proof (cases "tree_get t node")
    case (Some n)
    from parent_less [OF less.prems(1) Some] less.prems(2,3) m
    have "on_parent n < node" "on_parent n < m'" "on_parent n < k'" by auto
    from less.IH [OF this(1) less.prems(1) this(2,3)]
    have "descends_within m' t (on_parent n) a = descends_within k' t (on_parent n) a"
      and some: "descends_within k' t (on_parent n) a \<noteq> None" by metis+
    then show ?thesis
      unfolding m descends_within.simps Some option.simps by (simp del: not_None_eq)
  next
    case None
    then show ?thesis unfolding m by (cases "node = a") simp_all
  qed
qed

lemma descends_from_unfold:
  assumes t: "tree_ok t" and n: "tree_get t node = Some n"
  shows "descends_from t node a = (if node = a then Some True else descends_from t (on_parent n) a)"
    and "descends_from t node a \<noteq> None"
proof -
  from t have f: "forest (tree_get t) (t_next t)" and len: "length (t_open t) = t_next t"
    by (auto simp: tree_ok_def)
  from forestD(2) [OF f n] len have less: "node < length (t_open t)" by simp
  with parent_less [OF f n] have p: "on_parent n < length (t_open t)" "on_parent n < Suc (length (t_open t))"
    by auto
  have "descends_within (length (t_open t)) t (on_parent n) a
      = descends_within (Suc (length (t_open t))) t (on_parent n) a"
    using descends_within_enough [OF f p] by blast
  then show "descends_from t node a = (if node = a then Some True else descends_from t (on_parent n) a)"
    using n unfolding descends_from_def by (simp only: descends_within.simps option.simps)
  from less have more: "node < Suc (length (t_open t))" by simp
  show "descends_from t node a \<noteq> None"
    using descends_within_enough [OF f more more] unfolding descends_from_def by blast
qed

text \<open>Finishing a list of nodes, children before parents, succeeds.\<close>

lemma kids_cut_leaf:
  assumes "g i = Some n"
  shows "kids (cut_leaf g i n) j = kids g j - {i}"
proof (rule set_eqI)
  fix c
  show "c \<in> kids (cut_leaf g i n) j \<longleftrightarrow> c \<in> kids g j - {i}"
    by (cases "c = on_parent n"; cases "g c") (auto simp: kids_def cut_leaf_Some)
qed

lemma finish_all_succeeds:
  "tree_ok t \<Longrightarrow> sorted_wrt (>) nodes \<Longrightarrow> set nodes \<subseteq> {i. is_open t i} \<Longrightarrow>
    (\<And>i. i \<in> set nodes \<Longrightarrow> kids (tree_get t) i \<subseteq> set nodes) \<Longrightarrow>
    \<exists>t'. finish_all e nodes t = Inr t' \<and> tree_ok t' \<and> (\<forall>i. is_open t' i \<longleftrightarrow> is_open t i \<and> i \<notin> set nodes)"
proof (induction nodes arbitrary: t)
  case (Cons i nodes)
  from Cons.prems(3) obtain n where n: "tree_get t i = Some n" by (auto simp: is_open_def)
  have f: "forest (tree_get t) (t_next t)" using Cons.prems(1) by (simp add: tree_ok_def)
  have "kids (tree_get t) i = {}"
    using Cons.prems(2) Cons.prems(4) [of i] kids_greater [OF f, of _ i] by fastforce
  then have leaf: "on_children n = 0" using forestD(3) [OF f n] by simp
  from tree_finish_leaf [OF n leaf, of e] obtain t1 where t1: "tree_finish t i e = Inr t1" by blast
  from tree_finish_effect [OF t1] n have g: "tree_get t1 = cut_leaf (tree_get t) i n" by auto
  have open1: "is_open t1 j \<longleftrightarrow> is_open t j \<and> j \<noteq> i" for j
    by (auto simp: is_open_def g cut_leaf_None)
  have "\<exists>t'. finish_all e nodes t1 = Inr t' \<and> tree_ok t' \<and> (\<forall>j. is_open t' j \<longleftrightarrow> is_open t1 j \<and> j \<notin> set nodes)"
  proof (rule Cons.IH)
    show "tree_ok t1" by (rule tree_ok_finish [OF Cons.prems(1) t1])
    show "sorted_wrt (>) nodes" using Cons.prems(2) by simp
    show "set nodes \<subseteq> {j. is_open t1 j}" using Cons.prems(2,3) by (auto simp: open1)
    show "kids (tree_get t1) j \<subseteq> set nodes" if "j \<in> set nodes" for j
      using Cons.prems(4) [of j] that by (auto simp: g kids_cut_leaf [where g = "tree_get t", OF n])
  qed
  with t1 open1 show ?case by auto
qed (simp add: is_open_def)

definition subtree :: "tree \<Rightarrow> nat \<Rightarrow> nat list" where
  "subtree t nid = filter (\<lambda>node. is_open t node \<and> descends_from t node nid = Some True) [0..<length (t_open t)]"

lemma subtree_kids:
  assumes t: "tree_ok t" and i: "i \<in> set (subtree t a)"
  shows "kids (tree_get t) i \<subseteq> set (subtree t a)"
proof
  fix c assume "c \<in> kids (tree_get t) i"
  then obtain n where n: "tree_get t c = Some n" "on_parent n = i" by (auto simp: kids_def)
  from i have "descends_from t i a = Some True" by (simp add: subtree_def)
  with descends_from_unfold(1) [OF t n(1), of a] n show "c \<in> set (subtree t a)"
    by (auto simp: subtree_def is_open_def dest: tree_get_Some_less)
qed

lemma subtree_empty:
  assumes t: "tree_ok t" and nid: "nid \<noteq> 0"
  shows "subtree t nid = [] \<longleftrightarrow> \<not> is_open t nid"
proof
  assume "subtree t nid = []"
  show "\<not> is_open t nid"
  proof
    assume "is_open t nid"
    then obtain n where n: "tree_get t nid = Some n" by (auto simp: is_open_def)
    with descends_from_unfold(1) [OF t n, of nid] tree_get_Some_less [OF n]
    have "nid \<in> set (subtree t nid)" by (simp add: subtree_def is_open_def)
    with \<open>subtree t nid = []\<close> show False by simp
  qed
next
  assume closed: "\<not> is_open t nid"
  from t have f: "forest (tree_get t) (t_next t)" by (simp add: tree_ok_def)
  have "descends_from t i nid \<noteq> Some True" if "is_open t i" for i
    using that
  proof (induction i rule: less_induct)
    case (less i)
    then obtain n where n: "tree_get t i = Some n" by (auto simp: is_open_def)
    have "i \<noteq> nid" using closed less.prems by auto
    with descends_from_unfold(1) [OF t n, of nid]
    have step: "descends_from t i nid = descends_from t (on_parent n) nid" by simp
    show ?case
    proof (cases "i = ROOT")
      case True
      then have "on_parent n = 0" using forestD(4) [OF f n] by simp
      moreover have "tree_get t 0 = None" using forestD(1) [OF f, of 0] by (cases "tree_get t 0") auto
      ultimately show ?thesis unfolding step using nid by (simp add: descends_from_def)
    next
      case False
      from forestD(5,6) [OF f n False] less.IH [of "on_parent n"] show ?thesis
        unfolding step by (simp add: is_open_def)
    qed
  qed
  then show "subtree t nid = []" by (auto simp: subtree_def filter_empty_conv)
qed

text \<open>The node \<open>0\<close>, which never starts, counts as everybody's ancestor.\<close>

lemma subtree_zero:
  assumes t: "tree_ok t"
  shows "set (subtree t 0) = {i. is_open t i}"
proof -
  from t have f: "forest (tree_get t) (t_next t)" by (simp add: tree_ok_def)
  have "descends_from t i 0 = Some True" if "is_open t i" for i
    using that
  proof (induction i rule: less_induct)
    case (less i)
    then obtain n where n: "tree_get t i = Some n" by (auto simp: is_open_def)
    from forestD(1) [OF f n] descends_from_unfold(1) [OF t n, of 0]
    have step: "descends_from t i 0 = descends_from t (on_parent n) 0" by simp
    show ?case
    proof (cases "i = ROOT")
      case True
      then have "on_parent n = 0" using forestD(4) [OF f n] by simp
      then show ?thesis unfolding step by (simp add: descends_from_def)
    next
      case False
      from forestD(5,6) [OF f n False] less.IH [of "on_parent n"] show ?thesis
        unfolding step by (simp add: is_open_def)
    qed
  qed
  then show ?thesis by (auto simp: subtree_def is_open_def dest: tree_get_Some_less)
qed

lemma tree_abandon_eq:
  assumes "tree_ok t"
  shows "tree_abandon stopped t nid =
    (if subtree t nid = [] then Inl (Misused (NotOpen nid))
     else finish_all (abandoned_ending stopped) (rev (subtree t nid)) t)"
proof -
  let ?running = "filter (is_open t) [0..<length (t_open t)]"
  have none: "\<not> (\<exists>node \<in> set ?running. descends_from t node nid = None)"
  proof
    assume "\<exists>node \<in> set ?running. descends_from t node nid = None"
    then obtain node n where "tree_get t node = Some n" "descends_from t node nid = None"
      by (auto simp: is_open_def)
    with descends_from_unfold(2) [OF assms] show False by blast
  qed
  have sub: "filter (\<lambda>node. descends_from t node nid = Some True) ?running = subtree t nid"
    by (simp add: subtree_def conj_commute)
  have "sorted (subtree t nid)" by (simp add: subtree_def sorted_wrt_filter)
  then show ?thesis
    unfolding tree_abandon_def Let_def sub if_not_P [OF none] by (simp only: sorted_sort_id)
qed

lemma tree_abandon_closes:
  assumes t: "tree_ok t" and "subtree t nid \<noteq> []"
  shows "\<exists>t'. tree_abandon stopped t nid = Inr t' \<and> tree_ok t' \<and>
    (\<forall>i. is_open t' i \<longleftrightarrow> is_open t i \<and> i \<notin> set (subtree t nid))"
proof -
  have "sorted_wrt (<) (subtree t nid)"
    by (simp add: subtree_def sorted_wrt_filter)
  then have "sorted_wrt (>) (rev (subtree t nid))" by (simp add: sorted_wrt_rev)
  moreover have "set (subtree t nid) \<subseteq> {i. is_open t i}" by (auto simp: subtree_def)
  ultimately have "\<exists>t'. finish_all (abandoned_ending stopped) (rev (subtree t nid)) t = Inr t' \<and> tree_ok t' \<and>
    (\<forall>i. is_open t' i \<longleftrightarrow> is_open t i \<and> i \<notin> set (rev (subtree t nid)))"
    using subtree_kids [OF t] by (intro finish_all_succeeds [OF t]) auto
  with assms(2) show ?thesis by (auto simp: tree_abandon_eq [OF t])
qed

end
