(* ===== verification/Validator.thy ===== *)
theory Validator
  imports Event_Tree
begin

text \<open>
  The reader's check of a stream (\<open>crates/events/src/validate.rs\<close>): envelope after envelope it
  keeps what each node was started as, which of its children's keys are taken and which children
  still run, and refuses the first event that breaks one of the rules I1 to I9.

  The node table is a \<open>HashMap\<close> in the code; only \<open>finish\<close> iterates over it, and it sorts what
  it finds, so it is an ordered map here. An index into the entries that is out of range would
  panic; this is the error \<open>ValidatorPanic\<close>, which is shown never to happen.
\<close>

section \<open>State\<close>

datatype violation =
    V_SeqGap nat nat
  | V_RequestChanged nat
  | V_FirstNotRoot nat
  | V_AfterRoot nat
  | V_ZeroId
  | V_DuplicateId nat
  | V_UnknownParent nat nat
  | V_ParentFinished nat nat
  | V_UnknownNode nat
  | V_FinishedTwice nat
  | V_ChildrenOpen nat nat
  | V_DuplicateKey nat string
  | V_PlannedMissing nat string
  | V_NotOpen nat
  | V_RollbackTarget nat nat
  | V_UnspecifiedStatus nat
  | V_UnspecifiedReason nat string
  | V_BlockerMismatch nat string
  | V_CancellationMismatch nat
  | V_ResultMismatch nat
  | V_ExitCodeOnChild nat
  | V_Truncated "nat list"

datatype validator_error = Violated violation | ValidatorPanic

datatype outcome =
    Outcome_Running
  | Outcome_Finished status
  | Outcome_NotRun not_run_reason

record entry =
  entry_id :: "nat option"
  entry_path :: string
  entry_outcome :: outcome

definition validated_outcome :: "entry list \<Rightarrow> string \<Rightarrow> outcome option" where
  "validated_outcome entries path =
     map_option entry_outcome (find (\<lambda>en. entry_path en = path) entries)"

datatype shape = Shape_Command | Shape_Step | Shape_Process | Shape_Inspection | Shape_Other

definition shape_of :: "kind option \<Rightarrow> shape" where
  "shape_of k =
     (case k of
        Some (Kind_Command _) \<Rightarrow> Shape_Command
      | Some (Kind_Step _ _) \<Rightarrow> Shape_Step
      | Some (Kind_Process _ _) \<Rightarrow> Shape_Process
      | Some (Kind_Inspection _ _) \<Rightarrow> Shape_Inspection
      | _ \<Rightarrow> Shape_Other)"

definition shape_accepts :: "shape \<Rightarrow> node_result \<Rightarrow> bool" where
  "shape_accepts sh r =
     (case r of
        Result_Process _ _ \<Rightarrow> sh = Shape_Process
      | Result_Inspection _ \<Rightarrow> sh = Shape_Inspection
      | _ \<Rightarrow> sh = Shape_Command)"

record vrecord =
  vr_parent :: nat
  vr_entry :: nat
  vr_shape :: shape
  vr_planned :: "string list"
  vr_keys :: "string set"
  vr_open_children :: "nat set"
  vr_finished :: bool

record validator =
  v_next_seq :: nat
  v_request :: "string option"
  v_nodes :: "(nat, vrecord) btree"
  v_entries :: "entry list"
  v_root_finished :: bool

definition validator_new :: validator where
  "validator_new =
     \<lparr>v_next_seq = 1, v_request = None, v_nodes = [], v_entries = [], v_root_finished = False\<rparr>"

section \<open>Operations\<close>

definition is_root_start :: "event \<Rightarrow> bool" where
  "is_root_start e =
     (case e of
        Event_NodeStarted s \<Rightarrow>
          ns_id s = ROOT \<and> ns_parent s = 0 \<and> (case ns_kind s of Some (Kind_Command _) \<Rightarrow> True | _ \<Rightarrow> False)
      | _ \<Rightarrow> False)"

text \<open>\<open>started\<close>, in its three parts: the path, with the parent's record updated; the rollback's
  target; the new record.\<close>

definition started_path :: "validator \<Rightarrow> node_started \<Rightarrow> validator_error + (string \<times> validator)" where
  "started_path v s =
     (if ns_id s = ROOT \<and> ns_parent s = 0 then Inr (ns_key s, v)
      else case map_of (v_nodes v) (ns_parent s) of
        None \<Rightarrow> Inl (Violated (V_UnknownParent (ns_id s) (ns_parent s)))
      | Some p \<Rightarrow>
          if vr_finished p then Inl (Violated (V_ParentFinished (ns_id s) (ns_parent s)))
          else if ns_key s \<in> vr_keys p then Inl (Violated (V_DuplicateKey (ns_parent s) (ns_key s)))
          else
            (let p' = p\<lparr>vr_keys := insert (ns_key s) (vr_keys p),
                        vr_open_children := insert (ns_id s) (vr_open_children p)\<rparr>
             in if vr_entry p < length (v_entries v)
                then Inr (entry_path (v_entries v ! vr_entry p) @ ''/'' @ ns_key s,
                       v\<lparr>v_nodes := bt_insert (ns_parent s) p' (v_nodes v)\<rparr>)
                else Inl ValidatorPanic))"

definition rollback_valid :: "validator \<Rightarrow> node_started \<Rightarrow> nat \<Rightarrow> bool" where
  "rollback_valid v s undoes =
     (case map_of (v_nodes v) undoes of
        None \<Rightarrow> False
      | Some target \<Rightarrow>
          vr_shape target = Shape_Step \<and> vr_finished target \<and> vr_parent target = ns_parent s)"

definition rollback_check :: "node_started \<Rightarrow> string \<times> validator \<Rightarrow> validator_error + (string \<times> validator)" where
  "rollback_check s r =
     (case ns_kind s of
        Some (Kind_Rollback undoes) \<Rightarrow>
          if rollback_valid (snd r) s undoes then Inr r
          else Inl (Violated (V_RollbackTarget (ns_id s) undoes))
      | _ \<Rightarrow> Inr r)"

definition started_record :: "node_started \<Rightarrow> string \<times> validator \<Rightarrow> validator" where
  "started_record s r =
     (let v = snd r
      in v\<lparr>v_entries := v_entries v
             @ [\<lparr>entry_id = Some (ns_id s), entry_path = fst r, entry_outcome = Outcome_Running\<rparr>],
           v_nodes := bt_insert (ns_id s)
             \<lparr>vr_parent = ns_parent s, vr_entry = length (v_entries v),
              vr_shape = shape_of (ns_kind s), vr_planned = ns_planned s, vr_keys = {},
              vr_open_children = {}, vr_finished = False\<rparr> (v_nodes v)\<rparr>)"

definition validator_started :: "validator \<Rightarrow> node_started \<Rightarrow> validator_error + validator" where
  "validator_started v s =
     (if ns_id s = 0 then Inl (Violated V_ZeroId)
      else if bt_contains (ns_id s) (v_nodes v) then Inl (Violated (V_DuplicateId (ns_id s)))
      else and_then (and_then (started_path v s) (rollback_check s)) (\<lambda>r. Inr (started_record s r)))"

text \<open>\<open>finished\<close>: what it refuses, then the three updates.\<close>

definition finished_violation :: "vrecord \<Rightarrow> node_finished \<Rightarrow> violation option" where
  "finished_violation r f =
     (let nid = nf_id f; status = status_of_i32 (nf_status f)
      in if vr_finished r then Some (V_FinishedTwice nid)
         else if vr_open_children r \<noteq> {} then Some (V_ChildrenOpen nid (Min (vr_open_children r)))
         else case find (\<lambda>key. key \<notin> vr_keys r) (vr_planned r) of
           Some key \<Rightarrow> Some (V_PlannedMissing nid key)
         | None \<Rightarrow>
             if status = Status_Unspecified then Some (V_UnspecifiedStatus nid)
             else if (status = Status_Cancelled) \<noteq> (nf_cancellation f \<noteq> cancellation_i32 Cancellation_Unspecified)
               then Some (V_CancellationMismatch nid)
             else if (case nf_result f of None \<Rightarrow> False | Some res \<Rightarrow> \<not> shape_accepts (vr_shape r) res)
               then Some (V_ResultMismatch nid)
             else if nid \<noteq> ROOT \<and> nf_exit_code f \<noteq> 0 then Some (V_ExitCodeOnChild nid)
             else None)"

definition finished_nodes :: "vrecord \<Rightarrow> nat \<Rightarrow> (nat, vrecord) btree \<Rightarrow> (nat, vrecord) btree" where
  "finished_nodes r nid nodes =
     (let nodes1 = bt_insert nid (r\<lparr>vr_finished := True\<rparr>) nodes
      in case map_of nodes1 (vr_parent r) of
           None \<Rightarrow> nodes1
         | Some p \<Rightarrow>
             bt_insert (vr_parent r) (p\<lparr>vr_open_children := vr_open_children p - {nid}\<rparr>) nodes1)"

definition validator_finished :: "validator \<Rightarrow> node_finished \<Rightarrow> validator_error + validator" where
  "validator_finished v f =
     (case map_of (v_nodes v) (nf_id f) of
        None \<Rightarrow> Inl (Violated (V_UnknownNode (nf_id f)))
      | Some r \<Rightarrow>
          case finished_violation r f of
            Some bad \<Rightarrow> Inl (Violated bad)
          | None \<Rightarrow>
              if vr_entry r < length (v_entries v)
              then Inr (v\<lparr>v_nodes := finished_nodes r (nf_id f) (v_nodes v),
                     v_entries := (v_entries v)[vr_entry r := (v_entries v ! vr_entry r)
                       \<lparr>entry_outcome := Outcome_Finished (status_of_i32 (nf_status f))\<rparr>],
                     v_root_finished := v_root_finished v \<or> nf_id f = ROOT\<rparr>)
              else Inl ValidatorPanic)"

definition validator_not_run :: "validator \<Rightarrow> not_run \<Rightarrow> validator_error + validator" where
  "validator_not_run v n =
     (let pid = nr_parent n; reason = reason_of_i32 (nr_reason n)
      in case map_of (v_nodes v) pid of
           None \<Rightarrow> Inl (Violated (V_NotOpen pid))
         | Some p \<Rightarrow>
             if vr_finished p then Inl (Violated (V_NotOpen pid))
             else if nr_key n \<in> vr_keys p then Inl (Violated (V_DuplicateKey pid (nr_key n)))
             else if reason = NotRunReason_Unspecified
               then Inl (Violated (V_UnspecifiedReason pid (nr_key n)))
             else if (reason = NotRunReason_Blocked) = (nr_blocked_by n = [])
               then Inl (Violated (V_BlockerMismatch pid (nr_key n)))
             else if vr_entry p < length (v_entries v)
               then Inr (v\<lparr>v_nodes := bt_insert pid (p\<lparr>vr_keys := insert (nr_key n) (vr_keys p)\<rparr>) (v_nodes v),
                      v_entries := v_entries v @ [\<lparr>entry_id = None,
                        entry_path = entry_path (v_entries v ! vr_entry p) @ ''/'' @ nr_key n,
                        entry_outcome = Outcome_NotRun reason\<rparr>]\<rparr>)
             else Inl ValidatorPanic)"

definition validator_open :: "validator \<Rightarrow> nat \<Rightarrow> validator_error + validator" where
  "validator_open v nid =
     (case map_of (v_nodes v) nid of
        None \<Rightarrow> Inl (Violated (V_NotOpen nid))
      | Some r \<Rightarrow> if vr_finished r then Inl (Violated (V_NotOpen nid)) else Inr v)"

text \<open>The dispatch of \<open>push\<close> on an event, and \<open>push\<close> around it.\<close>

definition validator_event :: "validator \<Rightarrow> nat \<Rightarrow> event \<Rightarrow> validator_error + validator" where
  "validator_event v seq e =
     (if v_nodes v = [] \<and> \<not> is_root_start e then Inl (Violated (V_FirstNotRoot seq))
      else case e of
        Event_NodeStarted s \<Rightarrow> validator_started v s
      | Event_NodeFinished f \<Rightarrow> validator_finished v f
      | Event_NotRun n \<Rightarrow> validator_not_run v n
      | Event_NodeProgress p \<Rightarrow> validator_open v (np_id p)
      | Event_Diagnostic d \<Rightarrow> validator_open v (diag_node d))"

definition validator_push :: "validator \<Rightarrow> envelope \<Rightarrow> validator_error + validator" where
  "validator_push v env =
     (let seq = env_seq env
      in if seq \<noteq> v_next_seq v then Inl (Violated (V_SeqGap (v_next_seq v) seq))
         else
           (let v1 = v\<lparr>v_next_seq := v_next_seq v + 1\<rparr>;
                v2 = (case v_request v1 of None \<Rightarrow> v1\<lparr>v_request := Some (env_request env)\<rparr> | Some _ \<Rightarrow> v1)
            in if v_request v2 \<noteq> Some (env_request env) then Inl (Violated (V_RequestChanged seq))
               else if v_root_finished v2 then Inl (Violated (V_AfterRoot seq))
               else case env_event env of
                 None \<Rightarrow> Inr v2
               | Some e \<Rightarrow> validator_event v2 seq e))"

definition validator_finish :: "validator \<Rightarrow> validator_error + entry list" where
  "validator_finish v =
     (if \<not> v_root_finished v
      then Inl (Violated (V_Truncated
             (map fst (filter (\<lambda>(nid, r). \<not> vr_finished r) (v_nodes v)))))
      else Inr (v_entries v))"

fun validator_run :: "validator \<Rightarrow> envelope list \<Rightarrow> validator_error + validator" where
  "validator_run v [] = Inr v"
| "validator_run v (env # envs) = and_then (validator_push v env) (\<lambda>v'. validator_run v' envs)"

definition validate :: "envelope list \<Rightarrow> validator_error + entry list" where
  "validate envs = and_then (validator_run validator_new envs) validator_finish"

end
