(* ===== verification/Stream_Rules.thy ===== *)
theory Stream_Rules
  imports Validator
begin

text \<open>
  The rules of the event stream as a property of the whole list of envelopes, without the
  validator's bookkeeping: what each envelope may be is said of the envelopes before it. The
  validator accepts exactly the streams that follow the rules.
\<close>

section \<open>What a list of events says\<close>

definition starts :: "event list \<Rightarrow> node_started list" where
  "starts es = List.map_filter (\<lambda>e. case e of Event_NodeStarted s \<Rightarrow> Some s | _ \<Rightarrow> None) es"

definition finishes :: "event list \<Rightarrow> node_finished list" where
  "finishes es = List.map_filter (\<lambda>e. case e of Event_NodeFinished f \<Rightarrow> Some f | _ \<Rightarrow> None) es"

definition skips :: "event list \<Rightarrow> not_run list" where
  "skips es = List.map_filter (\<lambda>e. case e of Event_NotRun n \<Rightarrow> Some n | _ \<Rightarrow> None) es"

definition started_ids :: "event list \<Rightarrow> nat set" where
  "started_ids es = ns_id ` set (starts es)"

definition finished_ids :: "event list \<Rightarrow> nat set" where
  "finished_ids es = nf_id ` set (finishes es)"

definition running :: "event list \<Rightarrow> nat \<Rightarrow> bool" where
  "running es i \<longleftrightarrow> i \<in> started_ids es \<and> i \<notin> finished_ids es"

text \<open>The keys taken under a node, and its children that still run.\<close>

definition taken :: "event list \<Rightarrow> nat \<Rightarrow> string set" where
  "taken es p =
     ns_key ` set (filter (\<lambda>s. ns_parent s = p) (starts es))
     \<union> nr_key ` set (filter (\<lambda>n. nr_parent n = p) (skips es))"

definition running_children :: "event list \<Rightarrow> nat \<Rightarrow> nat set" where
  "running_children es p = ns_id ` set (filter (\<lambda>s. ns_parent s = p) (starts es)) - finished_ids es"

lemma stream_append [simp]:
  "starts [] = []" "finishes [] = []" "skips [] = []"
  "starts (es @ fs) = starts es @ starts fs"
  "finishes (es @ fs) = finishes es @ finishes fs"
  "skips (es @ fs) = skips es @ skips fs"
  "starts (e # es) = (case e of Event_NodeStarted s \<Rightarrow> s # starts es | _ \<Rightarrow> starts es)"
  "finishes (e # es) = (case e of Event_NodeFinished f \<Rightarrow> f # finishes es | _ \<Rightarrow> finishes es)"
  "skips (e # es) = (case e of Event_NotRun n \<Rightarrow> n # skips es | _ \<Rightarrow> skips es)"
  by (simp_all add: starts_def finishes_def skips_def List.map_filter_def split: event.splits)

section \<open>The rules\<close>

definition start_rule :: "event list \<Rightarrow> node_started \<Rightarrow> bool" where
  "start_rule es s \<longleftrightarrow>
     ns_id s \<noteq> 0 \<and> ns_id s \<notin> started_ids es \<and>
     (ns_id s = ROOT \<and> ns_parent s = 0 \<or> running es (ns_parent s) \<and> ns_key s \<notin> taken es (ns_parent s)) \<and>
     (case ns_kind s of
        Some (Kind_Rollback undoes) \<Rightarrow>
          undoes \<in> finished_ids es \<and>
          (\<exists>target \<in> set (starts es). ns_id target = undoes \<and>
             shape_of (ns_kind target) = Shape_Step \<and> ns_parent target = ns_parent s)
      | _ \<Rightarrow> True)"

definition finish_rule :: "event list \<Rightarrow> node_finished \<Rightarrow> bool" where
  "finish_rule es f \<longleftrightarrow>
     running es (nf_id f) \<and> running_children es (nf_id f) = {} \<and>
     status_of_i32 (nf_status f) \<noteq> Status_Unspecified \<and>
     (status_of_i32 (nf_status f) = Status_Cancelled \<longleftrightarrow> nf_cancellation f \<noteq> 0) \<and>
     (nf_id f \<noteq> ROOT \<longrightarrow> nf_exit_code f = 0) \<and>
     (\<forall>s \<in> set (starts es). ns_id s = nf_id f \<longrightarrow>
        set (ns_planned s) \<subseteq> taken es (nf_id f) \<and>
        (case nf_result f of None \<Rightarrow> True | Some r \<Rightarrow> shape_accepts (shape_of (ns_kind s)) r))"

definition skip_rule :: "event list \<Rightarrow> not_run \<Rightarrow> bool" where
  "skip_rule es n \<longleftrightarrow>
     running es (nr_parent n) \<and> nr_key n \<notin> taken es (nr_parent n) \<and>
     reason_of_i32 (nr_reason n) \<noteq> NotRunReason_Unspecified \<and>
     (reason_of_i32 (nr_reason n) = NotRunReason_Blocked \<longleftrightarrow> nr_blocked_by n \<noteq> [])"

definition event_rule :: "event list \<Rightarrow> event \<Rightarrow> bool" where
  "event_rule es e \<longleftrightarrow>
     (starts es = [] \<longrightarrow> is_root_start e) \<and>
     (case e of
        Event_NodeStarted s \<Rightarrow> start_rule es s
      | Event_NodeFinished f \<Rightarrow> finish_rule es f
      | Event_NotRun n \<Rightarrow> skip_rule es n
      | Event_NodeProgress p \<Rightarrow> running es (np_id p)
      | Event_Diagnostic d \<Rightarrow> running es (diag_node d))"

definition header_rule :: "envelope list \<Rightarrow> envelope \<Rightarrow> bool" where
  "header_rule pre env \<longleftrightarrow>
     env_seq env = Suc (length pre) \<and>
     (pre \<noteq> [] \<longrightarrow> env_request env = env_request (hd pre)) \<and>
     ROOT \<notin> finished_ids (events_of pre)"

definition envelope_rule :: "envelope list \<Rightarrow> envelope \<Rightarrow> bool" where
  "envelope_rule pre env \<longleftrightarrow>
     header_rule pre env \<and>
     (case env_event env of None \<Rightarrow> True | Some e \<Rightarrow> event_rule (events_of pre) e)"

definition follows_rules :: "envelope list \<Rightarrow> bool" where
  "follows_rules envs \<longleftrightarrow> (\<forall>i < length envs. envelope_rule (take i envs) (envs ! i))"

definition complete_stream :: "envelope list \<Rightarrow> bool" where
  "complete_stream envs \<longleftrightarrow> follows_rules envs \<and> ROOT \<in> finished_ids (events_of envs)"

section \<open>The validator tracks what the events say\<close>

definition record_tracks :: "event list \<Rightarrow> nat \<Rightarrow> vrecord \<Rightarrow> bool" where
  "record_tracks es i r \<longleftrightarrow>
     (\<exists>s \<in> set (starts es). ns_id s = i \<and> vr_parent r = ns_parent s \<and>
        vr_shape r = shape_of (ns_kind s) \<and> vr_planned r = ns_planned s) \<and>
     vr_keys r = taken es i \<and> vr_open_children r = running_children es i \<and>
     vr_finished r = (i \<in> finished_ids es)"

definition tracks :: "event list \<Rightarrow> validator \<Rightarrow> bool" where
  "tracks es v \<longleftrightarrow>
     bt_ok (v_nodes v) \<and> dom (map_of (v_nodes v)) = started_ids es \<and>
     (\<forall>i r. map_of (v_nodes v) i = Some r \<longrightarrow>
        record_tracks es i r \<and> vr_entry r < length (v_entries v)) \<and>
     v_root_finished v = (ROOT \<in> finished_ids es)"

text \<open>What holds of every list of events that followed the rules.\<close>

definition orderly :: "event list \<Rightarrow> bool" where
  "orderly es \<longleftrightarrow>
     distinct (map ns_id (starts es)) \<and> finished_ids es \<subseteq> started_ids es \<and>
     (\<forall>s \<in> set (starts es). ns_id s \<noteq> 0 \<and>
        (ns_id s = ROOT \<and> ns_parent s = 0 \<or> ns_parent s \<in> started_ids es \<and> ns_parent s \<noteq> ns_id s)) \<and>
     (\<forall>n \<in> set (skips es). nr_parent n \<in> started_ids es)"

lemma orderly_same:
  "orderly es \<Longrightarrow> s \<in> set (starts es) \<Longrightarrow> s' \<in> set (starts es) \<Longrightarrow> ns_id s = ns_id s' \<Longrightarrow> s = s'"
  by (auto simp: orderly_def distinct_map inj_on_def)

lemma ids_snoc [simp]:
  "started_ids [] = {}" "finished_ids [] = {}"
  "started_ids (es @ [Event_NodeStarted s]) = insert (ns_id s) (started_ids es)"
  "started_ids (es @ [Event_NodeFinished f]) = started_ids es"
  "started_ids (es @ [Event_NotRun n]) = started_ids es"
  "started_ids (es @ [Event_NodeProgress p]) = started_ids es"
  "started_ids (es @ [Event_Diagnostic d]) = started_ids es"
  "finished_ids (es @ [Event_NodeFinished f]) = insert (nf_id f) (finished_ids es)"
  "finished_ids (es @ [Event_NodeStarted s]) = finished_ids es"
  "finished_ids (es @ [Event_NotRun n]) = finished_ids es"
  "finished_ids (es @ [Event_NodeProgress p]) = finished_ids es"
  "finished_ids (es @ [Event_Diagnostic d]) = finished_ids es"
  by (simp_all add: started_ids_def finished_ids_def)

lemma taken_snoc [simp]:
  "taken [] p = {}"
  "taken (es @ [Event_NodeStarted s]) p =
     (if ns_parent s = p then insert (ns_key s) (taken es p) else taken es p)"
  "taken (es @ [Event_NotRun n]) p =
     (if nr_parent n = p then insert (nr_key n) (taken es p) else taken es p)"
  "taken (es @ [Event_NodeFinished f]) p = taken es p"
  "taken (es @ [Event_NodeProgress q]) p = taken es p"
  "taken (es @ [Event_Diagnostic d]) p = taken es p"
  by (auto simp: taken_def)

lemma running_children_snoc [simp]:
  "running_children [] p = {}"
  "running_children (es @ [Event_NodeStarted s]) p =
     (if ns_parent s = p then (if ns_id s \<in> finished_ids es then {} else {ns_id s}) \<union> running_children es p
      else running_children es p)"
  "running_children (es @ [Event_NotRun n]) p = running_children es p"
  "running_children (es @ [Event_NodeFinished f]) p = running_children es p - {nf_id f}"
  "running_children (es @ [Event_NodeProgress q]) p = running_children es p"
  "running_children (es @ [Event_Diagnostic d]) p = running_children es p"
  by (auto simp: running_children_def)

lemma orderly_Nil [simp]: "orderly []"
  by (simp add: orderly_def)

lemma orderly_started:
  assumes "orderly es" and "start_rule es s"
  shows "orderly (es @ [Event_NodeStarted s])"
proof -
  from assms(2) have new: "ns_id s \<noteq> 0" "ns_id s \<notin> started_ids es"
    "ns_id s = ROOT \<and> ns_parent s = 0 \<or> ns_parent s \<in> started_ids es"
    by (auto simp: start_rule_def running_def)
  then have "ns_id s = ROOT \<and> ns_parent s = 0 \<or> ns_parent s \<in> started_ids es \<and> ns_parent s \<noteq> ns_id s"
    by auto
  with assms(1) new(1,2) show ?thesis
    by (auto simp: orderly_def started_ids_def)
qed

lemma orderly_snoc:
  assumes "orderly es" and "event_rule es e"
  shows "orderly (es @ [e])"
proof (cases e)
  case (Event_NodeStarted s)
  with assms show ?thesis by (simp add: event_rule_def orderly_started)
next
  case (Event_NodeFinished f)
  with assms show ?thesis by (simp add: event_rule_def finish_rule_def running_def orderly_def)
next
  case (Event_NotRun n)
  with assms show ?thesis by (simp add: event_rule_def skip_rule_def running_def orderly_def)
qed (use assms in \<open>simp_all add: orderly_def\<close>)

lemma tracksD:
  assumes "tracks es v" and "map_of (v_nodes v) i = Some r"
  shows "i \<in> started_ids es" "vr_keys r = taken es i" "vr_open_children r = running_children es i"
    "vr_finished r \<longleftrightarrow> i \<in> finished_ids es" "vr_entry r < length (v_entries v)"
    "\<exists>s \<in> set (starts es). ns_id s = i \<and> vr_parent r = ns_parent s \<and>
        vr_shape r = shape_of (ns_kind s) \<and> vr_planned r = ns_planned s"
proof -
  from assms have "record_tracks es i r" and e: "vr_entry r < length (v_entries v)"
    and d: "dom (map_of (v_nodes v)) = started_ids es"
    by (auto simp: tracks_def)
  then show "vr_keys r = taken es i" "vr_open_children r = running_children es i"
    "vr_finished r \<longleftrightarrow> i \<in> finished_ids es" "vr_entry r < length (v_entries v)"
    "\<exists>s \<in> set (starts es). ns_id s = i \<and> vr_parent r = ns_parent s \<and>
        vr_shape r = shape_of (ns_kind s) \<and> vr_planned r = ns_planned s"
    by (simp_all add: record_tracks_def)
  from d assms(2) show "i \<in> started_ids es" by auto
qed

lemma tracks_None: "tracks es v \<Longrightarrow> map_of (v_nodes v) i = None \<longleftrightarrow> i \<notin> started_ids es"
  by (auto simp: tracks_def)

lemma tracks_empty: "tracks es v \<Longrightarrow> v_nodes v = [] \<longleftrightarrow> starts es = []"
  by (metis dom_map_of_conv_image_fst image_is_empty set_empty started_ids_def tracks_def)

lemma running_iff:
  "tracks es v \<Longrightarrow> running es i \<longleftrightarrow> (\<exists>r. map_of (v_nodes v) i = Some r \<and> \<not> vr_finished r)"
  by (cases "map_of (v_nodes v) i") (auto simp: running_def tracks_None dest: tracksD)

text \<open>Each handler succeeds exactly when the rule for its event holds.\<close>

lemma open_iff: "tracks es v \<Longrightarrow> is_ok (validator_open v i) \<longleftrightarrow> running es i"
  by (auto simp: running_iff validator_open_def is_ok_def split: option.splits sum.splits)

lemma not_run_iff: "tracks es v \<Longrightarrow> is_ok (validator_not_run v n) \<longleftrightarrow> skip_rule es n"
proof -
  assume t: "tracks es v"
  show ?thesis
  proof (cases "map_of (v_nodes v) (nr_parent n)")
    case None
    with t show ?thesis by (simp add: validator_not_run_def Let_def skip_rule_def running_iff)
  next
    case (Some r)
    with t tracksD [OF t Some] show ?thesis
      by (simp add: validator_not_run_def Let_def skip_rule_def running_iff)
  qed
qed

lemma finished_violation_None:
  "finished_violation r f = None \<longleftrightarrow>
     \<not> vr_finished r \<and> vr_open_children r = {} \<and> set (vr_planned r) \<subseteq> vr_keys r \<and>
     status_of_i32 (nf_status f) \<noteq> Status_Unspecified \<and>
     (status_of_i32 (nf_status f) = Status_Cancelled \<longleftrightarrow> nf_cancellation f \<noteq> 0) \<and>
     (case nf_result f of None \<Rightarrow> True | Some res \<Rightarrow> shape_accepts (vr_shape r) res) \<and>
     (nf_id f \<noteq> ROOT \<longrightarrow> nf_exit_code f = 0)"
proof (cases "find (\<lambda>key. key \<notin> vr_keys r) (vr_planned r)")
  case None
  then have "set (vr_planned r) \<subseteq> vr_keys r" by (auto simp: find_None_iff)
  with None show ?thesis
    by (cases "nf_result f") (simp_all add: finished_violation_def Let_def)
next
  case (Some key)
  then have "\<not> set (vr_planned r) \<subseteq> vr_keys r" by (metis (mono_tags, lifting) find_Some_iff nth_mem subsetD)
  with Some show ?thesis by (simp add: finished_violation_def Let_def)
qed

lemma finished_iff:
  assumes t: "tracks es v" and o: "orderly es"
  shows "is_ok (validator_finished v f) \<longleftrightarrow> finish_rule es f"
proof (cases "map_of (v_nodes v) (nf_id f)")
  case None
  with t show ?thesis by (simp add: validator_finished_def finish_rule_def running_iff)
next
  case (Some r)
  note r = tracksD [OF t Some]
  from r(6) obtain s where s: "s \<in> set (starts es)" "ns_id s = nf_id f"
    "vr_shape r = shape_of (ns_kind s)" "vr_planned r = ns_planned s" by blast
  have same: "(\<forall>s' \<in> set (starts es). ns_id s' = nf_id f \<longrightarrow> P s') \<longleftrightarrow> P s" for P
  proof -
    have "s' = s" if "s' \<in> set (starts es)" "ns_id s' = nf_id f" for s'
      using orderly_same [OF o that(1) s(1)] that(2) s(2) by simp
    with s(1,2) show ?thesis by blast
  qed
  have "finished_violation r f = None \<longleftrightarrow> finish_rule es f"
    unfolding finish_rule_def same finished_violation_None running_iff [OF t] Some r(2,3) s(3,4)
    by (cases "nf_result f") auto
  with Some r(5) show ?thesis
    by (cases "finished_violation r f") (simp_all add: validator_finished_def)
qed

lemma rollback_valid_iff:
  assumes t: "tracks es v" and o: "orderly es"
    and same: "\<And>i. map_option (\<lambda>r. (vr_shape r, vr_finished r, vr_parent r)) (map_of (v_nodes v1) i)
       = map_option (\<lambda>r. (vr_shape r, vr_finished r, vr_parent r)) (map_of (v_nodes v) i)"
  shows "rollback_valid v1 s u \<longleftrightarrow> u \<in> finished_ids es \<and>
    (\<exists>target \<in> set (starts es). ns_id target = u \<and>
       shape_of (ns_kind target) = Shape_Step \<and> ns_parent target = ns_parent s)"
proof (cases "map_of (v_nodes v) u")
  case None
  with same [of u] have "map_of (v_nodes v1) u = None" by simp
  moreover from None t have "u \<notin> started_ids es" by (simp add: tracks_None)
  with o have "u \<notin> finished_ids es" by (auto simp: orderly_def)
  ultimately show ?thesis by (simp add: rollback_valid_def)
next
  case (Some r)
  with same [of u] obtain r1 where r1: "map_of (v_nodes v1) u = Some r1"
    "vr_shape r1 = vr_shape r" "vr_finished r1 = vr_finished r" "vr_parent r1 = vr_parent r" by auto
  from tracksD(6) [OF t Some] obtain s0 where s0: "s0 \<in> set (starts es)" "ns_id s0 = u"
    "vr_parent r = ns_parent s0" "vr_shape r = shape_of (ns_kind s0)" by blast
  then have "(\<exists>target \<in> set (starts es). ns_id target = u \<and>
       shape_of (ns_kind target) = Shape_Step \<and> ns_parent target = ns_parent s)
     \<longleftrightarrow> shape_of (ns_kind s0) = Shape_Step \<and> ns_parent s0 = ns_parent s"
    using orderly_same [OF o] by metis
  with r1 s0 tracksD(4) [OF t Some] show ?thesis by (auto simp: rollback_valid_def)
qed

lemma orderly_fresh:
  assumes "orderly es" and "i \<notin> started_ids es" and "i \<noteq> 0"
  shows "taken es i = {}" "running_children es i = {}" "i \<notin> finished_ids es"
proof -
  from assms have "ns_parent s \<noteq> i" if "s \<in> set (starts es)" for s
    using that by (auto simp: orderly_def)
  moreover from assms have "nr_parent n \<noteq> i" if "n \<in> set (skips es)" for n
    using that by (auto simp: orderly_def)
  ultimately show "taken es i = {}" "running_children es i = {}"
    by (auto simp: taken_def running_children_def)
  show "i \<notin> finished_ids es" using assms by (auto simp: orderly_def)
qed

text \<open>The parent's record after a start: the key is taken, the child runs.\<close>

definition adopt :: "node_started \<Rightarrow> vrecord \<Rightarrow> vrecord" where
  "adopt s p = p\<lparr>vr_keys := insert (ns_key s) (vr_keys p),
     vr_open_children := insert (ns_id s) (vr_open_children p)\<rparr>"

lemma started_path_root:
  "ns_id s = ROOT \<Longrightarrow> ns_parent s = 0 \<Longrightarrow> started_path v s = Inr (ns_key s, v)"
  by (simp add: started_path_def)

lemma started_path_child:
  assumes t: "tracks es v" and "\<not> (ns_id s = ROOT \<and> ns_parent s = 0)"
  shows "is_ok (started_path v s) \<longleftrightarrow> running es (ns_parent s) \<and> ns_key s \<notin> taken es (ns_parent s)"
    and "started_path v s = Inr (path, v1) \<Longrightarrow> \<exists>p. map_of (v_nodes v) (ns_parent s) = Some p \<and>
      v1 = v\<lparr>v_nodes := bt_insert (ns_parent s) (adopt s p) (v_nodes v)\<rparr>"
proof -
  show "is_ok (started_path v s) \<longleftrightarrow> running es (ns_parent s) \<and> ns_key s \<notin> taken es (ns_parent s)"
  proof (cases "map_of (v_nodes v) (ns_parent s)")
    case (Some p)
    with tracksD [OF t Some] show ?thesis
      unfolding started_path_def if_not_P [OF assms(2)] running_iff [OF t]
      by (simp add: Let_def)
  next
    case None
    then show ?thesis
      unfolding started_path_def if_not_P [OF assms(2)] running_iff [OF t] by simp
  qed
  show "\<exists>p. map_of (v_nodes v) (ns_parent s) = Some p \<and>
      v1 = v\<lparr>v_nodes := bt_insert (ns_parent s) (adopt s p) (v_nodes v)\<rparr>"
    if "started_path v s = Inr (path, v1)"
    using that assms(2) by (auto simp: started_path_def adopt_def Let_def split: option.splits if_splits)
qed

lemma started_path_same:
  assumes "started_path v s = Inr (path, v1)"
  shows "map_option (\<lambda>r. (vr_shape r, vr_finished r, vr_parent r)) (map_of (v_nodes v1) i)
     = map_option (\<lambda>r. (vr_shape r, vr_finished r, vr_parent r)) (map_of (v_nodes v) i)"
  using assms by (auto simp: started_path_def Let_def split: option.splits if_splits)

lemma started_iff:
  assumes t: "tracks es v" and o: "orderly es"
  shows "is_ok (validator_started v s) \<longleftrightarrow> start_rule es s"
proof (cases "started_path v s")
  case (Inl bad)
  then have "\<not> is_ok (started_path v s)" by simp
  with started_path_child(1) [OF t] started_path_root
  have "\<not> (ns_id s = ROOT \<and> ns_parent s = 0 \<or> running es (ns_parent s) \<and> ns_key s \<notin> taken es (ns_parent s))"
    by (metis is_ok_simps(2))
  with Inl show ?thesis by (auto simp: validator_started_def start_rule_def)
next
  case (Inr r)
  then obtain path v1 where r: "started_path v s = Inr (path, v1)" by (cases r) simp
  with started_path_child(1) [OF t, of s]
  have ok: "ns_id s = ROOT \<and> ns_parent s = 0 \<or> running es (ns_parent s) \<and> ns_key s \<notin> taken es (ns_parent s)"
    by (cases "ns_id s = ROOT \<and> ns_parent s = 0") simp_all
  have new: "bt_contains (ns_id s) (v_nodes v) \<longleftrightarrow> ns_id s \<in> started_ids es"
    using t by (simp add: bt_contains_def tracks_None)
  have roll: "is_ok (rollback_check s (path, v1)) \<longleftrightarrow>
    (case ns_kind s of
        Some (Kind_Rollback undoes) \<Rightarrow>
          undoes \<in> finished_ids es \<and>
          (\<exists>target \<in> set (starts es). ns_id target = undoes \<and>
             shape_of (ns_kind target) = Shape_Step \<and> ns_parent target = ns_parent s)
      | _ \<Rightarrow> True)"
    using rollback_valid_iff [OF t o started_path_same [OF r]]
    by (simp add: rollback_check_def split: option.split kind.split)
  have "is_ok (and_then (Inr (path, v1)) f) = is_ok (f (path, v1))"
    for f :: "string \<times> validator \<Rightarrow> validator_error + validator" by simp
  have "is_ok (validator_started v s) \<longleftrightarrow>
      ns_id s \<noteq> 0 \<and> ns_id s \<notin> started_ids es \<and> is_ok (rollback_check s (path, v1))"
    using r new by (cases "rollback_check s (path, v1)") (simp_all add: validator_started_def)
  with ok roll show ?thesis by (simp add: start_rule_def)
qed

lemma event_iff:
  assumes "tracks es v" and "orderly es"
  shows "is_ok (validator_event v seq e) \<longleftrightarrow> event_rule es e"
  using tracks_empty [OF assms(1)] open_iff [OF assms(1)] not_run_iff [OF assms(1)]
    finished_iff [OF assms] started_iff [OF assms]
  by (cases e) (simp_all add: validator_event_def event_rule_def)

text \<open>And each handler tracks its event.\<close>

lemma tracksI:
  assumes "bt_ok (v_nodes v)" and "dom (map_of (v_nodes v)) = started_ids es"
    and "\<And>i r. map_of (v_nodes v) i = Some r \<Longrightarrow> record_tracks es i r"
    and "\<And>i r. map_of (v_nodes v) i = Some r \<Longrightarrow> vr_entry r < length (v_entries v)"
    and "v_root_finished v \<longleftrightarrow> ROOT \<in> finished_ids es"
  shows "tracks es v"
  using assms by (simp add: tracks_def)

lemma tracks_fields:
  assumes "tracks es v"
  shows "bt_ok (v_nodes v)" "dom (map_of (v_nodes v)) = started_ids es"
    "map_of (v_nodes v) i = Some r \<Longrightarrow> record_tracks es i r"
    "map_of (v_nodes v) i = Some r \<Longrightarrow> vr_entry r < length (v_entries v)"
    "v_root_finished v \<longleftrightarrow> ROOT \<in> finished_ids es"
  using assms by (simp_all add: tracks_def)

lemma tracks_not_run:
  assumes t: "tracks es v" and "validator_not_run v n = Inr v'"
  shows "tracks (es @ [Event_NotRun n]) v'"
proof -
  from assms(2) obtain p path reason where p: "map_of (v_nodes v) (nr_parent n) = Some p"
    and v': "v' = v\<lparr>v_nodes := bt_insert (nr_parent n) (p\<lparr>vr_keys := insert (nr_key n) (vr_keys p)\<rparr>) (v_nodes v),
      v_entries := v_entries v @ [\<lparr>entry_id = None, entry_path = path, entry_outcome = Outcome_NotRun reason\<rparr>]\<rparr>"
    by (auto simp: validator_not_run_def Let_def split: option.splits if_splits)
  note f = tracks_fields [OF t]
  show ?thesis
  proof (rule tracksI)
    fix i r assume "map_of (v_nodes v') i = Some r"
    then have i: "i = nr_parent n \<and> r = p\<lparr>vr_keys := insert (nr_key n) (vr_keys p)\<rparr> \<or>
      i \<noteq> nr_parent n \<and> map_of (v_nodes v) i = Some r"
      by (auto simp: v' split: if_splits)
    then show "record_tracks (es @ [Event_NotRun n]) i r"
      using f(3) [OF p] f(3) [of i r] by (auto simp: record_tracks_def)
    from i show "vr_entry r < length (v_entries v')"
      using f(4) [OF p] f(4) [of i r] by (auto simp: v')
  qed (use p f(1,2,5) in \<open>auto simp: v'\<close>)
qed

lemma tracks_open: "tracks es v \<Longrightarrow> validator_open v i = Inr v' \<Longrightarrow> v' = v"
  by (auto simp: validator_open_def split: option.splits if_splits)

lemma tracks_gauge:
  "tracks es v \<Longrightarrow> tracks (es @ [Event_NodeProgress p]) v"
  "tracks es v \<Longrightarrow> tracks (es @ [Event_Diagnostic d]) v"
  by (simp_all add: tracks_def record_tracks_def)

lemma map_of_finished_nodes:
  assumes "map_of nodes i = Some r" and "vr_parent r \<noteq> i"
  shows "map_of (finished_nodes r i nodes) j =
    (if j = i then Some (r\<lparr>vr_finished := True\<rparr>)
     else if j = vr_parent r
       then map_option (\<lambda>p. p\<lparr>vr_open_children := vr_open_children p - {i}\<rparr>) (map_of nodes j)
     else map_of nodes j)"
  using assms by (auto simp: finished_nodes_def Let_def split: option.splits)

lemma bt_ok_finished_nodes: "bt_ok nodes \<Longrightarrow> bt_ok (finished_nodes r i nodes)"
  by (simp add: finished_nodes_def Let_def split: option.splits)

lemma running_children_parent:
  assumes "orderly es" and "s \<in> set (starts es)" and "j \<noteq> ns_parent s"
  shows "ns_id s \<notin> running_children es j"
  using assms orderly_same [OF assms(1)] by (auto simp: running_children_def)

lemma tracks_finished:
  assumes t: "tracks es v" and o: "orderly es" and ok: "validator_finished v f = Inr v'"
  shows "tracks (es @ [Event_NodeFinished f]) v'"
proof -
  let ?i = "nf_id f"
  from ok obtain r out where r: "map_of (v_nodes v) ?i = Some r"
    and v': "v_nodes v' = finished_nodes r ?i (v_nodes v)" "v_entries v' = (v_entries v)[vr_entry r := out]"
      "v_root_finished v' = (v_root_finished v \<or> ?i = ROOT)"
    by (auto simp: validator_finished_def split: option.splits if_splits)
  note f = tracks_fields [OF t]
  from tracksD(6) [OF t r] obtain s where s: "s \<in> set (starts es)" "ns_id s = ?i" "vr_parent r = ns_parent s"
    by blast
  have par: "vr_parent r \<noteq> ?i" using o s by (auto simp: orderly_def)
  note nodes = map_of_finished_nodes [OF r par]
  have rec: "record_tracks (es @ [Event_NodeFinished f]) j q \<and> vr_entry q < length (v_entries v')"
    if q: "map_of (v_nodes v') j = Some q" for j q
  proof -
    consider "j = ?i" "q = r\<lparr>vr_finished := True\<rparr>"
      | p where "j \<noteq> ?i" "j = vr_parent r" "map_of (v_nodes v) j = Some p"
          "q = p\<lparr>vr_open_children := vr_open_children p - {?i}\<rparr>"
      | "j \<noteq> ?i" "j \<noteq> vr_parent r" "map_of (v_nodes v) j = Some q"
      using q by (auto simp: v' nodes split: if_splits)
    then show ?thesis
    proof cases
      case 1
      have "?i \<notin> running_children es ?i" using running_children_parent [OF o s(1)] s par by simp
      with 1 f(3,4) [OF r] show ?thesis by (simp add: record_tracks_def v')
    next
      case 2
      with f(3,4) [OF 2(3)] show ?thesis by (simp add: record_tracks_def v')
    next
      case 3
      have "?i \<notin> running_children es j" using running_children_parent [OF o s(1)] s 3(2) by simp
      with 3 f(3,4) [OF 3(3)] show ?thesis by (simp add: record_tracks_def v')
    qed
  qed
  show ?thesis
  proof (rule tracksI)
    show "dom (map_of (v_nodes v')) = started_ids (es @ [Event_NodeFinished f])"
      using f(2) r by (auto simp: v' nodes dom_def split: if_splits)
  qed (use rec f(1,5) in \<open>auto simp: v' bt_ok_finished_nodes\<close>)
qed

lemma rollback_check_Inr: "rollback_check s r = Inr r' \<Longrightarrow> r' = r"
  by (simp add: rollback_check_def split: option.splits kind.splits if_splits)

lemma started_path_keeps:
  assumes t: "tracks es v" and o: "orderly es" and p: "started_path v s = Inr (path, v1)"
  shows "v_entries v1 = v_entries v" "v_root_finished v1 = v_root_finished v" "bt_ok (v_nodes v1)"
    "dom (map_of (v_nodes v1)) = started_ids es"
    "map_of (v_nodes v1) j = Some q \<Longrightarrow> (if j = ns_parent s then
        \<exists>q0. map_of (v_nodes v) j = Some q0 \<and> q = adopt s q0 else map_of (v_nodes v) j = Some q)"
proof -
  note f = tracks_fields(1,2) [OF t]
  consider "ns_parent s = 0" "v1 = v" | q0 where "map_of (v_nodes v) (ns_parent s) = Some q0"
      "v1 = v\<lparr>v_nodes := bt_insert (ns_parent s) (adopt s q0) (v_nodes v)\<rparr>"
    using started_path_root [of s v] started_path_child(2) [OF t _ p] p
    by (cases "ns_id s = ROOT \<and> ns_parent s = 0") auto
  note cases = this
  have none: "map_of (v_nodes v) 0 = None"
    using o tracks_None [OF t, of 0] by (auto simp: orderly_def started_ids_def)
  show "v_entries v1 = v_entries v" "v_root_finished v1 = v_root_finished v" "bt_ok (v_nodes v1)"
    using f by (cases rule: cases; simp)+
  show "dom (map_of (v_nodes v1)) = started_ids es"
    by (cases rule: cases) (use f in auto)
  show "if j = ns_parent s then
        \<exists>q0. map_of (v_nodes v) j = Some q0 \<and> q = adopt s q0 else map_of (v_nodes v) j = Some q"
    if "map_of (v_nodes v1) j = Some q"
    using that none by (cases rule: cases; cases "j = 0") (auto split: if_splits)
qed

lemma tracks_started:
  assumes t: "tracks es v" and o: "orderly es" and ok: "validator_started v s = Inr v'"
  shows "tracks (es @ [Event_NodeStarted s]) v'"
proof -
  let ?i = "ns_id s"
  have rule: "start_rule es s" using started_iff [OF t o, of s] ok by simp
  then have new: "?i \<notin> started_ids es" "?i \<noteq> 0" by (simp_all add: start_rule_def)
  note fresh = orderly_fresh [OF o new]
  from rule new have par: "ns_parent s \<noteq> ?i" by (auto simp: start_rule_def running_def)
  from ok obtain path v1 where p: "started_path v s = Inr (path, v1)" and v': "v' = started_record s (path, v1)"
    by (auto simp: validator_started_def split: if_splits dest: rollback_check_Inr)
  note v1 = started_path_keeps(1-4) [OF t o p] and keep = started_path_keeps(5) [OF t o p]
  have rec: "record_tracks (es @ [Event_NodeStarted s]) j q \<and> vr_entry q < length (v_entries v')"
    if "map_of (v_nodes v') j = Some q" for j q
  proof (cases "j = ?i")
    case True
    with that fresh par show ?thesis
      by (auto simp: v' started_record_def Let_def record_tracks_def v1 split: if_splits)
  next
    case False
    then have old: "map_of (v_nodes v1) j = Some q" using that by (simp add: v' started_record_def Let_def)
    have fin: "?i \<notin> finished_ids es" by (rule fresh)
    from keep [OF old] show ?thesis
    proof (cases "j = ns_parent s")
      case True
      with keep [OF old] obtain q0 where "map_of (v_nodes v) j = Some q0" "q = adopt s q0" by auto
      with tracks_fields(3,4) [OF t this(1)] fin True show ?thesis
        by (auto simp: record_tracks_def adopt_def v' started_record_def Let_def v1)
    next
      case False
      with keep [OF old] have "map_of (v_nodes v) j = Some q" by simp
      with tracks_fields(3,4) [OF t this] False show ?thesis
        by (auto simp: record_tracks_def v' started_record_def Let_def v1)
    qed
  qed
  show ?thesis
  proof (rule tracksI)
    show "dom (map_of (v_nodes v')) = started_ids (es @ [Event_NodeStarted s])"
      using v1(4) by (simp add: v' started_record_def Let_def)
  qed (use rec v1 tracks_fields(5) [OF t] in \<open>auto simp: v' started_record_def Let_def\<close>)
qed

lemma tracks_event:
  assumes "tracks es v" and "orderly es" and "validator_event v seq e = Inr v'"
  shows "tracks (es @ [e]) v' \<and> v_next_seq v' = v_next_seq v \<and> v_request v' = v_request v"
proof -
  have "tracks (es @ [e]) v'"
    using assms by (cases e) (auto simp: validator_event_def tracks_finished tracks_started tracks_not_run
        dest: tracks_open intro: tracks_gauge split: if_splits)
  moreover have "v_next_seq v' = v_next_seq v \<and> v_request v' = v_request v"
    using assms(3) by (cases e) (auto simp: validator_event_def validator_open_def validator_not_run_def
        validator_finished_def validator_started_def started_path_def started_record_def Let_def
        dest!: rollback_check_Inr split: if_splits option.splits)
  ultimately show ?thesis by blast
qed

definition stream_tracks :: "envelope list \<Rightarrow> validator \<Rightarrow> bool" where
  "stream_tracks pre v \<longleftrightarrow>
     tracks (events_of pre) v \<and> orderly (events_of pre) \<and> v_next_seq v = Suc (length pre) \<and>
     v_request v = (if pre = [] then None else Some (env_request (hd pre)))"

lemma events_of_snoc [simp]:
  "events_of [] = []"
  "events_of (pre @ [env]) = events_of pre @ (case env_event env of None \<Rightarrow> [] | Some e \<Rightarrow> [e])"
  by (simp_all add: events_of_def List.map_filter_def split: option.split)

lemma tracks_other [simp]:
  "tracks es (v\<lparr>v_next_seq := n\<rparr>) = tracks es v"
  "tracks es (v\<lparr>v_request := q\<rparr>) = tracks es v"
  by (simp_all add: tracks_def)

text \<open>The state in which \<open>push\<close> looks at the event.\<close>

definition numbered_state :: "validator \<Rightarrow> envelope \<Rightarrow> validator" where
  "numbered_state v env =
     (let v1 = v\<lparr>v_next_seq := v_next_seq v + 1\<rparr>
      in case v_request v1 of None \<Rightarrow> v1\<lparr>v_request := Some (env_request env)\<rparr> | Some _ \<Rightarrow> v1)"

lemma validator_push_step:
  assumes "stream_tracks pre v"
  shows "header_rule pre env \<Longrightarrow> validator_push v env =
      (case env_event env of None \<Rightarrow> Inr (numbered_state v env)
       | Some e \<Rightarrow> validator_event (numbered_state v env) (env_seq env) e)"
    and "\<not> header_rule pre env \<Longrightarrow> \<exists>bad. validator_push v env = Inl (Violated bad)"
  using assms tracks_fields(5) [of "events_of pre" v]
  by (auto simp: stream_tracks_def validator_push_def numbered_state_def header_rule_def Let_def
      split: option.splits)

lemma numbered_state_tracks:
  assumes "stream_tracks pre v"
  shows "tracks (events_of pre) (numbered_state v env)"
    "v_next_seq (numbered_state v env) = Suc (Suc (length pre))"
    "v_request (numbered_state v env) = Some (if pre = [] then env_request env else env_request (hd pre))"
  using assms by (auto simp: stream_tracks_def numbered_state_def Let_def)

lemma push_iff:
  assumes "stream_tracks pre v"
  shows "is_ok (validator_push v env) \<longleftrightarrow> envelope_rule pre env"
proof (cases "header_rule pre env")
  case True
  have o: "orderly (events_of pre)" using assms by (simp add: stream_tracks_def)
  from True event_iff [OF numbered_state_tracks(1) [OF assms] o] show ?thesis
    unfolding validator_push_step(1) [OF assms True]
    by (simp add: envelope_rule_def split: option.split)
next
  case False
  from validator_push_step(2) [OF assms False] False show ?thesis
    by (auto simp: envelope_rule_def)
qed

lemma push_tracks:
  assumes s: "stream_tracks pre v" and p: "validator_push v env = Inr v'"
  shows "stream_tracks (pre @ [env]) v'"
proof -
  have o: "orderly (events_of pre)" using s by (simp add: stream_tracks_def)
  note n = numbered_state_tracks [OF s, of env]
  from push_iff [OF s, of env] p have rule: "envelope_rule pre env" by simp
  then have h: "header_rule pre env" by (simp add: envelope_rule_def)
  then have req: "(if pre = [] then env_request env else env_request (hd pre)) = env_request (hd (pre @ [env]))"
    by (simp add: header_rule_def)
  show ?thesis
  proof (cases "env_event env")
    case None
    with validator_push_step(1) [OF s h] p have "v' = numbered_state v env" by simp
    with n o None req show ?thesis by (simp add: stream_tracks_def)
  next
    case (Some e)
    with validator_push_step(1) [OF s h] p
    have "validator_event (numbered_state v env) (env_seq env) e = Inr v'" by simp
    from tracks_event [OF n(1) o this] n(2,3) Some rule orderly_snoc [OF o, of e] req
    show ?thesis by (simp add: stream_tracks_def envelope_rule_def)
  qed
qed

lemma run_iff:
  "stream_tracks pre v \<Longrightarrow>
    is_ok (validator_run v envs) \<longleftrightarrow> (\<forall>i < length envs. envelope_rule (pre @ take i envs) (envs ! i))"
proof (induction envs arbitrary: pre v)
  case (Cons env envs)
  have split: "(\<forall>i < length (env # envs). envelope_rule (pre @ take i (env # envs)) ((env # envs) ! i)) \<longleftrightarrow>
    envelope_rule pre env \<and> (\<forall>i < length envs. envelope_rule ((pre @ [env]) @ take i envs) (envs ! i))"
    by (auto simp: less_Suc_eq_0_disj all_conj_distrib)
  show ?case
  proof (cases "validator_push v env")
    case (Inl bad)
    with push_iff [OF Cons.prems, of env] show ?thesis unfolding split by simp
  next
    case (Inr v')
    with push_iff [OF Cons.prems, of env] Cons.IH [OF push_tracks [OF Cons.prems Inr]]
    show ?thesis unfolding split by simp
  qed
qed simp

lemma run_tracks:
  "stream_tracks pre v \<Longrightarrow> validator_run v envs = Inr v' \<Longrightarrow> stream_tracks (pre @ envs) v'"
proof (induction envs arbitrary: pre v)
  case (Cons env envs)
  from Cons.prems(2) obtain v1 where "validator_push v env = Inr v1" "validator_run v1 envs = Inr v'" by auto
  with Cons.IH [OF push_tracks [OF Cons.prems(1)]] show ?case by simp
qed simp

lemma stream_tracks_new: "stream_tracks [] validator_new"
  by (simp add: stream_tracks_def tracks_def validator_new_def)

lemma validate_iff: "is_ok (validate envs) \<longleftrightarrow> complete_stream envs"
proof (cases "validator_run validator_new envs")
  case (Inl bad)
  with run_iff [OF stream_tracks_new, of envs] show ?thesis
    by (simp add: validate_def complete_stream_def follows_rules_def)
next
  case (Inr v)
  from run_iff [OF stream_tracks_new, of envs] Inr have "follows_rules envs"
    by (simp add: follows_rules_def)
  moreover from run_tracks [OF stream_tracks_new Inr]
  have "v_root_finished v \<longleftrightarrow> ROOT \<in> finished_ids (events_of envs)"
    by (simp add: stream_tracks_def tracks_def)
  ultimately show ?thesis using Inr
    by (simp add: validate_def validator_finish_def complete_stream_def)
qed

text \<open>An index into the entries is never out of range.\<close>

lemma event_no_panic:
  assumes t: "tracks es v"
  shows "validator_event v seq e \<noteq> Inl ValidatorPanic"
proof -
  note entry = tracks_fields(4) [OF t]
  have "started_path v s \<noteq> Inl ValidatorPanic" for s
    by (auto simp: started_path_def Let_def dest: entry split: option.split)
  then have "and_then (started_path v s) (rollback_check s) \<noteq> Inl ValidatorPanic" for s
    by (cases "started_path v s") (auto simp: rollback_check_def split: option.split kind.split)
  then have "validator_started v s \<noteq> Inl ValidatorPanic" for s
    by (cases "and_then (started_path v s) (rollback_check s)") (auto simp: validator_started_def)
  moreover have "validator_finished v f \<noteq> Inl ValidatorPanic" for f
    by (auto simp: validator_finished_def dest: entry split: option.split)
  moreover have "validator_not_run v n \<noteq> Inl ValidatorPanic" for n
    by (auto simp: validator_not_run_def Let_def dest: entry split: option.split)
  moreover have "validator_open v i \<noteq> Inl ValidatorPanic" for i
    by (auto simp: validator_open_def split: option.split)
  ultimately show ?thesis by (cases e) (simp_all add: validator_event_def)
qed

lemma run_no_panic: "stream_tracks pre v \<Longrightarrow> validator_run v envs \<noteq> Inl ValidatorPanic"
proof (induction envs arbitrary: pre v)
  case (Cons env envs)
  have "validator_push v env \<noteq> Inl ValidatorPanic"
  proof (cases "header_rule pre env")
    case True
    with validator_push_step(1) [OF Cons.prems True] event_no_panic [OF numbered_state_tracks(1) [OF Cons.prems]]
    show ?thesis by (simp split: option.split)
  next
    case False
    from validator_push_step(2) [OF Cons.prems this] show ?thesis by auto
  qed
  then show ?case
    using Cons.IH [OF push_tracks [OF Cons.prems]] by (cases "validator_push v env") auto
qed simp

lemma validate_no_panic: "validate envs \<noteq> Inl ValidatorPanic"
  using run_no_panic [OF stream_tracks_new, of envs]
  by (cases "validator_run validator_new envs") (auto simp: validate_def validator_finish_def)

end
