(* ===== verification/Tree_Stream.thy ===== *)
theory Tree_Stream
  imports Stream_Rules
begin

text \<open>
  The writer meets the reader: whatever sequence of operations a client runs on the tree, the
  events it sends follow the rules, so the validator accepts the stream once the root is
  finished; and it still accepts what is left after the outbox has dropped superseded gauges.

  A client owes the tree little: distinct planned keys, an ending with a status, a cause exactly
  when it is cancelled, an exit code on the root only, a result of the kind of the node, a
  blocker that has a name, and a rollback of a finished step of the same parent.
\<close>

section \<open>Operations as values\<close>

datatype tree_op =
    Call_Start nat start
  | Call_NotRun nat string not_run_reason
  | Call_Blocked nat string string
  | Call_Progress nat progress
  | Call_Warn nat diagnostic
  | Call_Finish nat ending
  | Call_Abandon "cancellation option" nat

fun tree_call :: "tree \<Rightarrow> tree_op \<Rightarrow> tree_error + tree" where
  "tree_call t (Call_Start p s) = and_then (tree_start t p s) (\<lambda>r. Inr (snd r))"
| "tree_call t (Call_NotRun p k r) = tree_not_run t p k r"
| "tree_call t (Call_Blocked p k by) = tree_blocked t p k by"
| "tree_call t (Call_Progress i p) = tree_progress t i p"
| "tree_call t (Call_Warn i d) = tree_warn t i d"
| "tree_call t (Call_Finish i e) = tree_finish t i e"
| "tree_call t (Call_Abandon stopped i) = tree_abandon stopped t i"

text \<open>A client may go on after a misuse: the tree is as it was.\<close>

fun tree_calls :: "tree \<Rightarrow> tree_op list \<Rightarrow> tree_error + tree" where
  "tree_calls t [] = Inr t"
| "tree_calls t (c # cs) =
     (case tree_call t c of
        Inr t' \<Rightarrow> tree_calls t' cs
      | Inl (Misused m) \<Rightarrow> tree_calls t cs
      | Inl e \<Rightarrow> Inl e)"

section \<open>What the client owes\<close>

definition ending_fits :: "event list \<Rightarrow> nat \<Rightarrow> ending \<Rightarrow> bool" where
  "ending_fits es i e \<longleftrightarrow>
     end_status e \<noteq> Status_Unspecified \<and>
     (end_status e = Status_Cancelled \<longleftrightarrow> end_cancellation e \<noteq> Cancellation_Unspecified) \<and>
     (i \<noteq> ROOT \<longrightarrow> end_exit_code e = 0) \<and>
     (case end_result e of
        None \<Rightarrow> True
      | Some r \<Rightarrow> \<forall>s \<in> set (starts es). ns_id s = i \<longrightarrow> shape_accepts (shape_of (ns_kind s)) r)"

definition start_fits :: "event list \<Rightarrow> nat \<Rightarrow> start \<Rightarrow> bool" where
  "start_fits es p s \<longleftrightarrow>
     distinct (start_planned s) \<and>
     (case start_kind s of
        Kind_Rollback undoes \<Rightarrow>
          undoes \<in> finished_ids es \<and>
          (\<exists>target \<in> set (starts es). ns_id target = undoes \<and>
             shape_of (ns_kind target) = Shape_Step \<and> ns_parent target = p)
      | _ \<Rightarrow> True)"

fun call_fits :: "event list \<Rightarrow> tree_op \<Rightarrow> bool" where
  "call_fits es (Call_Start p s) = start_fits es p s"
| "call_fits es (Call_NotRun p k r) = (r \<noteq> NotRunReason_Unspecified \<and> r \<noteq> NotRunReason_Blocked)"
| "call_fits es (Call_Blocked p k by) = (by \<noteq> [])"
| "call_fits es (Call_Progress i p) = True"
| "call_fits es (Call_Warn i d) = True"
| "call_fits es (Call_Finish i e) = ending_fits es i e"
| "call_fits es (Call_Abandon stopped i) = (stopped \<noteq> Some Cancellation_Unspecified)"

text \<open>The calls of a client that keeps to this, each judged by the events sent before it.\<close>

fun calls_fit :: "tree \<Rightarrow> tree_op list \<Rightarrow> bool" where
  "calls_fit t [] = True"
| "calls_fit t (c # cs) =
     (call_fits (t_sent t) c \<and>
      calls_fit (case tree_call t c of Inr t' \<Rightarrow> t' | Inl _ \<Rightarrow> t) cs)"

section \<open>The tree tracks what it sent\<close>

text \<open>Every event sent so far followed the rules at its place, and the root had not finished before.\<close>

fun sent_ok :: "event list \<Rightarrow> event list \<Rightarrow> bool" where
  "sent_ok pre [] = True"
| "sent_ok pre (e # es) = (ROOT \<notin> finished_ids pre \<and> event_rule pre e \<and> sent_ok (pre @ [e]) es)"

lemma sent_ok_append [simp]: "sent_ok pre (xs @ ys) \<longleftrightarrow> sent_ok pre xs \<and> sent_ok (pre @ xs) ys"
  by (induction xs arbitrary: pre) auto

lemma sent_ok_orderly: "sent_ok pre es \<Longrightarrow> orderly pre \<Longrightarrow> orderly (pre @ es)"
proof (induction es arbitrary: pre)
  case (Cons e es)
  then have "orderly (pre @ [e])" by (intro orderly_snoc) auto
  with Cons.IH [of "pre @ [e]"] Cons.prems show ?case by simp
qed simp

definition node_tracks :: "event list \<Rightarrow> nat \<Rightarrow> open_node \<Rightarrow> bool" where
  "node_tracks es i n \<longleftrightarrow>
     on_used n = taken es i \<and> distinct (on_planned n) \<and>
     (\<exists>s \<in> set (starts es). ns_id s = i \<and> ns_parent s = on_parent n \<and> ns_planned s = on_planned n)"

definition tree_tracks :: "tree \<Rightarrow> bool" where
  "tree_tracks t \<longleftrightarrow>
     tree_ok t \<and> sent_ok [] (t_sent t) \<and> starts (t_sent t) \<noteq> [] \<and>
     started_ids (t_sent t) = {1..<t_next t} \<and>
     (\<forall>i. tree_get t i = None \<longleftrightarrow> \<not> running (t_sent t) i) \<and>
     (\<forall>i n. tree_get t i = Some n \<longrightarrow> node_tracks (t_sent t) i n)"

lemma tree_tracksD:
  assumes "tree_tracks t"
  shows "tree_ok t" "sent_ok [] (t_sent t)" "starts (t_sent t) \<noteq> []" "orderly (t_sent t)"
    "started_ids (t_sent t) = {1..<t_next t}" "\<And>i. tree_get t i = None \<longleftrightarrow> \<not> running (t_sent t) i"
    "\<And>i n. tree_get t i = Some n \<Longrightarrow> node_tracks (t_sent t) i n"
  using assms sent_ok_orderly [of "[]" "t_sent t"] by (simp_all add: tree_tracks_def)

text \<open>The kernel of every argument below: the root is open as long as any node is.\<close>

lemma root_open:
  assumes f: "forest g b" and "g i \<noteq> None"
  shows "g ROOT \<noteq> None"
  using assms(2)
proof (induction i rule: less_induct)
  case (less i)
  then obtain n where n: "g i = Some n" by auto
  show ?case
  proof (cases "i = ROOT")
    case False
    from less.IH [OF forestD(5,6) [OF f n False]] show ?thesis .
  qed (use n in simp)
qed

lemma root_not_finished:
  assumes t: "tree_tracks t" and "tree_get t i = Some n"
  shows "ROOT \<notin> finished_ids (t_sent t)"
proof -
  note d = tree_tracksD [OF t]
  have "forest (tree_get t) (t_next t)" using d(1) by (simp add: tree_ok_def)
  with assms(2) have "tree_get t ROOT \<noteq> None" by (intro root_open) auto
  then show ?thesis using d(6) [of ROOT] by (simp add: running_def)
qed

lemma kids_running:
  assumes t: "tree_tracks t"
  shows "kids (tree_get t) i = running_children (t_sent t) i"
proof (rule set_eqI)
  note d = tree_tracksD [OF t]
  fix c
  show "c \<in> kids (tree_get t) i \<longleftrightarrow> c \<in> running_children (t_sent t) i"
  proof (cases "tree_get t c")
    case None
    with d(6) [of c] show ?thesis
      by (auto simp: kids_def running_children_def running_def started_ids_def)
  next
    case (Some n)
    with d(6) [of c] have r: "c \<notin> finished_ids (t_sent t)" by (simp add: running_def)
    from d(7) [OF Some] obtain s where s: "s \<in> set (starts (t_sent t))" "ns_id s = c" "ns_parent s = on_parent n"
      by (auto simp: node_tracks_def)
    have "ns_parent s = i" if "c \<in> running_children (t_sent t) i"
    proof -
      from that obtain s' where s': "s' \<in> set (starts (t_sent t))" "ns_id s' = c" "ns_parent s' = i"
        by (auto simp: running_children_def)
      from orderly_same [OF d(4) s'(1) s(1)] s' s(2) show ?thesis by simp
    qed
    moreover have "c \<in> running_children (t_sent t) i" if "ns_parent s = i"
      using that s(1,2) r by (force simp: running_children_def)
    ultimately have "c \<in> running_children (t_sent t) i \<longleftrightarrow> ns_parent s = i" by blast
    with Some s show ?thesis by (simp add: kids_def)
  qed
qed

text \<open>One event that only takes a key, or touches nothing.\<close>

lemma running_snoc [simp]:
  "running (es @ [Event_NotRun n]) i = running es i"
  "running (es @ [Event_NodeProgress p]) i = running es i"
  "running (es @ [Event_Diagnostic d]) i = running es i"
  "running (es @ [Event_NodeFinished f]) i = (running es i \<and> i \<noteq> nf_id f)"
  by (auto simp: running_def)

lemma tracks_after_claim:
  assumes t: "tree_tracks t" and c: "tree_claim t p k = Inr t1"
    and rule: "event_rule (t_sent t) (Event_NotRun nr)" and nr: "nr_parent nr = p" "nr_key nr = k"
  shows "tree_tracks (tree_send t1 (Event_NotRun nr))"
proof -
  note d = tree_tracksD [OF t]
  from c obtain n where n: "tree_get t p = Some n" "k \<notin> on_used n"
    and t1: "t1 = tree_set t p (Some (n\<lparr>on_used := insert k (on_used n)\<rparr>))"
    by (auto simp: tree_claim_Inr)
  note less = tree_get_Some_less [OF n(1)]
  have "node_tracks (t_sent t @ [Event_NotRun nr]) i m"
    if "tree_get t1 i = Some m" for i m
    using that d(7) [OF n(1)] d(7) [of i m] less nr
    by (auto simp: t1 node_tracks_def split: if_splits)
  moreover have "tree_get t1 i = None \<longleftrightarrow> \<not> running (t_sent t) i" for i
    using d(6) [of i] d(6) [of p] n less by (auto simp: t1)
  ultimately show ?thesis
    using tree_ok_claim [OF d(1) c] d(2,3,5) rule root_not_finished [OF t n(1)]
    by (simp add: tree_tracks_def t1)
qed

lemma skip_rule_fits:
  assumes t: "tree_tracks t" and c: "tree_claim t p k = Inr t1"
    and "r \<noteq> NotRunReason_Unspecified" and "r = NotRunReason_Blocked \<longleftrightarrow> by \<noteq> []"
  shows "event_rule (t_sent t) (emit_not_run p r by k)"
proof -
  note d = tree_tracksD [OF t]
  from c obtain n where n: "tree_get t p = Some n" "k \<notin> on_used n" by (auto simp: tree_claim_Inr)
  with d(6) [of p] d(7) [OF n(1)] assms(3,4) d(3) show ?thesis
    by (auto simp: event_rule_def emit_not_run_def skip_rule_def node_tracks_def)
qed

lemma tracks_emit:
  assumes "tree_tracks t" and "tree_claim t p k = Inr t1"
    and "r \<noteq> NotRunReason_Unspecified" and "r = NotRunReason_Blocked \<longleftrightarrow> by \<noteq> []"
  shows "tree_tracks (tree_send t1 (emit_not_run p r by k))"
  using tracks_after_claim [OF assms(1,2)] skip_rule_fits [OF assms] by (simp add: emit_not_run_def)

lemma tracks_not_run_call:
  "tree_tracks t \<Longrightarrow> tree_not_run t p k r = Inr t' \<Longrightarrow>
     r \<noteq> NotRunReason_Unspecified \<Longrightarrow> r \<noteq> NotRunReason_Blocked \<Longrightarrow> tree_tracks t'"
  by (auto simp: tree_not_run_def intro: tracks_emit)

lemma tracks_blocked_call:
  "tree_tracks t \<Longrightarrow> tree_blocked t p k by = Inr t' \<Longrightarrow> by \<noteq> [] \<Longrightarrow> tree_tracks t'"
  by (auto simp: tree_blocked_def intro: tracks_emit)

lemma tracks_gauge_call:
  assumes t: "tree_tracks t" and n: "tree_get t i = Some n" and t1: "tree_ok t1"
    "t_sent t1 = t_sent t" "t_next t1 = t_next t"
    "\<And>j. tree_get t1 j = (if j = i then Some n1 else tree_get t j)"
    and n1: "on_used n1 = on_used n" "on_planned n1 = on_planned n" "on_parent n1 = on_parent n"
  shows "tree_tracks t1" and "np_id p = i \<Longrightarrow> tree_tracks (tree_send t1 (Event_NodeProgress p))"
    and "diag_node d = i \<Longrightarrow> tree_tracks (tree_send t1 (Event_Diagnostic d))"
proof -
  note d = tree_tracksD [OF t]
  have nodes: "node_tracks (t_sent t) j m" if "tree_get t1 j = Some m" for j m
    using that t1(4) d(7) [OF n] d(7) [of j m] n1 by (auto simp: node_tracks_def split: if_splits)
  have opened: "tree_get t1 j = None \<longleftrightarrow> \<not> running (t_sent t) j" for j
    using d(6) [of j] d(6) [of i] n t1(4) by auto
  show "tree_tracks t1"
    using t1(1-3) d(2,3,5) nodes opened by (simp add: tree_tracks_def)
  have run: "running (t_sent t) i" using d(6) [of i] n by simp
  note root = root_not_finished [OF t n]
  have nodes': "node_tracks (t_sent t @ [Event_NodeProgress p]) j m"
    "node_tracks (t_sent t @ [Event_Diagnostic d]) j m" if "tree_get t1 j = Some m" for j m
    using nodes [OF that] by (simp_all add: node_tracks_def)
  show "np_id p = i \<Longrightarrow> tree_tracks (tree_send t1 (Event_NodeProgress p))"
    and "diag_node d = i \<Longrightarrow> tree_tracks (tree_send t1 (Event_Diagnostic d))"
    using t1(1-3) d(2,3,5) nodes' opened run root by (simp_all add: tree_tracks_def event_rule_def)
qed

lemma tracks_progress_call:
  assumes t: "tree_tracks t" and ok: "tree_progress t i p = Inr t'"
  shows "tree_tracks t'"
proof -
  from ok obtain n where n: "tree_get t i = Some n" by (auto simp: tree_progress_def split: option.splits)
  obtain c n1 where ch: "open_changed p n = (c, n1)" by (cases "open_changed p n")
  note keep = open_changed_keeps [OF ch]
  let ?t1 = "tree_set t i (Some n1)"
  have "tree_ok ?t1" using tree_tracksD(1) [OF t] n keep by (intro tree_ok_same) auto
  note g = tracks_gauge_call [OF t n this, of n1] 
  have "\<And>j. tree_get ?t1 j = (if j = i then Some n1 else tree_get t j)"
    using tree_get_Some_less [OF n] by simp
  note g = tracks_gauge_call(1,2) [OF t n \<open>tree_ok ?t1\<close> _ _ this]
  show ?thesis
    using ok n ch keep g by (auto simp: tree_progress_def Let_def split: if_splits)
qed

lemma tracks_warn_call:
  assumes t: "tree_tracks t" and ok: "tree_warn t i d = Inr t'"
  shows "tree_tracks t'"
proof -
  from ok obtain n where n: "tree_get t i = Some n" by (auto simp: tree_warn_def is_open_def split: if_splits)
  have same: "tree_get t j = (if j = i then Some n else tree_get t j)" for j using n by simp
  show ?thesis
    using ok n tracks_gauge_call(3) [OF t n tree_tracksD(1) [OF t] refl refl same refl refl refl]
    by (auto simp: tree_warn_def is_open_def)
qed

text \<open>The keys a finishing node reports as not reached.\<close>

lemma emit_not_run_lists [simp]:
  "starts (map (emit_not_run i r by) ks) = []" "finishes (map (emit_not_run i r by) ks) = []"
  by (induction ks) (auto simp: emit_not_run_def)

lemma taken_emit [simp]:
  "taken (es @ map (emit_not_run i r by) ks) j = taken es j \<union> (if j = i then set ks else {})"
proof -
  have "nr_key ` set (filter (\<lambda>n. nr_parent n = j) (skips (map (emit_not_run i r by) ks))) = (if j = i then set ks else {})"
    by (induction ks) (auto simp: emit_not_run_def)
  then show ?thesis by (simp add: taken_def image_Un Un_assoc)
qed

lemma ids_emit [simp]:
  "started_ids (es @ map (emit_not_run i r by) ks) = started_ids es"
  "finished_ids (es @ map (emit_not_run i r by) ks) = finished_ids es"
  "running_children (es @ map (emit_not_run i r by) ks) j = running_children es j"
  "running (es @ map (emit_not_run i r by) ks) j = running es j"
  by (simp_all add: started_ids_def finished_ids_def running_children_def running_def)

lemma sent_ok_not_reached:
  "running es i \<Longrightarrow> starts es \<noteq> [] \<Longrightarrow> ROOT \<notin> finished_ids es \<Longrightarrow> distinct ks \<Longrightarrow>
     set ks \<inter> taken es i = {} \<Longrightarrow> sent_ok es (map (emit_not_run i NotRunReason_NotReached []) ks)"
proof (induction ks arbitrary: es)
  case (Cons k ks)
  have "event_rule es (emit_not_run i NotRunReason_NotReached [] k)"
    using Cons.prems
    by (auto simp: event_rule_def emit_not_run_def skip_rule_def simp del: not_run_reason_i32.simps)
  moreover have "sent_ok (es @ [emit_not_run i NotRunReason_NotReached [] k])
      (map (emit_not_run i NotRunReason_NotReached []) ks)"
    using Cons.prems by (intro Cons.IH) (auto simp: emit_not_run_def)
  ultimately show ?case using Cons.prems(3) by simp
qed simp

lemma tracks_finish_call:
  assumes t: "tree_tracks t" and ok: "tree_finish t i e = Inr t'" and fits: "ending_fits (t_sent t) i e"
  shows "tree_tracks t'"
proof -
  note d = tree_tracksD [OF t]
  from tree_finish_effect [OF ok] obtain n where n: "tree_get t i = Some n" "on_children n = 0"
    and t': "t_next t' = t_next t" "tree_get t' = cut_leaf (tree_get t) i n"
    and sent: "t_sent t' = t_sent t
      @ map (emit_not_run i NotRunReason_NotReached []) (filter (\<lambda>k. k \<notin> on_used n) (on_planned n))
      @ [finished_event i e]" by blast
  define ks where "ks = filter (\<lambda>k. k \<notin> on_used n) (on_planned n)"
  define es where "es = t_sent t @ map (emit_not_run i NotRunReason_NotReached []) ks"
  have sent': "t_sent t' = es @ [finished_event i e]" by (simp add: sent es_def ks_def)
  have es: "starts es = starts (t_sent t)" "started_ids es = started_ids (t_sent t)"
    "running es j = running (t_sent t) j"
    "taken es j = taken (t_sent t) j \<union> (if j = i then set ks else {})" for j
    by (simp_all add: es_def)
  have f: "forest (tree_get t) (t_next t)" using d(1) by (simp add: tree_ok_def)
  have leaf: "running_children (t_sent t) i = {}"
    using kids_running [OF t] forestD(3) [OF f n(1)] n(2) finite_kids [OF f] by simp
  have run: "running (t_sent t) i" using d(6) [of i] n by simp
  note root = root_not_finished [OF t n(1)]
  from d(7) [OF n(1)] obtain s where s: "s \<in> set (starts (t_sent t))" "ns_id s = i"
      "ns_planned s = on_planned n" "on_used n = taken (t_sent t) i" "distinct (on_planned n)"
    by (auto simp: node_tracks_def)
  then have nots: "sent_ok (t_sent t) (map (emit_not_run i NotRunReason_NotReached []) ks)"
    using run d(3) root by (intro sent_ok_not_reached) (auto simp: ks_def)
  have planned: "set (ns_planned s') \<subseteq> taken es i" if "s' \<in> set (starts es)" "ns_id s' = i" for s'
  proof -
    from that have "s' = s" using s(1,2) orderly_same [OF d(4)] by (simp add: es_def)
    with s show ?thesis by (auto simp: es_def ks_def)
  qed
  have "event_rule es (finished_event i e)"
    using run leaf d(3) fits planned
    by (auto simp: event_rule_def finished_event_def finish_rule_def ending_fits_def es_def split: option.split)
  with nots d(2) root have ok': "sent_ok [] (t_sent t')" by (simp add: sent' es_def)
  have "node_tracks (t_sent t') j m" if "tree_get t' j = Some m" for j m
  proof -
    from that obtain m0 where "j \<noteq> i" "tree_get t j = Some m0" "on_used m = on_used m0"
      "on_planned m = on_planned m0" "on_parent m = on_parent m0"
      by (auto simp: t' cut_leaf_Some)
    moreover from this have "taken (t_sent t') j = taken (t_sent t) j"
      by (simp add: sent' es finished_event_def)
    ultimately show ?thesis
      using d(7) [of j m0] by (simp add: node_tracks_def sent' es finished_event_def)
  qed
  moreover have "tree_get t' j = None \<longleftrightarrow> \<not> running (t_sent t') j" for j
    using d(6) [of j] by (auto simp: t' cut_leaf_None sent' es finished_event_def)
  ultimately show ?thesis
    using tree_ok_finish [OF d(1) ok] ok' d(3,5) by (simp add: tree_tracks_def sent' es t' finished_event_def)
qed

lemma tracks_start_call:
  assumes t: "tree_tracks t" and ok: "tree_start t p s = Inr (i, t')" and fits: "start_fits (t_sent t) p s"
  shows "tree_tracks t'"
proof -
  note d = tree_tracksD [OF t]
  from tree_start_effect [OF ok] d(1) obtain n where n: "tree_get t p = Some n" "start_key s \<notin> on_used n"
    and i: "i = t_next t" and t': "t_sent t' = t_sent t @ [started_event i p s]" "t_next t' = Suc (t_next t)"
      "tree_get t' = (tree_get t)(p \<mapsto> n\<lparr>on_used := insert (start_key s) (on_used n),
        on_children := Suc (on_children n)\<rparr>, i \<mapsto> fresh_node p (start_planned s))"
    by (auto simp: tree_ok_def)
  have f: "forest (tree_get t) (t_next t)" "1 < t_next t" using d(1) by (simp_all add: tree_ok_def)
  have p: "0 < p" "p < i" using forestD(1,2) [OF f(1) n(1)] i by auto
  have new: "i \<notin> started_ids (t_sent t)" "i \<noteq> 0" using d(5) i f(2) by auto
  note fresh = orderly_fresh [OF d(4) new]
  have run: "running (t_sent t) p" using d(6) [of p] n by simp
  have rule: "event_rule (t_sent t) (started_event i p s)"
    using new run n d(3) d(7) [OF n(1)] fits
    by (cases "start_kind s")
      (auto simp: event_rule_def started_event_def start_rule_def node_tracks_def start_fits_def)
  have "node_tracks (t_sent t') j m" if m: "tree_get t' j = Some m" for j m
  proof -
    consider "j = i" "m = fresh_node p (start_planned s)"
      | "j = p" "m = n\<lparr>on_used := insert (start_key s) (on_used n), on_children := Suc (on_children n)\<rparr>"
      | "j \<noteq> i" "j \<noteq> p" "tree_get t j = Some m"
      using m p by (auto simp: t' split: if_splits)
    then show ?thesis
    proof cases
      case 1
      with fresh fits p show ?thesis
        by (auto simp: node_tracks_def t' started_event_def fresh_node_def start_fits_def)
    next
      case 2
      with d(7) [OF n(1)] show ?thesis by (auto simp: node_tracks_def t' started_event_def)
    next
      case 3
      with d(7) [OF 3(3)] show ?thesis by (auto simp: node_tracks_def t' started_event_def)
    qed
  qed
  moreover have "tree_get t' j = None \<longleftrightarrow> \<not> running (t_sent t') j" for j
    using d(6) [of j] d(6) [of p] n fresh by (auto simp: t' started_event_def running_def)
  moreover have "started_ids (t_sent t') = {1..<t_next t'}"
    using d(5) f(2) i by (auto simp: t' started_event_def)
  ultimately show ?thesis
    using tree_ok_start [OF d(1) ok] d(2) rule root_not_finished [OF t n(1)]
    by (simp add: tree_tracks_def t' started_event_def)
qed

section \<open>Every sequence of calls\<close>

lemma abandoned_ending_fits:
  "stopped \<noteq> Some Cancellation_Unspecified \<Longrightarrow> ending_fits es i (abandoned_ending stopped)"
  by (cases stopped) (simp_all add: ending_fits_def abandoned_ending_def ending_cancelled_def ending_new_def)

lemma tracks_finish_all:
  "tree_tracks t \<Longrightarrow> finish_all e nodes t = Inr t' \<Longrightarrow> (\<And>es i. ending_fits es i e) \<Longrightarrow> tree_tracks t'"
proof (induction nodes arbitrary: t)
  case (Cons i nodes)
  from Cons.prems(2) obtain t1 where t1: "tree_finish t i e = Inr t1" "finish_all e nodes t1 = Inr t'"
    by (auto split: sum.splits)
  from Cons.IH [OF tracks_finish_call [OF Cons.prems(1) t1(1) Cons.prems(3)] t1(2) Cons.prems(3)]
  show ?case .
qed simp

lemma tracks_abandon_call:
  assumes "tree_tracks t" and "tree_abandon stopped t i = Inr t'" and "stopped \<noteq> Some Cancellation_Unspecified"
  shows "tree_tracks t'"
proof -
  from assms(2) tree_abandon_eq [OF tree_tracksD(1) [OF assms(1)], of stopped i]
  have "finish_all (abandoned_ending stopped) (rev (subtree t i)) t = Inr t'" by (simp split: if_splits)
  from tracks_finish_all [OF assms(1) this abandoned_ending_fits [OF assms(3)]] show ?thesis .
qed

lemma tracks_call:
  assumes "tree_tracks t" and "tree_call t c = Inr t'" and "call_fits (t_sent t) c"
  shows "tree_tracks t'"
proof (cases c)
  case (Call_Start p s)
  with assms(2) obtain i where "tree_start t p s = Inr (i, t')" by auto
  with assms Call_Start show ?thesis by (simp add: tracks_start_call)
next
  case (Call_NotRun p k r)
  with assms tracks_not_run_call [OF assms(1), of p k r] show ?thesis by simp
next
  case (Call_Blocked p k b)
  with assms tracks_blocked_call [OF assms(1), of p k b] show ?thesis by simp
next
  case (Call_Progress i p)
  with assms tracks_progress_call [OF assms(1), of i p] show ?thesis by simp
next
  case (Call_Warn i d)
  with assms tracks_warn_call [OF assms(1), of i d] show ?thesis by simp
next
  case (Call_Finish i e)
  with assms tracks_finish_call [OF assms(1), of i e] show ?thesis by simp
next
  case (Call_Abandon stopped i)
  with assms tracks_abandon_call [OF assms(1), of stopped i] show ?thesis by simp
qed

text \<open>On a tree with its invariant, the only failure is a misuse.\<close>

lemma find_child_Some:
  assumes t: "tree_ok t" and n: "tree_get t i = Some n" and "0 < on_children n"
  shows "find_child t i \<noteq> None"
proof
  assume "find_child t i = None"
  then have none: "\<forall>x \<in> set (t_open t). \<not> (case x of None \<Rightarrow> False | Some m \<Rightarrow> on_parent m = i)"
    by (simp add: find_child_def)
  have f: "forest (tree_get t) (t_next t)" using t by (simp add: tree_ok_def)
  from forestD(3) [OF f n] assms(3) have "kids (tree_get t) i \<noteq> {}" by auto
  then obtain c m where c: "tree_get t c = Some m" "on_parent m = i" by (auto simp: kids_def)
  then have "Some m \<in> set (t_open t)" by (auto simp: tree_get_def in_set_conv_nth split: if_splits)
  with none c(2) show False by fastforce
qed

lemma tree_call_misused:
  assumes "tree_ok t" and "tree_call t c = Inl e"
  shows "\<exists>m. e = Misused m"
proof (cases c)
  case (Call_Finish i en)
  show ?thesis
  proof (cases "\<exists>n. tree_get t i = Some n \<and> 0 < on_children n")
    case True
    then obtain n ch where "tree_get t i = Some n" "0 < on_children n" "find_child t i = Some ch"
      using find_child_Some [OF assms(1)] by blast
    with Call_Finish assms(2) show ?thesis by (auto simp: tree_finish_def)
  next
    case False
    with Call_Finish assms(2) show ?thesis
      by (auto simp: tree_finish_def Let_def split: option.splits)
  qed
next
  case (Call_Abandon stopped i)
  with assms tree_abandon_closes [OF assms(1), of i stopped] show ?thesis
    by (auto simp: tree_abandon_eq [OF assms(1)] split: if_splits)
next
  case (Call_Start p s)
  with assms show ?thesis
    by (cases "tree_claim t p (start_key s)")
      (auto simp: tree_start_def tree_claim_def split: option.splits if_splits)
next
  case (Call_NotRun p k r)
  with assms show ?thesis
    by (cases "tree_claim t p k") (auto simp: tree_not_run_def tree_claim_def split: option.splits if_splits)
next
  case (Call_Blocked p k b)
  with assms show ?thesis
    by (cases "tree_claim t p k") (auto simp: tree_blocked_def tree_claim_def split: option.splits if_splits)
next
  case (Call_Progress i p)
  with assms show ?thesis by (auto simp: tree_progress_def Let_def split: option.splits prod.splits)
next
  case (Call_Warn i d)
  with assms show ?thesis by (auto simp: tree_warn_def split: if_splits)
qed

lemma tracks_calls:
  "tree_tracks t \<Longrightarrow> calls_fit t cs \<Longrightarrow> \<exists>t'. tree_calls t cs = Inr t' \<and> tree_tracks t'"
proof (induction cs arbitrary: t)
  case (Cons c cs)
  show ?case
  proof (cases "tree_call t c")
    case (Inl e)
    then obtain m where "e = Misused m" using tree_call_misused tree_tracksD(1) [OF Cons.prems(1)] by blast
    with Inl Cons show ?thesis by simp
  next
    case (Inr t1)
    with Cons.prems have "tree_tracks t1" "calls_fit t1 cs" by (auto intro: tracks_call)
    with Inr Cons.IH show ?thesis by simp
  qed
qed simp

lemma tracks_new:
  assumes "start_kind s = Kind_Command c" and "distinct (start_planned s)"
  shows "tree_tracks (tree_new s)"
proof -
  have sent: "t_sent (tree_new s) = [started_event ROOT 0 s]"
    and get: "tree_get (tree_new s) = [ROOT \<mapsto> fresh_node 0 (start_planned s)]" and nxt: "t_next (tree_new s) = 2"
    by (auto simp: tree_new_def tree_open_node_def Let_def tree_get_def tree_set_def tree_send_def
        started_event_def fresh_node_def ROOT_def fun_eq_iff nth_Cons')
  have "event_rule [] (started_event ROOT 0 s)"
    using assms(1) by (simp add: event_rule_def started_event_def is_root_start_def start_rule_def ROOT_def)
  moreover have "{1..<2} = {ROOT}" by (auto simp: ROOT_def)
  ultimately show ?thesis using assms(2)
    by (auto simp: tree_tracks_def tree_ok_new sent get nxt node_tracks_def fresh_node_def started_event_def
        started_ids_def finished_ids_def running_def taken_def ROOT_def)
qed

text \<open>The drop of the tree closes the root.\<close>

lemma tracks_drop:
  assumes t: "tree_tracks t" and "stopped \<noteq> Some Cancellation_Unspecified"
  shows "\<exists>t'. tree_drop stopped t = Inr t' \<and> tree_tracks t' \<and> ROOT \<in> finished_ids (t_sent t')"
proof -
  note d = tree_tracksD [OF t]
  have root: "ROOT \<in> started_ids (t_sent t')" if "tree_tracks t'" for t'
    using tree_tracksD(1,5) [OF that] by (auto simp: tree_ok_def ROOT_def)
  show ?thesis
  proof (cases "is_open t ROOT")
    case True
    with subtree_empty [OF d(1), of ROOT] have "subtree t ROOT \<noteq> []" by (simp add: ROOT_def)
    from tree_abandon_closes [OF d(1) this, of stopped] obtain t' where t': "tree_abandon stopped t ROOT = Inr t'"
      "\<forall>i. is_open t' i \<longleftrightarrow> is_open t i \<and> i \<notin> set (subtree t ROOT)" by blast
    have tr: "tree_tracks t'" by (rule tracks_abandon_call [OF t t'(1) assms(2)])
    from True descends_from_unfold(1) [OF d(1), of ROOT _ ROOT] have "ROOT \<in> set (subtree t ROOT)"
      by (auto simp: subtree_def is_open_def dest: tree_get_Some_less)
    with t'(2) have "tree_get t' ROOT = None" by (auto simp: is_open_def)
    with tree_tracksD(6) [OF tr] root [OF tr] have "ROOT \<in> finished_ids (t_sent t')" by (simp add: running_def)
    with tr t'(1) True show ?thesis by (simp add: tree_drop_def)
  next
    case False
    with d(6) [of ROOT] root [OF t] have "ROOT \<in> finished_ids (t_sent t)"
      by (simp add: is_open_def running_def)
    with t False show ?thesis by (simp add: tree_drop_def)
  qed
qed

section \<open>From the tree to the reader\<close>

lemma sent_ok_iff: "sent_ok pre es \<longleftrightarrow>
    (\<forall>i < length es. ROOT \<notin> finished_ids (pre @ take i es) \<and> event_rule (pre @ take i es) (es ! i))"
proof (induction es arbitrary: pre)
  case (Cons e es)
  have "(\<forall>i < length (e # es). ROOT \<notin> finished_ids (pre @ take i (e # es)) \<and>
      event_rule (pre @ take i (e # es)) ((e # es) ! i)) \<longleftrightarrow>
    (ROOT \<notin> finished_ids pre \<and> event_rule pre e) \<and>
    (\<forall>i < length es. ROOT \<notin> finished_ids ((pre @ [e]) @ take i es) \<and>
      event_rule ((pre @ [e]) @ take i es) (es ! i))"
    by (auto simp: less_Suc_eq_0_disj all_conj_distrib)
  with Cons.IH [of "pre @ [e]"] show ?case by simp
qed simp

lemma length_numbered [simp]: "length (numbered n req es) = length es"
  by (induction es arbitrary: n) simp_all

lemma nth_numbered:
  "i < length es \<Longrightarrow> numbered n req es ! i =
     \<lparr>env_seq = Suc (n + i), env_request = req, env_event = Some (es ! i)\<rparr>"
  by (induction es arbitrary: n i) (auto simp: less_Suc_eq_0_disj)

lemma events_of_numbered [simp]: "events_of (numbered n req es) = es"
  by (induction es arbitrary: n) (simp_all add: events_of_def List.map_filter_def)

lemma take_numbered: "take i (numbered n req es) = numbered n req (take i es)"
  by (induction es arbitrary: n i) (auto simp: take_Cons')

lemma hd_numbered: "numbered n req es \<noteq> [] \<Longrightarrow> env_request (hd (numbered n req es)) = req"
  by (cases es) simp_all

lemma numbered_follows: "follows_rules (numbered 0 req es) \<longleftrightarrow> sent_ok [] es"
  by (auto simp: follows_rules_def envelope_rule_def header_rule_def nth_numbered take_numbered
      sent_ok_iff hd_numbered)

lemma numbered_complete:
  "is_ok (validate (numbered 0 req es)) \<longleftrightarrow> sent_ok [] es \<and> ROOT \<in> finished_ids es"
  by (simp add: validate_iff complete_stream_def numbered_follows)

text \<open>Gauges say nothing of the nodes, so dropping some keeps the rules.\<close>

definition same_facts :: "event list \<Rightarrow> event list \<Rightarrow> bool" where
  "same_facts es fs \<longleftrightarrow> starts es = starts fs \<and> finishes es = finishes fs \<and> skips es = skips fs"

lemma same_facts_rules:
  assumes "same_facts es fs"
  shows "finished_ids es = finished_ids fs" "event_rule es e = event_rule fs e"
proof -
  from assms have lists: "starts es = starts fs" "finishes es = finishes fs" "skips es = skips fs"
    by (simp_all add: same_facts_def)
  then have sets: "started_ids es = started_ids fs" "finished_ids es = finished_ids fs"
    "taken es = taken fs" "running_children es = running_children fs" "running es = running fs"
    by (simp_all add: started_ids_def finished_ids_def taken_def running_children_def running_def fun_eq_iff)
  then show "finished_ids es = finished_ids fs" by simp
  show "event_rule es e = event_rule fs e"
    unfolding event_rule_def start_rule_def finish_rule_def skip_rule_def lists sets ..
qed

lemma same_facts_snoc: "same_facts es fs \<Longrightarrow> same_facts (es @ [e]) (fs @ [e])"
  by (simp add: same_facts_def)

lemma same_facts_gauge: "same_facts es fs \<Longrightarrow> slot_of e \<noteq> None \<Longrightarrow> same_facts (es @ [e]) fs"
  by (cases e) (simp_all add: same_facts_def)

lemma sent_ok_coalesced:
  "coalesced es ys \<Longrightarrow> same_facts pre pre' \<Longrightarrow> sent_ok pre es \<Longrightarrow>
     sent_ok pre' ys \<and> same_facts (pre @ es) (pre' @ ys)"
proof (induction arbitrary: pre pre' rule: coalesced.induct)
  case (coalesced_keep xs ys x)
  from coalesced_keep.IH [OF same_facts_snoc [OF coalesced_keep.prems(1), of x]] coalesced_keep.prems
  show ?case using same_facts_rules [OF coalesced_keep.prems(1)] by simp
next
  case (coalesced_drop x xs ys)
  then have "slot_of x \<noteq> None" by (simp add: stale_def)
  from coalesced_drop.IH [OF same_facts_gauge [OF coalesced_drop.prems(1) this]] coalesced_drop.prems(2)
  show ?case by simp
qed simp

lemma coalesced_accepted:
  assumes "coalesced es ys" and "is_ok (validate (numbered 0 req es))"
  shows "is_ok (validate (numbered 0 req ys))"
  using assms(2) sent_ok_coalesced [OF assms(1), of "[]" "[]"]
  by (auto simp: numbered_complete same_facts_def finished_ids_def)

text \<open>A reader that drains the outbox at the end, after any interleaving with the writers.\<close>

lemma outbox_delivers:
  assumes "run_queue req ss = (envs, q)" and "outbox_drain req q = (rest, q')"
  shows "\<exists>es. envs @ rest = numbered 0 req es \<and> coalesced (pushed ss) es \<and> q_items q' = []"
proof -
  have start: "q_seq empty_queue = 0" "q_items empty_queue = []" by (simp_all add: empty_queue_def)
  from outbox.run_delivers [OF queue_ok_empty assms(1) [unfolded run_queue_def]] start
  obtain es where es: "queue_ok q" "envs = numbered 0 req es" "q_seq q = length es"
    "coalesced (pushed ss) (es @ q_items q)" by auto
  from outbox_drain_empties [OF es(1) assms(2)] es(3) obtain fs where
    fs: "q_items q' = []" "rest = numbered (length es) req fs" "coalesced (q_items q) fs" by auto
  have "coalesced (pushed ss) (es @ fs)"
    using coalesced_trans [OF es(4) coalesced_append [OF fs(3)]] .
  with es fs show ?thesis by (intro exI [of _ "es @ fs"]) (simp add: numbered_append)
qed

end
