(* ===== verification/Stream_Properties.thy ===== *)
theory Stream_Properties
  imports Tree_Stream
begin

text \<open>
  The properties of the event stream: the tree, the outbox and the validator together.
\<close>

text \<open>C2: Whatever a client that keeps its side does with a tree, in whatever order and with
  whatever misuse in between, no operation panics or loops, and after the tree is dropped the
  validator accepts the stream it sent.\<close>

theorem every_stream_is_accepted:
  assumes "start_kind s = Kind_Command c" and "distinct (start_planned s)"
    and "calls_fit (tree_new s) cs" and "stopped \<noteq> Some Cancellation_Unspecified"
  shows "\<exists>t t'. tree_calls (tree_new s) cs = Inr t \<and> tree_drop stopped t = Inr t' \<and>
    is_ok (validate (numbered 0 req (t_sent t')))"
proof -
  from tracks_calls [OF tracks_new [OF assms(1,2)] assms(3)] obtain t where
    t: "tree_calls (tree_new s) cs = Inr t" "tree_tracks t" by blast
  from tracks_drop [OF t(2) assms(4)] obtain t' where
    t': "tree_drop stopped t = Inr t'" "tree_tracks t'" "ROOT \<in> finished_ids (t_sent t')" by blast
  from t' tree_tracksD(2) [OF t'(2)] have "is_ok (validate (numbered 0 req (t_sent t')))"
    by (simp add: numbered_complete)
  with t(1) t'(1) show ?thesis by blast
qed

definition sample_start :: start where
  "sample_start = (start_new ''install''
     (Kind_Command \<lparr>mix_version = ''1'', schema_minor = 0, dry_run = False, request = None\<rparr>))
       \<lparr>start_planned := [''plan'', ''apply'', ''verify'']\<rparr>"

text \<open>A plan that is not run, a failed step, its rollback, and two misuses.\<close>

definition sample_calls :: "tree_op list" where
  "sample_calls =
     [Call_NotRun 1 ''plan'' NotRunReason_Skipped,
      Call_Start 1 (start_new ''apply'' (Kind_Step 1 ''Apply'')),
      Call_Start 1 (start_new ''apply'' (Kind_Step 1 ''Again'')),
      Call_Progress 2 (Progress_Line ''x'' 1),
      Call_Finish 2 (ending_failed default_diagnostic),
      Call_Finish 2 ending_succeeded,
      Call_Start 1 (start_new ''rollback'' (Kind_Rollback 2)),
      Call_Blocked 1 ''verify'' ''apply'']"

theorem every_stream_is_accepted_witness:
  "\<exists>t t'. tree_calls (tree_new sample_start) sample_calls = Inr t \<and>
     tree_drop (Some Cancellation_Interrupted) t = Inr t' \<and>
     is_ok (validate (numbered 0 ''r'' (t_sent t')))"
proof (rule every_stream_is_accepted)
  show "start_kind sample_start = Kind_Command
      \<lparr>mix_version = ''1'', schema_minor = 0, dry_run = False, request = None\<rparr>"
    by (simp add: sample_start_def start_new_def)
  show "distinct (start_planned sample_start)" by (simp add: sample_start_def start_new_def)
  show "calls_fit (tree_new sample_start) sample_calls" by code_simp
qed simp

text \<open>C11: The same at the far end of the outbox: in whatever order the writers' pushes and the
  readers' pops take the lock, what the readers got and a last drain together are a stream the
  validator accepts, although superseded gauges are missing from it.\<close>

theorem reader_accepts_any_interleaving:
  assumes "start_kind s = Kind_Command c" and "distinct (start_planned s)"
    and "calls_fit (tree_new s) cs" and "stopped \<noteq> Some Cancellation_Unspecified"
    and "tree_calls (tree_new s) cs = Inr t" and "tree_drop stopped t = Inr t'"
    and "pushed ss = t_sent t'"
    and "run_queue req ss = (envs, q)" and "outbox_drain req q = (rest, q')"
  shows "is_ok (validate (envs @ rest))"
proof -
  from tracks_calls [OF tracks_new [OF assms(1,2)] assms(3)] assms(5) have "tree_tracks t" by simp
  from tracks_drop [OF this assms(4)] assms(6) have t': "tree_tracks t'" "ROOT \<in> finished_ids (t_sent t')"
    by auto
  with tree_tracksD(2) [OF t'(1)] have "is_ok (validate (numbered 0 req (t_sent t')))"
    by (simp add: numbered_complete)
  with outbox_delivers [OF assms(8,9)] assms(7) show ?thesis by (metis coalesced_accepted)
qed

definition sample_sent :: "event list" where
  "sample_sent = (case tree_calls (tree_new sample_start) sample_calls of
     Inr t \<Rightarrow> (case tree_drop None t of Inr t' \<Rightarrow> t_sent t' | Inl _ \<Rightarrow> []) | Inl _ \<Rightarrow> [])"

definition sample_schedule :: "queue_step list" where
  "sample_schedule = Pop # concat (map (\<lambda>e. [Push e, Pop]) (take 3 sample_sent)) @ map Push (drop 3 sample_sent)"

lemma sample_start_simps:
  "start_kind sample_start = Kind_Command
     \<lparr>mix_version = ''1'', schema_minor = 0, dry_run = False, request = None\<rparr>"
  "distinct (start_planned sample_start)" "calls_fit (tree_new sample_start) sample_calls"
proof -
  show "calls_fit (tree_new sample_start) sample_calls" by code_simp
qed (simp_all add: sample_start_def start_new_def)

lemma pushed_append: "pushed (xs @ ys) = pushed xs @ pushed ys"
  by (induction xs rule: pushed.induct) simp_all

lemma pushed_all: "pushed (map Push es) = es" "pushed (concat (map (\<lambda>e. [Push e, Pop]) es)) = es"
  by (induction es) simp_all

theorem reader_accepts_any_interleaving_witness:
  "\<exists>envs q rest q'. run_queue ''r'' sample_schedule = (envs, q) \<and>
     outbox_drain ''r'' q = (rest, q') \<and> length envs = 3 \<and> is_ok (validate (envs @ rest))"
proof -
  note s = sample_start_simps
  from tracks_calls [OF tracks_new [OF s(1,2)] s(3)] obtain t where
    t: "tree_calls (tree_new sample_start) sample_calls = Inr t" "tree_tracks t" by blast
  from tracks_drop [OF t(2), of None] obtain t' where t': "tree_drop None t = Inr t'" by auto
  have sent: "pushed sample_schedule = t_sent t'"
    by (simp add: sample_schedule_def pushed_append pushed_all sample_sent_def t(1) t')
  obtain envs q rest q' where q: "run_queue ''r'' sample_schedule = (envs, q)"
    "outbox_drain ''r'' q = (rest, q')" by (metis surj_pair)
  have "length (fst (run_queue ''r'' sample_schedule)) = 3" by code_simp
  with q reader_accepts_any_interleaving [OF s, of None, OF _ t(1) t' sent q]
  show ?thesis by auto
qed

text \<open>C10: The validator is exactly the check of the rules: it accepts the complete streams that
  follow them, whose every envelope is justified by the envelopes before it, and no others.\<close>

theorem validator_checks_the_rules: "is_ok (validate envs) \<longleftrightarrow> complete_stream envs"
  by (rule validate_iff)

text \<open>C14: No list of envelopes, however malformed, makes the validator panic.\<close>

theorem validator_never_panics: "validate envs \<noteq> Inl ValidatorPanic"
  by (rule validate_no_panic)

text \<open>The gauge a reader ends up with, for a node and a kind of gauge.\<close>

definition last_gauge :: "slot \<Rightarrow> event list \<Rightarrow> event option" where
  "last_gauge s es = (if gauges s es = [] then None else Some (last (gauges s es)))"

text \<open>C15: What leaves the outbox, after any interleaving of pushes and pops and a last drain, is
  numbered from one without a gap and is the list of pushed events, in order, without some gauges
  that a later gauge of the same node superseded: every other event is there, and so is the
  last gauge of every node and kind.\<close>

theorem outbox_loses_only_stale_gauges:
  "case run_queue req ss of (envs, q) \<Rightarrow> case outbox_drain req q of (rest, q') \<Rightarrow>
     (let sent = envs @ rest; es = events_of sent
      in map env_seq sent = [1..<Suc (length sent)] \<and> subseq es (pushed ss) \<and>
         filter (\<lambda>e. slot_of e = None) es = filter (\<lambda>e. slot_of e = None) (pushed ss) \<and>
         (\<forall>s. last_gauge s es = last_gauge s (pushed ss)))"
proof -
  obtain envs q rest q' where q: "run_queue req ss = (envs, q)" "outbox_drain req q = (rest, q')"
    by (metis surj_pair)
  from outbox_delivers [OF q] obtain es where es: "envs @ rest = numbered 0 req es" "coalesced (pushed ss) es"
    by blast
  have "map env_seq (numbered 0 req es) = [1..<Suc (length (numbered 0 req es))]"
    by (rule nth_equalityI) (simp_all add: nth_numbered del: upt_Suc)
  moreover have "last_gauge s es = last_gauge s (pushed ss)" for s
    using coalesced_keeps_last [OF es(2), of s] by (auto simp: last_gauge_def)
  ultimately show ?thesis
    using coalesced_subseq [OF es(2)] coalesced_keeps_others [OF es(2)]
    unfolding q prod.case es(1) Let_def events_of_numbered by blast
qed

text \<open>C16: Abandoning an open node closes exactly the subtree under it; it never panics or loops.\<close>

theorem abandon_closes_the_subtree:
  assumes "start_kind s = Kind_Command c" and "distinct (start_planned s)"
    and "calls_fit (tree_new s) cs" and "tree_calls (tree_new s) cs = Inr t" and "is_open t nid"
  shows "\<exists>t'. tree_abandon stopped t nid = Inr t' \<and>
    (\<forall>i. is_open t' i \<longleftrightarrow> is_open t i \<and> descends_from t i nid \<noteq> Some True)"
proof -
  from tracks_calls [OF tracks_new [OF assms(1,2)] assms(3)] assms(4) have ok: "tree_ok t"
    by (auto dest: tree_tracksD(1))
  have "nid \<noteq> 0" using assms(5) ok forestD(1) by (auto simp: tree_ok_def is_open_def)
  with subtree_empty [OF ok] assms(5) have "subtree t nid \<noteq> []" by blast
  from tree_abandon_closes [OF ok this, of stopped] show ?thesis
    by (auto simp: subtree_def is_open_def dest: tree_get_Some_less)
qed

theorem abandon_closes_the_subtree_witness:
  "\<exists>t t'. tree_calls (tree_new sample_start) sample_calls = Inr t \<and> tree_abandon None t 3 = Inr t' \<and>
     \<not> is_open t' 3 \<and> is_open t' 1"
proof -
  note s = sample_start_simps
  from tracks_calls [OF tracks_new [OF s(1,2)] s(3)] obtain t where
    t: "tree_calls (tree_new sample_start) sample_calls = Inr t" by blast
  have "case tree_calls (tree_new sample_start) sample_calls of Inl _ \<Rightarrow> False | Inr t \<Rightarrow>
    is_open t 3 \<and> is_open t 1 \<and> descends_from t 3 3 = Some True \<and> descends_from t 1 3 = Some False" by code_simp
  with t have "is_open t 3" "is_open t 1" "descends_from t 3 3 = Some True" "descends_from t 1 3 \<noteq> Some True"
    by auto
  with abandon_closes_the_subtree [OF s t, of 3 None] t show ?thesis by auto
qed

text \<open>C17: The id \<open>0\<close>, which no node ever has, is not refused by \<open>abandon\<close> like every other id
  that is not open: it closes the whole tree.\<close>

theorem abandon_zero_closes_everything:
  assumes "start_kind s = Kind_Command c" and "distinct (start_planned s)"
    and "calls_fit (tree_new s) cs" and "tree_calls (tree_new s) cs = Inr t" and "is_open t ROOT"
  shows "\<not> is_open t 0 \<and> (\<exists>t'. tree_abandon stopped t 0 = Inr t' \<and> (\<forall>i. \<not> is_open t' i))"
proof -
  from tracks_calls [OF tracks_new [OF assms(1,2)] assms(3)] assms(4) have ok: "tree_ok t"
    by (auto dest: tree_tracksD(1))
  then have "\<not> is_open t 0" using forestD(1) [of "tree_get t" "t_next t" 0]
    by (cases "tree_get t 0") (auto simp: tree_ok_def is_open_def)
  moreover have "subtree t 0 \<noteq> []" using subtree_zero [OF ok] assms(5) by auto
  ultimately show ?thesis using tree_abandon_closes [OF ok, of 0 stopped] subtree_zero [OF ok] by auto
qed

theorem abandon_zero_closes_everything_witness:
  "\<exists>t t'. tree_calls (tree_new sample_start) sample_calls = Inr t \<and> tree_abandon None t 0 = Inr t' \<and>
     \<not> is_open t' ROOT"
proof -
  note s = sample_start_simps
  from tracks_calls [OF tracks_new [OF s(1,2)] s(3)] obtain t where
    t: "tree_calls (tree_new sample_start) sample_calls = Inr t" by blast
  have "case tree_calls (tree_new sample_start) sample_calls of Inl _ \<Rightarrow> False | Inr t \<Rightarrow> is_open t ROOT"
    by code_simp
  with t abandon_zero_closes_everything [OF s t, of None] show ?thesis by auto
qed


end
