(* ===== verification/Tree_Views.thy ===== *)
theory Tree_Views
  imports Tree_Stream
begin

text \<open>
  What a client of the tree sees of it: which nodes are open, which children of a node are, and
  which keys are taken under it. Each operation's effect on this view, and when it succeeds.
\<close>

definition used :: "tree \<Rightarrow> nat \<Rightarrow> string set" where
  "used t i = taken (t_sent t) i"

definition children :: "tree \<Rightarrow> nat \<Rightarrow> nat set" where
  "children t i = kids (tree_get t) i"

text \<open>A node that was started as a step under \<open>p\<close>, and one that has finished.\<close>

definition step_node :: "tree \<Rightarrow> nat \<Rightarrow> nat \<Rightarrow> bool" where
  "step_node t p i \<longleftrightarrow>
     (\<exists>s \<in> set (starts (t_sent t)). ns_id s = i \<and> shape_of (ns_kind s) = Shape_Step \<and> ns_parent s = p)"

definition finished_in :: "tree \<Rightarrow> nat \<Rightarrow> bool" where
  "finished_in t i \<longleftrightarrow> i \<in> finished_ids (t_sent t)"

text \<open>What one tree and a later one have in common.\<close>

definition later :: "tree \<Rightarrow> tree \<Rightarrow> bool" where
  "later t t' \<longleftrightarrow> (\<exists>es. t_sent t' = t_sent t @ es)"

lemma later_refl [simp]: "later t t"
  by (simp add: later_def)

lemma later_trans: "later t t' \<Longrightarrow> later t' t'' \<Longrightarrow> later t t''"
  by (auto simp: later_def)

lemma later_step_node: "later t t' \<Longrightarrow> step_node t p i \<Longrightarrow> step_node t' p i"
  by (auto simp: later_def step_node_def)

lemma later_finished: "later t t' \<Longrightarrow> finished_in t i \<Longrightarrow> finished_in t' i"
  by (auto simp: later_def finished_in_def finished_ids_def)

lemma open_not_finished: "tree_tracks t \<Longrightarrow> is_open t i \<Longrightarrow> \<not> finished_in t i"
  using tree_tracksD(6) [of t i] by (auto simp: is_open_def finished_in_def running_def)

lemma open_used:
  assumes t: "tree_tracks t" and n: "tree_get t i = Some n"
  shows "on_used n = used t i"
  using tree_tracksD(7) [OF t n] by (simp add: node_tracks_def used_def)

lemma children_open: "c \<in> children t i \<Longrightarrow> is_open t c"
  by (auto simp: children_def kids_def is_open_def)

lemma children_closed: "tree_tracks t \<Longrightarrow> \<not> is_open t i \<Longrightarrow> i \<noteq> 0 \<Longrightarrow> children t i = {}"
proof -
  assume t: "tree_tracks t" and i: "\<not> is_open t i" "i \<noteq> 0"
  have f: "forest (tree_get t) (t_next t)" using tree_tracksD(1) [OF t] by (simp add: tree_ok_def)
  have False if "c \<in> children t i" for c
  proof -
    from that obtain n where n: "tree_get t c = Some n" "on_parent n = i" by (auto simp: children_def kids_def)
    show False
    proof (cases "c = ROOT")
      case True
      with forestD(4) [OF f n(1)] n(2) i(2) show False by simp
    next
      case False
      with forestD(6) [OF f n(1)] n(2) i(1) show False by (simp add: is_open_def)
    qed
  qed
  then show ?thesis by blast
qed

section \<open>Operations\<close>

definition started_view :: "tree \<Rightarrow> nat \<Rightarrow> start \<Rightarrow> nat \<Rightarrow> tree \<Rightarrow> bool" where
  "started_view t p s i t' \<longleftrightarrow>
     tree_tracks t' \<and> later t t' \<and> \<not> is_open t i \<and> p < i \<and> i \<noteq> ROOT \<and> i \<noteq> 0 \<and>
     (\<forall>j. is_open t j \<longrightarrow> j < i) \<and> (\<forall>j. is_open t' j \<longleftrightarrow> is_open t j \<or> j = i) \<and>
     (\<forall>j. children t' j = (if j = p then insert i (children t j) else children t j)) \<and> children t i = {} \<and>
     (\<forall>j. used t' j = (if j = p then insert (start_key s) (used t j) else used t j)) \<and> used t i = {} \<and>
     (shape_of (Some (start_kind s)) = Shape_Step \<longrightarrow> step_node t' p i) \<and>
     (\<forall>j. finished_in t' j = finished_in t j)"

lemma start_view:
  assumes t: "tree_tracks t" and p: "is_open t p" and k: "start_key s \<notin> used t p"
    and fits: "start_fits (t_sent t) p s"
  shows "\<exists>i t'. tree_start t p s = Inr (i, t') \<and> started_view t p s i t'"
proof -
  note d = tree_tracksD [OF t]
  obtain n where n: "tree_get t p = Some n" using p by (auto simp: is_open_def)
  with k open_used [OF t n] have "tree_claim t p (start_key s) = Inr (tree_set t p (Some (n\<lparr>on_used := insert (start_key s) (on_used n)\<rparr>)))"
    by (simp add: tree_claim_Inr)
  then obtain i t' where ok: "tree_start t p s = Inr (i, t')"
    by (simp add: tree_start_def) (metis surj_pair)
  from tree_start_effect [OF ok] d(1) n have eff: "i = t_next t" "t_sent t' = t_sent t @ [started_event i p s]"
      "tree_get t' = (tree_get t)(p \<mapsto> n\<lparr>on_used := insert (start_key s) (on_used n),
        on_children := Suc (on_children n)\<rparr>, i \<mapsto> fresh_node p (start_planned s))"
    by (auto simp: tree_ok_def)
  have f: "forest (tree_get t) (t_next t)" "1 < t_next t" using d(1) by (simp_all add: tree_ok_def)
  have new: "i \<notin> started_ids (t_sent t)" "i \<noteq> 0" "i \<noteq> ROOT" "p < i" "tree_get t i = None"
    using d(5) eff(1) f(2) forestD(2) [OF f(1) n] forestD(2) [OF f(1), of i]
    by (auto simp: ROOT_def) (cases "tree_get t i"; force)+
  have kids: "children t' j = (if j = p then insert i (children t j) else children t j)" for j
  proof (rule set_eqI)
    fix c
    show "c \<in> children t' j \<longleftrightarrow> c \<in> (if j = p then insert i (children t j) else children t j)"
      using n new by (cases "c = i"; cases "c = p") (auto simp: children_def kids_def eff fresh_node_def)
  qed
  have "later t t'" by (simp add: later_def eff)
  moreover have "j < i" if "is_open t j" for j
    using that forestD(2) [OF f(1)] eff(1) by (auto simp: is_open_def)
  moreover have "is_open t' j \<longleftrightarrow> is_open t j \<or> j = i" for j using n by (auto simp: is_open_def eff)
  moreover have "used t' j = (if j = p then insert (start_key s) (used t j) else used t j)" for j
    by (simp add: used_def eff started_event_def)
  moreover have "used t i = {}" using orderly_fresh(1) [OF d(4) new(1,2)] by (simp add: used_def)
  moreover have "children t i = {}"
    using orderly_fresh(2) [OF d(4) new(1,2)] kids_running [OF t] by (simp add: children_def)
  moreover have "step_node t' p i" if "shape_of (Some (start_kind s)) = Shape_Step"
    using that by (simp add: step_node_def eff started_event_def)
  moreover have "finished_in t' j = finished_in t j" for j by (simp add: finished_in_def eff started_event_def)
  ultimately have "started_view t p s i t'"
    using tracks_start_call [OF t ok fits] new kids unfolding started_view_def is_open_def by blast
  with ok show ?thesis by blast
qed

definition finished_view :: "tree \<Rightarrow> nat \<Rightarrow> tree \<Rightarrow> bool" where
  "finished_view t i t' \<longleftrightarrow>
     tree_tracks t' \<and> later t t' \<and> (\<forall>j. is_open t' j \<longleftrightarrow> is_open t j \<and> j \<noteq> i) \<and>
     (\<forall>j. children t' j = children t j - {i}) \<and> (\<forall>j. j \<noteq> i \<longrightarrow> used t' j = used t j) \<and>
     (\<forall>j. finished_in t' j \<longleftrightarrow> finished_in t j \<or> j = i)"

lemma finish_view:
  assumes t: "tree_tracks t" and i: "is_open t i" and leaf: "children t i = {}"
    and fits: "ending_fits (t_sent t) i e"
  shows "\<exists>t'. tree_finish t i e = Inr t' \<and> finished_view t i t'"
proof -
  note d = tree_tracksD [OF t]
  obtain n where n: "tree_get t i = Some n" using i by (auto simp: is_open_def)
  have f: "forest (tree_get t) (t_next t)" using d(1) by (simp add: tree_ok_def)
  from forestD(3) [OF f n] leaf have "on_children n = 0" by (simp add: children_def)
  from tree_finish_leaf [OF n this, of e] obtain t' where ok: "tree_finish t i e = Inr t'" by blast
  from tree_finish_effect [OF ok] n have eff: "tree_get t' = cut_leaf (tree_get t) i n"
    "t_sent t' = t_sent t
      @ map (emit_not_run i NotRunReason_NotReached []) (filter (\<lambda>k. k \<notin> on_used n) (on_planned n))
      @ [finished_event i e]" by auto
  have "later t t'" by (simp add: later_def eff)
  moreover have "is_open t' j \<longleftrightarrow> is_open t j \<and> j \<noteq> i" for j by (auto simp: is_open_def eff cut_leaf_None)
  moreover have "children t' j = children t j - {i}" for j
    unfolding children_def eff(1) by (rule kids_cut_leaf [where g = "tree_get t", OF n])
  moreover have "used t' j = used t j" if "j \<noteq> i" for j
    using that unfolding used_def eff(2) finished_event_def append_assoc [symmetric] by (simp del: append_assoc)
  moreover have "finished_in t' j \<longleftrightarrow> finished_in t j \<or> j = i" for j
    unfolding finished_in_def eff(2) finished_event_def append_assoc [symmetric] by (auto simp del: append_assoc)
  ultimately have "finished_view t i t'"
    using tracks_finish_call [OF t ok fits] unfolding finished_view_def by blast
  with ok show ?thesis by blast
qed

definition taken_view :: "tree \<Rightarrow> nat \<Rightarrow> string \<Rightarrow> tree \<Rightarrow> bool" where
  "taken_view t p key t' \<longleftrightarrow>
     tree_tracks t' \<and> later t t' \<and> (\<forall>j. is_open t' j = is_open t j) \<and> (\<forall>j. children t' j = children t j) \<and>
     (\<forall>j. used t' j = (if j = p then insert key (used t j) else used t j)) \<and>
     (\<forall>j. finished_in t' j = finished_in t j)"

lemma blocked_view:
  assumes t: "tree_tracks t" and p: "is_open t p" and k: "key \<notin> used t p" and b: "by_key \<noteq> []"
  shows "\<exists>t'. tree_blocked t p key by_key = Inr t' \<and> taken_view t p key t'"
proof -
  obtain n where n: "tree_get t p = Some n" using p by (auto simp: is_open_def)
  let ?t1 = "tree_set t p (Some (n\<lparr>on_used := insert key (on_used n)\<rparr>))"
  from k open_used [OF t n] n have claim: "tree_claim t p key = Inr ?t1" by (simp add: tree_claim_Inr)
  then have ok: "tree_blocked t p key by_key = Inr (tree_send ?t1 (emit_not_run p NotRunReason_Blocked by_key key))"
    (is "_ = Inr ?t'") by (simp add: tree_blocked_def)
  have get: "tree_get ?t' = (tree_get t)(p \<mapsto> n\<lparr>on_used := insert key (on_used n)\<rparr>)"
    using tree_get_Some_less [OF n] by simp
  have "later t ?t'" by (simp add: later_def)
  moreover have "is_open ?t' j = is_open t j" for j unfolding is_open_def get using n by simp
  moreover have "children ?t' j = children t j" for j
  proof (rule set_eqI)
    fix c
    show "c \<in> children ?t' j \<longleftrightarrow> c \<in> children t j"
      unfolding children_def kids_def get by (cases "c = p") (simp_all add: n)
  qed
  moreover have "used ?t' j = (if j = p then insert key (used t j) else used t j)" for j
    by (simp add: used_def emit_not_run_def)
  moreover have "finished_in ?t' j = finished_in t j" for j by (simp add: finished_in_def emit_not_run_def)
  ultimately have "taken_view t p key ?t'"
    using tracks_blocked_call [OF t ok b] unfolding taken_view_def by blast
  with ok show ?thesis by blast
qed

text \<open>Progress and warnings change nothing of the view.\<close>

definition same_view :: "tree \<Rightarrow> tree \<Rightarrow> bool" where
  "same_view t t' \<longleftrightarrow> tree_tracks t' \<and> later t t' \<and> (\<forall>j. is_open t' j = is_open t j) \<and>
     (\<forall>j. children t' j = children t j) \<and> (\<forall>j. used t' j = used t j) \<and> (\<forall>j. finished_in t' j = finished_in t j)"

lemma progress_view:
  assumes t: "tree_tracks t" and ok: "tree_progress t i p = Inr t'"
  shows "same_view t t'"
proof -
  from ok obtain n c n1 where n: "tree_get t i = Some n" and ch: "open_changed p n = (c, n1)"
    and t': "t' = (if c then tree_send (tree_set t i (Some n1)) (Event_NodeProgress \<lparr>np_id = i, np_progress = Some p\<rparr>)
      else tree_set t i (Some n1))"
    by (auto simp: tree_progress_def Let_def split: option.splits prod.splits)
  note keep = open_changed_keeps [OF ch]
  have get: "tree_get t' = (tree_get t)(i \<mapsto> n1)" using tree_get_Some_less [OF n] by (simp add: t')
  have "children t' j = children t j" for j
  proof (rule set_eqI)
    fix x
    show "x \<in> children t' j \<longleftrightarrow> x \<in> children t j"
      unfolding children_def kids_def get using keep by (cases "x = i") (simp_all add: n)
  qed
  moreover have "is_open t' j = is_open t j" for j unfolding is_open_def get using n by simp
  ultimately show ?thesis
    using tracks_progress_call [OF t ok] by (simp add: same_view_def later_def used_def finished_in_def t')
qed

lemma warn_view:
  assumes t: "tree_tracks t" and ok: "tree_warn t i d = Inr t'"
  shows "same_view t t'"
  using ok tracks_warn_call [OF t ok]
  by (auto simp: tree_warn_def same_view_def later_def used_def finished_in_def children_def is_open_def split: if_splits)

lemma warn_open: "is_open t i \<Longrightarrow> \<exists>t'. tree_warn t i d = Inr t'"
  by (simp add: tree_warn_def)

end
