(* ===== verification/Text.thy ===== *)
theory Text
  imports Mix_Prelude
begin

text \<open>
  What the code uses of Rust's texts, on the UTF-8 bytes that a text is here: validity and lossy
  decoding, white space and trimming, lines, splitting, hexadecimal numbers.
\<close>

section \<open>UTF-8\<close>

definition byte :: "char \<Rightarrow> nat" where
  "byte c = of_char c"

definition byte_in :: "nat \<Rightarrow> nat \<Rightarrow> string \<Rightarrow> nat \<Rightarrow> bool" where
  "byte_in lo hi s i \<longleftrightarrow> i < length s \<and> lo \<le> byte (s ! i) \<and> byte (s ! i) \<le> hi"

text \<open>Whether the text begins with a character, and how many bytes it has; if it does not, how many
  bytes make up the ill-formed part that one replacement character stands for.\<close>

definition utf8_step :: "string \<Rightarrow> bool \<times> nat" where
  "utf8_step s =
     (let cont = byte_in 0x80 0xBF s;
          second = (if byte_in 0xE0 0xE0 s 0 then byte_in 0xA0 0xBF s 1
                    else if byte_in 0xED 0xED s 0 then byte_in 0x80 0x9F s 1
                    else if byte_in 0xF0 0xF0 s 0 then byte_in 0x90 0xBF s 1
                    else if byte_in 0xF4 0xF4 s 0 then byte_in 0x80 0x8F s 1
                    else cont 1)
      in if byte_in 0 0x7F s 0 then (True, 1)
         else if byte_in 0xC2 0xDF s 0 then (if second then (True, 2) else (False, 1))
         else if byte_in 0xE0 0xEF s 0 then
           (if \<not> second then (False, 1) else if cont 2 then (True, 3) else (False, 2))
         else if byte_in 0xF0 0xF4 s 0 then
           (if \<not> second then (False, 1) else if \<not> cont 2 then (False, 2)
            else if cont 3 then (True, 4) else (False, 3))
         else (False, 1))"

lemma utf8_step_pos [simp]: "0 < snd (utf8_step s)"
  by (simp add: utf8_step_def Let_def)

function valid_utf8 :: "string \<Rightarrow> bool" where
  "valid_utf8 s = (if s = [] then True else fst (utf8_step s) \<and> valid_utf8 (drop (snd (utf8_step s)) s))"
  by auto
termination by (relation "measure length") (auto simp: Suc_le_eq)

declare valid_utf8.simps [simp del]

definition replacement :: string where
  "replacement = [CHR 0xEF, CHR 0xBF, CHR 0xBD]"

function utf8_lossy :: "string \<Rightarrow> string" where
  "utf8_lossy s =
     (if s = [] then []
      else (let (ok, n) = utf8_step s
            in (if ok then take n s else replacement) @ utf8_lossy (drop (snd (utf8_step s)) s)))"
  by auto
termination by (relation "measure length") (auto simp: Suc_le_eq)

declare utf8_lossy.simps [simp del]

lemma utf8_lossy_valid: "valid_utf8 s \<Longrightarrow> utf8_lossy s = s"
proof (induction s rule: valid_utf8.induct)
  case (1 s)
  show ?case
  proof (cases "s = []")
    case False
    with 1 have "fst (utf8_step s)" "utf8_lossy (drop (snd (utf8_step s)) s) = drop (snd (utf8_step s)) s"
      by (simp_all add: valid_utf8.simps [of s])
    with False show ?thesis by (simp add: utf8_lossy.simps [of s] split_beta)
  qed (simp add: utf8_lossy.simps)
qed

text \<open>An ASCII character ends whatever ill-formed part is before it.\<close>

lemma byte_in_ascii:
  assumes "(of_char c :: nat) < 0x80" "0x80 \<le> lo" "i \<le> length xs"
  shows "byte_in lo hi (xs @ c # ys) i = byte_in lo hi xs i"
  using assms by (auto simp: byte_in_def byte_def nth_append)

lemma utf8_step_ascii:
  assumes "xs \<noteq> []" "(of_char c :: nat) < 0x80"
  shows "utf8_step (xs @ c # ys) = utf8_step xs"
proof -
  have b0: "byte_in lo hi (xs @ c # ys) 0 = byte_in lo hi xs 0" for lo hi
    using assms(1) by (auto simp: byte_in_def nth_append)
  have b1: "byte_in lo hi (xs @ c # ys) (Suc 0) = byte_in lo hi xs (Suc 0)" if "0x80 \<le> lo" for lo hi
    using assms(2) that assms(1) by (intro byte_in_ascii) (simp_all add: Suc_le_eq)
  have b2: "byte_in lo hi (xs @ c # ys) 2 = byte_in lo hi xs 2" if "0x80 \<le> lo" "2 \<le> length xs" for lo hi
    using assms that by (intro byte_in_ascii) auto
  have b3: "byte_in lo hi (xs @ c # ys) 3 = byte_in lo hi xs 3" if "0x80 \<le> lo" "3 \<le> length xs" for lo hi
    using assms that by (intro byte_in_ascii) auto
  have long: "i < length xs" if "byte_in lo hi xs i" for lo hi i
    using that by (simp add: byte_in_def)
  show ?thesis
  proof (cases "length xs < 2")
    case True
    then have n: "\<not> byte_in lo hi xs (Suc 0)" for lo hi by (simp add: byte_in_def)
    show ?thesis by (simp add: utf8_step_def Let_def b0 b1 n)
  next
    case two: False
    show ?thesis
    proof (cases "length xs < 3")
      case True
      then have n: "\<not> byte_in lo hi xs 2" for lo hi by (simp add: byte_in_def)
      from two show ?thesis by (simp add: utf8_step_def Let_def b0 b1 b2 n)
    next
      case False
      with two show ?thesis by (simp add: utf8_step_def Let_def b0 b1 b2 b3)
    qed
  qed
qed

lemma utf8_step_length: "xs \<noteq> [] \<Longrightarrow> snd (utf8_step xs) \<le> length xs"
proof -
  assume "xs \<noteq> []"
  then have "1 \<le> length xs" by (cases xs) auto
  moreover have "2 \<le> length xs" if "byte_in lo hi xs (Suc 0)" for lo hi using that by (simp add: byte_in_def)
  moreover have "3 \<le> length xs" if "byte_in lo hi xs 2" for lo hi using that by (simp add: byte_in_def)
  moreover have "4 \<le> length xs" if "byte_in lo hi xs 3" for lo hi using that by (simp add: byte_in_def)
  ultimately show ?thesis unfolding utf8_step_def Let_def One_nat_def by (simp split: if_split)
qed

lemma utf8_lossy_ascii: "(of_char c :: nat) < 0x80 \<Longrightarrow> utf8_lossy (xs @ c # ys) = utf8_lossy xs @ c # utf8_lossy ys"
proof (induction xs rule: utf8_lossy.induct)
  case (1 xs)
  show ?case
  proof (cases "xs = []")
    case True
    from 1(2) have "utf8_step (c # ys) = (True, 1)" by (simp add: utf8_step_def byte_in_def byte_def Let_def)
    with True show ?thesis by (simp add: utf8_lossy.simps [of "c # ys"] utf8_lossy.simps [of "[]"])
  next
    case False
    let ?n = "snd (utf8_step xs)"
    from False 1 have IH: "utf8_lossy (drop ?n xs @ c # ys) = utf8_lossy (drop ?n xs) @ c # utf8_lossy ys"
      by (metis surjective_pairing)
    from False utf8_step_length [OF False] show ?thesis
      by (simp add: utf8_lossy.simps [of "xs @ c # ys"] utf8_lossy.simps [of xs] utf8_step_ascii [OF False 1(2)]
        case_prod_unfold Let_def IH)
  qed
qed
lemma utf8_lossy_Nil [simp]: "utf8_lossy s = [] \<longleftrightarrow> s = []"
  using utf8_step_pos [of s]
  by (subst utf8_lossy.simps) (auto simp: case_prod_unfold Let_def replacement_def simp del: utf8_step_pos)

section \<open>White space\<close>

text \<open>The bytes of the white space character that the text begins with, or none.\<close>

definition white_space :: "string \<Rightarrow> nat" where
  "white_space s =
     (if byte_in 0x09 0x0D s 0 \<or> byte_in 0x20 0x20 s 0 then 1
      else if byte_in 0xC2 0xC2 s 0 \<and> (byte_in 0x85 0x85 s 1 \<or> byte_in 0xA0 0xA0 s 1) then 2
      else if byte_in 0xE1 0xE1 s 0 \<and> byte_in 0x9A 0x9A s 1 \<and> byte_in 0x80 0x80 s 2 then 3
      else if byte_in 0xE2 0xE2 s 0 \<and> byte_in 0x80 0x80 s 1 \<and>
        (byte_in 0x80 0x8A s 2 \<or> byte_in 0xA8 0xA9 s 2 \<or> byte_in 0xAF 0xAF s 2) then 3
      else if byte_in 0xE2 0xE2 s 0 \<and> byte_in 0x81 0x81 s 1 \<and> byte_in 0x9F 0x9F s 2 then 3
      else if byte_in 0xE3 0xE3 s 0 \<and> byte_in 0x80 0x80 s 1 \<and> byte_in 0x80 0x80 s 2 then 3
      else 0)"

lemma white_space_Nil [simp]: "white_space [] = 0"
  by (simp add: white_space_def byte_in_def)

lemma white_space_shrinks: "white_space s \<noteq> 0 \<Longrightarrow> length (drop (white_space s) s) < length s"
  by (cases s) simp_all

function trim_start :: "string \<Rightarrow> string" where
  "trim_start s = (if white_space s = 0 then s else trim_start (drop (white_space s) s))"
  by auto
termination by (relation "measure length") (use white_space_shrinks in auto)

declare trim_start.simps [simp del]

text \<open>The text without the white space at its end: the last characters that are white space go.\<close>

definition ends_in_space :: "string \<Rightarrow> nat" where
  "ends_in_space s =
     (case filter (\<lambda>n. n \<le> length s \<and> white_space (drop (length s - n) s) = n) [1, 2, 3] of
        [] \<Rightarrow> 0 | n # _ \<Rightarrow> n)"

function trim_end :: "string \<Rightarrow> string" where
  "trim_end s = (if ends_in_space s = 0 \<or> s = [] then s else trim_end (take (length s - ends_in_space s) s))"
  by auto
termination by (relation "measure length") auto

declare trim_end.simps [simp del]

definition trim :: "string \<Rightarrow> string" where
  "trim s = trim_end (trim_start s)"

text \<open>\<open>split_whitespace\<close>: the maximal pieces without white space.\<close>

function words_acc :: "string \<Rightarrow> string \<Rightarrow> string list" where
  "words_acc acc s =
     (if s = [] then (if acc = [] then [] else [acc])
      else if white_space s = 0 then words_acc (acc @ [hd s]) (tl s)
      else (if acc = [] then [] else [acc]) @ words_acc [] (drop (white_space s) s))"
  by pat_completeness auto
termination by (relation "measure (\<lambda>(acc, s). length s)") auto

declare words_acc.simps [simp del]

definition split_whitespace :: "string \<Rightarrow> string list" where
  "split_whitespace s = words_acc [] s"

section \<open>Lines and splitting\<close>

definition newline :: char where
  "newline = CHR 0x0A"

definition strip_cr :: "string \<Rightarrow> string" where
  "strip_cr s = (if s \<noteq> [] \<and> last s = CHR 0x0D then butlast s else s)"

fun split_on :: "char \<Rightarrow> string \<Rightarrow> string list" where
  "split_on c [] = [[]]"
| "split_on c (x # xs) =
     (if x = c then [] # split_on c xs
      else case split_on c xs of [] \<Rightarrow> [[x]] | w # ws \<Rightarrow> (x # w) # ws)"

lemma split_on_not_Nil [simp]: "split_on c s \<noteq> []"
  by (induction s) (auto split: list.splits)

lemma split_on_no_sep: "c \<notin> set s \<Longrightarrow> split_on c s = [s]"
  by (induction s) auto

lemma split_on_mem: "w \<in> set (split_on c s) \<Longrightarrow> c \<notin> set w"
proof (induction s arbitrary: w)
  case (Cons x xs)
  then show ?case
  proof (cases "split_on c xs")
    case (Cons v vs)
    with Cons.prems Cons.IH show ?thesis by (auto split: if_splits)
  qed simp
qed simp

lemma split_on_app: "c \<notin> set w \<Longrightarrow> split_on c (w @ c # s) = w # split_on c s"
  by (induction w) auto

lemma split_on_join:
  "(\<And>w. w \<in> set ws \<Longrightarrow> c \<notin> set w) \<Longrightarrow> ws \<noteq> [] \<Longrightarrow> split_on c (join_with [c] ws) = ws"
proof (induction ws)
  case (Cons w ws)
  then show ?case
    by (cases ws) (auto simp: split_on_no_sep split_on_app)
qed simp

text \<open>\<open>lines\<close>: every line ends with a newline, which the last may lack; only a line that ended with
  one loses a carriage return.\<close>

definition lines :: "string \<Rightarrow> string list" where
  "lines s =
     (let ps = split_on newline s
      in map strip_cr (butlast ps) @ (if last ps = [] then [] else [last ps]))"

text \<open>\<open>split_once\<close> at a character.\<close>

fun split_once :: "char \<Rightarrow> string \<Rightarrow> (string \<times> string) option" where
  "split_once c [] = None"
| "split_once c (x # xs) =
     (if x = c then Some ([], xs) else map_option (\<lambda>(a, b). (x # a, b)) (split_once c xs))"

lemma split_once_Some: "split_once c s = Some (a, b) \<longleftrightarrow> s = a @ c # b \<and> c \<notin> set a"
proof (induction s arbitrary: a)
  case (Cons x xs)
  show ?case
  proof (cases "x = c")
    case True
    then show ?thesis by (cases a) auto
  next
    case False
    then show ?thesis
    proof (cases a)
      case (Cons y ys)
      with False Cons.IH [of ys] show ?thesis by auto
    qed auto
  qed
qed simp

lemma split_once_None: "split_once c s = None \<longleftrightarrow> c \<notin> set s"
  by (induction s) auto

section \<open>Numbers\<close>

definition hex_digit :: "nat \<Rightarrow> char" where
  "hex_digit d = (if d < 10 then char_of (48 + d) else char_of (87 + d))"

fun hex_digits :: "nat \<Rightarrow> nat \<Rightarrow> string" where
  "hex_digits 0 n = []"
| "hex_digits (Suc k) n = hex_digits k (n div 16) @ [hex_digit (n mod 16)]"

lemma length_hex_digits [simp]: "length (hex_digits k n) = k"
  by (induction k arbitrary: n) simp_all

lemma hex_digit_inj: "a < 16 \<Longrightarrow> b < 16 \<Longrightarrow> hex_digit a = hex_digit b \<Longrightarrow> a = b"
proof -
  assume ab: "a < 16" "b < 16" "hex_digit a = hex_digit b"
  then have "(of_char (hex_digit a) :: nat) = of_char (hex_digit b)" by simp
  with ab show "a = b" by (auto simp: hex_digit_def split: if_splits)
qed

lemma hex_digits_inj: "m < 16 ^ k \<Longrightarrow> n < 16 ^ k \<Longrightarrow> hex_digits k m = hex_digits k n \<Longrightarrow> m = n"
proof (induction k arbitrary: m n)
  case (Suc k)
  from Suc.prems have "m div 16 < 16 ^ k" "n div 16 < 16 ^ k" by (auto simp: less_mult_imp_div_less mult.commute)
  moreover from Suc.prems(3) have "hex_digits k (m div 16) = hex_digits k (n div 16)"
    and "hex_digit (m mod 16) = hex_digit (n mod 16)" by simp_all
  ultimately have "m div 16 = n div 16" "m mod 16 = n mod 16" using Suc.IH by (auto intro: hex_digit_inj)
  then show ?case by (metis div_mult_mod_eq)
qed simp

text \<open>\<open>str::parse\<close> of an unsigned number with the given bound: digits, and a plus sign before them.\<close>

definition digit_value :: "char \<Rightarrow> nat option" where
  "digit_value c = (if 48 \<le> byte c \<and> byte c \<le> 57 then Some (byte c - 48) else None)"

definition is_digit :: "char \<Rightarrow> bool" where
  "is_digit c \<longleftrightarrow> 48 \<le> byte c \<and> byte c \<le> 57"

definition digits_value :: "string \<Rightarrow> nat" where
  "digits_value s = foldl (\<lambda>n c. n * 10 + (byte c - 48)) 0 s"

definition parse_unsigned :: "nat \<Rightarrow> string \<Rightarrow> nat option" where
  "parse_unsigned bound s =
     (let ds = (if s \<noteq> [] \<and> hd s = CHR ''+'' then tl s else s)
      in if ds = [] \<or> \<not> list_all is_digit ds \<or> bound \<le> digits_value ds then None else Some (digits_value ds))"

lemma byte_digit_char [simp]: "d < 10 \<Longrightarrow> byte (digit_char d) = 48 + d"
  by (simp add: byte_def digit_char_def)

lemma digits_value_snoc [simp]: "digits_value (s @ [c]) = digits_value s * 10 + (byte c - 48)"
  by (simp add: digits_value_def)

lemma show_nat_digits: "list_all is_digit (show_nat n) \<and> digits_value (show_nat n) = n"
proof (induction n rule: show_nat.induct)
  case (1 n)
  show ?case
  proof (cases "n < 10")
    case True
    then show ?thesis
      by (simp add: show_nat.simps [of n] is_digit_def digits_value_def)
  next
    case False
    with 1 show ?thesis
      by (simp add: show_nat.simps [of n] is_digit_def)
  qed
qed

lemma parse_show_nat: "n < bound \<Longrightarrow> parse_unsigned bound (show_nat n) = Some n"
proof -
  assume n: "n < bound"
  have d: "list_all is_digit (show_nat n)" "digits_value (show_nat n) = n" using show_nat_digits by auto
  have "hd (show_nat n) \<noteq> CHR ''+''"
  proof
    assume "hd (show_nat n) = CHR ''+''"
    with d(1) show False by (cases "show_nat n") (auto simp: is_digit_def byte_def)
  qed
  with d n show ?thesis by (simp add: parse_unsigned_def Let_def)
qed

end
