(* ===== verification/Paths.thy ===== *)
theory Paths
  imports Text
begin

text \<open>
  Paths and the places mix knows (\<open>crates/core/src/declared/paths.rs\<close>) and who it acts for
  (\<open>declared/identity.rs\<close>).

  A Rust \<open>Path\<close> compares by its components, so a path is the list of them; every path here is
  absolute, and \<open>[]\<close> is the root directory. Joining with a text splits the text at its slashes;
  an absolute text replaces the base, as \<open>Path::join\<close> does.
\<close>

type_synonym path = "string list"

section \<open>Paths as components\<close>

definition slash :: char where
  "slash = CHR ''/''"

definition components :: "string \<Rightarrow> path" where
  "components s = filter (\<lambda>c. c \<noteq> [] \<and> c \<noteq> ''.'') (split_on slash s)"

definition path_join :: "path \<Rightarrow> string \<Rightarrow> path" where
  "path_join base rel =
     (case rel of
        [] \<Rightarrow> base
      | c # _ \<Rightarrow> if c = slash then components rel else base @ components rel)"

definition path_display :: "path \<Rightarrow> string" where
  "path_display p = slash # join_with [slash] p"

definition path_parent :: "path \<Rightarrow> path option" where
  "path_parent p = (if p = [] then None else Some (butlast p))"

definition file_name :: "path \<Rightarrow> string option" where
  "file_name p = (if p = [] then None else Some (last p))"

text \<open>\<open>with_file_name\<close>, \<open>starts_with\<close>, \<open>ends_with\<close> and \<open>ancestors\<close> of \<open>Path\<close>.\<close>

definition with_file_name :: "path \<Rightarrow> string \<Rightarrow> path" where
  "with_file_name p name = path_join (butlast p) name"

fun starts_with :: "'a list \<Rightarrow> 'a list \<Rightarrow> bool" where
  "starts_with p [] = True"
| "starts_with [] (c # cs) = False"
| "starts_with (d # ds) (c # cs) = (d = c \<and> starts_with ds cs)"

definition ends_with :: "path \<Rightarrow> path \<Rightarrow> bool" where
  "ends_with p q = starts_with (rev p) (rev q)"

definition ancestors :: "path \<Rightarrow> path list" where
  "ancestors p = map (\<lambda>n. take n p) (rev [0..<Suc (length p)])"

text \<open>\<open>Path::extension\<close>: what follows the last dot of the name, unless that dot is its first
  character.\<close>

definition extension :: "path \<Rightarrow> string option" where
  "extension p =
     (case file_name p of
        None \<Rightarrow> None
      | Some name \<Rightarrow>
          (let parts = split_on (CHR ''.'') name
           in if length parts < 2 \<or> name = ''..'' \<or> length parts = 2 \<and> hd parts = [] then None
              else Some (last parts)))"

lemma starts_with_iff: "starts_with p q \<longleftrightarrow> (\<exists>r. p = q @ r)"
  by (induction p q rule: starts_with.induct) auto

lemma starts_with_refl [simp]: "starts_with p p"
  by (simp add: starts_with_iff)

lemma starts_with_append [simp]: "starts_with (p @ q) p"
  by (simp add: starts_with_iff)

text \<open>A path prints and reads back, unless a component has a slash in it or is empty or a dot.\<close>

definition plain_component :: "string \<Rightarrow> bool" where
  "plain_component c \<longleftrightarrow> c \<noteq> [] \<and> c \<noteq> ''.'' \<and> slash \<notin> set c"

lemma components_plain: "c \<in> set (components s) \<Longrightarrow> plain_component c"
  by (auto simp: components_def plain_component_def dest: split_on_mem)

lemma components_display:
  assumes "\<forall>c \<in> set p. plain_component c"
  shows "components (path_display p) = p"
proof (cases "p = []")
  case True
  then show ?thesis by (simp add: path_display_def components_def)
next
  case False
  with assms have "split_on slash (join_with [slash] p) = p"
    by (intro split_on_join) (auto simp: plain_component_def)
  with assms show ?thesis
    by (auto simp: path_display_def components_def plain_component_def filter_id_conv)
qed

lemma path_join_plain: "plain_component c \<Longrightarrow> path_join base c = base @ [c]"
  by (cases c) (auto simp: path_join_def plain_component_def components_def split_on_no_sep)

section \<open>The places\<close>

definition SYSTEMD_UNIT_DIR :: path where
  "SYSTEMD_UNIT_DIR = [''etc'', ''systemd'', ''system'']"

definition NIX_DAEMON_SERVICE_SRC :: path where
  "NIX_DAEMON_SERVICE_SRC =
     [''nix'', ''var'', ''nix'', ''profiles'', ''default'', ''lib'', ''systemd'', ''system'', ''nix-daemon.service'']"

definition NIX_DAEMON_SOCKET_SRC :: path where
  "NIX_DAEMON_SOCKET_SRC =
     [''nix'', ''var'', ''nix'', ''profiles'', ''default'', ''lib'', ''systemd'', ''system'', ''nix-daemon.socket'']"

definition NIX_STORE :: path where
  "NIX_STORE = [''nix'', ''store'']"

definition DEFAULT_PROFILE_NIX_ENV :: path where
  "DEFAULT_PROFILE_NIX_ENV =
     [''nix'', ''var'', ''nix'', ''profiles'', ''default'', ''bin'', ''nix-env'']"

definition MIX_STATE_DIR :: string where
  "MIX_STATE_DIR = ''.local/state/mix''"

definition FLAKE_NIX :: string where
  "FLAKE_NIX = ''flake.nix''"

definition HOME_NIX :: string where
  "HOME_NIX = ''home.nix''"

definition FLAKE_LOCK :: string where
  "FLAKE_LOCK = ''flake.lock''"

definition STATE_FILE :: string where
  "STATE_FILE = ''state''"

definition GIT_DIR :: string where
  "GIT_DIR = ''.git''"

definition INDEX_LOCK :: string where
  "INDEX_LOCK = ''index.lock''"

definition REPOSITORY_HEAD :: string where
  "REPOSITORY_HEAD = ''HEAD''"

definition REPOSITORY_BRANCH :: string where
  "REPOSITORY_BRANCH = ''refs/heads/main''"

definition REPOSITORY_CONFIG :: string where
  "REPOSITORY_CONFIG = ''config''"

definition REPOSITORY_INDEX :: string where
  "REPOSITORY_INDEX = ''index''"

definition REPOSITORY_CONFIG_CONTENTS :: string where
  "REPOSITORY_CONFIG_CONTENTS =
     ''[core]'' @ [CHR 0x0A] @ [CHR 0x09] @ ''repositoryformatversion = 0'' @ [CHR 0x0A] @ [CHR 0x09] @ ''filemode = true'' @ [CHR 0x0A] @ [CHR 0x09] @ ''bare = false'' @ [CHR 0x0A]"

definition GITIGNORE :: string where
  "GITIGNORE = ''.gitignore''"

definition GITIGNORE_CONTENTS :: string where
  "GITIGNORE_CONTENTS =
     ''# Managed by mix -- do not edit, changes are overwritten.'' @ [CHR 0x0A] @ ''/*'' @ [CHR 0x0A] @ ''!/.gitignore'' @ [CHR 0x0A] @ ''!/flake.lock'' @ [CHR 0x0A] @ ''!/flake.nix'' @ [CHR 0x0A] @ ''!/home.nix'' @ [CHR 0x0A] @ ''!/state'' @ [CHR 0x0A]"

definition NIX_PROFILES_DIR :: string where
  "NIX_PROFILES_DIR = ''.local/state/nix/profiles''"

definition HOME_MANAGER_PROFILE_NAME :: string where
  "HOME_MANAGER_PROFILE_NAME = ''home-manager''"

definition GENERATION_STATE_FILE :: string where
  "GENERATION_STATE_FILE = ''mix-state''"

definition GENERATION_LOCK_FILE :: string where
  "GENERATION_LOCK_FILE = ''mix-flake.lock''"

definition MANAGED_FILES :: "string list" where
  "MANAGED_FILES = [GITIGNORE, FLAKE_LOCK, FLAKE_NIX, HOME_NIX, STATE_FILE]"

definition GENERATION_INPUTS :: "(string \<times> string) list" where
  "GENERATION_INPUTS =
     [(STATE_FILE, GENERATION_STATE_FILE), (FLAKE_NIX, ''mix-flake.nix''),
      (FLAKE_LOCK, GENERATION_LOCK_FILE), (HOME_NIX, ''mix-home.nix'')]"

definition mix_state_dir :: "path \<Rightarrow> path" where
  "mix_state_dir home = path_join home MIX_STATE_DIR"

definition repository_dir :: "path \<Rightarrow> path" where
  "repository_dir home = path_join (mix_state_dir home) GIT_DIR"

definition nix_profiles_dir :: "path \<Rightarrow> path" where
  "nix_profiles_dir home = path_join home NIX_PROFILES_DIR"

definition profile_path :: "path \<Rightarrow> path" where
  "profile_path home = path_join (nix_profiles_dir home) HOME_MANAGER_PROFILE_NAME"

definition generation_link :: "path \<Rightarrow> nat \<Rightarrow> path" where
  "generation_link home generation =
     path_join (nix_profiles_dir home) (HOME_MANAGER_PROFILE_NAME @ ''-'' @ show_nat generation @ ''-link'')"

definition active_list_path :: "path \<Rightarrow> path" where
  "active_list_path home =
     path_join (path_join (nix_profiles_dir home) HOME_MANAGER_PROFILE_NAME) GENERATION_STATE_FILE"

definition active_lock_path :: "path \<Rightarrow> path" where
  "active_lock_path home =
     path_join (path_join (nix_profiles_dir home) HOME_MANAGER_PROFILE_NAME) GENERATION_LOCK_FILE"

text \<open>The siblings an interrupted write leaves behind.\<close>

definition LEFTOVER_PURPOSES :: "string list" where
  "LEFTOVER_PURPOSES = [''backup'', ''aside'', ''new'', ''remove'', ''reclaim'']"

definition leftover_marker :: string where
  "leftover_marker = ''.mix-''"

fun marked_leftover :: "nat \<Rightarrow> string \<Rightarrow> bool" where
  "marked_leftover at [] = False"
| "marked_leftover at (c # rest) =
     ((at > 0 \<and> starts_with (c # rest) leftover_marker \<and>
        (\<exists>purpose \<in> set LEFTOVER_PURPOSES.
           (let after = drop (length leftover_marker) (c # rest); tail = drop (length purpose) after
            in starts_with after purpose \<and> starts_with tail ''-'' \<and> length tail > 1)))
      \<or> marked_leftover (Suc at) rest)"

definition is_leftover :: "string \<Rightarrow> bool" where
  "is_leftover name =
     (case name of [] \<Rightarrow> False | c # rest \<Rightarrow> c = CHR ''.'' \<and> marked_leftover 0 rest)"

section \<open>Who mix acts for\<close>

record invoking_user =
  iu_uid :: u32
  iu_gid :: u32
  iu_name :: string
  iu_home :: path

end
