(* ===== verification/Effects.thy ===== *)
theory Effects
  imports Wire Paths
begin

text \<open>
  What mix can do to a machine and what it can ask of it: actions with what they touch and how
  they are described (\<open>crates/core/src/effect/action.rs\<close>), failures and outcomes
  (\<open>failure.rs\<close>), queries and facts (\<open>observe.rs\<close>).

  An I/O error kind is its name, which is what the code stores and compares; file contents are
  bytes. Device and inode numbers, sizes, generation numbers and timestamps are identities that
  are only compared and counted up, so they are natural numbers here.
\<close>

section \<open>Shared data\<close>

type_synonym owner = "u32 \<times> u32"
type_synonym error_kind = string

record file_id =
  fid_dev :: nat
  fid_ino :: nat
  fid_born :: "(int \<times> nat) option"

datatype expect = Expect_Absent | Expect_Present file_id

record user_spec =
  us_name :: string
  us_uid :: u32
  us_gid :: u32
  us_home :: path
  us_shell :: path
  us_comment :: string
  us_groups :: "string list"

datatype flake_source = FlakeSource_Path | FlakeSource_Git

section \<open>Actions\<close>

datatype action =
    CreateDir path u32 "owner option"
  | CreateDirs path u32 "owner option"
  | PutFile path bytes u32 "owner option" expect
  | SetMode path u32 u32
  | SetOwner path owner owner
  | SetAside path file_id
  | Discard path file_id
  | Keep path
  | RemoveCreated path file_id
  | RemoveCreatedTree path file_id
  | Restore path path expect
  | ReclaimTree path file_id owner u32
  | CopyTree path path owner u32
  | AddGroup string u32
  | SetGroupGid string u32 u32
  | DeleteGroup string u32
  | AddUser user_spec
  | SetUserIds string owner owner
  | DeleteUser string owner string
  | AddMember string string
  | RemoveMember string string
  | InstallUnit string bytes expect
  | EnableUnit string
  | DisableUnit string
  | StartUnit string
  | StopUnit string
  | RestartUnit string
  | DrainService string
  | DaemonReload
  | InstallRuntime string bytes nat
  | RemoveRuntime "path list" "path list"
  | ActivateProfile invoking_user flake_source
  | SwitchGeneration invoking_user "nat option" "nat option"
  | DeleteGeneration invoking_user nat
  | ApplyGeneration invoking_user
  | RecordState invoking_user
  | CollectGarbage invoking_user
  | CreateRepository invoking_user
  | Commit

datatype subject =
    Subject_Path path
  | Subject_Group string
  | Subject_User string
  | Subject_Unit string
  | Subject_Profile invoking_user

definition unit_subjects :: "string \<Rightarrow> subject list" where
  "unit_subjects unit = [Subject_Unit unit, Subject_Path (path_join SYSTEMD_UNIT_DIR unit)]"

definition repository_subjects :: "invoking_user \<Rightarrow> subject list" where
  "repository_subjects user =
     (let repository = repository_dir (iu_home user)
      in [Subject_Path (path_join repository REPOSITORY_HEAD), Subject_Path repository])"

fun subjects :: "action \<Rightarrow> subject list" where
  "subjects (CreateDir at _ _) = [Subject_Path at]"
| "subjects (CreateDirs at _ _) = [Subject_Path at]"
| "subjects (PutFile at _ _ _ _) = [Subject_Path at]"
| "subjects (SetMode at _ _) = [Subject_Path at]"
| "subjects (SetOwner at _ _) = [Subject_Path at]"
| "subjects (SetAside at _) = [Subject_Path at]"
| "subjects (Discard at _) = [Subject_Path at]"
| "subjects (Keep at) = [Subject_Path at]"
| "subjects (RemoveCreated at _) = [Subject_Path at]"
| "subjects (RemoveCreatedTree at _) = [Subject_Path at]"
| "subjects (ReclaimTree at _ _ _) = [Subject_Path at]"
| "subjects (Restore at source _) = [Subject_Path at, Subject_Path source]"
| "subjects (CopyTree source to _ _) = [Subject_Path source, Subject_Path to]"
| "subjects (AddGroup name _) = [Subject_Group name]"
| "subjects (SetGroupGid name _ _) = [Subject_Group name]"
| "subjects (DeleteGroup name _) = [Subject_Group name]"
| "subjects (AddUser spec) = Subject_User (us_name spec) # map Subject_Group (us_groups spec)"
| "subjects (SetUserIds name _ _) = [Subject_User name]"
| "subjects (DeleteUser name _ _) = [Subject_User name]"
| "subjects (AddMember grp user) = [Subject_Group grp, Subject_User user]"
| "subjects (RemoveMember grp user) = [Subject_Group grp, Subject_User user]"
| "subjects (InstallUnit name _ _) = unit_subjects name"
| "subjects (EnableUnit name) = unit_subjects name"
| "subjects (DisableUnit name) = unit_subjects name"
| "subjects (StartUnit name) = unit_subjects name"
| "subjects (StopUnit name) = unit_subjects name"
| "subjects (RestartUnit name) = unit_subjects name"
| "subjects (DrainService name) = unit_subjects name"
| "subjects DaemonReload = []"
| "subjects Commit = []"
| "subjects (InstallRuntime _ _ _) =
     map Subject_Path [NIX_STORE, DEFAULT_PROFILE_NIX_ENV, NIX_DAEMON_SERVICE_SRC, NIX_DAEMON_SOCKET_SRC]"
| "subjects (RemoveRuntime created kept) = map Subject_Path (created @ kept)"
| "subjects (ActivateProfile user _) =
     Subject_Profile user # Subject_Path DEFAULT_PROFILE_NIX_ENV
       # map (\<lambda>file. Subject_Path (path_join (mix_state_dir (iu_home user)) file))
           [FLAKE_NIX, HOME_NIX, FLAKE_LOCK, STATE_FILE]"
| "subjects (SwitchGeneration user _ _) = [Subject_Profile user]"
| "subjects (DeleteGeneration user _) = [Subject_Profile user]"
| "subjects (ApplyGeneration user) = [Subject_Profile user]"
| "subjects (CollectGarbage user) = [Subject_Profile user]"
| "subjects (RecordState user) = repository_subjects user"
| "subjects (CreateRepository user) = repository_subjects user"

text \<open>Actions that bring a running service or the profile in line, and those that need systemd to
  have read the unit files.\<close>

definition is_sync :: "action \<Rightarrow> bool" where
  "is_sync a = (case a of DaemonReload \<Rightarrow> True | RestartUnit _ \<Rightarrow> True | ApplyGeneration _ \<Rightarrow> True | _ \<Rightarrow> False)"

definition needs_loaded_units :: "action \<Rightarrow> bool" where
  "needs_loaded_units a =
     (case a of EnableUnit _ \<Rightarrow> True | DisableUnit _ \<Rightarrow> True | StartUnit _ \<Rightarrow> True | StopUnit _ \<Rightarrow> True
      | _ \<Rightarrow> False)"

fun describe :: "action \<Rightarrow> operation \<times> string" where
  "describe (CreateDir at _ _) = (Operation_CreateDir, path_display at)"
| "describe (CreateDirs at _ _) = (Operation_CreateDirs, path_display at)"
| "describe (PutFile at _ _ _ _) = (Operation_PutFile, path_display at)"
| "describe (SetMode at _ _) = (Operation_SetMode, path_display at)"
| "describe (SetOwner at _ _) = (Operation_SetOwner, path_display at)"
| "describe (SetAside at _) = (Operation_SetAside, path_display at)"
| "describe (Discard at _) = (Operation_Discard, path_display at)"
| "describe (Keep at) = (Operation_Keep, path_display at)"
| "describe (RemoveCreated at _) = (Operation_RemoveCreated, path_display at)"
| "describe (RemoveCreatedTree at _) = (Operation_RemoveCreatedTree, path_display at)"
| "describe (Restore at _ _) = (Operation_Restore, path_display at)"
| "describe (ReclaimTree at _ _ _) = (Operation_ReclaimTree, path_display at)"
| "describe (CopyTree _ to _ _) = (Operation_CopyTree, path_display to)"
| "describe (AddGroup name _) = (Operation_AddGroup, name)"
| "describe (SetGroupGid name _ _) = (Operation_SetGroupGid, name)"
| "describe (DeleteGroup name _) = (Operation_DeleteGroup, name)"
| "describe (AddUser spec) = (Operation_AddUser, us_name spec)"
| "describe (SetUserIds name _ _) = (Operation_SetUserIds, name)"
| "describe (DeleteUser name _ _) = (Operation_DeleteUser, name)"
| "describe (AddMember grp user) = (Operation_AddMember, user @ '' in '' @ grp)"
| "describe (RemoveMember grp user) = (Operation_RemoveMember, user @ '' in '' @ grp)"
| "describe (InstallUnit unit _ _) = (Operation_InstallUnit, unit)"
| "describe (EnableUnit unit) = (Operation_EnableUnit, unit)"
| "describe (DisableUnit unit) = (Operation_DisableUnit, unit)"
| "describe (StartUnit unit) = (Operation_StartUnit, unit)"
| "describe (StopUnit unit) = (Operation_StopUnit, unit)"
| "describe (RestartUnit unit) = (Operation_RestartUnit, unit)"
| "describe (DrainService unit) = (Operation_DrainService, unit)"
| "describe DaemonReload = (Operation_DaemonReload, ''systemd'')"
| "describe (InstallRuntime url _ _) = (Operation_InstallRuntime, url)"
| "describe (RemoveRuntime created kept) =
     (Operation_RemoveRuntime, join_with '', '' (map path_display (created @ kept)))"
| "describe (ActivateProfile user _) = (Operation_ActivateProfile, path_display (profile_path (iu_home user)))"
| "describe (SwitchGeneration user (Some generation) _) =
     (Operation_SwitchGeneration, path_display (generation_link (iu_home user) generation))"
| "describe (SwitchGeneration user None _) =
     (Operation_SwitchGeneration, path_display (profile_path (iu_home user)))"
| "describe (DeleteGeneration user generation) =
     (Operation_DeleteGeneration, path_display (generation_link (iu_home user) generation))"
| "describe (RecordState user) = (Operation_RecordState, path_display (mix_state_dir (iu_home user)))"
| "describe (CreateRepository user) =
     (Operation_CreateRepository, path_display (repository_dir (iu_home user)))"
| "describe (ApplyGeneration user) = (Operation_ApplyGeneration, path_display (profile_path (iu_home user)))"
| "describe (CollectGarbage _) = (Operation_CollectGarbage, path_display NIX_STORE)"
| "describe Commit = (Operation_Commit, ''changes'')"

section \<open>Outcomes\<close>

datatype unit_operation =
    Unit_Inspect | Unit_Reload | Unit_Enable | Unit_Disable | Unit_Start | Unit_Stop | Unit_Restart

primrec unit_verb :: "unit_operation \<Rightarrow> string" where
  "unit_verb Unit_Inspect = ''inspect''"
| "unit_verb Unit_Reload = ''reload''"
| "unit_verb Unit_Enable = ''enable''"
| "unit_verb Unit_Disable = ''disable''"
| "unit_verb Unit_Start = ''start''"
| "unit_verb Unit_Stop = ''stop''"
| "unit_verb Unit_Restart = ''restart''"

record unit_failure =
  uf_operation :: unit_operation
  uf_unit :: string
  uf_job_result :: string
  uf_active_state :: string
  uf_sub_state :: string
  uf_unit_result :: string
  uf_invocation :: "string option"

record collision_failure =
  cf_program :: string
  cf_status :: "int option"
  cf_output_tail :: string
  cf_file :: string
  cf_packages :: "string \<times> string"

datatype failure =
    Conflict string string string
  | Io path error_kind
  | CommandFailed string "int option" string
  | NoInodes string "int option" string
  | OutOfMemory string "int option" string
  | Collision collision_failure
  | SpawnFailed string error_kind
  | UnitFailed unit_failure
  | SystemdUnreachable
  | Network string
  | Integrity string string string
  | Cancelled
  | Unrepairable string unfixable

text \<open>\<open>Performed\<close> is its list of undo actions.\<close>

type_synonym outcome_of = "failure + action list"

section \<open>Queries and facts\<close>

datatype query =
    Query_Path path
  | Query_Contents path
  | Query_Group string
  | Query_User string
  | Query_Unit string
  | Query_UnitLinks string
  | Query_Profile invoking_user
  | Query_TreeOwner path
  | Query_Repository invoking_user
  | Query_ActiveList invoking_user
  | Query_ActiveLock invoking_user
  | Query_Journals path
  | Query_Leftovers path
  | Query_Strangers path owner
  | Query_Clobbered invoking_user
  | Query_Program path path
  | Query_Linked invoking_user
  | Query_Accounts

record profile_facts =
  pf_generations :: "nat list"
  pf_active :: "nat option"
  pf_dangling :: "nat list"

datatype path_kind =
    PathKind_Missing
  | PathKind_Unreadable error_kind
  | PathKind_Directory
  | PathKind_File
  | PathKind_Symlink
  | PathKind_Other

record path_facts =
  paf_kind :: path_kind
  paf_mode :: u32
  paf_owner :: owner
  paf_id :: "file_id option"
  paf_digest :: "bytes option"
  paf_changed :: "(int \<times> nat) option"

record group_facts =
  gf_gid :: u32
  gf_members :: "string list"

record user_facts =
  uf_uid :: u32
  uf_gid :: u32
  uf_home :: path
  uf_shell :: path
  uf_comment :: string

record unit_facts =
  unf_load_state :: string
  unf_active_state :: string
  unf_file_state :: string
  unf_needs_reload :: bool
  unf_active_since :: "(int \<times> nat) option"

definition unit_facts_enabled :: "unit_facts \<Rightarrow> bool" where
  "unit_facts_enabled u \<longleftrightarrow> unf_file_state u = ''enabled''"

record abandoned_request =
  ab_request :: string
  ab_pending :: "string list"

record program_facts =
  prf_same :: bool
  prf_source :: "bytes option"

datatype fact =
    Fact_Path path_facts
  | Fact_Contents "bytes option"
  | Fact_Group "group_facts option"
  | Fact_User "user_facts option"
  | Fact_Unit unit_facts
  | Fact_UnitLinks "(path \<times> file_id) list"
  | Fact_Profile profile_facts
  | Fact_TreeOwner "u32 option"
  | Fact_Repository bool bool
  | Fact_Journals "abandoned_request list"
  | Fact_Leftovers "(path \<times> file_id) list"
  | Fact_Stranger "(path \<times> owner) option"
  | Fact_Clobbered "path list"
  | Fact_Program program_facts
  | Fact_Linked "(path \<times> file_id) list"
  | Fact_Accounts "(string \<times> user_facts) list"

text \<open>The texts the conflicts carry (\<open>crates/core/src/effect/mod.rs\<close>).\<close>

definition show_file_id :: "file_id \<Rightarrow> string" where
  "show_file_id fid = ''inode '' @ show_nat (fid_ino fid) @ '' on device '' @ show_nat (fid_dev fid)"

definition show_expect :: "expect \<Rightarrow> string" where
  "show_expect e = (case e of Expect_Absent \<Rightarrow> ''nothing'' | Expect_Present fid \<Rightarrow> show_file_id fid)"

definition show_ids :: "owner \<Rightarrow> string" where
  "show_ids ow = show_nat (unat (fst ow)) @ '':'' @ show_nat (unat (snd ow))"

definition show_generation :: "nat option \<Rightarrow> string" where
  "show_generation g =
     (case g of Some generation \<Rightarrow> ''generation '' @ show_nat generation | None \<Rightarrow> ''no generation'')"

end
