(* ===== verification/Journal.thy ===== *)
theory Journal
  imports Effects
begin

text \<open>
  The journal of a request (\<open>crates/core/src/run/journal.rs\<close>): what was announced, done, settled
  and reverted, and what a later run has to do about a request that was cut off.
\<close>

section \<open>Records\<close>

datatype journal_record =
    Began string
  | Prepared nat "action list"
  | Done nat
  | Settled nat "action list"
  | Failed nat
  | Reverted action
  | Committing
  | Ended

datatype recovery =
    Recovery_Nothing
  | Recovery_RollBack "action list" "action list"
  | Recovery_FinishCommit "path list"

section \<open>What is confirmed\<close>

text \<open>The loop of \<open>confirmed\<close>: the announcements still open, and what has been confirmed.\<close>

definition confirmed_step ::
  "journal_record \<Rightarrow> (nat \<times> action list) list \<times> (nat \<times> action list) list
    \<Rightarrow> (nat \<times> action list) list \<times> (nat \<times> action list) list" where
  "confirmed_step r s =
     (let (prepared, confirmed) = s
      in case r of
        Prepared seq undo \<Rightarrow> (filter (\<lambda>p. fst p \<noteq> seq) prepared @ [(seq, undo)], confirmed)
      | Done seq \<Rightarrow>
          (case find (\<lambda>p. fst p = seq) prepared of
             Some p \<Rightarrow> (prepared, confirmed @ [(seq, snd p)])
           | None \<Rightarrow> s)
      | Settled seq undo \<Rightarrow> (prepared, confirmed @ [(seq, undo)])
      | _ \<Rightarrow> s)"

definition confirmed :: "journal_record list \<Rightarrow> (nat \<times> action list) list" where
  "confirmed records = snd (fold confirmed_step records ([], []))"

definition pending_paths :: "journal_record list \<Rightarrow> path list" where
  "pending_paths records =
     List.map_filter (\<lambda>a. case a of Restore _ source _ \<Rightarrow> Some source | _ \<Rightarrow> None)
       (concat (map snd (confirmed records)))"

section \<open>The order of a rollback\<close>

text \<open>
  \<open>rollback_order\<close>: the groups from the last to the first, each in its own order; actions that
  only bring services in line wait until everything else is done, and are done once, except
  that a reload that waits goes before an action that needs systemd to know the unit files.
\<close>

definition rollback_step :: "action \<Rightarrow> action list \<times> action list \<Rightarrow> action list \<times> action list" where
  "rollback_step a s =
     (let (ordered, pending) = s
      in if is_sync a then (if a \<in> set pending then s else (ordered, pending @ [a]))
         else if needs_loaded_units a then
           (case find_index (\<lambda>sync. sync = DaemonReload) pending of
              Some i \<Rightarrow> (ordered @ [pending ! i, a], remove_at i pending)
            | None \<Rightarrow> (ordered @ [a], pending))
         else (ordered @ [a], pending))"

definition rollback_order :: "action list list \<Rightarrow> action list" where
  "rollback_order journal =
     (let (ordered, pending) = fold rollback_step (concat (rev journal)) ([], [])
      in ordered @ rev pending)"

section \<open>Recovery\<close>

text \<open>
  The closure \<open>still\<close>: the undo actions that no \<open>Reverted\<close> record accounts for; every such record
  accounts for one action only, so the records left over are passed on.
\<close>

fun still :: "action list \<Rightarrow> action list \<Rightarrow> action list \<times> action list" where
  "still [] reverted = ([], reverted)"
| "still (a # undo) reverted =
     (case find_index (\<lambda>r. r = a) reverted of
        Some i \<Rightarrow> still undo (swap_remove i reverted)
      | None \<Rightarrow> (let (kept, reverted') = still undo reverted in (a # kept, reverted')))"

fun still_all :: "action list list \<Rightarrow> action list \<Rightarrow> action list list \<times> action list" where
  "still_all [] reverted = ([], reverted)"
| "still_all (undo # undos) reverted =
     (let (kept, reverted1) = still undo reverted; (rest, reverted2) = still_all undos reverted1
      in (kept # rest, reverted2))"

definition failed_seqs :: "journal_record list \<Rightarrow> nat set" where
  "failed_seqs records =
     set (List.map_filter (\<lambda>r. case r of Failed seq \<Rightarrow> Some seq | _ \<Rightarrow> None) records)"

definition reverted_actions :: "journal_record list \<Rightarrow> action list" where
  "reverted_actions records =
     List.map_filter (\<lambda>r. case r of Reverted a \<Rightarrow> Some a | _ \<Rightarrow> None) records"

text \<open>The announcements that were neither confirmed nor taken back, in the order of the first
  announcement of each, with the undo of the last.\<close>

fun replace_or_push :: "nat \<Rightarrow> 'a \<Rightarrow> (nat \<times> 'a) list \<Rightarrow> (nat \<times> 'a) list" where
  "replace_or_push seq x [] = [(seq, x)]"
| "replace_or_push seq x (p # ps) = (if fst p = seq then (seq, x) # ps else p # replace_or_push seq x ps)"

definition latest_open :: "nat set \<Rightarrow> journal_record list \<Rightarrow> (nat \<times> action list) list" where
  "latest_open closed records =
     fold (\<lambda>r latest. case r of
         Prepared seq undo \<Rightarrow> if seq \<in> closed then latest else replace_or_push seq undo latest
       | _ \<Rightarrow> latest) records []"

definition recover :: "journal_record list \<Rightarrow> recovery" where
  "recover records =
     (if Ended \<in> set records then Recovery_Nothing
      else if Committing \<in> set records then Recovery_FinishCommit (pending_paths records)
      else
        (let done_undos = confirmed records;
             closed = fst ` set done_undos \<union> failed_seqs records;
             (journal, reverted) = still_all (map snd done_undos) (reverted_actions records);
             latest = map snd (latest_open closed records);
             uncertain = concat (map (\<lambda>undo. rollback_order [undo]) (fst (still_all latest reverted)));
             certain = rollback_order journal
         in if uncertain = [] \<and> certain = [] then Recovery_Nothing
            else Recovery_RollBack uncertain certain))"

definition abandoned_request_of :: "string \<Rightarrow> journal_record list \<Rightarrow> abandoned_request" where
  "abandoned_request_of name records =
     \<lparr>ab_request = name,
      ab_pending = (case recover records of
          Recovery_RollBack uncertain certain \<Rightarrow> map (\<lambda>a. snd (describe a)) (certain @ uncertain)
        | Recovery_FinishCommit pending \<Rightarrow> map path_display pending
        | Recovery_Nothing \<Rightarrow> [])\<rparr>"

section \<open>What a rollback does\<close>

text \<open>The actions of a rollback that are not syncs, in order, are those of the journal.\<close>

definition plain :: "action list \<Rightarrow> action list" where
  "plain = filter (\<lambda>a. \<not> is_sync a)"

lemma plain_simps [simp]:
  "plain [] = []" "plain (a # as) = (if is_sync a then plain as else a # plain as)"
  "plain (as @ bs) = plain as @ plain bs"
  by (simp_all add: plain_def)

lemma plain_syncs: "\<forall>a \<in> set as. is_sync a \<Longrightarrow> plain as = []"
  by (simp add: plain_def)

lemma is_sync_reload [simp]: "is_sync DaemonReload"
  by (simp add: is_sync_def)

lemma needs_not_sync: "needs_loaded_units a \<Longrightarrow> \<not> is_sync a"
  by (cases a) (simp_all add: needs_loaded_units_def is_sync_def)

text \<open>The state of the loop: \<open>pending\<close> holds distinct syncs.\<close>

definition pending_ok :: "action list \<Rightarrow> bool" where
  "pending_ok pending \<longleftrightarrow> distinct pending \<and> (\<forall>a \<in> set pending. is_sync a)"

lemma find_reload: "find_index (\<lambda>sync. sync = DaemonReload) pending = Some i \<Longrightarrow> pending ! i = DaemonReload"
  by (auto dest: find_index_Some)

lemma set_remove_at: "i < length xs \<Longrightarrow> distinct xs \<Longrightarrow> set (remove_at i xs) = set xs - {xs ! i} \<and> distinct (remove_at i xs)"
proof -
  assume i: "i < length xs" and d: "distinct xs"
  have xs: "xs = take i xs @ xs ! i # drop (Suc i) xs" using i by (rule id_take_nth_drop)
  have "distinct (take i xs @ xs ! i # drop (Suc i) xs)" using d xs by simp
  moreover have "set xs = set (take i xs @ xs ! i # drop (Suc i) xs)" using xs by simp
  ultimately show ?thesis by (auto simp: remove_at_def)
qed

lemma rollback_step_cases:
  obtains (sync) "is_sync a" "rollback_step a (ordered, pending) = (ordered, if a \<in> set pending then pending else pending @ [a])"
  | (plain) "\<not> is_sync a" "\<not> needs_loaded_units a \<or> DaemonReload \<notin> set pending"
      "rollback_step a (ordered, pending) = (ordered @ [a], pending)"
  | (reload) i where "\<not> is_sync a" "needs_loaded_units a" "DaemonReload \<in> set pending"
      "i < length pending" "pending ! i = DaemonReload"
      "rollback_step a (ordered, pending) = (ordered @ [DaemonReload, a], remove_at i pending)"
proof (cases "is_sync a \<or> \<not> needs_loaded_units a")
  case True
  then consider "is_sync a" | "\<not> is_sync a" "\<not> needs_loaded_units a" by blast
  then show ?thesis
  proof cases
    case 1
    then show ?thesis by (intro sync) (simp_all add: rollback_step_def)
  next
    case 2
    then show ?thesis by (intro plain) (simp_all add: rollback_step_def)
  qed
next
  case False
  show ?thesis
  proof (cases "find_index (\<lambda>sync. sync = DaemonReload) pending")
    case None
    then have "DaemonReload \<notin> set pending" unfolding find_index_None by blast
    with False None plain show ?thesis by (simp add: rollback_step_def del: find_index_None)
  next
    case (Some i)
    then have i: "i < length pending" "pending ! i = DaemonReload" by (auto dest: find_index_Some)
    then have "DaemonReload \<in> set pending" by (metis nth_mem)
    with False Some i reload show ?thesis by (simp add: rollback_step_def)
  qed
qed

lemma rollback_step_ok:
  assumes "pending_ok pending" and "rollback_step a (ordered, pending) = (ordered', pending')"
  shows "pending_ok pending' \<and> plain ordered' = plain ordered @ plain [a] \<and>
    set ordered' \<union> set pending' = set ordered \<union> set pending \<union> {a}"
proof (cases rule: rollback_step_cases [of a ordered pending])
  case sync
  with assms show ?thesis by (auto simp: pending_ok_def split: if_splits)
next
  case plain
  with assms show ?thesis by auto
next
  case (reload i)
  from set_remove_at [OF reload(4)] assms(1) reload(5)
  have "set (remove_at i pending) = set pending - {DaemonReload}" "distinct (remove_at i pending)"
    by (auto simp: pending_ok_def)
  with reload assms show ?thesis by (auto simp: pending_ok_def)
qed

lemma rollback_fold:
  "pending_ok pending \<Longrightarrow> fold rollback_step as (ordered, pending) = (ordered', pending') \<Longrightarrow>
    pending_ok pending' \<and> plain ordered' = plain ordered @ plain as \<and>
    set ordered' \<union> set pending' = set ordered \<union> set pending \<union> set as"
proof (induction as arbitrary: ordered pending)
  case (Cons a as)
  obtain ordered1 pending1 where step: "rollback_step a (ordered, pending) = (ordered1, pending1)"
    by (cases "rollback_step a (ordered, pending)")
  from rollback_step_ok [OF Cons.prems(1) step] Cons.IH [of pending1 ordered1] Cons.prems(2) step
  show ?case by auto
qed simp

lemma rollback_order_plain: "plain (rollback_order journal) = plain (concat (rev journal))"
proof -
  obtain ordered pending where f: "fold rollback_step (concat (rev journal)) ([], []) = (ordered, pending)"
    by (metis surj_pair)
  from rollback_fold [OF _ f] have "pending_ok pending" "plain ordered = plain (concat (rev journal))"
    by (auto simp: pending_ok_def)
  with f show ?thesis by (simp add: rollback_order_def plain_syncs pending_ok_def)
qed

lemma rollback_order_set: "set (rollback_order journal) = set (concat journal)"
proof -
  obtain ordered pending where f: "fold rollback_step (concat (rev journal)) ([], []) = (ordered, pending)"
    by (metis surj_pair)
  from rollback_fold [OF _ f] have "set ordered \<union> set pending = set (concat (rev journal))"
    by (auto simp: pending_ok_def)
  with f show ?thesis by (auto simp: rollback_order_def)
qed

text \<open>The loop only appends, and what waits is done in the end.\<close>

lemma rollback_step_grows:
  assumes "rollback_step a (ordered, pending) = (ordered', pending')"
  shows "\<exists>more. ordered' = ordered @ more \<and> set pending \<subseteq> set more \<union> set pending'"
proof (cases rule: rollback_step_cases [of a ordered pending])
  case (reload i)
  have xs: "pending = take i pending @ pending ! i # drop (Suc i) pending"
    using reload(4) by (rule id_take_nth_drop)
  have "set pending = insert (pending ! i) (set (remove_at i pending))"
    by (subst xs) (auto simp: remove_at_def)
  with reload assms show ?thesis by auto
qed (use assms in auto)

lemma rollback_fold_grows:
  "fold rollback_step as (ordered, pending) = (ordered', pending') \<Longrightarrow>
    \<exists>more. ordered' = ordered @ more \<and> set pending \<subseteq> set more \<union> set pending'"
proof (induction as arbitrary: ordered pending)
  case (Cons a as)
  obtain ordered1 pending1 where step: "rollback_step a (ordered, pending) = (ordered1, pending1)"
    by (cases "rollback_step a (ordered, pending)")
  from rollback_step_grows [OF step] Cons.IH [of ordered1 pending1] Cons.prems step
  show ?case by fastforce
qed simp

text \<open>The state of the loop after the first \<open>n\<close> actions.\<close>

definition rollback_state :: "action list \<Rightarrow> nat \<Rightarrow> action list \<times> action list" where
  "rollback_state as n = fold rollback_step (take n as) ([], [])"

lemma rollback_state_Suc:
  "n < length as \<Longrightarrow> rollback_state as (Suc n) = rollback_step (as ! n) (rollback_state as n)"
  by (simp add: rollback_state_def take_Suc_conv_app_nth)

lemma rollback_state_plain: "plain (fst (rollback_state as n)) = plain (take n as)"
proof -
  obtain ordered pending where f: "fold rollback_step (take n as) ([], []) = (ordered, pending)"
    by (metis surj_pair)
  from rollback_fold [OF _ f] have "plain ordered = plain (take n as)" by (auto simp: pending_ok_def)
  with f show ?thesis by (simp add: rollback_state_def)
qed

lemma rollback_state_later:
  assumes "m \<le> n"
  shows "\<exists>more. fst (rollback_state as n) = fst (rollback_state as m) @ more \<and>
    set (snd (rollback_state as m)) \<subseteq> set more \<union> set (snd (rollback_state as n))"
proof -
  obtain ordered pending where m: "rollback_state as m = (ordered, pending)"
    by (cases "rollback_state as m")
  have "take n as = take m as @ drop m (take n as)"
    using assms by (metis append_take_drop_id min.absorb1 take_take)
  then have "rollback_state as n = fold rollback_step (drop m (take n as)) (ordered, pending)"
    using m by (metis comp_apply fold_append rollback_state_def)
  with rollback_fold_grows [of "drop m (take n as)" ordered pending] m show ?thesis
    by (cases "rollback_state as n") auto
qed

lemma rollback_state_final:
  "rollback_order journal =
     (let s = rollback_state (concat (rev journal)) (length (concat (rev journal)))
      in fst s @ rev (snd s))"
  by (simp add: rollback_order_def rollback_state_def Let_def split: prod.split)

lemma rollback_after:
  "\<exists>more. rollback_order journal = fst (rollback_state (concat (rev journal)) n) @ more \<and>
    set (snd (rollback_state (concat (rev journal)) n)) \<subseteq> set more"
proof (cases "n \<le> length (concat (rev journal))")
  case True
  from rollback_state_later [OF this, of "concat (rev journal)"] show ?thesis
    by (fastforce simp: rollback_state_final Let_def)
next
  case False
  then have "rollback_state (concat (rev journal)) n
      = rollback_state (concat (rev journal)) (length (concat (rev journal)))"
    by (simp add: rollback_state_def)
  then show ?thesis by (auto simp: rollback_state_final Let_def)
qed

section \<open>Resuming\<close>

lemma set_swap_remove:
  assumes "i < length xs"
  shows "set (swap_remove i xs) \<subseteq> set xs" and "x \<in> set xs \<Longrightarrow> x \<noteq> xs ! i \<Longrightarrow> x \<in> set (swap_remove i xs)"
proof -
  have "set (swap_remove i xs) \<subseteq> set xs \<and> (x \<in> set xs \<longrightarrow> x \<noteq> xs ! i \<longrightarrow> x \<in> set (swap_remove i xs))"
  proof (cases "Suc i = length xs")
    case True
    then have "last xs = xs ! i" by (cases xs rule: rev_cases) auto
    with True assms show ?thesis
      by (cases xs rule: rev_cases) (auto simp: swap_remove_def)
  next
    case False
    with assms obtain ys y where xs: "xs = ys @ [y]" "i < length ys" by (cases xs rule: rev_cases) auto
    then have "swap_remove i xs = ys[i := y]" using False by (simp add: swap_remove_def list_update_append)
    moreover have "x \<in> insert (ys ! i) (set (ys[i := y]))" if "x \<in> set ys"
    proof -
      from that obtain k where k: "k < length ys" "x = ys ! k" by (auto simp: in_set_conv_nth)
      show ?thesis
      proof (cases "k = i")
        case False
        with k have "x = ys[i := y] ! k" "k < length (ys[i := y])" by simp_all
        then show ?thesis by (metis insertI2 nth_mem)
      qed (use k in simp)
    qed
    moreover have "y \<in> set (ys[i := y])" using xs(2) by (rule set_update_memI)
    moreover have "set (ys[i := y]) \<subseteq> insert y (set ys)" by (rule set_update_subset_insert)
    ultimately show ?thesis using xs by (auto simp: nth_append)
  qed
  then show "set (swap_remove i xs) \<subseteq> set xs" "x \<in> set xs \<Longrightarrow> x \<noteq> xs ! i \<Longrightarrow> x \<in> set (swap_remove i xs)"
    by blast+
qed

text \<open>Of the syncs, only reloads are done before the end.\<close>

lemma rollback_fold_syncs:
  "fold rollback_step as (ordered, pending) = (ordered', pending') \<Longrightarrow> s \<noteq> DaemonReload \<Longrightarrow> is_sync s \<Longrightarrow>
    s \<notin> set ordered \<Longrightarrow> s \<notin> set ordered'"
proof (induction as arbitrary: ordered pending)
  case (Cons a as)
  obtain ordered1 pending1 where step: "rollback_step a (ordered, pending) = (ordered1, pending1)"
    by (cases "rollback_step a (ordered, pending)")
  have "s \<notin> set ordered1"
    by (cases rule: rollback_step_cases [of a ordered pending]) (use step Cons.prems in auto)
  with Cons.IH [of ordered1 pending1] Cons.prems step show ?case by simp
qed simp

lemma rollback_order_sync_once:
  assumes "is_sync s" and "s \<noteq> DaemonReload"
  shows "count_list (rollback_order journal) s = (if s \<in> set (concat journal) then 1 else 0)"
proof -
  obtain ordered pending where f: "fold rollback_step (concat (rev journal)) ([], []) = (ordered, pending)"
    by (metis surj_pair)
  from rollback_fold [OF _ f] have p: "pending_ok pending" "set ordered \<union> set pending = set (concat (rev journal))"
    by (auto simp: pending_ok_def)
  from rollback_fold_syncs [OF f assms(2,1)] have o: "s \<notin> set ordered" by simp
  have "count_list xs s = (if s \<in> set xs then 1 else 0)" if "distinct xs" for xs
    using that by (induction xs) auto
  from this [of "rev pending"] p(1) have "count_list (rev pending) s = (if s \<in> set pending then 1 else 0)"
    by (simp add: pending_ok_def)
  moreover have "s \<in> set pending \<longleftrightarrow> s \<in> set (concat journal)" using o p(2) by auto
  ultimately show ?thesis using f o by (simp add: rollback_order_def)
qed

lemma still_membership:
  assumes "still undo reverted = (kept, reverted')"
  shows "set reverted' \<subseteq> set reverted" and "a \<in> set reverted \<Longrightarrow> a \<notin> set undo \<Longrightarrow> a \<in> set reverted'"
proof -
  have "set reverted' \<subseteq> set reverted \<and> (a \<in> set reverted \<longrightarrow> a \<notin> set undo \<longrightarrow> a \<in> set reverted')"
    using assms
  proof (induction undo arbitrary: reverted kept)
    case (Cons b undo)
    show ?case
    proof (cases "find_index (\<lambda>r. r = b) reverted")
      case None
      with Cons show ?thesis by (auto simp: Let_def simp del: find_index_None split: prod.splits)
    next
      case (Some i)
      then have i: "i < length reverted" "reverted ! i = b" by (auto dest: find_index_Some)
      from Some Cons.prems have "still undo (swap_remove i reverted) = (kept, reverted')" by simp
      from Cons.IH [OF this] set_swap_remove(1) [OF i(1)] set_swap_remove(2) [OF i(1), of a] i(2)
      show ?thesis by auto
    qed
  qed simp
  then show "set reverted' \<subseteq> set reverted" "a \<in> set reverted \<Longrightarrow> a \<notin> set undo \<Longrightarrow> a \<in> set reverted'"
    by blast+
qed

lemma still_plain:
  "distinct (plain undo) \<Longrightarrow>
    plain (fst (still undo reverted)) = filter (\<lambda>a. a \<notin> set reverted) (plain undo)"
proof (induction undo arbitrary: reverted)
  case (Cons b undo)
  show ?case
  proof (cases "find_index (\<lambda>r. r = b) reverted")
    case None
    then have b: "b \<notin> set reverted" by (auto simp: find_index_None)
    have "distinct (plain undo)" using Cons.prems by (simp split: if_splits)
    from Cons.IH [OF this, of reverted] None b show ?thesis
      by (simp add: Let_def split_beta del: find_index_None)
  next
    case (Some i)
    then have i: "i < length reverted" "reverted ! i = b" by (auto dest: find_index_Some)
    then have b: "b \<in> set reverted" by (metis nth_mem)
    have same: "a \<in> set (swap_remove i reverted) \<longleftrightarrow> a \<in> set reverted" if "a \<noteq> b" for a
      using set_swap_remove(1) [OF i(1)] set_swap_remove(2) [OF i(1), of a] i(2) that by auto
    have "b \<notin> set (plain undo)" if "\<not> is_sync b" using Cons.prems that by simp
    moreover have "b \<notin> set (plain undo)" if "is_sync b" using that by (simp add: plain_def)
    ultimately have nb: "b \<notin> set (plain undo)" by blast
    have "plain (fst (still undo (swap_remove i reverted)))
        = filter (\<lambda>a. a \<notin> set (swap_remove i reverted)) (plain undo)"
      using Cons.prems by (intro Cons.IH) (auto split: if_splits)
    also have "\<dots> = filter (\<lambda>a. a \<notin> set reverted) (plain undo)"
    proof (rule filter_cong [OF refl])
      fix x assume "x \<in> set (plain undo)"
      with nb have "x \<noteq> b" by auto
      then show "(x \<notin> set (swap_remove i reverted)) = (x \<notin> set reverted)" by (simp add: same)
    qed
    finally show ?thesis using Some b by simp
  qed
qed simp

lemma still_all_plain:
  "distinct (plain (concat undos)) \<Longrightarrow> still_all undos reverted = (kept, reverted') \<Longrightarrow>
    map plain kept = map (\<lambda>undo. filter (\<lambda>a. a \<notin> set reverted) (plain undo)) undos \<and>
    set reverted' \<subseteq> set reverted \<and>
    (\<forall>a. \<not> is_sync a \<longrightarrow> a \<in> set reverted \<longrightarrow> a \<notin> set (concat undos) \<longrightarrow> a \<in> set reverted')"
proof (induction undos arbitrary: reverted kept)
  case (Cons undo undos)
  obtain kept1 reverted1 where one: "still undo reverted = (kept1, reverted1)" by (metis surj_pair)
  obtain kept2 where rest: "still_all undos reverted1 = (kept2, reverted')" "kept = kept1 # kept2"
    using Cons.prems(2) one by (auto simp: Let_def split: prod.splits)
  from Cons.prems(1) have d: "distinct (plain undo)" "distinct (plain (concat undos))"
    "set (plain undo) \<inter> set (plain (concat undos)) = {}" by auto
  note m = still_membership [OF one]
  have "filter (\<lambda>a. a \<notin> set reverted1) (plain u) = filter (\<lambda>a. a \<notin> set reverted) (plain u)"
    if u: "u \<in> set undos" for u
  proof (rule filter_cong)
    fix a assume a: "a \<in> set (plain u)"
    then have "a \<in> set (plain (concat undos))" using u by (auto simp: plain_def)
    with d(3) a have "a \<notin> set undo" by (auto simp: plain_def)
    with m(1) m(2) [of a] show "(a \<notin> set reverted1) = (a \<notin> set reverted)" by auto
  qed simp
  with still_plain [OF d(1), of reverted] one rest Cons.IH [OF d(2) rest(1)] m(1) m(2)
  show ?case by auto
qed simp

text \<open>What a recovery would do, syncs apart, were nothing reverted yet.\<close>

definition open_undos :: "journal_record list \<Rightarrow> action list list" where
  "open_undos records =
     map snd (latest_open (fst ` set (confirmed records) \<union> failed_seqs records) records)"

definition undo_plan :: "journal_record list \<Rightarrow> action list" where
  "undo_plan records =
     plain (concat (open_undos records)) @ plain (concat (rev (map snd (confirmed records))))"

definition recovery_actions :: "recovery \<Rightarrow> action list" where
  "recovery_actions r = (case r of Recovery_RollBack uncertain certain \<Rightarrow> uncertain @ certain | _ \<Rightarrow> [])"

lemma plain_concat: "plain (concat xss) = concat (map plain xss)"
  by (induction xss) simp_all

lemma set_plain_rev: "set (plain (concat (rev xss))) = set (plain (concat xss))"
  by (auto simp: plain_def)

lemma distinct_plain_rev: "distinct (plain (concat (rev xss))) = distinct (plain (concat xss))"
  by (induction xss) (auto simp: set_plain_rev)

lemma recover_plain:
  assumes "Ended \<notin> set records" and "Committing \<notin> set records"
    and "distinct (undo_plan records)"
  shows "plain (recovery_actions (recover records)) =
    filter (\<lambda>a. a \<notin> set (reverted_actions records)) (undo_plan records)"
proof -
  let ?R = "reverted_actions records" and ?C = "map snd (confirmed records)" and ?O = "open_undos records"
  obtain journal reverted where j: "still_all ?C ?R = (journal, reverted)" by (metis surj_pair)
  obtain latest reverted' where l: "still_all ?O reverted = (latest, reverted')" by (metis surj_pair)
  have dC: "distinct (plain (concat ?C))" and dO: "distinct (plain (concat ?O))"
    and disj: "set (plain (concat ?O)) \<inter> set (plain (concat ?C)) = {}"
    using assms(3) by (simp_all add: undo_plan_def distinct_plain_rev set_plain_rev)
  note C = still_all_plain [OF dC j] and O' = still_all_plain [OF dO l]
  have "plain (rollback_order journal) = concat (rev (map plain journal))"
    by (simp add: rollback_order_plain plain_concat rev_map)
  also have "\<dots> = concat (rev (map (\<lambda>undo. filter (\<lambda>a. a \<notin> set ?R) (plain undo)) ?C))"
    using C by (simp only:)
  also have "\<dots> = filter (\<lambda>a. a \<notin> set ?R) (plain (concat (rev ?C)))"
    by (simp add: plain_concat rev_map filter_concat comp_def)
  finally have certain: "plain (rollback_order journal) = filter (\<lambda>a. a \<notin> set ?R) (plain (concat (rev ?C)))" .
  have same: "filter (\<lambda>a. a \<notin> set reverted) (plain u) = filter (\<lambda>a. a \<notin> set ?R) (plain u)" if "u \<in> set ?O" for u
  proof (rule filter_cong)
    fix a assume a: "a \<in> set (plain u)"
    then have "a \<in> set (plain (concat ?O))" "\<not> is_sync a" using that by (auto simp: plain_def)
    with disj have "a \<notin> set (concat ?C)" by (auto simp: plain_def)
    with C \<open>\<not> is_sync a\<close> show "(a \<notin> set reverted) = (a \<notin> set ?R)" by blast
  qed simp
  have "plain (concat (map (\<lambda>undo. rollback_order [undo]) latest)) = concat (map plain latest)"
    by (simp add: plain_concat rollback_order_plain comp_def)
  also have "\<dots> = filter (\<lambda>a. a \<notin> set ?R) (plain (concat ?O))"
    using O' same by (simp add: plain_concat filter_concat comp_def cong: map_cong)
  finally have uncertain: "plain (concat (map (\<lambda>undo. rollback_order [undo]) latest)) =
    filter (\<lambda>a. a \<notin> set ?R) (plain (concat ?O))" .
  have "recovery_actions (recover records) =
    concat (map (\<lambda>undo. rollback_order [undo]) latest) @ rollback_order journal"
    using assms(1,2) j l by (simp add: recover_def recovery_actions_def Let_def open_undos_def)
  with certain uncertain show ?thesis by (simp add: undo_plan_def)
qed

text \<open>Records of what was reverted change nothing else.\<close>

lemma confirmed_reverts: "confirmed (records @ map Reverted as) = confirmed records"
proof -
  have "fold confirmed_step (map Reverted as) s = s" for s
    by (induction as arbitrary: s) (auto simp: confirmed_step_def)
  then show ?thesis by (simp add: confirmed_def)
qed

lemma failed_seqs_reverts: "failed_seqs (records @ map Reverted as) = failed_seqs records"
  by (auto simp: failed_seqs_def List.map_filter_def filter_empty_conv comp_def)

lemma latest_open_reverts: "latest_open closed (records @ map Reverted as) = latest_open closed records"
proof -
  have "fold (\<lambda>r latest. case r of
      Prepared seq undo \<Rightarrow> if seq \<in> closed then latest else replace_or_push seq undo latest
    | _ \<Rightarrow> latest) (map Reverted as) s = s" for s
    by (induction as arbitrary: s) auto
  then show ?thesis by (simp add: latest_open_def)
qed

lemma undo_plan_reverts: "undo_plan (records @ map Reverted as) = undo_plan records"
  by (simp add: undo_plan_def open_undos_def confirmed_reverts failed_seqs_reverts latest_open_reverts)

lemma reverted_reverts: "reverted_actions (records @ map Reverted as) = reverted_actions records @ as"
  by (induction as) (simp_all add: reverted_actions_def List.map_filter_def)

lemma filter_not_taken:
  assumes "distinct xs"
  shows "filter (\<lambda>a. a \<notin> set (take k xs)) xs = drop k xs"
proof -
  have "distinct (take k xs @ drop k xs)" using assms by simp
  then have "filter (\<lambda>a. a \<notin> set (take k xs)) (drop k xs) = drop k xs"
    by (auto simp only: distinct_append filter_id_conv)
  moreover have "filter (\<lambda>a. a \<notin> set (take k xs)) (take k xs) = []" by simp
  ultimately have "filter (\<lambda>a. a \<notin> set (take k xs)) (take k xs @ drop k xs) = drop k xs"
    by (simp only: filter_append append.left_neutral)
  then show ?thesis by simp
qed

section \<open>Properties\<close>

text \<open>C19: A rollback does exactly the undo actions of the journal, and, syncs apart, in the order
  of the groups from the last to the first.\<close>

theorem rollback_undoes_in_reverse:
  "set (rollback_order journal) = set (concat journal) \<and>
   filter (\<lambda>a. \<not> is_sync a) (rollback_order journal) = filter (\<lambda>a. \<not> is_sync a) (concat (rev journal))"
  using rollback_order_set rollback_order_plain unfolding plain_def by blast

text \<open>C20: A sync comes after every undo action that it is to take in, and a sync other than a
  reload is done once however often it is asked for.\<close>

theorem syncs_come_after_and_once:
  assumes "i < length (concat (rev journal))" and "is_sync (concat (rev journal) ! i)"
  shows "(\<exists>before after. rollback_order journal = before @ after \<and>
      filter (\<lambda>a. \<not> is_sync a) before = filter (\<lambda>a. \<not> is_sync a) (take i (concat (rev journal))) \<and>
      concat (rev journal) ! i \<in> set after) \<and>
    (concat (rev journal) ! i \<noteq> DaemonReload \<longrightarrow>
      count_list (rollback_order journal) (concat (rev journal) ! i) = 1)"
proof -
  let ?as = "concat (rev journal)"
  obtain more where more: "rollback_order journal = fst (rollback_state ?as (Suc i)) @ more"
    "set (snd (rollback_state ?as (Suc i))) \<subseteq> set more"
    using rollback_after [of journal "Suc i"] by blast
  have "fst (rollback_state ?as (Suc i)) = fst (rollback_state ?as i)"
    "?as ! i \<in> set (snd (rollback_state ?as (Suc i)))"
    using rollback_state_Suc [OF assms(1)] assms(2)
    by (cases "rollback_state ?as i"; auto simp: rollback_step_def split: if_splits)+
  then have "\<exists>before after. rollback_order journal = before @ after \<and>
      filter (\<lambda>a. \<not> is_sync a) before = filter (\<lambda>a. \<not> is_sync a) (take i ?as) \<and> ?as ! i \<in> set after"
    using more rollback_state_plain [of ?as i] unfolding plain_def by (metis subsetD)
  moreover have "?as ! i \<noteq> DaemonReload \<longrightarrow> count_list (rollback_order journal) (?as ! i) = 1"
    using rollback_order_sync_once [OF assms(2)] nth_mem [OF assms(1)] by auto
  ultimately show ?thesis by blast
qed

definition sample_journal :: "action list list" where
  "sample_journal =
     [[StartUnit ''a.socket'', RestartUnit ''a.service''], [EnableUnit ''a.socket''],
      [Keep [''etc'', ''a'']], [DaemonReload, RestartUnit ''a.service''], [Keep [''nix'']]]"

theorem syncs_come_after_and_once_witness:
  "is_sync (concat (rev sample_journal) ! 2) \<and> count_list (rollback_order sample_journal) (RestartUnit ''a.service'') = 1"
proof -
  have "2 < length (concat (rev sample_journal))" "is_sync (concat (rev sample_journal) ! 2)"
    "concat (rev sample_journal) ! 2 = RestartUnit ''a.service''"
    by (simp_all add: sample_journal_def is_sync_def)
  with syncs_come_after_and_once [of 2 sample_journal] show ?thesis by simp
qed

text \<open>C21: A reload that is asked for comes before any later undo action that needs systemd to
  know the unit files, and after the undo actions it follows.\<close>

theorem reload_comes_before_units:
  assumes "j < i" and "i < length (concat (rev journal))"
    and "concat (rev journal) ! j = DaemonReload" and "needs_loaded_units (concat (rev journal) ! i)"
  shows "\<exists>xs ys zs. rollback_order journal = xs @ ys @ concat (rev journal) ! i # zs \<and>
    filter (\<lambda>a. \<not> is_sync a) xs = filter (\<lambda>a. \<not> is_sync a) (take j (concat (rev journal))) \<and>
    filter (\<lambda>a. \<not> is_sync a) (xs @ ys) = filter (\<lambda>a. \<not> is_sync a) (take i (concat (rev journal))) \<and>
    DaemonReload \<in> set ys"
proof -
  let ?as = "concat (rev journal)" and ?s = "rollback_state (concat (rev journal))"
  have "fst (?s (Suc j)) = fst (?s j)" "DaemonReload \<in> set (snd (?s (Suc j)))"
    using rollback_state_Suc [of j ?as] assms(1-3)
    by (cases "?s j"; auto simp: rollback_step_def split: if_splits)+
  with rollback_state_later [of "Suc j" i ?as] assms(1) obtain more where
    more: "fst (?s i) = fst (?s j) @ more" "DaemonReload \<in> set more \<union> set (snd (?s i))" by fastforce
  obtain ordered pending where si: "?s i = (ordered, pending)" by (cases "?s i")
  have "\<exists>ys. fst (?s (Suc i)) = fst (?s j) @ ys @ [?as ! i] \<and> DaemonReload \<in> set ys \<and>
    plain (fst (?s j) @ ys) = plain (take i ?as)"
  proof (cases rule: rollback_step_cases [of "?as ! i" ordered pending])
    case sync
    with assms(4) needs_not_sync show ?thesis by blast
  next
    case plain
    with more si assms rollback_state_Suc [OF assms(2)] rollback_state_plain [of ?as i] show ?thesis
      by (intro exI [of _ more]) auto
  next
    case (reload k)
    with more si rollback_state_Suc [OF assms(2)] rollback_state_plain [of ?as i] show ?thesis
      by (intro exI [of _ "more @ [DaemonReload]"]) auto
  qed
  with rollback_after [of journal "Suc i"] rollback_state_plain [of ?as j] show ?thesis
    unfolding plain_def by (metis append.assoc append_Cons append_Nil)
qed

theorem reload_comes_before_units_witness:
  "\<exists>xs ys zs. rollback_order sample_journal = xs @ ys @ EnableUnit ''a.socket'' # zs \<and> DaemonReload \<in> set ys"
proof -
  have "concat (rev sample_journal) ! 1 = DaemonReload" "concat (rev sample_journal) ! 4 = EnableUnit ''a.socket''"
    "4 < length (concat (rev sample_journal))" "needs_loaded_units (EnableUnit ''a.socket'')"
    by (simp_all add: sample_journal_def needs_loaded_units_def)
  with reload_comes_before_units [of 1 4 sample_journal] show ?thesis by auto
qed


definition sample_records :: "journal_record list" where
  "sample_records =
     [Began ''r'', Prepared 0 [Keep [''a''], DaemonReload], Done 0, Prepared 1 [Keep [''b'']],
      Settled 1 [Keep [''c'']], Prepared 2 [Keep [''d'']], Failed 2, Prepared 3 [Keep [''e'']]]"



end
