(* ===== verification/Runner.thy ===== *)
theory Runner
  imports Event_Tree Journal
begin

text \<open>
  The runner of a request (\<open>crates/core/src/run/mod.rs\<close>): a state machine that checks steps,
  performs their actions, and undoes what was done when a step fails or the request is stopped.
  Its driver answers each query and each action and hands the answer to the next call of \<open>step\<close>.

  A step is a record of functions for the trait \<open>StepSpec\<close>; how a failure is shown (\<open>diagnostic\<close>)
  is an argument. A call that panics is the error \<open>RunPanic\<close>. The vectors \<open>steps\<close>, \<open>journal\<close> and
  \<open>nodes\<close> have one entry per step from \<open>new\<close> on; an index out of range is tested once in every
  phase. The brand of a session is a proof token without content. Counters are natural numbers.
\<close>

section \<open>Data\<close>

record step_spec =
  sp_key :: string
  sp_title :: "verb \<times> string"
  sp_queries :: "query list"
  sp_actions :: "fact list \<Rightarrow> failure + action list"
  sp_shielded :: bool
  sp_after :: "nat list"
  sp_within :: "nat \<times> nat"

datatype input = Input_Facts "failure + fact list" | Input_Done outcome_of

datatype next_call = Next_Observe "query list" | Next_Perform action | Next_Finished

datatype verdict =
    Verdict_Succeeded
  | Verdict_Failed string failure
  | Verdict_Cancelled cancellation

datatype step_outcome =
    Step_Satisfied
  | Step_Changed
  | Step_Failed failure
  | Step_Cancelled cancellation
  | Step_Blocked string

record report =
  rep_verdict :: verdict
  rep_rollback_failures :: "(string \<times> failure) list"
  rep_steps :: "(string \<times> step_outcome) list"

datatype after_rollback = After_Close | After_Continue nat | After_Commit

text \<open>A doubt: a step, and what was announced of an action of it that then failed.\<close>

type_synonym doubt = "nat \<times> action list"

record undoing =
  un_step :: nat
  un_node :: nat
  un_doubtful :: "action list"
  un_queue :: "action list"
  un_doubting :: bool
  un_failed :: bool

datatype phase =
    Opening
  | Checking nat bool
  | Executing nat nat "action list" bool
  | RollingBack "nat list" "undoing option" bool
  | Committing_Phase bool "nat option"
  | Closing
  | Closed

record runner =
  r_parent :: nat
  r_plan :: nat
  r_journal :: "action list list list"
  r_doubts :: "doubt list"
  r_nodes :: "nat option list"
  r_phase :: phase
  r_stop :: "cancellation option"
  r_verdict :: "verdict option"
  r_report :: report
  r_acting :: "nat option"
  r_performed :: nat
  r_independent :: bool
  r_after :: after_rollback
  r_causes :: "nat option list"

definition runner_new :: "nat \<Rightarrow> step_spec list \<Rightarrow> runner" where
  "runner_new parent specs =
     \<lparr>r_parent = parent, r_plan = 0, r_journal = replicate (length specs) [], r_doubts = [],
      r_nodes = replicate (length specs) None, r_phase = Opening, r_stop = None, r_verdict = None,
      r_report = \<lparr>rep_verdict = Verdict_Succeeded, rep_rollback_failures = [], rep_steps = []\<rparr>,
      r_acting = None, r_performed = 0, r_independent = False, r_after = After_Close, r_causes = []\<rparr>"

definition independent :: "runner \<Rightarrow> runner" where
  "independent r = r\<lparr>r_independent := True\<rparr>"

datatype run_error = RunPanic string

section \<open>Bookkeeping\<close>

definition record_outcome :: "step_spec list \<Rightarrow> runner \<Rightarrow> nat \<Rightarrow> step_outcome \<Rightarrow> runner" where
  "record_outcome specs r step oc =
     (if r_independent r
      then r\<lparr>r_report := (r_report r)\<lparr>rep_steps := rep_steps (r_report r) @ [(sp_key (specs ! step), oc)]\<rparr>\<rparr>
      else r)"

definition caused :: "step_spec list \<Rightarrow> runner \<Rightarrow> nat \<Rightarrow> nat \<Rightarrow> runner" where
  "caused specs r step cause =
     (let causes = (if r_causes r = [] then replicate (length specs) None else r_causes r)
      in r\<lparr>r_causes := causes[step := Some cause]\<rparr>)"

definition blocker :: "step_spec list \<Rightarrow> runner \<Rightarrow> nat \<Rightarrow> nat option" where
  "blocker specs r step =
     (if r_causes r = [] then None
      else
        (let spec = specs ! step; dependencies = sp_after spec @ [fst (sp_within spec)..<snd (sp_within spec)];
             found = List.map_filter (\<lambda>d. if d < length (r_causes r) then r_causes r ! d else None) dependencies
         in case found of [] \<Rightarrow> None | cause # _ \<Rightarrow> Some cause))"

definition owns :: "runner \<Rightarrow> nat \<Rightarrow> bool" where
  "owns r step \<longleftrightarrow> r_journal r ! step \<noteq> [] \<or> (\<exists>d \<in> set (r_doubts r). fst d = step)"

definition reclaims :: "runner \<Rightarrow> bool" where
  "reclaims r \<longleftrightarrow>
     (\<exists>undo \<in> set (concat (concat (r_journal r))). case undo of Keep _ \<Rightarrow> True | _ \<Rightarrow> False)"

definition finish_or_commit :: "runner \<Rightarrow> runner" where
  "finish_or_commit r =
     r\<lparr>r_phase := if list_all (\<lambda>undos. undos = []) (r_journal r) then Closing
                  else Committing_Phase False None\<rparr>"

definition roll_back_only :: "runner \<Rightarrow> nat \<Rightarrow> after_rollback \<Rightarrow> runner" where
  "roll_back_only r step after =
     r\<lparr>r_after := after, r_phase := RollingBack (if owns r step then [step] else []) None False\<rparr>"

definition roll_back :: "step_spec list \<Rightarrow> runner \<Rightarrow> runner" where
  "roll_back specs r =
     r\<lparr>r_phase := RollingBack (filter (owns r) [0..<length specs]) None False\<rparr>"

definition cancel :: "step_spec list \<Rightarrow> runner \<Rightarrow> cancellation \<Rightarrow> nat option \<Rightarrow> runner" where
  "cancel specs r cause current =
     (let r1 = r\<lparr>r_verdict := Some (Verdict_Cancelled cause)\<rparr>
      in if \<not> r_independent r1 then roll_back specs r1
         else case current of
           Some step \<Rightarrow> if owns r1 step then roll_back_only r1 step After_Commit else finish_or_commit r1
         | None \<Rightarrow> finish_or_commit r1)"

definition get_or_insert :: "'a option \<Rightarrow> 'a \<Rightarrow> 'a option" where
  "get_or_insert x y = (case x of None \<Rightarrow> Some y | Some _ \<Rightarrow> x)"

definition fail_step :: "step_spec list \<Rightarrow> runner \<Rightarrow> nat \<Rightarrow> failure \<Rightarrow> runner" where
  "fail_step specs r step failure =
     (let r1 = record_outcome specs (caused specs r step step) step (Step_Failed failure);
          failed = Verdict_Failed (sp_key (specs ! step)) failure
      in if r_independent r1
         then roll_back_only (r1\<lparr>r_verdict := get_or_insert (r_verdict r1) failed\<rparr>) step (After_Continue (step + 1))
         else roll_back specs (r1\<lparr>r_verdict := Some failed\<rparr>))"

section \<open>Nodes\<close>

definition expect_tree :: "string \<Rightarrow> tree_error + 'a \<Rightarrow> run_error + 'a" where
  "expect_tree msg x = (case x of Inl _ \<Rightarrow> Inl (RunPanic msg) | Inr y \<Rightarrow> Inr y)"

definition finish_node :: "tree \<Rightarrow> nat \<Rightarrow> ending \<Rightarrow> run_error + tree" where
  "finish_node t node e =
     expect_tree ''the runner finishes its nodes children first'' (tree_finish t node e)"

definition act :: "runner \<Rightarrow> tree \<Rightarrow> nat \<Rightarrow> action \<Rightarrow> run_error + (next_call \<times> runner \<times> tree)" where
  "act r t parent a =
     (let performed = r_performed r + 1; (op, subject) = describe a
      in and_then (expect_tree ''an action starts under a running node''
           (tree_start t parent
             (start_new (''action-'' @ show_nat performed) (Kind_Action (operation_i32 op) subject))))
           (\<lambda>(node, t'). Inr (Next_Perform a, r\<lparr>r_performed := performed, r_acting := Some node\<rparr>, t')))"

definition acted_ending :: "(failure \<Rightarrow> diagnostic) \<Rightarrow> outcome_of \<Rightarrow> cancellation option \<Rightarrow> ending" where
  "acted_ending diag oc cause =
     (case oc of
        Inr _ \<Rightarrow> ending_succeeded
      | Inl Cancelled \<Rightarrow>
          ending_cancelled (case cause of Some c \<Rightarrow> c | None \<Rightarrow> Cancellation_Interrupted)
      | Inl failure \<Rightarrow> ending_failed (diag failure))"

definition acted ::
  "(failure \<Rightarrow> diagnostic) \<Rightarrow> runner \<Rightarrow> tree \<Rightarrow> outcome_of \<Rightarrow> cancellation option \<Rightarrow> run_error + (runner \<times> tree)" where
  "acted diag r t oc cause =
     (case r_acting r of
        None \<Rightarrow> Inr (r, t)
      | Some node \<Rightarrow>
          and_then (finish_node t node (acted_ending diag oc cause))
            (\<lambda>t'. Inr (r\<lparr>r_acting := None\<rparr>, t')))"

definition incomplete :: "(failure \<Rightarrow> diagnostic) \<Rightarrow> (string \<times> failure) list \<Rightarrow> diagnostic" where
  "incomplete diag failures =
     Diagnostic (code_i32 Code_RollbackIncomplete) (severity_i32 Severity_Warning) 0
       (show_nat (length failures) @ '' undo action(s) failed'')
       (map (\<lambda>f. diag (snd f)) failures)
       (Some (Detail_Steps (dedup (map fst failures))))"

definition rollback_diagnostic :: "(failure \<Rightarrow> diagnostic) \<Rightarrow> (string \<times> failure) list \<Rightarrow> string \<Rightarrow> diagnostic" where
  "rollback_diagnostic diag failures step = incomplete diag (filter (\<lambda>f. fst f = step) failures)"

section \<open>What the driver asks and tells\<close>

definition current_node :: "runner \<Rightarrow> nat option" where
  "current_node r =
     (case r_acting r of
        Some node \<Rightarrow> Some node
      | None \<Rightarrow>
          (case r_phase r of
             Executing _ node _ _ \<Rightarrow> Some node
           | RollingBack _ (Some u) _ \<Rightarrow> Some (un_node u)
           | _ \<Rightarrow> None))"

definition rolling_back :: "runner \<Rightarrow> bool" where
  "rolling_back r = (case r_phase r of RollingBack _ _ _ \<Rightarrow> True | _ \<Rightarrow> False)"

definition cancellable :: "step_spec list \<Rightarrow> runner \<Rightarrow> bool" where
  "cancellable specs r =
     (case r_phase r of
        Opening \<Rightarrow> True
      | RollingBack _ _ _ \<Rightarrow> True
      | Checking step _ \<Rightarrow> step < length specs
      | Executing step _ _ _ \<Rightarrow> \<not> sp_shielded (specs ! step) \<or> step + 1 < length specs
      | _ \<Rightarrow> False)"

definition shielded :: "step_spec list \<Rightarrow> runner \<Rightarrow> bool" where
  "shielded specs r =
     (case r_phase r of
        RollingBack _ _ _ \<Rightarrow> True
      | Committing_Phase _ reclaim \<Rightarrow> reclaim = None
      | Executing step _ _ _ \<Rightarrow> sp_shielded (specs ! step)
      | _ \<Rightarrow> False)"

definition in_doubt :: "runner \<Rightarrow> action list \<Rightarrow> runner" where
  "in_doubt r undo =
     (case r_phase r of
        Executing step _ _ _ \<Rightarrow> if undo \<noteq> [] then r\<lparr>r_doubts := r_doubts r @ [(step, undo)]\<rparr> else r
      | _ \<Rightarrow> r)"

definition stop_runner :: "runner \<Rightarrow> cancellation \<Rightarrow> runner" where
  "stop_runner r cause = r\<lparr>r_stop := get_or_insert (r_stop r) cause\<rparr>"

section \<open>The phases\<close>

text \<open>
  One round of the loop in \<open>step\<close>: it returns a call for the driver, or goes round again with the
  new state and with the input, if it did not take it.
\<close>

type_synonym round = "run_error + (next_call option \<times> runner \<times> tree \<times> input option)"

definition again :: "input option \<Rightarrow> runner \<Rightarrow> tree \<Rightarrow> round" where
  "again inp r t = Inr (None, r, t, inp)"

definition call :: "run_error + (next_call \<times> runner \<times> tree) \<Rightarrow> round" where
  "call x = and_then x (\<lambda>(nx, r, t). Inr (Some nx, r, t, None))"

definition round_opening :: "step_spec list \<Rightarrow> input option \<Rightarrow> runner \<Rightarrow> tree \<Rightarrow> round" where
  "round_opening specs inp r t =
     and_then (expect_tree ''the plan starts under a running parent''
       (tree_start t (r_parent r)
         ((start_new ''plan'' (Kind_Plan ''''))\<lparr>start_planned := map sp_key specs\<rparr>)))
       (\<lambda>(plan, t'). again inp (r\<lparr>r_plan := plan, r_phase := Checking 0 False\<rparr>) t')"

definition round_check :: "step_spec list \<Rightarrow> input option \<Rightarrow> runner \<Rightarrow> tree \<Rightarrow> nat \<Rightarrow> round" where
  "round_check specs inp r t step =
     (if step = length specs
      then again inp (finish_or_commit (r\<lparr>r_verdict := get_or_insert (r_verdict r) Verdict_Succeeded\<rparr>)) t
      else case r_stop r of
        Some cause \<Rightarrow> again inp (cancel specs r cause None) t
      | None \<Rightarrow>
          if length specs < step then Inl (RunPanic ''index'')
          else case blocker specs r step of
            Some cause \<Rightarrow>
              (let by_key = sp_key (specs ! cause)
               in and_then (expect_tree ''each step key is claimed once''
                    (tree_blocked t (r_plan r) (sp_key (specs ! step)) by_key))
                    (\<lambda>t'. again inp ((record_outcome specs (caused specs r step cause) step (Step_Blocked by_key))
                       \<lparr>r_phase := Checking (step + 1) False\<rparr>) t'))
          | None \<Rightarrow> call (Inr (Next_Observe (sp_queries (specs ! step)), r\<lparr>r_phase := Checking step True\<rparr>, t)))"

definition step_start :: "step_spec \<Rightarrow> start" where
  "step_start spec =
     (let s = start_new (sp_key spec) (Kind_Step (verb_i32 (fst (sp_title spec))) (snd (sp_title spec)))
      in if sp_shielded spec then s\<lparr>start_shielded := True\<rparr> else s)"

definition round_checked ::
  "(failure \<Rightarrow> diagnostic) \<Rightarrow> step_spec list \<Rightarrow> input option \<Rightarrow> runner \<Rightarrow> tree \<Rightarrow> nat \<Rightarrow> round" where
  "round_checked diag specs inp r t step =
     (case inp of
        Some (Input_Facts facts) \<Rightarrow>
          if length specs \<le> step then Inl (RunPanic ''index'')
          else
            (let spec = specs ! step; found = and_then facts (sp_actions spec)
             in and_then (expect_tree ''each step key is started once''
                  (tree_start t (r_plan r) (step_start spec))) (\<lambda>(node, t1).
                let r1 = r\<lparr>r_nodes := (r_nodes r)[step := Some node]\<rparr>
                in case found of
                  Inl failure \<Rightarrow>
                    and_then (finish_node t1 node (ending_failed (diag failure)))
                      (\<lambda>t2. again None (fail_step specs r1 step failure) t2)
                | Inr actions \<Rightarrow>
                    if actions = []
                    then and_then (finish_node t1 node ending_already_satisfied)
                      (\<lambda>t2. again None ((record_outcome specs r1 step Step_Satisfied)
                         \<lparr>r_phase := Checking (step + 1) False\<rparr>) t2)
                    else again None (r1\<lparr>r_phase := Executing step node actions False\<rparr>) t1))
      | _ \<Rightarrow> Inl (RunPanic ''a query is answered with facts''))"

definition round_execute ::
  "step_spec list \<Rightarrow> input option \<Rightarrow> runner \<Rightarrow> tree \<Rightarrow> nat \<Rightarrow> nat \<Rightarrow> action list \<Rightarrow> round" where
  "round_execute specs inp r t step node queue =
     (let next_action =
        (case queue of
           [] \<Rightarrow>
             and_then (finish_node t node ending_succeeded)
               (\<lambda>t1. again inp ((record_outcome specs r step Step_Changed)\<lparr>r_phase := Checking (step + 1) False\<rparr>) t1)
         | a # queue' \<Rightarrow> call (act (r\<lparr>r_phase := Executing step node queue' True\<rparr>) t node a))
      in if length specs \<le> step then Inl (RunPanic ''index'')
         else case r_stop r of
           Some cause \<Rightarrow>
             if sp_shielded (specs ! step) then next_action
             else and_then (finish_node t node (ending_cancelled cause))
               (\<lambda>t1. again inp (cancel specs (record_outcome specs r step (Step_Cancelled cause)) cause (Some step)) t1)
         | None \<Rightarrow> next_action)"

definition round_executed ::
  "(failure \<Rightarrow> diagnostic) \<Rightarrow> step_spec list \<Rightarrow> input option \<Rightarrow> runner \<Rightarrow> tree \<Rightarrow> nat \<Rightarrow> nat \<Rightarrow> action list \<Rightarrow> round" where
  "round_executed diag specs inp r t step node queue =
     (case inp of
        Some (Input_Done oc) \<Rightarrow>
          if length specs \<le> step then Inl (RunPanic ''index'')
          else and_then (acted diag r t oc (r_stop r)) (\<lambda>(r1, t1).
            case oc of
              Inr undo \<Rightarrow>
                again None (r1\<lparr>r_journal := (r_journal r1)[step := r_journal r1 ! step @ [undo]],
                               r_phase := Executing step node queue False\<rparr>) t1
            | Inl Cancelled \<Rightarrow>
                (let cause = (case r_stop r1 of Some c \<Rightarrow> c | None \<Rightarrow> Cancellation_Interrupted);
                     r2 = r1\<lparr>r_stop := Some cause\<rparr>
                 in and_then (finish_node t1 node (ending_cancelled cause))
                      (\<lambda>t2. again None (cancel specs (record_outcome specs r2 step (Step_Cancelled cause)) cause (Some step)) t2))
            | Inl failure \<Rightarrow>
                and_then (finish_node t1 node (ending_failed (diag failure)))
                  (\<lambda>t2. again None (fail_step specs r1 step failure) t2))
      | _ \<Rightarrow> Inl (RunPanic ''an action is answered with its outcome''))"

text \<open>Taking the next step to roll back, from the end of those that remain.\<close>

definition round_rolled :: "step_spec list \<Rightarrow> input option \<Rightarrow> runner \<Rightarrow> tree \<Rightarrow> nat list \<Rightarrow> round" where
  "round_rolled specs inp r t remaining =
     (if remaining = [] then
        (let r1 = r\<lparr>r_after := After_Close\<rparr>
         in case r_after r of
           After_Close \<Rightarrow> again inp (r1\<lparr>r_phase := Closing\<rparr>) t
         | After_Continue nxt \<Rightarrow> again inp (r1\<lparr>r_phase := Checking nxt False\<rparr>) t
         | After_Commit \<Rightarrow> again inp (finish_or_commit r1) t)
      else
        (let step = last remaining
         in if length specs \<le> step then Inl (RunPanic ''index'')
            else case r_nodes r ! step of
              None \<Rightarrow> Inl (RunPanic ''an undone step started'')
            | Some undone \<Rightarrow>
                and_then (expect_tree ''each step is rolled back once''
                  (tree_start t (r_plan r)
                    ((start_new (''rollback:'' @ sp_key (specs ! step)) (Kind_Rollback undone))\<lparr>start_shielded := True\<rparr>)))
                  (\<lambda>(node, t1). again inp (r\<lparr>
                     r_journal := (r_journal r)[step := []],
                     r_doubts := filter (\<lambda>d. fst d \<noteq> step) (r_doubts r),
                     r_phase := RollingBack (butlast remaining) (Some
                       \<lparr>un_step = step, un_node = node,
                        un_doubtful = concat (map (\<lambda>d. rollback_order [snd d]) (filter (\<lambda>d. fst d = step) (r_doubts r))),
                        un_queue = rollback_order (r_journal r ! step),
                        un_doubting = False, un_failed = False\<rparr>) False\<rparr>) t1)))"

definition round_undo ::
  "(failure \<Rightarrow> diagnostic) \<Rightarrow> step_spec list \<Rightarrow> input option \<Rightarrow> runner \<Rightarrow> tree \<Rightarrow> nat list \<Rightarrow> undoing \<Rightarrow> round" where
  "round_undo diag specs inp r t remaining u =
     (case (un_doubtful u, un_queue u) of
        (a # doubtful, _) \<Rightarrow>
          call (act (r\<lparr>r_phase := RollingBack remaining (Some (u\<lparr>un_doubtful := doubtful, un_doubting := True\<rparr>)) True\<rparr>)
            t (un_node u) a)
      | ([], a # queue) \<Rightarrow>
          call (act (r\<lparr>r_phase := RollingBack remaining (Some (u\<lparr>un_queue := queue, un_doubting := False\<rparr>)) True\<rparr>)
            t (un_node u) a)
      | ([], []) \<Rightarrow>
          if length specs \<le> un_step u then Inl (RunPanic ''index'')
          else and_then (finish_node t (un_node u)
            (if un_failed u
             then ending_failed (rollback_diagnostic diag (rep_rollback_failures (r_report r)) (sp_key (specs ! un_step u)))
             else ending_succeeded))
            (\<lambda>t1. again inp (r\<lparr>r_phase := RollingBack remaining None False\<rparr>) t1))"

definition round_undone ::
  "(failure \<Rightarrow> diagnostic) \<Rightarrow> step_spec list \<Rightarrow> input option \<Rightarrow> runner \<Rightarrow> tree \<Rightarrow> nat list \<Rightarrow> undoing \<Rightarrow> round" where
  "round_undone diag specs inp r t remaining u =
     (case inp of
        Some (Input_Done oc) \<Rightarrow>
          and_then (acted diag r t oc (r_stop r)) (\<lambda>(r1, t1).
            case oc of
              Inl failure \<Rightarrow>
                if un_doubting u then again None (r1\<lparr>r_phase := RollingBack remaining (Some u) False\<rparr>) t1
                else if length specs \<le> un_step u then Inl (RunPanic ''index'')
                else again None (r1\<lparr>
                    r_report := (r_report r1)\<lparr>rep_rollback_failures :=
                      rep_rollback_failures (r_report r1) @ [(sp_key (specs ! un_step u), failure)]\<rparr>,
                    r_phase := RollingBack remaining (Some (u\<lparr>un_failed := True\<rparr>)) False\<rparr>) t1
            | Inr _ \<Rightarrow> again None (r1\<lparr>r_phase := RollingBack remaining (Some u) False\<rparr>) t1)
      | _ \<Rightarrow> Inl (RunPanic ''an undo is answered with its outcome''))"

definition round_commit :: "runner \<Rightarrow> tree \<Rightarrow> round" where
  "round_commit r t =
     (if reclaims r then
        and_then (expect_tree ''the plan is running''
          (tree_start t (r_plan r) (start_new ''reclaim'' (Kind_Step (verb_i32 Verb_Reclaiming) ''disk space''))))
          (\<lambda>(node, t1). call (act (r\<lparr>r_phase := Committing_Phase True (Some node)\<rparr>) t1 node Commit))
      else call (act (r\<lparr>r_phase := Committing_Phase True None\<rparr>) t (r_plan r) Commit))"

definition committed_verdict :: "runner \<Rightarrow> outcome_of \<Rightarrow> runner" where
  "committed_verdict r oc =
     (case oc of
        Inl Cancelled \<Rightarrow>
          (let cause = (case r_stop r of Some c \<Rightarrow> c | None \<Rightarrow> Cancellation_Interrupted);
               r1 = r\<lparr>r_stop := Some cause\<rparr>
           in if r_verdict r1 = None \<or> r_verdict r1 = Some Verdict_Succeeded
              then r1\<lparr>r_verdict := Some (Verdict_Cancelled cause)\<rparr> else r1)
      | _ \<Rightarrow> r\<lparr>r_verdict := get_or_insert (r_verdict r) Verdict_Succeeded\<rparr>)"

definition round_committed ::
  "(failure \<Rightarrow> diagnostic) \<Rightarrow> input option \<Rightarrow> runner \<Rightarrow> tree \<Rightarrow> nat option \<Rightarrow> round" where
  "round_committed diag inp r t reclaim =
     (case inp of
        Some (Input_Done oc) \<Rightarrow>
          and_then (acted diag r t oc (r_stop r)) (\<lambda>(r1, t1).
          and_then (case reclaim of
              Some node \<Rightarrow> finish_node t1 node (acted_ending diag oc (r_stop r1))
            | None \<Rightarrow> Inr t1) (\<lambda>t2.
          and_then (case oc of
              Inl failure \<Rightarrow>
                if failure = Cancelled then Inr t2
                else expect_tree ''the plan is running'' (tree_warn t2 (r_plan r1) (diag failure))
            | Inr _ \<Rightarrow> Inr t2) (\<lambda>t3.
          again None ((committed_verdict r1 oc)\<lparr>r_phase := Closing\<rparr>) t3)))
      | _ \<Rightarrow> Inl (RunPanic ''the commit is answered with its outcome''))"

definition verdict_ending :: "(failure \<Rightarrow> diagnostic) \<Rightarrow> verdict \<Rightarrow> ending" where
  "verdict_ending diag v =
     (case v of
        Verdict_Succeeded \<Rightarrow> ending_succeeded
      | Verdict_Failed _ failure \<Rightarrow> ending_failed (diag failure)
      | Verdict_Cancelled cause \<Rightarrow> ending_cancelled cause)"

definition round_closing :: "(failure \<Rightarrow> diagnostic) \<Rightarrow> runner \<Rightarrow> tree \<Rightarrow> round" where
  "round_closing diag r t =
     (let verdict = (case r_verdict r of Some v \<Rightarrow> v | None \<Rightarrow> Verdict_Succeeded);
          failures = rep_rollback_failures (r_report r)
      in and_then (if failures = [] then Inr t
           else expect_tree ''the plan is open until it finishes'' (tree_warn t (r_plan r) (incomplete diag failures)))
           (\<lambda>t1. and_then (finish_node t1 (r_plan r) (verdict_ending diag verdict))
           (\<lambda>t2. call (Inr (Next_Finished,
             r\<lparr>r_verdict := None, r_report := (r_report r)\<lparr>rep_verdict := verdict\<rparr>, r_phase := Closed\<rparr>, t2)))))"

definition one_round ::
  "(failure \<Rightarrow> diagnostic) \<Rightarrow> step_spec list \<Rightarrow> input option \<Rightarrow> runner \<Rightarrow> tree \<Rightarrow> round" where
  "one_round diag specs inp r t =
     (case r_phase r of
        Opening \<Rightarrow> round_opening specs inp r t
      | Checking step asked \<Rightarrow>
          if asked then round_checked diag specs inp r t step else round_check specs inp r t step
      | Executing step node queue awaiting \<Rightarrow>
          if awaiting then round_executed diag specs inp r t step node queue
          else round_execute specs inp r t step node queue
      | RollingBack remaining current awaiting \<Rightarrow>
          (case current of
             None \<Rightarrow> round_rolled specs inp r t remaining
           | Some u \<Rightarrow>
               if awaiting then round_undone diag specs inp r t remaining u
               else round_undo diag specs inp r t remaining u)
      | Committing_Phase awaiting reclaim \<Rightarrow>
          if awaiting then round_committed diag inp r t reclaim else round_commit r t
      | Closing \<Rightarrow> round_closing diag r t
      | Closed \<Rightarrow> call (Inr (Next_Finished, r, t)))"

section \<open>The loop ends\<close>

text \<open>
  Every round either takes the input, which is there at most once, or lowers the rank of the
  state. \<open>round_room\<close> is more than any rollback can need.
\<close>

definition round_room :: "step_spec list \<Rightarrow> nat" where
  "round_room specs = 2 * length specs + 4"

definition after_weight :: "after_rollback \<Rightarrow> nat" where
  "after_weight a = (case a of After_Close \<Rightarrow> 0 | _ \<Rightarrow> 1)"

definition rank :: "step_spec list \<Rightarrow> runner \<Rightarrow> nat" where
  "rank specs r =
     (let n = length specs; room = round_room specs; lap = room + n + 2; w = after_weight (r_after r) * lap
      in case r_phase r of
        Opening \<Rightarrow> 3 * lap
      | Executing _ _ _ _ \<Rightarrow> 3 * lap
      | Checking step _ \<Rightarrow> w + (n - step) + room
      | RollingBack remaining None _ \<Rightarrow> w + 2 * length remaining + 2
      | RollingBack remaining (Some _) _ \<Rightarrow> w + 2 * length remaining + 3
      | _ \<Rightarrow> 0)"

definition input_weight :: "input option \<Rightarrow> nat" where
  "input_weight inp = (case inp of None \<Rightarrow> 0 | Some _ \<Rightarrow> 1)"

definition shrinks :: "step_spec list \<Rightarrow> input option \<Rightarrow> runner \<Rightarrow> round \<Rightarrow> bool" where
  "shrinks specs inp r x \<longleftrightarrow>
     (case x of
        Inr (None, r', t', inp') \<Rightarrow>
          inp \<noteq> None \<and> inp' = None \<or> inp' = inp \<and> rank specs r' < rank specs r
      | _ \<Rightarrow> True)"

lemma shrinks_simps [simp]:
  "shrinks specs inp r (Inl e)" "shrinks specs inp r (call x)"
  "shrinks specs inp r (again inp' r' t') \<longleftrightarrow>
     inp \<noteq> None \<and> inp' = None \<or> inp' = inp \<and> rank specs r' < rank specs r"
  by (auto simp: shrinks_def call_def again_def split: option.split) (cases x; auto)

lemma shrinks_and_then [simp]:
  "(\<And>y. x = Inr y \<Longrightarrow> shrinks specs inp r (f y)) \<Longrightarrow> shrinks specs inp r (and_then x f)"
  by (cases x) simp_all

lemma bookkeeping_simps [simp]:
  "r_after (record_outcome specs r step oc) = r_after r" "r_phase (record_outcome specs r step oc) = r_phase r"
  "r_after (caused specs r step c) = r_after r" "r_phase (caused specs r step c) = r_phase r"
  by (simp_all add: record_outcome_def caused_def Let_def)

lemma rank_cancel: "rank specs (cancel specs r cause current) < 2 * (round_room specs + length specs + 2)"
  "r_after r' = r_after r \<Longrightarrow> rank specs (cancel specs r cause None)
     < after_weight (r_after r) * (round_room specs + length specs + 2) + round_room specs"
proof -
  have len: "length (filter P [0..<length specs]) \<le> length specs" for P
    using length_filter_le [of P "[0..<length specs]"] by simp
  have w: "after_weight a \<le> 1" for a by (cases a) (simp_all add: after_weight_def)
  show "rank specs (cancel specs r cause current) < 2 * (round_room specs + length specs + 2)"
    using len [of "owns (r\<lparr>r_verdict := Some (Verdict_Cancelled cause)\<rparr>)"] w [of "r_after r"]
    by (cases "r_after r"; cases current)
      (auto simp: cancel_def roll_back_def roll_back_only_def finish_or_commit_def rank_def Let_def
        round_room_def after_weight_def)
  show "rank specs (cancel specs r cause None)
     < after_weight (r_after r) * (round_room specs + length specs + 2) + round_room specs"
    using len [of "owns (r\<lparr>r_verdict := Some (Verdict_Cancelled cause)\<rparr>)"]
    by (auto simp: cancel_def roll_back_def finish_or_commit_def rank_def Let_def round_room_def)
qed

lemma rank_finish_or_commit: "rank specs (finish_or_commit r) = 0"
  by (simp add: rank_def finish_or_commit_def Let_def)

lemma shrinks_check:
  assumes "r_phase r = Checking step False"
  shows "shrinks specs inp r (round_check specs inp r t step)"
proof -
  have "rank specs (cancel specs r cause None) < rank specs r" for cause
    using rank_cancel(2) [of r r specs cause] assms by (simp add: rank_def Let_def)
  moreover have "rank specs (finish_or_commit x) < rank specs r" for x
    using assms by (simp add: rank_finish_or_commit) (simp add: rank_def Let_def round_room_def)
  moreover have "rank specs (x\<lparr>r_phase := Checking (step + 1) False\<rparr>) < rank specs r"
    if "r_after x = r_after r" "step < length specs" for x
    using that assms by (simp add: rank_def Let_def)
  ultimately show ?thesis
    by (auto simp: round_check_def Let_def split: option.split)
qed

lemma shrinks_execute:
  assumes "r_phase r = Executing step node queue False"
  shows "shrinks specs inp r (round_execute specs inp r t step node queue)"
proof -
  have r: "rank specs r = 3 * (round_room specs + length specs + 2)" using assms by (simp add: rank_def Let_def)
  have "rank specs (cancel specs x cause current) < rank specs r" for x cause current
    using rank_cancel(1) [of specs x cause current] r by simp
  moreover have "rank specs (x\<lparr>r_phase := Checking (step + 1) False\<rparr>) < rank specs r" for x
    by (cases "r_after x") (simp_all add: r, simp_all add: rank_def Let_def after_weight_def)
  ultimately show ?thesis by (auto simp: round_execute_def Let_def split: option.split list.split)
qed

lemma shrinks_opening:
  assumes "r_phase r = Opening"
  shows "shrinks specs inp r (round_opening specs inp r t)"
proof -
  have r: "rank specs r = 3 * (round_room specs + length specs + 2)" using assms by (simp add: rank_def Let_def)
  have "rank specs (x\<lparr>r_phase := Checking 0 False\<rparr>) < rank specs r" for x
    by (cases "r_after x") (simp_all add: r, simp_all add: rank_def Let_def after_weight_def)
  then show ?thesis by (auto simp: round_opening_def intro!: shrinks_and_then split: prod.split)
qed

lemma shrinks_rolled:
  assumes "r_phase r = RollingBack remaining None awaiting"
  shows "shrinks specs inp r (round_rolled specs inp r t remaining)"
proof (cases "remaining = []")
  case True
  have "rank specs (r\<lparr>r_after := After_Close, r_phase := Checking nxt False\<rparr>) < rank specs r"
    if "r_after r \<noteq> After_Close" for nxt
    using assms that by (cases "r_after r") (simp_all add: rank_def Let_def after_weight_def round_room_def)
  moreover have "rank specs (r\<lparr>r_after := After_Close, r_phase := Closing\<rparr>) < rank specs r"
    using assms by (simp add: rank_def Let_def)
  moreover have "rank specs (finish_or_commit x) < rank specs r" for x
    using assms by (simp add: rank_finish_or_commit) (simp add: rank_def Let_def)
  ultimately show ?thesis using True by (auto simp: round_rolled_def Let_def split: after_rollback.split)
next
  case False
  then have "2 * length (butlast remaining) + 3 < 2 * length remaining + 2" by (cases remaining) auto
  then have "rank specs (x\<lparr>r_journal := j, r_doubts := d, r_phase := RollingBack (butlast remaining) (Some u) False\<rparr>) < rank specs r"
    if "r_after x = r_after r" for x j d u
    using assms that by (simp add: rank_def Let_def)
  with False show ?thesis
    by (auto simp: round_rolled_def Let_def intro!: shrinks_and_then split: option.split prod.split)
qed

lemma shrinks_undo:
  assumes "r_phase r = RollingBack remaining (Some u) awaiting"
  shows "shrinks specs inp r (round_undo diag specs inp r t remaining u)"
proof -
  have "rank specs (r\<lparr>r_phase := RollingBack remaining None False\<rparr>) < rank specs r"
    using assms by (simp add: rank_def Let_def)
  then show ?thesis by (auto simp: round_undo_def split: list.split)
qed

lemma shrinks_answered:
  "shrinks specs inp r (round_checked diag specs inp r t step)"
  "shrinks specs inp r (round_executed diag specs inp r t step node queue)"
  "shrinks specs inp r (round_undone diag specs inp r t remaining u)"
  "shrinks specs inp r (round_committed diag inp r t reclaim)"
  by (auto simp: round_checked_def round_executed_def round_undone_def round_committed_def Let_def
      intro!: shrinks_and_then split: option.split input.split sum.split failure.split prod.split)

lemma one_round_shrinks: "shrinks specs inp r (one_round diag specs inp r t)"
proof (cases "r_phase r")
  case (Checking step asked)
  then show ?thesis
    by (cases asked) (simp_all add: one_round_def shrinks_check shrinks_answered)
next
  case (Executing step node queue awaiting)
  then show ?thesis
    by (cases awaiting) (simp_all add: one_round_def shrinks_execute shrinks_answered)
next
  case (RollingBack remaining current awaiting)
  then show ?thesis
    by (simp add: one_round_def shrinks_rolled shrinks_undo shrinks_answered split: option.split)
next
  case (Committing_Phase awaiting reclaim)
  then show ?thesis
    by (auto simp: one_round_def round_commit_def shrinks_answered intro!: shrinks_and_then split: prod.split)
qed (auto simp: one_round_def shrinks_opening round_closing_def Let_def intro!: shrinks_and_then)

function run_loop ::
  "(failure \<Rightarrow> diagnostic) \<Rightarrow> step_spec list \<Rightarrow> input option \<Rightarrow> runner \<Rightarrow> tree
    \<Rightarrow> run_error + (next_call \<times> runner \<times> tree)" where
  "run_loop diag specs inp r t =
     (case one_round diag specs inp r t of
        Inl e \<Rightarrow> Inl e
      | Inr (Some nx, r', t', inp') \<Rightarrow> Inr (nx, r', t')
      | Inr (None, r', t', inp') \<Rightarrow> run_loop diag specs inp' r' t')"
  by pat_completeness auto
termination
proof (relation "measures [\<lambda>(diag, specs, inp, r, t). input_weight inp, \<lambda>(diag, specs, inp, r, t). rank specs r]",
    goal_cases)
  case (2 diag specs inp r t x x1 y r' z t' inp')
  then show ?case
    using one_round_shrinks [of specs inp r diag t]
    by (auto simp: shrinks_def input_weight_def)
qed simp

declare run_loop.simps [simp del]

text \<open>\<open>Session::step\<close> and \<open>Runner::step\<close>.\<close>

definition runner_step ::
  "(failure \<Rightarrow> diagnostic) \<Rightarrow> step_spec list \<Rightarrow> runner \<Rightarrow> tree \<Rightarrow> input option
    \<Rightarrow> run_error + (next_call \<times> runner \<times> tree)" where
  "runner_step diag specs r t inp = run_loop diag specs inp r t"

end
