(* ===== verification/Runner_Safety.thy ===== *)
theory Runner_Safety
  imports Tree_Views Runner
begin

text \<open>
  The runner against the tree: as long as its driver answers a query with facts and an action with
  an outcome, no call panics, and the events it sends follow the rules of the stream.
\<close>

section \<open>Keys\<close>

definition keys_ok :: "step_spec list \<Rightarrow> bool" where
  "keys_ok specs \<longleftrightarrow>
     distinct (map sp_key specs) \<and>
     (\<forall>spec \<in> set specs. sp_key spec \<noteq> [] \<and> sp_key spec \<noteq> ''reclaim'' \<and>
        \<not> starts_with (sp_key spec) ''rollback:'' \<and> \<not> starts_with (sp_key spec) ''action-'')"

definition step_key :: "step_spec list \<Rightarrow> nat \<Rightarrow> string" where
  "step_key specs j = sp_key (specs ! j)"

definition undo_key :: "step_spec list \<Rightarrow> nat \<Rightarrow> string" where
  "undo_key specs j = ''rollback:'' @ sp_key (specs ! j)"

definition action_key :: "nat \<Rightarrow> string" where
  "action_key k = ''action-'' @ show_nat k"

lemma step_key_inj:
  "keys_ok specs \<Longrightarrow> i < length specs \<Longrightarrow> j < length specs \<Longrightarrow> step_key specs i = step_key specs j \<longleftrightarrow> i = j"
  by (simp add: keys_ok_def step_key_def distinct_conv_nth) (metis length_map nth_map)

lemma undo_key_inj:
  "keys_ok specs \<Longrightarrow> i < length specs \<Longrightarrow> j < length specs \<Longrightarrow> undo_key specs i = undo_key specs j \<longleftrightarrow> i = j"
  using step_key_inj by (simp add: undo_key_def step_key_def)

lemma keys_differ:
  assumes "keys_ok specs" and "j < length specs"
  shows "step_key specs j \<noteq> []" "step_key specs j \<noteq> ''reclaim''" "step_key specs j \<noteq> undo_key specs i"
    "step_key specs j \<noteq> action_key k"
proof -
  have "specs ! j \<in> set specs" using assms(2) by simp
  with assms(1) have k: "step_key specs j \<noteq> []" "step_key specs j \<noteq> ''reclaim''"
    "\<not> starts_with (step_key specs j) ''rollback:''" "\<not> starts_with (step_key specs j) ''action-''"
    by (auto simp: keys_ok_def step_key_def)
  then show "step_key specs j \<noteq> []" "step_key specs j \<noteq> ''reclaim''" by blast+
  show "step_key specs j \<noteq> undo_key specs i"
    using k(3) unfolding undo_key_def by (metis starts_with_append)
  show "step_key specs j \<noteq> action_key k"
    using k(4) unfolding action_key_def by (metis starts_with_append)
qed

lemma keys_differ' [simp]:
  "undo_key specs j \<noteq> ''reclaim''" "''reclaim'' \<noteq> undo_key specs j" "undo_key specs j \<noteq> action_key k"
  "action_key k \<noteq> undo_key specs j" "action_key k \<noteq> ''reclaim''" "''reclaim'' \<noteq> action_key k"
  by (simp_all add: undo_key_def action_key_def)

lemma action_key_inj [simp]: "action_key k = action_key l \<longleftrightarrow> k = l"
  by (auto simp: action_key_def dest: show_nat_inj)

section \<open>The invariant\<close>

text \<open>
  What holds in every phase once the plan has started. \<open>F\<close> and \<open>G\<close> bound the steps that were
  started and rolled back, \<open>X\<close> holds the nodes of steps that may still run, \<open>R\<close> says whether the
  space may already be reclaimed.
\<close>

definition core :: "step_spec list \<Rightarrow> nat \<Rightarrow> nat \<Rightarrow> nat set \<Rightarrow> bool \<Rightarrow> runner \<Rightarrow> tree \<Rightarrow> bool" where
  "core specs F G X R r t \<longleftrightarrow>
     tree_tracks t \<and> is_open t (r_plan r) \<and>
     length (r_journal r) = length specs \<and> length (r_nodes r) = length specs \<and>
     (r_causes r = [] \<or> length (r_causes r) = length specs) \<and>
     (\<forall>c. Some c \<in> set (r_causes r) \<longrightarrow> c < length specs) \<and>
     (\<forall>d \<in> set (r_doubts r). fst d < length specs) \<and>
     (\<forall>j < length specs. \<forall>nd. r_nodes r ! j = Some nd \<longrightarrow>
        step_node t (r_plan r) nd \<and> (nd \<in> X \<or> finished_in t nd)) \<and>
     (\<forall>j < length specs. owns r j \<longrightarrow> r_nodes r ! j \<noteq> None) \<and>
     r_stop r \<noteq> Some Cancellation_Unspecified \<and>
     r_verdict r \<noteq> Some (Verdict_Cancelled Cancellation_Unspecified) \<and>
     (\<forall>j < length specs. step_key specs j \<in> used t (r_plan r) \<longrightarrow> j < F) \<and>
     (\<forall>j < length specs. undo_key specs j \<in> used t (r_plan r) \<longrightarrow> j < G \<and> \<not> owns r j) \<and>
     (''reclaim'' \<in> used t (r_plan r) \<longrightarrow> R) \<and>
     (\<forall>i k. is_open t i \<longrightarrow> r_plan r \<le> i \<longrightarrow> action_key k \<in> used t i \<longrightarrow> k \<le> r_performed r)"

text \<open>Who is busy under the plan: nobody, or one node, idle or with an action running.\<close>

definition idle :: "runner \<Rightarrow> tree \<Rightarrow> bool" where
  "idle r t \<longleftrightarrow> children t (r_plan r) = {} \<and> r_acting r = None"

definition busy :: "runner \<Rightarrow> tree \<Rightarrow> nat \<Rightarrow> bool \<Rightarrow> bool" where
  "busy r t nd awaiting \<longleftrightarrow>
     is_open t nd \<and> r_plan r < nd \<and> children t (r_plan r) = {nd} \<and>
     (if awaiting
      then (\<exists>a. r_acting r = Some a \<and> is_open t a \<and> nd < a \<and> children t nd = {a} \<and> children t a = {})
      else children t nd = {} \<and> r_acting r = None)"

definition phase_ok :: "step_spec list \<Rightarrow> runner \<Rightarrow> tree \<Rightarrow> bool" where
  "phase_ok specs r t =
     (let n = length specs
      in case r_phase r of
        Opening \<Rightarrow>
          tree_tracks t \<and> is_open t (r_parent r) \<and> ''plan'' \<notin> used t (r_parent r) \<and>
          r_journal r = replicate n [] \<and> r_doubts r = [] \<and> r_nodes r = replicate n None \<and> r_causes r = [] \<and>
          r_acting r = None \<and> r_after r = After_Close \<and>
          r_stop r \<noteq> Some Cancellation_Unspecified \<and> r_verdict r = None
      | Checking step asked \<Rightarrow>
          core specs step step {} False r t \<and> idle r t \<and> r_after r = After_Close \<and>
          step \<le> n \<and> (asked \<longrightarrow> step < n)
      | Executing step nd queue awaiting \<Rightarrow>
          core specs (Suc step) step {nd} False r t \<and> busy r t nd awaiting \<and> r_after r = After_Close \<and>
          step < n \<and> r_nodes r ! step = Some nd
      | RollingBack remaining current awaiting \<Rightarrow>
          (let F = (case r_after r of After_Continue nxt \<Rightarrow> nxt | _ \<Rightarrow> n)
           in core specs F F {} False r t \<and> F \<le> n \<and>
              distinct remaining \<and> (\<forall>j \<in> set remaining. j < F \<and> owns r j) \<and>
              (case current of
                 None \<Rightarrow> idle r t
               | Some u \<Rightarrow> busy r t (un_node u) awaiting \<and> un_step u < n))
      | Committing_Phase awaiting reclaim \<Rightarrow>
          (if awaiting
           then core specs n n {} True r t \<and>
             (case reclaim of
                None \<Rightarrow> \<exists>a. r_acting r = Some a \<and> is_open t a \<and> r_plan r < a \<and>
                  children t (r_plan r) = {a} \<and> children t a = {}
              | Some nd \<Rightarrow> busy r t nd True)
           else core specs n n {} False r t \<and> idle r t) \<and> r_after r = After_Close
      | Closing \<Rightarrow> core specs n n {} True r t \<and> idle r t
      | Closed \<Rightarrow> tree_tracks t)"

text \<open>What the phase waits for, and whether an input is it.\<close>

definition input_fits :: "runner \<Rightarrow> input option \<Rightarrow> bool" where
  "input_fits r inp =
     (case r_phase r of
        Checking _ True \<Rightarrow> (\<exists>x. inp = Some (Input_Facts x))
      | Executing _ _ _ True \<Rightarrow> (\<exists>x. inp = Some (Input_Done x))
      | RollingBack _ (Some _) True \<Rightarrow> (\<exists>x. inp = Some (Input_Done x))
      | Committing_Phase True _ \<Rightarrow> (\<exists>x. inp = Some (Input_Done x))
      | _ \<Rightarrow> True)"

section \<open>The invariant and the runner's own state\<close>

lemma owns_simps [simp]:
  "owns (r\<lparr>r_phase := x1\<rparr>) = owns r" "owns (r\<lparr>r_acting := x2\<rparr>) = owns r"
  "owns (r\<lparr>r_performed := x3\<rparr>) = owns r" "owns (r\<lparr>r_verdict := x4\<rparr>) = owns r"
  "owns (r\<lparr>r_report := x5\<rparr>) = owns r" "owns (r\<lparr>r_after := x6\<rparr>) = owns r"
  "owns (r\<lparr>r_stop := x7\<rparr>) = owns r" "owns (r\<lparr>r_causes := x8\<rparr>) = owns r"
  "owns (r\<lparr>r_nodes := x9\<rparr>) = owns r" "owns (r\<lparr>r_plan := x10\<rparr>) = owns r"
  by (simp_all add: owns_def fun_eq_iff)

lemma core_simps [simp]:
  "core specs F G X R (r\<lparr>r_phase := x1\<rparr>) = core specs F G X R r"
  "core specs F G X R (r\<lparr>r_acting := x2\<rparr>) = core specs F G X R r"
  "core specs F G X R (r\<lparr>r_report := x5\<rparr>) = core specs F G X R r"
  "core specs F G X R (r\<lparr>r_after := x6\<rparr>) = core specs F G X R r"
  by (simp_all add: core_def fun_eq_iff)

lemma idle_busy_simps [simp]:
  "idle (r\<lparr>r_phase := x1\<rparr>) = idle r" "busy (r\<lparr>r_phase := x1\<rparr>) = busy r"
  "idle (r\<lparr>r_report := x2\<rparr>) = idle r" "busy (r\<lparr>r_report := x2\<rparr>) = busy r"
  "idle (r\<lparr>r_after := x3\<rparr>) = idle r" "busy (r\<lparr>r_after := x3\<rparr>) = busy r"
  "idle (r\<lparr>r_verdict := x4\<rparr>) = idle r" "busy (r\<lparr>r_verdict := x4\<rparr>) = busy r"
  "idle (r\<lparr>r_stop := x5\<rparr>) = idle r" "busy (r\<lparr>r_stop := x5\<rparr>) = busy r"
  "idle (r\<lparr>r_causes := x6\<rparr>) = idle r" "busy (r\<lparr>r_causes := x6\<rparr>) = busy r"
  "idle (r\<lparr>r_journal := x7\<rparr>) = idle r" "busy (r\<lparr>r_journal := x7\<rparr>) = busy r"
  "idle (r\<lparr>r_doubts := x8\<rparr>) = idle r" "busy (r\<lparr>r_doubts := x8\<rparr>) = busy r"
  "idle (r\<lparr>r_nodes := x9\<rparr>) = idle r" "busy (r\<lparr>r_nodes := x9\<rparr>) = busy r"
  by (simp_all add: idle_def busy_def fun_eq_iff)

lemma core_verdict: "core specs F G X R r t \<Longrightarrow> v \<noteq> Some (Verdict_Cancelled Cancellation_Unspecified) \<Longrightarrow>
    core specs F G X R (r\<lparr>r_verdict := v\<rparr>) t"
  by (simp add: core_def)

lemma core_stop: "core specs F G X R r t \<Longrightarrow> c \<noteq> Some Cancellation_Unspecified \<Longrightarrow>
    core specs F G X R (r\<lparr>r_stop := c\<rparr>) t"
  by (simp add: core_def)

lemma core_mono: "core specs F G X R r t \<Longrightarrow> F \<le> F' \<Longrightarrow> G \<le> G' \<Longrightarrow> X \<subseteq> X' \<Longrightarrow> (R \<longrightarrow> R') \<Longrightarrow> core specs F' G' X' R' r t"
  unfolding core_def by (elim conjE) (intro conjI; (assumption | meson less_le_trans subsetD | blast))

lemma core_record: "core specs F G X R (record_outcome specs r step oc) t = core specs F G X R r t"
  by (simp add: record_outcome_def)

lemma core_caused:
  assumes "core specs F G X R r t" and "cause < length specs"
  shows "core specs F G X R (caused specs r step cause) t"
proof -
  let ?causes = "if r_causes r = [] then replicate (length specs) None else r_causes r"
  have "c < length specs" if "Some c \<in> set (?causes[step := Some cause])" for c
    using that assms set_update_subset_insert [of ?causes step "Some cause"]
    by (auto simp: core_def split: if_splits)
  with assms show ?thesis by (auto simp: core_def caused_def Let_def)
qed

lemma record_simps [simp]:
  "r_plan (record_outcome specs r step oc) = r_plan r" "r_acting (record_outcome specs r step oc) = r_acting r"
  "r_independent (record_outcome specs r step oc) = r_independent r" "r_stop (record_outcome specs r step oc) = r_stop r"
  "r_nodes (record_outcome specs r step oc) = r_nodes r" "r_verdict (record_outcome specs r step oc) = r_verdict r"
  "owns (record_outcome specs r step oc) = owns r" "idle (record_outcome specs r step oc) = idle r"
  "r_plan (caused specs r step c) = r_plan r" "r_acting (caused specs r step c) = r_acting r"
  "r_independent (caused specs r step c) = r_independent r" "r_verdict (caused specs r step c) = r_verdict r"
  "owns (caused specs r step c) = owns r" "idle (caused specs r step c) = idle r"
  by (simp_all add: record_outcome_def caused_def Let_def)

section \<open>The invariant and the tree\<close>

lemma coreD:
  assumes "core specs F G X R r t"
  shows "tree_tracks t" "is_open t (r_plan r)" "length (r_journal r) = length specs"
    "length (r_nodes r) = length specs" "\<And>c. Some c \<in> set (r_causes r) \<Longrightarrow> c < length specs"
    "\<And>j nd. j < length specs \<Longrightarrow> r_nodes r ! j = Some nd \<Longrightarrow>
       step_node t (r_plan r) nd \<and> (nd \<in> X \<or> finished_in t nd)"
    "\<And>j. j < length specs \<Longrightarrow> owns r j \<Longrightarrow> r_nodes r ! j \<noteq> None"
    "r_stop r \<noteq> Some Cancellation_Unspecified"
    "\<And>j. j < length specs \<Longrightarrow> step_key specs j \<in> used t (r_plan r) \<Longrightarrow> j < F"
    "\<And>j. j < length specs \<Longrightarrow> undo_key specs j \<in> used t (r_plan r) \<Longrightarrow> j < G \<and> \<not> owns r j"
    "''reclaim'' \<in> used t (r_plan r) \<Longrightarrow> R"
    "\<And>i k. is_open t i \<Longrightarrow> r_plan r \<le> i \<Longrightarrow> action_key k \<in> used t i \<Longrightarrow> k \<le> r_performed r"
    "r_verdict r \<noteq> Some (Verdict_Cancelled Cancellation_Unspecified)"
  using assms unfolding core_def by blast+

text \<open>A tree that differs in what the core does not see.\<close>

lemma core_tree:
  assumes c: "core specs F G X R r t" and t': "tree_tracks t'" "later t t'" "is_open t' (r_plan r)"
    and fin: "\<And>j. finished_in t j \<Longrightarrow> finished_in t' j"
    and X: "\<And>nd. nd \<in> X \<Longrightarrow> nd \<in> X' \<or> finished_in t' nd"
    and step: "\<And>j. j < length specs \<Longrightarrow> step_key specs j \<in> used t' (r_plan r) \<Longrightarrow> j < F'"
    and undo: "\<And>j. j < length specs \<Longrightarrow> undo_key specs j \<in> used t' (r_plan r) \<Longrightarrow> j < G' \<and> \<not> owns r j"
    and reclaim: "''reclaim'' \<in> used t' (r_plan r) \<Longrightarrow> R'"
    and acts: "\<And>i k. is_open t' i \<Longrightarrow> r_plan r \<le> i \<Longrightarrow> action_key k \<in> used t' i \<Longrightarrow> k \<le> p"
  shows "core specs F' G' X' R' (r\<lparr>r_performed := p\<rparr>) t'"
proof -
  have nodes: "step_node t' (r_plan r) nd \<and> (nd \<in> X' \<or> finished_in t' nd)"
    if "j < length specs" "r_nodes r ! j = Some nd" for j nd
    using coreD(6) [OF c that] later_step_node [OF t'(2)] fin X by blast
  show ?thesis
    using c t' nodes step undo reclaim acts unfolding core_def by simp
qed

lemma core_same_view:
  assumes c: "core specs F G X R r t" and v: "same_view t t'"
  shows "core specs F G X R r t'"
proof -
  have "core specs F G X R (r\<lparr>r_performed := r_performed r\<rparr>) t'"
    using v coreD(2,9-12) [OF c]
    by (intro core_tree [OF c]) (auto simp: same_view_def)
  then show ?thesis by simp
qed

lemma idle_same_view: "same_view t t' \<Longrightarrow> idle r t' = idle r t"
  and busy_same_view: "same_view t t' \<Longrightarrow> busy r t' nd awaiting = busy r t nd awaiting"
  by (simp_all add: same_view_def idle_def busy_def)

lemma start_fits_plain: "(\<And>u. start_kind s \<noteq> Kind_Rollback u) \<Longrightarrow> distinct (start_planned s) \<Longrightarrow> start_fits es p s"
  unfolding start_fits_def by (cases "start_kind s") auto

text \<open>An action starts under an open node without children.\<close>

definition act_view :: "tree \<Rightarrow> nat \<Rightarrow> nat \<Rightarrow> tree \<Rightarrow> bool" where
  "act_view t q a t' \<longleftrightarrow> q < a \<and> is_open t' a \<and> (\<forall>j. is_open t j \<longrightarrow> is_open t' j) \<and>
     children t' q = {a} \<and> children t' a = {} \<and> (\<forall>j. j \<noteq> q \<longrightarrow> children t' j = children t j)"

lemma core_act:
  assumes c: "core specs F G X R r t" and k: "keys_ok specs"
    and q: "is_open t q" "r_plan r \<le> q" "children t q = {}"
  shows "\<exists>a t'. act r t q ac = Inr (Next_Perform ac, r\<lparr>r_performed := r_performed r + 1, r_acting := Some a\<rparr>, t') \<and>
    core specs F G X R (r\<lparr>r_performed := r_performed r + 1, r_acting := Some a\<rparr>) t' \<and> act_view t q a t'"
proof -
  let ?key = "action_key (r_performed r + 1)"
  let ?s = "start_new ?key (Kind_Action (operation_i32 (fst (describe ac))) (snd (describe ac)))"
  note d = coreD [OF c]
  have key: "start_key ?s = ?key" by (simp add: start_new_def)
  have fresh: "start_key ?s \<notin> used t q" using d(12) [OF q(1,2), of "r_performed r + 1"] key by auto
  have fits: "start_fits (t_sent t) q ?s" by (rule start_fits_plain) (simp_all add: start_new_def)
  from start_view [OF d(1) q(1) fresh fits] obtain a t' where
    st: "tree_start t q ?s = Inr (a, t')" "started_view t q ?s a t'" by blast
  note v = st(2) [unfolded started_view_def key]
  have "core specs F G X R (r\<lparr>r_performed := r_performed r + 1\<rparr>) t'"
  proof (rule core_tree [OF c])
    show "tree_tracks t'" "later t t'" "is_open t' (r_plan r)" using v d(2) by simp_all
    show "j < F" if "j < length specs" "step_key specs j \<in> used t' (r_plan r)" for j
      using that d(9) [OF that(1)] keys_differ(4) [OF k that(1)] v by (auto split: if_splits)
    show "j < G \<and> \<not> owns r j" if "j < length specs" "undo_key specs j \<in> used t' (r_plan r)" for j
      using that d(10) [OF that(1)] v by (auto split: if_splits)
    show "R" if "''reclaim'' \<in> used t' (r_plan r)"
      using that d(11) v by (auto split: if_splits)
    show "l \<le> r_performed r + 1" if "is_open t' i" "r_plan r \<le> i" "action_key l \<in> used t' i" for i l
    proof (cases "is_open t i")
      case True
      with that d(12) [OF True that(2), of l] v show ?thesis by (cases "i = q") auto
    next
      case False
      with that(1) v have "i = a" by blast
      with that(3) v show ?thesis by simp
    qed
  qed (use v in auto)
  moreover have "act r t q ac = Inr (Next_Perform ac, r\<lparr>r_performed := r_performed r + 1, r_acting := Some a\<rparr>, t')"
    using st(1) by (simp add: act_def Let_def action_key_def expect_tree_def split_beta)
  moreover have "act_view t q a t'" using v q(3) by (simp add: act_view_def)
  ultimately show ?thesis by auto
qed

text \<open>A node other than the plan that has no open children finishes.\<close>

lemma core_finish:
  assumes c: "core specs F G X R r t" and i: "is_open t i" "i \<noteq> r_plan r" "children t i = {}"
    and fits: "ending_fits (t_sent t) i e"
  shows "\<exists>t'. finish_node t i e = Inr t' \<and> core specs F G (X - {i}) R r t' \<and> finished_view t i t'"
proof -
  note d = coreD [OF c]
  from finish_view [OF d(1) i(1,3) fits] obtain t' where
    f: "tree_finish t i e = Inr t'" "finished_view t i t'" by blast
  note v = f(2) [unfolded finished_view_def]
  have plan: "used t' (r_plan r) = used t (r_plan r)" using v i(2) by metis
  have "core specs F G (X - {i}) R (r\<lparr>r_performed := r_performed r\<rparr>) t'"
  proof (rule core_tree [OF c])
    show "tree_tracks t'" "later t t'" "is_open t' (r_plan r)" using v d(2) i(2) by simp_all
    show "l \<le> r_performed r" if "is_open t' j" "r_plan r \<le> j" "action_key l \<in> used t' j" for j l
    proof -
      have "is_open t j" "j \<noteq> i" using that(1) v by blast+
      with that d(12) [of j l] v show ?thesis by metis
    qed
  qed (use d(9-11) v plan in auto)
  with f show ?thesis by (auto simp: finish_node_def expect_tree_def)
qed

text \<open>Endings without a result fit every node.\<close>

definition plain_ending :: "ending \<Rightarrow> bool" where
  "plain_ending e \<longleftrightarrow> end_status e \<noteq> Status_Unspecified \<and>
     (end_status e = Status_Cancelled \<longleftrightarrow> end_cancellation e \<noteq> Cancellation_Unspecified) \<and>
     end_exit_code e = 0 \<and> end_result e = None"

lemma plain_ending_fits: "plain_ending e \<Longrightarrow> ending_fits es i e"
  by (simp add: plain_ending_def ending_fits_def)

lemma plain_endings [simp]:
  "plain_ending ending_succeeded" "plain_ending ending_already_satisfied" "plain_ending (ending_failed d)"
  "plain_ending (ending_cancelled c) \<longleftrightarrow> c \<noteq> Cancellation_Unspecified"
  "cause \<noteq> Some Cancellation_Unspecified \<Longrightarrow> plain_ending (acted_ending diag oc cause)"
proof -
  show a: "plain_ending ending_succeeded" "plain_ending ending_already_satisfied"
    "plain_ending (ending_failed d)" for d
    by (simp_all add: plain_ending_def ending_succeeded_def ending_already_satisfied_def ending_failed_def
        ending_new_def)
  show b: "plain_ending (ending_cancelled c) \<longleftrightarrow> c \<noteq> Cancellation_Unspecified" for c
    by (simp add: plain_ending_def ending_cancelled_def ending_new_def)
  show "cause \<noteq> Some Cancellation_Unspecified \<Longrightarrow> plain_ending (acted_ending diag oc cause)"
    using a b by (auto simp: acted_ending_def split: sum.split failure.split option.split)
qed

text \<open>The acting node finishes when its outcome arrives.\<close>

lemma core_acted:
  assumes c: "core specs F G X R r t" and a: "r_acting r = Some a" "is_open t a" "r_plan r < a" "children t a = {}"
    and cause: "cause \<noteq> Some Cancellation_Unspecified"
  shows "\<exists>t'. acted diag r t oc cause = Inr (r\<lparr>r_acting := None\<rparr>, t') \<and>
    core specs F G X R (r\<lparr>r_acting := None\<rparr>) t' \<and> finished_view t a t'"
proof -
  have fits: "ending_fits (t_sent t) a (acted_ending diag oc cause)"
    using cause by (intro plain_ending_fits) simp
  from a(3) have "a \<noteq> r_plan r" by simp
  from core_finish [OF c a(2) this a(4) fits] obtain t' where
    f: "finish_node t a (acted_ending diag oc cause) = Inr t'" "core specs F G (X - {a}) R r t'"
    "finished_view t a t'" by blast
  from core_mono [OF f(2), of F G X R] have "core specs F G X R r t'" by blast
  with f a(1) show ?thesis by (simp add: acted_def)
qed

section \<open>Every round\<close>

text \<open>What the phase waits for after a call has been returned.\<close>

definition awaits :: "runner \<Rightarrow> next_call \<Rightarrow> bool" where
  "awaits r c =
     (case c of
        Next_Observe _ \<Rightarrow> (\<exists>step. r_phase r = Checking step True)
      | Next_Perform _ \<Rightarrow>
          (case r_phase r of
             Executing _ _ _ a \<Rightarrow> a
           | RollingBack _ (Some _) a \<Rightarrow> a
           | Committing_Phase a _ \<Rightarrow> a
           | _ \<Rightarrow> False)
      | Next_Finished \<Rightarrow> r_phase r = Closed)"

definition round_ok :: "step_spec list \<Rightarrow> round \<Rightarrow> bool" where
  "round_ok specs x =
     (case x of
        Inl _ \<Rightarrow> False
      | Inr (nx, r, t, inp) \<Rightarrow>
          phase_ok specs r t \<and> (case nx of None \<Rightarrow> input_fits r inp | Some c \<Rightarrow> awaits r c))"

lemma round_ok_simps [simp]:
  "round_ok specs (again inp r t) \<longleftrightarrow> phase_ok specs r t \<and> input_fits r inp"
  "round_ok specs (call (Inr (c, r, t))) \<longleftrightarrow> phase_ok specs r t \<and> awaits r c"
  by (simp_all add: round_ok_def again_def call_def)

lemma finish_or_commit_ok:
  assumes c: "core specs n n {} False r t" and n: "n = length specs" and i: "idle r t" "r_after r = After_Close"
  shows "phase_ok specs (finish_or_commit r) t \<and> input_fits (finish_or_commit r) inp"
  using assms core_mono [OF c, of n n "{}" True]
  by (simp add: finish_or_commit_def phase_ok_def input_fits_def Let_def)

lemma roll_back_ok:
  assumes c: "core specs F F {} False r t" and F: "F \<le> length specs" and i: "idle r t" "r_after r = After_Close"
  shows "phase_ok specs (roll_back specs r) t \<and> input_fits (roll_back specs r) inp"
  using assms core_mono [OF c, of "length specs" "length specs" "{}" False]
  by (auto simp: roll_back_def phase_ok_def input_fits_def Let_def)

lemma roll_back_only_ok:
  assumes c: "core specs F F {} False r t" and i: "idle r t"
    and F: "F \<le> length specs" "(case after of After_Continue nxt \<Rightarrow> nxt | _ \<Rightarrow> length specs) = F" and s: "step < F"
  shows "phase_ok specs (roll_back_only r step after) t \<and> input_fits (roll_back_only r step after) inp"
  using assms by (auto simp: roll_back_only_def phase_ok_def input_fits_def Let_def)

lemma cancel_ok:
  assumes c: "core specs F F {} False r t" and F: "F \<le> length specs" and i: "idle r t" "r_after r = After_Close"
    and cause: "cause \<noteq> Cancellation_Unspecified" and s: "\<And>s. current = Some s \<Longrightarrow> s < length specs"
  shows "phase_ok specs (cancel specs r cause current) t \<and> input_fits (cancel specs r cause current) inp"
proof -
  let ?r = "r\<lparr>r_verdict := Some (Verdict_Cancelled cause)\<rparr>"
  have c1: "core specs F F {} False ?r t" using core_verdict [OF c] cause by simp
  have c2: "core specs (length specs) (length specs) {} False ?r t" by (rule core_mono [OF c1]) (use F in auto)
  have i1: "idle ?r t" "r_after ?r = After_Close" using i by simp_all
  show ?thesis
  proof (cases "\<not> r_independent r \<or> current = None \<or> (\<exists>s. current = Some s \<and> \<not> owns r s)")
    case True
    then show ?thesis
      using roll_back_ok [OF c1 F i1] finish_or_commit_ok [OF c2 refl i1]
      by (auto simp: cancel_def Let_def split: option.split)
  next
    case False
    then obtain s where current: "current = Some s" "owns r s" "r_independent r" by (cases current) auto
    show ?thesis using roll_back_only_ok [OF c2 i1(1), of After_Commit s] s current by (simp add: cancel_def)
  qed
qed

lemma get_or_insert_verdict:
  "v \<noteq> Some (Verdict_Cancelled Cancellation_Unspecified) \<Longrightarrow> w \<noteq> Verdict_Cancelled Cancellation_Unspecified \<Longrightarrow>
    get_or_insert v w \<noteq> Some (Verdict_Cancelled Cancellation_Unspecified)"
  by (cases v) (simp_all add: get_or_insert_def)

lemma fail_ok:
  assumes c: "core specs (Suc s) (Suc s) {} False r t" and s: "s < length specs" and i: "idle r t" "r_after r = After_Close"
  shows "phase_ok specs (fail_step specs r s failure) t \<and> input_fits (fail_step specs r s failure) inp"
proof -
  let ?r = "record_outcome specs (caused specs r s s) s (Step_Failed failure)"
  have c1: "core specs (Suc s) (Suc s) {} False (?r\<lparr>r_verdict := v\<rparr>) t"
    if "v \<noteq> Some (Verdict_Cancelled Cancellation_Unspecified)" for v
    by (rule core_verdict) (simp_all add: core_record core_caused [OF c s] that)
  have v: "get_or_insert (r_verdict r) (Verdict_Failed k f) \<noteq> Some (Verdict_Cancelled Cancellation_Unspecified)" for k f
    by (rule get_or_insert_verdict) (use coreD(13) [OF c] in simp_all)
  have i1: "idle (?r\<lparr>r_verdict := v\<rparr>) t" "r_after (?r\<lparr>r_verdict := v\<rparr>) = After_Close" for v using i by simp_all
  show ?thesis
  proof (cases "r_independent r")
    case True
    with roll_back_only_ok [OF c1 [OF v] i1(1), of "After_Continue (s + 1)" s] s show ?thesis
      by (simp add: fail_step_def Let_def)
  next
    case False
    with roll_back_ok [OF c1 [of "Some (Verdict_Failed (sp_key (specs ! s)) failure)"] _ i1] s show ?thesis
      by (simp add: fail_step_def Let_def)
  qed
qed

text \<open>A node starts under the idle plan.\<close>

lemma core_start:
  assumes c: "core specs F G X R r t" and s: "start_key s \<notin> used t (r_plan r)" "start_fits (t_sent t) (r_plan r) s"
    and le: "F \<le> F'" "G \<le> G'" "R \<longrightarrow> R'"
    and step: "\<And>j. j < length specs \<Longrightarrow> start_key s = step_key specs j \<Longrightarrow> j < F'"
    and undo: "\<And>j. j < length specs \<Longrightarrow> start_key s = undo_key specs j \<Longrightarrow> j < G' \<and> \<not> owns r j"
    and reclaim: "start_key s = ''reclaim'' \<Longrightarrow> R'" and act: "\<And>k. start_key s \<noteq> action_key k"
  shows "\<exists>i t'. tree_start t (r_plan r) s = Inr (i, t') \<and> started_view t (r_plan r) s i t' \<and> core specs F' G' X R' r t'"
proof -
  note d = coreD [OF c]
  from start_view [OF d(1,2) s] obtain i t' where
    st: "tree_start t (r_plan r) s = Inr (i, t')" "started_view t (r_plan r) s i t'" by blast
  note v = st(2) [unfolded started_view_def]
  have plan: "used t' (r_plan r) = insert (start_key s) (used t (r_plan r))" using v by simp
  have "core specs F' G' X R' (r\<lparr>r_performed := r_performed r\<rparr>) t'"
  proof (rule core_tree [OF c])
    show "tree_tracks t'" "later t t'" "is_open t' (r_plan r)" using v d(2) by simp_all
    show "j < F'" if "j < length specs" "step_key specs j \<in> used t' (r_plan r)" for j
      using that d(9) [OF that(1)] step [OF that(1)] le plan by auto
    show "j < G' \<and> \<not> owns r j" if "j < length specs" "undo_key specs j \<in> used t' (r_plan r)" for j
      using that d(10) [OF that(1)] undo [OF that(1)] le plan by auto
    show R' if "''reclaim'' \<in> used t' (r_plan r)" using that d(11) reclaim le plan by auto
    show "k \<le> r_performed r" if "is_open t' j" "r_plan r \<le> j" "action_key k \<in> used t' j" for j k
    proof (cases "j = i")
      case True
      with that(3) v show ?thesis by (simp add: less_imp_neq)
    next
      case False
      with that v act [of k] act [of k, symmetric] d(12) [of j k] show ?thesis by (auto split: if_splits)
    qed
  qed (use v in auto)
  with st show ?thesis by auto
qed

lemma core_blocked:
  assumes c: "core specs s s {} False r t" and k: "keys_ok specs" and s: "s < length specs" and b: "by_key \<noteq> []"
  shows "\<exists>t'. tree_blocked t (r_plan r) (sp_key (specs ! s)) by_key = Inr t' \<and>
    core specs (Suc s) (Suc s) {} False r t' \<and> (idle r t \<longrightarrow> idle r t')"
proof -
  note d = coreD [OF c]
  have "sp_key (specs ! s) \<notin> used t (r_plan r)" using d(9) [OF s] by (auto simp: step_key_def)
  from blocked_view [OF d(1,2) this b] obtain t' where
    st: "tree_blocked t (r_plan r) (sp_key (specs ! s)) by_key = Inr t'" "taken_view t (r_plan r) (sp_key (specs ! s)) t'"
    by blast
  note v = st(2) [unfolded taken_view_def, folded step_key_def]
  have plan: "used t' (r_plan r) = insert (step_key specs s) (used t (r_plan r))" using v by simp
  have "core specs (Suc s) (Suc s) {} False (r\<lparr>r_performed := r_performed r\<rparr>) t'"
  proof (rule core_tree [OF c])
    show "tree_tracks t'" "later t t'" "is_open t' (r_plan r)" using v d(2) by simp_all
    show "j < Suc s" if "j < length specs" "step_key specs j \<in> used t' (r_plan r)" for j
      using that d(9) [OF that(1)] step_key_inj [OF k that(1) s] plan by auto
    show "j < Suc s \<and> \<not> owns r j" if "j < length specs" "undo_key specs j \<in> used t' (r_plan r)" for j
      using that d(10) [OF that(1)] keys_differ(3) [OF k s, of j] plan by auto
    show False if "''reclaim'' \<in> used t' (r_plan r)"
      using that d(11) keys_differ(2) [OF k s] plan by auto
    show "l \<le> r_performed r" if "is_open t' j" "r_plan r \<le> j" "action_key l \<in> used t' j" for j l
      using that d(12) [of j l] keys_differ(4) [OF k s, of l] v by (auto split: if_splits)
  qed (use v in auto)
  with st v show ?thesis by (auto simp: idle_def)
qed

lemma blocker_less: "core specs F G X R r t \<Longrightarrow> blocker specs r step = Some cause \<Longrightarrow> cause < length specs"
proof -
  assume c: "core specs F G X R r t" and b: "blocker specs r step = Some cause"
  let ?f = "\<lambda>d. if d < length (r_causes r) then r_causes r ! d else None"
  from b have "\<exists>ds. cause \<in> set (List.map_filter ?f ds)"
    by (auto simp: blocker_def Let_def split: if_splits list.splits) (metis list.set_intros(1))
  then obtain d where "?f d = Some cause" by (auto simp: List.map_filter_def)
  then have "Some cause \<in> set (r_causes r)" by (metis nth_mem option.distinct(1))
  with coreD(5) [OF c] show ?thesis by blast
qed

section \<open>Opening and checking\<close>

lemma opening_ok:
  assumes p: "phase_ok specs r t" "r_phase r = Opening" and k: "keys_ok specs"
  shows "round_ok specs (round_opening specs inp r t)"
proof -
  let ?s = "(start_new ''plan'' (Kind_Plan []))\<lparr>start_planned := map sp_key specs\<rparr>"
  from p have o: "tree_tracks t" "is_open t (r_parent r)" "start_key ?s \<notin> used t (r_parent r)"
    and r: "r_journal r = replicate (length specs) []" "r_doubts r = []" "r_nodes r = replicate (length specs) None"
      "r_causes r = []" "r_acting r = None" "r_after r = After_Close" "r_stop r \<noteq> Some Cancellation_Unspecified" "r_verdict r = None"
    by (simp_all add: phase_ok_def Let_def start_new_def)
  have "start_fits (t_sent t) (r_parent r) ?s"
    by (rule start_fits_plain) (use k in \<open>simp_all add: start_new_def keys_ok_def\<close>)
  from start_view [OF o this] obtain i t' where
    st: "tree_start t (r_parent r) ?s = Inr (i, t')" "started_view t (r_parent r) ?s i t'" by blast
  note v = st(2) [unfolded started_view_def]
  have used: "used t' i = {}" using v by (simp add: less_imp_neq)
  have kids: "children t' i = {}" using v by (simp add: less_imp_neq)
  have "core specs 0 0 {} False (r\<lparr>r_plan := i, r_phase := Checking 0 False\<rparr>) t'"
    using v r used unfolding core_def by (auto simp: owns_def)
  with st r kids show ?thesis
    by (simp add: round_opening_def expect_tree_def phase_ok_def Let_def input_fits_def idle_def)
qed

lemma check_ok:
  assumes p: "phase_ok specs r t" "r_phase r = Checking step False" and k: "keys_ok specs"
  shows "round_ok specs (round_check specs inp r t step)"
proof -
  from p have c: "core specs step step {} False r t" and i: "idle r t" "r_after r = After_Close" "step \<le> length specs"
    by (simp_all add: phase_ok_def Let_def)
  note d = coreD [OF c]
  consider (last) "step = length specs" | (stop) cause where "step < length specs" "r_stop r = Some cause"
    | (go) "step < length specs" "r_stop r = None" using i(3) by (cases "r_stop r") force+
  then show ?thesis
  proof cases
    case last
    have "get_or_insert (r_verdict r) Verdict_Succeeded \<noteq> Some (Verdict_Cancelled Cancellation_Unspecified)"
      by (rule get_or_insert_verdict) (use d(13) in simp_all)
    from finish_or_commit_ok [OF core_verdict [OF c this] last] i last show ?thesis by (simp add: round_check_def)
  next
    case stop
    with d(8) have "cause \<noteq> Cancellation_Unspecified" by simp
    from cancel_ok [OF c i(3,1,2) this, of None] stop show ?thesis by (simp add: round_check_def)
  next
    case go
    show ?thesis
    proof (cases "blocker specs r step")
      case None
      with go p c i show ?thesis
        by (simp add: round_check_def phase_ok_def Let_def awaits_def)
    next
      case (Some cause)
      have cause: "cause < length specs" by (rule blocker_less [OF c Some])
      have "sp_key (specs ! cause) \<noteq> []" using keys_differ(1) [OF k cause] by (simp add: step_key_def)
      from core_blocked [OF c k go(1) this] i obtain t' where
        b: "tree_blocked t (r_plan r) (sp_key (specs ! step)) (sp_key (specs ! cause)) = Inr t'"
        "core specs (Suc step) (Suc step) {} False r t'" "idle r t'" by blast
      with Some go i core_caused [OF b(2) cause, of step] show ?thesis
        by (simp add: round_check_def Let_def expect_tree_def phase_ok_def input_fits_def core_record)
    qed
  qed
qed

section \<open>The busy node\<close>

lemma busy_started: "idle r t \<Longrightarrow> started_view t (r_plan r) s i t' \<Longrightarrow> busy r t' i False"
  by (auto simp: idle_def busy_def started_view_def)

lemma busy_act:
  assumes c: "core specs F G X R r t" and k: "keys_ok specs" and b: "busy r t nd False"
  shows "\<exists>a t'. act r t nd ac = Inr (Next_Perform ac, r\<lparr>r_performed := r_performed r + 1, r_acting := Some a\<rparr>, t') \<and>
    core specs F G X R (r\<lparr>r_performed := r_performed r + 1, r_acting := Some a\<rparr>) t' \<and>
    busy (r\<lparr>r_performed := r_performed r + 1, r_acting := Some a\<rparr>) t' nd True"
proof -
  from b have n: "is_open t nd" "r_plan r < nd" "children t nd = {}" "children t (r_plan r) = {nd}"
    by (simp_all add: busy_def)
  from core_act [OF c k n(1) less_imp_le [OF n(2)] n(3)] obtain a t' where
    a: "act r t nd ac = Inr (Next_Perform ac, r\<lparr>r_performed := r_performed r + 1, r_acting := Some a\<rparr>, t')"
    "core specs F G X R (r\<lparr>r_performed := r_performed r + 1, r_acting := Some a\<rparr>) t'" "act_view t nd a t'" by blast
  have "busy (r\<lparr>r_performed := r_performed r + 1, r_acting := Some a\<rparr>) t' nd True"
    using a(3) n by (auto simp: busy_def act_view_def)
  with a show ?thesis by blast
qed

lemma busy_acted:
  assumes c: "core specs F G X R r t" and b: "busy r t nd True" and cause: "cause \<noteq> Some Cancellation_Unspecified"
  shows "\<exists>t'. acted diag r t oc cause = Inr (r\<lparr>r_acting := None\<rparr>, t') \<and>
    core specs F G X R (r\<lparr>r_acting := None\<rparr>) t' \<and> busy (r\<lparr>r_acting := None\<rparr>) t' nd False"
proof -
  from b obtain a where a: "r_acting r = Some a" "is_open t a" "nd < a" "children t a = {}" "children t nd = {a}"
    and n: "is_open t nd" "r_plan r < nd" "children t (r_plan r) = {nd}" by (auto simp: busy_def)
  from n(2) a(3) have "r_plan r < a" by simp
  from core_acted [OF c a(1,2) this a(4) cause] obtain t' where
    f: "acted diag r t oc cause = Inr (r\<lparr>r_acting := None\<rparr>, t')" "core specs F G X R (r\<lparr>r_acting := None\<rparr>) t'"
    "finished_view t a t'" by blast
  have "busy (r\<lparr>r_acting := None\<rparr>) t' nd False"
    using f(3) a n by (auto simp: busy_def finished_view_def)
  with f show ?thesis by blast
qed

lemma busy_finish:
  assumes c: "core specs F G X R r t" and b: "busy r t nd False" and e: "plain_ending e"
  shows "\<exists>t'. finish_node t nd e = Inr t' \<and> core specs F G (X - {nd}) R r t' \<and> idle r t'"
proof -
  from b have n: "is_open t nd" "r_plan r < nd" "children t nd = {}" "children t (r_plan r) = {nd}" "r_acting r = None"
    by (simp_all add: busy_def)
  from n(2) have "nd \<noteq> r_plan r" by simp
  from core_finish [OF c n(1) this n(3) plain_ending_fits [OF e]] obtain t' where
    f: "finish_node t nd e = Inr t'" "core specs F G (X - {nd}) R r t'" "finished_view t nd t'" by blast
  have "idle r t'" using f(3) n by (simp add: idle_def finished_view_def)
  with f show ?thesis by blast
qed

lemma core_node:
  assumes c: "core specs F G {} R r t" and s: "s < length specs" and nd: "step_node t (r_plan r) nd"
  shows "core specs F G {nd} R (r\<lparr>r_nodes := (r_nodes r)[s := Some nd]\<rparr>) t"
  using c nd s unfolding core_def by (auto simp: nth_list_update split: if_splits)

lemma core_push:
  assumes c: "core specs F s X R r t" and s: "s < length specs" "r_nodes r ! s = Some nd"
  shows "core specs F s X R (r\<lparr>r_journal := (r_journal r)[s := r_journal r ! s @ [undo]]\<rparr>) t"
  using c s unfolding core_def
  by (auto simp: owns_def nth_list_update split: if_splits)

lemma core_in_doubt:
  assumes c: "core specs F s X R r t" and s: "s < length specs" "r_nodes r ! s = Some nd"
  shows "core specs F s X R (r\<lparr>r_doubts := r_doubts r @ [(s, undo)]\<rparr>) t"
  using c s unfolding core_def by (auto simp: owns_def)

section \<open>Checked steps\<close>

lemma step_start_fits: "keys_ok specs \<Longrightarrow> start_fits es p (step_start spec)"
  by (rule start_fits_plain) (simp_all add: step_start_def start_new_def Let_def)

lemma step_start_simps [simp]:
  "start_key (step_start spec) = sp_key spec" "shape_of (Some (start_kind (step_start spec))) = Shape_Step"
  by (simp_all add: step_start_def start_new_def shape_of_def Let_def)

lemma core_start_step:
  assumes c: "core specs s s {} False r t" and k: "keys_ok specs" and s: "s < length specs" and i: "idle r t"
  shows "\<exists>nd t'. tree_start t (r_plan r) (step_start (specs ! s)) = Inr (nd, t') \<and>
    core specs (Suc s) s {nd} False (r\<lparr>r_nodes := (r_nodes r)[s := Some nd]\<rparr>) t' \<and>
    busy (r\<lparr>r_nodes := (r_nodes r)[s := Some nd]\<rparr>) t' nd False"
proof -
  let ?s = "step_start (specs ! s)"
  have key: "start_key ?s = step_key specs s" by (simp add: step_key_def)
  have fresh: "start_key ?s \<notin> used t (r_plan r)" using coreD(9) [OF c s] key by auto
  have "\<exists>i t'. tree_start t (r_plan r) ?s = Inr (i, t') \<and> started_view t (r_plan r) ?s i t' \<and> core specs (Suc s) s {} False r t'"
  proof (rule core_start [OF c fresh step_start_fits [OF k]])
    show "j < Suc s" if "j < length specs" "start_key ?s = step_key specs j" for j
      using iffD1 [OF step_key_inj [OF k s that(1)] trans [OF key [symmetric] that(2)]] by simp
    show "j < s \<and> \<not> owns r j" if "j < length specs" "start_key ?s = undo_key specs j" for j
      using keys_differ(3) [OF k s, of j] trans [OF key [symmetric] that(2)] by (rule notE)
    show False if "start_key ?s = ''reclaim''"
      using keys_differ(2) [OF k s] trans [OF key [symmetric] that] by (rule notE)
    show "start_key ?s \<noteq> action_key l" for l unfolding key by (rule keys_differ(4) [OF k s])
  qed simp_all
  then obtain nd t' where st: "tree_start t (r_plan r) ?s = Inr (nd, t')" "started_view t (r_plan r) ?s nd t'"
    "core specs (Suc s) s {} False r t'" by blast
  have "step_node t' (r_plan r) nd" using st(2) by (simp add: started_view_def)
  from core_node [OF st(3) s this] busy_started [OF i st(2)] st(1) show ?thesis by simp
qed

lemma checked_ok:
  assumes p: "phase_ok specs r t" "r_phase r = Checking step True" and k: "keys_ok specs"
    and inp: "input_fits r inp"
  shows "round_ok specs (round_checked diag specs inp r t step)"
proof -
  from p have c: "core specs step step {} False r t" and i: "idle r t" "r_after r = After_Close" "step < length specs"
    by (simp_all add: phase_ok_def Let_def)
  from inp p(2) obtain facts where facts: "inp = Some (Input_Facts facts)" by (auto simp: input_fits_def)
  from core_start_step [OF c k i(3,1)] obtain nd t1 where
    st: "tree_start t (r_plan r) (step_start (specs ! step)) = Inr (nd, t1)"
    "core specs (Suc step) step {nd} False (r\<lparr>r_nodes := (r_nodes r)[step := Some nd]\<rparr>) t1"
    "busy (r\<lparr>r_nodes := (r_nodes r)[step := Some nd]\<rparr>) t1 nd False" by blast
  let ?r = "r\<lparr>r_nodes := (r_nodes r)[step := Some nd]\<rparr>"
  have node: "r_nodes ?r ! step = Some nd" using coreD(4) [OF c] i(3) by simp
  have fin: "\<exists>t2. finish_node t1 nd e = Inr t2 \<and> core specs (Suc step) (Suc step) {} False ?r t2 \<and> idle ?r t2"
    if "plain_ending e" for e
    using busy_finish [OF st(2,3) that] core_mono [of specs "Suc step" step "{}" False ?r _ "Suc step" "Suc step" "{}" False]
    by auto
  show ?thesis
  proof (cases "and_then facts (sp_actions (specs ! step))")
    case (Inl failure)
    obtain t2 where f: "finish_node t1 nd (ending_failed (diag failure)) = Inr t2"
      "core specs (Suc step) (Suc step) {} False ?r t2" "idle ?r t2" using fin by force
    from fail_ok [OF f(2) i(3) f(3)] i(2) f(1) Inl facts st(1) i(3) show ?thesis
      by (simp add: round_checked_def Let_def expect_tree_def)
  next
    case (Inr actions)
    show ?thesis
    proof (cases "actions = []")
      case True
      obtain t2 where f: "finish_node t1 nd ending_already_satisfied = Inr t2"
        "core specs (Suc step) (Suc step) {} False ?r t2" "idle ?r t2" using fin by force
      with True Inr facts st(1) i show ?thesis
        by (simp add: round_checked_def Let_def expect_tree_def phase_ok_def input_fits_def core_record
            del: and_then_Inr_iff)
    next
      case False
      with Inr facts st i node show ?thesis
        by (simp add: round_checked_def Let_def expect_tree_def phase_ok_def input_fits_def del: and_then_Inr_iff)
    qed
  qed
qed

section \<open>Executing\<close>

lemma execute_ok:
  assumes p: "phase_ok specs r t" "r_phase r = Executing step nd queue False" and k: "keys_ok specs"
  shows "round_ok specs (round_execute specs inp r t step nd queue)"
proof -
  from p have c: "core specs (Suc step) step {nd} False r t" and b: "busy r t nd False"
    and i: "r_after r = After_Close" "step < length specs" "r_nodes r ! step = Some nd"
    by (simp_all add: phase_ok_def Let_def)
  have fin: "\<exists>t2. finish_node t nd e = Inr t2 \<and> core specs (Suc step) (Suc step) {} False r t2 \<and> idle r t2"
    if "plain_ending e" for e
    using busy_finish [OF c b that] core_mono [of specs "Suc step" step "{}" False r _ "Suc step" "Suc step" "{}" False]
    by auto
  let ?next = "case queue of
      [] \<Rightarrow> and_then (finish_node t nd ending_succeeded)
        (\<lambda>t1. again inp ((record_outcome specs r step Step_Changed)\<lparr>r_phase := Checking (step + 1) False\<rparr>) t1)
    | a # queue' \<Rightarrow> call (act (r\<lparr>r_phase := Executing step nd queue' True\<rparr>) t nd a)"
  have nxt: "round_ok specs ?next"
  proof (cases queue)
    case Nil
    obtain t2 where f: "finish_node t nd ending_succeeded = Inr t2"
      "core specs (Suc step) (Suc step) {} False r t2" "idle r t2" using fin by force
    with Nil i show ?thesis by (simp add: phase_ok_def input_fits_def Let_def core_record)
  next
    case (Cons a queue')
    let ?r = "r\<lparr>r_phase := Executing step nd queue' True\<rparr>"
    from c b have "core specs (Suc step) step {nd} False ?r t" "busy ?r t nd False" by simp_all
    from busy_act [OF this(1) k this(2), of a] Cons i show ?thesis
      by (auto simp: phase_ok_def Let_def awaits_def)
  qed
  show ?thesis
  proof (cases "\<exists>cause. r_stop r = Some cause \<and> \<not> sp_shielded (specs ! step)")
    case True
    then obtain cause where s: "r_stop r = Some cause" "\<not> sp_shielded (specs ! step)" by blast
    then have cause: "cause \<noteq> Cancellation_Unspecified" using coreD(8) [OF c] by simp
    obtain t2 where f: "finish_node t nd (ending_cancelled cause) = Inr t2"
      "core specs (Suc step) (Suc step) {} False r t2" "idle r t2" using fin cause by force
    let ?r = "record_outcome specs r step (Step_Cancelled cause)"
    have "core specs (Suc step) (Suc step) {} False ?r t2" using f(2) by (simp add: core_record)
    from cancel_ok [OF this _ _ _ cause, of "Some step"] f i s show ?thesis
      by (simp add: round_execute_def)
  next
    case False
    with i(2) have "round_execute specs inp r t step nd queue = ?next"
      by (cases "r_stop r") (auto simp: round_execute_def Let_def)
    with nxt show ?thesis by simp
  qed
qed

lemma executed_ok:
  assumes p: "phase_ok specs r t" "r_phase r = Executing step nd queue True" and k: "keys_ok specs"
    and inp: "input_fits r inp"
  shows "round_ok specs (round_executed diag specs inp r t step nd queue)"
proof -
  from p have c0: "core specs (Suc step) step {nd} False r t" and b0: "busy r t nd True"
    and i: "r_after r = After_Close" "step < length specs" "r_nodes r ! step = Some nd"
    by (simp_all add: phase_ok_def Let_def)
  from inp p(2) obtain oc where oc: "inp = Some (Input_Done oc)" by (auto simp: input_fits_def)
  let ?r = "r\<lparr>r_acting := None\<rparr>"
  from busy_acted [OF c0 b0 coreD(8) [OF c0], of diag oc] obtain t1 where a: "acted diag r t oc (r_stop r) = Inr (?r, t1)"
    and c: "core specs (Suc step) step {nd} False ?r t1" and b: "busy ?r t1 nd False" by blast
  have fin: "\<exists>t2. finish_node t1 nd e = Inr t2 \<and> core specs (Suc step) (Suc step) {} False ?r t2 \<and> idle ?r t2"
    if "plain_ending e" for e
    using busy_finish [OF c b that] core_mono [of specs "Suc step" step "{}" False ?r _ "Suc step" "Suc step" "{}" False]
    by auto
  show ?thesis
  proof (cases oc)
    case (Inr undo)
    have "core specs (Suc step) step {nd} False (?r\<lparr>r_journal := (r_journal ?r)[step := r_journal ?r ! step @ [undo]]\<rparr>) t1"
      by (rule core_push [OF c i(2)]) (use i in simp)
    with Inr oc a b i show ?thesis
      by (simp add: round_executed_def phase_ok_def Let_def input_fits_def)
  next
    case (Inl failure)
    show ?thesis
    proof (cases "failure = Cancelled")
      case True
      let ?cause = "case r_stop r of Some c \<Rightarrow> c | None \<Rightarrow> Cancellation_Interrupted"
      have cause: "?cause \<noteq> Cancellation_Unspecified" using coreD(8) [OF c0] by (cases "r_stop r") auto
      let ?r2 = "record_outcome specs (?r\<lparr>r_stop := Some ?cause\<rparr>) step (Step_Cancelled ?cause)"
      obtain t2 where f: "finish_node t1 nd (ending_cancelled ?cause) = Inr t2"
        "core specs (Suc step) (Suc step) {} False ?r t2" "idle ?r t2" using fin cause by force
      have "core specs (Suc step) (Suc step) {} False ?r2 t2"
        unfolding core_record by (rule core_stop [OF f(2)]) (use cause in simp)
      from cancel_ok [OF this _ _ _ cause, of "Some step"] f i True Inl oc a show ?thesis
        by (simp add: round_executed_def Let_def)
    next
      case False
      obtain t2 where f: "finish_node t1 nd (ending_failed (diag failure)) = Inr t2"
        "core specs (Suc step) (Suc step) {} False ?r t2" "idle ?r t2" using fin by force
      from fail_ok [OF f(2) i(2) f(3)] i f(1) False Inl oc a show ?thesis
        by (cases failure) (simp_all add: round_executed_def)
    qed
  qed
qed

section \<open>Rolling back\<close>

definition rollback_start :: "step_spec list \<Rightarrow> nat \<Rightarrow> nat \<Rightarrow> start" where
  "rollback_start specs step undone =
     (start_new (''rollback:'' @ sp_key (specs ! step)) (Kind_Rollback undone))\<lparr>start_shielded := True\<rparr>"

lemma rollback_start_key [simp]: "start_key (rollback_start specs step undone) = undo_key specs step"
  by (simp add: rollback_start_def start_new_def undo_key_def)

lemma rollback_start_fits: "step_node t p nd \<Longrightarrow> finished_in t nd \<Longrightarrow> start_fits (t_sent t) p (rollback_start specs step nd)"
  by (auto simp: start_fits_def rollback_start_def start_new_def step_node_def finished_in_def)

text \<open>A step gives up what it has to undo.\<close>

lemma core_clear:
  assumes c: "core specs F G X R r t" and s: "s < length specs"
  defines "r' \<equiv> r\<lparr>r_journal := (r_journal r)[s := []], r_doubts := filter (\<lambda>d. fst d \<noteq> s) (r_doubts r)\<rparr>"
  shows "core specs F G X R r' t" "owns r' j \<longleftrightarrow> owns r j \<and> j \<noteq> s"
proof -
  have o: "owns r' j \<longleftrightarrow> owns r j \<and> j \<noteq> s" for j
    using coreD(3) [OF c] s by (cases "j = s") (force simp: owns_def r'_def)+
  then show "owns r' j \<longleftrightarrow> owns r j \<and> j \<noteq> s" .
  show "core specs F G X R r' t" using c o unfolding core_def by (simp add: r'_def)
qed

lemma rolled_ok:
  assumes p: "phase_ok specs r t" "r_phase r = RollingBack remaining None aw" and k: "keys_ok specs"
  shows "round_ok specs (round_rolled specs inp r t remaining)"
proof -
  define F where "F = (case r_after r of After_Continue nxt \<Rightarrow> nxt | _ \<Rightarrow> length specs)"
  from p have c: "core specs F F {} False r t" and i: "idle r t" "F \<le> length specs" "distinct remaining"
    and rem: "\<forall>j \<in> set remaining. j < F \<and> owns r j"
    by (simp_all add: phase_ok_def Let_def F_def)
  show ?thesis
  proof (cases "remaining = []")
    case True
    have i1: "idle (r\<lparr>r_after := After_Close\<rparr>) t" "r_after (r\<lparr>r_after := After_Close\<rparr>) = After_Close" using i by simp_all
    show ?thesis
    proof (cases "r_after r")
      case After_Close
      then have "core specs (length specs) (length specs) {} True r t"
        by (intro core_mono [OF c]) (auto simp: F_def)
      with True After_Close i show ?thesis by (simp add: round_rolled_def phase_ok_def input_fits_def Let_def)
    next
      case (After_Continue nxt)
      with True c i show ?thesis by (simp add: round_rolled_def phase_ok_def input_fits_def Let_def F_def)
    next
      case After_Commit
      with c have "core specs (length specs) (length specs) {} False (r\<lparr>r_after := After_Close\<rparr>) t" by (simp add: F_def)
      from finish_or_commit_ok [OF this refl i1] True After_Commit show ?thesis by (simp add: round_rolled_def Let_def)
    qed
  next
    case False
    define s where "s = last remaining"
    from False rem have s: "s < F" "owns r s" by (simp_all add: s_def)
    then have sn: "s < length specs" using i(2) by simp
    from coreD(7) [OF c sn s(2)] obtain nd where nd: "r_nodes r ! s = Some nd" by blast
    from coreD(6) [OF c sn nd] have fits: "start_fits (t_sent t) (r_plan r) (rollback_start specs s nd)"
      by (intro rollback_start_fits) simp_all
    let ?r = "r\<lparr>r_journal := (r_journal r)[s := []], r_doubts := filter (\<lambda>d. fst d \<noteq> s) (r_doubts r)\<rparr>"
    note clear = core_clear [OF c sn]
    have fresh: "start_key (rollback_start specs s nd) \<notin> used t (r_plan ?r)" using coreD(10) [OF c sn] s(2) by auto
    have "\<exists>i t'. tree_start t (r_plan ?r) (rollback_start specs s nd) = Inr (i, t') \<and>
        started_view t (r_plan ?r) (rollback_start specs s nd) i t' \<and> core specs F F {} False ?r t'"
    proof (rule core_start [OF clear(1) fresh])
      show "start_fits (t_sent t) (r_plan ?r) (rollback_start specs s nd)" using fits by simp
      show "j < F" if "j < length specs" "start_key (rollback_start specs s nd) = step_key specs j" for j
        using that(2) keys_differ(3) [OF k that(1), of s] by simp
      show "j < F \<and> \<not> owns ?r j" if "j < length specs" "start_key (rollback_start specs s nd) = undo_key specs j" for j
        using that(2) undo_key_inj [OF k sn that(1)] s(1) clear(2) [of j] by simp
    qed simp_all
    then obtain nd' t' where st: "tree_start t (r_plan r) (rollback_start specs s nd) = Inr (nd', t')"
      "started_view t (r_plan r) (rollback_start specs s nd) nd' t'" "core specs F F {} False ?r t'" by auto
    have b: "busy r t' nd' False" by (rule busy_started [OF i(1) st(2)])
    have rest: "\<forall>j \<in> set (butlast remaining). j < F \<and> owns ?r j"
    proof
      fix j assume j: "j \<in> set (butlast remaining)"
      have "remaining = butlast remaining @ [s]" using False by (simp add: s_def)
      with i(3) j have "j \<noteq> s" by (metis distinct_butlast not_distinct_conv_prefix)
      with j rem clear(2) [of j] show "j < F \<and> owns ?r j" by (auto dest: in_set_butlastD)
    qed
    have F': "(case r_after r of After_Close \<Rightarrow> length specs | After_Continue nxt \<Rightarrow> nxt | After_Commit \<Rightarrow> length specs) = F"
      by (simp add: F_def split: after_rollback.split)
    from False sn nd st(1,3) b rest i(2,3) show ?thesis
      by (simp add: round_rolled_def Let_def s_def [symmetric] rollback_start_def expect_tree_def phase_ok_def F'
          input_fits_def distinct_butlast)
  qed
qed

lemma rolling_phase_ok:
  "r_phase r = RollingBack remaining (Some u) awaiting \<Longrightarrow>
   F = (case r_after r of After_Continue nxt \<Rightarrow> nxt | _ \<Rightarrow> length specs) \<Longrightarrow>
   phase_ok specs r t \<longleftrightarrow>
     core specs F F {} False r t \<and> F \<le> length specs \<and> distinct remaining \<and> (\<forall>j \<in> set remaining. j < F \<and> owns r j) \<and>
     busy r t (un_node u) awaiting \<and> un_step u < length specs"
  by (simp add: phase_ok_def Let_def)

lemma undo_ok:
  assumes p: "phase_ok specs r t" "r_phase r = RollingBack remaining (Some u) False" and k: "keys_ok specs"
  shows "round_ok specs (round_undo diag specs inp r t remaining u)"
proof -
  define F where F: "F = (case r_after r of After_Continue nxt \<Rightarrow> nxt | _ \<Rightarrow> length specs)"
  from p(1) [unfolded rolling_phase_ok [OF p(2) F]] have c: "core specs F F {} False r t" and b: "busy r t (un_node u) False"
    and i: "F \<le> length specs" "distinct remaining" "\<forall>j \<in> set remaining. j < F \<and> owns r j" "un_step u < length specs" by simp_all
  have acts: "round_ok specs (call (act (r\<lparr>r_phase := RollingBack remaining (Some u') True\<rparr>) t (un_node u) a))"
    if "un_node u' = un_node u" "un_step u' = un_step u" for u' a
  proof -
    let ?r = "r\<lparr>r_phase := RollingBack remaining (Some u') True\<rparr>"
    from c b have "core specs F F {} False ?r t" "busy ?r t (un_node u) False" by simp_all
    from busy_act [OF this(1) k this(2), of a] i that show ?thesis
      by (auto simp: rolling_phase_ok [where F = F] F awaits_def)
  qed
  show ?thesis
  proof (cases "un_doubtful u = [] \<and> un_queue u = []")
    case False
    then show ?thesis using acts by (auto simp: round_undo_def split: list.split)
  next
    case True
    let ?e = "if un_failed u
        then ending_failed (rollback_diagnostic diag (rep_rollback_failures (r_report r)) (sp_key (specs ! un_step u)))
        else ending_succeeded"
    have "plain_ending ?e" by simp
    from busy_finish [OF c b this] obtain t' where f: "finish_node t (un_node u) ?e = Inr t'"
      "core specs F F {} False r t'" "idle r t'" by auto
    with True i show ?thesis
      by (simp add: round_undo_def phase_ok_def Let_def input_fits_def F)
  qed
qed

lemma undone_ok:
  assumes p: "phase_ok specs r t" "r_phase r = RollingBack remaining (Some u) True" and inp: "input_fits r inp"
  shows "round_ok specs (round_undone diag specs inp r t remaining u)"
proof -
  define F where F: "F = (case r_after r of After_Continue nxt \<Rightarrow> nxt | _ \<Rightarrow> length specs)"
  from p(1) [unfolded rolling_phase_ok [OF p(2) F]] have c: "core specs F F {} False r t" and b: "busy r t (un_node u) True"
    and i: "F \<le> length specs" "distinct remaining" "\<forall>j \<in> set remaining. j < F \<and> owns r j" "un_step u < length specs" by simp_all
  from inp p(2) obtain oc where oc: "inp = Some (Input_Done oc)" by (auto simp: input_fits_def)
  from busy_acted [OF c b coreD(8) [OF c], of diag oc] obtain t1 where
    a: "acted diag r t oc (r_stop r) = Inr (r\<lparr>r_acting := None\<rparr>, t1)"
    "core specs F F {} False (r\<lparr>r_acting := None\<rparr>) t1" "busy (r\<lparr>r_acting := None\<rparr>) t1 (un_node u) False" by blast
  with oc i show ?thesis
    by (cases oc) (simp_all add: round_undone_def phase_ok_def Let_def F input_fits_def)
qed

section \<open>Committing and closing\<close>

lemma core_start_reclaim:
  assumes c: "core specs n n {} False r t" and k: "keys_ok specs" and i: "idle r t"
  shows "\<exists>nd t'. tree_start t (r_plan r) (start_new ''reclaim'' (Kind_Step verb subject)) = Inr (nd, t') \<and>
    core specs n n {} True r t' \<and> busy r t' nd False"
proof -
  let ?s = "start_new ''reclaim'' (Kind_Step verb subject)"
  have key: "start_key ?s = ''reclaim''" by (simp add: start_new_def)
  have "start_key ?s \<notin> used t (r_plan r)" using coreD(11) [OF c] key by auto
  moreover have "start_fits (t_sent t) (r_plan r) ?s" by (rule start_fits_plain) (simp_all add: start_new_def)
  ultimately have "\<exists>i t'. tree_start t (r_plan r) ?s = Inr (i, t') \<and> started_view t (r_plan r) ?s i t' \<and> core specs n n {} True r t'"
  proof (rule core_start [OF c])
    show "j < n" if "j < length specs" "start_key ?s = step_key specs j" for j
      using keys_differ(2) [OF k that(1)] trans [OF that(2) [symmetric] key] by (rule notE)
  qed (simp_all add: key)
  with busy_started [OF i] show ?thesis by blast
qed

lemma commit_ok:
  assumes p: "phase_ok specs r t" "r_phase r = Committing_Phase False reclaim" and k: "keys_ok specs"
  shows "round_ok specs (round_commit r t)"
proof -
  let ?n = "length specs"
  from p have c: "core specs ?n ?n {} False r t" and i: "idle r t" "r_after r = After_Close"
    by (simp_all add: phase_ok_def Let_def)
  show ?thesis
  proof (cases "reclaims r")
    case True
    from core_start_reclaim [OF c k i(1), of "verb_i32 Verb_Reclaiming" "''disk space''"] obtain nd t1 where
      st: "tree_start t (r_plan r) (start_new ''reclaim'' (Kind_Step (verb_i32 Verb_Reclaiming) ''disk space'')) = Inr (nd, t1)"
      "core specs ?n ?n {} True r t1" "busy r t1 nd False" by blast
    let ?r = "r\<lparr>r_phase := Committing_Phase True (Some nd)\<rparr>"
    from st have "core specs ?n ?n {} True ?r t1" "busy ?r t1 nd False" by simp_all
    from busy_act [OF this(1) k this(2), of Commit] True st(1) i(2) show ?thesis
      by (auto simp: round_commit_def expect_tree_def phase_ok_def Let_def awaits_def)
  next
    case False
    let ?r = "r\<lparr>r_phase := Committing_Phase True None\<rparr>"
    have c1: "core specs ?n ?n {} True ?r t" using core_mono [OF c, of ?n ?n "{}" True] by simp
    from c1 i(1) have "is_open t (r_plan ?r)" "children t (r_plan ?r) = {}" by (simp_all add: coreD(2) idle_def)
    from core_act [OF c1 k this(1) order_refl this(2), of Commit] i False show ?thesis
      by (auto simp: round_commit_def phase_ok_def Let_def awaits_def act_view_def)
  qed
qed

lemma committed_verdict_simps [simp]:
  "r_plan (committed_verdict r oc) = r_plan r" "r_report (committed_verdict r oc) = r_report r"
  "r_acting (committed_verdict r oc) = r_acting r"
  by (simp_all add: committed_verdict_def Let_def split: sum.split failure.split)

lemma core_committed:
  assumes c: "core specs F G X R r t"
  shows "core specs F G X R (committed_verdict r oc) t"
proof -
  note d = coreD [OF c]
  let ?cause = "case r_stop r of Some c \<Rightarrow> c | None \<Rightarrow> Cancellation_Interrupted"
  have cause: "?cause \<noteq> Cancellation_Unspecified" using d(8) by (cases "r_stop r") auto
  have "get_or_insert (r_verdict r) Verdict_Succeeded \<noteq> Some (Verdict_Cancelled Cancellation_Unspecified)"
    by (rule get_or_insert_verdict) (use d(13) in simp_all)
  note v = core_verdict [OF c this]
  have "core specs F G X R (r\<lparr>r_stop := Some ?cause\<rparr>) t" by (rule core_stop [OF c]) (use cause in simp)
  note s = this core_verdict [OF this, of "Some (Verdict_Cancelled ?cause)"]
  show ?thesis
  proof (cases "oc = Inl Cancelled")
    case True
    with s cause show ?thesis by (simp add: committed_verdict_def Let_def)
  next
    case False
    with v show ?thesis by (simp add: committed_verdict_def split: sum.split failure.split)
  qed
qed

lemma warn_ok:
  assumes c: "core specs F G X R r t"
  shows "\<exists>t'. expect_tree msg (tree_warn t (r_plan r) d) = Inr t' \<and> core specs F G X R r t' \<and> same_view t t'"
proof -
  from warn_open [OF coreD(2) [OF c]] obtain t' where w: "tree_warn t (r_plan r) d = Inr t'" by blast
  note v = warn_view [OF coreD(1) [OF c] w]
  from core_same_view [OF c v] v w show ?thesis by (simp add: expect_tree_def)
qed

lemma committed_ok:
  assumes p: "phase_ok specs r t" "r_phase r = Committing_Phase True reclaim" and inp: "input_fits r inp"
  shows "round_ok specs (round_committed diag inp r t reclaim)"
proof -
  let ?n = "length specs"
  from p have c: "core specs ?n ?n {} True r t"
    by (simp add: phase_ok_def Let_def)
  from inp p(2) obtain oc where oc: "inp = Some (Input_Done oc)" by (auto simp: input_fits_def)
  let ?r = "r\<lparr>r_acting := None\<rparr>"
  let ?e = "acted_ending diag oc (r_stop ?r)"
  note stop = coreD(8) [OF c]
  have "plain_ending ?e" using stop by simp
  have "\<exists>t1 t2. acted diag r t oc (r_stop r) = Inr (?r, t1) \<and>
    (case reclaim of Some node \<Rightarrow> finish_node t1 node ?e | None \<Rightarrow> Inr t1) = Inr t2 \<and>
    core specs ?n ?n {} True ?r t2 \<and> idle ?r t2"
  proof (cases reclaim)
    case None
    with p obtain a where a: "r_acting r = Some a" "is_open t a" "r_plan r < a" "children t (r_plan r) = {a}" "children t a = {}"
      by (auto simp: phase_ok_def Let_def)
    from core_acted [OF c a(1,2,3,5) stop, of diag oc] None a(4) show ?thesis
      by (auto simp: idle_def finished_view_def)
  next
    case (Some nd)
    with p have b: "busy r t nd True" by (simp add: phase_ok_def Let_def)
    from busy_acted [OF c b stop, of diag oc] obtain t1 where
      a: "acted diag r t oc (r_stop r) = Inr (?r, t1)" "core specs ?n ?n {} True ?r t1" "busy ?r t1 nd False" by blast
    from busy_finish [OF a(2,3) \<open>plain_ending ?e\<close>] a(1) Some show ?thesis by auto
  qed
  then obtain t1 t2 where a: "acted diag r t oc (r_stop r) = Inr (?r, t1)"
    "(case reclaim of Some node \<Rightarrow> finish_node t1 node ?e | None \<Rightarrow> Inr t1) = Inr t2"
    "core specs ?n ?n {} True ?r t2" "idle ?r t2" by blast
  have w: "\<exists>t3. (case oc of
      Inl failure \<Rightarrow> if failure = Cancelled then Inr t2
        else expect_tree ''the plan is running'' (tree_warn t2 (r_plan ?r) (diag failure))
    | Inr _ \<Rightarrow> Inr t2) = Inr t3 \<and> core specs ?n ?n {} True ?r t3 \<and> idle ?r t3"
  proof (cases "\<exists>failure. oc = Inl failure \<and> failure \<noteq> Cancelled")
    case True
    then obtain failure where f: "oc = Inl failure" "failure \<noteq> Cancelled" by blast
    from warn_ok [OF a(3), of "''the plan is running''" "diag failure"] obtain t3 where
      "expect_tree ''the plan is running'' (tree_warn t2 (r_plan ?r) (diag failure)) = Inr t3"
      "core specs ?n ?n {} True ?r t3" "same_view t2 t3" by blast
    with f a(4) idle_same_view [of t2 t3 ?r] show ?thesis by simp
  next
    case False
    with a(3,4) show ?thesis by (cases oc) auto
  qed
  then obtain t3 where w3: "(case oc of
      Inl failure \<Rightarrow> if failure = Cancelled then Inr t2
        else expect_tree ''the plan is running'' (tree_warn t2 (r_plan ?r) (diag failure))
    | Inr _ \<Rightarrow> Inr t2) = Inr t3" "core specs ?n ?n {} True ?r t3" "idle ?r t3" by blast
  have "round_committed diag inp r t reclaim = again None ((committed_verdict ?r oc)\<lparr>r_phase := Closing\<rparr>) t3"
    unfolding round_committed_def oc option.case input.case a(1) and_then.simps prod.case a(2) w3(1) ..
  with w3(3) core_committed [OF w3(2), of oc] show ?thesis
    by (simp add: phase_ok_def Let_def input_fits_def idle_def)
qed

lemma closing_ok:
  assumes p: "phase_ok specs r t" "r_phase r = Closing"
  shows "round_ok specs (round_closing diag r t)"
proof -
  let ?n = "length specs"
  from p have c: "core specs ?n ?n {} True r t" and i: "idle r t" by (simp_all add: phase_ok_def Let_def)
  let ?v = "case r_verdict r of Some v \<Rightarrow> v | None \<Rightarrow> Verdict_Succeeded"
  let ?f = "rep_rollback_failures (r_report r)"
  let ?w = "if ?f = [] then Inr t
    else expect_tree ''the plan is open until it finishes'' (tree_warn t (r_plan r) (incomplete diag ?f))"
  have "\<exists>t1. ?w = Inr t1 \<and> core specs ?n ?n {} True r t1 \<and> idle r t1"
  proof (cases "?f = []")
    case False
    from warn_ok [OF c, of "''the plan is open until it finishes''" "incomplete diag ?f"] False i
      idle_same_view show ?thesis by auto
  qed (use c i in simp)
  then obtain t1 where w: "?w = Inr t1" "core specs ?n ?n {} True r t1" "idle r t1" by blast
  have "?v \<noteq> Verdict_Cancelled Cancellation_Unspecified" using coreD(13) [OF c] by (cases "r_verdict r") auto
  then have "plain_ending (verdict_ending diag ?v)" by (cases ?v) (simp_all add: verdict_ending_def)
  note fits = plain_ending_fits [OF this, of "t_sent t1" "r_plan r"]
  have "children t1 (r_plan r) = {}" using w(3) by (simp add: idle_def)
  from finish_view [OF coreD(1,2) [OF w(2)] this fits] obtain t2 where
    "tree_finish t1 (r_plan r) (verdict_ending diag ?v) = Inr t2" "tree_tracks t2"
    by (auto simp: finished_view_def)
  with w(1) show ?thesis
    by (simp add: round_closing_def Let_def finish_node_def expect_tree_def phase_ok_def awaits_def)
qed

lemma one_round_ok:
  assumes p: "phase_ok specs r t" and k: "keys_ok specs" and inp: "input_fits r inp"
  shows "round_ok specs (one_round diag specs inp r t)"
proof (cases "r_phase r")
  case Opening
  with opening_ok [OF p _ k] show ?thesis by (simp add: one_round_def)
next
  case (Checking step asked)
  with check_ok [OF p _ k] checked_ok [OF p _ k inp] show ?thesis by (cases asked) (simp_all add: one_round_def)
next
  case (Executing step nd queue aw)
  with execute_ok [OF p _ k] executed_ok [OF p _ k inp] show ?thesis by (cases aw) (simp_all add: one_round_def)
next
  case (RollingBack remaining current aw)
  show ?thesis
  proof (cases current)
    case None
    with rolled_ok [OF p _ k] RollingBack show ?thesis by (simp add: one_round_def)
  next
    case (Some u)
    with RollingBack undo_ok [OF p _ k] undone_ok [OF p _ inp] show ?thesis by (cases aw) (simp_all add: one_round_def)
  qed
next
  case (Committing_Phase aw reclaim)
  with commit_ok [OF p _ k] committed_ok [OF p _ inp] show ?thesis by (cases aw) (simp_all add: one_round_def)
next
  case Closing
  with closing_ok [OF p] show ?thesis by (simp add: one_round_def)
next
  case Closed
  with p show ?thesis by (simp add: one_round_def awaits_def)
qed

lemma run_loop_ok:
  "phase_ok specs r t \<Longrightarrow> keys_ok specs \<Longrightarrow> input_fits r inp \<Longrightarrow>
    \<exists>nx r' t'. run_loop diag specs inp r t = Inr (nx, r', t') \<and> phase_ok specs r' t' \<and> awaits r' nx"
proof (induction diag specs inp r t rule: run_loop.induct)
  case (1 diag specs inp r t)
  note ok = one_round_ok [OF "1.prems", of diag]
  show ?case
  proof (cases "one_round diag specs inp r t")
    case (Inl e)
    with ok show ?thesis by (simp add: round_ok_def)
  next
    case (Inr y)
    obtain nx r' t' inp' where y: "y = (nx, r', t', inp')" by (cases y)
    show ?thesis
    proof (cases nx)
      case None
      with ok Inr y have "phase_ok specs r' t'" "input_fits r' inp'" by (simp_all add: round_ok_def)
      from "1.IH" [OF Inr y [symmetric] None refl refl this(1) "1.prems"(2) this(2)] Inr y None show ?thesis
        by (simp add: run_loop.simps [of diag specs inp r t])
    next
      case (Some c)
      with ok Inr y show ?thesis by (simp add: round_ok_def run_loop.simps [of diag specs inp r t])
    qed
  qed
qed

end
