(* ===== verification/Runner_Play.thy ===== *)
theory Runner_Play
  imports Runner_Safety
begin

text \<open>
  A runner with its driver: what a driver may do between two calls of \<open>step\<close>, and how it answers
  each call (the loop of \<open>drive\<close> in \<open>crates/shell/src/drive.rs\<close>, with what the machine does left
  open). Whatever the machine does, no call panics, the state keeps the invariant, and the run ends.
\<close>

section \<open>Turns\<close>

datatype tell =
    Tell_Stop cancellation
  | Tell_In_Doubt "action list"
  | Tell_Progress nat progress
  | Tell_Warn nat diagnostic

definition tell :: "tell \<Rightarrow> runner \<times> tree \<Rightarrow> runner \<times> tree" where
  "tell x st =
     (let (r, t) = st
      in case x of
        Tell_Stop cause \<Rightarrow> (stop_runner r cause, t)
      | Tell_In_Doubt undo \<Rightarrow> (in_doubt r undo, t)
      | Tell_Progress node p \<Rightarrow> (r, case tree_progress t node p of Inr t' \<Rightarrow> t' | Inl _ \<Rightarrow> t)
      | Tell_Warn node d \<Rightarrow> (r, case tree_warn t node d of Inr t' \<Rightarrow> t' | Inl _ \<Rightarrow> t))"

definition tells :: "tell list \<Rightarrow> runner \<times> tree \<Rightarrow> runner \<times> tree" where
  "tells xs st = foldl (\<lambda>st x. tell x st) st xs"

text \<open>
  One turn of the driver: what it finds if it is asked, how the action ends if it is to perform
  one, and what it tells the runner and the tree meanwhile.
\<close>

record turn =
  tn_facts :: "failure + fact list"
  tn_done :: outcome_of
  tn_tells :: "tell list"

definition answer :: "next_call option \<Rightarrow> turn \<Rightarrow> input option" where
  "answer c turn =
     (case c of
        Some (Next_Observe _) \<Rightarrow> Some (Input_Facts (tn_facts turn))
      | Some (Next_Perform _) \<Rightarrow> Some (Input_Done (tn_done turn))
      | _ \<Rightarrow> None)"

type_synonym play_state = "next_call option \<times> runner \<times> tree"

definition play_turn ::
  "(failure \<Rightarrow> diagnostic) \<Rightarrow> step_spec list \<Rightarrow> play_state \<Rightarrow> turn \<Rightarrow> run_error + play_state" where
  "play_turn diag specs st turn =
     (let (c, r, t) = st; (r1, t1) = tells (tn_tells turn) (r, t)
      in and_then (runner_step diag specs r1 t1 (answer c turn)) (\<lambda>(nx, r2, t2). Inr (Some nx, r2, t2)))"

fun play ::
  "(failure \<Rightarrow> diagnostic) \<Rightarrow> step_spec list \<Rightarrow> play_state \<Rightarrow> turn list \<Rightarrow> run_error + play_state" where
  "play diag specs st [] = Inr st"
| "play diag specs st (turn # turns) = and_then (play_turn diag specs st turn) (\<lambda>st'. play diag specs st' turns)"

section \<open>What a driver tells keeps the invariant\<close>

definition tell_ok :: "tell \<Rightarrow> bool" where
  "tell_ok x = (case x of Tell_Stop cause \<Rightarrow> cause \<noteq> Cancellation_Unspecified | _ \<Rightarrow> True)"

lemma phase_ok_stop:
  assumes p: "phase_ok specs r t" and cause: "cause \<noteq> Cancellation_Unspecified"
  shows "phase_ok specs (stop_runner r cause) t"
proof -
  have s: "r_stop r \<noteq> Some Cancellation_Unspecified \<Longrightarrow> get_or_insert (r_stop r) cause \<noteq> Some Cancellation_Unspecified"
    using cause by (cases "r_stop r") (simp_all add: get_or_insert_def)
  have c: "core specs F G X R (stop_runner r cause) t" if "core specs F G X R r t" for F G X R
    unfolding stop_runner_def by (rule core_stop [OF that s [OF coreD(8) [OF that]]])
  have same: "r_phase (stop_runner r cause) = r_phase r" "r_after (stop_runner r cause) = r_after r"
    "r_nodes (stop_runner r cause) = r_nodes r" "r_acting (stop_runner r cause) = r_acting r"
    "r_plan (stop_runner r cause) = r_plan r" "owns (stop_runner r cause) = owns r"
    "idle (stop_runner r cause) = idle r" "busy (stop_runner r cause) = busy r"
    by (simp_all add: stop_runner_def)
  show ?thesis
  proof (cases "r_phase r")
    case Opening
    with p s show ?thesis by (simp add: phase_ok_def stop_runner_def Let_def)
  next
    case (Committing_Phase aw reclaim)
    with p c show ?thesis by (simp add: phase_ok_def Let_def same split: if_splits option.splits)
  next
    case (RollingBack remaining current aw)
    with p c show ?thesis by (cases current) (simp_all add: phase_ok_def Let_def same)
  qed (use p c in \<open>simp_all add: phase_ok_def Let_def same\<close>)
qed

lemma phase_ok_in_doubt:
  assumes p: "phase_ok specs r t"
  shows "phase_ok specs (in_doubt r undo) t"
proof (cases "r_phase r")
  case (Executing step nd queue aw)
  with p have c: "core specs (Suc step) step {nd} False r t" "step < length specs" "r_nodes r ! step = Some nd"
    by (simp_all add: phase_ok_def Let_def)
  from core_in_doubt [OF this, of undo] p Executing show ?thesis
    by (auto simp: in_doubt_def phase_ok_def Let_def)
qed (use p in \<open>simp_all add: in_doubt_def\<close>)

lemma phase_ok_same_view:
  assumes p: "phase_ok specs r t" and v: "same_view t t'"
  shows "phase_ok specs r t'"
proof -
  note c = core_same_view [OF _ v] and i = idle_same_view [OF v] and b = busy_same_view [OF v]
  from v have t': "tree_tracks t'" "\<And>j. is_open t' j = is_open t j" "\<And>j. children t' j = children t j"
    "\<And>j. used t' j = used t j" by (simp_all add: same_view_def)
  show ?thesis
  proof (cases "r_phase r")
    case (Committing_Phase aw reclaim)
    with p c show ?thesis by (cases aw; cases reclaim) (auto simp: phase_ok_def Let_def i b t'(2,3))
  next
    case (RollingBack remaining current aw)
    with p c show ?thesis by (cases current) (auto simp: phase_ok_def Let_def i b)
  qed (use p c t' in \<open>auto simp: phase_ok_def Let_def i b\<close>)
qed

lemma tell_phase_ok:
  assumes p: "phase_ok specs r t" and x: "tell_ok x"
  shows "phase_ok specs (fst (tell x (r, t))) (snd (tell x (r, t)))" "r_phase (fst (tell x (r, t))) = r_phase r"
proof -
  have tracks: "tree_tracks t"
    using p coreD(1) by (auto simp: phase_ok_def Let_def split: phase.splits if_splits)
  show "phase_ok specs (fst (tell x (r, t))) (snd (tell x (r, t)))"
  proof (cases x)
    case (Tell_Stop cause)
    with phase_ok_stop [OF p] x show ?thesis by (simp add: tell_def tell_ok_def)
  next
    case (Tell_In_Doubt undo)
    with phase_ok_in_doubt [OF p] show ?thesis by (simp add: tell_def)
  next
    case (Tell_Progress node q)
    with p phase_ok_same_view [OF p progress_view [OF tracks]] show ?thesis
      by (simp add: tell_def split: sum.split)
  next
    case (Tell_Warn node d)
    with p phase_ok_same_view [OF p warn_view [OF tracks]] show ?thesis
      by (simp add: tell_def split: sum.split)
  qed
  show "r_phase (fst (tell x (r, t))) = r_phase r"
    by (cases x) (simp_all add: tell_def stop_runner_def in_doubt_def split: phase.split)
qed

lemma tells_phase_ok:
  "phase_ok specs r t \<Longrightarrow> list_all tell_ok xs \<Longrightarrow>
    \<exists>r' t'. tells xs (r, t) = (r', t') \<and> phase_ok specs r' t' \<and> r_phase r' = r_phase r"
proof (induction xs arbitrary: r t)
  case (Cons x xs)
  obtain r1 t1 where st: "tell x (r, t) = (r1, t1)" by (cases "tell x (r, t)")
  with Cons.prems tell_phase_ok [of specs r t x] have "phase_ok specs r1 t1" "r_phase r1 = r_phase r" by simp_all
  with Cons.IH [OF this(1)] Cons.prems st show ?case by (simp add: tells_def)
qed (simp add: tells_def)

section \<open>No turn panics\<close>

definition play_ok :: "step_spec list \<Rightarrow> play_state \<Rightarrow> bool" where
  "play_ok specs st =
     (let (c, r, t) = st
      in phase_ok specs r t \<and> (case c of None \<Rightarrow> r_phase r = Opening | Some nx \<Rightarrow> awaits r nx))"

definition turn_ok :: "turn \<Rightarrow> bool" where
  "turn_ok turn = list_all tell_ok (tn_tells turn)"

lemma answer_fits: "awaits r nx \<Longrightarrow> input_fits r (answer (Some nx) turn)"
  by (cases nx) (auto simp: awaits_def answer_def input_fits_def split: phase.splits option.splits)

lemma input_fits_phase: "r_phase r' = r_phase r \<Longrightarrow> input_fits r' inp = input_fits r inp"
  by (simp add: input_fits_def)

lemma play_turn_ok:
  assumes st: "play_ok specs st" and k: "keys_ok specs" and turn: "turn_ok turn"
  shows "\<exists>st'. play_turn diag specs st turn = Inr st' \<and> play_ok specs st'"
proof -
  obtain c r t where s: "st = (c, r, t)" by (cases st)
  with st have p: "phase_ok specs r t" and c: "case c of None \<Rightarrow> r_phase r = Opening | Some nx \<Rightarrow> awaits r nx"
    by (simp_all add: play_ok_def)
  from tells_phase_ok [OF p turn [unfolded turn_ok_def]] obtain r1 t1 where
    t1: "tells (tn_tells turn) (r, t) = (r1, t1)" "phase_ok specs r1 t1" "r_phase r1 = r_phase r" by blast
  have "input_fits r (answer c turn)"
    using c answer_fits by (cases c) (simp_all add: input_fits_def answer_def)
  with input_fits_phase [OF t1(3)] have "input_fits r1 (answer c turn)" by simp
  from run_loop_ok [OF t1(2) k this, of diag] s t1(1) show ?thesis
    by (auto simp: play_turn_def runner_step_def play_ok_def)
qed

lemma play_keeps_ok:
  "play_ok specs st \<Longrightarrow> keys_ok specs \<Longrightarrow> list_all turn_ok turns \<Longrightarrow>
    \<exists>st'. play diag specs st turns = Inr st' \<and> play_ok specs st'"
proof (induction turns arbitrary: st)
  case (Cons turn turns)
  from Cons.prems(3) have turns: "turn_ok turn" "list_all turn_ok turns" by simp_all
  from play_turn_ok [OF Cons.prems(1,2) turns(1)] obtain st1 where
    st1: "play_turn diag specs st turn = Inr st1" "play_ok specs st1" by blast
  from Cons.IH [OF st1(2) Cons.prems(2) turns(2)] st1(1) show ?case by simp
qed simp

lemma play_ok_tracks: "play_ok specs (c, r, t) \<Longrightarrow> tree_tracks t"
  using coreD(1) by (auto simp: play_ok_def phase_ok_def Let_def split: phase.splits if_splits)

lemma play_ok_new:
  assumes "tree_tracks t" "is_open t p" "''plan'' \<notin> used t p"
  shows "play_ok specs (None, runner_new p specs, t)" "play_ok specs (None, independent (runner_new p specs), t)"
  using assms by (simp_all add: play_ok_def phase_ok_def Let_def runner_new_def independent_def)

end
