(* ===== verification/Runner_Ends.thy ===== *)
theory Runner_Ends
  imports Runner_Play
begin

text \<open>
  Every run ends: each turn of the driver brings the runner closer to the end, however the queries
  and the actions are answered.
\<close>

section \<open>What is left to do\<close>

text \<open>What the rollback of a step performs.\<close>

definition undos_of :: "runner \<Rightarrow> nat \<Rightarrow> action list" where
  "undos_of r step =
     concat (map (\<lambda>d. rollback_order [snd d]) (filter (\<lambda>d. fst d = step) (r_doubts r)))
     @ rollback_order (r_journal r ! step)"

definition stage :: "step_spec list \<Rightarrow> runner \<Rightarrow> nat" where
  "stage specs r =
     (let n = length specs
      in case r_phase r of
        Opening \<Rightarrow> 8 * (n + 4)
      | Checking step asked \<Rightarrow> 8 * (n - step + 3) + (if asked then 3 else 4)
      | Executing step _ _ _ \<Rightarrow> 8 * (n - step + 3) + 2
      | RollingBack _ _ _ \<Rightarrow>
          (case r_after r of After_Continue nxt \<Rightarrow> 8 * (n - nxt + 4) + 1 | _ \<Rightarrow> 17)
      | Committing_Phase awaiting _ \<Rightarrow> if awaiting then 8 else 9
      | Closing \<Rightarrow> 1
      | Closed \<Rightarrow> 0)"

definition work :: "runner \<Rightarrow> nat" where
  "work r =
     (case r_phase r of
        Executing _ _ queue awaiting \<Rightarrow> 2 * length queue + (if awaiting then 1 else 0)
      | RollingBack remaining current awaiting \<Rightarrow>
          sum_list (map (\<lambda>step. 2 + 2 * length (undos_of r step)) remaining)
          + (case current of
               None \<Rightarrow> 0
             | Some u \<Rightarrow> 1 + 2 * (length (un_doubtful u) + length (un_queue u)) + (if awaiting then 1 else 0))
      | _ \<Rightarrow> 0)"

definition nearer :: "step_spec list \<Rightarrow> runner \<Rightarrow> runner \<Rightarrow> bool" where
  "nearer specs r' r \<longleftrightarrow> stage specs r' < stage specs r \<or> stage specs r' = stage specs r \<and> work r' < work r"

lemma nearer_trans: "nearer specs r2 r1 \<Longrightarrow> nearer specs r1 r \<Longrightarrow> nearer specs r2 r"
  by (auto simp: nearer_def)

text \<open>What neither stage nor work looks at.\<close>

lemma undos_of_simps [simp]:
  "undos_of (r\<lparr>r_phase := x1\<rparr>) = undos_of r" "undos_of (r\<lparr>r_acting := x2\<rparr>) = undos_of r"
  "undos_of (r\<lparr>r_performed := x3\<rparr>) = undos_of r" "undos_of (r\<lparr>r_verdict := x4\<rparr>) = undos_of r"
  "undos_of (r\<lparr>r_report := x5\<rparr>) = undos_of r" "undos_of (r\<lparr>r_after := x6\<rparr>) = undos_of r"
  "undos_of (r\<lparr>r_stop := x7\<rparr>) = undos_of r" "undos_of (r\<lparr>r_causes := x8\<rparr>) = undos_of r"
  "undos_of (r\<lparr>r_nodes := x9\<rparr>) = undos_of r" "undos_of (r\<lparr>r_plan := x10\<rparr>) = undos_of r"
  by (simp_all add: undos_of_def fun_eq_iff)

lemma undos_of_cleared:
  "j \<noteq> s \<Longrightarrow> undos_of (r\<lparr>r_journal := (r_journal r)[s := []], r_doubts := filter (\<lambda>d. fst d \<noteq> s) (r_doubts r)\<rparr>) j
    = undos_of r j"
proof -
  assume "j \<noteq> s"
  moreover have "filter (\<lambda>d. fst d = j) (filter (\<lambda>d. fst d \<noteq> s) ds) = filter (\<lambda>d. fst d = j) ds" if "j \<noteq> s" for ds :: "doubt list"
    using that by (induction ds) auto
  ultimately show ?thesis by (simp add: undos_of_def)
qed

lemma stage_simps [simp]:
  "stage specs (r\<lparr>r_performed := x1\<rparr>) = stage specs r" "stage specs (r\<lparr>r_acting := x2\<rparr>) = stage specs r"
  by (simp_all add: stage_def Let_def split: phase.split)

lemma work_simps [simp]:
  "work (r\<lparr>r_performed := x1\<rparr>) = work r" "work (r\<lparr>r_acting := x2\<rparr>) = work r"
  by (simp_all add: work_def split: phase.split)

lemma nearer_simps [simp]:
  "nearer specs (r'\<lparr>r_performed := x1, r_acting := x2\<rparr>) r = nearer specs r' r"
  by (simp add: nearer_def)

definition falls :: "step_spec list \<Rightarrow> runner \<Rightarrow> round \<Rightarrow> bool" where
  "falls specs r x = (case x of Inl _ \<Rightarrow> True | Inr (nx, r', t', inp') \<Rightarrow> nearer specs r' r)"

lemma falls_simps [simp]:
  "falls specs r (Inl e)" "falls specs r (again inp r' t) = nearer specs r' r"
  "falls specs r (call (Inr (c, r', t))) = nearer specs r' r"
  by (simp_all add: falls_def again_def call_def)

lemma falls_act [simp]: "nearer specs r' r \<Longrightarrow> falls specs r (call (act r' t q a))"
  by (cases "act r' t q a")
    (auto simp: act_def Let_def falls_def call_def split: prod.splits)

lemma falls_and_then [intro]:
  "(\<And>y. x = Inr y \<Longrightarrow> falls specs r (f y)) \<Longrightarrow> falls specs r (and_then x f)"
  by (cases x) simp_all

lemma acted_runner: "acted diag r t oc cause = Inr (r1, t1) \<Longrightarrow> r1 = r\<lparr>r_acting := None\<rparr>"
  by (auto simp: acted_def split: option.splits)

lemma acted_falls [intro]:
  "(\<And>t1. falls specs r (f (r'\<lparr>r_acting := None\<rparr>, t1))) \<Longrightarrow> falls specs r (and_then (acted diag r' t oc cause) f)"
  by (cases "acted diag r' t oc cause") (auto dest!: acted_runner)

section \<open>Every round is nearer\<close>

lemma stage_cancel: "r_after r = After_Close \<Longrightarrow> stage specs (cancel specs r cause current) \<le> 17"
  by (auto simp: cancel_def roll_back_def roll_back_only_def finish_or_commit_def stage_def Let_def split: option.split)

lemma stage_fail:
  "r_after r = After_Close \<Longrightarrow> step < length specs \<Longrightarrow>
    stage specs (fail_step specs r step failure) \<le> 8 * (length specs - step + 3) + 1"
  by (auto simp: fail_step_def roll_back_def roll_back_only_def stage_def Let_def)

lemma stage_finish_or_commit: "stage specs (finish_or_commit r) \<le> 9"
  by (simp add: finish_or_commit_def stage_def Let_def)

lemma nearer_stage: "stage specs r' \<le> k \<Longrightarrow> k < stage specs r \<Longrightarrow> nearer specs r' r"
  by (simp add: nearer_def)

lemma check_falls:
  assumes p: "r_phase r = Checking step False" "r_after r = After_Close" "step \<le> length specs"
  shows "falls specs r (round_check specs inp r t step)"
proof -
  have s: "stage specs r = 8 * (length specs - step + 3) + 4" using p by (simp add: stage_def Let_def)
  have "nearer specs (finish_or_commit x) r" for x
    by (rule nearer_stage [OF stage_finish_or_commit]) (simp add: s)
  moreover have "nearer specs (cancel specs r cause None) r" for cause
    by (rule nearer_stage [OF stage_cancel [OF p(2)]]) (simp add: s)
  moreover have "nearer specs (x\<lparr>r_phase := Checking (step + 1) False\<rparr>) r" if "step \<noteq> length specs" for x
    using that p(3) by (simp add: nearer_def s) (simp add: stage_def Let_def, arith)
  moreover have "nearer specs (r\<lparr>r_phase := Checking step True\<rparr>) r"
    by (simp add: nearer_def s) (simp add: stage_def Let_def)
  ultimately show ?thesis
    by (auto simp: round_check_def Let_def split: option.split)
qed

lemma checked_falls:
  assumes p: "r_phase r = Checking step True" "r_after r = After_Close" "step < length specs"
  shows "falls specs r (round_checked diag specs inp r t step)"
proof -
  have s: "stage specs r = 8 * (length specs - step + 3) + 3" using p by (simp add: stage_def Let_def)
  have "nearer specs (fail_step specs (r\<lparr>r_nodes := x\<rparr>) step failure) r" for x failure
    by (rule nearer_stage [OF stage_fail]) (simp_all add: s p)
  moreover have "nearer specs (x\<lparr>r_phase := Checking (step + 1) False\<rparr>) r" for x
    using p(3) by (simp add: nearer_def s) (simp add: stage_def Let_def, arith)
  moreover have "nearer specs (x\<lparr>r_phase := Executing step node actions False\<rparr>) r" for x node actions
    by (simp add: nearer_def s) (simp add: stage_def Let_def)
  ultimately show ?thesis
    by (auto simp: round_checked_def Let_def intro!: falls_and_then split: option.split input.split sum.split)
qed

lemma execute_falls:
  assumes p: "r_phase r = Executing step nd queue False" "r_after r = After_Close" "step < length specs"
  shows "falls specs r (round_execute specs inp r t step nd queue)"
proof -
  have s: "stage specs r = 8 * (length specs - step + 3) + 2" "work r = 2 * length queue"
    using p by (simp_all add: stage_def work_def Let_def)
  have "nearer specs (cancel specs (record_outcome specs r step oc) cause current) r" for oc cause current
    by (rule nearer_stage [OF stage_cancel]) (simp_all add: s p)
  moreover have "nearer specs (x\<lparr>r_phase := Checking (step + 1) False\<rparr>) r" for x
    using p(3) by (simp add: nearer_def s) (simp add: stage_def Let_def, arith)
  moreover have "nearer specs (r\<lparr>r_phase := Executing step nd queue' True\<rparr>) r" if "queue = a # queue'" for a queue'
    using that by (simp add: nearer_def s) (simp add: stage_def work_def Let_def)
  ultimately show ?thesis
    by (auto simp: round_execute_def Let_def split: option.split list.split)
qed

lemma executed_falls:
  assumes p: "r_phase r = Executing step nd queue True" "r_after r = After_Close" "step < length specs"
  shows "falls specs r (round_executed diag specs inp r t step nd queue)"
proof -
  have s: "stage specs r = 8 * (length specs - step + 3) + 2" "work r = 2 * length queue + 1"
    using p by (simp_all add: stage_def work_def Let_def)
  have c: "nearer specs (cancel specs (record_outcome specs (r\<lparr>r_acting := None, r_stop := x\<rparr>) step oc) cause current) r"
    for oc x cause current
    by (rule nearer_stage [OF stage_cancel]) (simp_all add: s p)
  have f: "nearer specs (fail_step specs (r\<lparr>r_acting := None\<rparr>) step failure) r" for failure
    by (rule nearer_stage [OF stage_fail]) (simp_all add: s p)
  have e: "nearer specs (x\<lparr>r_phase := Executing step nd queue False\<rparr>) r" for x
    by (simp add: nearer_def s) (simp add: stage_def work_def Let_def)
  show ?thesis
  proof (cases "\<exists>oc. inp = Some (Input_Done oc)")
    case True
    then obtain oc where oc: "inp = Some (Input_Done oc)" by blast
    from p(3) show ?thesis
      unfolding round_executed_def oc
      by (simp add: not_le, intro acted_falls)
        (use c f e in \<open>auto simp: Let_def intro!: falls_and_then split: sum.split failure.split\<close>)
  next
    case False
    then show ?thesis by (auto simp: round_executed_def split: option.split input.split)
  qed
qed

lemma rolled_falls:
  assumes p: "r_phase r = RollingBack remaining None aw" "distinct remaining"
  shows "falls specs r (round_rolled specs inp r t remaining)"
proof (cases "remaining = []")
  case True
  have s: "stage specs r = (case r_after r of After_Continue nxt \<Rightarrow> 8 * (length specs - nxt + 4) + 1 | _ \<Rightarrow> 17)"
    using p by (simp add: stage_def Let_def)
  have "nearer specs (r\<lparr>r_after := After_Close, r_phase := Closing\<rparr>) r"
    by (simp add: nearer_def s split: after_rollback.split) (simp add: stage_def)
  moreover have "nearer specs (r\<lparr>r_after := After_Close, r_phase := Checking nxt False\<rparr>) r" if "r_after r = After_Continue nxt" for nxt
    using that by (simp add: nearer_def s) (simp add: stage_def Let_def)
  moreover have "nearer specs (finish_or_commit x) r" for x
    by (rule nearer_stage [OF stage_finish_or_commit]) (simp add: s split: after_rollback.split)
  ultimately show ?thesis using True by (simp add: round_rolled_def Let_def split: after_rollback.split)
next
  case False
  define s where "s = last remaining"
  have rem: "remaining = butlast remaining @ [s]" using False by (simp add: s_def)
  let ?r0 = "r\<lparr>r_journal := (r_journal r)[s := []], r_doubts := filter (\<lambda>d. fst d \<noteq> s) (r_doubts r)\<rparr>"
  have step: "nearer specs (?r0\<lparr>r_phase := RollingBack (butlast remaining) (Some
        \<lparr>un_step = s, un_node = node,
         un_doubtful = concat (map (\<lambda>d. rollback_order [snd d]) (filter (\<lambda>d. fst d = s) (r_doubts r))),
         un_queue = rollback_order (r_journal r ! s), un_doubting = False, un_failed = False\<rparr>) False\<rparr>) r"
    (is "nearer specs (?r0\<lparr>r_phase := RollingBack _ (Some ?u) _\<rparr>) r") for node
  proof -
    have "undos_of ?r0 j = undos_of r j" if "j \<in> set (butlast remaining)" for j
    proof (rule undos_of_cleared)
      from that p(2) rem show "j \<noteq> s" by (metis distinct_butlast not_distinct_conv_prefix)
    qed
    then have "map (\<lambda>step. 2 + 2 * length (undos_of ?r0 step)) (butlast remaining)
      = map (\<lambda>step. 2 + 2 * length (undos_of r step)) (butlast remaining)" by simp
    moreover have "sum_list (map (\<lambda>step. 2 + 2 * length (undos_of r step)) remaining)
      = sum_list (map (\<lambda>step. 2 + 2 * length (undos_of r step)) (butlast remaining)) + (2 + 2 * length (undos_of r s))"
      by (subst rem) simp
    moreover have "length (un_doubtful ?u) + length (un_queue ?u) = length (undos_of r s)" by (simp add: undos_of_def)
    moreover have "work r = sum_list (map (\<lambda>step. 2 + 2 * length (undos_of r step)) remaining)"
      using p(1) by (simp add: work_def)
    moreover have "work (?r0\<lparr>r_phase := RollingBack (butlast remaining) (Some ?u) False\<rparr>)
      = sum_list (map (\<lambda>step. 2 + 2 * length (undos_of ?r0 step)) (butlast remaining))
        + (1 + 2 * (length (un_doubtful ?u) + length (un_queue ?u)))" by (simp add: work_def)
    ultimately have "work (?r0\<lparr>r_phase := RollingBack (butlast remaining) (Some ?u) False\<rparr>) < work r" by presburger
    moreover have "stage specs (?r0\<lparr>r_phase := RollingBack (butlast remaining) (Some ?u) False\<rparr>) = stage specs r"
      using p(1) by (simp add: stage_def)
    ultimately show ?thesis by (simp add: nearer_def)
  qed
  from False step [unfolded s_def] show ?thesis
    by (auto simp: round_rolled_def Let_def split: option.split)
qed

lemma undo_falls:
  assumes p: "r_phase r = RollingBack remaining (Some u) False"
  shows "falls specs r (round_undo diag specs inp r t remaining u)"
proof -
  have "nearer specs (r\<lparr>r_phase := RollingBack remaining None False\<rparr>) r"
    using p by (simp add: nearer_def stage_def work_def)
  moreover have "nearer specs (r\<lparr>r_phase := RollingBack remaining (Some (u\<lparr>un_doubtful := d, un_doubting := b\<rparr>)) True\<rparr>) r"
    if "un_doubtful u = a # d" for a d b
    using that p by (simp add: nearer_def stage_def work_def)
  moreover have "nearer specs (r\<lparr>r_phase := RollingBack remaining (Some (u\<lparr>un_queue := q, un_doubting := b\<rparr>)) True\<rparr>) r"
    if "un_queue u = a # q" for a q b
    using that p by (simp add: nearer_def stage_def work_def)
  ultimately show ?thesis by (auto simp: round_undo_def split: list.split)
qed

lemma undone_falls:
  assumes p: "r_phase r = RollingBack remaining (Some u) True"
  shows "falls specs r (round_undone diag specs inp r t remaining u)"
proof -
  have "nearer specs (r\<lparr>r_acting := None, r_phase := RollingBack remaining (Some u) False\<rparr>) r"
    "nearer specs (r\<lparr>r_acting := None, r_report := x, r_phase := RollingBack remaining (Some (u\<lparr>un_failed := b\<rparr>)) False\<rparr>) r" for x b
    using p by (simp_all add: nearer_def stage_def work_def)
  then show ?thesis
    by (auto simp: round_undone_def intro!: acted_falls split: option.split input.split sum.split)
qed

lemma one_round_falls:
  assumes p: "phase_ok specs r t" and c: "r_phase r \<noteq> Closed"
  shows "falls specs r (one_round diag specs inp r t)"
proof (cases "r_phase r")
  case Opening
  have "nearer specs (r\<lparr>r_plan := x, r_phase := Checking 0 False\<rparr>) r" for x
    using Opening by (simp add: nearer_def stage_def Let_def)
  with Opening show ?thesis by (auto simp: one_round_def round_opening_def)
next
  case (Checking step asked)
  with p have a: "r_after r = After_Close" "step \<le> length specs" "asked \<longrightarrow> step < length specs"
    by (simp_all add: phase_ok_def Let_def)
  with Checking check_falls [OF _ a(1,2)] checked_falls [OF _ a(1)] show ?thesis
    by (cases asked) (simp_all add: one_round_def)
next
  case (Executing step nd queue aw)
  with p have a: "r_after r = After_Close" "step < length specs" by (simp_all add: phase_ok_def Let_def)
  with Executing execute_falls [OF _ a] executed_falls [OF _ a] show ?thesis
    by (cases aw) (simp_all add: one_round_def)
next
  case (RollingBack remaining current aw)
  with p have d: "distinct remaining" by (simp add: phase_ok_def Let_def)
  show ?thesis
  proof (cases current)
    case None
    with rolled_falls [OF _ d] RollingBack show ?thesis by (simp add: one_round_def)
  next
    case (Some u)
    with RollingBack undo_falls undone_falls show ?thesis by (cases aw) (simp_all add: one_round_def)
  qed
next
  case (Committing_Phase aw reclaim)
  have "nearer specs (x\<lparr>r_phase := Closing\<rparr>) r" for x using Committing_Phase by (simp add: nearer_def stage_def)
  moreover have "nearer specs (r\<lparr>r_phase := Committing_Phase True y\<rparr>) r" if "\<not> aw" for y
    using Committing_Phase that by (simp add: nearer_def stage_def)
  ultimately show ?thesis
    using Committing_Phase
    by (auto simp: one_round_def round_committed_def round_commit_def intro!: acted_falls falls_and_then
        split: option.split input.split)
next
  case Closing
  have "nearer specs (r\<lparr>r_verdict := x, r_report := y, r_phase := Closed\<rparr>) r" for x y
    using Closing by (simp add: nearer_def stage_def)
  with Closing show ?thesis by (auto simp: one_round_def round_closing_def Let_def intro!: falls_and_then)
qed (use c in simp)

section \<open>Every run ends\<close>

lemma run_loop_falls:
  "phase_ok specs r t \<Longrightarrow> keys_ok specs \<Longrightarrow> input_fits r inp \<Longrightarrow> r_phase r \<noteq> Closed \<Longrightarrow>
    run_loop diag specs inp r t = Inr (nx, r', t') \<Longrightarrow> nearer specs r' r"
proof (induction diag specs inp r t rule: run_loop.induct)
  case (1 diag specs inp r t)
  note f = one_round_falls [OF "1.prems"(1,4), of diag inp]
  note ok = one_round_ok [OF "1.prems"(1-3), of diag]
  show ?case
  proof (cases "one_round diag specs inp r t")
    case (Inl e)
    with ok show ?thesis by (simp add: round_ok_def)
  next
    case (Inr y)
    obtain c r1 t1 inp1 where y: "y = (c, r1, t1, inp1)" by (cases y)
    with f Inr have n: "nearer specs r1 r" by (simp add: falls_def)
    show ?thesis
    proof (cases c)
      case (Some nx1)
      with "1.prems"(5) Inr y n show ?thesis by (simp add: run_loop.simps [of diag specs inp r t])
    next
      case None
      with ok Inr y have ok1: "phase_ok specs r1 t1" "input_fits r1 inp1" by (simp_all add: round_ok_def)
      from "1.prems"(5) Inr y None have l: "run_loop diag specs inp1 r1 t1 = Inr (nx, r', t')"
        by (simp add: run_loop.simps [of diag specs inp r t])
      show ?thesis
      proof (cases "r_phase r1 = Closed")
        case True
        then have "one_round diag specs inp1 r1 t1 = call (Inr (Next_Finished, r1, t1))" by (simp add: one_round_def)
        with l have "r' = r1" by (simp add: run_loop.simps [of diag specs inp1 r1 t1] call_def)
        with n show ?thesis by simp
      next
        case False
        from "1.IH" [OF Inr y [symmetric] None refl refl ok1(1) "1.prems"(2) ok1(2) False l] n
        show ?thesis by (rule nearer_trans)
      qed
    qed
  qed
qed

lemma tell_distance: "stage specs (fst (tell x (r, t))) = stage specs r \<and> work (fst (tell x (r, t))) = work r"
proof (cases x)
  case (Tell_In_Doubt undo)
  then show ?thesis
    by (simp add: tell_def in_doubt_def stage_def work_def Let_def split: phase.split)
next
  case (Tell_Stop cause)
  then show ?thesis
    by (simp add: tell_def stop_runner_def stage_def work_def Let_def split: phase.split)
qed (simp_all add: tell_def)

lemma tells_distance: "stage specs (fst (tells xs (r, t))) = stage specs r \<and> work (fst (tells xs (r, t))) = work r"
proof (induction xs arbitrary: r t)
  case (Cons x xs)
  obtain r1 t1 where "tell x (r, t) = (r1, t1)" by (cases "tell x (r, t)")
  with Cons [of r1 t1] tell_distance [of specs x r t] show ?case by (simp add: tells_def)
qed (simp add: tells_def)

lemma play_turn_nearer:
  assumes st: "play_ok specs (c, r, t)" and k: "keys_ok specs" and turn: "turn_ok turn"
    and c: "c \<noteq> Some Next_Finished" and step: "play_turn diag specs (c, r, t) turn = Inr (c', r', t')"
  shows "nearer specs r' r"
proof -
  from st have p: "phase_ok specs r t" and aw: "case c of None \<Rightarrow> r_phase r = Opening | Some nx \<Rightarrow> awaits r nx"
    by (simp_all add: play_ok_def)
  from tells_phase_ok [OF p turn [unfolded turn_ok_def]] obtain r1 t1 where
    t1: "tells (tn_tells turn) (r, t) = (r1, t1)" "phase_ok specs r1 t1" "r_phase r1 = r_phase r" by blast
  have "input_fits r (answer c turn)"
    using aw answer_fits by (cases c) (simp_all add: input_fits_def answer_def)
  with input_fits_phase [OF t1(3)] have fits: "input_fits r1 (answer c turn)" by simp
  have open_phase: "r_phase r1 \<noteq> Closed"
    using aw c t1(3) by (auto simp: awaits_def split: option.splits next_call.splits)
  from step t1(1) obtain nx where "run_loop diag specs (answer c turn) r1 t1 = Inr (nx, r', t')"
    by (auto simp: play_turn_def runner_step_def)
  from run_loop_falls [OF t1(2) k fits open_phase this] tells_distance [of specs "tn_tells turn" r t] t1(1)
  show ?thesis by (simp add: nearer_def)
qed

lemma nearer_wf: "wf {(r', r). nearer specs r' r}"
proof -
  have "{(r', r). nearer specs r' r} = inv_image (less_than <*lex*> less_than) (\<lambda>r. (stage specs r, work r))"
    by (auto simp: nearer_def)
  then show ?thesis by (simp add: wf_lex_prod)
qed

lemma play_append:
  "play diag specs st (xs @ ys) = and_then (play diag specs st xs) (\<lambda>st'. play diag specs st' ys)"
proof (induction xs arbitrary: st)
  case (Cons x xs)
  then show ?case by (cases "play_turn diag specs st x") simp_all
qed simp

lemma play_ends:
  assumes k: "keys_ok specs"
  shows "play_ok specs (c, r, t) \<Longrightarrow> (\<And>i. turn_ok (turns i)) \<Longrightarrow>
    \<exists>n r' t'. play diag specs (c, r, t) (map turns [0..<n]) = Inr (Some Next_Finished, r', t')"
proof (induction r arbitrary: c t turns rule: wf_induct_rule [OF nearer_wf [of specs]])
  case (1 r)
  show ?case
  proof (cases "c = Some Next_Finished")
    case True
    then have "play diag specs (c, r, t) (map turns [0..<0]) = Inr (Some Next_Finished, r, t)" by simp
    then show ?thesis by blast
  next
    case False
    from play_turn_ok [OF "1.prems"(1) k "1.prems"(2), of diag 0] obtain c1 r1 t1 where
      st1: "play_turn diag specs (c, r, t) (turns 0) = Inr (c1, r1, t1)" "play_ok specs (c1, r1, t1)" by auto
    have "nearer specs r1 r" by (rule play_turn_nearer [OF "1.prems"(1) k "1.prems"(2) False st1(1)])
    then have "(r1, r) \<in> {(r', r). nearer specs r' r}" by simp
    from "1.IH" [OF this st1(2), of "turns \<circ> Suc"] "1.prems"(2)
    have "\<exists>n r' t'. play diag specs (c1, r1, t1) (map (turns \<circ> Suc) [0..<n]) = Inr (Some Next_Finished, r', t')"
      by (simp add: comp_def)
    then obtain n r' t' where
      n: "play diag specs (c1, r1, t1) (map (turns \<circ> Suc) [0..<n]) = Inr (Some Next_Finished, r', t')" by blast
    have "map turns [0..<Suc n] = turns 0 # map (turns \<circ> Suc) [0..<n]"
      by (simp add: upt_conv_Cons map_Suc_upt [symmetric] del: upt_Suc)
    with st1(1) n have "play diag specs (c, r, t) (map turns [0..<Suc n]) = Inr (Some Next_Finished, r', t')"
      by simp
    then show ?thesis by blast
  qed
qed

end
