(* ===== verification/Runner_Unwinds.thy ===== *)
theory Runner_Unwinds
  imports Runner_Ends
begin

text \<open>
  What a rollback performs: for each step that owns something, from the last to the first, the
  doubtful undos and then the recorded ones, each exactly once, whatever they answer.
\<close>

section \<open>The calls of a run\<close>

text \<open>The calls that the turns of a driver lead to.\<close>

fun calls :: "(failure \<Rightarrow> diagnostic) \<Rightarrow> step_spec list \<Rightarrow> play_state \<Rightarrow> turn list \<Rightarrow> next_call list" where
  "calls diag specs st [] = []"
| "calls diag specs st (turn # turns) =
     (case play_turn diag specs st turn of
        Inl _ \<Rightarrow> []
      | Inr st' \<Rightarrow> (case fst st' of Some c \<Rightarrow> [c] | None \<Rightarrow> []) @ calls diag specs st' turns)"

text \<open>What is to be undone, from the last step to the first.\<close>

definition rollback_plan :: "step_spec list \<Rightarrow> runner \<Rightarrow> action list" where
  "rollback_plan specs r = concat (map (undos_of r) (rev [0..<length specs]))"

definition pending :: "runner \<Rightarrow> action list" where
  "pending r =
     (case r_phase r of
        RollingBack remaining current _ \<Rightarrow>
          (case current of None \<Rightarrow> [] | Some u \<Rightarrow> un_doubtful u @ un_queue u)
          @ concat (map (undos_of r) (rev remaining))
      | _ \<Rightarrow> [])"

definition unwinding :: "runner \<Rightarrow> bool" where
  "unwinding r \<longleftrightarrow> r_after r = After_Close \<and>
     (case r_phase r of RollingBack _ _ _ \<Rightarrow> True | Closing \<Rightarrow> True | _ \<Rightarrow> False)"

section \<open>A rollback performs what is pending\<close>

definition unwinds :: "runner \<Rightarrow> round \<Rightarrow> bool" where
  "unwinds r x =
     (case x of
        Inl _ \<Rightarrow> True
      | Inr (nx, r', t', inp') \<Rightarrow>
          (case nx of
             None \<Rightarrow> unwinding r' \<and> pending r' = pending r
           | Some (Next_Perform a) \<Rightarrow> unwinding r' \<and> pending r = a # pending r'
           | Some (Next_Observe _) \<Rightarrow> False
           | Some Next_Finished \<Rightarrow> pending r = [] \<and> r_phase r' = Closed))"

lemma unwinds_simps [simp]:
  "unwinds r (Inl e)" "unwinds r (again inp r' t) \<longleftrightarrow> unwinding r' \<and> pending r' = pending r"
  "unwinds r (call (Inr (Next_Finished, r', t))) \<longleftrightarrow> pending r = [] \<and> r_phase r' = Closed"
  by (simp_all add: unwinds_def again_def call_def)

lemma pending_simps [simp]:
  "pending (r\<lparr>r_acting := x1\<rparr>) = pending r" "pending (r\<lparr>r_performed := x2\<rparr>) = pending r"
  "unwinding (r\<lparr>r_acting := x1\<rparr>) = unwinding r" "unwinding (r\<lparr>r_performed := x2\<rparr>) = unwinding r"
  by (simp_all add: pending_def unwinding_def split: phase.split)

lemma unwinds_act [simp]:
  "unwinding r' \<Longrightarrow> pending r = a # pending r' \<Longrightarrow> unwinds r (call (act r' t q a))"
  by (cases "act r' t q a") (auto simp: act_def Let_def unwinds_def call_def split: prod.splits)

lemma unwinds_and_then:
  "(\<And>y. x = Inr y \<Longrightarrow> unwinds r (f y)) \<Longrightarrow> unwinds r (and_then x f)"
  by (cases x) simp_all

lemma acted_unwinds:
  "(\<And>t1. unwinds r (f (r'\<lparr>r_acting := None\<rparr>, t1))) \<Longrightarrow> unwinds r (and_then (acted diag r' t oc cause) f)"
  by (cases "acted diag r' t oc cause") (auto dest!: acted_runner)

lemma rolled_unwinds:
  assumes p: "r_phase r = RollingBack remaining None aw" "distinct remaining" "r_after r = After_Close"
  shows "unwinds r (round_rolled specs inp r t remaining)"
proof (cases "remaining = []")
  case True
  with p show ?thesis by (simp add: round_rolled_def Let_def unwinding_def pending_def)
next
  case False
  define s where "s = last remaining"
  have rem: "remaining = butlast remaining @ [s]" using False by (simp add: s_def)
  let ?r0 = "r\<lparr>r_journal := (r_journal r)[s := []], r_doubts := filter (\<lambda>d. fst d \<noteq> s) (r_doubts r)\<rparr>"
  have "undos_of ?r0 j = undos_of r j" if "j \<in> set (butlast remaining)" for j
  proof (rule undos_of_cleared)
    from that p(2) rem show "j \<noteq> s" by (metis distinct_butlast not_distinct_conv_prefix)
  qed
  then have others: "concat (map (undos_of ?r0) (rev (butlast remaining))) = concat (map (undos_of r) (rev (butlast remaining)))"
    by (intro arg_cong [where f = concat]) simp
  have step: "unwinding (?r0\<lparr>r_phase := RollingBack (butlast remaining) (Some
        \<lparr>un_step = s, un_node = node,
         un_doubtful = concat (map (\<lambda>d. rollback_order [snd d]) (filter (\<lambda>d. fst d = s) (r_doubts r))),
         un_queue = rollback_order (r_journal r ! s), un_doubting = False, un_failed = False\<rparr>) False\<rparr>) \<and>
      pending (?r0\<lparr>r_phase := RollingBack (butlast remaining) (Some
        \<lparr>un_step = s, un_node = node,
         un_doubtful = concat (map (\<lambda>d. rollback_order [snd d]) (filter (\<lambda>d. fst d = s) (r_doubts r))),
         un_queue = rollback_order (r_journal r ! s), un_doubting = False, un_failed = False\<rparr>) False\<rparr>) = pending r" for node
  proof -
    have "pending r = undos_of r s @ concat (map (undos_of r) (rev (butlast remaining)))"
      using p(1) by (simp add: pending_def) (subst rem, simp)
    with others p(3) show ?thesis by (simp add: pending_def unwinding_def undos_of_def [of r s])
  qed
  from False step [unfolded s_def] show ?thesis
    by (auto simp: round_rolled_def Let_def intro!: unwinds_and_then split: option.split)
qed

lemma one_round_unwinds:
  assumes p: "phase_ok specs r t" and u: "unwinding r"
  shows "unwinds r (one_round diag specs inp r t)"
proof (cases "r_phase r")
  case (RollingBack remaining current aw)
  from u have after: "r_after r = After_Close" by (simp add: unwinding_def)
  from p RollingBack have d: "distinct remaining" by (simp add: phase_ok_def Let_def)
  show ?thesis
  proof (cases current)
    case None
    with rolled_unwinds [OF _ d after] RollingBack show ?thesis by (simp add: one_round_def)
  next
    case (Some un)
    note ph = RollingBack Some
    have undo: "unwinds r (round_undo diag specs inp r t remaining un)"
      using ph after by (auto simp: round_undo_def unwinding_def pending_def intro!: unwinds_and_then unwinds_act split: list.split)
    have undone: "unwinds r (round_undone diag specs inp r t remaining un)"
      using ph after
      by (auto simp: round_undone_def unwinding_def pending_def intro!: acted_unwinds split: option.split input.split sum.split)
    from ph undo undone show ?thesis by (cases aw) (simp_all add: one_round_def)
  qed
next
  case Closing
  then show ?thesis by (auto simp: one_round_def round_closing_def Let_def pending_def intro!: unwinds_and_then)
qed (use u in \<open>simp_all add: unwinding_def\<close>)

lemma run_loop_unwinds:
  "phase_ok specs r t \<Longrightarrow> keys_ok specs \<Longrightarrow> input_fits r inp \<Longrightarrow> unwinding r \<Longrightarrow>
    run_loop diag specs inp r t = Inr (nx, r', t') \<Longrightarrow>
    (case pending r of
       [] \<Rightarrow> nx = Next_Finished \<and> r_phase r' = Closed
     | a # rest \<Rightarrow> nx = Next_Perform a \<and> unwinding r' \<and> pending r' = rest)"
proof (induction diag specs inp r t rule: run_loop.induct)
  case (1 diag specs inp r t)
  note u = one_round_unwinds [OF "1.prems"(1,4), of diag inp]
  note ok = one_round_ok [OF "1.prems"(1-3), of diag]
  show ?case
  proof (cases "one_round diag specs inp r t")
    case (Inl e)
    with ok show ?thesis by (simp add: round_ok_def)
  next
    case (Inr y)
    obtain c r1 t1 inp1 where y: "y = (c, r1, t1, inp1)" by (cases y)
    show ?thesis
    proof (cases c)
      case (Some nx1)
      with "1.prems"(5) Inr y have "nx = nx1" "r' = r1" by (simp_all add: run_loop.simps [of diag specs inp r t])
      with u Inr y Some show ?thesis by (cases nx1) (simp_all add: unwinds_def)
    next
      case None
      with ok Inr y have ok1: "phase_ok specs r1 t1" "input_fits r1 inp1" by (simp_all add: round_ok_def)
      from u Inr y None have u1: "unwinding r1" "pending r1 = pending r" by (simp_all add: unwinds_def)
      from "1.prems"(5) Inr y None have l: "run_loop diag specs inp1 r1 t1 = Inr (nx, r', t')"
        by (simp add: run_loop.simps [of diag specs inp r t])
      from "1.IH" [OF Inr y [symmetric] None refl refl ok1(1) "1.prems"(2) ok1(2) u1(1) l] u1(2)
      show ?thesis by simp
    qed
  qed
qed

lemma tells_unwinding:
  "unwinding r \<Longrightarrow> unwinding (fst (tells xs (r, t))) \<and> pending (fst (tells xs (r, t))) = pending r"
proof (induction xs arbitrary: r t)
  case (Cons x xs)
  have "unwinding (fst (tell x (r, t))) \<and> pending (fst (tell x (r, t))) = pending r"
    using Cons.prems
    by (cases x; cases "r_phase r") (simp_all add: tell_def in_doubt_def stop_runner_def unwinding_def pending_def)
  moreover obtain r1 t1 where "tell x (r, t) = (r1, t1)" by (cases "tell x (r, t)")
  ultimately show ?case using Cons.IH [of r1 t1] by (simp add: tells_def)
qed (simp add: tells_def)

lemma calls_closed:
  "play_ok specs (Some Next_Finished, r, t) \<Longrightarrow> keys_ok specs \<Longrightarrow> list_all turn_ok turns \<Longrightarrow>
    calls diag specs (Some Next_Finished, r, t) turns = replicate (length turns) Next_Finished"
proof (induction turns arbitrary: r t)
  case (Cons turn turns)
  from Cons.prems(1) have p: "phase_ok specs r t" "r_phase r = Closed" by (simp_all add: play_ok_def awaits_def)
  from Cons.prems(3) have turn: "turn_ok turn" "list_all turn_ok turns" by simp_all
  from tells_phase_ok [OF p(1) turn(1) [unfolded turn_ok_def]] obtain r1 t1 where
    t1: "tells (tn_tells turn) (r, t) = (r1, t1)" "phase_ok specs r1 t1" "r_phase r1 = r_phase r" by blast
  have "one_round diag specs None r1 t1 = call (Inr (Next_Finished, r1, t1))" using p(2) t1(3) by (simp add: one_round_def)
  then have "play_turn diag specs (Some Next_Finished, r, t) turn = Inr (Some Next_Finished, r1, t1)"
    using t1(1) by (simp add: play_turn_def runner_step_def answer_def run_loop.simps [of diag specs None r1 t1] call_def)
  moreover have "play_ok specs (Some Next_Finished, r1, t1)" using t1 p(2) by (simp add: play_ok_def awaits_def)
  ultimately show ?case using Cons.IH Cons.prems(2,3) by simp
qed simp

lemma take_pad: "n \<le> m \<Longrightarrow> take n (xs @ replicate m y) = take n xs @ replicate (n - length xs) y"
  by (auto simp: min_def)

lemma calls_unwinding:
  "play_ok specs (Some (Next_Perform a), r, t) \<Longrightarrow> keys_ok specs \<Longrightarrow> list_all turn_ok turns \<Longrightarrow> unwinding r \<Longrightarrow>
    calls diag specs (Some (Next_Perform a), r, t) turns
      = take (length turns) (map Next_Perform (pending r) @ replicate (length turns) Next_Finished)"
proof (induction turns arbitrary: a r t)
  case (Cons turn turns)
  from Cons.prems(1) have p: "phase_ok specs r t" "awaits r (Next_Perform a)" by (simp_all add: play_ok_def)
  from Cons.prems(3) have turn: "turn_ok turn" "list_all turn_ok turns" by simp_all
  from tells_phase_ok [OF p(1) turn(1) [unfolded turn_ok_def]] obtain r1 t1 where
    t1: "tells (tn_tells turn) (r, t) = (r1, t1)" "phase_ok specs r1 t1" "r_phase r1 = r_phase r" by blast
  from tells_unwinding [OF Cons.prems(4), of "tn_tells turn" t] t1(1) have u1: "unwinding r1" "pending r1 = pending r"
    by simp_all
  from answer_fits [OF p(2), of turn] input_fits_phase [OF t1(3)]
  have fits: "input_fits r1 (answer (Some (Next_Perform a)) turn)" by simp
  from run_loop_ok [OF t1(2) Cons.prems(2) fits, of diag] obtain nx r' t' where
    l: "run_loop diag specs (answer (Some (Next_Perform a)) turn) r1 t1 = Inr (nx, r', t')"
    "phase_ok specs r' t'" "awaits r' nx" by blast
  from l t1(1) have pl: "play_turn diag specs (Some (Next_Perform a), r, t) turn = Inr (Some nx, r', t')"
    "play_ok specs (Some nx, r', t')"
    by (simp_all add: play_turn_def runner_step_def play_ok_def)
  note un = run_loop_unwinds [OF t1(2) Cons.prems(2) fits u1(1) l(1), unfolded u1(2)]
  show ?case
  proof (cases "pending r")
    case Nil
    with un pl calls_closed [of specs r' t' turns diag] Cons.prems(2) turn(2) show ?thesis by simp
  next
    case (Cons b rest)
    with un have nx: "nx = Next_Perform b" "unwinding r'" "pending r' = rest" by simp_all
    from Cons.IH [of b r' t'] pl(2) nx Cons.prems(2) turn(2)
    have "calls diag specs (Some nx, r', t') turns
      = take (length turns) (map Next_Perform rest @ replicate (length turns) Next_Finished)" by simp
    with pl(1) nx(1) Cons show ?thesis by (simp add: take_pad del: replicate_Suc take_append)
  qed
qed simp

section \<open>Verdicts\<close>

text \<open>
  A run that is not independent commits only when nothing failed, and rolls back only when
  something did; what it reports says so.
\<close>

definition honest :: "runner \<Rightarrow> bool" where
  "honest r \<longleftrightarrow> \<not> r_independent r \<and> r_after r = After_Close \<and>
     (case r_phase r of
        RollingBack _ _ _ \<Rightarrow> r_verdict r \<noteq> None \<and> r_verdict r \<noteq> Some Verdict_Succeeded
      | Committing_Phase _ _ \<Rightarrow> r_verdict r = Some Verdict_Succeeded \<and> rep_rollback_failures (r_report r) = []
      | Closing \<Rightarrow>
          rep_rollback_failures (r_report r) \<noteq> [] \<longrightarrow> r_verdict r \<noteq> None \<and> r_verdict r \<noteq> Some Verdict_Succeeded
      | Closed \<Rightarrow> rep_rollback_failures (r_report r) \<noteq> [] \<longrightarrow> rep_verdict (r_report r) \<noteq> Verdict_Succeeded
      | _ \<Rightarrow> r_verdict r = None \<and> rep_rollback_failures (r_report r) = [])"

definition honestly :: "round \<Rightarrow> bool" where
  "honestly x = (case x of Inl _ \<Rightarrow> True | Inr (nx, r', t', inp') \<Rightarrow> honest r')"

lemma honestly_simps [simp]:
  "honestly (Inl e)" "honestly (again inp r t) = honest r" "honestly (call (Inr (c, r, t))) = honest r"
  by (simp_all add: honestly_def again_def call_def)

lemma honest_simps [simp]:
  "honest (r\<lparr>r_acting := x1\<rparr>) = honest r" "honest (r\<lparr>r_performed := x2\<rparr>) = honest r"
  by (simp_all add: honest_def split: phase.split)

lemma honestly_act [simp]: "honest r \<Longrightarrow> honestly (call (act r t q a))"
  by (cases "act r t q a") (auto simp: act_def Let_def honestly_def call_def split: prod.splits)

lemma honestly_and_then: "(\<And>y. x = Inr y \<Longrightarrow> honestly (f y)) \<Longrightarrow> honestly (and_then x f)"
  by (cases x) simp_all

lemma honestly_acted:
  "(\<And>t1. honestly (f (r'\<lparr>r_acting := None\<rparr>, t1))) \<Longrightarrow> honestly (and_then (acted diag r' t oc cause) f)"
  by (cases "acted diag r' t oc cause") (auto dest!: acted_runner)

lemma honest_cancel: "\<not> r_independent r \<Longrightarrow> r_after r = After_Close \<Longrightarrow> honest (cancel specs r cause current)"
  by (simp add: cancel_def roll_back_def honest_def Let_def)

lemma honest_fail:
  "\<not> r_independent r \<Longrightarrow> r_after r = After_Close \<Longrightarrow> honest (fail_step specs r step failure)"
  by (simp add: fail_step_def roll_back_def honest_def Let_def)

lemma record_report [simp]:
  "rep_rollback_failures (r_report (record_outcome specs r step oc)) = rep_rollback_failures (r_report r)"
  "r_report (caused specs r step c) = r_report r"
  by (simp_all add: record_outcome_def caused_def Let_def)

lemma one_round_honest:
  assumes h: "honest r"
  shows "honestly (one_round diag specs inp r t)"
proof (cases "r_phase r")
  case Opening
  with h show ?thesis
    by (auto simp: one_round_def round_opening_def honest_def intro!: honestly_and_then)
next
  case (Checking step asked)
  with h have r: "\<not> r_independent r" "r_after r = After_Close" "r_verdict r = None" "rep_rollback_failures (r_report r) = []"
    by (simp_all add: honest_def)
  have f: "honest (finish_or_commit (r\<lparr>r_verdict := get_or_insert (r_verdict r) Verdict_Succeeded\<rparr>))"
    using r by (simp add: finish_or_commit_def honest_def get_or_insert_def)
  have "honestly (round_check specs inp r t step)"
    using r f honest_cancel [OF r(1,2)]
    by (auto simp: round_check_def Let_def honest_def [of "_\<lparr>r_phase := _\<rparr>"] intro!: honestly_and_then split: option.split)
  moreover have "honestly (round_checked diag specs inp r t step)"
    using r honest_fail [of "r\<lparr>r_nodes := x\<rparr>" for x]
    by (auto simp: round_checked_def Let_def honest_def [of "_\<lparr>r_phase := _\<rparr>"] intro!: honestly_and_then
        split: option.split input.split sum.split)
  ultimately show ?thesis using Checking by (simp add: one_round_def)
next
  case (Executing step nd queue aw)
  with h have r: "\<not> r_independent r" "r_after r = After_Close" "r_verdict r = None" "rep_rollback_failures (r_report r) = []"
    by (simp_all add: honest_def)
  have c: "honest (cancel specs (record_outcome specs r step oc) cause current)" for oc cause current
    using honest_cancel [of "record_outcome specs r step oc"] r by simp
  have c': "honest (cancel specs (record_outcome specs (r\<lparr>r_acting := None, r_stop := x\<rparr>) step oc) cause current)"
    for oc x cause current
    using honest_cancel [of "record_outcome specs (r\<lparr>r_acting := None, r_stop := x\<rparr>) step oc"] r by simp
  have f: "honest (fail_step specs (r\<lparr>r_acting := None\<rparr>) step failure)" for failure
    using honest_fail [of "r\<lparr>r_acting := None\<rparr>"] r by simp
  have "honestly (round_execute specs inp r t step nd queue)"
    using r c
    by (auto simp: round_execute_def Let_def honest_def [of "_\<lparr>r_phase := _\<rparr>"] intro!: honestly_and_then honestly_act
        split: option.split list.split)
  moreover have "honestly (round_executed diag specs inp r t step nd queue)"
  proof (cases "\<exists>oc. inp = Some (Input_Done oc)")
    case True
    then obtain oc where oc: "inp = Some (Input_Done oc)" by blast
    have j: "honest (r\<lparr>r_acting := None, r_journal := x, r_phase := Executing step nd queue False\<rparr>)" for x
      using r by (simp add: honest_def)
    show ?thesis
      unfolding round_executed_def oc
      by (simp, intro impI honestly_acted)
        (use c' f j in \<open>auto simp: Let_def intro!: honestly_and_then split: sum.split failure.split\<close>)
  next
    case False
    then show ?thesis by (auto simp: round_executed_def split: option.split input.split)
  qed
  ultimately show ?thesis using Executing by (simp add: one_round_def)
next
  case (RollingBack remaining current aw)
  with h have r: "\<not> r_independent r" "r_after r = After_Close" "r_verdict r \<noteq> None" "r_verdict r \<noteq> Some Verdict_Succeeded"
    by (simp_all add: honest_def)
  then have h': "honest (r\<lparr>r_phase := RollingBack a b c\<rparr>)"
    "honest (r\<lparr>r_report := y, r_phase := RollingBack a b c\<rparr>)"
    "honest (r\<lparr>r_journal := j, r_doubts := d, r_phase := RollingBack a b c\<rparr>)"
    "honest (r\<lparr>r_acting := None, r_phase := RollingBack a b c\<rparr>)"
    "honest (r\<lparr>r_acting := None, r_report := y, r_phase := RollingBack a b c\<rparr>)" "honest (r\<lparr>r_after := After_Close, r_phase := Closing\<rparr>)"
    for a b c y j d by (simp_all add: honest_def)
  have "honestly (round_rolled specs inp r t remaining)"
    using r(2) h' by (auto simp: round_rolled_def Let_def intro!: honestly_and_then split: option.split)
  moreover have "honestly (round_undo diag specs inp r t remaining u)" for u
    using h' by (auto simp: round_undo_def intro!: honestly_and_then honestly_act split: list.split)
  moreover have "honestly (round_undone diag specs inp r t remaining u)" for u
    using h' by (auto simp: round_undone_def intro!: honestly_acted split: option.split input.split sum.split)
  ultimately show ?thesis using RollingBack by (simp add: one_round_def split: option.split)
next
  case (Committing_Phase aw reclaim)
  with h have r: "\<not> r_independent r" "r_after r = After_Close" "r_verdict r = Some Verdict_Succeeded"
    "rep_rollback_failures (r_report r) = []" by (simp_all add: honest_def)
  have "honestly (round_commit r t)"
    using r by (auto simp: round_commit_def honest_def [of "_\<lparr>r_phase := _\<rparr>"] intro!: honestly_and_then honestly_act)
  moreover have "honest ((committed_verdict (r\<lparr>r_acting := None\<rparr>) oc)\<lparr>r_phase := Closing\<rparr>)" for oc
    using r by (auto simp: committed_verdict_def honest_def Let_def split: sum.split failure.split)
  then have "honestly (round_committed diag inp r t reclaim)"
    by (auto simp: round_committed_def dest!: acted_runner intro!: honestly_and_then split: option.split input.split)
  ultimately show ?thesis using Committing_Phase by (simp add: one_round_def)
next
  case Closing
  with h have "honest (r\<lparr>r_verdict := None, r_report := (r_report r)\<lparr>rep_verdict :=
      (case r_verdict r of Some v \<Rightarrow> v | None \<Rightarrow> Verdict_Succeeded)\<rparr>, r_phase := Closed\<rparr>)"
    by (auto simp: honest_def split: option.split)
  with Closing show ?thesis
    by (auto simp: one_round_def round_closing_def Let_def intro!: honestly_and_then)
next
  case Closed
  with h show ?thesis by (simp add: one_round_def)
qed

lemma run_loop_honest: "honest r \<Longrightarrow> run_loop diag specs inp r t = Inr (nx, r', t') \<Longrightarrow> honest r'"
proof (induction diag specs inp r t rule: run_loop.induct)
  case (1 diag specs inp r t)
  note h = one_round_honest [OF "1.prems"(1), of diag specs inp t]
  show ?case
  proof (cases "one_round diag specs inp r t")
    case (Inl e)
    with "1.prems"(2) show ?thesis by (simp add: run_loop.simps [of diag specs inp r t])
  next
    case (Inr y)
    obtain c r1 t1 inp1 where y: "y = (c, r1, t1, inp1)" by (cases y)
    show ?thesis
    proof (cases c)
      case (Some nx1)
      with "1.prems"(2) Inr y h show ?thesis by (simp add: run_loop.simps [of diag specs inp r t] honestly_def)
    next
      case None
      from h Inr y have "honest r1" by (simp add: honestly_def)
      moreover from "1.prems"(2) Inr y None have "run_loop diag specs inp1 r1 t1 = Inr (nx, r', t')"
        by (simp add: run_loop.simps [of diag specs inp r t])
      ultimately show ?thesis by (rule "1.IH" [OF Inr y [symmetric] None refl refl])
    qed
  qed
qed

lemma tells_honest: "honest r \<Longrightarrow> honest (fst (tells xs (r, t)))"
proof (induction xs arbitrary: r t)
  case (Cons x xs)
  have "honest (fst (tell x (r, t)))"
    using Cons.prems by (cases x; cases "r_phase r") (simp_all add: tell_def in_doubt_def stop_runner_def honest_def)
  moreover obtain r1 t1 where "tell x (r, t) = (r1, t1)" by (cases "tell x (r, t)")
  ultimately show ?case using Cons.IH [of r1 t1] by (simp add: tells_def)
qed (simp add: tells_def)

lemma play_honest: "honest r \<Longrightarrow> play diag specs (c, r, t) turns = Inr (c', r', t') \<Longrightarrow> honest r'"
proof (induction turns arbitrary: c r t)
  case (Cons turn turns)
  obtain r1 t1 where t1: "tells (tn_tells turn) (r, t) = (r1, t1)" by (cases "tells (tn_tells turn) (r, t)")
  with tells_honest [OF Cons.prems(1), of "tn_tells turn" t] have "honest r1" by simp
  with Cons.prems(2) t1 run_loop_honest [of r1] Cons.IH show ?case
    by (fastforce simp: play_turn_def runner_step_def)
qed simp

end
