(* ===== verification/Runner_Properties.thy ===== *)
theory Runner_Properties
  imports Runner_Unwinds Stream_Properties
begin

text \<open>
  The properties of the runner: it never panics and its stream is accepted, every run ends, a
  failure undoes exactly what was done, and what is reported is true.
\<close>

definition fresh_runner :: "bool \<Rightarrow> nat \<Rightarrow> step_spec list \<Rightarrow> runner" where
  "fresh_runner alone p specs = (if alone then independent (runner_new p specs) else runner_new p specs)"

lemma fresh_play_ok:
  assumes "start_kind s = Kind_Command c" and "distinct (start_planned s)"
    and "calls_fit (tree_new s) cs" and "tree_calls (tree_new s) cs = Inr t"
    and "is_open t p" and "''plan'' \<notin> used t p"
  shows "play_ok specs (None, fresh_runner alone p specs, t)"
proof -
  from tracks_calls [OF tracks_new [OF assms(1,2)] assms(3)] assms(4) have "tree_tracks t" by simp
  from play_ok_new [OF this assms(5,6)] show ?thesis by (simp add: fresh_runner_def)
qed

section \<open>A sample run\<close>

text \<open>Two steps: the first enables and starts a unit, the second fails.\<close>

definition sample_spec :: "string \<Rightarrow> action list \<Rightarrow> nat list \<Rightarrow> step_spec" where
  "sample_spec key actions after =
     \<lparr>sp_key = key, sp_title = (Verb_Installing, key), sp_queries = [], sp_actions = (\<lambda>_. Inr actions),
      sp_shielded = False, sp_after = after, sp_within = (0, 0)\<rparr>"

definition sample_specs :: "step_spec list" where
  "sample_specs =
     [sample_spec ''units'' [EnableUnit ''a'', StartUnit ''a''] [],
      sample_spec ''reload'' [DaemonReload] [0]]"

definition sample_turn :: "outcome_of \<Rightarrow> turn" where
  "sample_turn oc = \<lparr>tn_facts = Inr [], tn_done = oc, tn_tells = []\<rparr>"

definition sample_turns :: "turn list" where
  "sample_turns =
     [sample_turn (Inr []), sample_turn (Inr []), sample_turn (Inr [DisableUnit ''a'']),
      sample_turn (Inr [StopUnit ''a'']), sample_turn (Inr [])]"

definition sample_diag :: "failure \<Rightarrow> diagnostic" where
  "sample_diag _ = default_diagnostic"

lemma sample_runner:
  "keys_ok sample_specs" "list_all turn_ok (sample_turns @ [sample_turn oc])"
  "calls_fit (tree_new sample_start) []" "tree_calls (tree_new sample_start) [] = Inr (tree_new sample_start)"
  "is_open (tree_new sample_start) ROOT" "''plan'' \<notin> used (tree_new sample_start) ROOT"
proof -
  show "keys_ok sample_specs"
    by (simp add: keys_ok_def sample_specs_def sample_spec_def)
  show "list_all turn_ok (sample_turns @ [sample_turn oc])"
    by (simp add: sample_turns_def sample_turn_def turn_ok_def)
  show "is_open (tree_new sample_start) ROOT" by code_simp
  show "''plan'' \<notin> used (tree_new sample_start) ROOT"
    by code_simp
qed simp_all

section \<open>Safety\<close>

text \<open>C3: Whatever a machine answers to a runner's queries and actions, whenever it is stopped and
  whatever its driver sends meanwhile, no call of the runner panics, and when the tree is dropped
  afterwards the validator accepts the stream.\<close>

theorem runner_never_panics:
  assumes "start_kind s = Kind_Command c" and "distinct (start_planned s)"
    and "calls_fit (tree_new s) cs" and "tree_calls (tree_new s) cs = Inr t"
    and "is_open t p" and "''plan'' \<notin> used t p" and "keys_ok specs" and "list_all turn_ok turns"
    and "stopped \<noteq> Some Cancellation_Unspecified"
  shows "\<exists>nx r' t' t''. play diag specs (None, fresh_runner alone p specs, t) turns = Inr (nx, r', t') \<and>
    tree_drop stopped t' = Inr t'' \<and> is_ok (validate (numbered 0 req (t_sent t'')))"
proof -
  note st = fresh_play_ok [OF assms(1-6)]
  from play_keeps_ok [OF st assms(7,8), of diag] obtain nx r' t' where
    p: "play diag specs (None, fresh_runner alone p specs, t) turns = Inr (nx, r', t')" "play_ok specs (nx, r', t')"
    by (metis surj_pair)
  from tracks_drop [OF play_ok_tracks [OF p(2)] assms(9)] obtain t'' where
    t'': "tree_drop stopped t' = Inr t''" "tree_tracks t''" "ROOT \<in> finished_ids (t_sent t'')" by blast
  with tree_tracksD(2) [OF t''(2)] p(1) show ?thesis by (auto simp: numbered_complete)
qed

theorem runner_never_panics_witness:
  "\<exists>nx r' t' t''. play sample_diag sample_specs (None, fresh_runner True ROOT sample_specs, tree_new sample_start)
      (sample_turns @ [sample_turn (Inl Cancelled)]) = Inr (nx, r', t') \<and>
    tree_drop None t' = Inr t'' \<and> is_ok (validate (numbered 0 ''r'' (t_sent t'')))"
  by (rule runner_never_panics [OF sample_start_simps(1,2) sample_runner(3,4,5,6,1,2)]) simp

text \<open>C9: Every run ends: however the queries and actions are answered, the runner says that it has
  finished after finitely many turns.\<close>

theorem every_run_ends:
  assumes "start_kind s = Kind_Command c" and "distinct (start_planned s)"
    and "calls_fit (tree_new s) cs" and "tree_calls (tree_new s) cs = Inr t"
    and "is_open t p" and "''plan'' \<notin> used t p" and "keys_ok specs" and "\<And>i. turn_ok (turns i)"
  shows "\<exists>n r' t'. play diag specs (None, fresh_runner alone p specs, t) (map turns [0..<n])
    = Inr (Some Next_Finished, r', t')"
  by (rule play_ends [OF assms(7) fresh_play_ok [OF assms(1-6)] assms(8)])

theorem every_run_ends_witness:
  "\<exists>n r' t'. play sample_diag sample_specs (None, fresh_runner False ROOT sample_specs, tree_new sample_start)
     (map (\<lambda>i. sample_turn (if even i then Inr [DaemonReload] else Inl Cancelled)) [0..<n])
    = Inr (Some Next_Finished, r', t')"
  by (rule every_run_ends [OF sample_start_simps(1,2) sample_runner(3,4,5,6,1)])
    (simp add: sample_turn_def turn_ok_def)

section \<open>Rollback\<close>

lemma undos_of_disowned: "\<not> owns r j \<Longrightarrow> undos_of r j = []"
  by (auto simp: undos_of_def owns_def rollback_order_def filter_empty_conv)

lemma concat_map_filter: "(\<And>x. \<not> P x \<Longrightarrow> f x = []) \<Longrightarrow> concat (map f (filter P xs)) = concat (map f xs)"
  by (induction xs) auto

lemma roll_back_unwinds:
  assumes "r_after r = After_Close"
  shows "unwinding (roll_back specs r) \<and> pending (roll_back specs r) = rollback_plan specs r"
  using assms concat_map_filter [of "owns r" "undos_of r" "rev [0..<length specs]"] undos_of_disowned [of r]
  by (simp add: roll_back_def unwinding_def pending_def rollback_plan_def rev_filter)

lemma rollback_plan_simps [simp]:
  "rollback_plan specs (r\<lparr>r_verdict := x1\<rparr>) = rollback_plan specs r"
  "rollback_plan specs (r\<lparr>r_acting := x2\<rparr>) = rollback_plan specs r"
  "rollback_plan specs (r\<lparr>r_stop := x3\<rparr>) = rollback_plan specs r"
  "rollback_plan specs (record_outcome specs' r step oc) = rollback_plan specs r"
  "rollback_plan specs (caused specs' r step c) = rollback_plan specs r"
  by (simp_all add: rollback_plan_def record_outcome_def caused_def Let_def)

lemma cancel_unwinds:
  "r_after r = After_Close \<Longrightarrow> \<not> r_independent r \<Longrightarrow>
    unwinding (cancel specs r cause current) \<and> pending (cancel specs r cause current) = rollback_plan specs r"
  using roll_back_unwinds [of "r\<lparr>r_verdict := Some (Verdict_Cancelled cause)\<rparr>" specs] by (simp add: cancel_def Let_def)

lemma fail_unwinds:
  "r_after r = After_Close \<Longrightarrow> \<not> r_independent r \<Longrightarrow>
    unwinding (fail_step specs r step failure) \<and> pending (fail_step specs r step failure) = rollback_plan specs r"
  using roll_back_unwinds [of "(record_outcome specs (caused specs r step step) step (Step_Failed failure))
    \<lparr>r_verdict := Some (Verdict_Failed (sp_key (specs ! step)) failure)\<rparr>" specs]
  by (simp add: fail_step_def Let_def)

lemma executed_failure:
  assumes r: "r_after r = After_Close" "\<not> r_independent r"
    and x: "round_executed diag specs (Some (Input_Done (Inl failure))) r t step nd queue = Inr (c, r', t', inp')"
  shows "c = None \<and> inp' = None \<and> unwinding r' \<and> pending r' = rollback_plan specs r"
proof -
  have f: "unwinding (fail_step specs (r\<lparr>r_acting := None\<rparr>) step failure)"
    "pending (fail_step specs (r\<lparr>r_acting := None\<rparr>) step failure) = rollback_plan specs r"
    using fail_unwinds [of "r\<lparr>r_acting := None\<rparr>" specs step failure] r by simp_all
  have k: "unwinding (cancel specs (record_outcome specs (r\<lparr>r_acting := None, r_stop := y\<rparr>) step oc) cause current)"
    "pending (cancel specs (record_outcome specs (r\<lparr>r_acting := None, r_stop := y\<rparr>) step oc) cause current) = rollback_plan specs r"
    for y oc cause current
    using cancel_unwinds [of "record_outcome specs (r\<lparr>r_acting := None, r_stop := y\<rparr>) step oc" specs cause current] r
    by simp_all
  show ?thesis
  proof (cases "failure = Cancelled")
    case True
    with x k show ?thesis
      by (auto simp: round_executed_def Let_def again_def dest!: acted_runner split: if_splits)
  next
    case False
    with x f show ?thesis
      by (cases failure) (auto simp: round_executed_def Let_def again_def dest!: acted_runner split: if_splits)
  qed
qed

text \<open>C4: When an action fails, in a run that is not independent, the calls that follow are exactly
  the undos of what the run has done: the steps from the last to the first, of each step first what
  was announced and is in doubt and then what was recorded, in rollback order; each is called once,
  whatever it answers, and then the run is finished.\<close>

theorem failure_undoes_everything:
  assumes "start_kind s = Kind_Command c" and "distinct (start_planned s)"
    and "calls_fit (tree_new s) cs" and "tree_calls (tree_new s) cs = Inr t0"
    and "is_open t0 p" and "''plan'' \<notin> used t0 p" and "keys_ok specs" and "list_all turn_ok before"
    and reached: "play diag specs (None, runner_new p specs, t0) before = Inr (Some (Next_Perform a), r, t)"
    and executing: "r_phase r = Executing step nd queue True"
    and failed: "tn_done turn = Inl failure" and "list_all turn_ok (turn # turns)"
  shows "calls diag specs (Some (Next_Perform a), r, t) (turn # turns)
    = take (Suc (length turns))
        (map Next_Perform (rollback_plan specs (fst (tells (tn_tells turn) (r, t))))
         @ replicate (Suc (length turns)) Next_Finished)"
proof -
  have fresh: "fresh_runner False p specs = runner_new p specs" by (simp add: fresh_runner_def)
  from play_keeps_ok [OF fresh_play_ok [OF assms(1-6), of specs False] assms(7,8), of diag] reached
  have ok: "play_ok specs (Some (Next_Perform a), r, t)" by (auto simp: fresh)
  then have p: "phase_ok specs r t" "awaits r (Next_Perform a)" by (simp_all add: play_ok_def)
  have "honest (runner_new p specs)" by (simp add: honest_def runner_new_def)
  from play_honest [OF this reached] have h: "honest r" .
  from assms(12) have turn: "turn_ok turn" "list_all turn_ok turns" by simp_all
  from tells_phase_ok [OF p(1) turn(1) [unfolded turn_ok_def]] obtain r1 t1 where
    t1: "tells (tn_tells turn) (r, t) = (r1, t1)" "phase_ok specs r1 t1" "r_phase r1 = r_phase r" by blast
  from tells_honest [OF h, of "tn_tells turn" t] t1(1) have r1: "r_after r1 = After_Close" "\<not> r_independent r1"
    by (simp_all add: honest_def)
  let ?inp = "Some (Input_Done (Inl failure))"
  have ans: "answer (Some (Next_Perform a)) turn = ?inp" by (simp add: answer_def failed)
  from answer_fits [OF p(2), of turn] input_fits_phase [OF t1(3)] ans have fits: "input_fits r1 ?inp" by simp
  have round: "one_round diag specs ?inp r1 t1 = round_executed diag specs ?inp r1 t1 step nd queue"
    using executing t1(3) by (simp add: one_round_def)
  from one_round_ok [OF t1(2) assms(7) fits, of diag] obtain k r2 t2 inp2 where
    x: "one_round diag specs ?inp r1 t1 = Inr (k, r2, t2, inp2)" and ok2: "round_ok specs (Inr (k, r2, t2, inp2))"
    by (cases "one_round diag specs ?inp r1 t1") (auto simp: round_ok_def)
  from executed_failure [OF r1 x [unfolded round]] have
    u: "k = None" "inp2 = None" "unwinding r2" "pending r2 = rollback_plan specs r1" by simp_all
  with ok2 have ok2: "phase_ok specs r2 t2" "input_fits r2 None" by (simp_all add: round_ok_def)
  have loop: "run_loop diag specs ?inp r1 t1 = run_loop diag specs None r2 t2"
    using x u by (simp add: run_loop.simps [of diag specs ?inp r1 t1])
  from run_loop_ok [OF ok2(1) assms(7) ok2(2), of diag] obtain nx r' t' where
    l: "run_loop diag specs None r2 t2 = Inr (nx, r', t')" "phase_ok specs r' t'" "awaits r' nx" by blast
  have pl: "play_turn diag specs (Some (Next_Perform a), r, t) turn = Inr (Some nx, r', t')"
    using t1(1) ans loop l(1) by (simp add: play_turn_def runner_step_def)
  have plok: "play_ok specs (Some nx, r', t')" using l(2,3) by (simp add: play_ok_def)
  note un = run_loop_unwinds [OF ok2(1) assms(7) ok2(2) u(3) l(1), unfolded u(4)]
  have fst: "fst (tells (tn_tells turn) (r, t)) = r1" by (simp add: t1(1))
  show ?thesis
  proof (cases "rollback_plan specs r1")
    case Nil
    with un plok have "calls diag specs (Some nx, r', t') turns = replicate (length turns) Next_Finished"
      by (simp add: calls_closed [OF _ assms(7) turn(2)])
    with pl un Nil fst show ?thesis by simp
  next
    case (Cons b rest)
    with un have nx: "nx = Next_Perform b" "unwinding r'" "pending r' = rest" by simp_all
    from calls_unwinding [OF _ assms(7) turn(2) nx(2)] plok nx
    have "calls diag specs (Some nx, r', t') turns
      = take (length turns) (map Next_Perform rest @ replicate (length turns) Next_Finished)" by simp
    with pl nx(1) Cons fst show ?thesis by (simp add: take_pad del: replicate_Suc take_append)
  qed
qed

text \<open>The state of the sample run when the second step's action is performed.\<close>

definition sample_play :: "nat \<Rightarrow> run_error + play_state" where
  "sample_play n = play sample_diag sample_specs (None, runner_new ROOT sample_specs, tree_new sample_start)
     (take n sample_turns)"

lemma sample_reached:
  "\<exists>r t. sample_play 5 = Inr (Some (Next_Perform DaemonReload), r, t) \<and>
     (\<exists>nd. r_phase r = Executing 1 nd [] True) \<and>
     rollback_plan sample_specs r = [StopUnit ''a'', DisableUnit ''a'']"
proof -
  have "case sample_play 5 of Inl _ \<Rightarrow> False | Inr (nx, r, t) \<Rightarrow> nx = Some (Next_Perform DaemonReload) \<and>
      (case r_phase r of Executing step nd queue aw \<Rightarrow> step = 1 \<and> queue = [] \<and> aw | _ \<Rightarrow> False) \<and>
      rollback_plan sample_specs r = [StopUnit ''a'', DisableUnit ''a'']"
    by code_simp
  then obtain r t where s: "sample_play 5 = Inr (Some (Next_Perform DaemonReload), r, t)"
    "case r_phase r of Executing step nd queue aw \<Rightarrow> step = 1 \<and> queue = [] \<and> aw | _ \<Rightarrow> False"
    "rollback_plan sample_specs r = [StopUnit ''a'', DisableUnit ''a'']"
    by (auto split: sum.splits)
  from s(2) have "\<exists>nd. r_phase r = Executing 1 nd [] True" by (cases "r_phase r") simp_all
  with s(1,3) show ?thesis by blast
qed

theorem failure_undoes_everything_witness:
  "\<exists>r t. sample_play 5 = Inr (Some (Next_Perform DaemonReload), r, t) \<and>
     calls sample_diag sample_specs (Some (Next_Perform DaemonReload), r, t)
       [sample_turn (Inl SystemdUnreachable), sample_turn (Inl SystemdUnreachable), sample_turn (Inr [])]
     = [Next_Perform (StopUnit ''a''), Next_Perform (DisableUnit ''a''), Next_Finished]"
proof -
  from sample_reached obtain r t nd where s: "sample_play 5 = Inr (Some (Next_Perform DaemonReload), r, t)"
    "r_phase r = Executing 1 nd [] True" "rollback_plan sample_specs r = [StopUnit ''a'', DisableUnit ''a'']" by blast
  let ?turn = "sample_turn (Inl SystemdUnreachable)"
  have t: "list_all turn_ok sample_turns" using sample_runner(2) by simp
  have p: "play sample_diag sample_specs (None, runner_new ROOT sample_specs, tree_new sample_start) sample_turns
    = Inr (Some (Next_Perform DaemonReload), r, t)"
    using s(1) by (simp add: sample_play_def sample_turns_def)
  have "tn_done ?turn = Inl SystemdUnreachable" "list_all turn_ok (?turn # [?turn, sample_turn (Inr [])])"
    by (simp_all add: sample_turn_def turn_ok_def)
  from failure_undoes_everything [OF sample_start_simps(1,2) sample_runner(3-6,1) t p s(2) this] s(1,3)
  show ?thesis by (simp add: sample_turn_def tells_def numeral_eq_Suc)
qed



end
