(* ===== verification/Precondition.thy ===== *)
theory Precondition
  imports Effects
begin

text \<open>
  What has to hold on a machine before an action may begin (\<open>crates/core/src/effect/precondition\<close>),
  for files (\<open>mod.rs\<close>) and for accounts (\<open>accounts.rs\<close>). The traits \<open>Ground\<close> and \<open>Accounts\<close>
  are records of functions. The handles that a ground may hand out keep directories open and play
  no part in the decision; they are left out.
\<close>

section \<open>Files\<close>

record node =
  nd_kind :: path_kind
  nd_id :: file_id
  nd_mode :: u32
  nd_owner :: owner

datatype spot = Spot_Blocked failure | Spot_Missing | Spot_Present node

record ground =
  g_spot :: "path \<Rightarrow> spot"
  g_running :: "path \<Rightarrow> owner"

datatype clearance = Clear_Go | Clear_Done | Clear_Below path

definition path_conflict :: "path \<Rightarrow> string \<Rightarrow> string \<Rightarrow> failure" where
  "path_conflict p expected found = Conflict (path_display p) expected found"

definition not_found :: "path \<Rightarrow> failure" where
  "not_found p = Io p ''NotFound''"

definition gone :: "failure \<Rightarrow> bool" where
  "gone f = (case f of Io _ kind \<Rightarrow> kind = ''NotFound'' | _ \<Rightarrow> False)"

definition unreached :: "spot \<Rightarrow> bool" where
  "unreached s = (case s of Spot_Missing \<Rightarrow> True | Spot_Blocked f \<Rightarrow> gone f | Spot_Present _ \<Rightarrow> False)"

definition absent :: "path \<Rightarrow> spot \<Rightarrow> failure + unit" where
  "absent p s =
     (case s of
        Spot_Blocked f \<Rightarrow> Inl f
      | Spot_Missing \<Rightarrow> Inr ()
      | Spot_Present _ \<Rightarrow> Inl (path_conflict p ''nothing'' ''something already there''))"

definition holding :: "path \<Rightarrow> file_id \<Rightarrow> spot \<Rightarrow> failure + node" where
  "holding p expect s =
     (case s of
        Spot_Present nd \<Rightarrow>
          if nd_id nd = expect then Inr nd
          else Inl (path_conflict p (show_file_id expect) (show_file_id (nd_id nd)))
      | Spot_Blocked f \<Rightarrow>
          if gone f then Inl (path_conflict p (show_file_id expect) ''nothing'') else Inl f
      | Spot_Missing \<Rightarrow> Inl (path_conflict p (show_file_id expect) ''nothing''))"

definition node_at :: "path \<Rightarrow> spot \<Rightarrow> failure + node" where
  "node_at p s =
     (case s of
        Spot_Blocked f \<Rightarrow> Inl f
      | Spot_Missing \<Rightarrow> Inl (not_found p)
      | Spot_Present nd \<Rightarrow>
          if nd_kind nd = PathKind_Symlink
          then Inl (path_conflict p ''no symbolic link'' ''a symbolic link'') else Inr nd)"

definition source_at :: "path \<Rightarrow> spot \<Rightarrow> failure + unit" where
  "source_at p s =
     (case s of
        Spot_Blocked f \<Rightarrow> Inl f
      | Spot_Missing \<Rightarrow> Inl (not_found p)
      | Spot_Present _ \<Rightarrow> Inr ())"

definition running_as :: "ground \<Rightarrow> path \<Rightarrow> owner \<Rightarrow> failure + unit" where
  "running_as g p owner =
     (if g_running g p = owner then Inr ()
      else Inl (path_conflict p (''a copy made as '' @ show_ids owner)
        (''a process running as '' @ show_ids (g_running g p))))"

fun climb :: "ground \<Rightarrow> path \<Rightarrow> path" where
  "climb g p =
     (if p \<noteq> [] \<and> butlast p \<noteq> [] \<and> unreached (g_spot g (butlast p)) then climb g (butlast p) else p)"

declare climb.simps [simp del]

definition created_below :: "ground \<Rightarrow> path \<Rightarrow> failure + clearance" where
  "created_below g p =
     (let below = and_then (absent (climb g p) (g_spot g (climb g p))) (\<lambda>_. Inr (Clear_Below (climb g p)))
      in case g_spot g p of
        Spot_Present nd \<Rightarrow>
          if nd_kind nd = PathKind_Directory then Inr Clear_Done
          else Inl (path_conflict p ''a directory'' ''something else'')
      | Spot_Blocked f \<Rightarrow> if gone f then below else Inl f
      | Spot_Missing \<Rightarrow> below)"

definition removable :: "path \<Rightarrow> file_id \<Rightarrow> spot \<Rightarrow> failure + clearance" where
  "removable p expect s =
     (if unreached s then Inr Clear_Done else and_then (holding p expect s) (\<lambda>_. Inr Clear_Go))"

definition expecting :: "path \<Rightarrow> expect \<Rightarrow> spot \<Rightarrow> failure + unit" where
  "expecting p e s =
     (case e of
        Expect_Absent \<Rightarrow> absent p s
      | Expect_Present fid \<Rightarrow> and_then (holding p fid s) (\<lambda>_. Inr ()))"

definition restorable :: "ground \<Rightarrow> path \<Rightarrow> path \<Rightarrow> expect \<Rightarrow> failure + unit" where
  "restorable g p from e =
     (case g_spot g p of
        Spot_Blocked f \<Rightarrow> Inl f
      | s \<Rightarrow>
          if path_parent from \<noteq> path_parent p
          then Inl (path_conflict from ''a sibling of the restored path'' ''another directory'')
          else if file_name from = None then Inl (path_conflict from ''a file name'' ''none'')
          else and_then (source_at from (g_spot g from)) (\<lambda>_. expecting p e s))"

definition and_go :: "failure + 'a \<Rightarrow> failure + clearance" where
  "and_go x = and_then x (\<lambda>_. Inr Clear_Go)"

fun precondition :: "action \<Rightarrow> ground \<Rightarrow> failure + clearance" where
  "precondition (CreateDir p _ _) g = and_go (absent p (g_spot g p))"
| "precondition (CreateDirs p _ _) g = created_below g p"
| "precondition (PutFile p _ _ _ e) g = and_go (expecting p e (g_spot g p))"
| "precondition (SetMode p _ expect) g =
     and_then (node_at p (g_spot g p)) (\<lambda>found.
       if nd_mode found \<noteq> expect
       then Inl (path_conflict p (''mode '' @ show_octal (unat expect)) (''mode '' @ show_octal (unat (nd_mode found))))
       else Inr Clear_Go)"
| "precondition (SetOwner p _ expect) g =
     and_then (node_at p (g_spot g p)) (\<lambda>found.
       if nd_owner found \<noteq> expect
       then Inl (path_conflict p (''owner '' @ show_ids expect) (''owner '' @ show_ids (nd_owner found)))
       else Inr Clear_Go)"
| "precondition (SetAside p expect) g = and_go (holding p expect (g_spot g p))"
| "precondition (Discard p expect) g = and_go (holding p expect (g_spot g p))"
| "precondition (RemoveCreated p expect) g = removable p expect (g_spot g p)"
| "precondition (RemoveCreatedTree p expect) g = removable p expect (g_spot g p)"
| "precondition (Restore p from e) g = and_go (restorable g p from e)"
| "precondition (ReclaimTree p expect owner _) g =
     and_then (running_as g p owner) (\<lambda>_. and_go (holding p expect (g_spot g p)))"
| "precondition (CopyTree from to owner _) g =
     and_then (running_as g to owner) (\<lambda>_.
     and_then (source_at from (g_spot g from)) (\<lambda>_. and_go (absent to (g_spot g to))))"
| "precondition _ g = Inr Clear_Go"

text \<open>When the helpers succeed.\<close>

lemma absent_Inr [simp]: "absent p s = Inr u \<longleftrightarrow> s = Spot_Missing"
  by (cases s) (simp_all add: absent_def)

lemma holding_Inr: "holding p expect s = Inr nd \<longleftrightarrow> s = Spot_Present nd \<and> nd_id nd = expect"
  by (cases s) (auto simp: holding_def)

lemma node_at_Inr: "node_at p s = Inr nd \<longleftrightarrow> s = Spot_Present nd \<and> nd_kind nd \<noteq> PathKind_Symlink"
  by (cases s) (auto simp: node_at_def)

lemma source_at_Inr [simp]: "source_at p s = Inr u \<longleftrightarrow> (\<exists>nd. s = Spot_Present nd)"
  by (cases s) (simp_all add: source_at_def)

lemma removable_Inr: "removable p expect s = Inr c \<longleftrightarrow>
    (if unreached s then c = Clear_Done else c = Clear_Go \<and> (\<exists>nd. s = Spot_Present nd \<and> nd_id nd = expect))"
  by (auto simp: removable_def holding_Inr)

lemma expecting_Inr: "expecting p e s = Inr u \<longleftrightarrow>
    (case e of Expect_Absent \<Rightarrow> s = Spot_Missing
     | Expect_Present fid \<Rightarrow> \<exists>nd. s = Spot_Present nd \<and> nd_id nd = fid)"
  by (cases e) (auto simp: expecting_def holding_Inr)

lemma restorable_Inr: "restorable g p from e = Inr u \<longleftrightarrow>
    (\<forall>f. g_spot g p \<noteq> Spot_Blocked f) \<and> path_parent from = path_parent p \<and> from \<noteq> [] \<and>
    (\<exists>nd. g_spot g from = Spot_Present nd) \<and> expecting p e (g_spot g p) = Inr ()"
  by (cases "g_spot g p") (auto simp: restorable_def file_name_def)

lemma and_go_Inr [simp]: "and_go x = Inr c \<longleftrightarrow> c = Clear_Go \<and> (\<exists>y. x = Inr y)"
  by (cases x) (auto simp: and_go_def)

lemma climb_prefix: "\<exists>rest. p = climb g p @ rest"
proof (induction g p rule: climb.induct)
  case (1 g q)
  show ?case
  proof (cases "q \<noteq> [] \<and> butlast q \<noteq> [] \<and> unreached (g_spot g (butlast q))")
    case True
    with 1 obtain rest where "butlast q = climb g (butlast q) @ rest" by blast
    with True have "q = climb g (butlast q) @ rest @ [last q]" by (metis append_assoc append_butlast_last_id)
    with True show ?thesis by (subst climb.simps) (simp, blast)
  next
    case False
    then show ?thesis by (subst climb.simps) auto
  qed
qed

lemma created_below_Below: "created_below g p = Inr (Clear_Below q) \<Longrightarrow>
    q = climb g p \<and> g_spot g q = Spot_Missing \<and> (\<forall>nd. g_spot g p \<noteq> Spot_Present nd)"
  by (cases "g_spot g p") (auto simp: created_below_def Let_def split: if_splits)

section \<open>Accounts\<close>

record accounts =
  ac_group :: "string \<Rightarrow> group_facts option"
  ac_user :: "string \<Rightarrow> user_facts option"
  ac_group_with_gid :: "u32 \<Rightarrow> string option"
  ac_user_with_uid :: "u32 \<Rightarrow> string option"
  ac_primary_of :: "u32 \<Rightarrow> string option"
  ac_groups_of :: "string \<Rightarrow> string list"

datatype accounted = Accounted_Done | Accounted_Go "action list"

definition show_u32 :: "u32 \<Rightarrow> string" where
  "show_u32 n = show_nat (unat n)"

definition user_ids :: "user_facts \<Rightarrow> owner" where
  "user_ids u = (uf_uid u, uf_gid u)"

definition expect_group :: "accounts \<Rightarrow> string \<Rightarrow> u32 \<Rightarrow> failure + group_facts" where
  "expect_group a name gid =
     (case ac_group a name of
        Some found \<Rightarrow>
          if gf_gid found = gid then Inr found
          else Inl (Conflict name (''gid '' @ show_u32 gid) (''gid '' @ show_u32 (gf_gid found)))
      | None \<Rightarrow> Inl (Conflict name (''gid '' @ show_u32 gid) ''no group''))"

definition expect_user :: "accounts \<Rightarrow> string \<Rightarrow> owner \<Rightarrow> failure + user_facts" where
  "expect_user a name ids =
     (case ac_user a name of
        Some found \<Rightarrow>
          if user_ids found = ids then Inr found
          else Inl (Conflict name (''ids '' @ show_ids ids) (''ids '' @ show_ids (user_ids found)))
      | None \<Rightarrow> Inl (Conflict name (''ids '' @ show_ids ids) ''no user''))"

definition gid_free :: "accounts \<Rightarrow> string \<Rightarrow> u32 \<Rightarrow> failure + unit" where
  "gid_free a name gid =
     (case ac_group_with_gid a gid of
        Some holder \<Rightarrow>
          if holder \<noteq> name
          then Inl (Conflict name (''gid '' @ show_u32 gid @ '' free'') (''gid '' @ show_u32 gid @ '' held by '' @ holder))
          else Inr ()
      | None \<Rightarrow> Inr ())"

definition uid_free :: "accounts \<Rightarrow> string \<Rightarrow> u32 \<Rightarrow> failure + unit" where
  "uid_free a name uid =
     (case ac_user_with_uid a uid of
        Some holder \<Rightarrow>
          if holder \<noteq> name
          then Inl (Conflict name (''uid '' @ show_u32 uid @ '' free'') (''uid '' @ show_u32 uid @ '' held by '' @ holder))
          else Inr ()
      | None \<Rightarrow> Inr ())"

definition members :: "accounts \<Rightarrow> string \<Rightarrow> string list" where
  "members a grp = (case ac_group a grp of Some found \<Rightarrow> gf_members found | None \<Rightarrow> [])"

fun done_already :: "action \<Rightarrow> accounts \<Rightarrow> bool" where
  "done_already (AddGroup name gid) a =
     (case ac_group a name of Some found \<Rightarrow> gf_gid found = gid | None \<Rightarrow> False)"
| "done_already (SetGroupGid name gid _) a =
     (case ac_group a name of Some found \<Rightarrow> gf_gid found = gid | None \<Rightarrow> False)"
| "done_already (DeleteGroup name _) a = (ac_group a name = None)"
| "done_already (AddUser spec) a =
     (case ac_user a (us_name spec) of Some found \<Rightarrow> user_ids found = (us_uid spec, us_gid spec) | None \<Rightarrow> False)"
| "done_already (SetUserIds name ids _) a =
     (case ac_user a name of Some found \<Rightarrow> user_ids found = ids | None \<Rightarrow> False)"
| "done_already (DeleteUser name _ _) a = (ac_user a name = None)"
| "done_already (AddMember grp user) a = (user \<in> set (members a grp))"
| "done_already (RemoveMember grp user) a = (user \<notin> set (members a grp))"
| "done_already _ a = False"

text \<open>The first group that a new user needs and that there is not: its primary group, by its
  number, or one of the groups it is to be in, by its name.\<close>

definition missing_group :: "accounts \<Rightarrow> user_spec \<Rightarrow> string option" where
  "missing_group a spec =
     (case filter (\<lambda>_. ac_group_with_gid a (us_gid spec) = None) [show_u32 (us_gid spec)]
             @ filter (\<lambda>name. ac_group a name = None) (us_groups spec) of
        [] \<Rightarrow> None
      | missing # _ \<Rightarrow> Some missing)"

definition user_spec_of :: "accounts \<Rightarrow> string \<Rightarrow> user_facts \<Rightarrow> user_spec" where
  "user_spec_of a name found =
     \<lparr>us_name = name, us_uid = uf_uid found, us_gid = uf_gid found, us_home = uf_home found,
      us_shell = uf_shell found, us_comment = uf_comment found, us_groups = ac_groups_of a name\<rparr>"

fun account_undo :: "action \<Rightarrow> accounts \<Rightarrow> failure + action list" where
  "account_undo (AddGroup name gid) a =
     (case ac_group a name of
        Some found \<Rightarrow> Inl (Conflict name ''no group'' (''gid '' @ show_u32 (gf_gid found)))
      | None \<Rightarrow> and_then (gid_free a name gid) (\<lambda>_. Inr [DeleteGroup name gid]))"
| "account_undo (SetGroupGid name gid expect) a =
     and_then (expect_group a name expect) (\<lambda>_.
     and_then (gid_free a name gid) (\<lambda>_. Inr [SetGroupGid name expect gid]))"
| "account_undo (DeleteGroup name expect) a =
     and_then (expect_group a name expect) (\<lambda>found.
       case ac_primary_of a expect of
         Some user \<Rightarrow>
           Inl (Conflict name ''no user in it as their primary group'' (''the primary group of '' @ user))
       | None \<Rightarrow> Inr (AddGroup name expect # map (AddMember name) (gf_members found)))"
| "account_undo (AddUser spec) a =
     (case ac_user a (us_name spec) of
        Some found \<Rightarrow> Inl (Conflict (us_name spec) ''no user'' (''uid '' @ show_u32 (uf_uid found)))
      | None \<Rightarrow>
          and_then (uid_free a (us_name spec) (us_uid spec)) (\<lambda>_.
            case missing_group a spec of
              Some missing \<Rightarrow> Inl (Conflict (us_name spec) (''group '' @ missing) ''no group'')
            | None \<Rightarrow> Inr [DeleteUser (us_name spec) (us_uid spec, us_gid spec) (us_comment spec)]))"
| "account_undo (SetUserIds name ids expect) a =
     and_then (expect_user a name expect) (\<lambda>_.
     and_then (uid_free a name (fst ids)) (\<lambda>_.
       if ac_group_with_gid a (snd ids) = None
       then Inl (Conflict name (''a group with gid '' @ show_u32 (snd ids)) ''no such group'')
       else Inr [SetUserIds name expect ids]))"
| "account_undo (DeleteUser name expect comment) a =
     and_then (expect_user a name expect) (\<lambda>found.
       if uf_comment found \<noteq> comment
       then Inl (Conflict name (''comment `'' @ comment @ ''`'') (''comment `'' @ uf_comment found @ ''`''))
       else Inr [AddUser (user_spec_of a name found)])"
| "account_undo (AddMember grp user) a =
     (if ac_group a grp = None then Inl (Conflict grp ''a group'' ''no group'')
      else if ac_user a user = None then Inl (Conflict grp (''user '' @ user) ''no user'')
      else Inr [RemoveMember grp user])"
| "account_undo (RemoveMember grp user) a =
     (if ac_group a grp = None then Inl (Conflict grp ''a group'' ''no group'')
      else Inr [AddMember grp user])"
| "account_undo _ a = Inr []"

definition account_precondition :: "action \<Rightarrow> accounts \<Rightarrow> failure + accounted" where
  "account_precondition action a =
     (if done_already action a then Inr Accounted_Done
      else and_then (account_undo action a) (\<lambda>undo. Inr (Accounted_Go undo)))"

text \<open>When the helpers succeed.\<close>

lemma expect_group_Inr: "expect_group a name gid = Inr found \<longleftrightarrow> ac_group a name = Some found \<and> gf_gid found = gid"
  by (auto simp: expect_group_def split: option.split)

lemma expect_user_Inr: "expect_user a name ids = Inr found \<longleftrightarrow> ac_user a name = Some found \<and> user_ids found = ids"
  by (auto simp: expect_user_def split: option.split)

lemma gid_free_Inr: "gid_free a name gid = Inr u \<longleftrightarrow> ac_group_with_gid a gid \<in> {None, Some name}"
  by (auto simp: gid_free_def split: option.split)

lemma uid_free_Inr: "uid_free a name uid = Inr u \<longleftrightarrow> ac_user_with_uid a uid \<in> {None, Some name}"
  by (auto simp: uid_free_def split: option.split)

lemma missing_group_None: "missing_group a spec = None \<longleftrightarrow>
    ac_group_with_gid a (us_gid spec) \<noteq> None \<and> (\<forall>name \<in> set (us_groups spec). ac_group a name \<noteq> None)"
  by (auto simp: missing_group_def filter_empty_conv filter_eq_Cons_iff split: list.split)

end
