(* ===== verification/World.thy ===== *)
theory World
  imports Precondition Journal
begin

unbundle bit_operations_syntax

text \<open>
  The model of a machine that mix's own tests and its conformance suite hold the real effects
  against (\<open>crates/core/src/model/mod.rs\<close>): its files, accounts, systemd units, profiles and
  journals, and what an action is to do to them. This theory holds the state and its parts, the
  next ones the repository and the actions.

  A map is an ordered map as in the code, so that iteration has the code's order. Inode numbers
  and the counter they come from are natural numbers. A method on \<open>&mut self\<close> returns the new
  world also when it fails, since what it did before the failure stays done.
\<close>

section \<open>State\<close>

datatype content = Content_Directory | Content_File bytes

record file_entry =
  en_content :: content
  en_mode :: u32
  en_owner :: owner
  en_id :: file_id
  en_changed :: nat

record unit_state =
  ut_loaded :: "bytes option"
  ut_running :: "bytes option"
  ut_since :: "nat option"
  ut_stamp :: "nat option"

record profile =
  pr_generations :: "nat list"
  pr_active :: "nat option"
  pr_built :: "(nat, bytes option list) btree"
  pr_dangling :: "nat list"

record world =
  w_files :: "(path, file_entry) btree"
  w_groups :: "(string, group_facts) btree"
  w_users :: "(string, user_facts) btree"
  w_units :: "(string, unit_state) btree"
  w_profiles :: "(u32, profile) btree"
  w_aside :: "(path, u32 \<times> profile) btree"
  w_journals :: "abandoned_request list"
  w_logs :: "(string, journal_record list) btree"
  w_held :: "string list"
  w_acting :: string
  w_runs_as :: "owner option"
  w_clobbered :: "(u32, path list) btree"
  w_linked :: "(u32, path list) btree"
  w_pending :: "(string, path list) btree"
  w_next :: nat

text \<open>A mode, by its octal digits.\<close>

definition mode_of :: "nat \<Rightarrow> nat \<Rightarrow> nat \<Rightarrow> u32" where
  "mode_of u g a = of_nat (64 * u + 8 * g + a)"

definition root_owner :: owner where
  "root_owner = (0, 0)"

definition content_kind :: "file_entry \<Rightarrow> string" where
  "content_kind e = (case en_content e of Content_Directory \<Rightarrow> ''directory'' | Content_File _ \<Rightarrow> ''file'')"

definition default_unit :: unit_state where
  "default_unit = \<lparr>ut_loaded = None, ut_running = None, ut_since = None, ut_stamp = None\<rparr>"

definition default_profile :: profile where
  "default_profile = \<lparr>pr_generations = [], pr_active = None, pr_built = [], pr_dangling = []\<rparr>"

definition unit_held :: "unit_state \<Rightarrow> bool \<Rightarrow> bool" where
  "unit_held u enabled \<longleftrightarrow> ut_running u \<noteq> None \<or> enabled"

definition forget_unless_held :: "unit_state \<Rightarrow> bool \<Rightarrow> unit_state" where
  "forget_unless_held u enabled = (if unit_held u enabled then u else u\<lparr>ut_loaded := None\<rparr>)"

definition unit_seen :: "unit_state \<Rightarrow> bool \<Rightarrow> bytes option \<Rightarrow> bytes option" where
  "unit_seen u enabled file = (if unit_held u enabled then ut_loaded u else file)"

section \<open>Equality\<close>

text \<open>Whether a path is a link or a link directory that systemd itself makes and removes.\<close>

definition link_dir :: "path \<Rightarrow> bool" where
  "link_dir dir \<longleftrightarrow> path_parent dir = Some SYSTEMD_UNIT_DIR \<and> extension dir \<in> {Some ''wants'', Some ''requires''}"

definition systemd_owned :: "path \<Rightarrow> bool" where
  "systemd_owned p \<longleftrightarrow> link_dir p \<or> (case path_parent p of Some dir \<Rightarrow> link_dir dir | None \<Rightarrow> False)"

type_synonym comparable = "path \<times> content \<times> u32 \<times> owner \<times> (file_id \<times> nat) option"

definition comparable_files :: "world \<Rightarrow> comparable list" where
  "comparable_files w =
     map (\<lambda>(p, e). (p, en_content e, en_mode e, en_owner e,
            if systemd_owned p then None else Some (en_id e, en_changed e))) (w_files w)"

definition meaningful_units :: "world \<Rightarrow> (string \<times> bytes option \<times> bytes option) list" where
  "meaningful_units w =
     filter (\<lambda>(name, loaded, running). loaded \<noteq> None \<or> running \<noteq> None)
       (map (\<lambda>(name, u). (name, ut_loaded u, ut_running u)) (w_units w))"

definition all_pending :: "world \<Rightarrow> path list" where
  "all_pending w = concat (map snd (w_pending w))"

definition world_eq :: "world \<Rightarrow> world \<Rightarrow> bool" where
  "world_eq a b \<longleftrightarrow>
     comparable_files a = comparable_files b \<and> w_groups a = w_groups b \<and> w_users a = w_users b \<and>
     meaningful_units a = meaningful_units b \<and> w_profiles a = w_profiles b \<and> w_aside a = w_aside b \<and>
     w_journals a = w_journals b \<and> w_logs a = w_logs b \<and> w_clobbered a = w_clobbered b \<and>
     w_linked a = w_linked b \<and> all_pending a = all_pending b"

section \<open>Files\<close>

definition file_at :: "world \<Rightarrow> path \<Rightarrow> file_entry option" where
  "file_at w p = map_of (w_files w) p"

definition add_file :: "path \<Rightarrow> file_entry \<Rightarrow> world \<Rightarrow> world" where
  "add_file p e w = w\<lparr>w_files := bt_insert p e (w_files w)\<rparr>"

definition del_file :: "path \<Rightarrow> world \<Rightarrow> world" where
  "del_file p w = w\<lparr>w_files := bt_remove p (w_files w)\<rparr>"

definition fresh :: "world \<Rightarrow> file_id \<times> world" where
  "fresh w = (\<lparr>fid_dev = 1, fid_ino = w_next w, fid_born = Some (int (w_next w), 0)\<rparr>, w\<lparr>w_next := w_next w + 1\<rparr>)"

text \<open>A new entry takes a fresh identity, which is also the time of its last change.\<close>

definition new_entry :: "content \<Rightarrow> u32 \<Rightarrow> owner \<Rightarrow> file_id \<Rightarrow> file_entry" where
  "new_entry c mode owner fid = \<lparr>en_content = c, en_mode = mode, en_owner = owner, en_id = fid, en_changed = fid_ino fid\<rparr>"

definition place :: "path \<Rightarrow> content \<Rightarrow> u32 \<Rightarrow> owner \<Rightarrow> world \<Rightarrow> file_id \<times> world" where
  "place p c mode owner w = (let (fid, w1) = fresh w in (fid, add_file p (new_entry c mode owner fid) w1))"

definition with_dir :: "path \<Rightarrow> u32 \<Rightarrow> owner \<Rightarrow> world \<Rightarrow> world" where
  "with_dir p mode owner w = snd (place p Content_Directory mode owner w)"

definition with_file :: "path \<Rightarrow> bytes \<Rightarrow> u32 \<Rightarrow> owner \<Rightarrow> world \<Rightarrow> world" where
  "with_file p contents mode owner w = snd (place p (Content_File contents) mode owner w)"

definition file_contents :: "world \<Rightarrow> path \<Rightarrow> bytes option" where
  "file_contents w p =
     (case file_at w p of
        Some e \<Rightarrow> (case en_content e of Content_File contents \<Rightarrow> Some contents | Content_Directory \<Rightarrow> None)
      | None \<Rightarrow> None)"

definition file_stamp :: "world \<Rightarrow> path \<Rightarrow> nat option" where
  "file_stamp w p = map_option en_changed (file_at w p)"

definition is_dir :: "world \<Rightarrow> path \<Rightarrow> bool" where
  "is_dir w p = (case file_at w p of Some e \<Rightarrow> en_content e = Content_Directory | None \<Rightarrow> False)"

definition is_file :: "world \<Rightarrow> path \<Rightarrow> bool" where
  "is_file w p = (case file_at w p of Some e \<Rightarrow> en_content e \<noteq> Content_Directory | None \<Rightarrow> False)"

definition parent_is_dir :: "world \<Rightarrow> path \<Rightarrow> failure + unit" where
  "parent_is_dir w p =
     (case find (\<lambda>dir. \<not> is_dir w dir) (map (\<lambda>n. take n p) [0..<length p]) of
        None \<Rightarrow> Inr ()
      | Some dir \<Rightarrow> (case file_at w dir of Some _ \<Rightarrow> Inl (Io p ''NotADirectory'') | None \<Rightarrow> Inl (not_found p)))"

text \<open>What lies at or below a path, in the map's order; the path's entries follow each other.\<close>

definition range_from :: "path \<Rightarrow> world \<Rightarrow> path list" where
  "range_from p w = map fst (dropWhile (\<lambda>(q, _). q < p) (w_files w))"

definition has_children :: "path \<Rightarrow> world \<Rightarrow> bool" where
  "has_children p w =
     (case drop 1 (range_from p w) of [] \<Rightarrow> False | q # _ \<Rightarrow> starts_with q p)"

definition paths_below :: "path \<Rightarrow> world \<Rightarrow> path list" where
  "paths_below p w = takeWhile (\<lambda>q. starts_with q p) (range_from p w)"

definition remove_tree :: "path \<Rightarrow> world \<Rightarrow> world" where
  "remove_tree p w = fold del_file (paths_below p w) w"

definition moved :: "path \<Rightarrow> path \<Rightarrow> path \<Rightarrow> path" where
  "moved from to old = to @ drop (length from) old"

definition move_one :: "path \<Rightarrow> path \<Rightarrow> path \<Rightarrow> world \<Rightarrow> world" where
  "move_one from to old w =
     (case file_at w old of Some e \<Rightarrow> add_file (moved from to old) e (del_file old w) | None \<Rightarrow> w)"

definition move_tree :: "path \<Rightarrow> path \<Rightarrow> world \<Rightarrow> world" where
  "move_tree from to w = fold (move_one from to) (paths_below from w) w"

definition sibling :: "path \<Rightarrow> string \<Rightarrow> world \<Rightarrow> path \<times> world" where
  "sibling p purpose w =
     (let name = (case file_name p of Some name \<Rightarrow> utf8_lossy name | None \<Rightarrow> []); (fid, w1) = fresh w
      in (with_file_name p (''.'' @ name @ ''.mix-'' @ purpose @ ''-'' @ w_acting w @ ''-'' @ show_nat (fid_ino fid)), w1))"

section \<open>What is left to reclaim\<close>

definition world_adopt :: "path list \<Rightarrow> world \<Rightarrow> world" where
  "world_adopt paths w =
     w\<lparr>w_pending := bt_insert (w_acting w)
        ((case map_of (w_pending w) (w_acting w) of Some ps \<Rightarrow> ps | None \<Rightarrow> []) @ paths) (w_pending w)\<rparr>"

definition pend :: "path \<Rightarrow> world \<Rightarrow> world" where
  "pend p w = world_adopt [p] w"

definition forget :: "string \<Rightarrow> world \<Rightarrow> world" where
  "forget req w = w\<lparr>w_pending := bt_remove req (w_pending w)\<rparr>"

definition unpend :: "path \<Rightarrow> world \<Rightarrow> world" where
  "unpend p w = w\<lparr>w_pending := bt_map (filter (\<lambda>q. q \<noteq> p)) (w_pending w)\<rparr>"

section \<open>What the preconditions look at\<close>

definition spot_of :: "world \<Rightarrow> path \<Rightarrow> spot" where
  "spot_of w p =
     (if p = [] then Spot_Blocked (path_conflict p ''a path below the root'' ''the root itself'')
      else case parent_is_dir w p of
        Inl f \<Rightarrow> Spot_Blocked f
      | Inr _ \<Rightarrow>
          (case file_at w p of
             None \<Rightarrow> Spot_Missing
           | Some e \<Rightarrow> Spot_Present
               \<lparr>nd_kind = (case en_content e of Content_Directory \<Rightarrow> PathKind_Directory | Content_File _ \<Rightarrow> PathKind_File),
                nd_id = en_id e, nd_mode = en_mode e, nd_owner = en_owner e\<rparr>))"

definition tree_owner :: "world \<Rightarrow> path \<Rightarrow> owner option" where
  "tree_owner w p =
     find (\<lambda>owner. fst owner \<noteq> 0)
       (map en_owner (List.map_filter (file_at w) (map (\<lambda>n. take n p) [0..<length p])))"

definition running_for :: "world \<Rightarrow> path \<Rightarrow> owner" where
  "running_for w p =
     (case w_runs_as w of
        Some owner \<Rightarrow> owner
      | None \<Rightarrow> (case tree_owner w p of Some owner \<Rightarrow> owner | None \<Rightarrow> root_owner))"

definition world_ground :: "world \<Rightarrow> ground" where
  "world_ground w = \<lparr>g_spot = spot_of w, g_running = running_for w\<rparr>"

definition first_name :: "('v \<Rightarrow> bool) \<Rightarrow> (string, 'v) btree \<Rightarrow> string option" where
  "first_name P m = map_option fst (find (\<lambda>p. P (snd p)) m)"

definition world_accounts :: "world \<Rightarrow> accounts" where
  "world_accounts w =
     \<lparr>ac_group = map_of (w_groups w), ac_user = map_of (w_users w),
      ac_group_with_gid = (\<lambda>gid. first_name (\<lambda>g. gf_gid g = gid) (w_groups w)),
      ac_user_with_uid = (\<lambda>uid. first_name (\<lambda>u. uf_uid u = uid) (w_users w)),
      ac_primary_of = (\<lambda>gid. first_name (\<lambda>u. uf_gid u = gid) (w_users w)),
      ac_groups_of = (\<lambda>user. map fst (filter (\<lambda>p. user \<in> set (gf_members (snd p))) (w_groups w)))\<rparr>"

section \<open>A new machine\<close>

definition default_world :: world where
  "default_world =
     fold (\<lambda>dir. with_dir (components dir) (mode_of 7 5 5) root_owner)
       [''/'', ''/etc'', ''/etc/systemd'', ''/etc/systemd/system'', ''/home'', ''/var'', ''/var/lib'', ''/var/empty'']
       \<lparr>w_files = [], w_groups = [], w_users = [], w_units = [], w_profiles = [], w_aside = [], w_journals = [],
        w_logs = [], w_held = [], w_acting = ''model'', w_runs_as = None, w_clobbered = [], w_linked = [],
        w_pending = [], w_next = 1\<rparr>"

section \<open>Units\<close>

definition unit_path :: "string \<Rightarrow> path" where
  "unit_path unit = path_join SYSTEMD_UNIT_DIR unit"

text \<open>The links that the install section of a unit file asks for.\<close>

definition line_links :: "string \<Rightarrow> string \<Rightarrow> path list" where
  "line_links unit line =
     (case split_once (CHR ''='') (trim line) of
        Some (key, targets) \<Rightarrow>
          (let to = (\<lambda>suffix. map (\<lambda>target. path_join (path_join SYSTEMD_UNIT_DIR (target @ ''.'' @ suffix)) unit)
                (split_whitespace targets))
           in if key = ''WantedBy'' then to ''wants'' else if key = ''RequiredBy'' then to ''requires'' else [])
      | None \<Rightarrow> [])"

definition install_links :: "string \<Rightarrow> bytes \<Rightarrow> path list" where
  "install_links unit file = concat (map (line_links unit) (lines (utf8_lossy file)))"

definition with_wants_dir :: "path \<Rightarrow> world \<Rightarrow> world" where
  "with_wants_dir link w =
     (case path_parent link of
        Some dir \<Rightarrow> if file_at w dir = None then with_dir dir (mode_of 7 5 5) root_owner w else w
      | None \<Rightarrow> w)"

definition unit_links :: "world \<Rightarrow> string \<Rightarrow> path list" where
  "unit_links w unit =
     filter (\<lambda>p. file_name p = Some unit \<and> (case path_parent p of Some dir \<Rightarrow> link_dir dir | None \<Rightarrow> False))
       (map fst (w_files w))"

definition enabled :: "world \<Rightarrow> string \<Rightarrow> bool" where
  "enabled w unit \<longleftrightarrow> unit_links w unit \<noteq> []"

definition unit_at :: "world \<Rightarrow> string \<Rightarrow> unit_state" where
  "unit_at w unit = (case map_of (w_units w) unit of Some u \<Rightarrow> u | None \<Rightarrow> default_unit)"

definition set_unit :: "string \<Rightarrow> unit_state \<Rightarrow> world \<Rightarrow> world" where
  "set_unit unit u w = w\<lparr>w_units := bt_insert unit u (w_units w)\<rparr>"

definition unit_files :: "world \<Rightarrow> string list" where
  "unit_files w =
     List.map_filter (\<lambda>p. map_option utf8_lossy (file_name p))
       (filter (\<lambda>p. path_parent p = Some SYSTEMD_UNIT_DIR) (map fst (w_files w)))"

definition reload_one :: "string \<Rightarrow> world \<Rightarrow> world" where
  "reload_one name w =
     (let u = unit_at w name
      in set_unit name
        (if unit_held u (enabled w name)
         then u\<lparr>ut_loaded := file_contents w (unit_path name), ut_stamp := file_stamp w (unit_path name)\<rparr> else u) w)"

definition reload :: "world \<Rightarrow> world" where
  "reload w = fold reload_one (map fst (w_units w) @ unit_files w) w"

definition unit_not_found :: "unit_operation \<Rightarrow> string \<Rightarrow> failure" where
  "unit_not_found op unit =
     UnitFailed \<lparr>uf_operation = op, uf_unit = unit, uf_job_result = ''failed'', uf_active_state = ''inactive'',
       uf_sub_state = ''dead'', uf_unit_result = ''not-found'', uf_invocation = None\<rparr>"

text \<open>The unit as systemd has it loaded after it was asked about it.\<close>

definition loaded_unit :: "string \<Rightarrow> unit_operation \<Rightarrow> world \<Rightarrow> (failure + unit_state) \<times> world" where
  "loaded_unit unit op w =
     (let u = unit_at w unit;
          u1 = (if unit_held u (enabled w unit) then u
                else u\<lparr>ut_loaded := file_contents w (unit_path unit), ut_stamp := file_stamp w (unit_path unit)\<rparr>)
      in (if ut_loaded u1 = None then Inl (unit_not_found op unit) else Inr u1, set_unit unit u1 w))"

end
