(* ===== verification/World_Repository.thy ===== *)
theory World_Repository
  imports World
begin

text \<open>
  The git repository of a profile as the model has it (\<open>crates/core/src/model/repository.rs\<close>), and
  the writing of a file (\<open>put\<close> of \<open>model/mod.rs\<close>), which both the actions and the repository use.
\<close>

section \<open>Methods that may fail\<close>

type_synonym 'a attempt = "(failure + 'a) \<times> world"

definition then_do :: "'a attempt \<Rightarrow> ('a \<Rightarrow> world \<Rightarrow> 'b attempt) \<Rightarrow> 'b attempt" where
  "then_do m f = (case m of (Inl e, w) \<Rightarrow> (Inl e, w) | (Inr x, w) \<Rightarrow> f x w)"

fun each :: "('a \<Rightarrow> world \<Rightarrow> unit attempt) \<Rightarrow> 'a list \<Rightarrow> world \<Rightarrow> unit attempt" where
  "each f [] w = (Inr (), w)"
| "each f (x # xs) w = then_do (f x w) (\<lambda>_. each f xs)"

lemma then_do_simps [simp]: "then_do (Inl e, w) f = (Inl e, w)" "then_do (Inr x, w) f = f x w"
  by (simp_all add: then_do_def)

section \<open>Writing a file\<close>

definition put_file :: "path \<Rightarrow> bytes \<Rightarrow> u32 \<Rightarrow> owner \<Rightarrow> expect \<Rightarrow> world \<Rightarrow> action list attempt" where
  "put_file p contents mode owner e w =
     (case precondition (PutFile p contents mode (Some owner) e) (world_ground w) of
        Inl f \<Rightarrow> (Inl f, w)
      | Inr _ \<Rightarrow>
          (let (fid, w1) = fresh w; ent = new_entry (Content_File contents) mode owner fid
           in case e of
             Expect_Absent \<Rightarrow> (Inr [RemoveCreated p fid], add_file p ent w1)
           | Expect_Present _ \<Rightarrow>
               (let (backup, w2) = sibling p ''backup'' w1; w3 = pend backup (move_tree p backup w2)
                in (Inr [Restore p backup (Expect_Present fid)], add_file p ent w3))))"

section \<open>Objects\<close>

definition HEAD_CONTENTS :: bytes where
  "HEAD_CONTENTS = ''ref: refs/heads/main'' @ [newline]"

definition OBJECTS :: string where
  "OBJECTS = ''objects''"

type_synonym snapshot = "(string, bytes) btree"

definition digest_step :: "u64 \<Rightarrow> char \<Rightarrow> u64" where
  "digest_step hash c = (hash XOR of_nat (byte c)) * 0x100000001b3"

definition digest :: "bytes \<Rightarrow> string" where
  "digest bs = hex_digits 16 (unat (foldl digest_step 0xcbf29ce484222325 bs))"

definition listing :: "snapshot \<Rightarrow> string" where
  "listing staged = concat (map (\<lambda>(name, bs). name @ '' '' @ digest bs @ [newline]) staged)"

section \<open>What a user may read\<close>

definition allowed :: "file_entry \<Rightarrow> u32 \<Rightarrow> u32 \<Rightarrow> bool" where
  "allowed e uid need \<longleftrightarrow>
     (let bits = (if fst (en_owner e) = uid then drop_bit 6 (en_mode e) else en_mode e)
      in uid = 0 \<or> bits AND need \<noteq> 0)"

definition searchable :: "world \<Rightarrow> path \<Rightarrow> u32 \<Rightarrow> bool" where
  "searchable w p uid \<longleftrightarrow>
     (\<forall>dir \<in> set (List.map_filter (file_at w) (tl (ancestors p))). allowed dir uid 1)"

definition readable :: "world \<Rightarrow> path \<Rightarrow> u32 \<Rightarrow> bytes option" where
  "readable w p uid =
     (case file_at w p of
        None \<Rightarrow> None
      | Some e \<Rightarrow>
          (case en_content e of
             Content_Directory \<Rightarrow> None
           | Content_File bs \<Rightarrow> if searchable w p uid \<and> allowed e uid 4 then Some bs else None))"

definition object_path :: "path \<Rightarrow> string \<Rightarrow> path" where
  "object_path repository object = path_join (path_join repository OBJECTS) object"

definition intact_object :: "world \<Rightarrow> path \<Rightarrow> string \<Rightarrow> u32 \<Rightarrow> bool" where
  "intact_object w repository object uid =
     (case readable w (object_path repository object) uid of Some bs \<Rightarrow> digest bs = object | None \<Rightarrow> False)"

definition text_of :: "bytes \<Rightarrow> string option" where
  "text_of bs = (if valid_utf8 bs then Some bs else None)"

definition head_commit :: "world \<Rightarrow> path \<Rightarrow> u32 \<Rightarrow> string option" where
  "head_commit w repository uid =
     (if readable w (path_join repository REPOSITORY_HEAD) uid \<noteq> Some HEAD_CONTENTS then None
      else case Option.bind (readable w (path_join repository REPOSITORY_BRANCH) uid) text_of of
        None \<Rightarrow> None
      | Some named \<Rightarrow> if intact_object w repository (trim named) uid then Some (trim named) else None)"

definition listed_line :: "string \<Rightarrow> (string \<times> string) option" where
  "listed_line line =
     (case split_once (CHR '' '') line of
        Some (name, object) \<Rightarrow> if name \<in> set MANAGED_FILES then Some (name, object) else None
      | None \<Rightarrow> None)"

definition listed :: "world \<Rightarrow> path \<Rightarrow> string \<Rightarrow> u32 \<Rightarrow> (string \<times> string) list option" where
  "listed w repository commit uid =
     (case Option.bind (readable w (object_path repository commit) uid) text_of of
        None \<Rightarrow> None
      | Some text \<Rightarrow>
          those (map listed_line
            (filter (\<lambda>line. \<not> starts_with line ''parent '' \<and> \<not> starts_with line ''lost '' \<and> \<not> starts_with line ''time '')
              (lines text))))"

definition collect_map :: "('k::linorder \<times> 'v) list \<Rightarrow> ('k, 'v) btree" where
  "collect_map xs = fold (\<lambda>(k, v). bt_insert k v) xs []"

definition snapshot_of :: "world \<Rightarrow> path \<Rightarrow> string \<Rightarrow> u32 \<Rightarrow> snapshot option" where
  "snapshot_of w repository commit uid =
     (case listed w repository commit uid of
        None \<Rightarrow> None
      | Some names \<Rightarrow>
          map_option collect_map
            (those (map (\<lambda>(name, object).
               case readable w (object_path repository object) uid of
                 Some bs \<Rightarrow> if digest bs = object then Some (name, bs) else None
               | None \<Rightarrow> None) names)))"

definition unborn :: "world \<Rightarrow> path \<Rightarrow> u32 \<Rightarrow> bool" where
  "unborn w repository uid \<longleftrightarrow>
     (let heads = path_join repository ''refs/heads'';
          branch = path_join repository REPOSITORY_BRANCH
      in is_dir w (path_join repository OBJECTS) \<and> is_dir w (path_join repository ''refs'') \<and>
         (is_dir w heads \<or> file_at w heads = None) \<and> file_at w branch = None \<and> searchable w branch uid \<and>
         readable w (path_join repository REPOSITORY_HEAD) uid = Some HEAD_CONTENTS)"

definition snapshot_at :: "world \<Rightarrow> path \<Rightarrow> u32 \<Rightarrow> snapshot option" where
  "snapshot_at w repository uid =
     (if unborn w repository uid then Some []
      else case head_commit w repository uid of
        None \<Rightarrow> None
      | Some commit \<Rightarrow> snapshot_of w repository commit uid)"

section \<open>The state of a repository\<close>

definition staged :: "world \<Rightarrow> invoking_user \<Rightarrow> snapshot" where
  "staged w user =
     collect_map (List.map_filter (\<lambda>name.
       map_option (\<lambda>bs. (name, bs)) (readable w (path_join (mix_state_dir (iu_home user)) name) (iu_uid user)))
       MANAGED_FILES)"

definition reusable :: "world \<Rightarrow> invoking_user \<Rightarrow> bool" where
  "reusable w user \<longleftrightarrow>
     (let repository = repository_dir (iu_home user);
          committed = snapshot_at w repository (iu_uid user)
      in list_all (\<lambda>(name, bs).
           file_at w (object_path repository (digest bs)) = None \<or>
           intact_object w repository (digest bs) (iu_uid user))
         (filter (\<lambda>(name, bs). Option.bind committed (\<lambda>found. map_of found name) \<noteq> Some bs) (staged w user)))"

definition indexed :: "world \<Rightarrow> invoking_user \<Rightarrow> bool" where
  "indexed w user \<longleftrightarrow>
     (let index = path_join (repository_dir (iu_home user)) REPOSITORY_INDEX; wanted = listing (staged w user)
      in if file_at w index = None then wanted = [] else readable w index (iu_uid user) = Some wanted)"

definition usable :: "world \<Rightarrow> invoking_user \<Rightarrow> bool" where
  "usable w user \<longleftrightarrow>
     (let repository = repository_dir (iu_home user); index = path_join repository REPOSITORY_INDEX
      in readable w (path_join repository REPOSITORY_CONFIG) (iu_uid user) = Some REPOSITORY_CONFIG_CONTENTS \<and>
         (file_at w index = None \<or> is_file w index))"

definition verifies_at :: "world \<Rightarrow> path \<Rightarrow> u32 \<Rightarrow> bool" where
  "verifies_at w repository uid \<longleftrightarrow> is_dir w repository \<and> snapshot_at w repository uid \<noteq> None"

definition verifies :: "world \<Rightarrow> invoking_user \<Rightarrow> bool" where
  "verifies w user = verifies_at w (repository_dir (iu_home user)) (iu_uid user)"

definition committed :: "world \<Rightarrow> invoking_user \<Rightarrow> snapshot option" where
  "committed w user =
     (if verifies w user then snapshot_at w (repository_dir (iu_home user)) (iu_uid user) else None)"

definition repository_at :: "world \<Rightarrow> path \<Rightarrow> bool \<times> snapshot option" where
  "repository_at w repository =
     (let uid = (case file_at w repository of Some e \<Rightarrow> fst (en_owner e) | None \<Rightarrow> 0);
          ok = verifies_at w repository uid
      in (ok, if ok then snapshot_at w repository uid else None))"

definition repositories :: "world \<Rightarrow> path list" where
  "repositories w =
     map fst (filter (\<lambda>(p, e). file_name p = Some GIT_DIR \<and> en_content e = Content_Directory) (w_files w))"

section \<open>Writing the repository\<close>

definition write_object :: "path \<Rightarrow> bytes \<Rightarrow> owner \<Rightarrow> world \<Rightarrow> unit attempt" where
  "write_object p bs owner w =
     (case file_at w p of
        Some e \<Rightarrow>
          if en_content e = Content_File bs
          then (Inr (), add_file p (e\<lparr>en_mode := mode_of 4 4 4, en_owner := owner\<rparr>) w) else (Inr (), w)
      | None \<Rightarrow>
          (case parent_is_dir w p of
             Inl f \<Rightarrow> (Inl f, w)
           | Inr _ \<Rightarrow> (Inr (), with_file p bs (mode_of 4 4 4) owner w)))"

definition write_ref :: "path \<Rightarrow> bytes \<Rightarrow> owner \<Rightarrow> world \<Rightarrow> unit attempt" where
  "write_ref p bs owner w =
     (if is_dir w p then (Inl (path_conflict p ''a file'' ''a directory''), w)
      else case parent_is_dir w p of
        Inl f \<Rightarrow> (Inl f, w)
      | Inr _ \<Rightarrow> (Inr (), with_file p bs (mode_of 6 4 4) owner w))"

text \<open>How a conflict shows an entry: the identity as Rust's \<open>Debug\<close> prints it, then its numbers.\<close>

definition show_int :: "int \<Rightarrow> string" where
  "show_int n = (if n < 0 then ''-'' @ show_nat (nat (- n)) else show_nat (nat n))"

definition show_entry :: "file_entry option \<Rightarrow> string" where
  "show_entry found =
     (case found of
        None \<Rightarrow> ''nothing''
      | Some e \<Rightarrow>
          (let fid = en_id e;
               born = (case fid_born fid of
                   None \<Rightarrow> ''None''
                 | Some (s, n) \<Rightarrow> ''Some(('' @ show_int s @ '', '' @ show_nat n @ ''))'')
           in ''FileId { dev: '' @ show_nat (fid_dev fid) @ '', ino: '' @ show_nat (fid_ino fid) @ '', born: '' @ born
              @ '' } '' @ show_nat (fid_dev fid) @ '':'' @ show_nat (fid_ino fid)))"

definition make_dir :: "path \<Rightarrow> owner \<Rightarrow> world \<Rightarrow> unit attempt" where
  "make_dir p owner w =
     (if is_dir w p then (Inr (), w)
      else case file_at w p of
        Some found \<Rightarrow> (Inl (path_conflict p ''a directory'' (show_entry (Some found))), w)
      | None \<Rightarrow>
          (case parent_is_dir w p of
             Inl f \<Rightarrow> (Inl f, w)
           | Inr _ \<Rightarrow> (Inr (), with_dir p (mode_of 7 5 5) owner w)))"

definition init_repository :: "invoking_user \<Rightarrow> world \<Rightarrow> unit attempt" where
  "init_repository user w =
     (let repository = repository_dir (iu_home user); owner = (iu_uid user, iu_gid user)
      in then_do (make_dir repository owner w) (\<lambda>_ w1.
         then_do (write_ref (path_join repository REPOSITORY_HEAD) HEAD_CONTENTS owner w1) (\<lambda>_ w2.
         then_do (write_ref (path_join repository REPOSITORY_CONFIG) REPOSITORY_CONFIG_CONTENTS owner w2) (\<lambda>_ w3.
         each (\<lambda>dir. make_dir (path_join repository dir) owner) [OBJECTS, ''refs'', ''refs/heads''] w3))))"

text \<open>The text of a new commit: its parent or the one that was lost, its time, and the listing.\<close>

definition commit_text :: "string option \<Rightarrow> string option \<Rightarrow> nat \<Rightarrow> string \<Rightarrow> string" where
  "commit_text head named time lst =
     (case head of
        Some parent \<Rightarrow> ''parent '' @ parent @ [newline]
      | None \<Rightarrow> (case named of Some lost \<Rightarrow> ''lost '' @ lost @ [newline] | None \<Rightarrow> []))
     @ ''time '' @ show_nat time @ [newline] @ lst"

definition commit_staged :: "path \<Rightarrow> owner \<Rightarrow> u32 \<Rightarrow> snapshot \<Rightarrow> string option \<Rightarrow> world \<Rightarrow> bool attempt" where
  "commit_staged repository owner uid stage head w =
     (let named = map_option trim (Option.bind (readable w (path_join repository REPOSITORY_BRANCH) uid) text_of);
          (fid, w1) = fresh w;
          contents = commit_text head named (fid_ino fid) (listing stage);
          commit = digest contents
      in then_do (write_object (object_path repository commit) contents owner w1) (\<lambda>_ w2.
         if \<not> intact_object w2 repository commit uid \<or> snapshot_of w2 repository commit uid \<noteq> Some stage
         then (Inl (path_conflict (path_join repository OBJECTS) ''intact objects'' ''a damaged object''), w2)
         else then_do (make_dir (path_join repository ''refs/heads'') owner w2) (\<lambda>_ w3.
              then_do (write_ref (path_join repository REPOSITORY_BRANCH) (commit @ [newline]) owner w3) (\<lambda>_ w4.
              (Inr True, w4)))))"

definition sync_repository :: "invoking_user \<Rightarrow> world \<Rightarrow> bool attempt" where
  "sync_repository user w =
     (let repository = repository_dir (iu_home user); uid = iu_uid user;
          index = path_join repository REPOSITORY_INDEX; lock = path_join repository INDEX_LOCK;
          stage = staged w user; owner = (uid, iu_gid user)
      in if file_at w repository = None then (Inr False, w)
         else if \<not> is_dir w repository \<or> readable w (path_join repository REPOSITORY_HEAD) uid \<noteq> Some HEAD_CONTENTS
           then (Inl (path_conflict repository ''a git repository'' ''something else''), w)
         else if file_at w index \<noteq> None \<and> \<not> is_file w index
           then (Inl (path_conflict index ''an index'' (show_entry (file_at w index))), w)
         else if file_at w lock \<noteq> None then (Inl (path_conflict lock ''nothing'' ''a lock another git left''), w)
         else
           then_do (each (\<lambda>bs. write_object (object_path repository (digest bs)) bs owner) (map snd stage) w) (\<lambda>_ w1.
           then_do (write_ref index (listing stage) owner w1) (\<lambda>_ w2.
             (let head = head_commit w2 repository uid
              in case head of
                Some commit \<Rightarrow>
                  if listed w2 repository commit uid = Some (map (\<lambda>(name, bs). (name, digest bs)) stage)
                  then (Inr False, w2) else commit_staged repository owner uid stage head w2
              | None \<Rightarrow>
                  if stage = [] then (Inr False, w2) else commit_staged repository owner uid stage head w2))))"

text \<open>\<open>own_config\<close> writes the configuration with the action \<open>PutFile\<close>, which is \<^const>\<open>put_file\<close>.\<close>

definition own_config :: "invoking_user \<Rightarrow> world \<Rightarrow> action list attempt" where
  "own_config user w =
     (let repository = repository_dir (iu_home user); config = path_join repository REPOSITORY_CONFIG;
          found = file_at w config
      in if \<not> is_dir w repository then (Inr [], w)
         else if map_option en_content found = Some (Content_File REPOSITORY_CONFIG_CONTENTS) then (Inr [], w)
         else put_file config REPOSITORY_CONFIG_CONTENTS (mode_of 6 4 4) (iu_uid user, iu_gid user)
           (case found of Some e \<Rightarrow> Expect_Present (en_id e) | None \<Rightarrow> Expect_Absent) w)"

definition record_state :: "invoking_user \<Rightarrow> world \<Rightarrow> action list \<times> world" where
  "record_state user w =
     (let repository = repository_dir (iu_home user); existed = file_at w repository \<noteq> None;
          (recorded, w1) = (if existed then own_config user w
            else (case init_repository user w of (Inl f, w1) \<Rightarrow> (Inl f, w1) | (Inr _, w1) \<Rightarrow> (Inr [], w1)));
          undo = (case recorded of Inr restore \<Rightarrow> restore | Inl _ \<Rightarrow> []);
          w2 = (case recorded of Inr _ \<Rightarrow> snd (sync_repository user w1) | Inl _ \<Rightarrow> w1)
      in (undo @ (case file_at w2 repository of
            Some e \<Rightarrow> if existed then [] else [RemoveCreatedTree repository (en_id e)]
          | None \<Rightarrow> []), w2))"

definition create_repository :: "invoking_user \<Rightarrow> world \<Rightarrow> action list attempt" where
  "create_repository user w =
     (let repository = repository_dir (iu_home user)
      in case file_at w repository of
        Some found \<Rightarrow> (Inl (path_conflict repository ''nothing'' (content_kind found)), w)
      | None \<Rightarrow>
          (case init_repository user w of
             (Inl f, w1) \<Rightarrow> (Inl f, remove_tree repository w1)
           | (Inr _, w1) \<Rightarrow>
               (Inr (case file_at w1 repository of Some e \<Rightarrow> [RemoveCreatedTree repository (en_id e)] | None \<Rightarrow> []), w1)))"

end
