(* ===== verification/World_Actions.thy ===== *)
theory World_Actions
  imports World_Repository
begin

text \<open>
  What every action does to the model machine: \<open>World::apply\<close> of
  \<open>crates/core/src/model/mod.rs\<close>, arm by arm, and how a machine is set up from facts and observed.

  The code panics where the top of a tree that it copies is missing; the preconditions exclude that,
  and \<open>copied_top\<close> shows it, so that \<^const>\<open>the\<close> stands for these two calls of \<open>expect\<close>.
\<close>

section \<open>Files\<close>

definition do_create_dir :: "path \<Rightarrow> u32 \<Rightarrow> owner option \<Rightarrow> world \<Rightarrow> action list attempt" where
  "do_create_dir p mode owner w =
     (let (fid, w1) = place p Content_Directory mode (case owner of Some ow \<Rightarrow> ow | None \<Rightarrow> root_owner) w
      in (Inr [RemoveCreated p fid], w1))"

text \<open>New entries one after the other; the identity of the first, and of the one at a given path.\<close>

type_synonym item = "path \<times> content \<times> u32 \<times> owner"

fun place_all :: "item list \<Rightarrow> world \<Rightarrow> (path \<times> file_id) list \<times> world" where
  "place_all [] w = ([], w)"
| "place_all ((p, c, mode, owner) # items) w =
     (let (fid, w1) = place p c mode owner w; (fids, w2) = place_all items w1 in ((p, fid) # fids, w2))"

definition do_create_dirs :: "path \<Rightarrow> u32 \<Rightarrow> owner option \<Rightarrow> path \<Rightarrow> world \<Rightarrow> action list attempt" where
  "do_create_dirs p mode owner head_dir w =
     (let missing = rev (takeWhile (\<lambda>dir. starts_with dir head_dir) (ancestors p));
          ow = (case owner of Some ow \<Rightarrow> ow | None \<Rightarrow> root_owner);
          (fids, w1) = place_all
            (map (\<lambda>dir. (dir, Content_Directory, if dir = p then mode else mode_of 7 5 5, ow)) missing) w
      in (Inr [RemoveCreatedTree head_dir (snd (hd fids))], w1))"

definition do_set_mode :: "path \<Rightarrow> u32 \<Rightarrow> u32 \<Rightarrow> world \<Rightarrow> action list attempt" where
  "do_set_mode p mode expect w =
     (case file_at w p of
        None \<Rightarrow> (Inl (not_found p), w)
      | Some e \<Rightarrow> (Inr [SetMode p expect mode], add_file p (e\<lparr>en_mode := mode\<rparr>) w))"

definition do_set_owner :: "path \<Rightarrow> owner \<Rightarrow> owner \<Rightarrow> world \<Rightarrow> action list attempt" where
  "do_set_owner p owner expect w =
     (case file_at w p of
        None \<Rightarrow> (Inl (not_found p), w)
      | Some e \<Rightarrow> (Inr [SetOwner p expect owner], add_file p (e\<lparr>en_owner := owner\<rparr>) w))"

text \<open>A profile directory that is set aside takes its profile with it.\<close>

definition aside_profile :: "path \<Rightarrow> path \<Rightarrow> world \<Rightarrow> world" where
  "aside_profile p aside w =
     (case (if ends_with p (components NIX_PROFILES_DIR) then file_at w p else None) of
        Some e \<Rightarrow>
          (case map_of (w_profiles w) (fst (en_owner e)) of
             Some pr \<Rightarrow> w\<lparr>w_profiles := bt_remove (fst (en_owner e)) (w_profiles w),
               w_aside := bt_insert aside (fst (en_owner e), pr) (w_aside w)\<rparr>
           | None \<Rightarrow> w)
      | None \<Rightarrow> w)"

definition do_set_aside :: "path \<Rightarrow> world \<Rightarrow> action list attempt" where
  "do_set_aside p w =
     (let (aside, w1) = sibling p ''aside'' w
      in (Inr [Restore p aside Expect_Absent], pend aside (move_tree p aside (aside_profile p aside w1))))"

definition no_setid :: "u32 \<Rightarrow> u32" where
  "no_setid mode = mode AND NOT (of_nat 3072)"

definition tree_items :: "path \<Rightarrow> path \<Rightarrow> owner \<Rightarrow> u32 \<Rightarrow> world \<Rightarrow> item list" where
  "tree_items from to owner mode w =
     List.map_filter (\<lambda>old. map_option (\<lambda>e.
       (moved from to old, en_content e, if old = from then mode else no_setid (en_mode e), owner)) (file_at w old))
       (paths_below from w)"

definition do_reclaim_tree :: "path \<Rightarrow> owner \<Rightarrow> u32 \<Rightarrow> world \<Rightarrow> action list attempt" where
  "do_reclaim_tree p owner mode w =
     (let (aside, w1) = sibling p ''aside'' w; items = tree_items p p owner mode w1;
          (fids, w2) = place_all items (move_tree p aside w1)
      in (Inr [RemoveCreatedTree p (the (map_of fids p)), Restore p aside Expect_Absent], pend aside w2))"

definition do_copy_tree :: "path \<Rightarrow> path \<Rightarrow> owner \<Rightarrow> u32 \<Rightarrow> world \<Rightarrow> action list attempt" where
  "do_copy_tree from to owner mode w =
     (if to \<noteq> from \<and> starts_with to from
      then (Inl (path_conflict to ''a place outside the tree being copied'' ''a place inside it''), w)
      else (let (fids, w1) = place_all (tree_items from to owner mode w) w
            in (Inr [RemoveCreatedTree to (the (map_of fids to))], w1)))"

definition do_remove_created :: "path \<Rightarrow> world \<Rightarrow> action list attempt" where
  "do_remove_created p w =
     (if has_children p w then (Inl (path_conflict p ''an empty directory'' ''a directory with contents''), w)
      else (Inr [], del_file p w))"

definition bring_back :: "path \<Rightarrow> world \<Rightarrow> world" where
  "bring_back from w =
     (case map_of (w_aside w) from of
        Some (uid, pr) \<Rightarrow> w\<lparr>w_aside := bt_remove from (w_aside w), w_profiles := bt_insert uid pr (w_profiles w)\<rparr>
      | None \<Rightarrow> w)"

definition do_restore :: "path \<Rightarrow> path \<Rightarrow> world \<Rightarrow> action list attempt" where
  "do_restore p from w = (Inr [], unpend from (bring_back from (move_tree from p (remove_tree p w))))"

section \<open>Accounts\<close>

definition set_group :: "string \<Rightarrow> (group_facts \<Rightarrow> group_facts) \<Rightarrow> world \<Rightarrow> world" where
  "set_group name f w =
     (case map_of (w_groups w) name of
        Some g \<Rightarrow> w\<lparr>w_groups := bt_insert name (f g) (w_groups w)\<rparr> | None \<Rightarrow> w)"

definition set_user :: "string \<Rightarrow> (user_facts \<Rightarrow> user_facts) \<Rightarrow> world \<Rightarrow> world" where
  "set_user name f w =
     (case map_of (w_users w) name of
        Some u \<Rightarrow> w\<lparr>w_users := bt_insert name (f u) (w_users w)\<rparr> | None \<Rightarrow> w)"

definition enrol :: "string \<Rightarrow> group_facts \<Rightarrow> group_facts" where
  "enrol user g = g\<lparr>gf_members := sort (gf_members g @ [user])\<rparr>"

definition expel :: "string \<Rightarrow> group_facts \<Rightarrow> group_facts" where
  "expel user g = g\<lparr>gf_members := filter (\<lambda>m. m \<noteq> user) (gf_members g)\<rparr>"

definition facts_of_spec :: "user_spec \<Rightarrow> user_facts" where
  "facts_of_spec spec =
     \<lparr>uf_uid = us_uid spec, uf_gid = us_gid spec, uf_home = us_home spec, uf_shell = us_shell spec,
      uf_comment = us_comment spec\<rparr>"

fun do_account :: "action \<Rightarrow> world \<Rightarrow> world" where
  "do_account (AddGroup name gid) w =
     w\<lparr>w_groups := bt_insert name \<lparr>gf_gid = gid, gf_members = []\<rparr> (w_groups w)\<rparr>"
| "do_account (SetGroupGid name gid expect) w =
     (set_group name (\<lambda>g. g\<lparr>gf_gid := gid\<rparr>) w)
       \<lparr>w_users := bt_map (\<lambda>u. if uf_gid u = expect then u\<lparr>uf_gid := gid\<rparr> else u) (w_users w)\<rparr>"
| "do_account (DeleteGroup name _) w = w\<lparr>w_groups := bt_remove name (w_groups w)\<rparr>"
| "do_account (AddUser spec) w =
     fold (\<lambda>grp. set_group grp (enrol (us_name spec))) (us_groups spec)
       (w\<lparr>w_users := bt_insert (us_name spec) (facts_of_spec spec) (w_users w)\<rparr>)"
| "do_account (SetUserIds name ids _) w =
     set_user name (\<lambda>u. u\<lparr>uf_uid := fst ids, uf_gid := snd ids\<rparr>) w"
| "do_account (DeleteUser name _ _) w =
     w\<lparr>w_users := bt_remove name (w_users w), w_groups := bt_map (expel name) (w_groups w)\<rparr>"
| "do_account (AddMember grp user) w = set_group grp (enrol user) w"
| "do_account (RemoveMember grp user) w = set_group grp (expel user) w"
| "do_account _ w = w"

section \<open>Units\<close>

definition do_install_unit :: "string \<Rightarrow> bytes \<Rightarrow> expect \<Rightarrow> world \<Rightarrow> action list attempt" where
  "do_install_unit unit contents e w =
     then_do (put_file (unit_path unit) contents (mode_of 6 4 4) root_owner e w)
       (\<lambda>undo w1. (Inr (undo @ [DaemonReload]), w1))"

definition install_link :: "string \<Rightarrow> path \<Rightarrow> world \<Rightarrow> world" where
  "install_link unit link w = with_file link unit (mode_of 7 7 7) root_owner (with_wants_dir link w)"

definition do_enable_unit :: "string \<Rightarrow> world \<Rightarrow> action list attempt" where
  "do_enable_unit unit w =
     (if enabled w unit then (Inl (Conflict unit ''disabled'' ''enabled''), w)
      else then_do (loaded_unit unit Unit_Enable w) (\<lambda>u w1.
        (Inr [DisableUnit unit],
         reload (fold (install_link unit) (case ut_loaded u of Some file \<Rightarrow> install_links unit file | None \<Rightarrow> []) w1))))"

definition remove_link :: "path \<Rightarrow> world \<Rightarrow> world" where
  "remove_link link w =
     (let w1 = del_file link w
      in case path_parent link of
        Some dir \<Rightarrow> if length (paths_below dir w1) = 1 then del_file dir w1 else w1
      | None \<Rightarrow> w1)"

definition do_disable_unit :: "string \<Rightarrow> world \<Rightarrow> action list attempt" where
  "do_disable_unit unit w =
     (if \<not> enabled w unit then (Inl (Conflict unit ''enabled'' ''disabled''), w)
      else
        (let w1 = fold remove_link (unit_links w unit) w
         in (Inr [EnableUnit unit], reload (set_unit unit (forget_unless_held (unit_at w1 unit) False) w1))))"

definition do_start_unit :: "string \<Rightarrow> world \<Rightarrow> action list attempt" where
  "do_start_unit unit w =
     then_do (loaded_unit unit Unit_Start w) (\<lambda>u w1.
       if ut_running u \<noteq> None then (Inl (Conflict unit ''inactive'' ''active''), w1)
       else (let (fid, w2) = fresh w1
             in (Inr [StopUnit unit], set_unit unit (u\<lparr>ut_running := ut_loaded u, ut_since := Some (fid_ino fid)\<rparr>) w2)))"

definition do_stop_unit :: "string \<Rightarrow> world \<Rightarrow> action list attempt" where
  "do_stop_unit unit w =
     (let on = enabled w unit; u = unit_at w unit
      in if ut_running u = None then (Inl (Conflict unit ''active'' ''inactive''), set_unit unit u w)
         else (Inr [StartUnit unit],
           set_unit unit (forget_unless_held (u\<lparr>ut_running := None, ut_since := None\<rparr>) on) w))"

definition do_restart_unit :: "string \<Rightarrow> world \<Rightarrow> action list attempt" where
  "do_restart_unit unit w =
     (let (fid, w1) = fresh w; u = unit_at w1 unit
      in if ut_running u = None then (Inr [], set_unit unit u w1)
         else (Inr [RestartUnit unit],
           set_unit unit (u\<lparr>ut_running := ut_loaded u, ut_since := Some (fid_ino fid)\<rparr>) w1))"

definition do_drain_service :: "string \<Rightarrow> world \<Rightarrow> action list attempt" where
  "do_drain_service unit w =
     (let (fid, w1) = fresh w; u = unit_at w1 unit
      in (Inr [], set_unit unit
           (if ut_running u = None then u else u\<lparr>ut_running := ut_loaded u, ut_since := Some (fid_ino fid)\<rparr>) w1))"

section \<open>The runtime\<close>

definition runtime_files :: "(path \<times> bytes) list" where
  "runtime_files =
     [(DEFAULT_PROFILE_NIX_ENV, ''nix-env''),
      (NIX_DAEMON_SERVICE_SRC,
       ''[Service]'' @ [newline] @ ''ExecStart=nix-daemon'' @ [newline, newline]
       @ ''[Install]'' @ [newline] @ ''WantedBy=multi-user.target'' @ [newline]),
      (NIX_DAEMON_SOCKET_SRC,
       ''[Socket]'' @ [newline] @ ''ListenStream=/nix/var/nix/daemon-socket/socket'' @ [newline, newline]
       @ ''[Install]'' @ [newline] @ ''WantedBy=sockets.target'' @ [newline])]"

definition make_missing :: "path \<Rightarrow> world \<Rightarrow> unit attempt" where
  "make_missing dir w =
     (case parent_is_dir w dir of
        Inl f \<Rightarrow> (Inl f, w) | Inr _ \<Rightarrow> (Inr (), with_dir dir (mode_of 7 5 5) root_owner w))"

fun install_files :: "(path \<times> bytes) list \<Rightarrow> path list \<Rightarrow> world \<Rightarrow> path list attempt" where
  "install_files [] created w = (Inr created, w)"
| "install_files ((file, contents) # files) created w =
     (let missing = rev (takeWhile (\<lambda>dir. file_at w dir = None) (tl (ancestors file)));
          created1 = created @ (case missing of [] \<Rightarrow> [] | head_dir # _ \<Rightarrow> [head_dir])
      in then_do (each make_missing missing w) (\<lambda>_ w1.
         then_do (put_file file contents (mode_of 4 4 4) root_owner Expect_Absent w1) (\<lambda>_ w2.
         install_files files created1 w2)))"

definition install_runtime :: "world \<Rightarrow> action list attempt" where
  "install_runtime w =
     then_do
       (if file_at w NIX_STORE = None then
          (case parent_is_dir w NIX_STORE of
             Inl f \<Rightarrow> (Inl f, w)
           | Inr _ \<Rightarrow> (Inr [NIX_STORE], with_dir NIX_STORE (mode_of 15 7 5) root_owner w))
        else (Inr [], w)) (\<lambda>created w1.
     then_do (install_files runtime_files created w1) (\<lambda>created w2. (Inr [RemoveRuntime created []], w2)))"

section \<open>Profiles\<close>

definition profile_at :: "world \<Rightarrow> u32 \<Rightarrow> profile" where
  "profile_at w uid = (case map_of (w_profiles w) uid of Some pr \<Rightarrow> pr | None \<Rightarrow> default_profile)"

definition set_profile :: "u32 \<Rightarrow> profile \<Rightarrow> world \<Rightarrow> world" where
  "set_profile uid pr w = w\<lparr>w_profiles := bt_insert uid pr (w_profiles w)\<rparr>"

definition max_of :: "nat list \<Rightarrow> nat option" where
  "max_of xs = (if xs = [] then None else Some (fold max xs 0))"

definition generation_config :: "world \<Rightarrow> invoking_user \<Rightarrow> bytes option list" where
  "generation_config w user =
     map (\<lambda>(file, _). file_contents w (path_join (mix_state_dir (iu_home user)) file)) GENERATION_INPUTS"

definition do_activate_profile :: "invoking_user \<Rightarrow> world \<Rightarrow> action list attempt" where
  "do_activate_profile user w =
     (if file_contents w DEFAULT_PROFILE_NIX_ENV = None
      then (Inl (SpawnFailed (path_display DEFAULT_PROFILE_NIX_ENV) ''NotFound''), w)
      else
        (let config = generation_config w user; pr = profile_at w (iu_uid user); previous = pr_active pr;
             built = max_of (filter (\<lambda>g. map_of (pr_built pr) g = Some config)
               (filter (\<lambda>g. g \<notin> set (pr_dangling pr)) (pr_generations pr)))
         in case built of
           Some g \<Rightarrow>
             (Inr (if previous = Some g then []
                   else [SwitchGeneration user previous (Some g), ApplyGeneration user]),
              set_profile (iu_uid user) (pr\<lparr>pr_active := Some g\<rparr>) w)
         | None \<Rightarrow>
             (let g = (case max_of (pr_generations pr) of None \<Rightarrow> 1 | Some l \<Rightarrow> l + 1)
              in (Inr [SwitchGeneration user previous (Some g), DeleteGeneration user g, ApplyGeneration user],
                  set_profile (iu_uid user)
                    (pr\<lparr>pr_generations := pr_generations pr @ [g], pr_built := bt_insert g config (pr_built pr),
                        pr_active := Some g\<rparr>) w))))"

definition do_delete_generation :: "invoking_user \<Rightarrow> nat \<Rightarrow> world \<Rightarrow> action list attempt" where
  "do_delete_generation user g w =
     (let pr = profile_at w (iu_uid user); w1 = set_profile (iu_uid user) pr w
      in if pr_active pr = Some g
         then (Inl (Conflict (iu_name user) (''generation '' @ show_nat g @ '' inactive'') ''the active generation''), w1)
         else if g \<notin> set (pr_generations pr)
         then (Inl (Conflict (iu_name user) (''generation '' @ show_nat g) ''no such generation''), w1)
         else
           (let pr1 = pr\<lparr>pr_generations := filter (\<lambda>k. k \<noteq> g) (pr_generations pr),
                  pr_dangling := filter (\<lambda>k. k \<noteq> g) (pr_dangling pr), pr_built := bt_remove g (pr_built pr)\<rparr>
            in (Inr [],
                if pr_generations pr1 = [] \<and> pr_active pr1 = None
                then w1\<lparr>w_profiles := bt_remove (iu_uid user) (w_profiles w1)\<rparr>
                else set_profile (iu_uid user) pr1 w1)))"

definition debug_option :: "nat option \<Rightarrow> string" where
  "debug_option g = (case g of None \<Rightarrow> ''None'' | Some n \<Rightarrow> ''Some('' @ show_nat n @ '')'')"

definition do_switch_generation :: "invoking_user \<Rightarrow> nat option \<Rightarrow> nat option \<Rightarrow> world \<Rightarrow> action list attempt" where
  "do_switch_generation user g expect w =
     (let pr = profile_at w (iu_uid user)
      in if pr_active pr \<noteq> expect
         then (Inl (Conflict (iu_name user) (''generation '' @ debug_option expect)
                 (''generation '' @ debug_option (pr_active pr))), set_profile (iu_uid user) pr w)
         else (Inr [SwitchGeneration user expect g], set_profile (iu_uid user) (pr\<lparr>pr_active := g\<rparr>) w))"

definition do_commit :: "world \<Rightarrow> world" where
  "do_commit w =
     fold (\<lambda>p w. remove_tree p (w\<lparr>w_aside := bt_remove p (w_aside w)\<rparr>))
       (case map_of (w_pending w) (w_acting w) of Some ps \<Rightarrow> ps | None \<Rightarrow> [])
       (w\<lparr>w_pending := bt_remove (w_acting w) (w_pending w)\<rparr>)"

section \<open>Applying an action\<close>

fun already :: "world \<Rightarrow> action \<Rightarrow> bool" where
  "already w (EnableUnit unit) = enabled w unit"
| "already w (DisableUnit unit) = (\<not> enabled w unit)"
| "already w (StartUnit unit) = (ut_running (unit_at w unit) \<noteq> None)"
| "already w (StopUnit unit) = (ut_running (unit_at w unit) = None)"
| "already w _ = False"

text \<open>The arms, with the clearance and the undo actions that were found for the action.\<close>

fun perform :: "action \<Rightarrow> clearance \<Rightarrow> action list \<Rightarrow> world \<Rightarrow> action list attempt" where
  "perform (CreateDir p mode owner) c undo w = do_create_dir p mode owner w"
| "perform (CreateDirs p mode owner) c undo w =
     (case c of
        Clear_Below head_dir \<Rightarrow> do_create_dirs p mode owner head_dir w
      | _ \<Rightarrow> (Inl (path_conflict p ''a top to create'' ''none''), w))"
| "perform (PutFile p contents mode owner e) c undo w =
     put_file p contents mode (case owner of Some ow \<Rightarrow> ow | None \<Rightarrow> root_owner) e w"
| "perform (SetMode p mode expect) c undo w = do_set_mode p mode expect w"
| "perform (SetOwner p owner expect) c undo w = do_set_owner p owner expect w"
| "perform (SetAside p _) c undo w = do_set_aside p w"
| "perform (Discard p _) c undo w = (Inr [Keep p], pend p w)"
| "perform (Keep p) c undo w = (Inr [], unpend p w)"
| "perform (ReclaimTree p _ owner mode) c undo w = do_reclaim_tree p owner mode w"
| "perform (CopyTree from to owner mode) c undo w = do_copy_tree from to owner mode w"
| "perform (RemoveCreated p _) c undo w = do_remove_created p w"
| "perform (RemoveCreatedTree p _) c undo w = (Inr [], remove_tree p w)"
| "perform (Restore p from _) c undo w = do_restore p from w"
| "perform (InstallUnit unit contents e) c undo w = do_install_unit unit contents e w"
| "perform DaemonReload c undo w = (Inr [DaemonReload], reload w)"
| "perform (EnableUnit unit) c undo w = do_enable_unit unit w"
| "perform (DisableUnit unit) c undo w = do_disable_unit unit w"
| "perform (StartUnit unit) c undo w = do_start_unit unit w"
| "perform (StopUnit unit) c undo w = do_stop_unit unit w"
| "perform (RestartUnit unit) c undo w = do_restart_unit unit w"
| "perform (DrainService unit) c undo w = do_drain_service unit w"
| "perform (InstallRuntime _ _ _) c undo w = install_runtime w"
| "perform (RemoveRuntime created _) c undo w = (Inr [], fold remove_tree created w)"
| "perform (ActivateProfile user _) c undo w = do_activate_profile user w"
| "perform (DeleteGeneration user g) c undo w = do_delete_generation user g w"
| "perform (SwitchGeneration user g expect) c undo w = do_switch_generation user g expect w"
| "perform (ApplyGeneration user) c undo w = (Inr [ApplyGeneration user], w)"
| "perform (CollectGarbage _) c undo w = (Inr [], w)"
| "perform (RecordState user) c undo w = (let (undo', w1) = record_state user w in (Inr undo', w1))"
| "perform (CreateRepository user) c undo w = create_repository user w"
| "perform Commit c undo w = (Inr [], do_commit w)"
| "perform (AddGroup name gid) c undo w = (Inr undo, do_account (AddGroup name gid) w)"
| "perform (SetGroupGid name gid expect) c undo w = (Inr undo, do_account (SetGroupGid name gid expect) w)"
| "perform (DeleteGroup name expect) c undo w = (Inr undo, do_account (DeleteGroup name expect) w)"
| "perform (AddUser spec) c undo w = (Inr undo, do_account (AddUser spec) w)"
| "perform (SetUserIds name ids expect) c undo w = (Inr undo, do_account (SetUserIds name ids expect) w)"
| "perform (DeleteUser name ids comment) c undo w = (Inr undo, do_account (DeleteUser name ids comment) w)"
| "perform (AddMember grp user) c undo w = (Inr undo, do_account (AddMember grp user) w)"
| "perform (RemoveMember grp user) c undo w = (Inr undo, do_account (RemoveMember grp user) w)"

definition cleared :: "action \<Rightarrow> world \<Rightarrow> failure + clearance" where
  "cleared a w = (case a of PutFile _ _ _ _ _ \<Rightarrow> Inr Clear_Go | _ \<Rightarrow> precondition a (world_ground w))"

definition apply_action :: "action \<Rightarrow> world \<Rightarrow> action list attempt" where
  "apply_action a w =
     (if already w a then (Inr [], w)
      else case cleared a w of
        Inl f \<Rightarrow> (Inl f, w)
      | Inr c \<Rightarrow>
          if c = Clear_Done then (Inr [], w)
          else case account_precondition a (world_accounts w) of
            Inl f \<Rightarrow> (Inl f, w)
          | Inr Accounted_Done \<Rightarrow> (Inr [], w)
          | Inr (Accounted_Go undo) \<Rightarrow> perform a c undo w)"

text \<open>Actions one after the other, up to the first that fails.\<close>

fun apply_all :: "action list \<Rightarrow> world \<Rightarrow> (failure + action list list) \<times> world" where
  "apply_all [] w = (Inr [], w)"
| "apply_all (a # as) w =
     then_do (apply_action a w) (\<lambda>undo w1. then_do (apply_all as w1) (\<lambda>undos w2. (Inr (undo # undos), w2)))"

end
