(* ===== verification/World_Facts.thy ===== *)
theory World_Facts
  imports World_Actions
begin

text \<open>
  How the model machine answers queries, and how it is set up from facts that were observed on a
  real one (\<open>observe\<close> and the \<open>seed_\<close> methods of \<open>crates/core/src/model/mod.rs\<close>).
\<close>

section \<open>Setting up\<close>

definition seed_path :: "path \<Rightarrow> path_facts \<Rightarrow> bytes option \<Rightarrow> world \<Rightarrow> world" where
  "seed_path p facts contents w =
     (case paf_kind facts of
        PathKind_Missing \<Rightarrow> del_file p w
      | kind \<Rightarrow>
          (let c = (if kind = PathKind_Directory then Content_Directory
                    else Content_File (case contents of Some bs \<Rightarrow> bs | None \<Rightarrow> []));
               (fid, w1) = (case paf_id facts of Some fid \<Rightarrow> (fid, w) | None \<Rightarrow> fresh w)
           in add_file p
             \<lparr>en_content = c, en_mode = paf_mode facts, en_owner = paf_owner facts, en_id = fid,
              en_changed = (case paf_changed facts of Some (s, _) \<Rightarrow> nat s | None \<Rightarrow> fid_ino fid)\<rparr> w1))"

definition seed_group :: "string \<Rightarrow> group_facts option \<Rightarrow> world \<Rightarrow> world" where
  "seed_group name found w =
     (case found of
        Some g \<Rightarrow> w\<lparr>w_groups := bt_insert name g (w_groups w)\<rparr>
      | None \<Rightarrow> w\<lparr>w_groups := bt_remove name (w_groups w)\<rparr>)"

definition seed_user :: "string \<Rightarrow> user_facts option \<Rightarrow> world \<Rightarrow> world" where
  "seed_user name found w =
     (case found of
        Some u \<Rightarrow> w\<lparr>w_users := bt_insert name u (w_users w)\<rparr>
      | None \<Rightarrow> w\<lparr>w_users := bt_remove name (w_users w)\<rparr>)"

definition seed_link :: "string \<Rightarrow> path \<times> file_id \<Rightarrow> world \<Rightarrow> world" where
  "seed_link name link w =
     add_file (fst link) (new_entry (Content_File name) (mode_of 7 7 7) root_owner (snd link)) (with_wants_dir (fst link) w)"

definition seed_unit :: "string \<Rightarrow> unit_facts \<Rightarrow> bytes option \<Rightarrow> (path \<times> file_id) list \<Rightarrow> world \<Rightarrow> world" where
  "seed_unit name found file links w =
     (let w1 = fold (seed_link name) (filter (\<lambda>link. path_parent (fst link) \<noteq> Some SYSTEMD_UNIT_DIR) links) w;
          loaded = (if unf_load_state found = ''loaded'' then file else None);
          running = (if unf_active_state found \<in> {''active'', ''reloading''} then loaded else None);
          (since, w2) = (if running \<noteq> None then (let (fid, w2) = fresh w1 in (Some (fid_ino fid), w2)) else (None, w1));
          stamp = (if unf_needs_reload found then None else file_stamp w2 (unit_path name))
      in set_unit name \<lparr>ut_loaded = loaded, ut_running = running, ut_since = since, ut_stamp = stamp\<rparr> w2)"

definition seed_profile :: "u32 \<Rightarrow> profile_facts \<Rightarrow> world \<Rightarrow> world" where
  "seed_profile uid found w =
     set_profile uid \<lparr>pr_generations = pf_generations found, pr_active = pf_active found, pr_built = [],
       pr_dangling = pf_dangling found\<rparr> w"

section \<open>Answers\<close>

definition entry_facts :: "file_entry option \<Rightarrow> path_facts" where
  "entry_facts found =
     (case found of
        None \<Rightarrow> \<lparr>paf_kind = PathKind_Missing, paf_mode = 0, paf_owner = root_owner, paf_id = None,
          paf_digest = None, paf_changed = None\<rparr>
      | Some e \<Rightarrow>
          \<lparr>paf_kind = (case en_content e of Content_Directory \<Rightarrow> PathKind_Directory | Content_File _ \<Rightarrow> PathKind_File),
           paf_mode = en_mode e, paf_owner = en_owner e, paf_id = Some (en_id e), paf_digest = None,
           paf_changed = Some (int (en_changed e), 0)\<rparr>)"

definition profile_answer :: "world \<Rightarrow> u32 \<Rightarrow> profile_facts" where
  "profile_answer w uid =
     (case map_of (w_profiles w) uid of
        Some pr \<Rightarrow> \<lparr>pf_generations = sort (pr_generations pr), pf_active = pr_active pr, pf_dangling = sort (pr_dangling pr)\<rparr>
      | None \<Rightarrow> \<lparr>pf_generations = [], pf_active = None, pf_dangling = []\<rparr>)"

definition active_input :: "world \<Rightarrow> invoking_user \<Rightarrow> string \<Rightarrow> bytes option" where
  "active_input w user file =
     (case find_index (\<lambda>(source, _). source = file) GENERATION_INPUTS of
        None \<Rightarrow> None
      | Some index \<Rightarrow>
          (case map_of (w_profiles w) (iu_uid user) of
             None \<Rightarrow> None
           | Some pr \<Rightarrow>
               (case Option.bind (pr_active pr) (map_of (pr_built pr)) of
                  None \<Rightarrow> None
                | Some built \<Rightarrow> if index < length built then built ! index else None)))"

definition repository_answer :: "world \<Rightarrow> invoking_user \<Rightarrow> fact" where
  "repository_answer w user =
     (let intact = usable w user \<and> verifies w user \<and> reusable w user
      in Fact_Repository intact (intact \<and> indexed w user \<and> committed w user = Some (staged w user)))"

definition leftovers_answer :: "world \<Rightarrow> path \<Rightarrow> (path \<times> file_id) list" where
  "leftovers_answer w dir =
     map (\<lambda>(p, e). (p, en_id e))
       (filter (\<lambda>(p, e). path_parent p = Some dir \<and>
          (case file_name p of Some name \<Rightarrow> is_leftover (utf8_lossy name) | None \<Rightarrow> False) \<and>
          \<not> (case map_of (w_pending w) (w_acting w) of Some own \<Rightarrow> p \<in> set own | None \<Rightarrow> False))
         (w_files w))"

definition entry_ids :: "world \<Rightarrow> path list \<Rightarrow> (path \<times> file_id) list" where
  "entry_ids w ps = List.map_filter (\<lambda>p. map_option (\<lambda>e. (p, en_id e)) (file_at w p)) ps"

definition unit_stale :: "world \<Rightarrow> string \<Rightarrow> bool" where
  "unit_stale w name \<longleftrightarrow>
     unit_held (unit_at w name) (enabled w name) \<and>
     (case (file_stamp w (unit_path name), ut_stamp (unit_at w name)) of
        (Some stamp, Some loaded) \<Rightarrow> loaded < stamp
      | (None, None) \<Rightarrow> False
      | _ \<Rightarrow> True)"

definition unit_answer :: "world \<Rightarrow> string \<Rightarrow> unit_facts" where
  "unit_answer w name =
     (let u = unit_at w name; on = enabled w name; file = file_contents w (unit_path name)
      in \<lparr>unf_load_state = (if unit_seen u on file \<noteq> None then ''loaded'' else ''not-found''),
          unf_active_state = (if ut_running u \<noteq> None then ''active'' else ''inactive''),
          unf_file_state = (if on then ''enabled'' else if file \<noteq> None then ''disabled'' else []),
          unf_needs_reload = unit_stale w name,
          unf_active_since = map_option (\<lambda>since. (int since, 0)) (ut_since u)\<rparr>)"

definition program_answer :: "world \<Rightarrow> path \<Rightarrow> path \<Rightarrow> program_facts" where
  "program_answer w p source =
     (let installed = file_contents w p; running = file_contents w source;
          same = (installed \<noteq> None \<and> installed = running)
      in \<lparr>prf_same = same, prf_source = (if same then None else running)\<rparr>)"

definition stranger_answer :: "world \<Rightarrow> path \<Rightarrow> owner \<Rightarrow> (path \<times> owner) option" where
  "stranger_answer w p owner =
     find (\<lambda>(_, found). found \<noteq> owner)
       (List.map_filter (\<lambda>at. map_option (\<lambda>e. (at, en_owner e)) (file_at w at)) (paths_below p w))"

fun observe_query :: "world \<Rightarrow> query \<Rightarrow> fact" where
  "observe_query w (Query_Path p) = Fact_Path (entry_facts (file_at w p))"
| "observe_query w (Query_Contents p) = Fact_Contents (file_contents w p)"
| "observe_query w (Query_Group name) = Fact_Group (map_of (w_groups w) name)"
| "observe_query w (Query_User name) = Fact_User (map_of (w_users w) name)"
| "observe_query w Query_Accounts = Fact_Accounts (w_users w)"
| "observe_query w (Query_TreeOwner p) = Fact_TreeOwner (map_option fst (tree_owner w p))"
| "observe_query w (Query_Repository user) = repository_answer w user"
| "observe_query w (Query_Profile user) = Fact_Profile (profile_answer w (iu_uid user))"
| "observe_query w (Query_ActiveList user) = Fact_Contents (active_input w user STATE_FILE)"
| "observe_query w (Query_ActiveLock user) = Fact_Contents (active_input w user FLAKE_LOCK)"
| "observe_query w (Query_Journals _) =
     Fact_Journals (w_journals w
       @ map (\<lambda>(req, records). abandoned_request_of req records)
           (filter (\<lambda>(req, _). req \<notin> set (w_held w)) (w_logs w)))"
| "observe_query w (Query_Leftovers dir) = Fact_Leftovers (leftovers_answer w dir)"
| "observe_query w (Query_Strangers p owner) = Fact_Stranger (stranger_answer w p owner)"
| "observe_query w (Query_Program p source) = Fact_Program (program_answer w p source)"
| "observe_query w (Query_Clobbered user) =
     Fact_Clobbered (case map_of (w_clobbered w) (iu_uid user) of Some ps \<Rightarrow> ps | None \<Rightarrow> [])"
| "observe_query w (Query_Linked user) =
     Fact_Linked (entry_ids w (case map_of (w_linked w) (iu_uid user) of Some ps \<Rightarrow> ps | None \<Rightarrow> []))"
| "observe_query w (Query_UnitLinks name) = Fact_UnitLinks (entry_ids w (unit_links w name))"
| "observe_query w (Query_Unit name) = Fact_Unit (unit_answer w name)"

end
