(* ===== verification/Drive.thy ===== *)
theory Drive
  imports Runner_Play World_Facts
begin

text \<open>
  The driver of a request (\<open>drive\<close> in \<open>crates/shell/src/drive.rs\<close>): it calls the runner, has the
  performer answer its queries and perform its actions, and writes to the journal what it is
  about to change, before it is changed, and what has become of it.

  The machine is a state that the performer and the journal act on: performing an action is a
  \<open>performing\<close>, what it does up to each call of the closure \<open>prepared\<close> and after it. Of the performer the
  branch on a model machine is here, with the faults that tests inject. How a failure is shown and
  how a record or an observation is encoded for the stream are parameters of the host.
\<close>

section \<open>What the driver is told\<close>

datatype signal = Signal_Progress progress | Signal_Warning diagnostic

text \<open>Why a request is stopped (\<open>Reason\<close> of \<open>crates/exec/src/scope.rs\<close>), and as what it is reported.\<close>

datatype reason = Reason_Interrupted | Reason_Terminated | Reason_ClientGone

fun stopped_by :: "reason \<Rightarrow> cancellation" where
  "stopped_by Reason_Interrupted = Cancellation_Interrupted"
| "stopped_by Reason_Terminated = Cancellation_Terminated"
| "stopped_by Reason_ClientGone = Cancellation_ClientGone"

definition announce :: "cancellation option \<Rightarrow> bool \<times> tree \<Rightarrow> bool \<times> tree" where
  "announce cause s =
     (let (announced, t) = s
      in if announced then s
         else (True, case cause of
            None \<Rightarrow> t
          | Some c \<Rightarrow> (case tree_progress t ROOT (Progress_Stopping (cancellation_i32 c)) of Inr t' \<Rightarrow> t' | Inl _ \<Rightarrow> t)))"

definition apply_signal :: "nat \<Rightarrow> signal \<Rightarrow> tree \<Rightarrow> tree" where
  "apply_signal node s t =
     (case (case s of
        Signal_Progress p \<Rightarrow> tree_progress t node p
      | Signal_Warning d \<Rightarrow> tree_warn t node d) of Inr t' \<Rightarrow> t' | Inl _ \<Rightarrow> t)"

section \<open>Performing\<close>

text \<open>
  What performing an action does: it ends, or the process is killed meanwhile, or it sends a signal,
  or it calls \<open>prepared\<close>, which acts on the machine (it writes the journal) and may refuse.
\<close>

datatype 'm performing =
    Ends outcome_of 'm
  | Crashes 'm
  | Signals signal "'m performing"
  | Announces "action list" 'm "failure option \<Rightarrow> 'm \<Rightarrow> 'm performing"

record 'm host =
  h_diag :: "failure \<Rightarrow> diagnostic"
  h_traced :: bool
  h_journaled :: "journal_record \<Rightarrow> payload"
  h_observed :: "query list \<Rightarrow> fact list \<Rightarrow> payload"
  h_observe :: "query list \<Rightarrow> 'm \<Rightarrow> (failure + fact list) \<times> 'm"
  h_perform :: "action \<Rightarrow> bool \<Rightarrow> 'm \<Rightarrow> 'm performing"
  h_adopt :: "path list \<Rightarrow> 'm \<Rightarrow> failure option \<times> 'm"
  h_append :: "journal_record \<Rightarrow> 'm \<Rightarrow> failure option \<times> 'm"

definition journaled :: "'m host \<Rightarrow> journal_record \<Rightarrow> progress" where
  "journaled h rec = Progress_Journaled (h_journaled h rec)"

definition warning :: "(failure \<Rightarrow> diagnostic) \<Rightarrow> code \<Rightarrow> string \<Rightarrow> failure \<Rightarrow> diagnostic" where
  "warning diag c message cause =
     Diagnostic (code_i32 c) (severity_i32 Severity_Warning) 0 message
       [if cause = Cancelled
        then Diagnostic (code_i32 Code_Unspecified) (severity_i32 Severity_Error) 0 ''interrupted'' [] None
        else diag cause] None"

definition keep :: "'m host \<Rightarrow> journal_record \<Rightarrow> nat \<Rightarrow> 'm \<times> tree \<Rightarrow> 'm \<times> tree" where
  "keep h rec node s =
     (let (m, t) = s
      in case h_append h rec m of
        (None, m') \<Rightarrow> (m', if h_traced h then apply_signal node (Signal_Progress (journaled h rec)) t else t)
      | (Some failure, m') \<Rightarrow>
          (m', apply_signal node (Signal_Warning (warning (h_diag h) Code_JournalUnwritable
            ''could not record progress in the journal'' failure)) t))"

text \<open>
  Performing with the closure \<open>prepared\<close> of \<open>drive\<close>: for an undo or the commit (\<open>quiet\<close>) it does
  nothing, otherwise it remembers what was announced and writes it to the journal. The result is
  the outcome, \<open>None\<close> for a crash, the machine, the last announcement and the signals.
\<close>

primrec performed ::
  "'m host \<Rightarrow> bool \<Rightarrow> nat \<Rightarrow> 'm performing \<Rightarrow> action list option \<Rightarrow> signal list
    \<Rightarrow> outcome_of option \<times> 'm \<times> action list option \<times> signal list" where
  "performed h quiet seq (Ends oc m) ann ss = (Some oc, m, ann, ss)"
| "performed h quiet seq (Crashes m) ann ss = (None, m, ann, ss)"
| "performed h quiet seq (Signals s p) ann ss = performed h quiet seq p ann (ss @ [s])"
| "performed h quiet seq (Announces undo m k) ann ss =
     (if quiet then performed h quiet seq (k None m) ann ss
      else
        (case h_append h (Prepared seq undo) m of
           (None, m') \<Rightarrow> performed h quiet seq (k None m') (Some undo)
             (if h_traced h then ss @ [Signal_Progress (journaled h (Prepared seq undo))] else ss)
         | (Some failure, m') \<Rightarrow> performed h quiet seq (k (Some failure) m') (Some undo) ss))"

section \<open>The loop\<close>

record 'm drive_state =
  dr_runner :: runner
  dr_tree :: tree
  dr_machine :: 'm
  dr_input :: "input option"
  dr_stopping :: bool
  dr_seq :: nat
  dr_ended :: bool
  dr_unfinished :: bool

text \<open>
  What comes from outside while the loop goes round once: whether the request has been stopped when
  it begins, and whether that is noticed while an action is performed, after how many signals.
\<close>

record moment =
  mo_stopped :: "reason option"
  mo_noticed :: "(nat \<times> reason option) option"

datatype 'm driving =
    Drive_Goes "'m drive_state"
  | Drive_Crashed 'm
  | Drive_Returned report "'m drive_state"

definition drive_begin :: "runner \<Rightarrow> tree \<Rightarrow> 'm \<Rightarrow> 'm drive_state" where
  "drive_begin r t m =
     \<lparr>dr_runner = r, dr_tree = t, dr_machine = m, dr_input = None, dr_stopping = False, dr_seq = 0,
      dr_ended = False, dr_unfinished = False\<rparr>"

definition drive_stop :: "step_spec list \<Rightarrow> moment \<Rightarrow> 'm drive_state \<Rightarrow> 'm drive_state" where
  "drive_stop specs mo st =
     (case mo_stopped mo of
        None \<Rightarrow> st
      | Some why \<Rightarrow>
          (let (stopping, t) =
             (if cancellable specs (dr_runner st)
              then announce (Some (stopped_by why)) (dr_stopping st, dr_tree st)
              else (dr_stopping st, dr_tree st))
           in st\<lparr>dr_stopping := stopping, dr_tree := t, dr_runner := stop_runner (dr_runner st) (stopped_by why)\<rparr>))"

definition drive_observe :: "'m host \<Rightarrow> query list \<Rightarrow> 'm drive_state \<Rightarrow> 'm drive_state" where
  "drive_observe h queries st =
     (let (facts, m) = h_observe h queries (dr_machine st);
          t = (case facts of
             Inr found \<Rightarrow>
               if h_traced h
               then apply_signal (case current_node (dr_runner st) of Some n \<Rightarrow> n | None \<Rightarrow> ROOT)
                 (Signal_Progress (Progress_Observed (h_observed h queries found))) (dr_tree st)
               else dr_tree st
           | Inl _ \<Rightarrow> dr_tree st)
      in st\<lparr>dr_machine := m, dr_tree := t, dr_input := Some (Input_Facts facts)\<rparr>)"

text \<open>The signals reach the tree in order; in between, if it is noticed, that the request is stopping.\<close>

definition signalled ::
  "nat \<Rightarrow> bool \<Rightarrow> moment \<Rightarrow> signal list \<Rightarrow> bool \<times> tree \<Rightarrow> bool \<times> tree" where
  "signalled node can_stop mo ss s =
     (let (stopping, t) = s
      in case (if \<not> stopping \<and> can_stop then mo_noticed mo else None) of
        None \<Rightarrow> (stopping, fold (apply_signal node) ss t)
      | Some (k, why) \<Rightarrow>
          (let (stopping', t') = announce (map_option stopped_by why) (stopping, fold (apply_signal node) (take k ss) t)
           in (stopping', fold (apply_signal node) (drop k ss) t')))"

definition drive_done ::
  "'m host \<Rightarrow> action \<Rightarrow> bool \<Rightarrow> bool \<Rightarrow> nat \<Rightarrow> action list option \<Rightarrow> outcome_of \<Rightarrow> 'm drive_state \<Rightarrow> 'm drive_state" where
  "drive_done h a reverting committing acting announced outcome st =
     (let kept = (\<lambda>rec st. (let (m, t) = keep h rec acting (dr_machine st, dr_tree st) in st\<lparr>dr_machine := m, dr_tree := t\<rparr>));
          this = dr_seq st
      in (case outcome of
            Inr undo \<Rightarrow>
              if reverting then kept (Reverted a) st
              else if committing then (kept Ended st)\<lparr>dr_ended := True\<rparr>
              else (kept (if announced = Some undo then Done this else Settled this undo) st)\<lparr>dr_seq := this + 1\<rparr>
          | Inl failure \<Rightarrow>
              if \<not> reverting \<and> \<not> committing
              then (case announced of
                  Some undo \<Rightarrow> st\<lparr>dr_runner := in_doubt (dr_runner st) undo\<rparr>
                | None \<Rightarrow> st)\<lparr>dr_seq := this + 1\<rparr>
              else if failure = Cancelled \<and> \<not> reverting \<and> committing then st\<lparr>dr_unfinished := True\<rparr>
              else st)
         \<lparr>dr_input := Some (Input_Done outcome)\<rparr>)"

definition drive_perform ::
  "'m host \<Rightarrow> step_spec list \<Rightarrow> moment \<Rightarrow> action \<Rightarrow> 'm drive_state \<Rightarrow> 'm driving" where
  "drive_perform h specs mo a st =
     (let r = dr_runner st; acting = (case current_node r of Some n \<Rightarrow> n | None \<Rightarrow> ROOT);
          reverting = rolling_back r; committing = (a = Commit);
          (refused, m) = (if committing then h_append h Committing (dr_machine st) else (None, dr_machine st))
      in case refused of
        Some failure \<Rightarrow> Drive_Goes (st\<lparr>dr_machine := m, dr_input := Some (Input_Done (Inl failure))\<rparr>)
      | None \<Rightarrow>
          (let t = (if committing \<and> h_traced h
                    then apply_signal acting (Signal_Progress (journaled h Committing)) (dr_tree st) else dr_tree st);
               (outcome, m', announced, ss) =
                 performed h (reverting \<or> committing) (dr_seq st) (h_perform h a (shielded specs r) m) None [];
               (stopping, t') = signalled acting (cancellable specs r) mo ss (dr_stopping st, t)
           in case outcome of
             None \<Rightarrow> Drive_Crashed m'
           | Some oc \<Rightarrow> Drive_Goes (drive_done h a reverting committing acting announced oc
               (st\<lparr>dr_machine := m', dr_tree := t', dr_stopping := stopping\<rparr>))))"

definition drive_finish :: "'m host \<Rightarrow> 'm drive_state \<Rightarrow> 'm driving" where
  "drive_finish h st =
     (let (m, t) =
        (if \<not> dr_ended st \<and> \<not> dr_unfinished st then keep h Ended ROOT (dr_machine st, dr_tree st)
         else (dr_machine st, dr_tree st))
      in Drive_Returned (r_report (dr_runner st)) (st\<lparr>dr_machine := m, dr_tree := t\<rparr>))"

definition drive_round ::
  "'m host \<Rightarrow> step_spec list \<Rightarrow> moment \<Rightarrow> 'm drive_state \<Rightarrow> run_error + 'm driving" where
  "drive_round h specs mo st0 =
     (let st = drive_stop specs mo st0
      in and_then (runner_step (h_diag h) specs (dr_runner st) (dr_tree st) (dr_input st)) (\<lambda>(nx, r, t).
           let st1 = st\<lparr>dr_runner := r, dr_tree := t, dr_input := None\<rparr>
           in Inr (case nx of
                Next_Observe queries \<Rightarrow> Drive_Goes (drive_observe h queries st1)
              | Next_Perform a \<Rightarrow> drive_perform h specs mo a st1
              | Next_Finished \<Rightarrow> drive_finish h st1)))"

text \<open>The loop, as far as the moments last: a run that still goes on then was killed between two rounds.\<close>

fun drive :: "'m host \<Rightarrow> step_spec list \<Rightarrow> moment list \<Rightarrow> 'm drive_state \<Rightarrow> run_error + 'm driving" where
  "drive h specs [] st = Inr (Drive_Goes st)"
| "drive h specs (mo # mos) st =
     (case drive_round h specs mo st of
        Inr (Drive_Goes st') \<Rightarrow> drive h specs mos st'
      | x \<Rightarrow> x)"

section \<open>A performer on a model machine\<close>

datatype fault = Fault_Fail failure | Fault_CrashBefore | Fault_CrashAfter

type_synonym faults = "(nat \<times> fault) option"

fun next_fault :: "faults \<Rightarrow> fault option \<times> faults" where
  "next_fault None = (None, None)"
| "next_fault (Some (0, fault)) = (Some fault, None)"
| "next_fault (Some (Suc left, fault)) = (None, Some (left, fault))"

text \<open>The host of a request on a model: the machine, what is to go wrong, and the journal
  (\<open>impl Journal for Vec<Record>\<close>).\<close>

record 's modelled =
  md_world :: 's
  md_faults :: faults
  md_records :: "journal_record list"

text \<open>\<open>lock\<close> is what locking the machine does to it.\<close>

definition perform_modelled ::
  "('s \<Rightarrow> 's) \<Rightarrow> (action \<Rightarrow> 's \<Rightarrow> outcome_of \<times> 's) \<Rightarrow> action \<Rightarrow> bool \<Rightarrow> 's modelled \<Rightarrow> 's modelled performing" where
  "perform_modelled lock applying a uninterrupted m0 =
     (let (fault, faults) = next_fault (md_faults m0); m = m0\<lparr>md_faults := faults\<rparr>
      in case fault of
        Some (Fault_Fail failure) \<Rightarrow> Ends (Inl failure) m
      | _ \<Rightarrow>
          (let m1 = m\<lparr>md_world := lock (md_world m)\<rparr>
           in case fst (applying a (md_world m1)) of
             Inl failure \<Rightarrow> Ends (Inl failure) m1
           | Inr undo \<Rightarrow>
               Announces undo m1 (\<lambda>refused m.
                 case refused of
                   Some failure \<Rightarrow> Ends (Inl failure) m
                 | None \<Rightarrow>
                     if fault = Some Fault_CrashBefore then Crashes m
                     else
                       (let (outcome, w) = applying a (lock (md_world m)); m' = m\<lparr>md_world := w\<rparr>
                        in if fault = Some Fault_CrashAfter then Crashes m' else Ends outcome m'))))"

definition append_record :: "journal_record \<Rightarrow> 's modelled \<Rightarrow> failure option \<times> 's modelled" where
  "append_record rec m = (None, m\<lparr>md_records := md_records m @ [rec]\<rparr>)"

text \<open>The machine that the performer locks for its request.\<close>

definition lock_model :: "string option \<Rightarrow> world \<Rightarrow> world" where
  "lock_model acting_for w = (case acting_for of Some req \<Rightarrow> w\<lparr>w_acting := req\<rparr> | None \<Rightarrow> w)"

definition model_host ::
  "(failure \<Rightarrow> diagnostic) \<Rightarrow> bool \<Rightarrow> (journal_record \<Rightarrow> payload) \<Rightarrow> (query list \<Rightarrow> fact list \<Rightarrow> payload)
    \<Rightarrow> ('s \<Rightarrow> 's) \<Rightarrow> (action \<Rightarrow> 's \<Rightarrow> outcome_of \<times> 's) \<Rightarrow> ('s \<Rightarrow> query \<Rightarrow> fact) \<Rightarrow> (path list \<Rightarrow> 's \<Rightarrow> 's) \<Rightarrow> 's modelled host" where
  "model_host diag traced jd ob lock applying look taking =
     \<lparr>h_diag = diag, h_traced = traced, h_journaled = jd, h_observed = ob,
      h_observe = (\<lambda>queries m.
        (Inr (map (look (lock (md_world m))) queries), m\<lparr>md_world := lock (md_world m)\<rparr>)),
      h_perform = perform_modelled lock applying,
      h_adopt = (\<lambda>ps m. (None, m\<lparr>md_world := taking ps (lock (md_world m))\<rparr>)),
      h_append = append_record\<rparr>"

definition world_host ::
  "(failure \<Rightarrow> diagnostic) \<Rightarrow> bool \<Rightarrow> (journal_record \<Rightarrow> payload) \<Rightarrow> (query list \<Rightarrow> fact list \<Rightarrow> payload)
    \<Rightarrow> string option \<Rightarrow> world modelled host" where
  "world_host diag traced jd ob acting_for =
     model_host diag traced jd ob (lock_model acting_for) apply_action observe_query world_adopt"

end
