(* ===== verification/Recovery.thy ===== *)
theory Recovery
  imports Drive
begin

text \<open>
  What happens to the journals of requests that were cut off
  (\<open>crates/shell/src/effect/journal/mod.rs\<close>): the machine is brought back, or the commit finished,
  by what \<^const>\<open>recover\<close> makes of the records, and every undo that was done is recorded, so that a recovery that
  is cut off itself can be resumed. The journals of requests on a model machine are kept on it.
\<close>

section \<open>One journal\<close>

record recovered =
  rc_requests :: nat
  rc_failures :: "(action \<times> failure) list"
  rc_lost :: "(action \<times> failure) list"

definition no_recovery :: recovered where
  "no_recovery = \<lparr>rc_requests = 0, rc_failures = [], rc_lost = []\<rparr>"

definition failing :: "action \<Rightarrow> failure \<Rightarrow> recovered \<Rightarrow> recovered" where
  "failing a failure rc = rc\<lparr>rc_failures := rc_failures rc @ [(a, failure)]\<rparr>"

definition loss_gone :: "failure \<Rightarrow> bool" where
  "loss_gone failure =
     (case failure of
        Conflict _ _ _ \<Rightarrow> True
      | Io _ kind \<Rightarrow> kind = ''NotFound'' \<or> kind = ''NotADirectory''
      | _ \<Rightarrow> False)"

definition accept_loss :: "recovered \<Rightarrow> nat \<Rightarrow> bool \<times> recovered" where
  "accept_loss rc failed_before =
     (if list_all (\<lambda>f. loss_gone (snd f)) (drop failed_before (rc_failures rc))
      then (True, rc\<lparr>rc_failures := take failed_before (rc_failures rc),
                     rc_lost := rc_lost rc @ drop failed_before (rc_failures rc)\<rparr>)
      else (False, rc))"

text \<open>Performing with a closure \<open>prepared\<close> that ignores what is announced.\<close>

definition quietly :: "'m host \<Rightarrow> action \<Rightarrow> 'm \<Rightarrow> outcome_of option \<times> 'm" where
  "quietly h a m = (let (outcome, m', _) = performed h True 0 (h_perform h a True m) None [] in (outcome, m'))"

text \<open>A recovery is killed, returns early, or goes on.\<close>

datatype 'm resumed = Killed 'm | Stops 'm recovered | Goes 'm recovered

fun recover_uncertain :: "'m host \<Rightarrow> action list \<Rightarrow> 'm \<Rightarrow> recovered \<Rightarrow> 'm resumed" where
  "recover_uncertain h [] m rc = Goes m rc"
| "recover_uncertain h (a # as) m rc =
     (case quietly h a m of
        (None, m1) \<Rightarrow> Killed m1
      | (Some (Inl _), m1) \<Rightarrow> recover_uncertain h as m1 rc
      | (Some (Inr _), m1) \<Rightarrow>
          (case h_append h (Reverted a) m1 of
             (None, m2) \<Rightarrow> recover_uncertain h as m2 rc
           | (Some failure, m2) \<Rightarrow> Stops m2 (failing a failure rc)))"

fun recover_certain :: "'m host \<Rightarrow> action list \<Rightarrow> 'm \<Rightarrow> recovered \<Rightarrow> 'm resumed" where
  "recover_certain h [] m rc = Goes m rc"
| "recover_certain h (a # as) m rc =
     (case quietly h a m of
        (None, m1) \<Rightarrow> Killed m1
      | (Some (Inl failure), m1) \<Rightarrow> recover_certain h as m1 (failing a failure rc)
      | (Some (Inr _), m1) \<Rightarrow>
          (case h_append h (Reverted a) m1 of
             (None, m2) \<Rightarrow> recover_certain h as m2 rc
           | (Some failure, m2) \<Rightarrow> recover_certain h as m2 (failing a failure rc)))"

definition finish_commit :: "'m host \<Rightarrow> path list \<Rightarrow> 'm \<Rightarrow> recovered \<Rightarrow> 'm resumed" where
  "finish_commit h pending m rc =
     (case h_adopt h pending m of
        (Some failure, m1) \<Rightarrow> Goes m1 (failing Commit failure rc)
      | (None, m1) \<Rightarrow>
          (case quietly h Commit m1 of
             (None, m2) \<Rightarrow> Killed m2
           | (Some (Inl failure), m2) \<Rightarrow> Goes m2 (failing Commit failure rc)
           | (Some (Inr _), m2) \<Rightarrow> Goes m2 rc))"

text \<open>Whether the recovery finished, unless it is killed.\<close>

definition recover_records ::
  "'m host \<Rightarrow> journal_record list \<Rightarrow> 'm \<Rightarrow> recovered \<Rightarrow> (bool \<times> recovered) option \<times> 'm" where
  "recover_records h records m rc =
     (let failed_before = length (rc_failures rc)
      in case (case recover records of
            Recovery_Nothing \<Rightarrow> Goes m rc
          | Recovery_RollBack uncertain certain \<Rightarrow>
              (case recover_uncertain h uncertain m rc of
                 Goes m1 rc1 \<Rightarrow> recover_certain h certain m1 rc1
               | other \<Rightarrow> other)
          | Recovery_FinishCommit pending \<Rightarrow> finish_commit h pending m rc) of
        Killed m1 \<Rightarrow> (None, m1)
      | Stops m1 rc1 \<Rightarrow> (Some (False, rc1), m1)
      | Goes m1 rc1 \<Rightarrow> (Some (length (rc_failures rc1) = failed_before, rc1), m1))"

section \<open>Journals on a model machine\<close>

definition log_record :: "string \<Rightarrow> journal_record \<Rightarrow> world \<Rightarrow> world" where
  "log_record req rec w =
     w\<lparr>w_logs := bt_insert req
        ((case map_of (w_logs w) req of Some log \<Rightarrow> log | None \<Rightarrow> []) @ [rec]) (w_logs w)\<rparr>"

definition open_model_journal :: "string \<Rightarrow> world \<Rightarrow> world" where
  "open_model_journal req w =
     w\<lparr>w_held := (if req \<in> set (w_held w) then w_held w else insort req (w_held w)),
       w_logs := bt_insert req [Began req] (w_logs w)\<rparr>"

definition drop_model_journal :: "string \<Rightarrow> world \<Rightarrow> world" where
  "drop_model_journal req w = forget req (w\<lparr>w_held := filter (\<lambda>r. r \<noteq> req) (w_held w)\<rparr>)"

text \<open>\<open>finish\<close> takes the journal, which is dropped after it.\<close>

definition finish_model_journal :: "string \<Rightarrow> world \<Rightarrow> world" where
  "finish_model_journal req w =
     drop_model_journal req
       (case map_of (w_logs w) req of
          None \<Rightarrow> w\<lparr>w_logs := bt_remove req (w_logs w)\<rparr>
        | Some log \<Rightarrow>
            if log \<noteq> [] \<and> last log = Ended then w\<lparr>w_logs := bt_remove req (w_logs w)\<rparr> else w)"

definition model_progress :: "string \<Rightarrow> world modelled host \<Rightarrow> world modelled host" where
  "model_progress req h =
     h\<lparr>h_append := \<lambda>rec m. (None, m\<lparr>md_world := log_record req rec (md_world m)\<rparr>)\<rparr>"

fun recover_each ::
  "world modelled host \<Rightarrow> bool \<Rightarrow> (string \<times> journal_record list) list \<Rightarrow> recovered \<Rightarrow> world modelled
    \<Rightarrow> recovered option \<times> world modelled" where
  "recover_each h losing [] rc m = (Some rc, m)"
| "recover_each h losing ((req, records) # journals) rc m =
     (let rc1 = rc\<lparr>rc_requests := rc_requests rc + 1\<rparr>; failed_before = length (rc_failures rc1)
      in case recover_records (model_progress req h) records m rc1 of
        (None, m1) \<Rightarrow> (None, m1)
      | (Some (finished, rc2), m1) \<Rightarrow>
          (let (settled, rc3) = (if finished then (True, rc2)
                                 else if losing then accept_loss rc2 failed_before else (False, rc2));
               m2 = (if settled then m1\<lparr>md_world := (md_world m1)\<lparr>w_logs := bt_remove req (w_logs (md_world m1))\<rparr>\<rparr> else m1)
           in recover_each h losing journals rc3 m2))"

definition recover_model :: "world modelled host \<Rightarrow> bool \<Rightarrow> world modelled \<Rightarrow> recovered option \<times> world modelled" where
  "recover_model h losing m =
     recover_each h losing (filter (\<lambda>(req, _). req \<notin> set (w_held (md_world m))) (w_logs (md_world m))) no_recovery m"

end
