(* ===== verification/Drive_Safety.thy ===== *)
theory Drive_Safety
  imports Recovery Runner_Ends
begin

text \<open>
  The loop of the driver: whatever the performer and the journal do, and whenever the request is
  stopped, no round panics, the runner keeps its invariant, and the loop returns or is killed.
\<close>

section \<open>What reaches the tree\<close>

text \<open>A tree that the runner cannot tell from the one it had.\<close>

definition nudged :: "tree \<Rightarrow> tree \<Rightarrow> bool" where
  "nudged t t' \<longleftrightarrow> (\<forall>specs r. phase_ok specs r t \<longrightarrow> phase_ok specs r t')"

lemma nudged_refl [simp]: "nudged t t"
  and nudged_trans [trans]: "nudged t t1 \<Longrightarrow> nudged t1 t2 \<Longrightarrow> nudged t t2"
  by (simp_all add: nudged_def)

lemma nudgedD: "nudged t t' \<Longrightarrow> phase_ok specs r t \<Longrightarrow> phase_ok specs r t'"
  by (simp add: nudged_def)

lemma nudged_signal [simp]: "nudged t (apply_signal node s t)"
  unfolding nudged_def
proof (intro allI impI)
  fix specs r assume p: "phase_ok specs r t"
  show "phase_ok specs r (apply_signal node s t)"
    using tell_phase_ok(1) [OF p, of "Tell_Progress node q" for q] tell_phase_ok(1) [OF p, of "Tell_Warn node d" for d]
    by (cases s) (simp_all add: apply_signal_def tell_def tell_ok_def)
qed

lemma nudged_signals [simp]: "nudged t (fold (apply_signal node) ss t)"
proof (induction ss arbitrary: t)
  case (Cons s ss)
  have "nudged t (apply_signal node s t)" by simp
  also have "nudged (apply_signal node s t) (fold (apply_signal node) ss (apply_signal node s t))" by (rule Cons)
  finally show ?case by simp
qed simp

lemma announce_tree: "\<exists>b'. announce cause (b, t) = (b', t) \<or> (\<exists>s. announce cause (b, t) = (b', apply_signal ROOT s t))"
proof -
  have "(case tree_progress t ROOT p of Inr t' \<Rightarrow> t' | Inl _ \<Rightarrow> t) = apply_signal ROOT (Signal_Progress p) t" for p
    by (simp add: apply_signal_def)
  then show ?thesis by (cases cause) (auto simp: announce_def)
qed

lemma nudged_announce: "nudged t (snd (announce cause (b, t)))"
  using announce_tree [of cause b t] by auto

lemma nudged_signalled: "nudged t (snd (signalled node can_stop mo ss (b, t)))"
proof (cases "if \<not> b \<and> can_stop then mo_noticed mo else None")
  case None
  then show ?thesis by (simp add: signalled_def)
next
  case (Some x)
  obtain k why where x: "x = (k, why)" by (cases x)
  let ?t1 = "fold (apply_signal node) (take k ss) t"
  obtain b2 t2 where a: "announce (map_option stopped_by why) (b, ?t1) = (b2, t2)"
    by (cases "announce (map_option stopped_by why) (b, ?t1)")
  have "nudged t ?t1" by simp
  also have "nudged ?t1 t2" using nudged_announce [of ?t1 "map_option stopped_by why" b] a by simp
  also have "nudged t2 (fold (apply_signal node) (drop k ss) t2)" by simp
  finally show ?thesis using Some x a by (simp add: signalled_def)
qed

lemma nudged_keep: "nudged t (snd (keep h rec node (m, t)))"
  by (simp add: keep_def split: prod.split option.split)

section \<open>The state between two rounds\<close>

definition drive_ok :: "step_spec list \<Rightarrow> 'm drive_state \<Rightarrow> bool" where
  "drive_ok specs st \<longleftrightarrow> phase_ok specs (dr_runner st) (dr_tree st) \<and> input_fits (dr_runner st) (dr_input st)"

lemma drive_stop_cases:
  obtains "drive_stop specs mo st = st"
  | c t b where "c \<noteq> Cancellation_Unspecified" "nudged (dr_tree st) t"
      "drive_stop specs mo st = st\<lparr>dr_stopping := b, dr_tree := t, dr_runner := stop_runner (dr_runner st) c\<rparr>"
proof (cases "mo_stopped mo")
  case None
  then show ?thesis using that(1) by (simp add: drive_stop_def)
next
  case (Some why)
  obtain b t where bt: "(if cancellable specs (dr_runner st) then announce (Some (stopped_by why)) (dr_stopping st, dr_tree st)
      else (dr_stopping st, dr_tree st)) = (b, t)"
    by (metis surj_pair)
  then have "nudged (dr_tree st) t"
    using nudged_announce [of "dr_tree st" "Some (stopped_by why)" "dr_stopping st"] by (cases "cancellable specs (dr_runner st)") simp_all
  moreover have "stopped_by why \<noteq> Cancellation_Unspecified" by (cases why) simp_all
  ultimately show ?thesis using that(2) Some bt by (simp add: drive_stop_def)
qed

lemma drive_stop_ok:
  assumes "drive_ok specs st"
  shows "drive_ok specs (drive_stop specs mo st)"
proof (cases rule: drive_stop_cases [of specs mo st])
  case 1
  with assms show ?thesis by simp
next
  case (2 c t b)
  have "r_phase (stop_runner (dr_runner st) c) = r_phase (dr_runner st)" by (simp add: stop_runner_def)
  with assms phase_ok_stop [OF nudgedD [OF 2(2)] 2(1)] 2(3) input_fits_phase [OF this] show ?thesis
    by (simp add: drive_ok_def)
qed

lemma stop_phase: "r_phase (stop_runner r c) = r_phase r"
  by (simp add: stop_runner_def)

lemma drive_stop_same:
  shows "r_phase (dr_runner (drive_stop specs mo st)) = r_phase (dr_runner st)" (is ?A)
    and "dr_input (drive_stop specs mo st) = dr_input st" (is ?B)
    and "dr_machine (drive_stop specs mo st) = dr_machine st" (is ?C)
    and "dr_seq (drive_stop specs mo st) = dr_seq st" (is ?D)
    and "dr_ended (drive_stop specs mo st) = dr_ended st" (is ?E)
    and "dr_unfinished (drive_stop specs mo st) = dr_unfinished st" (is ?F)
    and "dr_runner (drive_stop specs mo st) = dr_runner st \<or> (\<exists>c. dr_runner (drive_stop specs mo st) = stop_runner (dr_runner st) c)" (is ?G)
proof -
  have "?A \<and> ?B \<and> ?C \<and> ?D \<and> ?E \<and> ?F \<and> ?G"
  proof (cases rule: drive_stop_cases [of specs mo st])
    case 1
    then show ?thesis by simp
  next
    case (2 c t b)
    show ?thesis unfolding 2(3) by (simp add: stop_phase) blast
  qed
  then show ?A ?B ?C ?D ?E ?F ?G by blast+
qed

section \<open>One round\<close>

lemma drive_observe_ok:
  assumes "phase_ok specs (dr_runner st) (dr_tree st)" "awaits (dr_runner st) (Next_Observe queries)"
  shows "drive_ok specs (drive_observe h queries st)" "dr_runner (drive_observe h queries st) = dr_runner st"
proof -
  obtain facts m where o: "h_observe h queries (dr_machine st) = (facts, m)" by (cases "h_observe h queries (dr_machine st)")
  have "phase_ok specs (dr_runner st) (apply_signal node s (dr_tree st))" for node s
    using assms(1) nudgedD nudged_signal by blast
  with assms o show "drive_ok specs (drive_observe h queries st)" "dr_runner (drive_observe h queries st) = dr_runner st"
    by (auto simp: drive_observe_def drive_ok_def awaits_def input_fits_def Let_def split: sum.split)
qed

text \<open>What performing leaves as it is.\<close>

lemma drive_done_input [simp]:
  "dr_input (drive_done h a reverting committing acting announced oc st) = Some (Input_Done oc)"
  by (simp add: drive_done_def Let_def)

lemma drive_done_runner:
  "dr_runner (drive_done h a reverting committing acting announced oc st) =
     (case (oc, announced) of
        (Inl _, Some undo) \<Rightarrow> if reverting \<or> committing then dr_runner st else in_doubt (dr_runner st) undo
      | _ \<Rightarrow> dr_runner st)"
  by (cases oc; cases announced) (simp_all add: drive_done_def Let_def split_beta)

lemma drive_done_tree: "\<exists>rec. dr_tree (drive_done h a reverting committing acting announced oc st) \<in>
    {dr_tree st, snd (keep h rec acting (dr_machine st, dr_tree st))}"
  by (cases oc; cases announced) (auto simp: drive_done_def Let_def split_beta)

lemma done_fits: "awaits r (Next_Perform a) \<Longrightarrow> input_fits r (Some (Input_Done oc))"
  using answer_fits [of r "Next_Perform a" "\<lparr>tn_facts = Inr [], tn_done = oc, tn_tells = []\<rparr>"] by (simp add: answer_def)

lemma in_doubt_phase: "r_phase (in_doubt r undo) = r_phase r"
  by (simp add: in_doubt_def split: phase.split)

lemma drive_done_ok:
  assumes "phase_ok specs (dr_runner st) (dr_tree st)" "awaits (dr_runner st) (Next_Perform a)"
  shows "drive_ok specs (drive_done h a' reverting committing acting announced oc st)" (is "drive_ok specs ?st")
    and "\<exists>undo. dr_runner (drive_done h a' reverting committing acting announced oc st) \<in> {dr_runner st, in_doubt (dr_runner st) undo}"
proof -
  show r: "\<exists>undo. dr_runner ?st \<in> {dr_runner st, in_doubt (dr_runner st) undo}"
    unfolding drive_done_runner by (cases oc; cases announced) (simp_all, blast)
  have t: "nudged (dr_tree st) (dr_tree ?st)"
    using drive_done_tree [of h a' reverting committing acting announced oc st] nudged_keep [of "dr_tree st" h _ acting "dr_machine st"]
    by (metis insert_iff nudged_refl singletonD)
  have "phase_ok specs (dr_runner ?st) (dr_tree st)"
    using r assms(1) phase_ok_in_doubt [OF assms(1)] by (metis insert_iff singletonD)
  then have "phase_ok specs (dr_runner ?st) (dr_tree ?st)" by (rule nudgedD [OF t])
  moreover have phase: "r_phase (dr_runner ?st) = r_phase (dr_runner st)"
    using r in_doubt_phase by (metis insert_iff singletonD)
  moreover have "input_fits (dr_runner st) (Some (Input_Done oc))" using assms(2) by (rule done_fits)
  ultimately show "drive_ok specs ?st" by (simp add: drive_ok_def input_fits_phase [OF phase])
qed

lemma drive_perform_ok:
  assumes "phase_ok specs (dr_runner st) (dr_tree st)" "awaits (dr_runner st) (Next_Perform a)"
    and "drive_perform h specs mo a st = Drive_Goes st'"
  shows "drive_ok specs st'" "\<exists>undo. dr_runner st' \<in> {dr_runner st, in_doubt (dr_runner st) undo}"
proof -
  define acting where "acting = (case current_node (dr_runner st) of Some n \<Rightarrow> n | None \<Rightarrow> ROOT)"
  define committing where "committing = (a = Commit)"
  define quiet where "quiet = (rolling_back (dr_runner st) \<or> committing)"
  obtain refused m where c: "(if committing then h_append h Committing (dr_machine st) else (None, dr_machine st)) = (refused, m)"
    by (cases "if committing then h_append h Committing (dr_machine st) else (None, dr_machine st)")
  let ?t = "if committing \<and> h_traced h then apply_signal acting (Signal_Progress (journaled h Committing)) (dr_tree st) else dr_tree st"
  obtain outcome m' announced ss where p:
    "performed h quiet (dr_seq st) (h_perform h a (shielded specs (dr_runner st)) m) None [] = (outcome, m', announced, ss)"
    by (metis surj_pair)
  obtain stopping t' where s: "signalled acting (cancellable specs (dr_runner st)) mo ss (dr_stopping st, ?t) = (stopping, t')"
    by (metis surj_pair)
  have "nudged (dr_tree st) ?t" by simp
  also have "nudged ?t t'" using nudged_signalled [of ?t acting "cancellable specs (dr_runner st)" mo ss "dr_stopping st"] s by simp
  finally have t': "phase_ok specs (dr_runner st) t'" using assms(1) by (rule nudgedD)
  show "drive_ok specs st'" "\<exists>undo. dr_runner st' \<in> {dr_runner st, in_doubt (dr_runner st) undo}"
  proof -
    have "drive_ok specs st' \<and> (\<exists>undo. dr_runner st' \<in> {dr_runner st, in_doubt (dr_runner st) undo})"
    proof (cases refused)
      case (Some failure)
      with assms(3) c have "st' = st\<lparr>dr_machine := m, dr_input := Some (Input_Done (Inl failure))\<rparr>"
        by (simp add: drive_perform_def Let_def committing_def)
      with assms(1) done_fits [OF assms(2)] show ?thesis by (auto simp: drive_ok_def)
    next
      case None
      let ?st = "st\<lparr>dr_machine := m', dr_tree := t', dr_stopping := stopping\<rparr>"
      from None assms(3) c [unfolded committing_def] p [unfolded quiet_def committing_def] s [unfolded acting_def committing_def] obtain oc where oc: "outcome = Some oc"
        "st' = drive_done h a (rolling_back (dr_runner st)) committing acting announced oc ?st"
        by (cases outcome) (simp_all add: drive_perform_def Let_def committing_def acting_def quiet_def)
      have "phase_ok specs (dr_runner ?st) (dr_tree ?st)" "awaits (dr_runner ?st) (Next_Perform a)"
        using t' assms(2) by simp_all
      from drive_done_ok [OF this] oc(2) show ?thesis by fastforce
    qed
    then show "drive_ok specs st'" "\<exists>undo. dr_runner st' \<in> {dr_runner st, in_doubt (dr_runner st) undo}" by blast+
  qed
qed

lemma nearer_cong:
  "stage specs r1 = stage specs r \<Longrightarrow> work r1 = work r \<Longrightarrow> nearer specs r' r1 = nearer specs r' r"
  "stage specs r1 = stage specs r \<Longrightarrow> work r1 = work r \<Longrightarrow> nearer specs r1 r' = nearer specs r r'"
  by (simp_all add: nearer_def)

lemma told_distance:
  "stage specs (stop_runner r c) = stage specs r" "work (stop_runner r c) = work r"
  "stage specs (in_doubt r undo) = stage specs r" "work (in_doubt r undo) = work r"
  using tell_distance [of specs "Tell_Stop c" r] tell_distance [of specs "Tell_In_Doubt undo" r]
  by (simp_all add: tell_def)

lemma drive_round_ok:
  assumes ok: "drive_ok specs st" and k: "keys_ok specs" and op: "r_phase (dr_runner st) \<noteq> Closed"
  shows "\<exists>d. drive_round h specs mo st = Inr d \<and>
    (case d of
       Drive_Goes st' \<Rightarrow> drive_ok specs st' \<and> nearer specs (dr_runner st') (dr_runner st) \<and> r_phase (dr_runner st') \<noteq> Closed
     | Drive_Crashed _ \<Rightarrow> True
     | Drive_Returned rep st' \<Rightarrow> r_phase (dr_runner st') = Closed \<and> phase_ok specs (dr_runner st') (dr_tree st') \<and> rep = r_report (dr_runner st'))"
proof -
  define st0 where "st0 = drive_stop specs mo st"
  note s = drive_stop_same [of specs mo st, folded st0_def]
  have st0: "phase_ok specs (dr_runner st0) (dr_tree st0)" "input_fits (dr_runner st0) (dr_input st0)"
    using drive_stop_ok [OF ok, of mo] by (simp_all add: drive_ok_def st0_def)
  have dist: "stage specs (dr_runner st0) = stage specs (dr_runner st)" "work (dr_runner st0) = work (dr_runner st)"
    using s(7) told_distance by auto
  from run_loop_ok [OF st0(1) k st0(2), of "h_diag h"] obtain nx r t where
    l: "run_loop (h_diag h) specs (dr_input st0) (dr_runner st0) (dr_tree st0) = Inr (nx, r, t)"
    "phase_ok specs r t" "awaits r nx" by blast
  have "nearer specs r (dr_runner st0)"
    by (rule run_loop_falls [OF st0(1) k st0(2) _ l(1)]) (use op s(1) in simp)
  then have near: "nearer specs r (dr_runner st)" using nearer_cong(1) [OF dist] by simp
  have told: "nearer specs r' (dr_runner st)" if "\<exists>undo. r' \<in> {r, in_doubt r undo}" for r'
    using that near nearer_cong(2) [OF told_distance(3,4)] by auto
  have phase: "r_phase r' = r_phase r" if "\<exists>undo. r' \<in> {r, in_doubt r undo}" for r'
    using that by (auto simp: in_doubt_def split: phase.split)
  let ?st1 = "st0\<lparr>dr_runner := r, dr_tree := t, dr_input := None\<rparr>"
  show ?thesis
  proof (cases nx)
    case (Next_Observe queries)
    with l drive_observe_ok [of specs ?st1 queries h] near show ?thesis
      by (auto simp: drive_round_def runner_step_def st0_def [symmetric] awaits_def)
  next
    case (Next_Perform a)
    have a: "awaits (dr_runner ?st1) (Next_Perform a)" using l(3) Next_Perform by simp
    have p: "phase_ok specs (dr_runner ?st1) (dr_tree ?st1)" using l(2) by simp
    have d: "drive_ok specs st' \<and> (\<exists>undo. dr_runner st' \<in> {r, in_doubt r undo})"
      if "drive_perform h specs mo a ?st1 = Drive_Goes st'" for st'
      using drive_perform_ok [OF p a that] by simp
    have open_r: "r_phase r \<noteq> Closed" using a by (auto simp: awaits_def)
    have nr: "drive_perform h specs mo a ?st1 \<noteq> Drive_Returned rep st'" for rep st'
      by (auto simp: drive_perform_def Let_def split: prod.split option.split if_splits)
    show ?thesis
    proof (cases "drive_perform h specs mo a ?st1")
      case (Drive_Goes st')
      with d told phase open_r have "drive_ok specs st' \<and> nearer specs (dr_runner st') (dr_runner st) \<and> r_phase (dr_runner st') \<noteq> Closed"
        by metis
      with Next_Perform l Drive_Goes show ?thesis
        by (simp add: drive_round_def runner_step_def st0_def [symmetric])
    qed (use Next_Perform l nr in \<open>simp_all add: drive_round_def runner_step_def st0_def [symmetric]\<close>)
  next
    case Next_Finished
    have "phase_ok specs r (snd (keep h Ended ROOT (m, t)))" for m using nudgedD [OF nudged_keep l(2)] .
    with l Next_Finished show ?thesis
      by (auto simp: drive_round_def runner_step_def st0_def [symmetric] drive_finish_def awaits_def Let_def split_beta)
  qed
qed

section \<open>The loop\<close>

lemma drive_append:
  "drive h specs (xs @ ys) st =
     (case drive h specs xs st of Inr (Drive_Goes st') \<Rightarrow> drive h specs ys st' | x \<Rightarrow> x)"
  by (induction xs arbitrary: st) (auto split: sum.split driving.split)

definition drive_over :: "'m driving \<Rightarrow> bool" where
  "drive_over d = (case d of Drive_Goes _ \<Rightarrow> False | _ \<Rightarrow> True)"

lemma drive_over_simps [simp]:
  "\<not> drive_over (Drive_Goes st)" "drive_over (Drive_Crashed m)" "drive_over (Drive_Returned rep st)"
  by (simp_all add: drive_over_def)

lemma drive_keeps_ok:
  "drive_ok specs st \<Longrightarrow> keys_ok specs \<Longrightarrow> r_phase (dr_runner st) \<noteq> Closed \<Longrightarrow>
   \<exists>d. drive h specs mos st = Inr d \<and>
     (case d of
        Drive_Goes st' \<Rightarrow> drive_ok specs st' \<and> r_phase (dr_runner st') \<noteq> Closed
      | Drive_Crashed _ \<Rightarrow> True
      | Drive_Returned rep st' \<Rightarrow> r_phase (dr_runner st') = Closed \<and> phase_ok specs (dr_runner st') (dr_tree st') \<and> rep = r_report (dr_runner st'))"
proof (induction mos arbitrary: st)
  case (Cons mo mos)
  from drive_round_ok [OF Cons.prems(1,2,3), of h mo] obtain d where
    d: "drive_round h specs mo st = Inr d"
    "case d of Drive_Goes st' \<Rightarrow> drive_ok specs st' \<and> nearer specs (dr_runner st') (dr_runner st) \<and> r_phase (dr_runner st') \<noteq> Closed
     | Drive_Crashed _ \<Rightarrow> True
     | Drive_Returned rep st' \<Rightarrow> r_phase (dr_runner st') = Closed \<and> phase_ok specs (dr_runner st') (dr_tree st') \<and> rep = r_report (dr_runner st')"
    by blast
  then show ?case
  proof (cases d)
    case (Drive_Goes st')
    with d Cons.IH [OF _ Cons.prems(2), of st'] show ?thesis by simp
  qed auto
qed simp

lemma drive_ends:
  assumes k: "keys_ok specs"
  shows "drive_ok specs st \<Longrightarrow> r_phase (dr_runner st) \<noteq> Closed \<Longrightarrow>
    \<exists>n d. drive h specs (map mos [0..<n]) st = Inr d \<and> drive_over d"
proof (induction "dr_runner st" arbitrary: st mos rule: wf_induct_rule [OF nearer_wf [of specs]])
  case 1
  from drive_round_ok [OF "1.prems"(1) k "1.prems"(2), of h "mos 0"] obtain d where
    d: "drive_round h specs (mos 0) st = Inr d"
    "case d of Drive_Goes st' \<Rightarrow> drive_ok specs st' \<and> nearer specs (dr_runner st') (dr_runner st) \<and> r_phase (dr_runner st') \<noteq> Closed
     | Drive_Crashed _ \<Rightarrow> True
     | Drive_Returned rep st' \<Rightarrow> r_phase (dr_runner st') = Closed \<and> phase_ok specs (dr_runner st') (dr_tree st') \<and> rep = r_report (dr_runner st')"
    by blast
  show ?case
  proof (cases d)
    case (Drive_Goes st')
    with d(2) have st': "drive_ok specs st'" "(dr_runner st', dr_runner st) \<in> {(r', r). nearer specs r' r}"
      "r_phase (dr_runner st') \<noteq> Closed" by simp_all
    from "1.hyps" [OF st'(2) st'(1,3), of "mos \<circ> Suc"] obtain n e where
      n: "drive h specs (map (mos \<circ> Suc) [0..<n]) st' = Inr e" "drive_over e" by blast
    have "map mos [0..<Suc n] = mos 0 # map (mos \<circ> Suc) [0..<n]"
      by (simp add: upt_conv_Cons map_Suc_upt [symmetric] del: upt_Suc)
    with d(1) Drive_Goes n have "drive h specs (map mos [0..<Suc n]) st = Inr e" by simp
    with n(2) show ?thesis by blast
  next
    case (Drive_Crashed m)
    with d(1) have "drive h specs (map mos [0..<Suc 0]) st = Inr d" by simp
    with Drive_Crashed show ?thesis by (metis drive_over_simps(2))
  next
    case (Drive_Returned rep st')
    with d(1) have "drive h specs (map mos [0..<Suc 0]) st = Inr d" by simp
    with Drive_Returned show ?thesis by (metis drive_over_simps(3))
  qed
qed

lemma drive_ok_begin: "play_ok specs (None, r, t) \<Longrightarrow> drive_ok specs (drive_begin r t m) \<and> r_phase (dr_runner (drive_begin r t m)) \<noteq> Closed"
  by (simp add: play_ok_def drive_ok_def drive_begin_def input_fits_def)

end
