(* ===== verification/World_Files.thy ===== *)
theory World_Files
  imports World_Facts
begin

text \<open>
  What the operations on the model machine's files do to the path-to-entry function: the paths
  below a path are a run of the ordered map, removing and moving a tree, and placing new entries.
\<close>

section \<open>Prefixes in the order of paths\<close>

lemma prefix_le: "starts_with q p \<Longrightarrow> p \<le> (q :: path)"
  by (induction q p rule: starts_with.induct) auto

lemma between_prefix: "p \<le> q \<Longrightarrow> q \<le> p @ s \<Longrightarrow> starts_with (q :: path) p"
proof (induction p arbitrary: q)
  case (Cons a p)
  then obtain b q' where "q = b # q'" by (cases q) auto
  with Cons show ?case by auto
qed simp

lemma starts_with_butlast: "starts_with (butlast q) p \<Longrightarrow> starts_with q p"
  by (metis append_butlast_last_id butlast.simps(1) starts_with_append starts_with_iff append_assoc)

lemma starts_with_trans: "starts_with a b \<Longrightarrow> starts_with b c \<Longrightarrow> starts_with a c"
  by (auto simp: starts_with_iff)

lemma starts_with_antisym: "starts_with a b \<Longrightarrow> starts_with b a \<Longrightarrow> a = b"
  by (auto simp: starts_with_iff)

lemma starts_with_linear: "starts_with q a \<Longrightarrow> starts_with q b \<Longrightarrow> starts_with a b \<or> starts_with b a"
  by (auto simp: starts_with_iff append_eq_append_conv2)

lemma starts_with_proper: "starts_with q p \<Longrightarrow> q \<noteq> p \<Longrightarrow> starts_with (butlast q) p"
  by (auto simp: starts_with_iff butlast_append)

lemma starts_with_snoc [simp]: "\<not> starts_with p (p @ [x])" "starts_with (p @ [x]) p"
  by (simp_all add: starts_with_iff)

lemma starts_with_length: "starts_with q p \<Longrightarrow> length p \<le> length q"
  by (auto simp: starts_with_iff)

lemma run_of_prefix:
  "sorted_wrt (<) ks \<Longrightarrow>
   takeWhile (\<lambda>q. starts_with q p) (dropWhile (\<lambda>q. q < p) ks) = filter (\<lambda>q. starts_with (q :: path) p) ks"
proof (induction ks)
  case (Cons k ks)
  show ?case
  proof (cases "k < p")
    case True
    then have "\<not> starts_with k p" using prefix_le by fastforce
    with True Cons show ?thesis by simp
  next
    case False
    have drop: "dropWhile (\<lambda>q. q < p) ks = ks"
      using False Cons.prems by (cases ks) auto
    show ?thesis
    proof (cases "starts_with k p")
      case True
      with False drop Cons show ?thesis by simp
    next
      case none: False
      have "\<not> starts_with q p" if q: "q \<in> set ks" for q
      proof
        assume "starts_with q p"
        then obtain s where s: "q = p @ s" by (auto simp: starts_with_iff)
        from Cons.prems q have "k < q" by simp
        with s have "k \<le> p @ s" by simp
        moreover from False have "p \<le> k" by simp
        ultimately show False using none between_prefix by blast
      qed
      then have "filter (\<lambda>q. starts_with q p) ks = []" by (simp add: filter_empty_conv)
      with False none show ?thesis by simp
    qed
  qed
qed simp

definition files_ok :: "world \<Rightarrow> bool" where
  "files_ok w \<longleftrightarrow> bt_ok (w_files w)"

lemma files_ok_keys: "files_ok w \<Longrightarrow> sorted_wrt (<) (map fst (w_files w))"
  by (simp add: files_ok_def bt_ok_def)

lemma file_at_keys: "file_at w q \<noteq> None \<longleftrightarrow> q \<in> set (map fst (w_files w))"
  by (auto simp: file_at_def map_of_eq_None_iff)

lemma range_from_keys: "range_from p w = dropWhile (\<lambda>q. q < p) (map fst (w_files w))"
  by (simp add: range_from_def dropWhile_map comp_def case_prod_unfold)

lemma paths_below_filter: "files_ok w \<Longrightarrow> paths_below p w = filter (\<lambda>q. starts_with q p) (map fst (w_files w))"
  by (simp only: paths_below_def range_from_keys run_of_prefix files_ok_keys)

lemma set_paths_below: "files_ok w \<Longrightarrow> set (paths_below p w) = {q. file_at w q \<noteq> None \<and> starts_with q p}"
  by (simp only: paths_below_filter set_filter file_at_keys)

lemma distinct_paths_below: "files_ok w \<Longrightarrow> distinct (paths_below p w)"
  by (simp add: paths_below_filter files_ok_def bt_ok_distinct)

lemma from_own_key:
  "sorted_wrt (<) ks \<Longrightarrow> p \<in> set ks \<Longrightarrow> dropWhile (\<lambda>q. q < p) ks = p # filter (\<lambda>q. p < (q :: path)) ks"
proof (induction ks)
  case (Cons k ks)
  then show ?case by (auto simp: filter_id_conv)
qed simp

lemma has_children_iff:
  assumes ok: "files_ok w" and p: "file_at w p \<noteq> None"
  shows "has_children p w \<longleftrightarrow> (\<exists>q. q \<noteq> p \<and> starts_with q p \<and> file_at w q \<noteq> None)"
proof -
  from p have "p \<in> set (map fst (w_files w))" by (simp only: file_at_keys)
  from from_own_key [OF files_ok_keys [OF ok] this] obtain rest where
    r: "range_from p w = p # rest" by (auto simp: range_from_keys)
  define t where "t = takeWhile (\<lambda>q. starts_with q p) rest"
  from r have below: "paths_below p w = p # t" by (simp add: paths_below_def t_def)
  with distinct_paths_below [OF ok, of p] have "p \<notin> set t" by simp
  moreover from below set_paths_below [OF ok, of p]
  have "insert p (set t) = {q. file_at w q \<noteq> None \<and> starts_with q p}" by simp
  ultimately have "set t = {q. q \<noteq> p \<and> starts_with q p \<and> file_at w q \<noteq> None}" by blast
  then have "t \<noteq> [] \<longleftrightarrow> (\<exists>q. q \<noteq> p \<and> starts_with q p \<and> file_at w q \<noteq> None)"
    by (simp only: set_empty [symmetric]) blast
  moreover have "has_children p w \<longleftrightarrow> t \<noteq> []"
    by (cases rest) (simp_all add: has_children_def r t_def)
  ultimately show ?thesis by simp
qed

section \<open>The function of the files\<close>

lemma file_at_add [simp]: "file_at (add_file p e w) = (file_at w)(p := Some e)"
  by (simp add: fun_eq_iff file_at_def add_file_def)

lemma file_at_del [simp]: "file_at (del_file p w) = (file_at w)(p := None)"
  by (simp add: fun_eq_iff file_at_def del_file_def)

lemma files_ok_add [simp]: "files_ok w \<Longrightarrow> files_ok (add_file p e w)"
  by (simp add: files_ok_def add_file_def)

lemma files_ok_del [simp]: "files_ok w \<Longrightarrow> files_ok (del_file p w)"
  by (simp add: files_ok_def del_file_def)

lemma files_ext: "files_ok a \<Longrightarrow> files_ok b \<Longrightarrow> file_at a = file_at b \<Longrightarrow> w_files a = w_files b"
  by (rule bt_ext) (simp_all add: files_ok_def file_at_def fun_eq_iff)

text \<open>A machine without its files, its counter and what is left to reclaim.\<close>

definition frame :: "world \<Rightarrow> world" where
  "frame w = w\<lparr>w_files := [], w_next := 0, w_pending := []\<rparr>"

lemma frame_add [simp]: "frame (add_file p e w) = frame w"
  and frame_del [simp]: "frame (del_file p w) = frame w"
  and pending_add [simp]: "w_pending (add_file p e w) = w_pending w"
  and pending_del [simp]: "w_pending (del_file p w) = w_pending w"
  and next_add [simp]: "w_next (add_file p e w) = w_next w"
  and next_del [simp]: "w_next (del_file p w) = w_next w"
  by (simp_all add: frame_def add_file_def del_file_def)

lemma frame_fields [simp]:
  "w_groups (frame w) = w_groups w" "w_users (frame w) = w_users w" "w_units (frame w) = w_units w"
  "w_profiles (frame w) = w_profiles w" "w_aside (frame w) = w_aside w" "w_journals (frame w) = w_journals w"
  "w_logs (frame w) = w_logs w" "w_held (frame w) = w_held w" "w_acting (frame w) = w_acting w"
  "w_runs_as (frame w) = w_runs_as w" "w_clobbered (frame w) = w_clobbered w" "w_linked (frame w) = w_linked w"
  by (simp_all add: frame_def)

lemma frameD:
  assumes "frame a = frame b"
  shows "w_groups a = w_groups b" "w_users a = w_users b" "w_units a = w_units b" "w_profiles a = w_profiles b"
    "w_aside a = w_aside b" "w_journals a = w_journals b" "w_logs a = w_logs b" "w_held a = w_held b"
    "w_acting a = w_acting b" "w_runs_as a = w_runs_as b" "w_clobbered a = w_clobbered b" "w_linked a = w_linked b"
  using assms frame_fields [of a] frame_fields [of b] by simp_all

lemma frameI:
  assumes "w_groups a = w_groups b" "w_users a = w_users b" "w_units a = w_units b" "w_profiles a = w_profiles b"
    "w_aside a = w_aside b" "w_journals a = w_journals b" "w_logs a = w_logs b" "w_held a = w_held b"
    "w_acting a = w_acting b" "w_runs_as a = w_runs_as b" "w_clobbered a = w_clobbered b" "w_linked a = w_linked b"
  shows "frame a = frame b"
  using assms by (simp add: frame_def)

section \<open>Removing, moving and placing\<close>

lemma fold_del_file: "fold del_file ps w = w\<lparr>w_files := filter (\<lambda>x. fst x \<notin> set ps) (w_files w)\<rparr>"
  by (induction ps arbitrary: w) (auto simp: del_file_def bt_remove_def conj_commute intro: filter_cong)

lemma file_at_remove_tree: "files_ok w \<Longrightarrow> file_at (remove_tree p w) q = (if starts_with q p then None else file_at w q)"
proof -
  assume ok: "files_ok w"
  have "file_at (fold del_file ps w) q = (if q \<in> set ps then None else file_at w q)" for ps
    by (induction ps arbitrary: w) auto
  with ok show ?thesis by (auto simp: remove_tree_def set_paths_below)
qed

lemma remove_tree_frame [simp]:
  "frame (remove_tree p w) = frame w" "w_pending (remove_tree p w) = w_pending w" "w_next (remove_tree p w) = w_next w"
  by (simp_all add: remove_tree_def fold_del_file frame_def)

lemma files_ok_remove_tree [simp]: "files_ok w \<Longrightarrow> files_ok (remove_tree p w)"
  by (simp add: remove_tree_def fold_del_file files_ok_def bt_ok_filter)

lemma moved_simps [simp]: "moved from to (from @ r) = to @ r"
  by (simp add: moved_def)

lemma move_one_frame [simp]:
  "frame (move_one from to p w) = frame w" "w_pending (move_one from to p w) = w_pending w"
  "w_next (move_one from to p w) = w_next w" "files_ok w \<Longrightarrow> files_ok (move_one from to p w)"
  by (simp_all add: move_one_def split: option.split)

lemma fold_move_frame:
  "frame (fold (move_one from to) ps w) = frame w" "w_pending (fold (move_one from to) ps w) = w_pending w"
  "w_next (fold (move_one from to) ps w) = w_next w" "files_ok w \<Longrightarrow> files_ok (fold (move_one from to) ps w)"
  by (induction ps arbitrary: w) auto

lemma move_tree_frame [simp]:
  "frame (move_tree from to w) = frame w" "w_pending (move_tree from to w) = w_pending w"
  "w_next (move_tree from to w) = w_next w" "files_ok w \<Longrightarrow> files_ok (move_tree from to w)"
  by (simp_all add: move_tree_def fold_move_frame)

text \<open>Two trees neither of which holds the other.\<close>

definition apart :: "path \<Rightarrow> path \<Rightarrow> bool" where
  "apart p q \<longleftrightarrow> \<not> starts_with p q \<and> \<not> starts_with q p"

lemma apart_disjoint: "apart p q \<Longrightarrow> starts_with r p \<Longrightarrow> \<not> starts_with r q"
  using starts_with_linear by (auto simp: apart_def)

lemma apart_sym: "apart p q \<Longrightarrow> apart q p"
  by (simp add: apart_def)

definition original :: "path \<Rightarrow> path \<Rightarrow> path \<Rightarrow> path" where
  "original from to q = from @ drop (length to) q"

lemma original_moved [simp]: "starts_with p from \<Longrightarrow> original from to (moved from to p) = p"
  by (auto simp: original_def moved_def starts_with_iff)

lemma moved_original [simp]: "starts_with q to \<Longrightarrow> moved from to (original from to q) = q"
  by (auto simp: original_def moved_def starts_with_iff)

lemma starts_with_moved [simp]: "starts_with (moved from to p) to"
  by (simp add: moved_def)

lemma starts_with_original [simp]: "starts_with (original from to q) from"
  by (simp add: original_def)

lemma file_at_fold_move:
  assumes "apart from to" "distinct ps" "\<forall>p \<in> set ps. starts_with p from \<and> file_at w p \<noteq> None"
  shows "file_at (fold (move_one from to) ps w) q =
    (if starts_with q to \<and> original from to q \<in> set ps then file_at w (original from to q)
     else if q \<in> set ps then None else file_at w q)"
  using assms(2,3)
proof (induction ps arbitrary: w)
  case (Cons p ps)
  then obtain e where p: "starts_with p from" "file_at w p = Some e" "p \<notin> set ps" by auto
  let ?w = "move_one from to p w"
  have mp: "\<not> starts_with (moved from to p) from"
    using apart_disjoint [OF apart_sym [OF assms(1)], of "moved from to p"] by simp
  have w1: "file_at ?w = (file_at w)(p := None, moved from to p := Some e)"
    using p(2) by (simp add: move_one_def)
  have keep: "file_at ?w r = file_at w r" if "r \<in> set ps" for r
    using that Cons.prems p(3) mp by (auto simp: w1)
  have "\<forall>r \<in> set ps. starts_with r from \<and> file_at ?w r \<noteq> None"
    using Cons.prems keep by simp
  with Cons.IH [of ?w] Cons.prems(1) have IH: "file_at (fold (move_one from to) ps ?w) q =
    (if starts_with q to \<and> original from to q \<in> set ps then file_at ?w (original from to q)
     else if q \<in> set ps then None else file_at ?w q)" by simp
  have "q = moved from to p \<longleftrightarrow> starts_with q to \<and> original from to q = p"
    using p(1) by auto
  moreover have "moved from to p \<notin> set ps" using Cons.prems(2) mp by auto
  ultimately show ?case using IH keep [of "original from to q"] p mp by (auto simp: w1)
qed simp

lemma file_at_move_tree:
  assumes "files_ok w" "apart from to"
  shows "file_at (move_tree from to w) q =
    (if starts_with q to \<and> file_at w (original from to q) \<noteq> None then file_at w (original from to q)
     else if starts_with q from then None else file_at w q)"
proof -
  have "\<forall>p \<in> set (paths_below from w). starts_with p from \<and> file_at w p \<noteq> None"
    using assms(1) by (simp add: set_paths_below)
  from file_at_fold_move [OF assms(2) distinct_paths_below [OF assms(1)] this, of q] show ?thesis
    by (auto simp: move_tree_def set_paths_below [OF assms(1)])
qed

lemma fresh_simps [simp]:
  "frame (snd (fresh w)) = frame w" "w_pending (snd (fresh w)) = w_pending w" "w_next (snd (fresh w)) = Suc (w_next w)"
  "file_at (snd (fresh w)) = file_at w" "files_ok (snd (fresh w)) = files_ok w"
  by (simp_all add: fresh_def frame_def file_at_def fun_eq_iff files_ok_def)

lemma place_simps [simp]:
  "frame (snd (place p c mode owner w)) = frame w" "w_pending (snd (place p c mode owner w)) = w_pending w"
  "w_next (snd (place p c mode owner w)) = Suc (w_next w)"
  "files_ok w \<Longrightarrow> files_ok (snd (place p c mode owner w))"
  "file_at (snd (place p c mode owner w)) =
    (file_at w)(p := Some (new_entry c mode owner (fst (place p c mode owner w))))"
  by (simp_all add: place_def Let_def case_prod_beta)

lemma place_all_Cons: "place_all ((p, c, mode, owner) # items) w =
  ((p, fst (place p c mode owner w)) # fst (place_all items (snd (place p c mode owner w))),
   snd (place_all items (snd (place p c mode owner w))))"
  by (simp add: Let_def case_prod_beta)

lemma place_all_frame [simp]:
  "frame (snd (place_all items w)) = frame w" "w_pending (snd (place_all items w)) = w_pending w"
  "w_next (snd (place_all items w)) = w_next w + length items"
  "files_ok w \<Longrightarrow> files_ok (snd (place_all items w))"
  by (induction items arbitrary: w) (auto simp: place_all_Cons simp del: place_all.simps(2))

lemma place_all_ids: "map fst (fst (place_all items w)) = map fst items"
  by (induction items arbitrary: w) (auto simp: place_all_Cons simp del: place_all.simps(2))

lemma file_at_place_all:
  "distinct (map fst items) \<Longrightarrow> file_at (snd (place_all items w)) q =
    (case map_of items q of
       None \<Rightarrow> file_at w q
     | Some (c, mode, owner) \<Rightarrow> Some (new_entry c mode owner (the (map_of (fst (place_all items w)) q))))"
proof (induction items arbitrary: w)
  case (Cons it items)
  obtain p c mode owner where it: "it = (p, c, mode, owner)" by (cases it)
  let ?w = "snd (place p c mode owner w)"
  from Cons.prems it have d: "p \<notin> fst ` set items" "distinct (map fst items)" by auto
  then have "map_of items p = None" by (auto simp: map_of_eq_None_iff)
  with Cons.IH [OF d(2), of ?w] it show ?case
    by (auto simp: place_all_Cons simp del: place_all.simps(2) split: option.split)
qed simp

end
