(* ===== verification/World_Undo.thy ===== *)
theory World_Undo
  imports World_Files
begin

text \<open>
  The undo actions of the model machine. The locale \<open>undo_laws\<close> says what makes a machine whose
  steps return their undo actions one that a rollback brings back: every step keeps an invariant,
  its undo actions bring back a state that is the same as the one before, and undo actions cannot
  tell such states apart. The rest of the theory holds the invariants of the model machine, when
  two machines are the same, and the undoing of the actions on files.
\<close>

section \<open>Machines whose steps can be undone\<close>

fun run_all :: "('a \<Rightarrow> 's \<Rightarrow> ('e + 'u) \<times> 's) \<Rightarrow> 'a list \<Rightarrow> 's \<Rightarrow> ('e + 'u list) \<times> 's" where
  "run_all step [] s = (Inr [], s)"
| "run_all step (a # as) s =
     (case step a s of
        (Inl e, s1) \<Rightarrow> (Inl e, s1)
      | (Inr u, s1) \<Rightarrow>
          (case run_all step as s1 of (Inl e, s2) \<Rightarrow> (Inl e, s2) | (Inr us, s2) \<Rightarrow> (Inr (u # us), s2)))"

text \<open>Every action of a run fits the state it is applied to, as far as the run gets.\<close>

fun fits_all :: "('a \<Rightarrow> 's \<Rightarrow> bool) \<Rightarrow> ('a \<Rightarrow> 's \<Rightarrow> ('e + 'u) \<times> 's) \<Rightarrow> 'a list \<Rightarrow> 's \<Rightarrow> bool" where
  "fits_all fits step [] s = True"
| "fits_all fits step (a # as) s =
     (fits a s \<and> (case step a s of (Inl _, _) \<Rightarrow> True | (Inr _, s1) \<Rightarrow> fits_all fits step as s1))"

lemma run_all_Cons: "run_all step (a # as) s = (Inr us, s2) \<longleftrightarrow>
  (\<exists>u us' s1. step a s = (Inr u, s1) \<and> run_all step as s1 = (Inr us', s2) \<and> us = u # us')"
  by (auto split: prod.splits sum.splits)

lemma run_all_append:
  "run_all step (as @ bs) s = (Inr us, s2) \<longleftrightarrow>
   (\<exists>u v s1. run_all step as s = (Inr u, s1) \<and> run_all step bs s1 = (Inr v, s2) \<and> us = u @ v)"
proof (induction as arbitrary: s us)
  case (Cons a as)
  show ?case unfolding append_Cons run_all_Cons Cons.IH by (metis append_Cons)
qed simp

declare run_all.simps(2) [simp del]

locale undo_laws =
  fixes step :: "'a \<Rightarrow> 's \<Rightarrow> ('e + 'a list) \<times> 's"
    and inv :: "'s \<Rightarrow> bool" and fits :: "'a \<Rightarrow> 's \<Rightarrow> bool"
    and backward :: "'a \<Rightarrow> bool" and same :: "'s \<Rightarrow> 's \<Rightarrow> bool"
  assumes same_refl: "same s s"
    and same_sym: "same s s' \<Longrightarrow> same s' s"
    and same_trans: "same s s' \<Longrightarrow> same s' s'' \<Longrightarrow> same s s''"
    and step_inv: "inv s \<Longrightarrow> fits a s \<Longrightarrow> step a s = (Inr undo, s') \<Longrightarrow> inv s'"
    and step_backward: "fits a s \<Longrightarrow> step a s = (Inr undo, s') \<Longrightarrow> u \<in> set undo \<Longrightarrow> backward u"
    and step_undone: "inv s \<Longrightarrow> fits a s \<Longrightarrow> step a s = (Inr undo, s') \<Longrightarrow>
      \<exists>us s''. run_all step undo s' = (Inr us, s'') \<and> same s'' s"
    and backward_same: "backward u \<Longrightarrow> same s t \<Longrightarrow> step u s = (Inr us, s') \<Longrightarrow>
      \<exists>t'. step u t = (Inr us, t') \<and> same s' t'"
begin

lemma run_same:
  "\<forall>u \<in> set as. backward u \<Longrightarrow> same s t \<Longrightarrow> run_all step as s = (Inr us, s') \<Longrightarrow>
   \<exists>t'. run_all step as t = (Inr us, t') \<and> same s' t'"
proof (induction as arbitrary: s t us)
  case (Cons a as)
  from Cons.prems(3) obtain u us' s1 where
    s1: "step a s = (Inr u, s1)" "run_all step as s1 = (Inr us', s')" "us = u # us'"
    by (auto simp: run_all_Cons)
  from backward_same [OF _ Cons.prems(2) s1(1)] Cons.prems(1) obtain t1 where
    t1: "step a t = (Inr u, t1)" "same s1 t1" by auto
  from Cons.IH [OF _ t1(2) s1(2)] Cons.prems(1) obtain t' where
    "run_all step as t1 = (Inr us', t')" "same s' t'" by auto
  with t1(1) s1(3) show ?case by (auto simp: run_all_Cons)
qed (auto intro: same_refl)

lemma run_inv:
  "inv s \<Longrightarrow> fits_all fits step as s \<Longrightarrow> run_all step as s = (Inr us, s') \<Longrightarrow> inv s'"
proof (induction as arbitrary: s us)
  case (Cons a as)
  from Cons.prems(3) obtain u us' s1 where
    s1: "step a s = (Inr u, s1)" "run_all step as s1 = (Inr us', s')"
    by (auto simp: run_all_Cons)
  with Cons.prems(1,2) have "inv s1" "fits_all fits step as s1" by (auto intro: step_inv)
  then show ?case using s1(2) by (rule Cons.IH)
qed simp

lemma run_backward:
  "fits_all fits step as s \<Longrightarrow> run_all step as s = (Inr us, s') \<Longrightarrow> u \<in> set (concat us) \<Longrightarrow> backward u"
proof (induction as arbitrary: s us)
  case (Cons a as)
  from Cons.prems(2) obtain v us' s1 where
    s1: "step a s = (Inr v, s1)" "run_all step as s1 = (Inr us', s')" "us = v # us'"
    by (auto simp: run_all_Cons)
  with Cons.prems(1) have "fits a s" "fits_all fits step as s1" by auto
  with s1 Cons.prems(3) Cons.IH [OF _ s1(2)] step_backward [OF _ s1(1)] show ?case by auto
qed simp

text \<open>A run is taken back by the undo actions of its steps, from the last to the first.\<close>

lemma run_undone:
  "inv s \<Longrightarrow> fits_all fits step as s \<Longrightarrow> run_all step as s = (Inr undos, s') \<Longrightarrow>
   \<exists>us s''. run_all step (concat (rev undos)) s' = (Inr us, s'') \<and> same s'' s"
proof (induction as arbitrary: s undos)
  case (Cons a as)
  from Cons.prems(3) obtain undo undos' s1 where
    s1: "step a s = (Inr undo, s1)" "run_all step as s1 = (Inr undos', s')" "undos = undo # undos'"
    by (auto simp: run_all_Cons)
  from Cons.prems(1,2) s1(1) have i: "inv s1" "fits a s" "fits_all fits step as s1"
    by (auto intro: step_inv)
  from Cons.IH [OF i(1,3) s1(2)] obtain us x where
    x: "run_all step (concat (rev undos')) s' = (Inr us, x)" "same x s1" by blast
  from step_undone [OF Cons.prems(1) i(2) s1(1)] obtain vs y where
    y: "run_all step undo s1 = (Inr vs, y)" "same y s" by blast
  from run_same [OF _ same_sym [OF x(2)] y(1)] step_backward [OF i(2) s1(1)] obtain z where
    z: "run_all step undo x = (Inr vs, z)" "same y z" by blast
  from x(1) z(1) have "run_all step (concat (rev undos)) s' = (Inr (us @ vs), z)"
    by (auto simp: s1(3) run_all_append)
  moreover from same_trans [OF same_sym [OF z(2)] y(2)] have "same z s" .
  ultimately show ?case by blast
qed (auto intro: same_refl)

end

lemma apply_all_run: "apply_all as w = run_all apply_action as w"
  by (induction as arbitrary: w) (auto simp: run_all.simps then_do_def split: prod.splits sum.splits)

lemma rollback_order_no_syncs:
  assumes "\<forall>a \<in> set (concat journal). \<not> is_sync a"
  shows "rollback_order journal = concat (rev journal)"
proof -
  have "plain xs = xs" if "\<forall>a \<in> set xs. \<not> is_sync a" for xs
    using that by (auto simp: plain_def filter_id_conv)
  moreover from assms rollback_order_set [of journal] have "\<forall>a \<in> set (rollback_order journal). \<not> is_sync a" by simp
  moreover from assms have "\<forall>a \<in> set (concat (rev journal)). \<not> is_sync a" by simp
  ultimately show ?thesis using rollback_order_plain [of journal] by metis
qed
section \<open>When two machines are the same\<close>

text \<open>Everything but the counter and under which request a path is left to reclaim.\<close>

definition alike :: "world \<Rightarrow> world \<Rightarrow> bool" where
  "alike a b \<longleftrightarrow> frame a = frame b \<and> w_files a = w_files b \<and> all_pending a = all_pending b"

lemma alike_refl [simp]: "alike a a"
  and alike_sym: "alike a b \<Longrightarrow> alike b a"
  and alike_trans: "alike a b \<Longrightarrow> alike b c \<Longrightarrow> alike a c"
  by (simp_all add: alike_def)

lemma alike_world_eq: "alike a b \<Longrightarrow> world_eq a b"
  using frameD [of a b]
  by (simp add: alike_def world_eq_def comparable_files_def meaningful_units_def)

lemma alike_file_at: "alike a b \<Longrightarrow> file_at a = file_at b"
  by (simp add: alike_def file_at_def fun_eq_iff)

section \<open>Numbered names\<close>

text \<open>A name that ends in the request and a number that the counter has yet to reach.\<close>

definition numbered :: "string \<Rightarrow> nat \<Rightarrow> string \<Rightarrow> bool" where
  "numbered acting n name \<longleftrightarrow> (\<exists>k \<ge> n. suffix (''-'' @ acting @ ''-'' @ show_nat k) name)"

definition proper :: "string \<Rightarrow> nat \<Rightarrow> path \<Rightarrow> bool" where
  "proper acting n p \<longleftrightarrow> (\<forall>c \<in> set p. plain_component c \<and> \<not> numbered acting n c)"

lemma show_nat_digit_chars: "c \<in> set (show_nat n) \<Longrightarrow> c \<in> digit_char ` {..<10}"
proof (induction n rule: show_nat.induct)
  case (1 n)
  show ?case
  proof (cases "n < 10")
    case True
    with 1 show ?thesis by (simp add: show_nat.simps [of n])
  next
    case False
    with 1 show ?thesis by (auto simp: show_nat.simps [of n])
  qed
qed

lemma show_nat_free: "CHR ''-'' \<notin> set (show_nat n)" "slash \<notin> set (show_nat n)"
proof -
  have "(48 :: nat) \<le> of_char c" if "c \<in> set (show_nat n)" for c
    using show_nat_digit_chars [OF that] by (auto simp: digit_char_def)
  then show "CHR ''-'' \<notin> set (show_nat n)" "slash \<notin> set (show_nat n)"
    by (fastforce simp: slash_def)+
qed

lemma last_part_unique:
  "xs @ [d] @ as = ys @ [d] @ bs \<Longrightarrow> d \<notin> set as \<Longrightarrow> d \<notin> set bs \<Longrightarrow> as = bs"
  by (auto simp: append_eq_append_conv2 Cons_eq_append_conv append_eq_Cons_conv)

lemma numbered_once:
  "suffix (''-'' @ acting @ ''-'' @ show_nat k) name \<Longrightarrow> numbered acting n name \<longleftrightarrow> n \<le> k"
proof -
  assume k: "suffix (''-'' @ acting @ ''-'' @ show_nat k) name"
  have "j = k" if "suffix (''-'' @ acting @ ''-'' @ show_nat j) name" for j
  proof -
    from k obtain xs where x: "name = (xs @ ''-'' @ acting) @ [CHR ''-''] @ show_nat k" by (auto simp: suffix_def)
    from that obtain ys where y: "name = (ys @ ''-'' @ acting) @ [CHR ''-''] @ show_nat j" by (auto simp: suffix_def)
    from y [symmetric] x have "(ys @ ''-'' @ acting) @ [CHR ''-''] @ show_nat j = (xs @ ''-'' @ acting) @ [CHR ''-''] @ show_nat k"
      by (rule trans)
    from last_part_unique [OF this show_nat_free(1) show_nat_free(1)] have "show_nat j = show_nat k" .
    then show ?thesis by (rule show_nat_inj)
  qed
  with k show ?thesis unfolding numbered_def by blast
qed

lemma numbered_mono: "numbered acting n name \<Longrightarrow> m \<le> n \<Longrightarrow> numbered acting m name"
  by (auto simp: numbered_def intro: le_trans)

lemma proper_mono: "proper acting m p \<Longrightarrow> m \<le> n \<Longrightarrow> proper acting n p"
  by (auto simp: proper_def dest: numbered_mono)

lemma proper_append [simp]: "proper acting n (p @ q) \<longleftrightarrow> proper acting n p \<and> proper acting n q"
  by (auto simp: proper_def)

lemma proper_prefix: "proper acting n p \<Longrightarrow> starts_with p q \<Longrightarrow> proper acting n q"
  by (auto simp: starts_with_iff)

lemma proper_butlast: "proper acting n p \<Longrightarrow> proper acting n (butlast p)"
  by (auto simp: proper_def dest: in_set_butlastD)

lemma lossy_no_slash: "slash \<notin> set s \<Longrightarrow> slash \<notin> set (utf8_lossy s)"
proof (induction s rule: utf8_lossy.induct)
  case (1 s)
  show ?case
  proof (cases "s = []")
    case False
    from 1 have "slash \<notin> set (utf8_lossy (drop (snd (utf8_step s)) s))"
      using False by (simp add: case_prod_unfold) (metis in_set_dropD surj_pair snd_conv)
    with False "1.prems" show ?thesis
      by (subst utf8_lossy.simps) (auto simp: case_prod_unfold Let_def replacement_def slash_def dest: in_set_takeD)
  qed (simp add: utf8_lossy.simps)
qed

section \<open>The invariant of the files\<close>

definition tree_shaped :: "world \<Rightarrow> bool" where
  "tree_shaped w \<longleftrightarrow> (\<forall>p e. file_at w p = Some e \<longrightarrow> p = [] \<or> is_dir w (butlast p))"

definition known_paths :: "world \<Rightarrow> path set" where
  "known_paths w = {p. file_at w p \<noteq> None} \<union> fst ` set (w_aside w) \<union> set (all_pending w)"

definition machine_ok :: "world \<Rightarrow> bool" where
  "machine_ok w \<longleftrightarrow>
     files_ok w \<and> tree_shaped w \<and> bt_ok (w_profiles w) \<and> bt_ok (w_aside w) \<and> bt_ok (w_pending w) \<and>
     slash \<notin> set (w_acting w) \<and> (\<forall>p \<in> known_paths w. proper (w_acting w) (w_next w) p)"

lemma is_dir_present: "is_dir w p \<Longrightarrow> file_at w p \<noteq> None"
  by (cases "file_at w p") (simp_all add: is_dir_def)

lemma is_dir_cong: "file_at a p = file_at b p \<Longrightarrow> is_dir a p = is_dir b p"
  by (simp add: is_dir_def)

lemma tree_prefix:
  assumes "tree_shaped w" "file_at w p \<noteq> None" "starts_with p q" "q \<noteq> p"
  shows "is_dir w q"
  using assms(2-)
proof (induction p rule: rev_induct)
  case (snoc x p)
  with assms(1) have d: "is_dir w p" by (fastforce simp: tree_shaped_def)
  from snoc.prems starts_with_proper [of "p @ [x]" q] have "starts_with p q" by simp
  with d snoc.IH is_dir_present [OF d] show ?case by (cases "q = p") auto
qed (simp add: starts_with_iff)

lemma tree_below_missing: "tree_shaped w \<Longrightarrow> file_at w p = None \<Longrightarrow> starts_with q p \<Longrightarrow> file_at w q = None"
  by (metis tree_prefix is_dir_present)

lemma parent_is_dir_Inr: "parent_is_dir w p = Inr u \<longleftrightarrow> (\<forall>n < length p. is_dir w (take n p))"
proof -
  have "find (\<lambda>dir. \<not> is_dir w dir) (map (\<lambda>n. take n p) [0..<length p]) = None \<longleftrightarrow> (\<forall>n < length p. is_dir w (take n p))"
    by (auto simp: find_None_iff)
  then show ?thesis
    by (cases "find (\<lambda>dir. \<not> is_dir w dir) (map (\<lambda>n. take n p) [0..<length p])")
      (auto simp: parent_is_dir_def split: option.splits)
qed

lemma parent_is_dir_tree:
  assumes "tree_shaped w" and "p \<noteq> []"
  shows "parent_is_dir w p = Inr u \<longleftrightarrow> is_dir w (butlast p)"
proof
  assume "parent_is_dir w p = Inr u"
  with assms(2) show "is_dir w (butlast p)" by (simp add: parent_is_dir_Inr butlast_conv_take)
next
  assume d: "is_dir w (butlast p)"
  have "is_dir w (take n p)" if "n < length p" for n
  proof (cases "take n p = butlast p")
    case False
    from that have "starts_with (butlast p) (take n p)"
      by (metis append_take_drop_id starts_with_append butlast_conv_take take_take min_def nat_less_le Suc_pred' length_greater_0_conv assms(2) less_Suc_eq_le)
    with False tree_prefix [OF assms(1) is_dir_present [OF d]] show ?thesis by simp
  qed (use d in simp)
  then show "parent_is_dir w p = Inr u" by (simp add: parent_is_dir_Inr)
qed

definition node_of :: "file_entry \<Rightarrow> node" where
  "node_of e = \<lparr>nd_kind = (case en_content e of Content_Directory \<Rightarrow> PathKind_Directory | Content_File _ \<Rightarrow> PathKind_File),
     nd_id = en_id e, nd_mode = en_mode e, nd_owner = en_owner e\<rparr>"

lemma node_of_simps [simp]: "nd_id (node_of e) = en_id e" "nd_mode (node_of e) = en_mode e"
  "nd_owner (node_of e) = en_owner e" "nd_kind (node_of e) \<noteq> PathKind_Symlink"
  by (simp_all add: node_of_def split: content.split)

lemma spot_missing:
  assumes "tree_shaped w"
  shows "spot_of w p = Spot_Missing \<longleftrightarrow> p \<noteq> [] \<and> is_dir w (butlast p) \<and> file_at w p = None"
proof (cases "p = []")
  case False
  from parent_is_dir_tree [OF assms this] show ?thesis
    by (auto simp: spot_of_def False split: sum.splits option.splits)
qed (simp add: spot_of_def)

lemma spot_present:
  assumes "tree_shaped w"
  shows "spot_of w p = Spot_Present nd \<longleftrightarrow> p \<noteq> [] \<and> (\<exists>e. file_at w p = Some e \<and> nd = node_of e)"
proof (cases "p = []")
  case False
  have "is_dir w (butlast p)" if "file_at w p = Some e" for e
    using assms that False by (auto simp: tree_shaped_def)
  with parent_is_dir_tree [OF assms False] show ?thesis
    by (fastforce simp: spot_of_def False node_of_def split: sum.splits option.splits)
qed (simp add: spot_of_def)

lemma machine_okD:
  assumes "machine_ok w"
  shows "files_ok w" "tree_shaped w" "bt_ok (w_profiles w)" "bt_ok (w_aside w)" "bt_ok (w_pending w)"
    "slash \<notin> set (w_acting w)" "file_at w p = Some e \<Longrightarrow> proper (w_acting w) (w_next w) p"
    "p \<in> fst ` set (w_aside w) \<Longrightarrow> proper (w_acting w) (w_next w) p"
    "p \<in> set (all_pending w) \<Longrightarrow> proper (w_acting w) (w_next w) p"
  using assms by (auto simp: machine_ok_def known_paths_def)

section \<open>Siblings\<close>

text \<open>The name of a sibling ends in a number that nothing on the machine has yet.\<close>

definition sibling_of :: "path \<Rightarrow> string \<Rightarrow> world \<Rightarrow> path" where
  "sibling_of p purpose w = fst (sibling p purpose w)"

lemma sibling_split: "sibling p purpose w = (sibling_of p purpose w, snd (fresh w))"
  by (simp add: sibling_def sibling_of_def Let_def case_prod_unfold)

lemma sibling_of_name:
  assumes p: "p \<noteq> []" "plain_component (last p)" and w: "slash \<notin> set (w_acting w)" and "slash \<notin> set purpose"
  obtains name where "sibling_of p purpose w = butlast p @ [name]" "plain_component name"
    "suffix (''-'' @ w_acting w @ ''-'' @ show_nat (w_next w)) name"
proof -
  define name where
    "name = ''.'' @ utf8_lossy (last p) @ ''.mix-'' @ purpose @ ''-'' @ w_acting w @ ''-'' @ show_nat (w_next w)"
  have "slash \<notin> set (utf8_lossy (last p))" using p(2) by (intro lossy_no_slash) (simp add: plain_component_def)
  with assms show_nat_free have pl: "plain_component name"
    by (auto simp: plain_component_def name_def slash_def)
  have "sibling_of p purpose w = butlast p @ [name]"
    using p(1) path_join_plain [OF pl]
    by (simp add: sibling_of_def sibling_def Let_def case_prod_unfold fresh_def with_file_name_def file_name_def name_def)
  moreover have "suffix (''-'' @ w_acting w @ ''-'' @ show_nat (w_next w)) name"
    unfolding suffix_def name_def by (intro exI [of _ "''.'' @ utf8_lossy (last p) @ ''.mix-'' @ purpose"]) simp
  ultimately show thesis using pl that by blast
qed

lemma sibling_of_props:
  assumes ok: "machine_ok w" and p: "p \<noteq> []" "file_at w p \<noteq> None" and "slash \<notin> set purpose"
  shows "butlast (sibling_of p purpose w) = butlast p" "sibling_of p purpose w \<noteq> []"
    "apart p (sibling_of p purpose w)" "proper (w_acting w) (Suc (w_next w)) (sibling_of p purpose w)"
    "starts_with q (sibling_of p purpose w) \<Longrightarrow> q \<notin> known_paths w"
proof -
  from p(2) machine_okD(7) [OF ok] have pr: "proper (w_acting w) (w_next w) p" by auto
  with p(1) have "plain_component (last p)" by (simp add: proper_def)
  from sibling_of_name [OF p(1) this machine_okD(6) [OF ok] assms(4)] obtain name where
    n: "sibling_of p purpose w = butlast p @ [name]" "plain_component name"
    "suffix (''-'' @ w_acting w @ ''-'' @ show_nat (w_next w)) name" by blast
  note num = numbered_once [OF n(3)]
  show "butlast (sibling_of p purpose w) = butlast p" "sibling_of p purpose w \<noteq> []" by (simp_all add: n(1))
  show "proper (w_acting w) (Suc (w_next w)) (sibling_of p purpose w)"
    using proper_mono [OF proper_butlast [OF pr], of "Suc (w_next w)"] n(2) num by (simp add: n(1) proper_def)
  from num have bad: "\<not> proper (w_acting w) (w_next w) (sibling_of p purpose w)" by (simp add: n(1) proper_def)
  have split: "p = butlast p @ [last p]" using p(1) by simp
  have "last p \<noteq> name"
  proof
    assume "last p = name"
    with split have "p = sibling_of p purpose w" by (simp add: n(1))
    with bad pr show False by simp
  qed
  then have "apart (butlast p @ [last p]) (butlast p @ [name])"
    by (simp add: apart_def starts_with_iff)
  then show "apart p (sibling_of p purpose w)" by (simp add: n(1) p(1))
  show "starts_with q (sibling_of p purpose w) \<Longrightarrow> q \<notin> known_paths w"
    using ok bad proper_prefix by (auto simp: machine_ok_def)
qed
section \<open>What is left to reclaim\<close>

lemma all_pending_unpend: "all_pending (unpend p w) = filter (\<lambda>q. q \<noteq> p) (all_pending w)"
  by (simp add: all_pending_def unpend_def bt_map_def filter_concat comp_def case_prod_unfold)

lemma concat_bt_insert:
  "bt_ok m \<Longrightarrow> filter (\<lambda>q. q \<noteq> p)
     (concat (map snd (bt_insert k ((case map_of m k of Some ps \<Rightarrow> ps | None \<Rightarrow> []) @ [p]) m))) =
   filter (\<lambda>q. q \<noteq> p) (concat (map snd m))"
proof (induction m)
  case (Cons x m)
  then have ok: "bt_ok m" "\<And>y. y \<in> set m \<Longrightarrow> fst x < fst y" by (auto simp: bt_ok_Cons)
  have none: "map_of m k = None" if "\<not> fst x < k"
    using that ok(2) by (auto simp: map_of_eq_None_iff)
  obtain j ps where x: "x = (j, ps)" by (cases x)
  from Cons.IH ok(1) none x show ?case by auto
qed simp

lemma unpend_pend:
  assumes "bt_ok (w_pending w)" "p \<notin> set (all_pending w)"
  shows "filter (\<lambda>q. q \<noteq> p) (all_pending (pend p w)) = all_pending w"
proof -
  have "filter (\<lambda>q. q \<noteq> p) (all_pending (pend p w)) = filter (\<lambda>q. q \<noteq> p) (all_pending w)"
    using concat_bt_insert [OF assms(1), of p "w_acting w"] by (simp add: all_pending_def pend_def world_adopt_def)
  moreover have "filter (\<lambda>q. q \<noteq> p) (all_pending w) = all_pending w"
    using assms(2) by (intro filter_True) auto
  ultimately show ?thesis by simp
qed

lemma set_pend: "bt_ok (w_pending w) \<Longrightarrow> set (all_pending (pend p w)) \<subseteq> insert p (set (all_pending w))"
proof -
  assume "bt_ok (w_pending w)"
  from concat_bt_insert [OF this, of p "w_acting w"]
  have "filter (\<lambda>q. q \<noteq> p) (all_pending (pend p w)) = filter (\<lambda>q. q \<noteq> p) (all_pending w)"
    by (simp add: all_pending_def pend_def world_adopt_def)
  then have "set (filter (\<lambda>q. q \<noteq> p) (all_pending (pend p w))) = set (filter (\<lambda>q. q \<noteq> p) (all_pending w))" by simp
  then show ?thesis by auto
qed

lemma pend_simps [simp]:
  "frame (pend p w) = frame w" "file_at (pend p w) = file_at w" "files_ok (pend p w) = files_ok w"
  "w_next (pend p w) = w_next w" "bt_ok (w_pending w) \<Longrightarrow> bt_ok (w_pending (pend p w))" "w_files (pend p w) = w_files w"
  by (simp_all add: pend_def world_adopt_def frame_def file_at_def fun_eq_iff files_ok_def)

lemma unpend_simps [simp]:
  "frame (unpend p w) = frame w" "file_at (unpend p w) = file_at w" "files_ok (unpend p w) = files_ok w"
  "w_next (unpend p w) = w_next w" "w_files (unpend p w) = w_files w"
  by (simp_all add: unpend_def frame_def file_at_def fun_eq_iff files_ok_def)

lemma bring_back_simps [simp]:
  "file_at (bring_back p w) = file_at w" "files_ok (bring_back p w) = files_ok w" "w_next (bring_back p w) = w_next w"
  "w_files (bring_back p w) = w_files w" "w_pending (bring_back p w) = w_pending w"
  "frame (bring_back p w) = bring_back p (frame w)"
  by (auto simp: bring_back_def frame_def file_at_def fun_eq_iff files_ok_def split: option.split)

lemma aside_profile_simps [simp]:
  "file_at (aside_profile p q w) = file_at w" "files_ok (aside_profile p q w) = files_ok w"
  "w_next (aside_profile p q w) = w_next w" "w_pending (aside_profile p q w) = w_pending w"
  "w_acting (aside_profile p q w) = w_acting w"
  by (auto simp: aside_profile_def file_at_def fun_eq_iff files_ok_def split: option.split)

lemma aside_profile_back:
  assumes "bt_ok (w_profiles w)" "bt_ok (w_aside w)" "q \<notin> fst ` set (w_aside w)"
  shows "bring_back q (frame (aside_profile p q w)) = frame w"
proof -
  from assms(3) have none: "map_of (w_aside w) q = None" by (simp add: map_of_eq_None_iff)
  with assms(1,2) show ?thesis
    by (auto simp: aside_profile_def bring_back_def frame_def bt.put_del_back bt.del_put_fresh split: option.split)
qed

lemma all_pending_cong: "w_pending a = w_pending b \<Longrightarrow> all_pending a = all_pending b"
  by (simp add: all_pending_def)

section \<open>Trees that are replaced\<close>

definition shaped :: "(path \<Rightarrow> file_entry option) \<Rightarrow> bool" where
  "shaped f \<longleftrightarrow> (\<forall>p e. f p = Some e \<longrightarrow> p = [] \<or> (\<exists>d. f (butlast p) = Some d \<and> en_content d = Content_Directory))"

lemma is_dir_iff: "is_dir w p \<longleftrightarrow> (\<exists>d. file_at w p = Some d \<and> en_content d = Content_Directory)"
  by (auto simp: is_dir_def split: option.split)

lemma tree_shaped_iff: "tree_shaped w \<longleftrightarrow> shaped (file_at w)"
  by (simp add: tree_shaped_def shaped_def is_dir_iff)

definition patch :: "path \<Rightarrow> (path \<Rightarrow> file_entry option) \<Rightarrow> (path \<Rightarrow> file_entry option) \<Rightarrow> path \<Rightarrow> file_entry option" where
  "patch p new f q = (if starts_with q p then new q else f q)"

definition fills :: "path \<Rightarrow> (path \<Rightarrow> file_entry option) \<Rightarrow> bool" where
  "fills p new \<longleftrightarrow> (\<forall>q e. starts_with q p \<longrightarrow> q \<noteq> p \<longrightarrow> new q = Some e \<longrightarrow>
     (\<exists>d. new (butlast q) = Some d \<and> en_content d = Content_Directory))"

lemma fills_None [simp]: "fills p (\<lambda>_. None)"
  by (simp add: fills_def)

lemma starts_with_butlast_self: "p \<noteq> [] \<Longrightarrow> \<not> starts_with (butlast p) p"
  using starts_with_length [of "butlast p" p] by (cases p) auto

lemma shaped_patch:
  assumes "shaped f" "p \<noteq> []" "f (butlast p) = Some d" "en_content d = Content_Directory" "fills p new"
  shows "shaped (patch p new f)"
  unfolding shaped_def
proof (intro allI impI)
  fix q e assume q: "patch p new f q = Some e"
  show "q = [] \<or> (\<exists>d. patch p new f (butlast q) = Some d \<and> en_content d = Content_Directory)"
  proof (cases "starts_with q p")
    case True
    show ?thesis
    proof (cases "q = p")
      case True
      with assms starts_with_butlast_self show ?thesis by (auto simp: patch_def)
    next
      case False
      with True q assms(5) starts_with_proper [OF True False] show ?thesis by (auto simp: patch_def fills_def)
    qed
  next
    case False
    with q assms(1) starts_with_butlast show ?thesis by (auto simp: patch_def shaped_def)
  qed
qed

lemma shaped_fills: "shaped f \<Longrightarrow> p \<noteq> [] \<Longrightarrow> fills p f"
  by (auto simp: shaped_def fills_def starts_with_iff)

text \<open>The entries of a tree, at another place.\<close>

definition relocated :: "path \<Rightarrow> path \<Rightarrow> (path \<Rightarrow> file_entry option) \<Rightarrow> path \<Rightarrow> file_entry option" where
  "relocated from to f q = f (original from to q)"

lemma original_butlast: "starts_with q to \<Longrightarrow> q \<noteq> to \<Longrightarrow> original from to (butlast q) = butlast (original from to q)"
  by (auto simp: original_def starts_with_iff butlast_append)

lemma original_same: "starts_with q to \<Longrightarrow> original from to q = from \<longleftrightarrow> q = to"
  by (auto simp: original_def starts_with_iff)

lemma original_original [simp]: "starts_with q p \<Longrightarrow> original p r (original r p q) = q"
  by (auto simp: original_def starts_with_iff)

lemma fills_relocated: "shaped f \<Longrightarrow> from \<noteq> [] \<Longrightarrow> fills to (relocated from to f)"
  unfolding fills_def relocated_def
proof (intro allI impI)
  fix q e assume f: "shaped f" "from \<noteq> []" and q: "starts_with q to" "q \<noteq> to" "f (original from to q) = Some e"
  moreover have "original from to q \<noteq> []" using f(2) by (simp add: original_def)
  ultimately show "\<exists>d. f (original from to (butlast q)) = Some d \<and> en_content d = Content_Directory"
    using original_butlast [OF q(1,2)] by (auto simp: shaped_def)
qed

text \<open>A path whose tree was moved to a sibling, and what was put in its place.\<close>

lemma file_at_moved:
  assumes "files_ok w" "apart p r" "\<And>q. starts_with q r \<Longrightarrow> file_at w q = None"
  shows "file_at (move_tree p r w) = patch r (relocated p r (file_at w)) (patch p (\<lambda>_. None) (file_at w))"
proof
  fix q
  show "file_at (move_tree p r w) q = patch r (relocated p r (file_at w)) (patch p (\<lambda>_. None) (file_at w)) q"
    using assms(3) apart_disjoint [OF assms(2), of q]
    by (cases "file_at w (original p r q)") (auto simp: file_at_move_tree [OF assms(1,2)] patch_def relocated_def)
qed

lemma shaped_moved:
  assumes "shaped f" "p \<noteq> []" "f p \<noteq> None" "r \<noteq> []" "butlast r = butlast p" "apart p r" "fills p new"
  shows "shaped (patch r (relocated p r f) (patch p new f))"
proof -
  from assms(1-3) obtain d where d: "f (butlast p) = Some d" "en_content d = Content_Directory"
    by (auto simp: shaped_def)
  from shaped_patch [OF assms(1,2) d assms(7)] have s: "shaped (patch p new f)" .
  moreover have "patch p new f (butlast r) = Some d"
    using d(1) starts_with_butlast_self [OF assms(2)] by (simp add: patch_def assms(5))
  ultimately show ?thesis using s d(2) assms(4) fills_relocated [OF assms(1,2)] by (blast intro: shaped_patch)
qed

lemma patch_moved_back:
  assumes "apart p r" "\<And>q. starts_with q r \<Longrightarrow> f q = None"
  shows "patch p (relocated r p (patch r (relocated p r f) (patch p new f))) (patch r (\<lambda>_. None)
     (patch p (\<lambda>_. None) (patch r (relocated p r f) (patch p new f)))) = f"
proof
  fix q
  show "patch p (relocated r p (patch r (relocated p r f) (patch p new f))) (patch r (\<lambda>_. None)
     (patch p (\<lambda>_. None) (patch r (relocated p r f) (patch p new f)))) q = f q"
    using assms(2) by (auto simp: patch_def relocated_def)
qed
section \<open>Applying the actions on files\<close>

fun on_files :: "action \<Rightarrow> bool" where
  "on_files (CreateDir _ _ _) = True"
| "on_files (CreateDirs _ _ _) = True"
| "on_files (PutFile _ _ _ _ _) = True"
| "on_files (SetMode _ _ _) = True"
| "on_files (SetOwner _ _ _) = True"
| "on_files (SetAside _ _) = True"
| "on_files (Discard _ _) = True"
| "on_files (Keep _) = True"
| "on_files (ReclaimTree _ _ _ _) = True"
| "on_files (CopyTree _ _ _ _) = True"
| "on_files (RemoveCreated _ _) = True"
| "on_files (RemoveCreatedTree _ _) = True"
| "on_files (Restore _ _ _) = True"
| "on_files _ = False"

lemma apply_on_files:
  "on_files a \<Longrightarrow> apply_action a w =
    (case cleared a w of Inl f \<Rightarrow> (Inl f, w) | Inr c \<Rightarrow> if c = Clear_Done then (Inr [], w) else perform a c [] w)"
  by (cases a) (auto simp: apply_action_def account_precondition_def split: sum.splits)

lemma ground_spot [simp]: "g_spot (world_ground w) = spot_of w"
  by (simp add: world_ground_def)

text \<open>What was created is removed again.\<close>

lemma remove_created_tree:
  assumes "files_ok w" "tree_shaped w" "p \<noteq> []" "file_at w p = Some e"
  shows "apply_action (RemoveCreatedTree p (en_id e)) w = (Inr [], remove_tree p w)"
  using assms by (simp add: apply_on_files cleared_def removable_def unreached_def holding_def
    spot_present [OF assms(2), THEN iffD2, of p "node_of e"])

lemma remove_created:
  assumes "files_ok w" "tree_shaped w" "p \<noteq> []" "file_at w p = Some e"
    and "\<And>q. starts_with q p \<Longrightarrow> q \<noteq> p \<Longrightarrow> file_at w q = None"
  shows "apply_action (RemoveCreated p (en_id e)) w = (Inr [], del_file p w)"
  using assms has_children_iff [OF assms(1), of p]
  by (auto simp: apply_on_files cleared_def removable_def unreached_def holding_def do_remove_created_def
    spot_present [OF assms(2), THEN iffD2, of p "node_of e"])

lemma created_undone:
  assumes w: "files_ok w" "\<And>q. starts_with q p \<Longrightarrow> file_at w q = None" and p: "p \<noteq> []"
    and w': "files_ok w'" "tree_shaped w'" "file_at w' = patch p new (file_at w)" "frame w' = frame w"
      "w_pending w' = w_pending w"
    and e: "new p = Some e"
  shows "\<exists>us w''. run_all apply_action [RemoveCreatedTree p (en_id e)] w' = (Inr us, w'') \<and> alike w'' w"
proof -
  from w'(3) e have "file_at w' p = Some e" by (simp add: patch_def)
  from remove_created_tree [OF w'(1,2) p this]
  have run: "run_all apply_action [RemoveCreatedTree p (en_id e)] w' = (Inr [[]], remove_tree p w')"
    by (simp add: run_all.simps)
  have "file_at (remove_tree p w') = file_at w"
  proof
    fix q show "file_at (remove_tree p w') q = file_at w q"
      using w(2) by (simp add: file_at_remove_tree [OF w'(1)] w'(3) patch_def)
  qed
  with files_ext [OF files_ok_remove_tree [OF w'(1)] w(1)] have "w_files (remove_tree p w') = w_files w" by simp
  with w'(4,5) have "alike (remove_tree p w') w" by (simp add: alike_def all_pending_def)
  with run show ?thesis by blast
qed

text \<open>What was moved to a sibling is brought back.\<close>

lemma restore_undoes:
  assumes w: "machine_ok w" "p \<noteq> []" "file_at w p = Some e0"
    and r: "r \<noteq> []" "butlast r = butlast p" "apart p r" "\<And>q. starts_with q r \<Longrightarrow> q \<notin> known_paths w"
    and w': "files_ok w'" "tree_shaped w'" "file_at w' = patch r (relocated p r (file_at w)) (patch p new (file_at w))"
      "bring_back r (frame w') = frame w" "filter (\<lambda>q. q \<noteq> r) (all_pending w') = all_pending w"
    and e: "e = Expect_Absent \<and> new p = None \<or> (\<exists>en. new p = Some en \<and> e = Expect_Present (en_id en))"
  shows "\<exists>w''. apply_action (Restore p r e) w' = (Inr [], w'') \<and> alike w'' w"
proof -
  let ?w = "unpend r (bring_back r (move_tree r p (remove_tree p w')))"
  have rp: "apart r p" by (rule apart_sym) (rule r(3))
  have none: "file_at w q = None" if "starts_with q r" for q
    using r(4) [OF that] by (simp add: known_paths_def)
  have notp: "\<not> starts_with p r" "\<not> starts_with r p" using r(3) by (simp_all add: apart_def)
  have at_r: "file_at w' r = Some e0" using w(3) by (simp add: w'(3) patch_def relocated_def original_def)
  have at_p: "file_at w' p = new p" by (simp add: w'(3) patch_def notp)
  from at_r w'(2) r(1,2) have d: "is_dir w' (butlast p)" by (auto simp: tree_shaped_def)
  have spot_r: "spot_of w' r = Spot_Present (node_of e0)" by (simp add: spot_present [OF w'(2)] r(1) at_r)
  have "expecting p e (spot_of w' p) = Inr () \<and> (\<forall>f. spot_of w' p \<noteq> Spot_Blocked f)"
  proof (cases "new p")
    case None
    with e have "e = Expect_Absent" by auto
    moreover from None d w(2) at_p have "spot_of w' p = Spot_Missing" by (simp add: spot_missing [OF w'(2)])
    ultimately show ?thesis by (simp add: expecting_def)
  next
    case (Some en)
    with e have "e = Expect_Present (en_id en)" by auto
    moreover from Some w(2) at_p have "spot_of w' p = Spot_Present (node_of en)" by (simp add: spot_present [OF w'(2)])
    ultimately show ?thesis by (simp add: expecting_Inr)
  qed
  with spot_r have "cleared (Restore p r e) w' = Inr Clear_Go"
    using r(1,2) w(2) by (simp add: cleared_def restorable_Inr path_parent_def)
  then have run: "apply_action (Restore p r e) w' = (Inr [], ?w)"
    by (simp add: apply_on_files do_restore_def)
  have ok: "files_ok (remove_tree p w')" "files_ok ?w" using w'(1) by simp_all
  have "file_at (remove_tree p w') = patch p (\<lambda>_. None) (file_at w')"
    by (rule ext) (simp add: file_at_remove_tree [OF w'(1)] patch_def)
  then have "file_at (move_tree r p (remove_tree p w')) = patch p (relocated r p (patch p (\<lambda>_. None) (file_at w')))
      (patch r (\<lambda>_. None) (patch p (\<lambda>_. None) (file_at w')))"
    using file_at_moved [OF ok(1) rp] by (simp add: patch_def)
  moreover have "patch p (relocated r p (patch p (\<lambda>_. None) (file_at w'))) g = patch p (relocated r p (file_at w')) g" for g
    using apart_disjoint [OF r(3)] apart_disjoint [OF rp]
    by (rule_tac ext) (auto simp: patch_def relocated_def)
  ultimately have "file_at ?w = file_at w"
    using patch_moved_back [where new = new, OF r(3) none] by (simp add: w'(3))
  from files_ext [OF ok(2) machine_okD(1) [OF w(1)] this] have "w_files ?w = w_files w" .
  moreover from w'(4) have "frame ?w = frame w" by simp
  moreover have "all_pending (bring_back r (move_tree r p (remove_tree p w'))) = all_pending w'"
    by (rule all_pending_cong) simp
  with w'(5) have "all_pending ?w = all_pending w" by (simp add: all_pending_unpend)
  ultimately show ?thesis using run by (auto simp: alike_def)
qed
section \<open>Every action on files goes back\<close>

text \<open>
  The actions on files that return what undoes them, where they fit: a path that is to be created is
  made of plain names that do not end in the request and a number, and what is to be discarded is
  not discarded yet.
\<close>

fun file_fits :: "action \<Rightarrow> world \<Rightarrow> bool" where
  "file_fits (CreateDir p _ _) w = proper (w_acting w) 0 p"
| "file_fits (CreateDirs p _ _) w = proper (w_acting w) 0 p"
| "file_fits (PutFile p _ _ _ _) w = proper (w_acting w) 0 p"
| "file_fits (SetMode _ _ _) w = True"
| "file_fits (SetOwner _ _ _) w = True"
| "file_fits (SetAside _ _) w = True"
| "file_fits (Discard p _) w = (p \<notin> set (all_pending w))"
| "file_fits (ReclaimTree _ _ _ _) w = True"
| "file_fits (CopyTree _ to _ _) w = proper (w_acting w) 0 to"
| "file_fits _ w = False"

definition goes_back :: "world \<Rightarrow> action list \<Rightarrow> world \<Rightarrow> bool" where
  "goes_back w undo w' \<longleftrightarrow>
     machine_ok w' \<and> w_groups w' = w_groups w \<and> w_users w' = w_users w \<and> w_acting w' = w_acting w \<and>
     (\<exists>us w''. run_all apply_action undo w' = (Inr us, w'') \<and> alike w'' w)"

lemma machine_okI:
  assumes "machine_ok w" "files_ok w'" "tree_shaped w'" "bt_ok (w_profiles w')" "bt_ok (w_aside w')" "bt_ok (w_pending w')"
    and "w_acting w' = w_acting w" "w_next w \<le> w_next w'"
    and "\<And>p. p \<in> known_paths w' \<Longrightarrow> p \<in> known_paths w \<or> proper (w_acting w) (w_next w') p"
  shows "machine_ok w'"
  using assms by (auto simp: machine_ok_def intro: proper_mono)

lemma goes_back_same_frame:
  assumes w: "machine_ok w" and f: "frame w' = frame w" "w_pending w' = w_pending w"
    and w': "files_ok w'" "tree_shaped w'" "w_next w \<le> w_next w'"
    and n: "\<And>p. file_at w' p \<noteq> None \<Longrightarrow> p \<in> known_paths w \<or> proper (w_acting w) (w_next w') p"
    and u: "run_all apply_action undo w' = (Inr us, w'')" "alike w'' w"
  shows "goes_back w undo w'"
proof -
  note fr = frameD [OF f(1)]
  have "machine_ok w'"
  proof (rule machine_okI [OF w w'(1,2)])
    show "p \<in> known_paths w \<or> proper (w_acting w) (w_next w') p" if "p \<in> known_paths w'" for p
      using that n [of p] fr(5) all_pending_cong [OF f(2)] by (auto simp: known_paths_def)
  qed (use fr w' machine_okD [OF w] f(2) in simp_all)
  with fr u show ?thesis by (auto simp: goes_back_def)
qed

lemma frame_acting: "frame w' = frame w \<Longrightarrow> w_acting w' = w_acting w"
  by (rule frameD(9))

text \<open>One new entry.\<close>

lemma patch_one: "(\<And>q. starts_with q p \<Longrightarrow> f q = None) \<Longrightarrow> f(p := Some e) = patch p (\<lambda>q. if q = p then Some e else None) f"
  by (rule ext) (auto simp: patch_def)

lemma fills_one [simp]: "fills p (\<lambda>q. if q = p then Some e else None)"
  by (simp add: fills_def)

lemma place_one:
  assumes w: "machine_ok w" and p: "p \<noteq> []" "is_dir w (butlast p)" "file_at w p = None"
    and n: "proper (w_acting w) 0 p"
  shows "goes_back w [RemoveCreated p (fst (place p c mode owner w))] (snd (place p c mode owner w))"
proof -
  let ?w = "snd (place p c mode owner w)"
  let ?e = "new_entry c mode owner (fst (place p c mode owner w))"
  note ok = machine_okD [OF w]
  have none: "\<And>q. starts_with q p \<Longrightarrow> file_at w q = None" using tree_below_missing [OF ok(2) p(3)] .
  from p(2) obtain d where d: "file_at w (butlast p) = Some d" "en_content d = Content_Directory" by (auto simp: is_dir_iff)
  have at: "file_at ?w = patch p (\<lambda>q. if q = p then Some ?e else None) (file_at w)"
    using patch_one [OF none] by simp
  from shaped_patch [OF ok(2) [unfolded tree_shaped_iff] p(1) d fills_one] have sh: "tree_shaped ?w"
    by (simp only: tree_shaped_iff at)
  have fok: "files_ok ?w" using ok(1) by simp
  have "file_at ?w p = Some ?e" by simp
  from remove_created [OF fok sh p(1) this] none
  have "apply_action (RemoveCreated p (en_id ?e)) ?w = (Inr [], del_file p ?w)" by simp
  moreover have "en_id ?e = fst (place p c mode owner w)" by (simp add: new_entry_def)
  ultimately have "run_all apply_action [RemoveCreated p (fst (place p c mode owner w))] ?w = (Inr [[]], del_file p ?w)"
    by (simp add: run_all.simps del: place_simps)
  moreover have "file_at (del_file p ?w) = file_at w" using p(3) by (simp add: fun_eq_iff)
  with files_ext [OF files_ok_del [OF fok] ok(1)] have "alike (del_file p ?w) w"
    by (simp add: alike_def all_pending_def)
  moreover have "q \<in> known_paths w \<or> proper (w_acting w) (w_next ?w) q" if "file_at ?w q \<noteq> None" for q
    using that proper_mono [OF n, of "Suc (w_next w)"] by (cases "q = p") (auto simp: known_paths_def)
  ultimately show ?thesis using sh fok by (intro goes_back_same_frame [OF w]) simp_all
qed

lemma create_dir_back:
  assumes w: "machine_ok w" "proper (w_acting w) 0 p" and a: "apply_action (CreateDir p mode owner) w = (Inr undo, w')"
  shows "goes_back w undo w'"
proof -
  from a have "spot_of w p = Spot_Missing"
    by (cases "absent p (spot_of w p)") (auto simp: apply_on_files cleared_def and_go_def)
  moreover from this have "cleared (CreateDir p mode owner) w = Inr Clear_Go" by (simp add: cleared_def and_go_def absent_def)
  ultimately show ?thesis
    using a place_one [OF w(1) _ _ _ w(2), of Content_Directory mode "case owner of None \<Rightarrow> root_owner | Some ow \<Rightarrow> ow"]
    by (auto simp: apply_on_files do_create_dir_def case_prod_unfold Let_def spot_missing [OF machine_okD(2) [OF w(1)]])
qed

text \<open>A new tree.\<close>

lemma new_tree_back:
  assumes w: "machine_ok w" and p: "p \<noteq> []" "is_dir w (butlast p)" "file_at w p = None"
    and items: "distinct (map fst items)" "\<And>q. q \<in> fst ` set items \<Longrightarrow> starts_with q p" "p \<in> fst ` set items"
      "fills p (\<lambda>q. map_option (\<lambda>(c, mode, owner). new_entry c mode owner \<lparr>fid_dev = 0, fid_ino = 0, fid_born = None\<rparr>) (map_of items q))"
    and n: "\<And>q. q \<in> fst ` set items \<Longrightarrow> proper (w_acting w) (w_next w) q"
    and fid: "map_of (fst (place_all items w)) p = Some fid"
  shows "goes_back w [RemoveCreatedTree p fid] (snd (place_all items w))"
proof -
  let ?w = "snd (place_all items w)"
  let ?new = "\<lambda>q. map_option (\<lambda>(c, mode, owner). new_entry c mode owner (the (map_of (fst (place_all items w)) q))) (map_of items q)"
  note ok = machine_okD [OF w]
  have none: "\<And>q. starts_with q p \<Longrightarrow> file_at w q = None" using tree_below_missing [OF ok(2) p(3)] .
  have mem: "map_of items q \<noteq> None \<longleftrightarrow> q \<in> fst ` set items" for q by (auto simp: map_of_eq_None_iff)
  have at: "file_at ?w = patch p ?new (file_at w)"
  proof
    fix q show "file_at ?w q = patch p ?new (file_at w) q"
      using none [of q] items(2) [of q] mem [of q]
      by (auto simp: file_at_place_all [OF items(1)] patch_def split: option.split)
  qed
  have "fills p ?new"
    using items(4) unfolding fills_def
    by (fastforce simp: new_entry_def split: prod.splits)
  moreover from p(2) obtain d where "file_at w (butlast p) = Some d" "en_content d = Content_Directory" by (auto simp: is_dir_iff)
  ultimately have sh: "tree_shaped ?w"
    using shaped_patch [OF ok(2) [unfolded tree_shaped_iff] p(1)] by (simp add: tree_shaped_iff at)
  have fok: "files_ok ?w" using ok(1) by simp
  from items(3) mem have "map_of items p \<noteq> None" by simp
  then obtain c mode owner where "map_of items p = Some (c, mode, owner)" by (metis option.exhaust prod_cases3)
  then have new: "?new p = Some (new_entry c mode owner fid)" by (simp add: fid)
  have "\<exists>us w''. run_all apply_action [RemoveCreatedTree p (en_id (new_entry c mode owner fid))] ?w = (Inr us, w'') \<and> alike w'' w"
    by (rule created_undone [OF ok(1) none p(1) fok sh at _ _ new]) simp_all
  then obtain us w'' where run: "run_all apply_action [RemoveCreatedTree p fid] ?w = (Inr us, w'')" "alike w'' w"
    by (auto simp: new_entry_def)
  show ?thesis
  proof (rule goes_back_same_frame [OF w _ _ fok sh _ _ run])
    show "q \<in> known_paths w \<or> proper (w_acting w) (w_next ?w) q" if "file_at ?w q \<noteq> None" for q
      using that proper_mono [OF n [of q], of "w_next w + length items"] mem [of q]
      by (cases "map_of items q") (auto simp: file_at_place_all [OF items(1)] known_paths_def)
  qed simp_all
qed
text \<open>A missing path and the directories above it that are missing.\<close>

lemma starts_with_take: "starts_with p q \<longleftrightarrow> take (length q) p = q"
  by (auto simp: starts_with_iff) (metis append_take_drop_id)

lemma ancestors_below:
  assumes "starts_with p q"
  shows "rev (takeWhile (\<lambda>dir. starts_with dir q) (ancestors p)) = map (\<lambda>n. take n p) [length q..<Suc (length p)]"
proof -
  from assms obtain r where r: "p = q @ r" by (auto simp: starts_with_iff)
  have "length q \<le> Suc (length p)" by (simp add: r)
  then have parts: "[0..<Suc (length p)] = [0..<length q] @ [length q..<Suc (length p)]"
    by (metis le_Suc_ex add_0 upt_add_eq_append zero_le)
  have above: "starts_with (take n p) q" if "length q \<le> n" for n
    using that by (simp add: r)
  have "\<not> starts_with (take n p) q" if "n < length q" for n
    using starts_with_length [of "take n p" q] that by fastforce
  then have "takeWhile (\<lambda>dir. starts_with dir q) (map (\<lambda>n. take n p) (rev [0..<length q])) = []"
    by (cases "length q") auto
  with above have "takeWhile (\<lambda>dir. starts_with dir q) (ancestors p) = map (\<lambda>n. take n p) (rev [length q..<Suc (length p)])"
    by (simp add: ancestors_def parts del: upt_Suc) (subst takeWhile_append2, auto simp del: upt_Suc)
  then show ?thesis by (simp add: rev_map)
qed

lemma map_of_const: "map_of (map (\<lambda>k. (k, f k)) ks) q = (if q \<in> set ks then Some (f q) else None)"
  by (induction ks) auto

lemma place_all_hd:
  "items \<noteq> [] \<Longrightarrow>
   map_of (fst (place_all items w)) (fst (hd items)) = Some (snd (hd (fst (place_all items w))))"
proof -
  assume "items \<noteq> []"
  then obtain it rest where "items = it # rest" by (cases items) auto
  then have "map fst (fst (place_all items w)) = fst it # map fst rest" by (simp only: place_all_ids) simp
  with \<open>items = it # rest\<close> show ?thesis by (cases "fst (place_all items w)") (auto simp del: place_all.simps)
qed

lemma new_dirs_back:
  assumes w: "machine_ok w" "proper (w_acting w) 0 p"
    and q: "starts_with p q" "q \<noteq> []" "is_dir w (butlast q)" "file_at w q = None"
  shows "\<exists>undo w'. do_create_dirs p mode owner q w = (Inr undo, w') \<and> goes_back w undo w'"
proof -
  let ?dirs = "map (\<lambda>n. take n p) [length q..<Suc (length p)]"
  let ?f = "\<lambda>dir. (Content_Directory, if dir = p then mode else mode_of 7 5 5, case owner of Some ow \<Rightarrow> ow | None \<Rightarrow> root_owner)"
  let ?items = "map (\<lambda>dir. (dir, ?f dir)) ?dirs"
  have len: "length q \<le> length p" using q(1) by (rule starts_with_length)
  have dirs: "r \<in> set ?dirs \<longleftrightarrow> starts_with p r \<and> starts_with r q" for r
  proof
    assume "r \<in> set ?dirs"
    with q(1) show "starts_with p r \<and> starts_with r q"
      by (auto simp: starts_with_take min_def)
  next
    assume r: "starts_with p r \<and> starts_with r q"
    then have "r = take (length r) p" "length q \<le> length r" "length r \<le> length p"
      using starts_with_length by (auto simp: starts_with_take)
    then show "r \<in> set ?dirs" by (auto simp del: upt_Suc intro!: image_eqI)
  qed
  have dist: "distinct ?dirs"
    by (auto simp: distinct_map inj_on_def simp del: upt_Suc dest: arg_cong [of _ _ length])
  have hd: "map_of (fst (place_all ?items w)) q = Some (snd (hd (fst (place_all ?items w))))"
  proof -
    have "?items \<noteq> []" using len by simp
    moreover have "fst (hd ?items) = q"
      using len q(1) by (subst upt_conv_Cons) (simp_all add: starts_with_take del: upt_Suc)
    ultimately show ?thesis using place_all_hd [of ?items w] by simp
  qed
  have keys: "fst ` set ?items = set ?dirs" by (simp add: image_image del: upt_Suc)
  have at: "map_of ?items r = (if starts_with p r \<and> starts_with r q then Some (?f r) else None)" for r
    using map_of_const [of ?f ?dirs r] by (simp only: dirs)
  have "goes_back w [RemoveCreatedTree q (snd (hd (fst (place_all ?items w))))] (snd (place_all ?items w))"
  proof (rule new_tree_back [OF w(1) q(2-4) _ _ _ _ _ hd])
    show "distinct (map fst ?items)" using dist by (simp add: comp_def del: upt_Suc)
    show "starts_with r q" if "r \<in> fst ` set ?items" for r using that dirs by (simp only: keys)
    show "q \<in> fst ` set ?items" using q(1) dirs by (simp only: keys) simp
    show "proper (w_acting w) (w_next w) r" if "r \<in> fst ` set ?items" for r
      using that dirs [of r] proper_prefix [OF proper_mono [OF w(2)]] by (simp only: keys)
    show "fills q (\<lambda>r. map_option (\<lambda>(c, mode, owner). new_entry c mode owner \<lparr>fid_dev = 0, fid_ino = 0, fid_born = None\<rparr>) (map_of ?items r))"
      unfolding fills_def at
    proof (intro allI impI)
      fix r e assume r: "starts_with r q" "r \<noteq> q" and "map_option (\<lambda>(c, mode, owner). new_entry c mode owner \<lparr>fid_dev = 0, fid_ino = 0, fid_born = None\<rparr>)
         (if starts_with p r \<and> starts_with r q then Some (?f r) else None) = Some e"
      then have "starts_with p r" by (simp split: if_splits)
      then have "starts_with p (butlast r)" by (metis append_butlast_last_id append_assoc append_Nil2 append_self_conv2 butlast.simps(1) starts_with_iff)
      with starts_with_proper [OF r] show "\<exists>d. map_option (\<lambda>(c, mode, owner). new_entry c mode owner \<lparr>fid_dev = 0, fid_ino = 0, fid_born = None\<rparr>)
         (if starts_with p (butlast r) \<and> starts_with (butlast r) q then Some (?f (butlast r)) else None) = Some d \<and> en_content d = Content_Directory"
        by (simp add: new_entry_def)
    qed
  qed
  then show ?thesis
    by (simp add: do_create_dirs_def ancestors_below [OF q(1)] case_prod_unfold Let_def comp_def del: upt_Suc)
qed

lemma goes_back_refl: "machine_ok w \<Longrightarrow> goes_back w [] w"
  by (auto simp: goes_back_def)

lemma create_dirs_back:
  assumes w: "machine_ok w" "proper (w_acting w) 0 p" and a: "apply_action (CreateDirs p mode owner) w = (Inr undo, w')"
  shows "goes_back w undo w'"
proof -
  from a obtain c where c: "created_below (world_ground w) p = Inr c"
    by (auto simp: apply_on_files cleared_def split: sum.splits)
  show ?thesis
  proof (cases c)
    case (Clear_Below q)
    with c created_below_Below [of "world_ground w" p q] have q: "q = climb (world_ground w) p" "spot_of w q = Spot_Missing" by auto
    from climb_prefix [of p "world_ground w"] q(1) have "starts_with p q" unfolding starts_with_iff by metis
    from new_dirs_back [where mode = mode and owner = owner, OF w this] q(2) obtain undo' w'' where
      "do_create_dirs p mode owner q w = (Inr undo', w'')" "goes_back w undo' w''"
      by (auto simp: spot_missing [OF machine_okD(2) [OF w(1)]])
    with a c Clear_Below show ?thesis by (auto simp: apply_on_files cleared_def)
  qed (use a c w(1) goes_back_refl in \<open>auto simp: apply_on_files cleared_def\<close>)
qed
text \<open>Mode and owner.\<close>

lemma same_place_tree:
  assumes "tree_shaped w" "file_at w p = Some e" "en_content e' = en_content e"
  shows "tree_shaped (add_file p e' w)"
proof -
  have "is_dir (add_file p e' w) q = is_dir w q" for q
    using assms(2,3) by (auto simp: is_dir_def)
  with assms(1,2) show ?thesis by (auto simp: tree_shaped_def split: if_splits)
qed

lemma changed_entry_back:
  assumes w: "machine_ok w" and e: "file_at w p = Some e" "en_content e' = en_content e"
    and u: "apply_action u (add_file p e' w) = (Inr us, add_file p e (add_file p e' w))"
  shows "goes_back w [u] (add_file p e' w)"
proof -
  note ok = machine_okD [OF w]
  have "files_ok (add_file p e (add_file p e' w))" using ok(1) by simp
  moreover have "file_at (add_file p e (add_file p e' w)) = file_at w" using e(1) by (simp add: fun_eq_iff)
  ultimately have "alike (add_file p e (add_file p e' w)) w"
    using files_ext [OF _ ok(1)] by (simp add: alike_def all_pending_def)
  moreover from u have "run_all apply_action [u] (add_file p e' w) = (Inr [us], add_file p e (add_file p e' w))"
    by (simp add: run_all.simps)
  ultimately show ?thesis
    using same_place_tree [OF ok(2) e] ok(1) e(1)
    by (intro goes_back_same_frame [OF w]) (auto simp: known_paths_def split: if_splits)
qed

lemma set_mode_back:
  assumes w: "machine_ok w" and a: "apply_action (SetMode p mode expect) w = (Inr undo, w')"
  shows "goes_back w undo w'"
proof -
  note sp = spot_present [OF machine_okD(2) [OF w]]
  from a obtain nd where "node_at p (spot_of w p) = Inr nd" "nd_mode nd = expect"
    by (auto simp: apply_on_files cleared_def split: sum.splits if_splits)
  then obtain e where e: "p \<noteq> []" "file_at w p = Some e" "en_mode e = expect" by (auto simp: node_at_Inr sp)
  let ?e = "e\<lparr>en_mode := mode\<rparr>"
  have sh: "tree_shaped (add_file p ?e w)" by (rule same_place_tree [OF machine_okD(2) [OF w] e(2)]) simp
  have same: "?e\<lparr>en_mode := expect\<rparr> = e" using e(3) by simp
  have "spot_of (add_file p ?e w) p = Spot_Present (node_of ?e)" by (simp add: spot_present [OF sh] e(1))
  then have "apply_action (SetMode p expect mode) (add_file p ?e w) = (Inr [SetMode p mode expect], add_file p e (add_file p ?e w))"
    by (simp add: apply_on_files cleared_def node_at_def do_set_mode_def same)
  from changed_entry_back [OF w e(2) _ this] have "goes_back w [SetMode p expect mode] (add_file p ?e w)" by simp
  moreover have "spot_of w p = Spot_Present (node_of e)" by (simp add: sp e)
  with a e have "undo = [SetMode p expect mode]" "w' = add_file p ?e w"
    by (auto simp: apply_on_files cleared_def node_at_def do_set_mode_def)
  ultimately show ?thesis by simp
qed

lemma set_owner_back:
  assumes w: "machine_ok w" and a: "apply_action (SetOwner p owner expect) w = (Inr undo, w')"
  shows "goes_back w undo w'"
proof -
  note sp = spot_present [OF machine_okD(2) [OF w]]
  from a obtain nd where "node_at p (spot_of w p) = Inr nd" "nd_owner nd = expect"
    by (auto simp: apply_on_files cleared_def split: sum.splits if_splits)
  then obtain e where e: "p \<noteq> []" "file_at w p = Some e" "en_owner e = expect" by (auto simp: node_at_Inr sp)
  let ?e = "e\<lparr>en_owner := owner\<rparr>"
  have sh: "tree_shaped (add_file p ?e w)" by (rule same_place_tree [OF machine_okD(2) [OF w] e(2)]) simp
  have same: "?e\<lparr>en_owner := expect\<rparr> = e" using e(3) by simp
  have "spot_of (add_file p ?e w) p = Spot_Present (node_of ?e)" by (simp add: spot_present [OF sh] e(1))
  then have "apply_action (SetOwner p expect owner) (add_file p ?e w) = (Inr [SetOwner p owner expect], add_file p e (add_file p ?e w))"
    by (simp add: apply_on_files cleared_def node_at_def do_set_owner_def same)
  from changed_entry_back [OF w e(2) _ this] have "goes_back w [SetOwner p expect owner] (add_file p ?e w)" by simp
  moreover have "spot_of w p = Spot_Present (node_of e)" by (simp add: sp e)
  with a e have "undo = [SetOwner p expect owner]" "w' = add_file p ?e w"
    by (auto simp: apply_on_files cleared_def node_at_def do_set_owner_def)
  ultimately show ?thesis by simp
qed

lemma discard_back:
  assumes w: "machine_ok w" "p \<notin> set (all_pending w)" and a: "apply_action (Discard p expect) w = (Inr undo, w')"
  shows "goes_back w undo w'"
proof -
  note ok = machine_okD [OF w(1)]
  from a obtain nd where nd: "holding p expect (spot_of w p) = Inr nd"
    by (cases "holding p expect (spot_of w p)") (auto simp: apply_on_files cleared_def and_go_def)
  then have "file_at w p \<noteq> None" by (auto simp: holding_Inr spot_present [OF ok(2)])
  then have known: "p \<in> known_paths w" by (simp add: known_paths_def)
  from a nd have res: "undo = [Keep p]" "w' = pend p w" by (auto simp: apply_on_files cleared_def and_go_def)
  have "apply_action (Keep p) (pend p w) = (Inr [], unpend p (pend p w))" by (simp add: apply_on_files cleared_def)
  then have "run_all apply_action [Keep p] (pend p w) = (Inr [[]], unpend p (pend p w))" by (simp add: run_all.simps)
  moreover have "alike (unpend p (pend p w)) w"
    using unpend_pend [OF ok(5) w(2)] by (simp add: alike_def all_pending_unpend)
  moreover have fr: "frame (pend p w) = frame w" by simp
  have "machine_ok (pend p w)"
  proof (rule machine_okI [OF w(1)])
    show "q \<in> known_paths w \<or> proper (w_acting w) (w_next (pend p w)) q" if "q \<in> known_paths (pend p w)" for q
      using that known set_pend [OF ok(5), of p] frameD(5) [OF fr] by (auto simp: known_paths_def)
  qed (use ok frameD [OF fr] in \<open>simp_all add: tree_shaped_iff\<close>)
  ultimately show ?thesis using frameD [OF fr] by (auto simp: goes_back_def res)
qed
text \<open>
  Moving a tree to a sibling: the state \<open>w'\<close> has the tree of \<open>p\<close> at \<open>r\<close>, \<open>new\<close> at \<open>p\<close>, one more path
  to reclaim, and perhaps the profile of \<open>p\<close> aside.
\<close>

definition set_aside_as :: "path \<Rightarrow> path \<Rightarrow> (path \<Rightarrow> file_entry option) \<Rightarrow> world \<Rightarrow> world \<Rightarrow> bool" where
  "set_aside_as p r new w w' \<longleftrightarrow>
     files_ok w' \<and> file_at w' = patch r (relocated p r (file_at w)) (patch p new (file_at w)) \<and>
     (frame w' = frame w \<or> frame w' = frame (aside_profile p r w)) \<and>
     bt_ok (w_pending w') \<and> all_pending w' = all_pending (pend r w) \<and> w_next w < w_next w'"

definition new_sibling :: "path \<Rightarrow> path \<Rightarrow> world \<Rightarrow> bool" where
  "new_sibling p r w \<longleftrightarrow>
     butlast r = butlast p \<and> r \<noteq> [] \<and> apart p r \<and> (\<forall>q. starts_with q r \<longrightarrow> q \<notin> known_paths w)"

lemma aside_profile_fields:
  "bt_ok (w_profiles w) \<Longrightarrow> bt_ok (w_profiles (aside_profile p r w))"
  "bt_ok (w_aside w) \<Longrightarrow> bt_ok (w_aside (aside_profile p r w))"
  "fst ` set (w_aside (aside_profile p r w)) \<subseteq> insert r (fst ` set (w_aside w))"
  "w_groups (aside_profile p r w) = w_groups w" "w_users (aside_profile p r w) = w_users w"
  by (auto simp: aside_profile_def fst_set_bt_insert split: option.split)

lemma aside_profile_frame:
  assumes w: "machine_ok w" and r: "r \<notin> known_paths w" and f: "frame w' = frame w \<or> frame w' = frame (aside_profile p r w)"
  shows "bt_ok (w_profiles w')" "bt_ok (w_aside w')" "fst ` set (w_aside w') \<subseteq> insert r (fst ` set (w_aside w))"
    "w_groups w' = w_groups w" "w_users w' = w_users w" "w_acting w' = w_acting w" "bring_back r (frame w') = frame w"
proof -
  note ok = machine_okD [OF w]
  have none: "r \<notin> fst ` set (w_aside w)" using r by (simp add: known_paths_def)
  then have "map_of (w_aside w) r = None" by (simp add: map_of_eq_None_iff)
  then have "bring_back r (frame w) = frame w" by (simp add: bring_back_def)
  with f aside_profile_back [OF ok(3,4) none] show "bring_back r (frame w') = frame w" by metis
  obtain x where x: "frame w' = frame x" and b: "bt_ok (w_profiles x)" "bt_ok (w_aside x)"
    "fst ` set (w_aside x) \<subseteq> insert r (fst ` set (w_aside w))" "w_groups x = w_groups w" "w_users x = w_users w"
    "w_acting x = w_acting w"
    using f
  proof
    assume "frame w' = frame w"
    with ok(3,4) show thesis by (intro that [of w]) auto
  next
    assume "frame w' = frame (aside_profile p r w)"
    then show thesis by (rule that) (simp_all add: aside_profile_fields ok(3,4))
  qed
  note x = frameD [OF x]
  show "bt_ok (w_profiles w')" "bt_ok (w_aside w')" "fst ` set (w_aside w') \<subseteq> insert r (fst ` set (w_aside w))"
    "w_groups w' = w_groups w" "w_users w' = w_users w" "w_acting w' = w_acting w"
    using b by (simp_all only: x)
qed

lemma set_aside_asD:
  assumes "set_aside_as p r new w w'"
  shows "files_ok w'" "file_at w' = patch r (relocated p r (file_at w)) (patch p new (file_at w))"
    "frame w' = frame w \<or> frame w' = frame (aside_profile p r w)" "bt_ok (w_pending w')"
    "all_pending w' = all_pending (pend r w)" "w_next w < w_next w'"
  using assms by (simp_all add: set_aside_as_def)

lemma new_siblingD:
  assumes "new_sibling p r w"
  shows "butlast r = butlast p" "r \<noteq> []" "apart p r" "starts_with q r \<Longrightarrow> q \<notin> known_paths w" "r \<notin> known_paths w"
  using assms starts_with_refl [of r] unfolding new_sibling_def by blast+

lemma set_aside_paths:
  assumes w: "machine_ok w" and r: "proper (w_acting w) (w_next w') r" and s: "set_aside_as p r new w w'"
    and n: "\<And>q. starts_with q p \<Longrightarrow> new q \<noteq> None \<Longrightarrow> q \<in> known_paths w" and q: "file_at w' q \<noteq> None"
  shows "q \<in> known_paths w \<or> proper (w_acting w) (w_next w') q"
proof (cases "starts_with q r")
  case True
  with q have "file_at w (original p r q) \<noteq> None" by (simp add: set_aside_asD(2) [OF s] patch_def relocated_def)
  then have "proper (w_acting w) (w_next w) (original p r q)" using machine_okD(7) [OF w] by blast
  moreover from True obtain t where t: "q = r @ t" by (auto simp: starts_with_iff)
  ultimately have "proper (w_acting w) (w_next w) t" by (simp add: original_def)
  from proper_mono [OF this] set_aside_asD(6) [OF s] have "proper (w_acting w) (w_next w') t" by simp
  with r t show ?thesis by simp
next
  case False
  with q n [of q] show ?thesis
    by (cases "starts_with q p") (auto simp: set_aside_asD(2) [OF s] patch_def known_paths_def)
qed

lemma set_aside_ok:
  assumes w: "machine_ok w" "p \<noteq> []" "file_at w p \<noteq> None" and r: "new_sibling p r w" "proper (w_acting w) (w_next w') r"
    and s: "set_aside_as p r new w w'"
    and n: "fills p new" "\<And>q. starts_with q p \<Longrightarrow> new q \<noteq> None \<Longrightarrow> q \<in> known_paths w"
  shows "machine_ok w'"
proof (rule machine_okI [OF w(1) set_aside_asD(1) [OF s]])
  note ok = machine_okD [OF w(1)] and sib = new_siblingD [OF r(1)]
  note fr = aside_profile_frame [OF w(1) sib(5) set_aside_asD(3) [OF s]]
  show "tree_shaped w'"
    using shaped_moved [OF ok(2) [unfolded tree_shaped_iff] w(2,3) sib(2,1,3) n(1)]
    by (simp only: tree_shaped_iff set_aside_asD(2) [OF s])
  show "q \<in> known_paths w \<or> proper (w_acting w) (w_next w') q" if q: "q \<in> known_paths w'" for q
  proof (cases "file_at w' q = None")
    case True
    with q have "q \<in> fst ` set (w_aside w') \<or> q \<in> set (all_pending (pend r w))"
      by (simp add: known_paths_def set_aside_asD(5) [OF s])
    with fr(3) set_pend [OF ok(5), of r] have "q = r \<or> q \<in> known_paths w" by (auto simp: known_paths_def)
    with r(2) show ?thesis by blast
  qed (rule set_aside_paths [OF w(1) r(2) s n(2)])
  show "bt_ok (w_profiles w')" "bt_ok (w_aside w')" "w_acting w' = w_acting w" by (rule fr)+
  show "bt_ok (w_pending w')" by (rule set_aside_asD [OF s])
  show "w_next w \<le> w_next w'" using set_aside_asD(6) [OF s] by simp
qed

lemma set_aside_back:
  assumes w: "machine_ok w" "p \<noteq> []" "file_at w p \<noteq> None" and r: "new_sibling p r w" "proper (w_acting w) (w_next w') r"
    and s: "set_aside_as p r new w w'"
    and n: "fills p new" "\<And>q. starts_with q p \<Longrightarrow> new q \<noteq> None \<Longrightarrow> q \<in> known_paths w"
    and e: "e = Expect_Absent \<and> new p = None \<or> (\<exists>en. new p = Some en \<and> e = Expect_Present (en_id en))"
  shows "goes_back w [Restore p r e] w'"
proof -
  note ok = machine_okD [OF w(1)] and sib = new_siblingD [OF r(1)]
  note fr = aside_profile_frame [OF w(1) sib(5) set_aside_asD(3) [OF s]]
  have ok': "machine_ok w'" by (rule set_aside_ok [OF w r s n])
  from w(3) obtain e0 where e0: "file_at w p = Some e0" by blast
  have p: "filter (\<lambda>q. q \<noteq> r) (all_pending w') = all_pending w"
    using unpend_pend [OF ok(5), of r] sib(5) by (simp add: known_paths_def set_aside_asD(5) [OF s])
  have "\<exists>w''. apply_action (Restore p r e) w' = (Inr [], w'') \<and> alike w'' w"
    by (rule restore_undoes [where new = new, OF w(1,2) e0 sib(2,1,3) sib(4) machine_okD(1,2) [OF ok'] set_aside_asD(2) [OF s] fr(7) p e])
  then obtain w'' where "apply_action (Restore p r e) w' = (Inr [], w'')" "alike w'' w" by blast
  then have "run_all apply_action [Restore p r e] w' = (Inr [[]], w'') \<and> alike w'' w" by (simp add: run_all.simps)
  with ok' fr(4-6) show ?thesis unfolding goes_back_def by blast
qed

lemma new_sibling_of:
  assumes "machine_ok w" "p \<noteq> []" "file_at w p \<noteq> None" "slash \<notin> set purpose"
  shows "new_sibling p (sibling_of p purpose w) w"
  using sibling_of_props [OF assms] by (auto simp: new_sibling_def)

lemma machine_ok_fresh: "machine_ok w \<Longrightarrow> machine_ok (snd (fresh w))"
proof -
  assume w: "machine_ok w"
  have f: "frame (snd (fresh w)) = frame w" "w_pending (snd (fresh w)) = w_pending w" by simp_all
  show ?thesis
    using machine_okD [OF w] frameD [OF f(1)] all_pending_cong [OF f(2)]
    by (intro machine_okI [OF w]) (simp_all add: tree_shaped_iff known_paths_def)
qed

lemma known_paths_fresh [simp]: "known_paths (snd (fresh w)) = known_paths w"
  by (simp add: known_paths_def fresh_def file_at_def all_pending_def)

lemma aside_profile_fresh:
  "aside_profile p r (snd (fresh w)) = snd (fresh (aside_profile p r w))"
  by (simp add: aside_profile_def fresh_def file_at_def split: option.split)

lemma all_pending_pend: "w_pending a = w_pending b \<Longrightarrow> w_acting a = w_acting b \<Longrightarrow> all_pending (pend r a) = all_pending (pend r b)"
  by (simp add: all_pending_def pend_def world_adopt_def)

lemma holding_action:
  assumes "machine_ok w" "and_go (holding p expect (spot_of w p)) = Inr c"
  shows "p \<noteq> []" "file_at w p \<noteq> None" "c = Clear_Go"
  using assms by (auto simp: holding_Inr spot_present [OF machine_okD(2)])

lemma pend_moved:
  assumes w: "machine_ok w" "p \<noteq> []" "file_at w p \<noteq> None" "slash \<notin> set purpose"
    and x: "file_at x = file_at w" "files_ok x" "frame x = frame w \<or> frame x = frame (aside_profile p (sibling_of p purpose w) w)"
      "w_pending x = w_pending w" "w_acting x = w_acting w" "w_next w < w_next x"
  shows "set_aside_as p (sibling_of p purpose w) (\<lambda>_. None) w (pend (sibling_of p purpose w) (move_tree p (sibling_of p purpose w) x))"
proof -
  let ?r = "sibling_of p purpose w"
  note props = sibling_of_props [OF w]
  have "file_at x q = None" if "starts_with q ?r" for q using props(5) [OF that] by (simp add: x(1) known_paths_def)
  from file_at_moved [OF x(2) props(3) this]
  have "file_at (move_tree p ?r x) = patch ?r (relocated p ?r (file_at w)) (patch p (\<lambda>_. None) (file_at w))" by (simp only: x(1))
  moreover have "w_acting (move_tree p ?r x) = w_acting w" using frame_acting [of "move_tree p ?r x" x] x(5) by simp
  then have "all_pending (pend ?r (move_tree p ?r x)) = all_pending (pend ?r w)" using x(4) by (intro all_pending_pend) simp_all
  moreover have "bt_ok (w_pending (pend ?r (move_tree p ?r x)))" using x(4) machine_okD(5) [OF w(1)] by simp
  ultimately show ?thesis using x by (simp add: set_aside_as_def)
qed

lemma set_aside_action:
  assumes w: "machine_ok w" and a: "apply_action (SetAside p expect) w = (Inr undo, w')"
  shows "p \<noteq> []" "file_at w p \<noteq> None" "undo = [Restore p (sibling_of p ''aside'' w) Expect_Absent]"
    "new_sibling p (sibling_of p ''aside'' w) w" "proper (w_acting w) (w_next w') (sibling_of p ''aside'' w)"
    "set_aside_as p (sibling_of p ''aside'' w) (\<lambda>_. None) w w'" "w_pending w' = w_pending (pend (sibling_of p ''aside'' w) w)"
    "w_acting w' = w_acting w"
proof -
  note ok = machine_okD [OF w]
  from a obtain c where "and_go (holding p expect (spot_of w p)) = Inr c"
    by (cases "and_go (holding p expect (spot_of w p))") (auto simp: apply_on_files cleared_def simp del: and_go_Inr)
  note c = this holding_action [OF w this]
  let ?r = "sibling_of p ''aside'' w"
  let ?w1 = "aside_profile p ?r (snd (fresh w))"
  have sl: "slash \<notin> set ''aside''" by (simp add: slash_def)
  have "cleared (SetAside p expect) w = Inr Clear_Go" using c(1,4) by (simp add: cleared_def del: and_go_Inr)
  then have "apply_action (SetAside p expect) w = (Inr [Restore p ?r Expect_Absent], pend ?r (move_tree p ?r ?w1))"
    by (simp add: apply_on_files do_set_aside_def sibling_split)
  with a have w': "w' = pend ?r (move_tree p ?r ?w1)" and "undo = [Restore p ?r Expect_Absent]" by simp_all
  then show "p \<noteq> []" "file_at w p \<noteq> None" "undo = [Restore p ?r Expect_Absent]" "new_sibling p ?r w"
    using c(2,3) new_sibling_of [OF w c(2,3) sl] by simp_all
  have act: "w_acting (snd (fresh (aside_profile p ?r w))) = w_acting w" by (simp add: fresh_def)
  then show "set_aside_as p ?r (\<lambda>_. None) w w'"
    unfolding w' using ok(1) by (intro pend_moved [OF w c(2,3) sl]) (simp_all add: aside_profile_fresh)
  show "proper (w_acting w) (w_next w') ?r"
    using sibling_of_props(4) [OF w c(2,3) sl] by (simp add: w')
  have x: "w_acting (move_tree p ?r ?w1) = w_acting w" "w_pending (move_tree p ?r ?w1) = w_pending w"
    using frame_acting [OF move_tree_frame(1)] act by (simp_all add: aside_profile_fresh)
  then show "w_pending w' = w_pending (pend ?r w)" by (simp add: w' pend_def world_adopt_def)
  from x show "w_acting w' = w_acting w" by (simp add: w' pend_def world_adopt_def)
qed

lemma set_aside_action_back:
  assumes w: "machine_ok w" and a: "apply_action (SetAside p expect) w = (Inr undo, w')"
  shows "goes_back w undo w'"
  unfolding set_aside_action(3) [OF assms]
  by (rule set_aside_back [OF w set_aside_action(1,2,4,5,6) [OF assms]]) simp_all

text \<open>Writing a file.\<close>

lemma place_fresh: "place p c mode owner w = (fst (fresh w), add_file p (new_entry c mode owner (fst (fresh w))) (snd (fresh w)))"
  by (simp add: place_def case_prod_unfold Let_def)

lemma put_over:
  assumes w: "machine_ok w" "p \<noteq> []" "file_at w p \<noteq> None"
  shows "\<exists>undo w'. put_file p contents mode owner (Expect_Present old) w = (Inr undo, w') \<and> goes_back w undo w' \<or>
    (\<exists>f. put_file p contents mode owner (Expect_Present old) w = (Inl f, w))"
proof (cases "and_go (expecting p (Expect_Present old) (spot_of w p))")
  case (Inl f)
  then show ?thesis by (auto simp: put_file_def)
next
  case (Inr c)
  let ?w1 = "snd (fresh w)" and ?e = "new_entry (Content_File contents) mode owner (fst (fresh w))"
  let ?r = "sibling_of p ''backup'' ?w1"
  let ?w3 = "pend ?r (move_tree p ?r (snd (fresh ?w1)))"
  let ?new = "\<lambda>q. if q = p then Some ?e else None"
  have w1: "machine_ok ?w1" "file_at ?w1 p \<noteq> None" using machine_ok_fresh [OF w(1)] w(3) by simp_all
  have sl: "slash \<notin> set ''backup''" by (simp add: slash_def)
  note props = sibling_of_props [OF w1(1) w(2) w1(2) sl]
  have act: "w_acting ?w1 = w_acting w" "w_acting (snd (fresh ?w1)) = w_acting w" by (simp_all add: fresh_def)
  have put: "put_file p contents mode owner (Expect_Present old) w = (Inr [Restore p ?r (Expect_Present (en_id ?e))], add_file p ?e ?w3)"
    using Inr by (simp add: put_file_def case_prod_unfold Let_def sibling_split new_entry_def del: and_go_Inr)
  have sib: "new_sibling p ?r w" using new_sibling_of [OF w1(1) w(2) w1(2) sl] by (simp add: new_sibling_def)
  have "set_aside_as p ?r (\<lambda>_. None) ?w1 ?w3"
    using machine_okD(1) [OF w1(1)] act by (intro pend_moved [OF w1(1) w(2) w1(2) sl]) simp_all
  note s = set_aside_asD [OF this]
  have "file_at (add_file p ?e ?w3) = patch ?r (relocated p ?r (file_at w)) (patch p ?new (file_at w))"
    using props(3) by (intro ext) (simp add: s(2) patch_def apart_def del: pend_simps(2))
  moreover have "frame ?w3 = frame w" by simp
  moreover have "all_pending ?w3 = all_pending (pend ?r w)" unfolding s(5) by (rule all_pending_pend) (simp_all add: act)
  ultimately have "set_aside_as p ?r ?new w (add_file p ?e ?w3)"
    using s(1,4) by (simp add: set_aside_as_def all_pending_cong [OF pending_add])
  moreover have "proper (w_acting w) (w_next (add_file p ?e ?w3)) ?r" using props(4) by (simp add: act)
  ultimately have "goes_back w [Restore p ?r (Expect_Present (en_id ?e))] (add_file p ?e ?w3)"
    using w(3) by (intro set_aside_back [OF w sib]) (auto simp: known_paths_def split: if_splits)
  with put show ?thesis by blast
qed

lemma put_file_back:
  assumes w: "machine_ok w" "proper (w_acting w) 0 p" and a: "put_file p contents mode owner e w = (Inr undo, w')"
  shows "goes_back w undo w'"
proof -
  note ok = machine_okD [OF w(1)]
  from a obtain c where c: "and_go (expecting p e (spot_of w p)) = Inr c"
    by (cases "and_go (expecting p e (spot_of w p))") (auto simp: put_file_def simp del: and_go_Inr)
  show ?thesis
  proof (cases e)
    case Expect_Absent
    with c have "spot_of w p = Spot_Missing" by (simp add: expecting_Inr)
    with place_one [OF w(1) _ _ _ w(2), of "Content_File contents" mode owner]
    have "goes_back w [RemoveCreated p (fst (fresh w))] (add_file p (new_entry (Content_File contents) mode owner (fst (fresh w))) (snd (fresh w)))"
      by (simp add: spot_missing [OF ok(2)] place_fresh)
    with a c Expect_Absent show ?thesis by (auto simp: put_file_def case_prod_unfold Let_def simp del: and_go_Inr)
  next
    case (Expect_Present old)
    with c have "p \<noteq> []" "file_at w p \<noteq> None" by (auto simp: expecting_Inr spot_present [OF ok(2)])
    from put_over [OF w(1) this, of contents mode owner old] a Expect_Present show ?thesis by auto
  qed
qed

lemma put_action_back:
  assumes w: "machine_ok w" "proper (w_acting w) 0 p" and a: "apply_action (PutFile p contents mode owner e) w = (Inr undo, w')"
  shows "goes_back w undo w'"
  using a by (intro put_file_back [OF w]) (auto simp: apply_on_files cleared_def)

text \<open>The entries of a copy.\<close>

lemma map_of_moved:
  assumes "\<forall>old \<in> set ps. starts_with old from"
  shows "map_of (List.map_filter (\<lambda>old. map_option (\<lambda>e. (moved from to old, g old e)) (h old)) ps) q =
    (if starts_with q to \<and> original from to q \<in> set ps then map_option (g (original from to q)) (h (original from to q)) else None)"
  using assms
proof (induction ps)
  case (Cons p ps)
  then have "moved from to p = q \<longleftrightarrow> starts_with q to \<and> original from to q = p" by auto
  with Cons show ?case by (auto simp: List.map_filter_simps split: option.split)
qed (simp add: List.map_filter_simps)

lemma fst_moved:
  "map fst (List.map_filter (\<lambda>old. map_option (\<lambda>e. (moved from to old, g old e)) (h old)) ps) =
   map (moved from to) (filter (\<lambda>old. h old \<noteq> None) ps)"
  by (induction ps) (auto simp: List.map_filter_simps split: option.split)

definition copied :: "path \<Rightarrow> owner \<Rightarrow> u32 \<Rightarrow> path \<Rightarrow> file_entry \<Rightarrow> content \<times> u32 \<times> owner" where
  "copied from owner mode old e = (en_content e, if old = from then mode else no_setid (en_mode e), owner)"

lemma tree_items_copied:
  "tree_items from to owner mode w =
     List.map_filter (\<lambda>old. map_option (\<lambda>e. (moved from to old, copied from owner mode old e)) (file_at w old)) (paths_below from w)"
  by (simp add: tree_items_def copied_def)

lemma map_of_tree_items:
  assumes "files_ok w"
  shows "map_of (tree_items from to owner mode w) q =
    (if starts_with q to then map_option (copied from owner mode (original from to q)) (file_at w (original from to q)) else None)"
  using map_of_moved [of "paths_below from w" "from" to "copied from owner mode" "file_at w" q]
  by (auto simp: tree_items_copied set_paths_below [OF assms])

lemma tree_items_keys:
  assumes "files_ok w"
  shows "distinct (map fst (tree_items from to owner mode w))"
    "q \<in> fst ` set (tree_items from to owner mode w) \<longleftrightarrow> starts_with q to \<and> file_at w (original from to q) \<noteq> None"
proof -
  have "inj_on (moved from to) (set (paths_below from w))"
    by (auto simp: inj_on_def set_paths_below [OF assms] moved_def starts_with_iff)
  then show "distinct (map fst (tree_items from to owner mode w))"
    by (auto simp: tree_items_copied fst_moved distinct_map distinct_paths_below [OF assms] intro: inj_on_subset)
  show "q \<in> fst ` set (tree_items from to owner mode w) \<longleftrightarrow> starts_with q to \<and> file_at w (original from to q) \<noteq> None"
    using map_of_tree_items [OF assms, of "from" to owner mode q] map_of_eq_None_iff [of "tree_items from to owner mode w" q]
    by (auto split: if_splits)
qed

text \<open>The two calls of \<open>expect\<close> in \<open>apply\<close> never fail: the top of the tree is among what was placed.\<close>

lemma copied_top:
  assumes "files_ok w" "file_at w from \<noteq> None"
  shows "\<exists>fid. map_of (fst (place_all (tree_items from to owner mode w) x)) to = Some fid"
proof -
  have "to \<in> fst ` set (tree_items from to owner mode w)" using assms by (simp add: tree_items_keys original_def)
  then have "to \<in> set (map fst (fst (place_all (tree_items from to owner mode w) x)))" by (simp only: place_all_ids set_map)
  then show ?thesis by (metis list.set_map map_of_eq_None_iff option.exhaust)
qed

lemma fills_copied:
  assumes "shaped f" "from \<noteq> []"
  shows "fills to (\<lambda>q. map_option (\<lambda>(c, mode, owner). new_entry c mode owner (fid q))
    (if starts_with q to then map_option (copied from owner mode (original from to q)) (f (original from to q)) else None))"
  unfolding fills_def
proof (intro allI impI)
  fix q e assume q: "starts_with q to" "q \<noteq> to" and
    "map_option (\<lambda>(c, mode, owner). new_entry c mode owner (fid q))
      (if starts_with q to then map_option (copied from owner mode (original from to q)) (f (original from to q)) else None) = Some e"
  then obtain e0 where "relocated from to f q = Some e0" by (auto simp: relocated_def)
  with fills_relocated [OF assms, of to] q obtain d where
    "f (original from to (butlast q)) = Some d" "en_content d = Content_Directory" by (auto simp: fills_def relocated_def)
  with starts_with_proper [OF q] show "\<exists>d. map_option (\<lambda>(c, mode, owner). new_entry c mode owner (fid (butlast q)))
      (if starts_with (butlast q) to then map_option (copied from owner mode (original from to (butlast q)))
        (f (original from to (butlast q))) else None) = Some d \<and> en_content d = Content_Directory"
    by (simp add: copied_def new_entry_def)
qed

lemma copy_tree_back:
  assumes w: "machine_ok w" "proper (w_acting w) 0 to" and a: "apply_action (CopyTree from to owner mode) w = (Inr undo, w')"
  shows "goes_back w undo w'"
proof -
  note ok = machine_okD [OF w(1)]
  let ?items = "tree_items from to owner mode w"
  from a have c: "\<exists>nd. spot_of w from = Spot_Present nd" "spot_of w to = Spot_Missing"
    by (auto simp: apply_on_files cleared_def split: sum.splits)
  then have src: "from \<noteq> []" "file_at w from \<noteq> None" and to: "to \<noteq> []" "is_dir w (butlast to)" "file_at w to = None"
    by (auto simp: spot_present [OF ok(2)] spot_missing [OF ok(2)])
  obtain fid where fid: "map_of (fst (place_all ?items w)) to = Some fid"
    using copied_top [OF ok(1) src(2)] by blast
  from a fid have "undo = [RemoveCreatedTree to fid]" "w' = snd (place_all ?items w)"
    by (auto simp: apply_on_files cleared_def do_copy_tree_def case_prod_unfold Let_def split: sum.splits if_splits)
  moreover have "goes_back w [RemoveCreatedTree to fid] (snd (place_all ?items w))"
  proof (rule new_tree_back [OF w(1) to tree_items_keys(1) [OF ok(1)] _ _ _ _ fid])
    show "starts_with q to" if "q \<in> fst ` set ?items" for q using that by (simp add: tree_items_keys [OF ok(1)])
    show "to \<in> fst ` set ?items" using src(2) by (simp add: tree_items_keys [OF ok(1)] original_def)
    show "fills to (\<lambda>q. map_option (\<lambda>(c, mode, owner). new_entry c mode owner \<lparr>fid_dev = 0, fid_ino = 0, fid_born = None\<rparr>)
        (map_of ?items q))"
      unfolding map_of_tree_items [OF ok(1)] by (rule fills_copied [OF ok(2) [unfolded tree_shaped_iff] src(1)])
    show "proper (w_acting w) (w_next w) q" if "q \<in> fst ` set ?items" for q
    proof -
      from that have q: "starts_with q to" "file_at w (original from to q) \<noteq> None" by (simp_all add: tree_items_keys [OF ok(1)])
      then obtain t where t: "q = to @ t" by (auto simp: starts_with_iff)
      from q(2) ok(7) have "proper (w_acting w) (w_next w) (original from to q)" by blast
      with proper_mono [OF w(2), of "w_next w"] show ?thesis by (simp add: t original_def)
    qed
  qed
  ultimately show ?thesis by simp
qed
text \<open>A tree is made again with another owner, and the old one is kept aside.\<close>

lemma reclaim_tree_back:
  assumes w: "machine_ok w" and a: "apply_action (ReclaimTree p expect owner mode) w = (Inr undo, w')"
  shows "goes_back w undo w'"
proof -
  note ok = machine_okD [OF w]
  let ?r = "sibling_of p ''aside'' w" and ?w1 = "snd (fresh w)"
  let ?items = "tree_items p p owner mode ?w1"
  let ?x = "move_tree p ?r ?w1"
  let ?w2 = "snd (place_all ?items ?x)"
  let ?new = "\<lambda>q. map_option (\<lambda>(c, mode, owner). new_entry c mode owner (the (map_of (fst (place_all ?items ?x)) q)))
    (if starts_with q p then map_option (copied p owner mode (original p p q)) (file_at w (original p p q)) else None)"
  have sl: "slash \<notin> set ''aside''" by (simp add: slash_def)
  from a obtain c where c: "and_go (holding p expect (spot_of w p)) = Inr c"
    by (auto simp: apply_on_files cleared_def split: sum.splits)
  note p = holding_action(1,2) [OF w c]
  note sib = new_sibling_of [OF w p sl] and props = sibling_of_props [OF w p sl]
  have ok1: "files_ok ?w1" using ok(1) by simp
  have same: "original p p q = q" if "starts_with q p" for q using that by (auto simp: original_def starts_with_iff)
  obtain fid where fid: "map_of (fst (place_all ?items ?x)) p = Some fid"
    using copied_top [OF ok1] p(2) by (metis fresh_simps(4))
  from a fid c have res: "undo = [RemoveCreatedTree p fid, Restore p ?r Expect_Absent]" "w' = pend ?r ?w2"
    by (auto simp: apply_on_files cleared_def do_reclaim_tree_def case_prod_unfold Let_def sibling_split split: sum.splits)
  have act: "w_acting ?w2 = w_acting w" by (rule frame_acting) simp
  have none: "file_at ?w1 q = None" if "starts_with q ?r" for q using props(5) [OF that] by (simp add: known_paths_def)
  have x: "file_at ?x = patch ?r (relocated p ?r (file_at w)) (patch p (\<lambda>_. None) (file_at w))"
    using file_at_moved [OF ok1 props(3) none] by simp
  have at: "file_at (pend ?r ?w2) = patch ?r (relocated p ?r (file_at w)) (patch p ?new (file_at w))"
  proof
    fix q
    have "starts_with q ?r \<Longrightarrow> \<not> starts_with q p" using apart_disjoint [OF props(3)] by blast
    then show "file_at (pend ?r ?w2) q = patch ?r (relocated p ?r (file_at w)) (patch p ?new (file_at w)) q"
      by (auto simp: file_at_place_all [OF tree_items_keys(1) [OF ok1]] map_of_tree_items [OF ok1] x patch_def
        split: option.split prod.split)
  qed
  have s: "set_aside_as p ?r ?new w (pend ?r ?w2)"
    using ok(1,5) at all_pending_pend [of ?w2 w ?r] act by (simp add: set_aside_as_def)
  have pr: "proper (w_acting w) (w_next (pend ?r ?w2)) ?r" using proper_mono [OF props(4)] by simp
  have ok': "machine_ok (pend ?r ?w2)"
    by (rule set_aside_ok [OF w p sib pr s fills_copied [OF ok(2) [unfolded tree_shaped_iff] p(1)]])
      (auto simp: same known_paths_def)
  note okD = machine_okD [OF ok']
  from p(2) obtain e where e: "?new p = Some e" "en_id e = fid"
    by (fastforce simp: original_def fid new_entry_def copied_def)
  then have "file_at (pend ?r ?w2) p = Some e" using props(3) unfolding at by (simp add: patch_def apart_def)
  from remove_created_tree [OF okD(1,2) p(1) this]
  have one: "apply_action (RemoveCreatedTree p fid) (pend ?r ?w2) = (Inr [], remove_tree p (pend ?r ?w2))" by (simp add: e(2))
  have "file_at (remove_tree p (pend ?r ?w2)) = patch ?r (relocated p ?r (file_at w)) (patch p (\<lambda>_. None) (file_at w))"
  proof
    fix q
    have "starts_with q ?r \<Longrightarrow> \<not> starts_with q p" using apart_disjoint [OF props(3)] by blast
    then show "file_at (remove_tree p (pend ?r ?w2)) q = patch ?r (relocated p ?r (file_at w)) (patch p (\<lambda>_. None) (file_at w)) q"
      unfolding file_at_remove_tree [OF okD(1)] at by (auto simp: patch_def)
  qed
  with set_aside_asD [OF s] okD(1) have s2: "set_aside_as p ?r (\<lambda>_. None) w (remove_tree p (pend ?r ?w2))"
    by (simp add: set_aside_as_def all_pending_cong [OF remove_tree_frame(2)])
  have "goes_back w [Restore p ?r Expect_Absent] (remove_tree p (pend ?r ?w2))"
    by (rule set_aside_back [OF w p sib _ s2]) (use pr in simp_all)
  then obtain us w'' where two: "run_all apply_action [Restore p ?r Expect_Absent] (remove_tree p (pend ?r ?w2)) = (Inr us, w'')"
    "alike w'' w" by (auto simp: goes_back_def)
  have "run_all apply_action undo w' = (Inr ([] # us), w'')"
    unfolding res by (subst run_all_Cons) (use one two(1) in blast)
  moreover have "w_groups w' = w_groups w" "w_users w' = w_users w" "w_acting w' = w_acting w"
    using aside_profile_frame(4-6) [OF w new_siblingD(5) [OF sib] set_aside_asD(3) [OF s]] by (simp_all add: res)
  ultimately show ?thesis using ok' two(2) unfolding goes_back_def by (auto simp: res)
qed

lemma file_action_back:
  assumes "machine_ok w" "file_fits a w" "apply_action a w = (Inr undo, w')"
  shows "goes_back w undo w'"
  using assms
  by (cases a) (auto intro: create_dir_back create_dirs_back put_action_back set_mode_back set_owner_back
    set_aside_action_back discard_back reclaim_tree_back copy_tree_back)

end
