(* ===== verification/Runner_Debt.thy ===== *)
theory Runner_Debt
  imports Runner_Properties World_Undo
begin

text \<open>
  What a runner that is not independent owes: the undo actions that are still to be performed, if
  the run fails now. Every round keeps the account: an action that was done adds its undo actions
  in front, an undo action that is called is taken from the front, and only a commit clears it.
\<close>

section \<open>The account\<close>

definition owing :: "step_spec list \<Rightarrow> runner \<Rightarrow> action list" where
  "owing specs r =
     (case r_phase r of
        Opening \<Rightarrow> rollback_plan specs r
      | Checking _ _ \<Rightarrow> rollback_plan specs r
      | Executing _ _ _ _ \<Rightarrow> rollback_plan specs r
      | RollingBack _ _ _ \<Rightarrow> pending r
      | _ \<Rightarrow> [])"

definition gained :: "input option \<Rightarrow> runner \<Rightarrow> action list" where
  "gained inp r =
     (case r_phase r of
        Executing _ _ _ awaiting \<Rightarrow>
          if awaiting then (case inp of Some (Input_Done (Inr undo)) \<Rightarrow> undo | _ \<Rightarrow> []) else []
      | _ \<Rightarrow> [])"

definition paid :: "next_call option \<Rightarrow> runner \<Rightarrow> action list" where
  "paid nx r =
     (case r_phase r of
        RollingBack _ _ _ \<Rightarrow> (case nx of Some (Next_Perform a) \<Rightarrow> [a] | _ \<Rightarrow> [])
      | _ \<Rightarrow> [])"

definition committing :: "runner \<Rightarrow> bool" where
  "committing r = (case r_phase r of Committing_Phase _ _ \<Rightarrow> True | _ \<Rightarrow> False)"

definition awaiting_input :: "runner \<Rightarrow> bool" where
  "awaiting_input r =
     (case r_phase r of
        Checking _ asked \<Rightarrow> asked
      | Executing _ _ _ awaiting \<Rightarrow> awaiting
      | RollingBack _ current awaiting \<Rightarrow> current \<noteq> None \<and> awaiting
      | Committing_Phase awaiting _ \<Rightarrow> awaiting
      | _ \<Rightarrow> False)"

text \<open>Behind the point of no return: rolling back, committing, or closing.\<close>

definition past :: "runner \<Rightarrow> bool" where
  "past r =
     (case r_phase r of Opening \<Rightarrow> False | Checking _ _ \<Rightarrow> False | Executing _ _ _ _ \<Rightarrow> False | _ \<Rightarrow> True)"

text \<open>What a run of planned actions, none of them in doubt, has in its books.\<close>

definition planned :: "(action \<Rightarrow> bool) \<Rightarrow> step_spec list \<Rightarrow> bool" where
  "planned good specs \<longleftrightarrow>
     (\<forall>spec \<in> set specs. \<forall>facts actions. sp_actions spec facts = Inr actions \<longrightarrow> (\<forall>a \<in> set actions. good a))"

definition syncless :: "action list list list \<Rightarrow> bool" where
  "syncless J \<longleftrightarrow> (\<forall>a \<in> set (concat (concat J)). \<not> is_sync a)"

definition empty_from :: "nat \<Rightarrow> 'a list list \<Rightarrow> bool" where
  "empty_from k J \<longleftrightarrow> (\<forall>j < length J. k \<le> j \<longrightarrow> J ! j = [])"

definition tidy :: "(action \<Rightarrow> bool) \<Rightarrow> step_spec list \<Rightarrow> runner \<Rightarrow> bool" where
  "tidy good specs r \<longleftrightarrow>
     syncless (r_journal r) \<and> r_doubts r = [] \<and> length (r_journal r) = length specs \<and>
     (case r_phase r of
        Opening \<Rightarrow> empty_from 0 (r_journal r)
      | Checking step _ \<Rightarrow> empty_from step (r_journal r)
      | Executing step _ queue _ \<Rightarrow> step < length specs \<and> empty_from (Suc step) (r_journal r) \<and> (\<forall>a \<in> set queue. good a)
      | RollingBack _ current _ \<Rightarrow>
          (case current of None \<Rightarrow> True | Some u \<Rightarrow> un_doubtful u = [] \<and> \<not> un_doubting u)
      | _ \<Rightarrow> True)"

section \<open>The plan, flattened\<close>

lemma concat_rev_concat: "concat (rev (concat J)) = concat (map (\<lambda>undos. concat (rev undos)) (rev J))"
  by (induction J) simp_all

lemma plan_flat:
  assumes "syncless (r_journal r)" "r_doubts r = []" "length (r_journal r) = length specs"
  shows "rollback_plan specs r = concat (rev (concat (r_journal r)))"
proof -
  let ?J = "r_journal r"
  have "undos_of r j = concat (rev (?J ! j))" if "j < length ?J" for j
    using assms(1,2) nth_mem [OF that] by (auto simp: undos_of_def syncless_def intro!: rollback_order_no_syncs)
  then have "map (undos_of r) (rev [0..<length specs]) = map (\<lambda>undos. concat (rev undos)) (rev (map ((!) ?J) [0..<length ?J]))"
    by (auto simp: assms(3) rev_map)
  then show ?thesis by (simp add: rollback_plan_def concat_rev_concat map_nth)
qed

lemma concat_gained:
  assumes "k < length J" "empty_from (Suc k) J"
  shows "concat (J[k := J ! k @ [x]]) = concat J @ [x]"
proof -
  have d: "concat (drop (Suc k) J) = []"
    using assms(2) by (auto simp: empty_from_def in_set_conv_nth)
  moreover have "concat J = concat (take k J) @ J ! k @ concat (drop (Suc k) J)"
    by (subst id_take_nth_drop [OF assms(1)]) simp
  moreover have "concat (J[k := J ! k @ [x]]) = concat (take k J) @ (J ! k @ [x]) @ concat (drop (Suc k) J)"
    using assms(1) by (simp add: upd_conv_take_nth_drop)
  ultimately show ?thesis by (simp only: d append_Nil2 append_assoc)
qed

lemma empty_from_mono: "empty_from k J \<Longrightarrow> k \<le> l \<Longrightarrow> empty_from l J"
  by (simp add: empty_from_def)

lemma tidy_plan: "tidy good specs r \<Longrightarrow> rollback_plan specs r = concat (rev (concat (r_journal r)))"
  by (simp add: tidy_def plan_flat)

lemma tidy_gained:
  assumes "tidy good specs r" "r_phase r = Executing step nd queue aw" "\<forall>a \<in> set undo. \<not> is_sync a"
  defines "J \<equiv> (r_journal r)[step := r_journal r ! step @ [undo]]"
  shows "syncless J" "empty_from (Suc step) J" "concat (rev (concat J)) = undo @ rollback_plan specs r"
proof -
  from assms(1,2) have t: "syncless (r_journal r)" "step < length (r_journal r)" "empty_from (Suc step) (r_journal r)"
    by (simp_all add: tidy_def)
  have c: "concat J = concat (r_journal r) @ [undo]" unfolding J_def by (rule concat_gained [OF t(2,3)])
  then show "syncless J" using t(1) assms(3) by (auto simp: syncless_def)
  show "empty_from (Suc step) J" using t(3) by (simp add: J_def empty_from_def nth_list_update)
  show "concat (rev (concat J)) = undo @ rollback_plan specs r"
    by (simp add: c tidy_plan [OF assms(1)])
qed

section \<open>One round\<close>

definition accounts_for :: "(action \<Rightarrow> bool) \<Rightarrow> step_spec list \<Rightarrow> input option \<Rightarrow> runner \<Rightarrow> round \<Rightarrow> bool" where
  "accounts_for good specs inp r x =
     (case x of
        Inl _ \<Rightarrow> True
      | Inr (nx, r', t', inp') \<Rightarrow>
          tidy good specs r' \<and> (inp' = None \<or> inp' = inp) \<and> (awaiting_input r \<longrightarrow> inp' = None) \<and>
          (committing r' \<or> paid nx r' @ owing specs r' = gained inp r @ owing specs r) \<and>
          (committing r \<longrightarrow> \<not> awaiting_input r \<longrightarrow> committing r' \<and> nx \<noteq> None) \<and>
          (case nx of
             Some (Next_Perform a) \<Rightarrow>
               (case r_phase r' of
                  Executing _ _ _ _ \<Rightarrow> good a
                | Committing_Phase _ _ \<Rightarrow> a = Commit
                | _ \<Rightarrow> True)
           | _ \<Rightarrow> True))"

lemma accounts_and_then:
  "(\<And>y. x = Inr y \<Longrightarrow> accounts_for good specs inp r (f y)) \<Longrightarrow> accounts_for good specs inp r (and_then x f)"
  by (cases x) (simp_all add: accounts_for_def)

lemma accounts_acted:
  "(\<And>t1. accounts_for good specs inp r (f (r'\<lparr>r_acting := None\<rparr>, t1))) \<Longrightarrow>
    accounts_for good specs inp r (and_then (acted diag r' t oc cause) f)"
  by (rule accounts_and_then) (auto dest!: acted_runner)

lemma accounts_Inl [simp]: "accounts_for good specs inp r (Inl e)"
  by (simp add: accounts_for_def)

lemma accounts_again:
  "accounts_for good specs inp r (again inp' r' t') \<longleftrightarrow>
     tidy good specs r' \<and> (inp' = None \<or> inp' = inp) \<and> (awaiting_input r \<longrightarrow> inp' = None) \<and>
     (committing r' \<or> paid None r' @ owing specs r' = gained inp r @ owing specs r) \<and>
     (committing r \<longrightarrow> awaiting_input r)"
  by (auto simp: accounts_for_def again_def)

lemma paid_None [simp]: "paid None r = []"
  by (simp add: paid_def split: phase.split)

lemma book_simps [simp]:
  "owing specs (r\<lparr>r_acting := x1\<rparr>) = owing specs r" "owing specs (r\<lparr>r_performed := x2\<rparr>) = owing specs r"
  "tidy good specs (r\<lparr>r_acting := x1\<rparr>) = tidy good specs r" "tidy good specs (r\<lparr>r_performed := x2\<rparr>) = tidy good specs r"
  "committing (r\<lparr>r_acting := x1\<rparr>) = committing r" "committing (r\<lparr>r_performed := x2\<rparr>) = committing r"
  "rollback_plan specs (r\<lparr>r_performed := x2\<rparr>) = rollback_plan specs r"
  by (simp_all add: owing_def tidy_def committing_def rollback_plan_def split: phase.split)

lemma accounts_act:
  assumes "tidy good specs r'" "committing r' \<or> paid (Some (Next_Perform a)) r' @ owing specs r' = gained inp r @ owing specs r"
    and "committing r \<longrightarrow> committing r'"
    and "case r_phase r' of Executing _ _ _ _ \<Rightarrow> good a | Committing_Phase _ _ \<Rightarrow> a = Commit | _ \<Rightarrow> True"
  shows "accounts_for good specs inp r (call (act r' t nd a))"
proof (cases "act r' t nd a")
  case (Inr y)
  then obtain n t' where "y = (Next_Perform a, r'\<lparr>r_performed := r_performed r' + 1, r_acting := Some n\<rparr>, t')"
    by (auto simp: act_def Let_def split: prod.splits)
  with Inr assms show ?thesis by (simp add: accounts_for_def call_def paid_def)
qed (simp add: call_def)

lemma tidy_parts:
  "tidy good specs r \<Longrightarrow> syncless (r_journal r) \<and> r_doubts r = [] \<and> length (r_journal r) = length specs"
  by (simp add: tidy_def)

lemma record_outcome_fields [simp]:
  "r_journal (record_outcome specs r step oc) = r_journal r" "r_doubts (record_outcome specs r step oc) = r_doubts r"
  "r_journal (caused specs r step c) = r_journal r" "r_doubts (caused specs r step c) = r_doubts r"
  "r_phase (record_outcome specs r step oc) = r_phase r"
  by (simp_all add: record_outcome_def caused_def Let_def)

lemma tidy_rolling:
  assumes "tidy good specs r" "r_journal r' = r_journal r" "r_doubts r' = r_doubts r"
  shows "tidy good specs (roll_back specs r')"
  using tidy_parts [OF assms(1)] assms(2,3) by (simp add: tidy_def roll_back_def)

lemma undos_of_cong: "r_journal r' = r_journal r \<Longrightarrow> r_doubts r' = r_doubts r \<Longrightarrow> undos_of r' = undos_of r"
  by (simp add: undos_of_def fun_eq_iff)

lemma plan_cong: "r_journal r' = r_journal r \<Longrightarrow> r_doubts r' = r_doubts r \<Longrightarrow> rollback_plan specs r' = rollback_plan specs r"
  by (simp add: rollback_plan_def undos_of_cong [of r' r])

lemma cancelled_books:
  assumes t: "tidy good specs r" and r': "r_journal r' = r_journal r" "r_doubts r' = r_doubts r"
    and a: "r_after r' = After_Close" "\<not> r_independent r'"
  shows "tidy good specs (cancel specs r' cause current)" "owing specs (cancel specs r' cause current) = rollback_plan specs r"
    "tidy good specs (fail_step specs r' step failure)" "owing specs (fail_step specs r' step failure) = rollback_plan specs r"
proof -
  let ?c = "cancel specs r' cause current" and ?f = "fail_step specs r' step failure"
  have same: "rollback_plan specs r' = rollback_plan specs r"
    using r' undos_of_cong [OF r'] by (simp add: rollback_plan_def)
  have "?c = roll_back specs (r'\<lparr>r_verdict := Some (Verdict_Cancelled cause)\<rparr>)" using a(2) by (simp add: cancel_def Let_def)
  with tidy_rolling [OF t, of "r'\<lparr>r_verdict := Some (Verdict_Cancelled cause)\<rparr>"] r' show "tidy good specs ?c" by simp
  have "r_phase ?c = RollingBack (filter (owns (r'\<lparr>r_verdict := Some (Verdict_Cancelled cause)\<rparr>)) [0..<length specs]) None False"
    using a(2) by (simp add: cancel_def Let_def roll_back_def)
  with cancel_unwinds [OF a, of specs cause current] same show "owing specs ?c = rollback_plan specs r" by (simp add: owing_def)
  let ?g = "(record_outcome specs (caused specs r' step step) step (Step_Failed failure))
    \<lparr>r_verdict := Some (Verdict_Failed (sp_key (specs ! step)) failure)\<rparr>"
  have f: "?f = roll_back specs ?g" using a(2) by (simp add: fail_step_def Let_def)
  with tidy_rolling [OF t, of ?g] r' show "tidy good specs ?f" by simp
  have "\<exists>xs. r_phase ?f = RollingBack xs None False" by (simp add: f roll_back_def)
  with fail_unwinds [OF a, of specs step failure] same show "owing specs ?f = rollback_plan specs r" by (auto simp: owing_def)
qed

text \<open>When nothing is left to check, there is nothing to undo or there is something to commit.\<close>

lemma finished_books:
  assumes t: "tidy good specs r" and r': "r_journal r' = r_journal r" "r_doubts r' = r_doubts r"
  shows "tidy good specs (finish_or_commit r')"
    "committing (finish_or_commit r') \<or> owing specs (finish_or_commit r') = rollback_plan specs r"
proof -
  show "tidy good specs (finish_or_commit r')"
    using tidy_parts [OF t] r' by (simp add: tidy_def finish_or_commit_def)
  have "rollback_plan specs r = []" if "\<forall>undos \<in> set (r_journal r). undos = []"
    using that by (auto simp: tidy_plan [OF t])
  then show "committing (finish_or_commit r') \<or> owing specs (finish_or_commit r') = rollback_plan specs r"
    using r' by (auto simp: finish_or_commit_def committing_def owing_def list_all_iff)
qed

text \<open>An input that a driver gives: the undo actions of what was done contain no syncs.\<close>

definition input_plain :: "input option \<Rightarrow> bool" where
  "input_plain inp = (case inp of Some (Input_Done (Inr undo)) \<Rightarrow> \<forall>a \<in> set undo. \<not> is_sync a | _ \<Rightarrow> True)"

lemma owing_forward:
  "r_phase r' = Checking step aw \<Longrightarrow> r_journal r' = r_journal r \<Longrightarrow> r_doubts r' = r_doubts r \<Longrightarrow> owing specs r' = rollback_plan specs r"
  "r_phase r' = Executing step nd queue aw \<Longrightarrow> r_journal r' = r_journal r \<Longrightarrow> r_doubts r' = r_doubts r \<Longrightarrow> owing specs r' = rollback_plan specs r"
  using plan_cong [of r' r specs] by (simp_all add: owing_def)

lemma tidy_checking:
  "tidy good specs r \<Longrightarrow> r_phase r' = Checking step aw \<Longrightarrow> r_journal r' = r_journal r \<Longrightarrow> r_doubts r' = r_doubts r \<Longrightarrow>
   empty_from step (r_journal r) \<Longrightarrow> tidy good specs r'"
  by (simp add: tidy_def)

lemma tidy_executing:
  "tidy good specs r \<Longrightarrow> r_phase r' = Executing step nd queue aw \<Longrightarrow> r_journal r' = r_journal r \<Longrightarrow> r_doubts r' = r_doubts r \<Longrightarrow>
   empty_from (Suc step) (r_journal r) \<Longrightarrow> step < length specs \<Longrightarrow> \<forall>a \<in> set queue. good a \<Longrightarrow> tidy good specs r'"
  by (simp add: tidy_def)

lemma check_books:
  assumes t: "tidy good specs r" and ph: "r_phase r = Checking step False" and h: "r_after r = After_Close" "\<not> r_independent r"
  shows "accounts_for good specs inp r (round_check specs inp r t0 step)"
proof -
  let ?v = "r\<lparr>r_verdict := get_or_insert (r_verdict r) Verdict_Succeeded\<rparr>"
  have e: "empty_from step (r_journal r)" using t ph by (simp add: tidy_def)
  have r: "owing specs r = rollback_plan specs r" "gained inp r = []" "\<not> awaiting_input r" "\<not> committing r"
    using ph by (simp_all add: owing_def gained_def awaiting_input_def committing_def)
  have next_step: "tidy good specs r'" "owing specs r' = rollback_plan specs r" "\<not> committing r'"
    if "r_phase r' = Checking (Suc step) False" "r_journal r' = r_journal r" "r_doubts r' = r_doubts r" for r'
    using tidy_checking [OF t that] empty_from_mono [OF e, of "Suc step"] owing_forward(1) [OF that] that(1)
    by (simp_all add: committing_def)
  have asked: "accounts_for good specs inp r (call (Inr (Next_Observe queries, r\<lparr>r_phase := Checking step True\<rparr>, t0)))" for queries
    using t e r owing_forward(1) [of "r\<lparr>r_phase := Checking step True\<rparr>" step True r]
    by (simp add: accounts_for_def call_def tidy_def committing_def paid_def)
  have fin: "accounts_for good specs inp r (again inp (finish_or_commit ?v) t0)"
    using finished_books [OF t, of ?v] r by (simp add: accounts_again)
  have can: "accounts_for good specs inp r (again inp (cancel specs r cause None) t0)" for cause
    using cancelled_books(1,2) [OF t refl refl h] r by (simp add: accounts_again)
  have blocked: "accounts_for good specs inp r (again inp ((record_outcome specs (caused specs r step cause) step oc)
      \<lparr>r_phase := Checking (step + 1) False\<rparr>) t')" (is "accounts_for good specs inp r (again inp ?r' t')") for cause oc t'
    using next_step [of ?r'] r by (simp add: accounts_again)
  show ?thesis
  proof (cases "step = length specs")
    case True
    with fin show ?thesis by (simp add: round_check_def)
  next
    case False
    note len = this
    show ?thesis
    proof (cases "r_stop r")
      case None
      with len asked blocked show ?thesis
        by (cases "blocker specs r step") (simp_all add: round_check_def Let_def accounts_and_then)
    next
      case (Some cause)
      with len can show ?thesis by (simp add: round_check_def)
    qed
  qed
qed

lemma checked_books:
  assumes t: "tidy good specs r" and ph: "r_phase r = Checking step True" and h: "r_after r = After_Close" "\<not> r_independent r"
    and good: "planned good specs"
  shows "accounts_for good specs inp r (round_checked diag specs inp r t0 step)"
proof (cases "\<exists>facts. inp = Some (Input_Facts facts) \<and> step < length specs")
  case False
  then show ?thesis by (auto simp: round_checked_def split: option.split input.split)
next
  case True
  then obtain facts where inp: "inp = Some (Input_Facts facts)" and len: "step < length specs" by blast
  have e: "empty_from step (r_journal r)" using t ph by (simp add: tidy_def)
  have r: "owing specs r = rollback_plan specs r" "gained inp r = []" "\<not> committing r"
    using ph by (simp_all add: owing_def gained_def committing_def)
  have next_step: "tidy good specs r'" "owing specs r' = rollback_plan specs r"
    if "r_phase r' = Checking (Suc step) False" "r_journal r' = r_journal r" "r_doubts r' = r_doubts r" for r'
    using tidy_checking [OF t that] empty_from_mono [OF e, of "Suc step"] owing_forward(1) [OF that] by simp_all
  have exec: "tidy good specs r'" "owing specs r' = rollback_plan specs r"
    if "r_phase r' = Executing step nd actions False" "r_journal r' = r_journal r" "r_doubts r' = r_doubts r"
      "and_then facts (sp_actions (specs ! step)) = Inr actions" for r' nd actions
  proof -
    from that(4) good len have "\<forall>a \<in> set actions. good a"
      by (cases facts) (auto simp: planned_def dest: nth_mem)
    then show "tidy good specs r'" "owing specs r' = rollback_plan specs r"
      using tidy_executing [OF t that(1-3)] empty_from_mono [OF e, of "Suc step"] owing_forward(2) [OF that(1-3)] len by simp_all
  qed
  have fail: "tidy good specs (fail_step specs (r\<lparr>r_nodes := ns\<rparr>) step failure)"
    "owing specs (fail_step specs (r\<lparr>r_nodes := ns\<rparr>) step failure) = rollback_plan specs r" for ns failure
    using cancelled_books(3,4) [OF t, of "r\<lparr>r_nodes := ns\<rparr>"] h by simp_all
  let ?found = "and_then facts (sp_actions (specs ! step))"
  have A: "accounts_for good specs inp r (again None (fail_step specs (r\<lparr>r_nodes := ns\<rparr>) step failure) t2)" for ns failure t2
    using fail [of ns failure] r by (simp add: accounts_again)
  have B: "accounts_for good specs inp r (again None ((record_outcome specs (r\<lparr>r_nodes := ns\<rparr>) step oc)
      \<lparr>r_phase := Checking (Suc step) False\<rparr>) t2)" (is "accounts_for good specs inp r (again None ?r' t2)") for ns oc t2
    using next_step [of ?r'] r by (simp add: accounts_again)
  have C: "accounts_for good specs inp r (again None (r\<lparr>r_nodes := ns, r_phase := Executing step nd actions False\<rparr>) t2)"
    (is "accounts_for good specs inp r (again None ?r' t2)") if "?found = Inr actions" for ns nd actions t2
    using exec [of ?r' nd actions, OF _ _ _ that] r by (simp add: accounts_again)
  show ?thesis
  proof (cases ?found)
    case (Inl failure)
    with len A show ?thesis by (auto simp: round_checked_def inp Let_def intro!: accounts_and_then)
  next
    case (Inr actions)
    with len B C show ?thesis by (auto simp: round_checked_def inp Let_def intro!: accounts_and_then)
  qed
qed


lemma execute_books:
  assumes t: "tidy good specs r" and ph: "r_phase r = Executing step nd queue False" and h: "r_after r = After_Close" "\<not> r_independent r"
  shows "accounts_for good specs inp r (round_execute specs inp r t0 step nd queue)"
proof -
  have e: "empty_from (Suc step) (r_journal r)" "step < length specs" "\<forall>a \<in> set queue. good a" using t ph by (simp_all add: tidy_def)
  have r: "owing specs r = rollback_plan specs r" "gained inp r = []" "\<not> committing r" "\<not> awaiting_input r"
    using ph by (simp_all add: owing_def gained_def committing_def awaiting_input_def)
  have A: "accounts_for good specs inp r (again inp (cancel specs (record_outcome specs r step oc) cause current) t1)" for oc cause current t1
    using cancelled_books(1,2) [OF t, of "record_outcome specs r step oc" cause current] h r by (simp add: accounts_again)
  have B: "accounts_for good specs inp r (again inp ((record_outcome specs r step oc)\<lparr>r_phase := Checking (Suc step) False\<rparr>) t1)"
    (is "accounts_for good specs inp r (again inp ?r' t1)") for oc t1
    using tidy_checking [OF t, of ?r'] owing_forward(1) [of ?r' "Suc step" False r specs] e r by (simp add: accounts_again)
  have C: "accounts_for good specs inp r (call (act (r\<lparr>r_phase := Executing step nd queue' True\<rparr>) t0 nd a))"
    (is "accounts_for good specs inp r (call (act ?r' t0 nd a))") if "queue = a # queue'" for a queue'
    using tidy_executing [OF t, of ?r'] owing_forward(2) [of ?r' step nd queue' True r specs] e r that
    by (intro accounts_act) (simp_all add: paid_def)
  have D: "accounts_for good specs inp r (case queue of
      [] \<Rightarrow> and_then (finish_node t0 nd ending_succeeded)
        (\<lambda>t1. again inp ((record_outcome specs r step Step_Changed)\<lparr>r_phase := Checking (step + 1) False\<rparr>) t1)
    | a # queue' \<Rightarrow> call (act (r\<lparr>r_phase := Executing step nd queue' True\<rparr>) t0 nd a))"
    using B C by (cases queue) (simp_all add: accounts_and_then)
  show ?thesis
  proof (cases "r_stop r")
    case None
    with e D show ?thesis by (simp add: round_execute_def Let_def)
  next
    case (Some cause)
    with e A D show ?thesis by (simp add: round_execute_def Let_def accounts_and_then)
  qed
qed

lemma executed_books:
  assumes t: "tidy good specs r" and ph: "r_phase r = Executing step nd queue True" and h: "r_after r = After_Close" "\<not> r_independent r"
    and plain: "input_plain inp"
  shows "accounts_for good specs inp r (round_executed diag specs inp r t0 step nd queue)"
proof (cases "\<exists>oc. inp = Some (Input_Done oc)")
  case False
  then show ?thesis by (auto simp: round_executed_def split: option.split input.split)
next
  case True
  then obtain oc where inp: "inp = Some (Input_Done oc)" by blast
  have e: "empty_from (Suc step) (r_journal r)" "step < length specs" "\<forall>a \<in> set queue. good a" using t ph by (simp_all add: tidy_def)
  have r: "owing specs r = rollback_plan specs r" "\<not> committing r" using ph by (simp_all add: owing_def committing_def)
  let ?r0 = "r\<lparr>r_acting := None\<rparr>"
  show ?thesis
  proof (cases oc)
    case (Inr undo)
    with plain inp have p: "\<forall>a \<in> set undo. \<not> is_sync a" by (simp add: input_plain_def)
    note g = tidy_gained [OF t ph p]
    let ?r' = "r\<lparr>r_acting := None, r_journal := (r_journal r)[step := r_journal r ! step @ [undo]], r_phase := Executing step nd queue False\<rparr>"
    have "tidy good specs ?r'" using g(1,2) e tidy_parts [OF t] by (simp add: tidy_def)
    moreover from tidy_plan [OF this] g(3) have "owing specs ?r' = undo @ rollback_plan specs r" by (simp add: owing_def)
    moreover have "gained inp r = undo" using ph inp Inr by (simp add: gained_def)
    ultimately have "accounts_for good specs inp r (again None ?r' t1)" for t1 using r by (simp add: accounts_again)
    with e Inr show ?thesis by (simp add: round_executed_def inp accounts_acted)
  next
    case (Inl failure)
    then have gain: "gained inp r = []" using ph inp by (simp add: gained_def)
    have A: "accounts_for good specs inp r (again None (cancel specs (record_outcome specs (?r0\<lparr>r_stop := x\<rparr>) step out) cause current) t1)"
      for x out cause current t1
      using cancelled_books(1,2) [OF t, of "record_outcome specs (?r0\<lparr>r_stop := x\<rparr>) step out" cause current] h r gain
      by (simp add: accounts_again)
    have B: "accounts_for good specs inp r (again None (fail_step specs ?r0 step failure) t1)" for t1
      using cancelled_books(3,4) [OF t, of ?r0] h r gain by (simp add: accounts_again)
    show ?thesis
    proof (cases "failure = Cancelled")
      case True
      show ?thesis
        unfolding round_executed_def inp Inl True Let_def using e(2) A [unfolded inp Inl True]
        by (simp, intro accounts_acted) (simp add: accounts_and_then)
    next
      case False
      then have "round_executed diag specs inp r t0 step nd queue =
          and_then (acted diag r t0 (Inl failure) (r_stop r)) (\<lambda>(r1, t1).
            and_then (finish_node t1 nd (ending_failed (diag failure))) (\<lambda>t2. again None (fail_step specs r1 step failure) t2))"
        using e(2) by (cases failure) (simp_all add: round_executed_def inp Inl)
      then show ?thesis using B by (simp, intro accounts_acted) (simp add: accounts_and_then)
    qed
  qed
qed

text \<open>A rollback: \<open>one_round_unwinds\<close> has the account; what is left is the books.\<close>

lemma rolling_tidy:
  assumes t: "tidy good specs r" and ph: "r_phase r = RollingBack remaining current aw" and h: "r_after r = After_Close"
    and x: "one_round diag specs inp r t0 = Inr (nx, r', t', inp')"
  shows "tidy good specs r' \<and> (inp' = None \<or> inp' = inp) \<and> (awaiting_input r \<longrightarrow> inp' = None) \<and> \<not> committing r' \<and>
    (nx = None \<or> nx = Some Next_Finished \<or> (\<exists>rem u. r_phase r' = RollingBack rem u True))"
proof -
  have s: "syncless (r_journal r)" "r_doubts r = []" "length (r_journal r) = length specs" using tidy_parts [OF t] by auto
  have cleared: "syncless ((r_journal r)[k := []])" for k
    using s(1) set_update_subset_insert [of "r_journal r" k "[]"] by (auto simp: syncless_def)
  show ?thesis
  proof (cases current)
    case None
    with x ph have "round_rolled specs inp r t0 remaining = Inr (nx, r', t', inp')" by (simp add: one_round_def)
    with s h cleared ph None show ?thesis
      by (auto simp: round_rolled_def Let_def again_def tidy_def committing_def awaiting_input_def split: if_splits option.splits)
  next
    case (Some u)
    with t ph have u: "un_doubtful u = []" "\<not> un_doubting u" by (simp_all add: tidy_def)
    show ?thesis
    proof (cases aw)
      case True
      with x ph Some have "round_undone diag specs inp r t0 remaining u = Inr (nx, r', t', inp')" by (simp add: one_round_def)
      then obtain oc r1 t1 where oc: "inp = Some (Input_Done oc)" and r1: "acted diag r t0 oc (r_stop r) = Inr (r1, t1)"
        by (cases "acted diag r t0 (case inp of Some (Input_Done oc) \<Rightarrow> oc | _ \<Rightarrow> Inr []) (r_stop r)")
          (auto simp: round_undone_def split: option.splits input.splits)
      with \<open>round_undone diag specs inp r t0 remaining u = Inr (nx, r', t', inp')\<close> s u acted_runner [OF r1] show ?thesis
        by (cases oc) (auto simp: round_undone_def again_def tidy_def committing_def split: if_splits)
    next
      case False
      with x ph Some have "round_undo diag specs inp r t0 remaining u = Inr (nx, r', t', inp')" by (simp add: one_round_def)
      with s u ph Some False show ?thesis
        by (auto simp: round_undo_def again_def call_def act_def Let_def tidy_def committing_def awaiting_input_def
          split: list.splits prod.splits if_splits)
    qed
  qed
qed

lemma committing_books:
  assumes t: "tidy good specs r" and ph: "r_phase r = Committing_Phase aw reclaim"
  shows "accounts_for good specs inp r (if aw then round_committed diag inp r t0 reclaim else round_commit r t0)"
proof -
  have s: "syncless (r_journal r)" "r_doubts r = []" "length (r_journal r) = length specs" using tidy_parts [OF t] by auto
  have r: "owing specs r = []" "gained inp r = []" using ph by (simp_all add: owing_def gained_def)
  have v: "r_journal (committed_verdict r' oc) = r_journal r'" "r_doubts (committed_verdict r' oc) = r_doubts r'" for r' oc
    by (auto simp: committed_verdict_def Let_def split: sum.split failure.split)
  have A: "accounts_for good specs inp r (again None ((committed_verdict (r\<lparr>r_acting := None\<rparr>) oc)\<lparr>r_phase := Closing\<rparr>) t1)"
    if aw for oc t1
    using s r ph v [of "r\<lparr>r_acting := None\<rparr>" oc] that by (simp add: accounts_again tidy_def owing_def committing_def awaiting_input_def)
  have B: "accounts_for good specs inp r (call (act (r\<lparr>r_phase := Committing_Phase True x\<rparr>) t1 nd Commit))" for x t1 nd
    using s by (intro accounts_act) (simp_all add: tidy_def committing_def)
  show ?thesis
  proof (cases aw)
    case True
    show ?thesis
    proof (cases "\<exists>oc. inp = Some (Input_Done oc)")
      case False
      with True show ?thesis by (auto simp: round_committed_def split: option.split input.split)
    next
      case oc: True
      then obtain oc where "inp = Some (Input_Done oc)" by blast
      with True A [OF True] show ?thesis
        by (simp add: round_committed_def) (intro accounts_acted, simp add: accounts_and_then)
    qed
  next
    case False
    with B show ?thesis by (auto simp: round_commit_def intro!: accounts_and_then)
  qed
qed

lemma one_round_accounts:
  assumes t: "tidy good specs r" and h: "honest r" and p: "phase_ok specs r t0" and fits: "input_fits r inp"
    and good: "planned good specs" and plain: "past r \<or> input_plain inp"
  shows "accounts_for good specs inp r (one_round diag specs inp r t0)"
proof (cases "r_phase r")
  case Opening
  have e: "empty_from 0 (r_journal r)" using t Opening by (simp add: tidy_def)
  have "accounts_for good specs inp r (again inp (r\<lparr>r_plan := x, r_phase := Checking 0 False\<rparr>) t1)"
    (is "accounts_for good specs inp r (again inp ?r' t1)") for x t1
    using tidy_checking [OF t, of ?r' 0 False] owing_forward(1) [of ?r' 0 False r specs] e Opening
    by (simp add: accounts_again owing_def gained_def committing_def awaiting_input_def)
  with Opening show ?thesis by (auto simp: one_round_def round_opening_def intro!: accounts_and_then)
next
  case (Checking step asked)
  with h have "r_after r = After_Close" "\<not> r_independent r" by (simp_all add: honest_def)
  with Checking check_books [OF t] checked_books [OF t _ _ _ good] show ?thesis
    by (cases asked) (simp_all add: one_round_def)
next
  case (Executing step nd queue aw)
  with h plain have "r_after r = After_Close" "\<not> r_independent r" and plain: "input_plain inp" by (simp_all add: honest_def past_def)
  with Executing execute_books [OF t] executed_books [OF t _ _ _ plain] show ?thesis
    by (cases aw) (simp_all add: one_round_def)
next
  case (RollingBack remaining current aw)
  with h have a: "r_after r = After_Close" by (simp add: honest_def)
  with RollingBack have u: "unwinding r" by (simp add: unwinding_def)
  have r: "owing specs r = pending r" "gained inp r = []" "\<not> committing r"
    using RollingBack by (simp_all add: owing_def gained_def committing_def)
  show ?thesis
  proof (cases "one_round diag specs inp r t0")
    case (Inr y)
    obtain nx r' t' inp' where y: "y = (nx, r', t', inp')" by (cases y)
    note b = rolling_tidy [OF t RollingBack a Inr [unfolded y]]
    from one_round_unwinds [OF p u, of diag inp] Inr y have w: "unwinds r (Inr (nx, r', t', inp'))" by simp
    have own: "owing specs r' = pending r'" if "unwinding r'"
      using that by (auto simp: unwinding_def owing_def pending_def split: phase.splits)
    have "paid nx r' @ owing specs r' = pending r"
    proof (cases nx)
      case None
      with w own show ?thesis by (simp add: unwinds_def)
    next
      case (Some c)
      show ?thesis
      proof (cases c)
        case (Next_Perform a)
        with b Some obtain rem v where "r_phase r' = RollingBack rem v True" by auto
        with w own Some Next_Perform show ?thesis by (simp add: unwinds_def paid_def)
      next
        case Next_Finished
        with w Some show ?thesis by (simp add: unwinds_def paid_def owing_def)
      next
        case (Next_Observe x)
        with w Some show ?thesis by (simp add: unwinds_def)
      qed
    qed
    with b r Inr y show ?thesis by (auto simp: accounts_for_def split: option.split next_call.split phase.split)
  qed simp
next
  case (Committing_Phase aw reclaim)
  with committing_books [OF t Committing_Phase] show ?thesis by (simp add: one_round_def)
next
  case Closing
  with tidy_parts [OF t] have "accounts_for good specs inp r
      (call (Inr (Next_Finished, r\<lparr>r_verdict := None, r_report := rep, r_phase := Closed\<rparr>, t2)))" for rep t2
    by (simp add: accounts_for_def call_def tidy_def owing_def gained_def paid_def committing_def awaiting_input_def)
  with Closing show ?thesis by (auto simp: one_round_def round_closing_def Let_def intro!: accounts_and_then)
next
  case Closed
  with t show ?thesis
    by (simp add: one_round_def call_def accounts_for_def owing_def gained_def paid_def committing_def awaiting_input_def)
qed

section \<open>One call\<close>

lemma input_fits_awaiting: "awaiting_input r \<Longrightarrow> input_fits r inp \<Longrightarrow> inp \<noteq> None"
  by (auto simp: awaiting_input_def input_fits_def split: phase.splits option.splits)

lemma call_accounts:
  "tidy good specs r \<Longrightarrow> honest r \<Longrightarrow> phase_ok specs r t \<Longrightarrow> input_fits r inp \<Longrightarrow> keys_ok specs \<Longrightarrow>
   planned good specs \<Longrightarrow> past r \<or> input_plain inp \<Longrightarrow> inp = None \<or> awaiting_input r \<Longrightarrow>
   run_loop diag specs inp r t = Inr (nx, r', t') \<Longrightarrow>
   tidy good specs r' \<and>
   (committing r' \<or> paid (Some nx) r' @ owing specs r' = gained inp r @ owing specs r) \<and>
   (case nx of
      Next_Perform a \<Rightarrow>
        (case r_phase r' of Executing _ _ _ _ \<Rightarrow> good a | Committing_Phase _ _ \<Rightarrow> a = Commit | _ \<Rightarrow> True)
    | _ \<Rightarrow> True)"
proof (induction diag specs inp r t rule: run_loop.induct)
  case (1 diag specs inp r t)
  note acc = one_round_accounts [OF "1.prems"(1-4,6,7), of diag]
  note ok = one_round_ok [OF "1.prems"(3,5,4), of diag]
  show ?case
  proof (cases "one_round diag specs inp r t")
    case (Inl e)
    with ok show ?thesis by (simp add: round_ok_def)
  next
    case (Inr y)
    obtain c r1 t1 inp1 where y: "y = (c, r1, t1, inp1)" by (cases y)
    show ?thesis
    proof (cases c)
      case (Some nx1)
      with "1.prems"(9) Inr y have "nx = nx1" "r' = r1" by (simp_all add: run_loop.simps [of diag specs inp r t])
      with acc Inr y Some show ?thesis by (cases nx1) (simp_all add: accounts_for_def)
    next
      case None
      from acc Inr y None have a: "tidy good specs r1" "inp1 = None \<or> inp1 = inp" "awaiting_input r \<longrightarrow> inp1 = None"
        "committing r1 \<or> owing specs r1 = gained inp r @ owing specs r"
        by (simp_all add: accounts_for_def)
      with "1.prems"(8) have inp1: "inp1 = None" by auto
      from ok Inr y None have ok1: "phase_ok specs r1 t1" "input_fits r1 inp1" by (simp_all add: round_ok_def)
      from one_round_honest [OF "1.prems"(2), of diag specs inp t] Inr y have h1: "honest r1" by (simp add: honestly_def)
      have wait1: "\<not> awaiting_input r1" using input_fits_awaiting ok1(2) inp1 by blast
      from "1.prems"(9) Inr y None have l: "run_loop diag specs inp1 r1 t1 = Inr (nx, r', t')"
        by (simp add: run_loop.simps [of diag specs inp r t])
      have plain1: "past r1 \<or> input_plain inp1" by (simp add: inp1 input_plain_def)
      have "inp1 = None \<or> awaiting_input r1" using inp1 by simp
      note IH = "1.IH" [OF Inr y [symmetric] None refl refl a(1) h1 ok1 "1.prems"(5,6) plain1 this l]
      have g: "gained inp1 r1 = []"
        by (simp add: inp1 gained_def split: phase.split)
      show ?thesis
      proof (cases "committing r1")
        case False
        with IH g a(4) show ?thesis by simp
      next
        case True
        note acc1 = one_round_accounts [OF a(1) h1 ok1 "1.prems"(6) plain1, of diag]
        have "committing r'"
        proof (cases "one_round diag specs inp1 r1 t1")
          case (Inl e)
          with l show ?thesis by (simp add: run_loop.simps [of diag specs inp1 r1 t1])
        next
          case (Inr z)
          obtain c2 r2 t2 inp2 where z: "z = (c2, r2, t2, inp2)" by (cases z)
          with acc1 Inr True wait1 have "committing r2" "c2 \<noteq> None" by (simp_all add: accounts_for_def)
          with l Inr z show ?thesis by (auto simp: run_loop.simps [of diag specs inp1 r1 t1])
        qed
        with IH show ?thesis by simp
      qed
    qed
  qed
qed

section \<open>What went wrong\<close>

text \<open>A failed undo action is in the report from the next round on, and stays there.\<close>

definition undo_failed :: "input option \<Rightarrow> runner \<Rightarrow> bool" where
  "undo_failed inp r =
     (case r_phase r of
        RollingBack _ current awaiting \<Rightarrow> current \<noteq> None \<and> awaiting \<and> (\<exists>failure. inp = Some (Input_Done (Inl failure)))
      | _ \<Rightarrow> False)"

abbreviation undo_failures :: "runner \<Rightarrow> (string \<times> failure) list" where
  "undo_failures r \<equiv> rep_rollback_failures (r_report r)"

lemma failure_simps [simp]:
  "\<not> r_independent r \<Longrightarrow> undo_failures (cancel specs r cause current) = undo_failures r"
  "\<not> r_independent r \<Longrightarrow> undo_failures (fail_step specs r step failure) = undo_failures r"
  "undo_failures (finish_or_commit r) = undo_failures r" "undo_failures (committed_verdict r oc) = undo_failures r"
  by (auto simp: cancel_def fail_step_def roll_back_def finish_or_commit_def committed_verdict_def Let_def split: sum.split failure.split)

definition goes_on :: "input option \<Rightarrow> runner \<Rightarrow> round \<Rightarrow> bool" where
  "goes_on inp r x =
     (case x of
        Inl _ \<Rightarrow> True
      | Inr (nx, r', t', inp') \<Rightarrow>
          (if undo_failed inp r then undo_failures r' \<noteq> [] else undo_failures r' = undo_failures r) \<and>
          (past r \<longrightarrow> past r'))"

lemma goes_on_Inl [simp]: "goes_on inp r (Inl e)"
  and goes_on_again [simp]: "goes_on inp r (again inp' r' t) \<longleftrightarrow>
    (if undo_failed inp r then undo_failures r' \<noteq> [] else undo_failures r' = undo_failures r) \<and> (past r \<longrightarrow> past r')"
  and goes_on_call [simp]: "goes_on inp r (call (Inr (c, r', t))) \<longleftrightarrow>
    (if undo_failed inp r then undo_failures r' \<noteq> [] else undo_failures r' = undo_failures r) \<and> (past r \<longrightarrow> past r')"
  by (simp_all add: goes_on_def again_def call_def)

lemma goes_on_and_then: "(\<And>y. x = Inr y \<Longrightarrow> goes_on inp r (f y)) \<Longrightarrow> goes_on inp r (and_then x f)"
  by (cases x) simp_all

lemma goes_on_acted:
  "(\<And>t1. goes_on inp r (f (r'\<lparr>r_acting := None\<rparr>, t1))) \<Longrightarrow> goes_on inp r (and_then (acted diag r' t oc cause) f)"
  by (rule goes_on_and_then) (auto dest!: acted_runner)

lemma goes_on_act:
  "(if undo_failed inp r then undo_failures r' \<noteq> [] else undo_failures r' = undo_failures r) \<and> (past r \<longrightarrow> past r') \<Longrightarrow>
   goes_on inp r (call (act r' t nd a))"
  by (cases "act r' t nd a") (auto simp: act_def Let_def goes_on_def call_def past_def split: prod.splits phase.splits)

lemma one_round_goes_on:
  assumes t: "tidy good specs r" and h: "honest r"
  shows "goes_on inp r (one_round diag specs inp r t0)"
proof (cases "r_phase r")
  case Opening
  then show ?thesis by (auto simp: one_round_def round_opening_def undo_failed_def past_def intro!: goes_on_and_then)
next
  case (Checking step asked)
  with h have i: "\<not> r_independent r" by (simp add: honest_def)
  from Checking have p: "\<not> undo_failed inp r" "\<not> past r" by (simp_all add: undo_failed_def past_def)
  have "goes_on inp r (round_check specs inp r t0 step)"
    using i p by (auto simp: round_check_def Let_def intro!: goes_on_and_then split: option.split)
  moreover have "goes_on inp r (round_checked diag specs inp r t0 step)"
    using i p by (auto simp: round_checked_def Let_def intro!: goes_on_and_then split: option.split input.split sum.split)
  ultimately show ?thesis using Checking by (simp add: one_round_def)
next
  case (Executing step nd queue aw)
  with h have i: "\<not> r_independent r" by (simp add: honest_def)
  from Executing have p: "\<not> undo_failed inp r" "\<not> past r" by (simp_all add: undo_failed_def past_def)
  have ri: "\<not> r_independent (record_outcome specs r' step oc)" if "\<not> r_independent r'" for r' oc
    using that by (simp add: record_outcome_def)
  have "goes_on inp r (round_execute specs inp r t0 step nd queue)"
    using i p ri [OF i] by (auto simp: round_execute_def Let_def intro!: goes_on_and_then goes_on_act split: option.split list.split)
  moreover have "goes_on inp r (round_executed diag specs inp r t0 step nd queue)"
  proof (cases "\<exists>oc. inp = Some (Input_Done oc)")
    case True
    then obtain oc where oc: "inp = Some (Input_Done oc)" by blast
    have "goes_on inp r (again None (cancel specs (record_outcome specs (r\<lparr>r_acting := None, r_stop := x\<rparr>) step out) cause current) t1)"
      "goes_on inp r (again None (fail_step specs (r\<lparr>r_acting := None\<rparr>) step failure) t1)"
      "goes_on inp r (again None (r\<lparr>r_acting := None, r_journal := j, r_phase := Executing step nd queue False\<rparr>) t1)"
      for x out cause current t1 failure j
      using i p ri [of "r\<lparr>r_acting := None, r_stop := x\<rparr>"] by simp_all
    with oc show ?thesis
      unfolding round_executed_def
      by (simp, intro impI goes_on_acted) (auto simp: Let_def intro!: goes_on_and_then split: sum.split failure.split)
  qed (auto simp: round_executed_def split: option.split input.split)
  ultimately show ?thesis using Executing by (simp add: one_round_def)
next
  case (RollingBack remaining current aw)
  with h have a: "r_after r = After_Close" by (simp add: honest_def)
  show ?thesis
  proof (cases current)
    case None
    with RollingBack a show ?thesis
      by (auto simp: one_round_def round_rolled_def Let_def undo_failed_def past_def intro!: goes_on_and_then split: option.split)
  next
    case (Some u)
    with t RollingBack have u: "un_doubtful u = []" "\<not> un_doubting u" by (simp_all add: tidy_def)
    show ?thesis
    proof (cases aw)
      case False
      with RollingBack Some u show ?thesis
        by (auto simp: one_round_def round_undo_def undo_failed_def past_def intro!: goes_on_and_then goes_on_act split: list.split)
    next
      case aw: True
      show ?thesis
      proof (cases "\<exists>oc. inp = Some (Input_Done oc)")
        case True
        then obtain oc where "inp = Some (Input_Done oc)" by blast
        with RollingBack Some aw u show ?thesis
          by (cases oc) (auto simp: one_round_def round_undone_def undo_failed_def past_def intro!: goes_on_acted)
      next
        case False
        with RollingBack Some aw show ?thesis by (auto simp: one_round_def round_undone_def split: option.split input.split)
      qed
    qed
  qed
next
  case (Committing_Phase aw reclaim)
  then have p: "\<not> undo_failed inp r" "past r" by (simp_all add: undo_failed_def past_def)
  have "past (x\<lparr>r_phase := Closing\<rparr>)" "past (x\<lparr>r_phase := Committing_Phase y z\<rparr>)" for x y z by (simp_all add: past_def)
  with Committing_Phase p show ?thesis
    by (auto simp: one_round_def round_committed_def round_commit_def intro!: goes_on_and_then goes_on_act dest!: acted_runner
      split: option.split input.split)
next
  case Closing
  then have p: "\<not> undo_failed inp r" "past r" by (simp_all add: undo_failed_def past_def)
  have "past (x\<lparr>r_phase := Closed\<rparr>)" for x by (simp add: past_def)
  with Closing p show ?thesis by (auto simp: one_round_def round_closing_def Let_def intro!: goes_on_and_then)
next
  case Closed
  then show ?thesis by (simp add: one_round_def undo_failed_def)
qed

text \<open>What every round of a call keeps, and the last one gives, holds after the call.\<close>

lemma run_loop_rule:
  assumes "run_loop diag specs inp r t = Inr (nx, r', t')" and "P inp r t"
    and "\<And>inp r t c r1 t1 inp1. P inp r t \<Longrightarrow> one_round diag specs inp r t = Inr (c, r1, t1, inp1) \<Longrightarrow>
      (case c of None \<Rightarrow> P inp1 r1 t1 | Some nx \<Rightarrow> Q nx r1 t1)"
  shows "Q nx r' t'"
  using assms
proof (induction diag specs inp r t rule: run_loop.induct)
  case (1 diag specs inp r t)
  show ?case
  proof (cases "one_round diag specs inp r t")
    case (Inl e)
    with "1.prems"(1) show ?thesis by (simp add: run_loop.simps [of diag specs inp r t])
  next
    case (Inr y)
    obtain c r1 t1 inp1 where y: "y = (c, r1, t1, inp1)" by (cases y)
    note step = "1.prems"(3) [OF "1.prems"(2) Inr [unfolded y]]
    show ?thesis
    proof (cases c)
      case (Some nx1)
      with "1.prems"(1) Inr y step show ?thesis by (simp add: run_loop.simps [of diag specs inp r t])
    next
      case None
      from "1.prems"(1) Inr y None have l: "run_loop diag specs inp1 r1 t1 = Inr (nx, r', t')"
        by (simp add: run_loop.simps [of diag specs inp r t])
      from step None have p1: "P inp1 r1 t1" by simp
      show ?thesis
        by (rule "1.IH" [OF Inr y [symmetric] None refl refl l p1]) (rule "1.prems"(3))
    qed
  qed
qed

lemma call_goes_on:
  assumes l: "run_loop diag specs inp r t = Inr (nx, r', t')"
    and "tidy good specs r" "honest r" "phase_ok specs r t" "input_fits r inp" "keys_ok specs" "planned good specs"
    and "past r \<or> input_plain inp" "inp = None \<or> awaiting_input r"
  shows "(if undo_failed inp r then undo_failures r' \<noteq> [] else undo_failures r' = undo_failures r) \<and> (past r \<longrightarrow> past r')"
proof -
  let ?G = "\<lambda>r'. (if undo_failed inp r then undo_failures r' \<noteq> [] else undo_failures r' = undo_failures r) \<and> (past r \<longrightarrow> past r')"
  let ?P = "\<lambda>inp1 r1 t1. tidy good specs r1 \<and> honest r1 \<and> phase_ok specs r1 t1 \<and> input_fits r1 inp1 \<and> (past r1 \<or> input_plain inp1) \<and>
    (inp1 = None \<or> awaiting_input r1) \<and> (inp1 = inp \<and> r1 = r \<or> inp1 = None \<and> ?G r1)"
  show ?thesis
  proof (rule run_loop_rule [OF l, of ?P "\<lambda>nx r1 t1. ?G r1"])
    show "?P inp r t" using assms by simp
    fix inp1 r1 t1 c r2 t2 inp2
    assume P: "?P inp1 r1 t1" and x: "one_round diag specs inp1 r1 t1 = Inr (c, r2, t2, inp2)"
    from P have t1: "tidy good specs r1" "honest r1" "phase_ok specs r1 t1" "input_fits r1 inp1" "past r1 \<or> input_plain inp1" by blast+
    from one_round_accounts [OF t1(1-4) assms(7) t1(5), of diag] x P
    have a: "tidy good specs r2" "inp2 = None" by (auto simp: accounts_for_def)
    from one_round_honest [OF t1(2), of diag specs inp1 t1] x have h: "honest r2" by (simp add: honestly_def)
    from one_round_goes_on [OF t1(1,2), of inp1 diag t1] x
    have g: "if undo_failed inp1 r1 then undo_failures r2 \<noteq> [] else undo_failures r2 = undo_failures r1" "past r1 \<longrightarrow> past r2"
      by (simp_all add: goes_on_def)
    have "\<not> undo_failed None r1" by (simp add: undo_failed_def split: phase.split)
    with P g have G: "?G r2" by (auto split: if_splits)
    from one_round_ok [OF t1(3) assms(6) t1(4), of diag] x
    show "case c of None \<Rightarrow> ?P inp2 r2 t2 | Some nx \<Rightarrow> ?G r2"
      using a h G by (cases c) (simp_all add: round_ok_def input_plain_def)
  qed
qed

text \<open>A run that commits has not failed.\<close>

lemma commit_closes:
  assumes h: "honest r" and c: "committing r" "awaiting_input r" and l: "run_loop diag specs inp r t = Inr (nx, r', t')"
  shows "nx = Next_Finished \<and> r_phase r' = Closed \<and> (\<forall>key failure. rep_verdict (r_report r') \<noteq> Verdict_Failed key failure)"
proof -
  let ?ok = "\<lambda>v. \<forall>key failure. v \<noteq> Verdict_Failed key failure"
  let ?P = "\<lambda>inp1 r1 t1. committing r1 \<and> awaiting_input r1 \<and> r_verdict r1 = Some Verdict_Succeeded \<or>
    r_phase r1 = Closing \<and> (\<exists>v. r_verdict r1 = Some v \<and> ?ok v)"
  show ?thesis
  proof (rule run_loop_rule [OF l, of ?P "\<lambda>nx r1 t1. nx = Next_Finished \<and> r_phase r1 = Closed \<and> ?ok (rep_verdict (r_report r1))"])
    show "?P inp r t" using h c by (auto simp: honest_def committing_def split: phase.splits)
    fix inp1 r1 t1 c r2 t2 inp2
    assume P: "?P inp1 r1 t1" and x: "one_round diag specs inp1 r1 t1 = Inr (c, r2, t2, inp2)"
    show "case c of None \<Rightarrow> ?P inp2 r2 t2 | Some nx \<Rightarrow> nx = Next_Finished \<and> r_phase r2 = Closed \<and> ?ok (rep_verdict (r_report r2))"
    proof (cases "r_phase r1 = Closing")
      case True
      with P have "\<exists>v. r_verdict r1 = Some v \<and> ?ok v" by (auto simp: committing_def)
      with x True show ?thesis
        by (auto simp: one_round_def round_closing_def Let_def call_def split: option.splits)
    next
      case False
      with P have r1: "committing r1" "awaiting_input r1" "r_verdict r1 = Some Verdict_Succeeded" by auto
      then obtain reclaim where ph: "r_phase r1 = Committing_Phase True reclaim"
        by (auto simp: committing_def awaiting_input_def split: phase.splits)
      with x obtain oc where oc: "inp1 = Some (Input_Done oc)"
        by (auto simp: one_round_def round_committed_def split: option.splits input.splits)
      have v: "\<exists>v. r_verdict (committed_verdict (r1\<lparr>r_acting := None\<rparr>) oc) = Some v \<and> ?ok v"
        using r1(3) by (auto simp: committed_verdict_def get_or_insert_def Let_def split: sum.split failure.split)
      from x ph oc have "c = None \<and> r2 = (committed_verdict (r1\<lparr>r_acting := None\<rparr>) oc)\<lparr>r_phase := Closing\<rparr>"
        by (auto simp: one_round_def round_committed_def again_def dest!: acted_runner)
      with v show ?thesis by simp
    qed
  qed
qed

end
