(* ===== verification/Crash_Laws.thy ===== *)
theory Crash_Laws
  imports Drive_Safety Runner_Debt
begin

text \<open>
  Why a request that is cut off can be brought back. The locale \<open>crash_laws\<close> adds to \<open>undo_laws\<close> what a machine
  must promise when it is not known whether an action, or an undo action, was done; inside it the
  journal and the machine together keep an account: what the records say is still to be undone
  brings the machine back to where the request began.
\<close>

section \<open>Journals that say what is to be undone\<close>

text \<open>The undo actions that the records confirm, in the order they are to be performed.\<close>

definition confirmed_undos :: "journal_record list \<Rightarrow> action list" where
  "confirmed_undos recs = concat (rev (map snd (confirmed recs)))"

text \<open>No announcement is open, nothing is committed, and the numbers of actions are below \<open>seq\<close>.\<close>

definition closed_below :: "nat \<Rightarrow> journal_record list \<Rightarrow> bool" where
  "closed_below seq recs \<longleftrightarrow>
     Ended \<notin> set recs \<and> Committing \<notin> set recs \<and> failed_seqs recs = {} \<and>
     (\<forall>s \<in> fst ` set (confirmed recs). s < seq) \<and>
     (\<forall>s undo. Prepared s undo \<in> set recs \<longrightarrow> s \<in> fst ` set (confirmed recs))"

lemma confirmed_append: "confirmed (recs @ added) = snd (fold confirmed_step added (fold confirmed_step recs ([], [])))"
  by (simp add: confirmed_def)

lemma confirmed_prepared: "confirmed (recs @ [Prepared seq undo]) = confirmed recs"
  by (simp add: confirmed_def confirmed_step_def split_beta)

lemma confirmed_done: "confirmed (recs @ [Prepared seq undo, Done seq]) = confirmed recs @ [(seq, undo)]"
proof -
  have "find (\<lambda>p. fst p = seq) (filter (\<lambda>p. fst p \<noteq> seq) ps @ [(seq, undo)]) = Some (seq, undo)" for ps :: "(nat \<times> action list) list"
    by (induction ps) auto
  then show ?thesis by (simp add: confirmed_def confirmed_step_def split_beta)
qed

lemma confirmed_other: "(case rec of Prepared _ _ \<Rightarrow> False | Done _ \<Rightarrow> False | Settled _ _ \<Rightarrow> False | _ \<Rightarrow> True) \<Longrightarrow>
    confirmed (recs @ [rec]) = confirmed recs"
  by (cases rec) (simp_all add: confirmed_def confirmed_step_def split_beta)

lemma failed_seqs_append: "failed_seqs (recs @ added) = failed_seqs recs \<union> failed_seqs added"
  by (simp add: failed_seqs_def List.map_filter_def)

lemma reverted_append: "reverted_actions (recs @ added) = reverted_actions recs @ reverted_actions added"
  by (simp add: reverted_actions_def List.map_filter_def)

lemma closed_below_mono: "closed_below k recs \<Longrightarrow> k \<le> l \<Longrightarrow> closed_below l recs"
  by (auto simp: closed_below_def)

lemma closed_done: "closed_below seq recs \<Longrightarrow> closed_below (Suc seq) (recs @ [Prepared seq undo, Done seq])"
  by (auto simp: closed_below_def confirmed_done failed_seqs_append failed_seqs_def List.map_filter_def)

lemma closed_reverted: "closed_below seq recs \<Longrightarrow> closed_below seq (recs @ [Reverted a])"
  using confirmed_reverts [of recs "[a]"] by (auto simp: closed_below_def failed_seqs_append failed_seqs_def List.map_filter_def)

lemma latest_open_closed: "(\<And>s undo. Prepared s undo \<in> set recs \<Longrightarrow> s \<in> closed) \<Longrightarrow> latest_open closed recs = []"
proof -
  assume p: "\<And>s undo. Prepared s undo \<in> set recs \<Longrightarrow> s \<in> closed"
  have "fold (\<lambda>r latest. case r of
      Prepared seq undo \<Rightarrow> if seq \<in> closed then latest else replace_or_push seq undo latest
    | _ \<Rightarrow> latest) rs s = s" if "set rs \<subseteq> set recs" for rs s
    using that by (induction rs arbitrary: s) (auto split: journal_record.split dest: p)
  then show ?thesis by (simp add: latest_open_def)
qed

lemma open_undos_closed: "closed_below seq recs \<Longrightarrow> open_undos recs = []"
proof -
  assume c: "closed_below seq recs"
  then have "latest_open (fst ` set (confirmed recs) \<union> failed_seqs recs) recs = []"
    by (intro latest_open_closed) (auto simp: closed_below_def)
  then show ?thesis by (simp add: open_undos_def)
qed

lemma latest_open_prepared:
  assumes "closed_below seq recs"
  shows "latest_open (fst ` set (confirmed recs) \<union> failed_seqs (recs @ [Prepared seq undo])) (recs @ [Prepared seq undo]) = [(seq, undo)]"
proof -
  let ?c = "fst ` set (confirmed recs)"
  have "latest_open ?c recs = []" using assms by (intro latest_open_closed) (auto simp: closed_below_def)
  moreover have "seq \<notin> ?c" using assms by (auto simp: closed_below_def)
  ultimately have "latest_open ?c (recs @ [Prepared seq undo]) = [(seq, undo)]" by (simp add: latest_open_def)
  moreover have "failed_seqs (recs @ [Prepared seq undo]) = {}"
    using assms by (simp add: closed_below_def failed_seqs_append failed_seqs_def List.map_filter_def)
  ultimately show ?thesis by simp
qed

section \<open>What a recovery makes of them\<close>

lemma still_none: "still undo [] = (undo, [])"
  by (induction undo) (simp_all add: Let_def)

lemma still_all_none: "still_all undos [] = (undos, [])"
  by (induction undos) (simp_all add: still_none Let_def)

lemma plain_id: "\<forall>a \<in> set as. \<not> is_sync a \<Longrightarrow> plain as = as"
  by (simp add: plain_def filter_id_conv)

lemma map_plain_id: "\<forall>a \<in> set (concat undos). \<not> is_sync a \<Longrightarrow> map plain undos = undos"
  by (induction undos) (simp_all add: plain_id)

lemma still_subset: "set (fst (still undo reverted)) \<subseteq> set undo"
proof (induction undo arbitrary: reverted)
  case (Cons a undo)
  show ?case
  proof (cases "find_index (\<lambda>r. r = a) reverted")
    case None
    with Cons [of reverted] show ?thesis by (auto simp: Let_def split_beta simp del: find_index_None)
  next
    case (Some i)
    with Cons [of "swap_remove i reverted"] show ?thesis by auto
  qed
qed simp

lemma still_all_subset: "set (concat (fst (still_all undos reverted))) \<subseteq> set (concat undos)"
proof (induction undos arbitrary: reverted)
  case (Cons undo undos)
  obtain kept r1 where k: "still undo reverted = (kept, r1)" by (metis surj_pair)
  obtain rest r2 where r: "still_all undos r1 = (rest, r2)" by (metis surj_pair)
  from still_subset [of undo reverted] Cons [of r1] k r show ?case by auto
qed simp

lemma distinct_concat_rev: "distinct (concat (rev xss)) = distinct (concat xss)"
  by (induction xss) auto

text \<open>The undo actions of the journal that no \<open>Reverted\<close> record accounts for.\<close>

lemma still_open:
  assumes undos: "\<forall>a \<in> set (concat undos). \<not> is_sync a" and some: "concat (rev undos) = reverted @ rest"
    and d: "reverted = [] \<or> distinct (concat undos)"
  shows "concat (rev (fst (still_all undos reverted))) = rest" "snd (still_all undos reverted) = [] \<or> reverted \<noteq> []"
proof -
  show "snd (still_all undos reverted) = [] \<or> reverted \<noteq> []" by (auto simp: still_all_none)
  show "concat (rev (fst (still_all undos reverted))) = rest"
  proof (cases "reverted = []")
    case True
    with some show ?thesis by (simp add: still_all_none)
  next
    case False
    with d have dist: "distinct (concat undos)" by simp
    obtain kept r' where k: "still_all undos reverted = (kept, r')" by (metis surj_pair)
    have "plain (concat undos) = concat undos" using undos by (rule plain_id)
    with still_all_plain [OF _ k] dist have "map plain kept = map (\<lambda>undo. filter (\<lambda>a. a \<notin> set reverted) (plain undo)) undos" by simp
    moreover have "map plain kept = kept"
      using still_all_subset [of undos reverted] undos k by (intro map_plain_id) auto
    moreover have "map (\<lambda>undo. filter (\<lambda>a. a \<notin> set reverted) (plain undo)) undos = map (filter (\<lambda>a. a \<notin> set reverted)) undos"
      using undos by (intro map_cong) (auto simp: plain_id)
    ultimately have "kept = map (filter (\<lambda>a. a \<notin> set reverted)) undos" by simp
    then have "concat (rev kept) = filter (\<lambda>a. a \<notin> set reverted) (concat (rev undos))"
      by (simp add: filter_concat rev_map)
    also have "\<dots> = filter (\<lambda>a. a \<notin> set reverted) rest" by (simp add: some)
    also have "\<dots> = rest"
    proof -
      from dist have "distinct (concat (rev undos))" by (simp only: distinct_concat_rev)
      then have "distinct (reverted @ rest)" by (simp only: some)
      then show ?thesis by (auto simp: filter_id_conv)
    qed
    finally show ?thesis using k by simp
  qed
qed

text \<open>A recovery, for a journal that is closed, or that ends with an announcement.\<close>

lemma recover_closed:
  assumes c: "closed_below seq recs" and undos: "\<forall>a \<in> set (confirmed_undos recs). \<not> is_sync a"
    and some: "confirmed_undos recs = reverted_actions recs @ debt"
    and d: "reverted_actions recs = [] \<or> distinct (concat (map snd (confirmed recs)))"
  shows "recover recs = (if debt = [] then Recovery_Nothing else Recovery_RollBack [] debt)"
proof -
  let ?C = "map snd (confirmed recs)" and ?R = "reverted_actions recs"
  have u: "\<forall>a \<in> set (concat ?C). \<not> is_sync a" using undos by (simp add: confirmed_undos_def)
  note s = still_open(1) [OF u some [unfolded confirmed_undos_def] d]
  obtain journal r' where j: "still_all ?C ?R = (journal, r')" by (metis surj_pair)
  have "rollback_order journal = debt"
    using rollback_order_no_syncs [of journal] still_all_subset [of ?C ?R] u s j by fastforce
  moreover have "latest_open (fst ` set (confirmed recs) \<union> failed_seqs recs) recs = []"
    using c by (intro latest_open_closed) (auto simp: closed_below_def)
  ultimately show ?thesis using c j by (simp add: recover_def closed_below_def Let_def)
qed

lemma recover_prepared:
  assumes c: "closed_below seq recs" and undos: "\<forall>a \<in> set (confirmed_undos recs) \<union> set undo. \<not> is_sync a"
    and r: "reverted_actions recs = []"
  shows "recover (recs @ [Prepared seq undo]) =
    (if undo = [] \<and> confirmed_undos recs = [] then Recovery_Nothing else Recovery_RollBack undo (confirmed_undos recs))"
proof -
  let ?recs = "recs @ [Prepared seq undo]"
  note o = latest_open_prepared [OF c, of undo]
  have rev: "reverted_actions ?recs = []" using r by (simp add: reverted_append reverted_actions_def List.map_filter_def)
  have "rollback_order (map snd (confirmed recs)) = confirmed_undos recs"
    unfolding confirmed_undos_def using undos by (intro rollback_order_no_syncs) (auto simp: confirmed_undos_def)
  moreover have "rollback_order [undo] = undo" using undos by (simp add: rollback_order_no_syncs)
  moreover have "Ended \<notin> set ?recs" "Committing \<notin> set ?recs" using c by (auto simp: closed_below_def)
  ultimately show ?thesis
    using o rev by (simp add: recover_def Let_def still_all_none confirmed_prepared)
qed

section \<open>Machines that can be recovered\<close>

text \<open>
  \<open>lock\<close> is what the request does to the machine when it takes it, \<open>relock\<close> what the recovery does. The
  undo actions of an action that was not done do nothing, and an undo action that is done again, on a
  machine that is \<open>sane\<close>, leaves what it has done.
\<close>

locale crash_laws = undo_laws step inv fits backward same
  for step :: "action \<Rightarrow> 's \<Rightarrow> outcome_of \<times> 's"
    and inv :: "'s \<Rightarrow> bool" and fits :: "action \<Rightarrow> 's \<Rightarrow> bool"
    and backward :: "action \<Rightarrow> bool" and same :: "'s \<Rightarrow> 's \<Rightarrow> bool" +
  fixes lock :: "'s \<Rightarrow> 's" and relock :: "'s \<Rightarrow> 's" and sane :: "'s \<Rightarrow> bool"
  assumes inv_sane: "inv s \<Longrightarrow> sane s" and lock_sane: "sane s \<Longrightarrow> sane (lock s)"
    and backward_sane: "backward u \<Longrightarrow> sane s \<Longrightarrow> sane (snd (step u s))"
    and inv_locked: "inv s \<Longrightarrow> lock s = s"
    and lock_same: "same (lock s) s" and lock_twice: "lock (lock s) = lock s"
    and relock_same: "same (relock s) s" and relock_twice: "relock (relock s) = relock s"
    and backward_plain: "backward u \<Longrightarrow> \<not> is_sync u \<and> u \<noteq> Commit"
    and fits_plain: "fits a s \<Longrightarrow> a \<noteq> Commit"
    and idle: "inv s \<Longrightarrow> fits a s \<Longrightarrow> step a s = (Inr undo, s') \<Longrightarrow> u \<in> set undo \<Longrightarrow> snd (step u (relock s)) = relock s"
    and repeated: "backward u \<Longrightarrow> sane s \<Longrightarrow> step u s = (Inr us, s') \<Longrightarrow> step u s' = (Inr us', s'') \<Longrightarrow> same s'' s'"
begin

text \<open>A host whose machine is the one of the locale, and whose journal always takes a record.\<close>

definition serves :: "('s \<Rightarrow> 's) \<Rightarrow> 's modelled host \<Rightarrow> bool" where
  "serves taking h \<longleftrightarrow> h_perform h = perform_modelled taking step \<and> h_append h = append_record \<and>
     (\<forall>queries m. snd (h_observe h queries m) = m\<lparr>md_world := taking (md_world m)\<rparr>)"

definition brings_back :: "'s \<Rightarrow> 's \<Rightarrow> action list \<Rightarrow> bool" where
  "brings_back w0 w debt \<longleftrightarrow> (\<exists>us w'. run_all step debt w = (Inr us, w') \<and> same w' w0)"

lemma brings_back_same:
  assumes "brings_back w0 w debt" "same w v" "\<forall>u \<in> set debt. backward u"
  shows "brings_back w0 v debt"
proof -
  from assms(1) obtain us w' where w': "run_all step debt w = (Inr us, w')" "same w' w0" by (auto simp: brings_back_def)
  from run_same [OF assms(3,2) w'(1)] obtain v' where "run_all step debt v = (Inr us, v')" "same w' v'" by blast
  with same_trans [OF same_sym [OF \<open>same w' v'\<close>] w'(2)] show ?thesis unfolding brings_back_def by blast
qed

lemma brings_back_done:
  assumes "brings_back w0 w debt" "inv w" "fits a w" "step a w = (Inr undo, w')" "\<forall>u \<in> set debt. backward u"
  shows "brings_back w0 w' (undo @ debt)"
proof -
  from step_undone [OF assms(2-4)] obtain vs w2 where u: "run_all step undo w' = (Inr vs, w2)" "same w2 w" by blast
  from brings_back_same [OF assms(1) same_sym [OF u(2)] assms(5)] u(1) show ?thesis
    by (auto simp: brings_back_def run_all_append)
qed

text \<open>The machine and its journal: what is still to be undone brings the machine back to \<open>w0\<close>.\<close>

definition in_books :: "'s \<Rightarrow> bool \<Rightarrow> 's modelled \<Rightarrow> action list \<Rightarrow> nat \<Rightarrow> bool" where
  "in_books w0 forward m debt seq \<longleftrightarrow>
     closed_below seq (md_records m) \<and>
     confirmed_undos (md_records m) = reverted_actions (md_records m) @ debt \<and>
     (\<forall>u \<in> set (confirmed_undos (md_records m)). backward u) \<and>
     sane (md_world m) \<and> brings_back w0 (md_world m) debt \<and>
     (forward \<longrightarrow> inv (md_world m) \<and> reverted_actions (md_records m) = [])"

lemma debt_backward: "in_books w0 forward m debt seq \<Longrightarrow> \<forall>u \<in> set debt. backward u"
  by (simp add: in_books_def)

lemma books_later: "in_books w0 forward m debt seq \<Longrightarrow> seq \<le> seq' \<Longrightarrow> in_books w0 forward m debt seq'"
  using closed_below_mono by (auto simp: in_books_def)

lemma books_backward: "in_books w0 forward m debt seq \<Longrightarrow> in_books w0 False m debt seq"
  by (simp add: in_books_def)

lemma books_faults [simp]: "in_books w0 forward (m\<lparr>md_faults := faults\<rparr>) debt seq = in_books w0 forward m debt seq"
  by (simp add: in_books_def)

lemma books_same:
  "in_books w0 forward m debt seq \<Longrightarrow> forward \<longrightarrow> w = md_world m \<Longrightarrow> same (md_world m) w \<Longrightarrow> sane w \<Longrightarrow>
   in_books w0 forward (m\<lparr>md_world := w\<rparr>) debt seq"
  using brings_back_same [of w0 "md_world m" debt w] debt_backward [of w0 forward m debt seq] by (auto simp: in_books_def)

lemma books_locked: "in_books w0 forward m debt seq \<Longrightarrow> in_books w0 forward (m\<lparr>md_world := lock (md_world m)\<rparr>) debt seq"
  using inv_locked lock_same same_sym lock_sane by (intro books_same) (auto simp: in_books_def)

lemma books_done:
  assumes b: "in_books w0 True m debt seq" and a: "fits a (md_world m)" "step a (md_world m) = (Inr undo, w')"
  shows "in_books w0 True (m\<lparr>md_world := w', md_records := md_records m @ [Prepared seq undo, Done seq]\<rparr>) (undo @ debt) (Suc seq)"
proof -
  let ?w = "md_world m" and ?recs = "md_records m" and ?recs' = "md_records m @ [Prepared seq undo, Done seq]"
  from b have inv: "inv ?w" "reverted_actions ?recs = []" "closed_below seq ?recs" "\<forall>u \<in> set (confirmed_undos ?recs). backward u"
    "confirmed_undos ?recs = debt" "brings_back w0 ?w debt" by (simp_all add: in_books_def)
  from brings_back_done [OF inv(6,1) a debt_backward [OF b]] have "brings_back w0 w' (undo @ debt)" .
  moreover have "confirmed_undos ?recs' = undo @ debt" using inv(5) by (simp add: confirmed_undos_def confirmed_done)
  moreover have "\<forall>u \<in> set undo. backward u" using step_backward [OF a] by blast
  moreover have "reverted_actions ?recs' = []" using inv(2) by (simp add: reverted_append reverted_actions_def List.map_filter_def)
  moreover have "inv w'" by (rule step_inv [OF inv(1) a])
  ultimately show ?thesis using inv closed_done [OF inv(3)] inv_sane by (auto simp: in_books_def)
qed

lemma books_undone:
  assumes b: "in_books w0 forward m (u # debt) seq" and u: "step u (md_world m) = (Inr us, w')"
  shows "in_books w0 False (m\<lparr>md_world := w', md_records := md_records m @ [Reverted u]\<rparr>) debt seq"
proof -
  have "brings_back w0 w' debt" using b u by (auto simp: in_books_def brings_back_def run_all_Cons)
  moreover have "confirmed_undos (md_records m @ [Reverted u]) = confirmed_undos (md_records m)"
    using confirmed_reverts [of "md_records m" "[u]"] by (simp add: confirmed_undos_def)
  moreover have "reverted_actions (md_records m @ [Reverted u]) = reverted_actions (md_records m) @ [u]"
    using reverted_reverts [of "md_records m" "[u]"] by simp
  moreover have "sane w'" using backward_sane [of u "md_world m"] debt_backward [OF b] b u by (simp add: in_books_def)
  ultimately show ?thesis using b closed_reverted by (simp add: in_books_def)
qed

section \<open>Recovering\<close>

lemma quietly_modelled:
  assumes h: "serves relock h" and m: "md_faults m = None"
  shows "quietly h u m = (case step u (relock (md_world m)) of
      (Inl failure, _) \<Rightarrow> (Some (Inl failure), m\<lparr>md_world := relock (md_world m)\<rparr>)
    | (Inr undo, w') \<Rightarrow> (Some (Inr undo), m\<lparr>md_world := w'\<rparr>))"
proof -
  have m1: "m\<lparr>md_faults := None\<rparr> = m" using m by (cases m) simp
  obtain oc w' where s: "step u (relock (md_world m)) = (oc, w')" by (metis surj_pair)
  with h m m1 relock_twice show ?thesis
    by (cases oc) (simp_all add: quietly_def serves_def perform_modelled_def Let_def)
qed

lemma append_modelled: "serves taking h \<Longrightarrow> h_append h rec m = (None, m\<lparr>md_records := md_records m @ [rec]\<rparr>)"
  by (simp add: serves_def append_record_def)

lemma relocked_step:
  assumes "backward u" "same s w" "step u s = (Inr us, s')"
  obtains t where "step u (relock w) = (Inr us, t)" "same s' t"
  using backward_same [OF assms(1) same_trans [OF assms(2) same_sym [OF relock_same]] assms(3)] by blast

lemma certain_runs:
  "serves relock h \<Longrightarrow> md_faults m = None \<Longrightarrow> \<forall>u \<in> set as. backward u \<Longrightarrow>
   run_all step as s = (Inr us, s') \<Longrightarrow> same s (md_world m) \<Longrightarrow>
   \<exists>m'. recover_certain h as m rc = Goes m' rc \<and> same s' (md_world m')"
proof (induction as arbitrary: m us s)
  case (Cons a as)
  from Cons.prems(4) obtain u us' s1 where s: "step a s = (Inr u, s1)" "run_all step as s1 = (Inr us', s')"
    by (auto simp: run_all_Cons)
  from Cons.prems(3) obtain t where t: "step a (relock (md_world m)) = (Inr u, t)" "same s1 t"
    using relocked_step [OF _ Cons.prems(5) s(1)] by auto
  let ?m = "m\<lparr>md_world := t, md_records := md_records m @ [Reverted a]\<rparr>"
  from Cons.IH [of ?m s1 us'] Cons.prems(1-3) s(2) t(2) obtain m' where
    "recover_certain h as ?m rc = Goes m' rc" "same s' (md_world m')" by auto
  then show ?case
    using quietly_modelled [OF Cons.prems(1,2), of a] t(1) append_modelled [OF Cons.prems(1)] by simp
qed simp

lemma uncertain_runs:
  "serves relock h \<Longrightarrow> md_faults m = None \<Longrightarrow> \<forall>u \<in> set as. backward u \<Longrightarrow>
   run_all step as s = (Inr us, s') \<Longrightarrow> same s (md_world m) \<Longrightarrow>
   \<exists>m'. recover_uncertain h as m rc = Goes m' rc \<and> same s' (md_world m') \<and> md_faults m' = None"
proof (induction as arbitrary: m us s)
  case (Cons a as)
  from Cons.prems(4) obtain u us' s1 where s: "step a s = (Inr u, s1)" "run_all step as s1 = (Inr us', s')"
    by (auto simp: run_all_Cons)
  from Cons.prems(3) obtain t where t: "step a (relock (md_world m)) = (Inr u, t)" "same s1 t"
    using relocked_step [OF _ Cons.prems(5) s(1)] by auto
  let ?m = "m\<lparr>md_world := t, md_records := md_records m @ [Reverted a]\<rparr>"
  from Cons.IH [of ?m s1 us'] Cons.prems(1-3) s(2) t(2) obtain m' where
    "recover_uncertain h as ?m rc = Goes m' rc" "same s' (md_world m')" "md_faults m' = None" by auto
  then show ?case
    using quietly_modelled [OF Cons.prems(1,2), of a] t(1) append_modelled [OF Cons.prems(1)] by simp
qed simp

lemma uncertain_idle:
  "serves relock h \<Longrightarrow> md_faults m = None \<Longrightarrow> \<forall>u \<in> set as. snd (step u (relock w)) = relock w \<Longrightarrow>
   relock (md_world m) = relock w \<Longrightarrow> same w (md_world m) \<Longrightarrow>
   \<exists>m'. recover_uncertain h as m rc = Goes m' rc \<and> same w (md_world m') \<and> md_faults m' = None"
proof (induction as arbitrary: m)
  case (Cons a as)
  note q = quietly_modelled [OF Cons.prems(1,2), of a] and app = append_modelled [OF Cons.prems(1)]
  have w: "snd (step a (relock w)) = relock w" using Cons.prems(3) by simp
  have r: "same w (relock w)" using relock_same same_sym by blast
  show ?case
  proof (cases "fst (step a (relock w))")
    case (Inl failure)
    then have "step a (relock w) = (Inl failure, relock w)" using w by (metis prod.collapse)
    with q Cons.IH [of "m\<lparr>md_world := relock w\<rparr>"] Cons.prems r relock_twice show ?thesis by simp
  next
    case (Inr undo)
    then have s: "step a (relock w) = (Inr undo, relock w)" using w by (metis prod.collapse)
    let ?m = "m\<lparr>md_world := relock w, md_records := md_records m @ [Reverted a]\<rparr>"
    from Cons.IH [of ?m] Cons.prems r relock_twice have
      "\<exists>m'. recover_uncertain h as ?m rc = Goes m' rc \<and> same w (md_world m') \<and> md_faults m' = None"
      by simp
    with q s app Cons.prems(4) show ?thesis by simp
  qed
qed simp

end

section \<open>What can be recovered\<close>

text \<open>
  A recovery brings the machine back to \<open>w0\<close>. At most one undo action is reported as failed: the one
  that had been done when the process was killed, and is refused when it is done again. Undo actions
  that are the same cannot be told apart in the journal, so once one was done they are all different.
\<close>

context crash_laws
begin

definition recoverable :: "'s \<Rightarrow> 's modelled \<Rightarrow> bool" where
  "recoverable w0 m \<longleftrightarrow>
     (\<forall>h rc. serves relock h \<longrightarrow> reverted_actions (md_records m) = [] \<or> distinct (confirmed_undos (md_records m)) \<longrightarrow>
        (\<exists>fs m'. recover_records h (md_records m) (m\<lparr>md_faults := None\<rparr>) rc =
             (Some (fs = [], rc\<lparr>rc_failures := rc_failures rc @ fs\<rparr>), m') \<and>
           length fs \<le> 1 \<and> same (md_world m') w0))"

lemma recovered_all:
  assumes h: "serves relock h" and m: "md_faults m = None" and b: "brings_back w0 w debt" "same w (md_world m)"
    and d: "\<forall>u \<in> set debt. backward u"
  shows "\<exists>m'. recover_certain h debt m rc = Goes m' rc \<and> same (md_world m') w0"
proof -
  from b(1) obtain us w' where w': "run_all step debt w = (Inr us, w')" "same w' w0" by (auto simp: brings_back_def)
  from certain_runs [OF h m d w'(1) b(2)] obtain m' where m': "recover_certain h debt m rc = Goes m' rc" "same w' (md_world m')" by blast
  with same_trans [OF same_sym [OF m'(2)] w'(2)] show ?thesis by blast
qed

lemma recover_in_books:
  assumes b: "in_books w0 forward m debt seq" and d: "reverted_actions (md_records m) = [] \<or> distinct (confirmed_undos (md_records m))"
  shows "recover (md_records m) = (if debt = [] then Recovery_Nothing else Recovery_RollBack [] debt)"
proof (rule recover_closed [of seq])
  show "closed_below seq (md_records m)" "confirmed_undos (md_records m) = reverted_actions (md_records m) @ debt"
    using b by (simp_all add: in_books_def)
  have "\<forall>u \<in> set (confirmed_undos (md_records m)). backward u" using b unfolding in_books_def by blast
  then show "\<forall>a \<in> set (confirmed_undos (md_records m)). \<not> is_sync a" using backward_plain by blast
  show "reverted_actions (md_records m) = [] \<or> distinct (concat (map snd (confirmed (md_records m))))"
    using d unfolding confirmed_undos_def by (simp only: distinct_concat_rev)
qed

lemma rc_none [simp]: "rc\<lparr>rc_failures := rc_failures rc @ []\<rparr> = rc"
  by simp

lemma recoverable_books:
  assumes b: "in_books w0 forward m debt seq"
  shows "recoverable w0 m"
  unfolding recoverable_def
proof (intro allI impI)
  fix h rc assume h: "serves relock h" and d: "reverted_actions (md_records m) = [] \<or> distinct (confirmed_undos (md_records m))"
  note r = recover_in_books [OF b d]
  let ?m = "m\<lparr>md_faults := None\<rparr>"
  have "brings_back w0 (md_world m) debt" using b by (simp add: in_books_def)
  from recovered_all [OF h _ this _ debt_backward [OF b], of ?m rc] same_refl obtain m' where
    "recover_certain h debt ?m rc = Goes m' rc" "same (md_world m') w0" by auto
  then have "recover_records h (md_records m) ?m rc = (Some (True, rc), m') \<and> same (md_world m') w0"
    by (cases debt) (simp_all add: recover_records_def r Let_def)
  then have "recover_records h (md_records m) ?m rc = (Some ([] = [], rc\<lparr>rc_failures := rc_failures rc @ []\<rparr>), m') \<and>
    length [] \<le> 1 \<and> same (md_world m') w0" by simp
  then show "\<exists>fs m'. recover_records h (md_records m) ?m rc = (Some (fs = [], rc\<lparr>rc_failures := rc_failures rc @ fs\<rparr>), m') \<and>
    length fs \<le> 1 \<and> same (md_world m') w0" by blast
qed

lemma recoverable_announced:
  assumes b: "in_books w0 True m debt seq" and a: "fits a (md_world m)" "step a (md_world m) = (Inr undo, w')"
    and v: "v = md_world m \<or> v = w'"
  shows "recoverable w0 (m\<lparr>md_world := v, md_records := md_records m @ [Prepared seq undo]\<rparr>)" (is "recoverable w0 ?cut")
  unfolding recoverable_def
proof (intro allI impI)
  fix h rc assume h: "serves relock h" and "reverted_actions (md_records ?cut) = [] \<or> distinct (confirmed_undos (md_records ?cut))"
  let ?m = "?cut\<lparr>md_faults := None\<rparr>" and ?w = "md_world m"
  from b have i: "inv ?w" "closed_below seq (md_records m)" "confirmed_undos (md_records m) = debt" "reverted_actions (md_records m) = []"
    "brings_back w0 ?w debt" by (simp_all add: in_books_def)
  have bw: "\<forall>u \<in> set undo. backward u" using step_backward [OF a] by blast
  have "\<not> is_sync x" if "x \<in> set (confirmed_undos (md_records m)) \<union> set undo" for x
    using that bw debt_backward [OF b] i(3) backward_plain by blast
  then have r: "recover (md_records m @ [Prepared seq undo]) =
      (if undo = [] \<and> debt = [] then Recovery_Nothing else Recovery_RollBack undo debt)"
    using recover_prepared [OF i(2) _ i(4), of undo] i(3) by blast
  have "\<exists>m1. recover_uncertain h undo ?m rc = Goes m1 rc \<and> same ?w (md_world m1) \<and> md_faults m1 = None"
  proof (cases "v = ?w")
    case True
    then show ?thesis using idle [OF i(1) a] same_refl by (intro uncertain_idle [OF h]) auto
  next
    case False
    with v have "v = w'" by simp
    from step_undone [OF i(1) a] obtain us w2 where u: "run_all step undo w' = (Inr us, w2)" "same w2 ?w" by blast
    from uncertain_runs [OF h _ bw u(1), of ?m rc] \<open>v = w'\<close> same_refl obtain m1 where
      m1: "recover_uncertain h undo ?m rc = Goes m1 rc" "same w2 (md_world m1)" "md_faults m1 = None" by auto
    with same_trans [OF same_sym [OF u(2)] m1(2)] show ?thesis by blast
  qed
  then obtain m1 where m1: "recover_uncertain h undo ?m rc = Goes m1 rc" "same ?w (md_world m1)" "md_faults m1 = None" by blast
  from recovered_all [OF h m1(3) i(5) m1(2) debt_backward [OF b], of rc] obtain m' where
    m': "recover_certain h debt m1 rc = Goes m' rc" "same (md_world m') w0" by blast
  have "recover_records h (md_records m @ [Prepared seq undo]) ?m rc = (Some (True, rc), m') \<and> same (md_world m') w0"
    unfolding recover_records_def r Let_def using m1 m' by (cases "undo = [] \<and> debt = []") auto
  then have "recover_records h (md_records ?cut) ?m rc = (Some ([] = [], rc\<lparr>rc_failures := rc_failures rc @ []\<rparr>), m') \<and>
    length [] \<le> 1 \<and> same (md_world m') w0" by auto
  then show "\<exists>fs m'. recover_records h (md_records ?cut) ?m rc = (Some (fs = [], rc\<lparr>rc_failures := rc_failures rc @ fs\<rparr>), m') \<and>
    length fs \<le> 1 \<and> same (md_world m') w0" by blast
qed

lemma recoverable_undone:
  assumes b: "in_books w0 forward m (u # debt) seq" and u: "step u s = (Inr us, w')" "same (md_world m) s" "sane s"
  shows "recoverable w0 (m\<lparr>md_world := w'\<rparr>)" (is "recoverable w0 ?cut")
  unfolding recoverable_def
proof (intro allI impI)
  fix h rc assume h: "serves relock h"
    and d: "reverted_actions (md_records ?cut) = [] \<or> distinct (confirmed_undos (md_records ?cut))"
  let ?m = "?cut\<lparr>md_faults := None\<rparr>"
  have bw: "backward u" "\<forall>u \<in> set debt. backward u" using debt_backward [OF b] by simp_all
  have "brings_back w0 s (u # debt)"
    using brings_back_same [OF _ u(2)] b debt_backward [OF b] by (simp add: in_books_def)
  with u(1) have w': "brings_back w0 w' debt" by (auto simp: brings_back_def run_all_Cons)
  have r: "recover (md_records m) = Recovery_RollBack [] (u # debt)" using recover_in_books [OF b] d by simp
  note q = quietly_modelled [OF h, of ?m u] and app = append_modelled [OF h]
  have rl: "same w' (relock w')" using relock_same same_sym by blast
  show "\<exists>fs m'. recover_records h (md_records ?cut) ?m rc = (Some (fs = [], rc\<lparr>rc_failures := rc_failures rc @ fs\<rparr>), m') \<and>
    length fs \<le> 1 \<and> same (md_world m') w0"
  proof (cases "step u (relock w')")
    case (Pair oc t)
    show ?thesis
    proof (cases oc)
      case (Inl failure)
      let ?rc = "rc\<lparr>rc_failures := rc_failures rc @ [(u, failure)]\<rparr>"
      from recovered_all [OF h _ w' _ bw(2), of "?m\<lparr>md_world := relock w'\<rparr>" ?rc] rl obtain m' where
        "recover_certain h debt (?m\<lparr>md_world := relock w'\<rparr>) ?rc = Goes m' ?rc" "same (md_world m') w0" by auto
      with q Pair Inl have "recover_records h (md_records ?cut) ?m rc = (Some ([(u, failure)] = [], ?rc), m') \<and>
        length [(u, failure)] \<le> 1 \<and> same (md_world m') w0"
        by (simp add: recover_records_def r Let_def failing_def)
      then show ?thesis by blast
    next
      case (Inr vs)
      from backward_same [OF bw(1) relock_same Pair [unfolded Inr]] obtain s'' where
        s'': "step u w' = (Inr vs, s'')" "same t s''" by blast
      with repeated [OF bw(1) u(3,1) s''(1)] have "same t w'" using same_trans by blast
      let ?m1 = "?m\<lparr>md_world := t, md_records := md_records m @ [Reverted u]\<rparr>"
      from recovered_all [OF h _ w' _ bw(2), of ?m1 rc] same_sym [OF \<open>same t w'\<close>] obtain m' where
        "recover_certain h debt ?m1 rc = Goes m' rc" "same (md_world m') w0" by auto
      with q Pair Inr app have "recover_records h (md_records ?cut) ?m rc = (Some ([] = [], rc\<lparr>rc_failures := rc_failures rc @ []\<rparr>), m') \<and>
        length [] \<le> 1 \<and> same (md_world m') w0"
        by (simp add: recover_records_def r Let_def)
      then show ?thesis by blast
    qed
  qed
qed

end

end
