(* ===== verification/Crash_Rounds.thy ===== *)
theory Crash_Rounds
  imports Crash_Laws
begin

text \<open>
  The rounds of a driver on a machine of \<open>crash_laws\<close>: at every moment the books are kept, so that the
  request can be brought back whenever it is killed, and a run that fails has brought itself back.
\<close>

section \<open>Performing on a model machine\<close>

text \<open>A test that lets an action fail.\<close>

definition injected :: "faults \<Rightarrow> bool" where
  "injected faults \<longleftrightarrow> (\<exists>n failure. faults = Some (n, Fault_Fail failure))"

lemma next_fault_injected: "\<not> injected faults \<Longrightarrow> \<not> injected (snd (next_fault faults)) \<and> fst (next_fault faults) \<noteq> Some (Fault_Fail f)"
  by (cases faults rule: next_fault.cases) (auto simp: injected_def)

lemma perform_modelled_cases:
  fixes step :: "action \<Rightarrow> 's \<Rightarrow> outcome_of \<times> 's" and taking :: "'s \<Rightarrow> 's"
  assumes h: "h_perform h = perform_modelled taking step" "h_append h = append_record" and twice: "taking (taking (md_world m)) = taking (md_world m)"
  obtains
    (failed) failure m1 where
      "performed h quiet seq (h_perform h a sh m) None [] = (Some (Inl failure), m1, None, [])"
      "md_records m1 = md_records m" "md_world m1 = md_world m \<or> md_world m1 = taking (md_world m)"
      "injected (md_faults m) \<or> fst (step a (taking (md_world m))) = Inl failure"
      "md_faults m1 = snd (next_fault (md_faults m))"
  | (killed) undo w' m1 ann ss where
      "performed h quiet seq (h_perform h a sh m) None [] = (None, m1, ann, ss)"
      "step a (taking (md_world m)) = (Inr undo, w')"
      "md_records m1 = md_records m @ (if quiet then [] else [Prepared seq undo])"
      "md_world m1 = taking (md_world m) \<or> md_world m1 = w'"
  | (performed) undo w' m1 ss where
      "performed h quiet seq (h_perform h a sh m) None [] = (Some (Inr undo), m1, if quiet then None else Some undo, ss)"
      "step a (taking (md_world m)) = (Inr undo, w')"
      "md_records m1 = md_records m @ (if quiet then [] else [Prepared seq undo])"
      "md_world m1 = w'" "md_faults m1 = snd (next_fault (md_faults m))"
proof -
  obtain fault faults where f: "next_fault (md_faults m) = (fault, faults)" by (cases "next_fault (md_faults m)")
  obtain oc w' where s: "step a (taking (md_world m)) = (oc, w')" by (cases "step a (taking (md_world m))")
  have inj: "injected (md_faults m)" if "fault = Some (Fault_Fail failure)" for failure
    using next_fault_injected [of "md_faults m" failure] f that by auto
  show thesis
  proof (cases "\<exists>failure. fault = Some (Fault_Fail failure)")
    case True
    then obtain failure where "fault = Some (Fault_Fail failure)" by blast
    with f inj show thesis
      by (intro failed [of failure "m\<lparr>md_faults := faults\<rparr>"]) (simp_all add: h perform_modelled_def)
  next
    case False
    then have k: "fault = None \<or> fault = Some Fault_CrashBefore \<or> fault = Some Fault_CrashAfter"
      using fault.exhaust by (cases fault) auto
    show thesis
    proof (cases oc)
      case (Inl failure)
      with f k s show thesis
        by (intro failed [of failure "m\<lparr>md_faults := faults, md_world := taking (md_world m)\<rparr>"])
          (auto simp: h perform_modelled_def)
    next
      case (Inr undo)
      let ?m = "m\<lparr>md_faults := faults, md_world := taking (md_world m),
        md_records := md_records m @ (if quiet then [] else [Prepared seq undo])\<rparr>"
      let ?ss = "if quiet then [] else if h_traced h then [Signal_Progress (journaled h (Prepared seq undo))] else []"
      from k show thesis
      proof (elim disjE)
        assume "fault = None"
        with f s Inr twice show thesis
          by (intro performed [of undo "?m\<lparr>md_world := w'\<rparr>" ?ss w']) (auto simp: h perform_modelled_def append_record_def Let_def)
      next
        assume "fault = Some Fault_CrashBefore"
        with f s Inr twice show thesis
          by (intro killed [of ?m "if quiet then None else Some undo" ?ss undo w'])
            (auto simp: h perform_modelled_def append_record_def Let_def)
      next
        assume "fault = Some Fault_CrashAfter"
        with f s Inr twice show thesis
          by (intro killed [of "?m\<lparr>md_world := w'\<rparr>" "if quiet then None else Some undo" ?ss undo w'])
            (auto simp: h perform_modelled_def append_record_def Let_def)
      qed
    qed
  qed
qed

text \<open>What the driver makes of it.\<close>

lemma drive_perform_steps:
  fixes a :: action and st :: "'s modelled drive_state"
  assumes h: "h_append h = append_record"
  defines "m \<equiv> if a = Commit then (dr_machine st)\<lparr>md_records := md_records (dr_machine st) @ [Committing]\<rparr> else dr_machine st"
  assumes p: "performed h (rolling_back (dr_runner st) \<or> a = Commit) (dr_seq st) (h_perform h a (shielded specs (dr_runner st)) m) None [] =
    (oc, m1, ann, ss)"
  obtains
    "oc = None" "drive_perform h specs mo a st = Drive_Crashed m1"
  | outcome acting stopping t where "oc = Some outcome"
      "drive_perform h specs mo a st = Drive_Goes (drive_done h a (rolling_back (dr_runner st)) (a = Commit) acting ann outcome
        (st\<lparr>dr_machine := m1, dr_tree := t, dr_stopping := stopping\<rparr>))"
proof -
  define acting where "acting = (case current_node (dr_runner st) of Some n \<Rightarrow> n | None \<Rightarrow> ROOT)"
  have c: "(if a = Commit then h_append h Committing (dr_machine st) else (None, dr_machine st)) = (None, m)"
    by (simp add: m_def h append_record_def)
  obtain stopping t where s: "signalled acting (cancellable specs (dr_runner st)) mo ss (dr_stopping st,
      if a = Commit \<and> h_traced h then apply_signal acting (Signal_Progress (journaled h Committing)) (dr_tree st) else dr_tree st) = (stopping, t)"
    by (metis surj_pair)
  have "drive_perform h specs mo a st = (case oc of
      None \<Rightarrow> Drive_Crashed m1
    | Some outcome \<Rightarrow> Drive_Goes (drive_done h a (rolling_back (dr_runner st)) (a = Commit) acting ann outcome
        (st\<lparr>dr_machine := m1, dr_tree := t, dr_stopping := stopping\<rparr>)))"
    unfolding drive_perform_def Let_def c case_prod_conv acting_def [symmetric] option.case p s ..
  with that show thesis by (cases oc) auto
qed

lemma keep_modelled:
  "h_append h = append_record \<Longrightarrow> fst (keep h rec node (m, t)) = m\<lparr>md_records := md_records m @ [rec]\<rparr>"
  by (simp add: keep_def append_record_def)

lemma drive_done_modelled:
  assumes "h_append h = append_record"
  shows "dr_machine (drive_done h a reverting comm acting ann oc st) = (dr_machine st)\<lparr>md_records := md_records (dr_machine st) @
      (case oc of
         Inr undo \<Rightarrow> if reverting then [Reverted a] else if comm then [Ended]
           else [if ann = Some undo then Done (dr_seq st) else Settled (dr_seq st) undo]
       | Inl _ \<Rightarrow> [])\<rparr>"
    and "dr_seq (drive_done h a reverting comm acting ann oc st) = dr_seq st + (if reverting \<or> comm then 0 else 1)"
proof -
  have k: "fst (let (m, t) = x in (m, t)) = fst x" for x :: "'a modelled \<times> tree" by (cases x) simp
  show "dr_machine (drive_done h a reverting comm acting ann oc st) = (dr_machine st)\<lparr>md_records := md_records (dr_machine st) @
      (case oc of
         Inr undo \<Rightarrow> if reverting then [Reverted a] else if comm then [Ended]
           else [if ann = Some undo then Done (dr_seq st) else Settled (dr_seq st) undo]
       | Inl _ \<Rightarrow> [])\<rparr>"
    using keep_modelled [OF assms]
    by (cases oc; cases ann) (simp_all add: drive_done_def Let_def split_beta)
  show "dr_seq (drive_done h a reverting comm acting ann oc st) = dr_seq st + (if reverting \<or> comm then 0 else 1)"
    by (cases oc; cases ann) (simp_all add: drive_done_def Let_def split_beta)
qed

section \<open>The books of a run\<close>

lemma awaits_awaiting:
  "awaits r (Next_Observe queries) \<Longrightarrow> awaiting_input r" "awaits r (Next_Perform a) \<Longrightarrow> awaiting_input r"
  by (auto simp: awaits_def awaiting_input_def split: phase.splits option.splits)

lemma stopped_books [simp]:
  "tidy good specs (stop_runner r c) = tidy good specs r" "owing specs (stop_runner r c) = owing specs r"
  "gained inp (stop_runner r c) = gained inp r" "committing (stop_runner r c) = committing r"
  "awaiting_input (stop_runner r c) = awaiting_input r" "past (stop_runner r c) = past r"
  "undo_failures (stop_runner r c) = undo_failures r" "undo_failed inp (stop_runner r c) = undo_failed inp r"
  "honest (stop_runner r c) = honest r"
proof -
  have "rollback_plan specs (stop_runner r c) = rollback_plan specs r" by (rule plan_cong) (simp_all add: stop_runner_def)
  then show "owing specs (stop_runner r c) = owing specs r"
    by (simp add: owing_def stop_runner_def pending_def undos_of_def split: phase.split)
qed (simp_all add: stop_runner_def tidy_def gained_def committing_def awaiting_input_def past_def undo_failed_def honest_def split: phase.split)

context crash_laws
begin

definition good :: "action \<Rightarrow> bool" where
  "good a \<longleftrightarrow> (\<forall>s. inv s \<longrightarrow> fits a s)"

lemma in_books_cong:
  "md_world m' = md_world m \<Longrightarrow> md_records m' = md_records m \<Longrightarrow> in_books w0 forward m' debt seq = in_books w0 forward m debt seq"
  by (simp add: in_books_def)

lemma recoverable_cong:
  assumes "md_world m' = md_world m" "md_records m' = md_records m"
  shows "recoverable w0 m' = recoverable w0 m"
proof -
  have "m'\<lparr>md_faults := None\<rparr> = m\<lparr>md_faults := None\<rparr>" using assms by (cases m; cases m') simp
  with assms(2) show ?thesis by (simp add: recoverable_def)
qed

text \<open>
  The books of a request that began at \<open>w0\<close>: it has committed; or an undo action was made to fail; or
  what is still to be undone, and what the last action added to it, brings the machine back.
\<close>

definition booked :: "'s \<Rightarrow> step_spec list \<Rightarrow> bool \<Rightarrow> 's modelled \<Rightarrow> nat \<Rightarrow> input option \<Rightarrow> runner \<Rightarrow> bool" where
  "booked w0 specs strict m seq inp r \<longleftrightarrow>
     Committing \<in> set (md_records m) \<and> committing r \<and> awaiting_input r \<or>
     \<not> strict \<and> (undo_failures r \<noteq> [] \<or> undo_failed inp r) \<and> past r \<or>
     in_books w0 (\<not> past r) m (gained inp r @ owing specs r) seq \<and> undo_failures r = [] \<and> \<not> undo_failed inp r"

definition accounted :: "'s \<Rightarrow> step_spec list \<Rightarrow> bool \<Rightarrow> 's modelled drive_state \<Rightarrow> bool" where
  "accounted w0 specs strict st \<longleftrightarrow>
     honest (dr_runner st) \<and> tidy good specs (dr_runner st) \<and> (dr_input st = None \<or> awaiting_input (dr_runner st)) \<and>
     (past (dr_runner st) \<or> input_plain (dr_input st)) \<and> (strict \<longrightarrow> \<not> injected (md_faults (dr_machine st))) \<and>
     booked w0 specs strict (dr_machine st) (dr_seq st) (dr_input st) (dr_runner st)"

lemma accounted_stop: "accounted w0 specs strict st \<Longrightarrow> accounted w0 specs strict (drive_stop specs mo st)"
  by (cases rule: drive_stop_cases [of specs mo st]) (simp_all add: accounted_def booked_def)

text \<open>What is claimed of a round's end.\<close>

definition round_books :: "'s \<Rightarrow> step_spec list \<Rightarrow> bool \<Rightarrow> 's modelled driving \<Rightarrow> bool" where
  "round_books w0 specs strict d =
     (case d of
        Drive_Goes st \<Rightarrow> accounted w0 specs strict st
      | Drive_Crashed m \<Rightarrow> Committing \<in> set (md_records m) \<or> \<not> strict \<or> recoverable w0 m
      | Drive_Returned rep st \<Rightarrow>
          Committing \<in> set (md_records (dr_machine st)) \<and> (\<forall>key failure. rep_verdict rep \<noteq> Verdict_Failed key failure) \<or>
          \<not> strict \<and> rep_rollback_failures rep \<noteq> [] \<or>
          rep_rollback_failures rep = [] \<and> same (md_world (dr_machine st)) w0)"

section \<open>Performing, by phase\<close>

text \<open>The state after the runner was called.\<close>

definition called :: "step_spec list \<Rightarrow> bool \<Rightarrow> 's modelled drive_state \<Rightarrow> bool" where
  "called specs strict st \<longleftrightarrow>
     honest (dr_runner st) \<and> tidy good specs (dr_runner st) \<and> (strict \<longrightarrow> \<not> injected (md_faults (dr_machine st)))"

lemma performed_forward:
  assumes h: "serves lock h" and c: "called specs strict st" and ph: "r_phase (dr_runner st) = Executing k nd queue True"
    and a: "good a" and b: "in_books w0 True (dr_machine st) (owing specs (dr_runner st)) (dr_seq st)" "undo_failures (dr_runner st) = []"
  shows "round_books w0 specs strict (drive_perform h specs mo a st)"
proof -
  let ?m = "dr_machine st" and ?r = "dr_runner st" and ?seq = "dr_seq st"
  have i: "inv (md_world ?m)" using b(1) by (simp add: in_books_def)
  have l: "lock (md_world ?m) = md_world ?m" using i by (rule inv_locked)
  have fit: "fits a (md_world ?m)" using a i by (simp add: good_def)
  then have nc: "a \<noteq> Commit" by (rule fits_plain)
  have nr: "\<not> rolling_back ?r" using ph by (simp add: rolling_back_def)
  have h': "h_perform h = perform_modelled lock step" "h_append h = append_record" using h by (simp_all add: serves_def)
  have aw: "awaiting_input ?r" "\<not> past ?r" "\<And>inp. \<not> undo_failed inp ?r"
    using ph by (simp_all add: awaiting_input_def past_def undo_failed_def)
  show ?thesis
  proof (cases rule: perform_modelled_cases [OF h' lock_twice, of False ?seq a "shielded specs ?r" ?m])
    case (1 failure m1)
    note failed = this
    have p: "performed h (rolling_back ?r \<or> a = Commit) ?seq
        (h_perform h a (shielded specs ?r) (if a = Commit then ?m\<lparr>md_records := md_records ?m @ [Committing]\<rparr> else ?m)) None [] =
        (Some (Inl failure), m1, None, [])" using failed(1) nc nr by simp
    have "md_world m1 = md_world ?m" using failed(3) l by auto
    then have bm: "in_books w0 True m1 (owing specs ?r) (Suc ?seq)"
      using b(1) books_later [OF b(1), of "Suc ?seq"] in_books_cong [of m1 ?m] failed(2) by simp
    show ?thesis
    proof (cases rule: drive_perform_steps [OF h'(2) p, of mo])
      case (2 outcome acting stopping t)
      let ?st = "st\<lparr>dr_machine := m1, dr_tree := t, dr_stopping := stopping\<rparr>"
      let ?d = "drive_done h a (rolling_back ?r) (a = Commit) acting None outcome ?st"
      from 2(1) have o: "outcome = Inl failure" by simp
      have "dr_machine ?d = m1" "dr_seq ?d = Suc ?seq" "dr_runner ?d = ?r"
        using drive_done_modelled [OF h'(2), of a "rolling_back ?r" "a = Commit" acting None outcome ?st] nr nc o
        by (simp_all add: drive_done_runner)
      moreover have "gained (Some (Input_Done outcome)) ?r = []" using ph o by (simp add: gained_def)
      moreover have "strict \<longrightarrow> \<not> injected (md_faults m1)"
        using c next_fault_injected [of "md_faults ?m"] failed(5) by (simp add: called_def)
      ultimately have "accounted w0 specs strict ?d"
        using bm b(2) aw c o by (simp add: accounted_def booked_def called_def input_plain_def)
      with 2(2) show ?thesis by (simp add: round_books_def)
    qed simp
  next
    case (2 undo w' m1 ann ss)
    note killed = this
    have p: "performed h (rolling_back ?r \<or> a = Commit) ?seq
        (h_perform h a (shielded specs ?r) (if a = Commit then ?m\<lparr>md_records := md_records ?m @ [Committing]\<rparr> else ?m)) None [] =
        (None, m1, ann, ss)" using killed(1) nc nr by simp
    let ?cut = "?m\<lparr>md_world := md_world m1, md_records := md_records ?m @ [Prepared ?seq undo]\<rparr>"
    have "recoverable w0 ?cut"
      using recoverable_announced [OF b(1) fit, of undo w' "md_world m1"] killed(2,4) l by simp
    then have "recoverable w0 m1" using recoverable_cong [of m1 ?cut] killed(3) by simp
    then show ?thesis by (cases rule: drive_perform_steps [OF h'(2) p, of mo]) (simp_all add: round_books_def)
  next
    case (3 undo w' m1 ss)
    note did = this
    have p: "performed h (rolling_back ?r \<or> a = Commit) ?seq
        (h_perform h a (shielded specs ?r) (if a = Commit then ?m\<lparr>md_records := md_records ?m @ [Committing]\<rparr> else ?m)) None [] =
        (Some (Inr undo), m1, Some undo, ss)" using did(1) nc nr by simp
    have s: "step a (md_world ?m) = (Inr undo, w')" using did(2) l by simp
    show ?thesis
    proof (cases rule: drive_perform_steps [OF h'(2) p, of mo])
      case (2 outcome acting stopping t)
      let ?st = "st\<lparr>dr_machine := m1, dr_tree := t, dr_stopping := stopping\<rparr>"
      let ?d = "drive_done h a (rolling_back ?r) (a = Commit) acting (Some undo) outcome ?st"
      from 2(1) have o: "outcome = Inr undo" by simp
      have d: "dr_machine ?d = m1\<lparr>md_records := md_records m1 @ [Done ?seq]\<rparr>" "dr_seq ?d = Suc ?seq" "dr_runner ?d = ?r"
        using drive_done_modelled [OF h'(2), of a "rolling_back ?r" "a = Commit" acting "Some undo" outcome ?st] nr nc o
        by (simp_all add: drive_done_runner)
      have "in_books w0 True (dr_machine ?d) (undo @ owing specs ?r) (Suc ?seq)"
        using books_done [OF b(1) fit s]
          in_books_cong [of "dr_machine ?d" "?m\<lparr>md_world := w', md_records := md_records ?m @ [Prepared ?seq undo, Done ?seq]\<rparr>"]
          did(3,4) d(1) by simp
      moreover have "gained (Some (Input_Done outcome)) ?r = undo" using ph o by (simp add: gained_def)
      moreover have "strict \<longrightarrow> \<not> injected (md_faults (dr_machine ?d))"
        using c next_fault_injected [of "md_faults ?m"] did(5) d(1) by (simp add: called_def)
      moreover have "\<forall>u \<in> set undo. \<not> is_sync u" using step_backward [OF fit s] backward_plain by blast
      ultimately have "accounted w0 specs strict ?d"
        using d b(2) aw c o by (simp add: accounted_def booked_def called_def input_plain_def)
      with 2(2) show ?thesis by (simp add: round_books_def)
    qed simp
  qed
qed

end

context crash_laws
begin

lemma debt_runs: "brings_back w0 w (u # debt) \<Longrightarrow> backward u \<Longrightarrow> \<exists>us w'. step u (lock w) = (Inr us, w')"
  using backward_same [OF _ same_sym [OF lock_same]] by (fastforce simp: brings_back_def run_all_Cons)

lemma performed_backward:
  assumes h: "serves lock h" and c: "called specs strict st" and ph: "r_phase (dr_runner st) = RollingBack remaining (Some v) True"
    and b: "in_books w0 False (dr_machine st) (a # owing specs (dr_runner st)) (dr_seq st)" "undo_failures (dr_runner st) = []"
  shows "round_books w0 specs strict (drive_perform h specs mo a st)"
proof -
  let ?m = "dr_machine st" and ?r = "dr_runner st" and ?seq = "dr_seq st"
  let ?l = "lock (md_world ?m)"
  have bw: "backward a" using debt_backward [OF b(1)] by simp
  then have nc: "a \<noteq> Commit" using backward_plain by blast
  have rb: "rolling_back ?r" using ph by (simp add: rolling_back_def)
  have h': "h_perform h = perform_modelled lock step" "h_append h = append_record" using h by (simp_all add: serves_def)
  have aw: "awaiting_input ?r" "past ?r" "gained inp ?r = []" for inp
    using ph by (simp_all add: awaiting_input_def past_def gained_def)
  have bl: "in_books w0 False (?m\<lparr>md_world := ?l\<rparr>) (a # owing specs ?r) ?seq" using books_locked [OF b(1)] .
  have "brings_back w0 (md_world ?m) (a # owing specs ?r)" using b(1) by (simp add: in_books_def)
  have sl: "sane ?l" using b(1) lock_sane by (simp add: in_books_def)
  from debt_runs [OF \<open>brings_back w0 (md_world ?m) (a # owing specs ?r)\<close> bw] obtain us w' where s: "step a ?l = (Inr us, w')" by blast
  show ?thesis
  proof (cases rule: perform_modelled_cases [OF h' lock_twice, of True ?seq a "shielded specs ?r" ?m])
    case (1 failure m1)
    note failed = this
    have p: "performed h (rolling_back ?r \<or> a = Commit) ?seq
        (h_perform h a (shielded specs ?r) (if a = Commit then ?m\<lparr>md_records := md_records ?m @ [Committing]\<rparr> else ?m)) None [] =
        (Some (Inl failure), m1, None, [])" using failed(1) nc rb by simp
    from failed(4) s c have ns: "\<not> strict" by (auto simp: called_def)
    show ?thesis
    proof (cases rule: drive_perform_steps [OF h'(2) p, of mo])
      case (2 outcome acting stopping t)
      let ?st = "st\<lparr>dr_machine := m1, dr_tree := t, dr_stopping := stopping\<rparr>"
      let ?d = "drive_done h a (rolling_back ?r) (a = Commit) acting None outcome ?st"
      from 2(1) have o: "outcome = Inl failure" by simp
      have "dr_runner ?d = ?r" by (simp add: drive_done_runner o)
      moreover have "undo_failed (Some (Input_Done outcome)) ?r" using ph o by (simp add: undo_failed_def)
      ultimately have "accounted w0 specs strict ?d"
        using aw c ns o by (simp add: accounted_def booked_def called_def input_plain_def)
      with 2(2) show ?thesis by (simp add: round_books_def)
    qed simp
  next
    case (2 undo w1 m1 ann ss)
    note killed = this
    have p: "performed h (rolling_back ?r \<or> a = Commit) ?seq
        (h_perform h a (shielded specs ?r) (if a = Commit then ?m\<lparr>md_records := md_records ?m @ [Committing]\<rparr> else ?m)) None [] =
        (None, m1, ann, ss)" using killed(1) nc rb by simp
    have "recoverable w0 m1"
    proof (cases "md_world m1 = ?l")
      case True
      with recoverable_books [OF bl] recoverable_cong [of m1 "?m\<lparr>md_world := ?l\<rparr>"] killed(3) show ?thesis by simp
    next
      case False
      with killed(2,4) s have "md_world m1 = w'" by simp
      with recoverable_undone [OF b(1) s same_sym [OF lock_same] sl] recoverable_cong [of m1 "?m\<lparr>md_world := w'\<rparr>"] killed(3)
      show ?thesis by simp
    qed
    then show ?thesis by (cases rule: drive_perform_steps [OF h'(2) p, of mo]) (simp_all add: round_books_def)
  next
    case (3 undo w1 m1 ss)
    note did = this
    have p: "performed h (rolling_back ?r \<or> a = Commit) ?seq
        (h_perform h a (shielded specs ?r) (if a = Commit then ?m\<lparr>md_records := md_records ?m @ [Committing]\<rparr> else ?m)) None [] =
        (Some (Inr undo), m1, None, ss)" using did(1) nc rb by simp
    show ?thesis
    proof (cases rule: drive_perform_steps [OF h'(2) p, of mo])
      case (2 outcome acting stopping t)
      let ?st = "st\<lparr>dr_machine := m1, dr_tree := t, dr_stopping := stopping\<rparr>"
      let ?d = "drive_done h a (rolling_back ?r) (a = Commit) acting None outcome ?st"
      from 2(1) have o: "outcome = Inr undo" by simp
      have d: "dr_machine ?d = m1\<lparr>md_records := md_records m1 @ [Reverted a]\<rparr>" "dr_seq ?d = ?seq" "dr_runner ?d = ?r"
        using drive_done_modelled [OF h'(2), of a "rolling_back ?r" "a = Commit" acting None outcome ?st] rb o
        by (simp_all add: drive_done_runner)
      have "step a (md_world (?m\<lparr>md_world := ?l\<rparr>)) = (Inr undo, w1)" using did(2) by simp
      note u = books_undone [OF bl this]
      have "in_books w0 False (dr_machine ?d) (owing specs ?r) ?seq"
        using u in_books_cong [of "dr_machine ?d" "?m\<lparr>md_world := ?l, md_world := w1, md_records := md_records ?m @ [Reverted a]\<rparr>"]
          did(3,4) d(1) by simp
      moreover have "strict \<longrightarrow> \<not> injected (md_faults (dr_machine ?d))"
        using c next_fault_injected [of "md_faults ?m"] did(5) d(1) by (simp add: called_def)
      moreover have "\<not> undo_failed (Some (Input_Done outcome)) ?r" using ph o by (simp add: undo_failed_def)
      ultimately have "accounted w0 specs strict ?d"
        using d b(2) aw c o by (simp add: accounted_def booked_def called_def input_plain_def)
      with 2(2) show ?thesis by (simp add: round_books_def)
    qed simp
  qed
qed

end

context crash_laws
begin

text \<open>An undo or the commit leaves the runner as it is, and the journal at least as it was.\<close>

lemma performed_quiet:
  assumes h: "serves lock h" and q: "rolling_back (dr_runner st) \<or> a = Commit"
  shows "case drive_perform h specs mo a st of
     Drive_Goes st' \<Rightarrow> dr_runner st' = dr_runner st \<and> dr_input st' \<noteq> None \<and>
       (\<not> injected (md_faults (dr_machine st)) \<longrightarrow> \<not> injected (md_faults (dr_machine st'))) \<and>
       (a = Commit \<longrightarrow> Committing \<in> set (md_records (dr_machine st')))
   | Drive_Crashed m \<Rightarrow> a = Commit \<longrightarrow> Committing \<in> set (md_records m)
   | Drive_Returned _ _ \<Rightarrow> False"
proof -
  define m where "m = (if a = Commit then (dr_machine st)\<lparr>md_records := md_records (dr_machine st) @ [Committing]\<rparr> else dr_machine st)"
  let ?r = "dr_runner st"
  have h': "h_perform h = perform_modelled lock step" "h_append h = append_record" using h by (simp_all add: serves_def)
  obtain oc m1 ann ss where p: "performed h (rolling_back ?r \<or> a = Commit) (dr_seq st) (h_perform h a (shielded specs ?r) m) None [] = (oc, m1, ann, ss)"
    by (metis surj_pair)
  note p1 = p [unfolded m_def]
  have "md_records m1 = md_records m \<and> (oc \<noteq> None \<longrightarrow> ann = None) \<and> (oc \<noteq> None \<longrightarrow> \<not> injected (md_faults m) \<longrightarrow> \<not> injected (md_faults m1))"
  proof (cases rule: perform_modelled_cases [OF h' lock_twice, of True "dr_seq st" a "shielded specs ?r" m])
    case (1 failure m2)
    with p q next_fault_injected [of "md_faults m"] show ?thesis by auto
  next
    case (2 undo w' m2 ann2 ss2)
    with p q show ?thesis by auto
  next
    case (3 undo w' m2 ss2)
    with p q next_fault_injected [of "md_faults m"] show ?thesis by auto
  qed
  then have m1: "a = Commit \<Longrightarrow> Committing \<in> set (md_records m1)" "oc \<noteq> None \<Longrightarrow> ann = None"
    "oc \<noteq> None \<Longrightarrow> \<not> injected (md_faults (dr_machine st)) \<Longrightarrow> \<not> injected (md_faults m1)"
    by (auto simp: m_def split: if_splits)
  show ?thesis
  proof (cases rule: drive_perform_steps [OF h'(2) p1, of mo])
    case 1
    with m1(1) show ?thesis by simp
  next
    case (2 outcome acting stopping t)
    with m1 drive_done_modelled(1) [OF h'(2)] show ?thesis by (cases outcome) (auto simp: drive_done_runner)
  qed
qed

section \<open>One round, and all of them\<close>

lemma books_past: "in_books w0 forward m debt seq \<Longrightarrow> (forward' \<longrightarrow> forward) \<Longrightarrow> in_books w0 forward' m debt seq"
  by (auto simp: in_books_def)

lemma observed_books:
  assumes h: "serves lock h" and c: "called specs strict st" and aw: "awaits (dr_runner st) (Next_Observe queries)"
    and b: "in_books w0 True (dr_machine st) (owing specs (dr_runner st)) (dr_seq st)" "undo_failures (dr_runner st) = []"
  shows "accounted w0 specs strict (drive_observe h queries st)"
proof -
  let ?r = "dr_runner st" and ?m = "dr_machine st"
  from aw obtain k where ph: "r_phase ?r = Checking k True" by (auto simp: awaits_def)
  obtain facts m where o: "h_observe h queries ?m = (facts, m)" by (cases "h_observe h queries ?m")
  with h have m: "m = ?m\<lparr>md_world := lock (md_world ?m)\<rparr>" by (simp add: serves_def) (metis snd_conv)
  have d: "dr_runner (drive_observe h queries st) = ?r" "dr_machine (drive_observe h queries st) = m"
    "dr_seq (drive_observe h queries st) = dr_seq st" "dr_input (drive_observe h queries st) = Some (Input_Facts facts)"
    by (simp_all add: drive_observe_def o Let_def)
  have r: "awaiting_input ?r" "\<not> past ?r" "gained (Some (Input_Facts facts)) ?r = []" "\<not> undo_failed (Some (Input_Facts facts)) ?r"
    "input_plain (Some (Input_Facts facts))"
    using ph by (simp_all add: awaiting_input_def past_def gained_def undo_failed_def input_plain_def)
  from books_locked [OF b(1)] have "in_books w0 True m (owing specs ?r) (dr_seq st)" by (simp add: m)
  with c b(2) r d show ?thesis by (simp add: accounted_def booked_def called_def m)
qed

lemma round_keeps_books:
  assumes h: "serves lock h" and k: "keys_ok specs" and g: "planned good specs"
    and ok: "drive_ok specs st" and acc: "accounted w0 specs strict st"
    and d: "drive_round h specs mo st = Inr d"
  shows "round_books w0 specs strict d"
proof -
  define st0 where "st0 = drive_stop specs mo st"
  let ?r0 = "dr_runner st0" and ?m = "dr_machine st0" and ?inp = "dr_input st0"
  from accounted_stop [OF acc, of mo] have acc0: "accounted w0 specs strict st0" by (simp add: st0_def)
  have ok0: "phase_ok specs ?r0 (dr_tree st0)" "input_fits ?r0 ?inp"
    using drive_stop_ok [OF ok, of mo] by (simp_all add: drive_ok_def st0_def)
  from acc0 have a0: "honest ?r0" "tidy good specs ?r0" "?inp = None \<or> awaiting_input ?r0" "past ?r0 \<or> input_plain ?inp"
    "strict \<longrightarrow> \<not> injected (md_faults ?m)" "booked w0 specs strict ?m (dr_seq st0) ?inp ?r0"
    by (simp_all add: accounted_def)
  from run_loop_ok [OF ok0(1) k ok0(2), of "h_diag h"] obtain nx r t where
    l: "run_loop (h_diag h) specs ?inp ?r0 (dr_tree st0) = Inr (nx, r, t)" "phase_ok specs r t" "awaits r nx" by blast
  note acct = call_accounts [OF a0(2,1) ok0 k g a0(4,3) l(1)]
  note goes = call_goes_on [OF l(1) a0(2,1) ok0 k g a0(4,3)]
  let ?st = "st0\<lparr>dr_runner := r, dr_tree := t, dr_input := None\<rparr>"
  have D: "d = (case nx of
      Next_Observe queries \<Rightarrow> Drive_Goes (drive_observe h queries ?st)
    | Next_Perform a \<Rightarrow> drive_perform h specs mo a ?st
    | Next_Finished \<Rightarrow> drive_finish h ?st)"
    using d l(1) by (simp add: drive_round_def runner_step_def st0_def [symmetric] Let_def)
  have h': "h_append h = append_record" using h by (simp add: serves_def)
  have called: "called specs strict ?st" using acct a0(5) run_loop_honest [OF a0(1) l(1)] by (simp add: called_def)
  have fin: "drive_finish h st1 = Drive_Returned rep st2 \<Longrightarrow> rep = r_report (dr_runner st1) \<and> md_world (dr_machine st2) = md_world (dr_machine st1) \<and>
      set (md_records (dr_machine st1)) \<subseteq> set (md_records (dr_machine st2))" for st1 rep st2
    using keep_modelled [OF h', of Ended ROOT "dr_machine st1" "dr_tree st1"]
    by (auto simp: drive_finish_def Let_def split_beta split: if_splits)
  have quiet: "round_books w0 specs strict d"
    if "nx = Next_Perform a" and c: "committing r \<or> \<not> strict \<and> undo_failures r \<noteq> [] \<and> past r" for a
  proof -
    from l(3) that(1) have aw: "awaits r (Next_Perform a)" "awaiting_input r" using awaits_awaiting(2) by simp_all
    with acct that(1) c have q: "(rolling_back r \<and> \<not> committing r \<or> a = Commit) \<and> (committing r \<longrightarrow> a = Commit)"
      by (auto simp: awaits_def rolling_back_def past_def committing_def split: phase.splits)
    have "past r" using c by (auto simp: committing_def past_def split: phase.splits)
    then show ?thesis
      using performed_quiet [OF h, of ?st a specs mo] q c aw called that(1)
      by (cases "drive_perform h specs mo a ?st") (auto simp: D round_books_def accounted_def booked_def called_def)
  qed
  have closed: "round_books w0 specs strict d"
    if "nx = Next_Finished" and "\<And>rep st2. rep = r_report r \<Longrightarrow> md_world (dr_machine st2) = md_world ?m \<Longrightarrow>
      set (md_records ?m) \<subseteq> set (md_records (dr_machine st2)) \<Longrightarrow> round_books w0 specs strict (Drive_Returned rep st2)"
  proof -
    obtain rep st2 where f: "drive_finish h ?st = Drive_Returned rep st2" by (auto simp: drive_finish_def Let_def split_beta)
    with fin [OF f] that D show ?thesis by simp
  qed
  from a0(6) consider (committed) "Committing \<in> set (md_records ?m)" "committing ?r0" "awaiting_input ?r0"
    | (spoiled) "\<not> strict" "undo_failures ?r0 \<noteq> [] \<or> undo_failed ?inp ?r0" "past ?r0"
    | (books) "in_books w0 (\<not> past ?r0) ?m (gained ?inp ?r0 @ owing specs ?r0) (dr_seq st0)" "undo_failures ?r0 = []" "\<not> undo_failed ?inp ?r0"
    unfolding booked_def by blast
  then show ?thesis
  proof cases
    case committed
    from commit_closes [OF a0(1) committed(2,3) l(1)] committed(1) show ?thesis
      by (intro closed) (auto simp: round_books_def)
  next
    case spoiled
    with goes have s: "undo_failures r \<noteq> []" "past r" by (auto split: if_splits)
    show ?thesis
    proof (cases nx)
      case (Next_Observe queries)
      with l(3) s(2) show ?thesis by (auto simp: awaits_def past_def)
    next
      case (Next_Perform a)
      with quiet spoiled(1) s show ?thesis by blast
    next
      case Next_Finished
      with spoiled(1) s show ?thesis by (intro closed) (simp_all add: round_books_def)
    qed
  next
    case books
    with goes have f: "undo_failures r = []" by simp
    have past: "\<not> past r \<longrightarrow> \<not> past ?r0" using goes by blast
    let ?debt = "gained ?inp ?r0 @ owing specs ?r0"
    have b: "in_books w0 (\<not> past r) ?m ?debt (dr_seq st0)" using books_past [OF books(1) past] .
    have eq: "committing r \<or> paid (Some nx) r @ owing specs r = ?debt" using acct by blast
    show ?thesis
    proof (cases nx)
      case (Next_Observe queries)
      with l(3) have r: "\<not> past r" "paid (Some nx) r = []" "\<not> committing r" "awaits (dr_runner ?st) (Next_Observe queries)"
        by (auto simp: awaits_def past_def paid_def committing_def)
      with observed_books [OF h called, of queries w0] b eq f D Next_Observe show ?thesis by (simp add: round_books_def)
    next
      case (Next_Perform a)
      show ?thesis
      proof (cases "r_phase r")
        case (Executing j nd queue aw)
        with l(3) Next_Perform have ph: "r_phase (dr_runner ?st) = Executing j nd queue True" by (simp add: awaits_def)
        with acct Next_Perform have "good a" "\<not> past r" "paid (Some nx) r = []" "\<not> committing r"
          by (simp_all add: past_def paid_def committing_def)
        with performed_forward [OF h called ph, of a w0 mo] b eq f D Next_Perform show ?thesis by simp
      next
        case (RollingBack remaining current aw)
        with l(3) Next_Perform obtain v where ph: "r_phase (dr_runner ?st) = RollingBack remaining (Some v) True"
          by (auto simp: awaits_def split: option.splits)
        with Next_Perform have "past r" "paid (Some nx) r = [a]" "\<not> committing r"
          by (simp_all add: past_def paid_def committing_def)
        with performed_backward [OF h called ph, of w0 a mo] b eq f D Next_Perform show ?thesis by simp
      next
        case (Committing_Phase aw reclaim)
        then have "committing r" by (simp add: committing_def)
        with quiet Next_Perform show ?thesis by blast
      qed (use l(3) Next_Perform in \<open>simp_all add: awaits_def\<close>)
    next
      case Next_Finished
      with l(3) have ph: "r_phase r = Closed" by (simp add: awaits_def)
      then have "paid (Some nx) r @ owing specs r = []" "\<not> committing r" by (simp_all add: paid_def owing_def committing_def)
      with eq b have "brings_back w0 (md_world ?m) []" by (simp add: in_books_def)
      then have "same (md_world ?m) w0" by (simp add: brings_back_def)
      with f Next_Finished show ?thesis by (intro closed) (simp_all add: round_books_def)
    qed
  qed
qed

end

context crash_laws
begin

lemma drive_keeps_books:
  assumes h: "serves lock h" and k: "keys_ok specs" and g: "planned good specs"
  shows "drive_ok specs st \<Longrightarrow> accounted w0 specs strict st \<Longrightarrow> r_phase (dr_runner st) \<noteq> Closed \<Longrightarrow>
    drive h specs mos st = Inr d \<Longrightarrow> round_books w0 specs strict d"
proof (induction mos arbitrary: st)
  case Nil
  then show ?case by (auto simp: round_books_def)
next
  case (Cons mo mos)
  from drive_round_ok [OF Cons.prems(1) k Cons.prems(3), of h mo] obtain d1 where
    d1: "drive_round h specs mo st = Inr d1"
    "case d1 of Drive_Goes st' \<Rightarrow> drive_ok specs st' \<and> nearer specs (dr_runner st') (dr_runner st) \<and> r_phase (dr_runner st') \<noteq> Closed
     | Drive_Crashed _ \<Rightarrow> True
     | Drive_Returned rep st' \<Rightarrow> r_phase (dr_runner st') = Closed \<and> phase_ok specs (dr_runner st') (dr_tree st') \<and> rep = r_report (dr_runner st')"
    by blast
  note b = round_keeps_books [OF h k g Cons.prems(1,2) d1(1)]
  show ?case
  proof (cases d1)
    case (Drive_Goes st')
    with b have "accounted w0 specs strict st'" by (simp add: round_books_def)
    with Cons.IH [of st'] Cons.prems(4) d1 Drive_Goes show ?thesis by simp
  qed (use b d1 Cons.prems(4) in auto)
qed

text \<open>A request at its beginning: nothing is in its journal but that it began.\<close>

definition begun :: "step_spec list \<Rightarrow> bool \<Rightarrow> runner \<Rightarrow> tree \<Rightarrow> 's modelled \<Rightarrow> bool" where
  "begun specs strict r t m \<longleftrightarrow>
     play_ok specs (None, r, t) \<and> honest r \<and> undo_failures r = [] \<and> r_journal r = replicate (length specs) [] \<and> r_doubts r = [] \<and>
     inv (md_world m) \<and> (\<forall>rec \<in> set (md_records m). case rec of Began _ \<Rightarrow> True | _ \<Rightarrow> False) \<and>
     (strict \<longrightarrow> \<not> injected (md_faults m))"

lemma began_books:
  assumes "\<forall>rec \<in> set recs. case rec of Began _ \<Rightarrow> True | _ \<Rightarrow> False"
  shows "closed_below 0 recs" "confirmed_undos recs = []" "reverted_actions recs = []"
proof -
  have b: "\<exists>x. rec = Began x" if "rec \<in> set recs" for rec using assms that by (cases rec) auto
  have "fold confirmed_step recs s = s" for s
    using assms by (induction recs arbitrary: s) (auto simp: confirmed_step_def split: journal_record.splits prod.splits)
  then have c: "confirmed recs = []" by (simp add: confirmed_def)
  then show "confirmed_undos recs = []" by (simp add: confirmed_undos_def)
  show "reverted_actions recs = []"
    using assms by (induction recs) (auto simp: reverted_actions_def List.map_filter_def split: journal_record.splits)
  have "failed_seqs recs = {}" using b by (force simp: failed_seqs_def List.map_filter_def)
  then show "closed_below 0 recs" using b c by (force simp: closed_below_def)
qed

lemma accounted_begin:
  assumes "begun specs strict r t m"
  shows "accounted (md_world m) specs strict (drive_begin r t m)"
proof -
  from assms have r: "r_phase r = Opening" "honest r" "undo_failures r = []" "r_journal r = replicate (length specs) []" "r_doubts r = []"
    "inv (md_world m)" "\<forall>rec \<in> set (md_records m). case rec of Began _ \<Rightarrow> True | _ \<Rightarrow> False" "strict \<longrightarrow> \<not> injected (md_faults m)"
    by (simp_all add: begun_def play_ok_def)
  have j: "concat (rev (concat (replicate n [])) ) = []" for n by (induction n) simp_all
  have t: "tidy good specs r" using r by (auto simp: tidy_def syncless_def empty_from_def)
  have "owing specs r = []" using r(1,4) tidy_plan [OF t] j by (simp add: owing_def)
  moreover have "gained None r = []" "\<not> past r" "\<not> undo_failed None r"
    using r(1) by (simp_all add: gained_def past_def undo_failed_def)
  moreover have "in_books (md_world m) True m [] 0"
    using began_books [OF r(7)] r(6) same_refl inv_sane by (simp add: in_books_def brings_back_def)
  ultimately show ?thesis
    using r t by (simp add: accounted_def booked_def drive_begin_def input_plain_def)
qed

lemma begun_drive:
  assumes "begun specs strict r t m"
  shows "drive_ok specs (drive_begin r t m) \<and> r_phase (dr_runner (drive_begin r t m)) \<noteq> Closed"
  using assms by (intro drive_ok_begin) (simp add: begun_def)

text \<open>The three ends of a request.\<close>

theorem request_can_be_recovered:
  assumes "serves lock h" "keys_ok specs" "planned good specs" and b: "begun specs True r t m"
    and d: "drive h specs mos (drive_begin r t m) = Inr d"
    and m': "d = Drive_Crashed m' \<or> (\<exists>st. d = Drive_Goes st \<and> m' = dr_machine st)" and "Committing \<notin> set (md_records m')"
  shows "recoverable (md_world m) m'"
proof -
  from begun_drive [OF b] drive_keeps_books [OF assms(1-3) _ accounted_begin [OF b] _ d]
  have "round_books (md_world m) specs True d" by blast
  with assms(7) m' show ?thesis using recoverable_books by (auto simp: round_books_def accounted_def booked_def)
qed

theorem request_returned:
  assumes "serves lock h" "keys_ok specs" "planned good specs" and b: "begun specs strict r t m"
    and d: "drive h specs mos (drive_begin r t m) = Inr (Drive_Returned rep st)"
  shows "Committing \<in> set (md_records (dr_machine st)) \<and> (\<forall>key failure. rep_verdict rep \<noteq> Verdict_Failed key failure) \<or>
    \<not> strict \<and> rep_rollback_failures rep \<noteq> [] \<or>
    rep_rollback_failures rep = [] \<and> same (md_world (dr_machine st)) (md_world m)"
proof -
  from begun_drive [OF b] drive_keeps_books [OF assms(1-3) _ accounted_begin [OF b] _ d]
  have "round_books (md_world m) specs strict (Drive_Returned rep st)" by blast
  then show ?thesis by (simp add: round_books_def)
qed

end

end
