(* ===== verification/World_Accounts.thy ===== *)
theory World_Accounts
  imports World_Undo
begin

text \<open>
  The accounts of the model machine: what the trait \<open>Accounts\<close> promises of its searches, as the
  locale \<open>account_view\<close>, interpreted on the model machine; the invariant that groups and users keep;
  and the undoing of the account actions. With the actions on files this makes the model machine
  an instance of \<open>undo_laws\<close>.
\<close>

section \<open>What the searches promise\<close>

locale account_view =
  fixes view :: "'m \<Rightarrow> accounts" and ok :: "'m \<Rightarrow> bool"
  assumes gid_none: "ok m \<Longrightarrow> ac_group_with_gid (view m) gid = None \<longleftrightarrow>
      (\<forall>n g. ac_group (view m) n = Some g \<longrightarrow> gf_gid g \<noteq> gid)"
    and gid_some: "ok m \<Longrightarrow> ac_group_with_gid (view m) gid = Some n \<Longrightarrow>
      \<exists>g. ac_group (view m) n = Some g \<and> gf_gid g = gid"
    and uid_none: "ok m \<Longrightarrow> ac_user_with_uid (view m) uid = None \<longleftrightarrow>
      (\<forall>n u. ac_user (view m) n = Some u \<longrightarrow> uf_uid u \<noteq> uid)"
    and uid_some: "ok m \<Longrightarrow> ac_user_with_uid (view m) uid = Some n \<Longrightarrow>
      \<exists>u. ac_user (view m) n = Some u \<and> uf_uid u = uid"
    and primary_none: "ok m \<Longrightarrow> ac_primary_of (view m) gid = None \<longleftrightarrow>
      (\<forall>n u. ac_user (view m) n = Some u \<longrightarrow> uf_gid u \<noteq> gid)"
    and groups_of: "ok m \<Longrightarrow> n \<in> set (ac_groups_of (view m) user) \<longleftrightarrow>
      (\<exists>g. ac_group (view m) n = Some g \<and> user \<in> set (gf_members g))"
    and groups_of_distinct: "ok m \<Longrightarrow> distinct (ac_groups_of (view m) user)"
begin

text \<open>A number that is free for a name is held by nobody, unless the name itself holds it.\<close>

lemma gid_free_none:
  assumes "ok m" "gid_free (view m) name gid = Inr x" "ac_group (view m) name = None \<or>
    (\<exists>g. ac_group (view m) name = Some g \<and> gf_gid g \<noteq> gid)" "ac_group (view m) n = Some g"
  shows "gf_gid g \<noteq> gid"
  using assms gid_some [OF assms(1), of gid name] gid_none [OF assms(1), of gid]
  by (auto simp: gid_free_Inr)

lemma uid_free_none:
  assumes "ok m" "uid_free (view m) name uid = Inr x" "ac_user (view m) name = None \<or>
    (\<exists>u. ac_user (view m) name = Some u \<and> uf_uid u \<noteq> uid)" "ac_user (view m) n = Some u"
  shows "uf_uid u \<noteq> uid"
  using assms uid_some [OF assms(1), of uid name] uid_none [OF assms(1), of uid]
  by (auto simp: uid_free_Inr)

lemma gid_freeI:
  assumes "ok m" "\<And>n g. ac_group (view m) n = Some g \<Longrightarrow> gf_gid g = gid \<Longrightarrow> n = name"
  shows "gid_free (view m) name gid = Inr ()"
  using assms(2) gid_some [OF assms(1), of gid]
  by (cases "ac_group_with_gid (view m) gid") (auto simp: gid_free_Inr)

lemma uid_freeI:
  assumes "ok m" "\<And>n u. ac_user (view m) n = Some u \<Longrightarrow> uf_uid u = uid \<Longrightarrow> n = name"
  shows "uid_free (view m) name uid = Inr ()"
  using assms(2) uid_some [OF assms(1), of uid]
  by (cases "ac_user_with_uid (view m) uid") (auto simp: uid_free_Inr)

lemma no_missing_group:
  assumes "ok m" "ac_group (view m) n = Some g" "gf_gid g = us_gid spec"
    "\<And>name. name \<in> set (us_groups spec) \<Longrightarrow> ac_group (view m) name \<noteq> None"
  shows "missing_group (view m) spec = None"
  using assms gid_none [OF assms(1), of "us_gid spec"] by (auto simp: missing_group_None)

end

definition accounts_bt :: "world \<Rightarrow> bool" where
  "accounts_bt w \<longleftrightarrow> bt_ok (w_groups w) \<and> bt_ok (w_users w)"

lemma first_name_None: "bt_ok m \<Longrightarrow> first_name P m = None \<longleftrightarrow> (\<forall>k v. map_of m k = Some v \<longrightarrow> \<not> P v)"
  by (auto simp: first_name_def find_None_iff simp flip: bt_ok_mem)

lemma first_name_Some: "bt_ok m \<Longrightarrow> first_name P m = Some k \<Longrightarrow> \<exists>v. map_of m k = Some v \<and> P v"
  by (auto simp: first_name_def find_Some_iff simp flip: bt_ok_mem) (metis nth_mem snd_conv)

lemma world_accounts_simps [simp]:
  "ac_group (world_accounts w) = map_of (w_groups w)" "ac_user (world_accounts w) = map_of (w_users w)"
  by (simp_all add: world_accounts_def)

interpretation wa: account_view world_accounts accounts_bt
proof
  fix m n user
  assume ok: "accounts_bt m"
  show "n \<in> set (ac_groups_of (world_accounts m) user) \<longleftrightarrow>
      (\<exists>g. ac_group (world_accounts m) n = Some g \<and> user \<in> set (gf_members g))"
    using ok by (auto simp: world_accounts_def accounts_bt_def image_iff simp flip: bt_ok_mem)
  have "distinct (map fst (w_groups m))" using ok by (simp add: accounts_bt_def bt_ok_distinct)
  then show "distinct (ac_groups_of (world_accounts m) user)"
    by (simp add: world_accounts_def distinct_map_filter)
qed (simp_all add: world_accounts_def accounts_bt_def first_name_None first_name_Some)

section \<open>The invariant\<close>

type_synonym groups = "string \<Rightarrow> group_facts option"
type_synonym users = "string \<Rightarrow> user_facts option"

definition member_lists :: "groups \<Rightarrow> users \<Rightarrow> bool" where
  "member_lists gs us \<longleftrightarrow>
     (\<forall>n g. gs n = Some g \<longrightarrow> sorted (gf_members g) \<and> distinct (gf_members g) \<and> set (gf_members g) \<subseteq> dom us)"

definition ids_unique :: "groups \<Rightarrow> users \<Rightarrow> bool" where
  "ids_unique gs us \<longleftrightarrow>
     (\<forall>m n g h. gs m = Some g \<longrightarrow> gs n = Some h \<longrightarrow> gf_gid g = gf_gid h \<longrightarrow> m = n) \<and>
     (\<forall>m n u v. us m = Some u \<longrightarrow> us n = Some v \<longrightarrow> uf_uid u = uf_uid v \<longrightarrow> m = n)"

definition gids_held :: "groups \<Rightarrow> users \<Rightarrow> bool" where
  "gids_held gs us \<longleftrightarrow> (\<forall>n u. us n = Some u \<longrightarrow> (\<exists>m g. gs m = Some g \<and> gf_gid g = uf_gid u))"

definition accounts_ok :: "world \<Rightarrow> bool" where
  "accounts_ok w \<longleftrightarrow>
     accounts_bt w \<and> member_lists (map_of (w_groups w)) (map_of (w_users w)) \<and>
     ids_unique (map_of (w_groups w)) (map_of (w_users w)) \<and> gids_held (map_of (w_groups w)) (map_of (w_users w))"

lemma accounts_okD:
  assumes "accounts_ok w"
  shows "accounts_bt w" "bt_ok (w_groups w)" "bt_ok (w_users w)"
    "map_of (w_groups w) n = Some g \<Longrightarrow> sorted (gf_members g)"
    "map_of (w_groups w) n = Some g \<Longrightarrow> distinct (gf_members g)"
    "map_of (w_groups w) n = Some g \<Longrightarrow> m \<in> set (gf_members g) \<Longrightarrow> map_of (w_users w) m \<noteq> None"
    "map_of (w_groups w) n = Some g \<Longrightarrow> map_of (w_groups w) m = Some h \<Longrightarrow> gf_gid g = gf_gid h \<Longrightarrow> n = m"
    "map_of (w_users w) n = Some u \<Longrightarrow> map_of (w_users w) m = Some v \<Longrightarrow> uf_uid u = uf_uid v \<Longrightarrow> n = m"
    "map_of (w_users w) n = Some u \<Longrightarrow> \<exists>m g. map_of (w_groups w) m = Some g \<and> gf_gid g = uf_gid u"
  using assms unfolding accounts_ok_def accounts_bt_def member_lists_def ids_unique_def gids_held_def by (simp; blast)+
section \<open>What the account actions do\<close>

fun on_accounts :: "action \<Rightarrow> bool" where
  "on_accounts (AddGroup _ _) = True"
| "on_accounts (SetGroupGid _ _ _) = True"
| "on_accounts (DeleteGroup _ _) = True"
| "on_accounts (AddUser _) = True"
| "on_accounts (SetUserIds _ _ _) = True"
| "on_accounts (DeleteUser _ _ _) = True"
| "on_accounts (AddMember _ _) = True"
| "on_accounts (RemoveMember _ _) = True"
| "on_accounts _ = False"

lemma apply_on_accounts:
  "on_accounts a \<Longrightarrow> apply_action a w =
    (if done_already a (world_accounts w) then (Inr [], w)
     else case account_undo a (world_accounts w) of Inl f \<Rightarrow> (Inl f, w) | Inr undo \<Rightarrow> (Inr undo, do_account a w))"
  by (cases a) (auto simp: apply_action_def account_precondition_def cleared_def split: sum.splits)

text \<open>Everything but the groups and the users stays as it is.\<close>

definition but_accounts :: "world \<Rightarrow> world" where
  "but_accounts w = w\<lparr>w_groups := [], w_users := []\<rparr>"

lemma but_accounts_eqI: "but_accounts a = but_accounts b \<Longrightarrow> w_groups a = w_groups b \<Longrightarrow> w_users a = w_users b \<Longrightarrow> a = b"
  by (cases a; cases b) (simp add: but_accounts_def)

lemma but_accounts_set [simp]:
  "but_accounts (set_group n f w) = but_accounts w" "but_accounts (set_user n h w) = but_accounts w"
  "but_accounts (w\<lparr>w_groups := gs\<rparr>) = but_accounts w" "but_accounts (w\<lparr>w_users := us\<rparr>) = but_accounts w"
  by (simp_all add: but_accounts_def set_group_def set_user_def split: option.split)

lemma but_accounts_fold [simp]: "but_accounts (fold (\<lambda>n. set_group n f) ns w) = but_accounts w"
  by (induction ns arbitrary: w) simp_all

lemma do_account_rest: "but_accounts (do_account a w) = but_accounts w"
  by (cases a) simp_all

lemma set_group_simps [simp]:
  "w_users (set_group n f w) = w_users w" "bt_ok (w_groups w) \<Longrightarrow> bt_ok (w_groups (set_group n f w))"
  "map_of (w_groups (set_group n f w)) k = (if k = n then map_option f (map_of (w_groups w) k) else map_of (w_groups w) k)"
  by (auto simp: set_group_def split: option.split)

lemma set_user_simps [simp]:
  "w_groups (set_user n f w) = w_groups w" "bt_ok (w_users w) \<Longrightarrow> bt_ok (w_users (set_user n f w))"
  "map_of (w_users (set_user n f w)) k = (if k = n then map_option f (map_of (w_users w) k) else map_of (w_users w) k)"
  by (auto simp: set_user_def split: option.split)

lemma fold_set_group:
  "distinct ns \<Longrightarrow> map_of (w_groups (fold (\<lambda>n. set_group n f) ns w)) k =
     (if k \<in> set ns then map_option f (map_of (w_groups w) k) else map_of (w_groups w) k)"
  "w_users (fold (\<lambda>n. set_group n f) ns w) = w_users w"
  "bt_ok (w_groups w) \<Longrightarrow> bt_ok (w_groups (fold (\<lambda>n. set_group n f) ns w))"
  by (induction ns arbitrary: w) auto

lemma accounts_bt_do: "accounts_bt w \<Longrightarrow> accounts_bt (do_account a w)"
  by (cases a) (auto simp: accounts_bt_def fold_set_group)

lemma enrol_simps [simp]: "gf_gid (enrol n g) = gf_gid g" "set (gf_members (enrol n g)) = insert n (set (gf_members g))"
  "sorted (gf_members (enrol n g))"
  by (simp_all add: enrol_def)

lemma expel_simps [simp]: "gf_gid (expel n g) = gf_gid g" "gf_members (expel n g) = filter (\<lambda>m. m \<noteq> n) (gf_members g)"
  by (simp_all add: expel_def)

lemma distinct_enrol: "n \<notin> set (gf_members g) \<Longrightarrow> distinct (gf_members g) \<Longrightarrow> distinct (gf_members (enrol n g))"
  by (simp add: enrol_def)

lemma expel_enrol: "sorted (gf_members g) \<Longrightarrow> n \<notin> set (gf_members g) \<Longrightarrow> expel n (enrol n g) = g"
proof -
  assume g: "sorted (gf_members g)" "n \<notin> set (gf_members g)"
  then have f: "filter (\<lambda>m. m \<noteq> n) (gf_members g) = gf_members g" by (intro filter_True) auto
  have "filter (\<lambda>m. m \<noteq> n) (sort (gf_members g @ [n])) = sort (filter (\<lambda>m. m \<noteq> n) (gf_members g @ [n]))"
    by (rule filter_sort)
  also have "\<dots> = gf_members g" using f g(1) by (simp add: sorted_sort_id)
  finally show ?thesis by (simp add: expel_def enrol_def)
qed

lemma expel_absent: "n \<notin> set (gf_members g) \<Longrightarrow> expel n g = g"
proof -
  assume "n \<notin> set (gf_members g)"
  then have "filter (\<lambda>m. m \<noteq> n) (gf_members g) = gf_members g" by (intro filter_True) auto
  then show ?thesis by (simp add: expel_def)
qed

lemma enrol_expel: "sorted (gf_members g) \<Longrightarrow> distinct (gf_members g) \<Longrightarrow> n \<in> set (gf_members g) \<Longrightarrow> enrol n (expel n g) = g"
proof -
  assume g: "sorted (gf_members g)" "distinct (gf_members g)" "n \<in> set (gf_members g)"
  have "set (filter (\<lambda>m. m \<noteq> n) (gf_members g) @ [n]) = set (gf_members g)" using g(3) by auto
  moreover have "distinct (filter (\<lambda>m. m \<noteq> n) (gf_members g) @ [n])" using g(2) by simp
  ultimately have "sort (filter (\<lambda>m. m \<noteq> n) (gf_members g) @ [n]) = gf_members g"
    using g(1,2) by (intro sorted_distinct_set_unique) simp_all
  then show ?thesis by (simp add: expel_def enrol_def)
qed

lemma enrol_last: "sorted (gf_members g @ [n]) \<Longrightarrow> enrol n g = g\<lparr>gf_members := gf_members g @ [n]\<rparr>"
  by (simp only: enrol_def sorted_sort_id)

text \<open>An account action that was taken back, from what the maps are in the end.\<close>

lemma undone_eq:
  assumes "accounts_ok w" "accounts_bt w''" "but_accounts w'' = but_accounts w"
    "\<And>n. map_of (w_groups w'') n = map_of (w_groups w) n" "\<And>n. map_of (w_users w'') n = map_of (w_users w) n"
  shows "w'' = w"
proof (rule but_accounts_eqI [OF assms(3)])
  show "w_groups w'' = w_groups w" "w_users w'' = w_users w"
    using assms accounts_okD(2,3) [OF assms(1)] by (auto intro!: bt_ext simp: accounts_bt_def fun_eq_iff)
qed

lemma undone_by_one:
  assumes "accounts_ok w" "on_accounts a" "on_accounts u" "\<not> done_already u (world_accounts (do_account a w))"
    "account_undo u (world_accounts (do_account a w)) = Inr us"
    "\<And>n. map_of (w_groups (do_account u (do_account a w))) n = map_of (w_groups w) n"
    "\<And>n. map_of (w_users (do_account u (do_account a w))) n = map_of (w_users w) n"
  shows "\<exists>us w''. run_all apply_action [u] (do_account a w) = (Inr us, w'') \<and> alike w'' w"
proof -
  have "do_account u (do_account a w) = w"
    using assms accounts_okD(1) [OF assms(1)]
    by (intro undone_eq [OF assms(1)]) (simp_all add: accounts_bt_do do_account_rest)
  with assms(3-5) have "run_all apply_action [u] (do_account a w) = (Inr [us], w)"
    by (simp add: run_all.simps apply_on_accounts)
  then show ?thesis by (auto intro: alike_refl)
qed
section \<open>Every account action keeps the invariant and goes back\<close>

definition taken_back :: "action \<Rightarrow> world \<Rightarrow> action list \<Rightarrow> bool" where
  "taken_back a w undo \<longleftrightarrow>
     accounts_ok (do_account a w) \<and>
     (\<exists>us w''. run_all apply_action undo (do_account a w) = (Inr us, w'') \<and> alike w'' w)"

lemma accounts_okI:
  assumes "accounts_bt w"
    and "\<And>n g. map_of (w_groups w) n = Some g \<Longrightarrow> sorted (gf_members g) \<and> distinct (gf_members g) \<and>
      (\<forall>m \<in> set (gf_members g). map_of (w_users w) m \<noteq> None)"
    and "\<And>m n g h. map_of (w_groups w) m = Some g \<Longrightarrow> map_of (w_groups w) n = Some h \<Longrightarrow> gf_gid g = gf_gid h \<Longrightarrow> m = n"
    and "\<And>m n u v. map_of (w_users w) m = Some u \<Longrightarrow> map_of (w_users w) n = Some v \<Longrightarrow> uf_uid u = uf_uid v \<Longrightarrow> m = n"
    and "\<And>n u. map_of (w_users w) n = Some u \<Longrightarrow> \<exists>m g. map_of (w_groups w) m = Some g \<and> gf_gid g = uf_gid u"
  shows "accounts_ok w"
  using assms unfolding accounts_ok_def member_lists_def ids_unique_def gids_held_def by (auto simp: subset_iff)

lemma add_group_back:
  assumes w: "accounts_ok w" and a: "account_undo (AddGroup name gid) (world_accounts w) = Inr undo"
  shows "taken_back (AddGroup name gid) w undo"
proof -
  let ?a = "AddGroup name gid"
  note ok = accounts_okD [OF w]
  from a have name: "map_of (w_groups w) name = None" and u: "undo = [DeleteGroup name gid]"
    and free: "gid_free (world_accounts w) name gid = Inr ()" by (auto split: option.splits)
  have none: "gf_gid g \<noteq> gid" if "map_of (w_groups w) n = Some g" for n g
    using wa.gid_free_none [OF ok(1) free] name that by simp
  let ?w = "do_account ?a w"
  have gs: "map_of (w_groups ?w) n = (if n = name then Some \<lparr>gf_gid = gid, gf_members = []\<rparr> else map_of (w_groups w) n)" for n
    by simp
  have us: "w_users ?w = w_users w" by simp
  have "accounts_ok ?w"
  proof (rule accounts_okI [OF accounts_bt_do [OF ok(1)]])
    show "\<exists>m g. map_of (w_groups ?w) m = Some g \<and> gf_gid g = uf_gid u" if u: "map_of (w_users ?w) n = Some u" for n u
    proof -
      from ok(9) u us obtain m g where "map_of (w_groups w) m = Some g" "gf_gid g = uf_gid u" by metis
      with name gs [of m] show ?thesis by (intro exI [of _ m] exI [of _ g]) auto
    qed
    show "m = n" if "map_of (w_users ?w) m = Some u" "map_of (w_users ?w) n = Some v" "uf_uid u = uf_uid v" for m n u v
      using ok(8) that us by metis
    show "m = n" if "map_of (w_groups ?w) m = Some k" "map_of (w_groups ?w) n = Some h" "gf_gid k = gf_gid h" for m n k h
      using that ok(7) [of m k n h] none [of m] none [of n] unfolding gs by (auto split: if_splits)
    show "sorted (gf_members k) \<and> distinct (gf_members k) \<and> (\<forall>m \<in> set (gf_members k). map_of (w_users ?w) m \<noteq> None)"
      if "map_of (w_groups ?w) n = Some k" for n k
      using that ok(4-6) [of n k] unfolding gs us by (auto split: if_splits)
  qed
  moreover have "uf_gid v \<noteq> gid" if "map_of (w_users w) n = Some v" for n v
    using ok(9) [OF that] none by metis
  then have "ac_primary_of (world_accounts ?w) gid = None"
    by (subst wa.primary_none [OF accounts_bt_do [OF ok(1)]]) auto
  then have "\<exists>us w''. run_all apply_action [DeleteGroup name gid] ?w = (Inr us, w'') \<and> alike w'' w"
    using name by (intro undone_by_one [OF w]) (auto simp: expect_group_def)
  ultimately show ?thesis by (simp add: taken_back_def u)
qed

lemma set_group_gid_back:
  assumes w: "accounts_ok w" and a: "account_undo (SetGroupGid name gid expect) (world_accounts w) = Inr undo"
    "\<not> done_already (SetGroupGid name gid expect) (world_accounts w)"
  shows "taken_back (SetGroupGid name gid expect) w undo"
proof -
  let ?a = "SetGroupGid name gid expect" and ?w = "do_account (SetGroupGid name gid expect) w"
  note ok = accounts_okD [OF w]
  from a obtain g where g: "map_of (w_groups w) name = Some g" "gf_gid g = expect" "expect \<noteq> gid"
    and u: "undo = [SetGroupGid name expect gid]" and free: "gid_free (world_accounts w) name gid = Inr ()"
    by (auto simp: expect_group_Inr)
  have none: "gf_gid h \<noteq> gid" if "map_of (w_groups w) n = Some h" for n h
    by (rule wa.gid_free_none [OF ok(1) free]) (use g that in simp_all)
  then have nobody: "uf_gid v \<noteq> gid" if "map_of (w_users w) n = Some v" for n v
    using ok(9) [OF that] by metis
  have gs: "map_of (w_groups ?w) n = (if n = name then Some (g\<lparr>gf_gid := gid\<rparr>) else map_of (w_groups w) n)" for n
    using g(1) by (auto simp: set_group_def)
  have us: "map_of (w_users ?w) n = map_option (\<lambda>v. if uf_gid v = expect then v\<lparr>uf_gid := gid\<rparr> else v) (map_of (w_users w) n)" for n
    by simp
  have other: "n = name" if "map_of (w_groups w) n = Some h" "gf_gid h = expect" for n h
    using ok(7) [OF that(1) g(1)] that(2) g(2) by simp
  have "accounts_ok ?w"
  proof (rule accounts_okI [OF accounts_bt_do [OF ok(1)]])
    show "\<exists>m h. map_of (w_groups ?w) m = Some h \<and> gf_gid h = uf_gid v" if v: "map_of (w_users ?w) n = Some v" for n v
    proof -
      from v obtain v0 where v0: "map_of (w_users w) n = Some v0"
        "v = (if uf_gid v0 = expect then v0\<lparr>uf_gid := gid\<rparr> else v0)" unfolding us by auto
      from ok(9) [OF v0(1)] obtain m h where m: "map_of (w_groups w) m = Some h" "gf_gid h = uf_gid v0" by blast
      show ?thesis
      proof (cases "uf_gid v0 = expect")
        case True
        with v0 gs [of name] show ?thesis
          by (intro exI [of _ name] exI [of _ "g\<lparr>gf_gid := gid\<rparr>"]) (simp del: do_account.simps)
      next
        case False
        with m g(1,2) have "m \<noteq> name" by auto
        with m v0 False gs [of m] show ?thesis by auto
      qed
    qed
    show "m = n" if "map_of (w_users ?w) m = Some u" "map_of (w_users ?w) n = Some v" "uf_uid u = uf_uid v" for m n u v
    proof -
      from that(1,2) obtain u0 v0 where "map_of (w_users w) m = Some u0" "map_of (w_users w) n = Some v0"
        "uf_uid u0 = uf_uid u" "uf_uid v0 = uf_uid v" unfolding us by auto
      with ok(8) that(3) show ?thesis by metis
    qed
    show "m = n" if "map_of (w_groups ?w) m = Some k" "map_of (w_groups ?w) n = Some h" "gf_gid k = gf_gid h" for m n k h
      using that ok(7) [of m k n h] none [of m] none [of n] unfolding gs by (auto split: if_splits)
    show "sorted (gf_members k) \<and> distinct (gf_members k) \<and> (\<forall>m \<in> set (gf_members k). map_of (w_users ?w) m \<noteq> None)"
      if "map_of (w_groups ?w) n = Some k" for n k
      using that ok(4-6) [of n] g(1) unfolding gs us by (auto split: if_splits)
  qed
  moreover have "gid_free (world_accounts ?w) name expect = Inr ()"
    using other by (intro wa.gid_freeI accounts_bt_do ok(1)) (auto simp: gs simp del: do_account.simps split: if_splits)
  then have "\<exists>us w''. run_all apply_action [SetGroupGid name expect gid] ?w = (Inr us, w'') \<and> alike w'' w"
  proof (intro undone_by_one [OF w])
    show "map_of (w_groups (do_account (SetGroupGid name expect gid) ?w)) n = map_of (w_groups w) n" for n
      using g(1,2) by (cases "map_of (w_groups w) n") auto
    show "map_of (w_users (do_account (SetGroupGid name expect gid) ?w)) n = map_of (w_users w) n" for n
    proof (cases "map_of (w_users w) n")
      case (Some v)
      with nobody [OF Some] show ?thesis by (cases v) auto
    qed simp
  qed (use g(3) in \<open>auto simp: gs expect_group_def simp del: do_account.simps(2)\<close>)
  ultimately show ?thesis by (simp add: taken_back_def u)
qed
text \<open>Members.\<close>

lemma member_change_ok:
  assumes w: "accounts_ok w" and g: "map_of (w_groups w) grp = Some g"
    and h: "gf_gid h = gf_gid g" "sorted (gf_members h)" "distinct (gf_members h)"
      "\<And>m. m \<in> set (gf_members h) \<Longrightarrow> map_of (w_users w) m \<noteq> None"
    and w': "accounts_bt w'" "w_users w' = w_users w" "\<And>n. map_of (w_groups w') n = (if n = grp then Some h else map_of (w_groups w) n)"
  shows "accounts_ok w'"
proof (rule accounts_okI [OF w'(1)])
  note ok = accounts_okD [OF w]
  show "m = n" if "map_of (w_users w') m = Some u" "map_of (w_users w') n = Some v" "uf_uid u = uf_uid v" for m n u v
    using ok(8) that w'(2) by metis
  show "\<exists>m k. map_of (w_groups w') m = Some k \<and> gf_gid k = uf_gid u" if "map_of (w_users w') n = Some u" for n u
  proof -
    from that ok(9) w'(2) obtain m k where m: "map_of (w_groups w) m = Some k" "gf_gid k = uf_gid u" by metis
    show ?thesis
    proof (cases "m = grp")
      case True
      with m g h(1) w'(3) [of m] show ?thesis by (intro exI [of _ m] exI [of _ h]) simp
    next
      case False
      with m w'(3) [of m] show ?thesis by auto
    qed
  qed
  show "m = n" if "map_of (w_groups w') m = Some k" "map_of (w_groups w') n = Some l" "gf_gid k = gf_gid l" for m n k l
  proof -
    have "\<exists>g'. map_of (w_groups w) n = Some g' \<and> gf_gid g' = gf_gid k" if "map_of (w_groups w') n = Some k" for n k
      using that g h(1) by (auto simp: w'(3) split: if_splits)
    with that ok(7) show ?thesis by metis
  qed
  show "sorted (gf_members k) \<and> distinct (gf_members k) \<and> (\<forall>m \<in> set (gf_members k). map_of (w_users w') m \<noteq> None)"
    if "map_of (w_groups w') n = Some k" for n k
    using that h ok(4-6) [of n k] unfolding w'(2,3) by (auto split: if_splits)
qed

lemma members_of_group [simp]: "map_of (w_groups w) grp = Some g \<Longrightarrow> members (world_accounts w) grp = gf_members g"
  by (simp add: members_def)

lemma add_member_back:
  assumes w: "accounts_ok w" and a: "account_undo (AddMember grp user) (world_accounts w) = Inr undo"
    "\<not> done_already (AddMember grp user) (world_accounts w)"
  shows "taken_back (AddMember grp user) w undo"
proof -
  let ?a = "AddMember grp user" and ?w = "do_account (AddMember grp user) w"
  note ok = accounts_okD [OF w]
  from a obtain g where g: "map_of (w_groups w) grp = Some g" "user \<notin> set (gf_members g)"
    and user: "map_of (w_users w) user \<noteq> None" and u: "undo = [RemoveMember grp user]"
    by (auto split: if_splits)
  have "accounts_ok ?w"
    using ok(5,6) [OF g(1)] user g
    by (intro member_change_ok [OF w g(1), of "enrol user g"] accounts_bt_do ok(1)) (auto simp: distinct_enrol)
  moreover have "\<exists>us w''. run_all apply_action [RemoveMember grp user] ?w = (Inr us, w'') \<and> alike w'' w"
    using g ok(4) [OF g(1)] by (intro undone_by_one [OF w]) (auto simp: expel_enrol members_def)
  ultimately show ?thesis by (simp add: taken_back_def u)
qed

lemma remove_member_back:
  assumes w: "accounts_ok w" and a: "account_undo (RemoveMember grp user) (world_accounts w) = Inr undo"
    "\<not> done_already (RemoveMember grp user) (world_accounts w)"
  shows "taken_back (RemoveMember grp user) w undo"
proof -
  let ?a = "RemoveMember grp user" and ?w = "do_account (RemoveMember grp user) w"
  note ok = accounts_okD [OF w]
  from a obtain g where g: "map_of (w_groups w) grp = Some g" "user \<in> set (gf_members g)" and u: "undo = [AddMember grp user]"
    by (auto split: if_splits)
  have "accounts_ok ?w"
    using ok(4-6) [OF g(1)] g
    by (intro member_change_ok [OF w g(1), of "expel user g"] accounts_bt_do ok(1)) (auto simp: sorted_wrt_filter)
  moreover have "\<exists>us w''. run_all apply_action [AddMember grp user] ?w = (Inr us, w'') \<and> alike w'' w"
    using g ok(4-6) [OF g(1)] by (intro undone_by_one [OF w]) (auto simp: enrol_expel members_def)
  ultimately show ?thesis by (simp add: taken_back_def u)
qed

text \<open>A deleted group is made again and its members join it one after the other.\<close>

lemma join_group:
  assumes "accounts_bt w" "map_of (w_groups w) name = Some \<lparr>gf_gid = gid, gf_members = ms\<rparr>"
    "sorted (ms @ ns)" "distinct (ms @ ns)" "\<And>n. n \<in> set ns \<Longrightarrow> map_of (w_users w) n \<noteq> None"
  shows "\<exists>us w'. run_all apply_action (map (AddMember name) ns) w = (Inr us, w') \<and> accounts_bt w' \<and>
    but_accounts w' = but_accounts w \<and> w_users w' = w_users w \<and>
    map_of (w_groups w') = (map_of (w_groups w))(name := Some \<lparr>gf_gid = gid, gf_members = ms @ ns\<rparr>)"
  using assms
proof (induction ns arbitrary: ms w)
  case Nil
  then show ?case by (auto simp: fun_eq_iff)
next
  case (Cons n ns)
  let ?w = "do_account (AddMember name n) w"
  have "sorted (ms @ [n])" using Cons.prems(3) by (auto simp: sorted_append)
  then have e: "enrol n \<lparr>gf_gid = gid, gf_members = ms\<rparr> = \<lparr>gf_gid = gid, gf_members = ms @ [n]\<rparr>" by (simp add: enrol_last)
  have one: "apply_action (AddMember name n) w = (Inr [RemoveMember name n], ?w)"
    using Cons.prems by (simp add: apply_on_accounts members_def)
  have at: "map_of (w_groups ?w) = (map_of (w_groups w))(name := Some \<lparr>gf_gid = gid, gf_members = ms @ [n]\<rparr>)"
    using Cons.prems(2) e by (auto simp: fun_eq_iff)
  have us: "w_users ?w = w_users w" by simp
  have "\<exists>us w'. run_all apply_action (map (AddMember name) ns) ?w = (Inr us, w') \<and> accounts_bt w' \<and>
    but_accounts w' = but_accounts ?w \<and> w_users w' = w_users ?w \<and>
    map_of (w_groups w') = (map_of (w_groups ?w))(name := Some \<lparr>gf_gid = gid, gf_members = (ms @ [n]) @ ns\<rparr>)"
    using Cons.prems at by (intro Cons.IH accounts_bt_do) (auto simp del: do_account.simps simp: us)
  then obtain us w' where w': "run_all apply_action (map (AddMember name) ns) ?w = (Inr us, w')" "accounts_bt w'"
    "but_accounts w' = but_accounts w" "w_users w' = w_users w"
    "map_of (w_groups w') = (map_of (w_groups w))(name := Some \<lparr>gf_gid = gid, gf_members = ms @ n # ns\<rparr>)"
    by (auto simp: at do_account_rest simp del: do_account.simps) (simp add: do_account.simps)
  from one w'(1) have "run_all apply_action (map (AddMember name) (n # ns)) w = (Inr ([RemoveMember name n] # us), w')"
    by (simp add: run_all_Cons)
  with w' show ?case by blast
qed

lemma delete_group_back:
  assumes w: "accounts_ok w" and a: "account_undo (DeleteGroup name expect) (world_accounts w) = Inr undo"
  shows "taken_back (DeleteGroup name expect) w undo"
proof -
  let ?w = "do_account (DeleteGroup name expect) w"
  note ok = accounts_okD [OF w]
  from a obtain g where g: "map_of (w_groups w) name = Some g" "gf_gid g = expect"
    and nobody: "ac_primary_of (world_accounts w) expect = None"
    and u: "undo = AddGroup name expect # map (AddMember name) (gf_members g)"
    by (auto simp: expect_group_Inr split: option.splits)
  have gs: "map_of (w_groups ?w) n = (if n = name then None else map_of (w_groups w) n)" and us: "w_users ?w = w_users w" for n
    by simp_all
  have bt: "accounts_bt ?w" by (rule accounts_bt_do [OF ok(1)])
  have "accounts_ok ?w"
  proof (rule accounts_okI [OF bt])
    show "m = n" if "map_of (w_users ?w) m = Some u" "map_of (w_users ?w) n = Some v" "uf_uid u = uf_uid v" for m n u v
      using ok(8) that us by metis
    show "m = n" if "map_of (w_groups ?w) m = Some k" "map_of (w_groups ?w) n = Some h" "gf_gid k = gf_gid h" for m n k h
      using that ok(7) [of m k n h] unfolding gs by (auto split: if_splits)
    show "sorted (gf_members k) \<and> distinct (gf_members k) \<and> (\<forall>m \<in> set (gf_members k). map_of (w_users ?w) m \<noteq> None)"
      if "map_of (w_groups ?w) n = Some k" for n k
      using that ok(4-6) [of n k] unfolding gs us by (auto split: if_splits)
    show "\<exists>m k. map_of (w_groups ?w) m = Some k \<and> gf_gid k = uf_gid u" if u: "map_of (w_users ?w) n = Some u" for n u
    proof -
      from u us have u': "map_of (w_users w) n = Some u" by simp
      then have "uf_gid u \<noteq> expect" using nobody by (auto simp: wa.primary_none [OF ok(1)])
      moreover from ok(9) [OF u'] obtain m k where "map_of (w_groups w) m = Some k" "gf_gid k = uf_gid u" by blast
      ultimately show ?thesis using g gs [of m] by (intro exI [of _ m] exI [of _ k]) auto
    qed
  qed
  moreover have "gid_free (world_accounts ?w) name expect = Inr ()"
  proof (rule wa.gid_freeI [OF bt])
    show "n = name" if "ac_group (world_accounts ?w) n = Some h" "gf_gid h = expect" for n h
      using that ok(7) [OF _ g(1), of n h] g(2) by (auto simp: gs simp del: do_account.simps split: if_splits)
  qed
  then have add: "apply_action (AddGroup name expect) ?w = (Inr [DeleteGroup name expect], do_account (AddGroup name expect) ?w)"
    by (simp add: apply_on_accounts gs del: do_account.simps)
  let ?v = "do_account (AddGroup name expect) ?w"
  have "map_of (w_groups ?v) name = Some \<lparr>gf_gid = expect, gf_members = []\<rparr>" "w_users ?v = w_users w" by simp_all
  with join_group [OF accounts_bt_do [OF bt], of "AddGroup name expect" name expect "[]" "gf_members g"] ok(4-6) [OF g(1)]
  obtain us w'' where w'': "run_all apply_action (map (AddMember name) (gf_members g)) ?v = (Inr us, w'')" "accounts_bt w''"
    "but_accounts w'' = but_accounts w" "w_users w'' = w_users w"
    "map_of (w_groups w'') = (map_of (w_groups ?v))(name := Some \<lparr>gf_gid = expect, gf_members = gf_members g\<rparr>)"
    by (auto simp: do_account_rest simp del: do_account.simps)
  have "w'' = w"
  proof (rule undone_eq [OF w w''(2,3)])
    have "\<lparr>gf_gid = expect, gf_members = gf_members g\<rparr> = g" using g(2) by (cases g) simp
    then show "map_of (w_groups w'') n = map_of (w_groups w) n" for n by (simp add: w''(5) g(1))
  qed (simp add: w''(4))
  with w''(1) add have "run_all apply_action undo ?w = (Inr ([DeleteGroup name expect] # us), w)"
    by (simp add: run_all_Cons u del: do_account.simps)
  then have "\<exists>us w''. run_all apply_action undo ?w = (Inr us, w'') \<and> alike w'' w" by (metis alike_refl)
  ultimately show ?thesis by (simp add: taken_back_def)
qed
text \<open>Users.\<close>

lemma set_user_ids_back:
  assumes w: "accounts_ok w" and a: "account_undo (SetUserIds name ids expect) (world_accounts w) = Inr undo"
    "\<not> done_already (SetUserIds name ids expect) (world_accounts w)"
  shows "taken_back (SetUserIds name ids expect) w undo"
proof -
  let ?w = "do_account (SetUserIds name ids expect) w"
  note ok = accounts_okD [OF w]
  from a obtain u where u: "map_of (w_users w) name = Some u" "user_ids u = expect" "ids \<noteq> expect"
    and free: "uid_free (world_accounts w) name (fst ids) = Inr ()" and undo: "undo = [SetUserIds name expect ids]"
    and held: "ac_group_with_gid (world_accounts w) (snd ids) \<noteq> None"
    by (auto simp: expect_user_Inr split: if_splits)
  let ?u = "u\<lparr>uf_uid := fst ids, uf_gid := snd ids\<rparr>"
  have us: "map_of (w_users ?w) n = (if n = name then Some ?u else map_of (w_users w) n)" and gs: "w_groups ?w = w_groups w" for n
    using u(1) by simp_all
  have bt: "accounts_bt ?w" by (rule accounts_bt_do [OF ok(1)])
  have other: "n = name" if "map_of (w_users w) n = Some v" "uf_uid v = fst ids" for n v
  proof (cases "uf_uid u = fst ids")
    case True
    with that u(1) ok(8) show ?thesis by metis
  next
    case False
    with wa.uid_free_none [OF ok(1) free, of n v] u(1) that show ?thesis by auto
  qed
  have "accounts_ok ?w"
  proof (rule accounts_okI [OF bt])
    show "\<exists>m k. map_of (w_groups ?w) m = Some k \<and> gf_gid k = uf_gid v" if "map_of (w_users ?w) n = Some v" for n v
    proof (cases "n = name")
      case True
      with that have "v = ?u" unfolding us by simp
      with held show ?thesis by (auto simp: wa.gid_none [OF ok(1)] gs simp del: do_account.simps)
    next
      case False
      with that ok(9) [of n v] show ?thesis unfolding us gs by simp
    qed
    show "m = n" if "map_of (w_groups ?w) m = Some k" "map_of (w_groups ?w) n = Some h" "gf_gid k = gf_gid h" for m n k h
      using ok(7) that gs by metis
    show "m = n" if "map_of (w_users ?w) m = Some x" "map_of (w_users ?w) n = Some v" "uf_uid x = uf_uid v" for m n x v
      using that ok(8) [of m x n v] other [of m x] other [of n v] unfolding us by (auto split: if_splits)
    show "sorted (gf_members k) \<and> distinct (gf_members k) \<and> (\<forall>m \<in> set (gf_members k). map_of (w_users ?w) m \<noteq> None)"
      if "map_of (w_groups ?w) n = Some k" for n k
      using that ok(4-6) [of n k] unfolding gs us by (auto split: if_splits)
  qed
  moreover have "\<exists>us w''. run_all apply_action [SetUserIds name expect ids] ?w = (Inr us, w'') \<and> alike w'' w"
  proof (intro undone_by_one [OF w])
    have "user_ids ?u = ids" by (simp add: user_ids_def)
    moreover have "uid_free (world_accounts ?w) name (fst expect) = Inr ()"
    proof (rule wa.uid_freeI [OF bt])
      show "n = name" if "ac_user (world_accounts ?w) n = Some v" "uf_uid v = fst expect" for n v
        using that ok(8) [OF _ u(1), of n v] u(2) by (auto simp: us user_ids_def simp del: do_account.simps split: if_splits)
    qed
    moreover have "ac_group_with_gid (world_accounts ?w) (snd expect) \<noteq> None"
      using ok(9) [OF u(1)] u(2) by (simp add: wa.gid_none [OF bt] gs user_ids_def del: do_account.simps) force
    ultimately show "account_undo (SetUserIds name expect ids) (world_accounts ?w) = Inr [SetUserIds name ids expect]"
      by (simp add: us expect_user_def del: do_account.simps)
    show "\<not> done_already (SetUserIds name expect ids) (world_accounts ?w)"
      using u(3) by (simp add: us user_ids_def del: do_account.simps)
    show "map_of (w_users (do_account (SetUserIds name expect ids) ?w)) n = map_of (w_users w) n" for n
      using u(1,2) by (cases u) (auto simp: user_ids_def)
  qed simp_all
  ultimately show ?thesis by (simp add: taken_back_def undo)
qed

lemma add_user_back:
  assumes w: "accounts_ok w" "distinct (us_groups spec)" and a: "account_undo (AddUser spec) (world_accounts w) = Inr undo"
  shows "taken_back (AddUser spec) w undo"
proof -
  let ?w = "do_account (AddUser spec) w" and ?name = "us_name spec"
  note ok = accounts_okD [OF w(1)]
  from a have name: "map_of (w_users w) ?name = None" and free: "uid_free (world_accounts w) ?name (us_uid spec) = Inr ()"
    and miss: "missing_group (world_accounts w) spec = None"
    and undo: "undo = [DeleteUser ?name (us_uid spec, us_gid spec) (us_comment spec)]"
    by (auto split: option.splits)
  have us: "map_of (w_users ?w) n = (if n = ?name then Some (facts_of_spec spec) else map_of (w_users w) n)" for n
    by (simp add: fold_set_group)
  have gs: "map_of (w_groups ?w) n =
      (if n \<in> set (us_groups spec) then map_option (enrol ?name) (map_of (w_groups w) n) else map_of (w_groups w) n)" for n
    using w(2) by (simp add: fold_set_group)
  have bt: "accounts_bt ?w" by (rule accounts_bt_do [OF ok(1)])
  have out: "?name \<notin> set (gf_members g)" if "map_of (w_groups w) n = Some g" for n g
    using ok(6) [OF that] name by blast
  have none: "uf_uid v \<noteq> us_uid spec" if "map_of (w_users w) n = Some v" for n v
    using wa.uid_free_none [OF ok(1) free, of n v] name that by simp
  have old: "\<exists>g. map_of (w_groups w) n = Some g \<and> gf_gid g = gf_gid k" if "map_of (w_groups ?w) n = Some k" for n k
    using that unfolding gs by (auto split: if_splits)
  have keep: "\<exists>k. map_of (w_groups ?w) n = Some k \<and> gf_gid k = gf_gid g" if "map_of (w_groups w) n = Some g" for n g
    using that unfolding gs by auto
  have "accounts_ok ?w"
  proof (rule accounts_okI [OF bt])
    show "\<exists>m k. map_of (w_groups ?w) m = Some k \<and> gf_gid k = uf_gid v" if v: "map_of (w_users ?w) n = Some v" for n v
    proof (cases "n = ?name")
      case True
      with v have "uf_gid v = us_gid spec" unfolding us by (auto simp: facts_of_spec_def)
      moreover from miss obtain m g where "map_of (w_groups w) m = Some g" "gf_gid g = us_gid spec"
        by (auto simp: missing_group_None wa.gid_none [OF ok(1)])
      ultimately show ?thesis using keep by metis
    next
      case False
      with v have "map_of (w_users w) n = Some v" unfolding us by simp
      with ok(9) keep show ?thesis by metis
    qed
    show "m = n" if "map_of (w_groups ?w) m = Some k" "map_of (w_groups ?w) n = Some h" "gf_gid k = gf_gid h" for m n k h
      using old [OF that(1)] old [OF that(2)] that(3) ok(7) by metis
    show "m = n" if "map_of (w_users ?w) m = Some x" "map_of (w_users ?w) n = Some v" "uf_uid x = uf_uid v" for m n x v
      using that ok(8) [of m x n v] none [of m x] none [of n v] unfolding us by (auto simp: facts_of_spec_def split: if_splits)
    show "sorted (gf_members k) \<and> distinct (gf_members k) \<and> (\<forall>m \<in> set (gf_members k). map_of (w_users ?w) m \<noteq> None)"
      if k: "map_of (w_groups ?w) n = Some k" for n k
    proof -
      from k obtain g where g: "map_of (w_groups w) n = Some g" "k = g \<or> k = enrol ?name g"
        unfolding gs by (auto split: if_splits)
      with ok(4-6) [OF g(1)] out [OF g(1)] show ?thesis unfolding us by (auto simp: distinct_enrol)
    qed
  qed
  moreover have "\<exists>us w''. run_all apply_action undo ?w = (Inr us, w'') \<and> alike w'' w"
    unfolding undo
  proof (intro undone_by_one [OF w(1)])
    show "\<not> done_already (DeleteUser ?name (us_uid spec, us_gid spec) (us_comment spec)) (world_accounts ?w)"
      by (simp add: us del: do_account.simps)
    show "account_undo (DeleteUser ?name (us_uid spec, us_gid spec) (us_comment spec)) (world_accounts ?w) =
        Inr [AddUser (user_spec_of (world_accounts ?w) ?name (facts_of_spec spec))]"
      by (simp add: us expect_user_def user_ids_def facts_of_spec_def del: do_account.simps)
    show "map_of (w_users (do_account (DeleteUser ?name (us_uid spec, us_gid spec) (us_comment spec)) ?w)) n = map_of (w_users w) n" for n
      using us [of n] name by (simp del: do_account.simps add: do_account.simps(6))
    show "map_of (w_groups (do_account (DeleteUser ?name (us_uid spec, us_gid spec) (us_comment spec)) ?w)) n = map_of (w_groups w) n" for n
    proof (cases "map_of (w_groups w) n")
      case None
      with gs [of n] show ?thesis by (simp del: do_account.simps add: do_account.simps(6))
    next
      case (Some g)
      with gs [of n] expel_enrol [OF ok(4) [OF Some] out [OF Some]] expel_absent [OF out [OF Some]] show ?thesis
        by (simp del: do_account.simps add: do_account.simps(6))
    qed
  qed simp_all
  ultimately show ?thesis by (simp add: taken_back_def)
qed

lemma delete_user_back:
  assumes w: "accounts_ok w" and a: "account_undo (DeleteUser name expect comment) (world_accounts w) = Inr undo"
  shows "taken_back (DeleteUser name expect comment) w undo"
proof -
  let ?w = "do_account (DeleteUser name expect comment) w"
  note ok = accounts_okD [OF w]
  from a obtain u where u: "map_of (w_users w) name = Some u" and undo: "undo = [AddUser (user_spec_of (world_accounts w) name u)]"
    by (auto simp: expect_user_Inr split: if_splits)
  let ?spec = "user_spec_of (world_accounts w) name u"
  have us: "map_of (w_users ?w) n = (if n = name then None else map_of (w_users w) n)" for n by simp
  have gs: "map_of (w_groups ?w) n = map_option (expel name) (map_of (w_groups w) n)" for n by simp
  have bt: "accounts_bt ?w" by (rule accounts_bt_do [OF ok(1)])
  have spec: "us_name ?spec = name" "us_uid ?spec = uf_uid u" "us_gid ?spec = uf_gid u" "facts_of_spec ?spec = u"
    "us_groups ?spec = ac_groups_of (world_accounts w) name"
    by (simp_all add: user_spec_of_def facts_of_spec_def)
  have "accounts_ok ?w"
  proof (rule accounts_okI [OF bt])
    show "\<exists>m k. map_of (w_groups ?w) m = Some k \<and> gf_gid k = uf_gid v" if v: "map_of (w_users ?w) n = Some v" for n v
    proof -
      from v ok(9) [of n v] obtain m g where "map_of (w_groups w) m = Some g" "gf_gid g = uf_gid v"
        unfolding us by (auto split: if_splits)
      then show ?thesis unfolding gs by (intro exI [of _ m] exI [of _ "expel name g"]) simp
    qed
    show "m = n" if "map_of (w_groups ?w) m = Some k" "map_of (w_groups ?w) n = Some h" "gf_gid k = gf_gid h" for m n k h
    proof -
      from that(1,2) obtain k0 h0 where "map_of (w_groups w) m = Some k0" "map_of (w_groups w) n = Some h0"
        "gf_gid k0 = gf_gid k" "gf_gid h0 = gf_gid h" unfolding gs by auto
      with that(3) ok(7) show ?thesis by metis
    qed
    show "m = n" if "map_of (w_users ?w) m = Some x" "map_of (w_users ?w) n = Some v" "uf_uid x = uf_uid v" for m n x v
      using that ok(8) [of m x n v] unfolding us by (auto split: if_splits)
    show "sorted (gf_members k) \<and> distinct (gf_members k) \<and> (\<forall>m \<in> set (gf_members k). map_of (w_users ?w) m \<noteq> None)"
      if k: "map_of (w_groups ?w) n = Some k" for n k
    proof -
      from k obtain g where g: "map_of (w_groups w) n = Some g" "k = expel name g" unfolding gs by auto
      with ok(4-6) [OF g(1)] show ?thesis unfolding us by (auto simp: sorted_wrt_filter)
    qed
  qed
  moreover have "\<exists>us w''. run_all apply_action undo ?w = (Inr us, w'') \<and> alike w'' w"
    unfolding undo
  proof (intro undone_by_one [OF w])
    have "uid_free (world_accounts ?w) name (uf_uid u) = Inr ()"
    proof (rule wa.uid_freeI [OF bt])
      show "n = name" if "ac_user (world_accounts ?w) n = Some v" "uf_uid v = uf_uid u" for n v
        using that ok(8) [OF _ u, of n v] by (auto simp: us simp del: do_account.simps split: if_splits)
    qed
    moreover obtain m g where "map_of (w_groups w) m = Some g" "gf_gid g = uf_gid u" using ok(9) [OF u] by blast
    then have "missing_group (world_accounts ?w) ?spec = None"
      using wa.groups_of [OF ok(1), of _ name]
      by (intro wa.no_missing_group [OF bt, of m "expel name g"]) (auto simp: gs spec simp del: do_account.simps)
    ultimately show "account_undo (AddUser ?spec) (world_accounts ?w) = Inr [DeleteUser name (uf_uid u, uf_gid u) (us_comment ?spec)]"
      by (simp add: us spec del: do_account.simps)
    show "\<not> done_already (AddUser ?spec) (world_accounts ?w)" by (simp add: us spec del: do_account.simps)
    have d: "distinct (us_groups ?spec)" using wa.groups_of_distinct [OF ok(1)] by (simp add: spec)
    show "map_of (w_users (do_account (AddUser ?spec) ?w)) n = map_of (w_users w) n" for n
      using u us [of n] by (simp del: do_account.simps add: fold_set_group spec do_account.simps(4))
    show "map_of (w_groups (do_account (AddUser ?spec) ?w)) n = map_of (w_groups w) n" for n
    proof -
      have at: "map_of (w_groups (do_account (AddUser ?spec) ?w)) n = (if n \<in> set (us_groups ?spec)
          then map_option (enrol name) (map_of (w_groups ?w) n) else map_of (w_groups ?w) n)"
        by (simp del: do_account.simps add: fold_set_group(1) [OF d] spec(1) do_account.simps(4))
      show ?thesis
      proof (cases "map_of (w_groups w) n")
        case None
        then show ?thesis unfolding at gs by simp
      next
        case (Some g)
        then have "n \<in> set (us_groups ?spec) \<longleftrightarrow> name \<in> set (gf_members g)"
          using wa.groups_of [OF ok(1), of n name] by (simp add: spec)
        with Some enrol_expel [OF ok(4,5) [OF Some]] expel_absent [of name g] show ?thesis unfolding at gs by auto
      qed
    qed
  qed simp_all
  ultimately show ?thesis by (simp add: taken_back_def)
qed

end
