(* ===== verification/World_Rollback.thy ===== *)
theory World_Rollback
  imports World_Accounts
begin

text \<open>
  The model machine is an instance of \<open>undo_laws\<close>: undo actions cannot tell machines apart that are
  alike, every action that can be undone keeps the invariants, and its undo actions bring the
  machine back. What follows for the journal's rollback is stated as properties.
\<close>

section \<open>Undo actions on machines that are alike\<close>

fun backward :: "action \<Rightarrow> bool" where
  "backward (RemoveCreated _ _) = True"
| "backward (RemoveCreatedTree _ _) = True"
| "backward (Restore _ _ _) = True"
| "backward (SetMode _ _ _) = True"
| "backward (SetOwner _ _ _) = True"
| "backward (Keep _) = True"
| "backward a = on_accounts a"

lemma spot_cong:
  assumes "file_at a = file_at b"
  shows "spot_of a = spot_of b"
  by (rule ext) (unfold spot_of_def parent_is_dir_def is_dir_def assms, rule refl)

lemma restorable_cong:
  assumes "g_spot g = g_spot h"
  shows "restorable g p from e = restorable h p from e"
  by (unfold restorable_def assms, rule refl)

lemma alike_add: "alike a b \<Longrightarrow> alike (add_file p e a) (add_file p e b)"
  and alike_del: "alike a b \<Longrightarrow> alike (del_file p a) (del_file p b)"
  by (simp_all add: alike_def all_pending_def) (simp_all add: add_file_def del_file_def)

lemma alike_move_one: "alike a b \<Longrightarrow> alike (move_one r p q a) (move_one r p q b)"
  using alike_file_at [of a b] by (simp add: move_one_def alike_add alike_del split: option.split)

lemma alike_fold: "(\<And>x a b. alike a b \<Longrightarrow> alike (f x a) (f x b)) \<Longrightarrow> alike a b \<Longrightarrow> alike (fold f xs a) (fold f xs b)"
  by (induction xs arbitrary: a b) auto

lemma alike_paths_below: "alike a b \<Longrightarrow> paths_below p a = paths_below p b"
  by (simp add: alike_def paths_below_def range_from_def)

lemma alike_remove_tree: "alike a b \<Longrightarrow> alike (remove_tree p a) (remove_tree p b)"
  using alike_paths_below [of a b p] by (simp add: remove_tree_def alike_fold alike_del)

lemma alike_move_tree: "alike a b \<Longrightarrow> alike (move_tree r p a) (move_tree r p b)"
  using alike_paths_below [of a b r] by (simp add: move_tree_def alike_fold alike_move_one)

lemma alike_bring_back: "alike a b \<Longrightarrow> alike (bring_back p a) (bring_back p b)"
  by (simp add: alike_def all_pending_def)

lemma alike_unpend: "alike a b \<Longrightarrow> alike (unpend p a) (unpend p b)"
  by (simp add: alike_def all_pending_unpend)

lemma frame_set_group: "frame (set_group n f w) = set_group n f (frame w)"
  by (simp add: frame_def set_group_def split: option.split)

lemma frame_fold_group: "frame (fold (\<lambda>n. set_group n f) ns w) = fold (\<lambda>n. set_group n f) ns (frame w)"
  by (induction ns arbitrary: w) (simp_all add: frame_set_group)

lemma frame_set_user: "frame (set_user n f w) = set_user n f (frame w)"
  by (simp add: frame_def set_user_def split: option.split)

lemma frame_updates:
  "frame (w\<lparr>w_groups := gs\<rparr>) = (frame w)\<lparr>w_groups := gs\<rparr>" "frame (w\<lparr>w_users := us\<rparr>) = (frame w)\<lparr>w_users := us\<rparr>"
  by (simp_all add: frame_def)

lemma users_set_group: "w_users (set_group n f w) = w_users w"
  by simp

lemma frame_do_account: "frame (do_account a w) = do_account a (frame w)"
  by (cases a) (simp_all add: frame_set_group frame_set_user frame_fold_group frame_updates)

lemma but_accounts_fields:
  "but_accounts a = but_accounts b \<Longrightarrow> w_files a = w_files b \<and> w_pending a = w_pending b \<and> w_next a = w_next b \<and>
   w_aside a = w_aside b \<and> w_profiles a = w_profiles b \<and> w_acting a = w_acting b"
  by (cases a; cases b) (simp add: but_accounts_def)

lemma alike_do_account: "alike a b \<Longrightarrow> alike (do_account u a) (do_account u b)"
  using but_accounts_fields [OF do_account_rest, of u a] but_accounts_fields [OF do_account_rest, of u b]
  by (simp add: alike_def frame_do_account all_pending_def)

lemma alike_accounts: "alike a b \<Longrightarrow> world_accounts a = world_accounts b"
  using frameD(1,2) [of a b] by (simp add: alike_def world_accounts_def)

lemma alike_spot: "alike a b \<Longrightarrow> spot_of a = spot_of b"
  by (rule spot_cong) (rule alike_file_at)

lemma backward_alike:
  assumes "backward u" "alike s t" "apply_action u s = (Inr us, s')"
  shows "\<exists>t'. apply_action u t = (Inr us, t') \<and> alike s' t'"
proof (cases "on_accounts u")
  case True
  with assms(2,3) alike_accounts [OF assms(2)] alike_do_account [OF assms(2), of u] show ?thesis
    by (auto simp: apply_on_accounts split: sum.splits if_splits)
next
  case False
  with assms(1) have f: "on_files u" by (cases u) simp_all
  have c: "cleared u s = cleared u t"
    using assms(1) False alike_spot [OF assms(2)] restorable_cong [of "world_ground s" "world_ground t"]
    by (cases u) (simp_all add: cleared_def)
  from assms(3) obtain cl where cl: "cleared u s = Inr cl"
    by (auto simp: apply_on_files [OF f] split: sum.splits)
  show ?thesis
  proof (cases "cl = Clear_Done")
    case True
    with c cl have "cleared u t = Inr Clear_Done" by simp
    with True assms(2,3) cl show ?thesis by (simp add: apply_on_files [OF f])
  next
    case go: False
    with assms(3) cl have p: "perform u cl [] s = (Inr us, s')" by (simp add: apply_on_files [OF f])
    have "\<exists>t'. perform u cl [] t = (Inr us, t') \<and> alike s' t'"
      using assms(1) False p alike_file_at [OF assms(2)] assms(2)
      by (cases u) (auto simp: do_remove_created_def has_children_def range_from_def do_restore_def do_set_mode_def do_set_owner_def
        alike_unpend alike_bring_back alike_move_tree alike_remove_tree alike_add alike_del split: option.splits if_splits
        dest: alike_def [THEN iffD1])
    moreover from c cl have "cleared u t = Inr cl" by simp
    ultimately show ?thesis using go by (simp add: apply_on_files [OF f])
  qed
qed

section \<open>The model machine as an instance\<close>

definition reversible :: "action \<Rightarrow> world \<Rightarrow> bool" where
  "reversible a w \<longleftrightarrow>
     (if on_accounts a then (case a of AddUser spec \<Rightarrow> distinct (us_groups spec) | _ \<Rightarrow> True) else file_fits a w)"

definition world_ok :: "world \<Rightarrow> bool" where
  "world_ok w \<longleftrightarrow> machine_ok w \<and> accounts_ok w"

lemma accounts_ok_cong: "w_groups a = w_groups b \<Longrightarrow> w_users a = w_users b \<Longrightarrow> accounts_ok a = accounts_ok b"
  by (simp add: accounts_ok_def accounts_bt_def)

lemma machine_ok_cong:
  assumes "but_accounts a = but_accounts b"
  shows "machine_ok a = machine_ok b"
proof -
  note f = but_accounts_fields [OF assms]
  then have at: "file_at a = file_at b" by (simp add: file_at_def fun_eq_iff)
  with f show ?thesis
    by (simp add: machine_ok_def files_ok_def tree_shaped_iff known_paths_def all_pending_def)
qed

lemma account_action_back:
  assumes "accounts_ok w" "on_accounts a" "reversible a w" "apply_action a w = (Inr undo, w')"
  shows "w' = w \<and> undo = [] \<or> w' = do_account a w \<and> taken_back a w undo"
proof (cases "done_already a (world_accounts w)")
  case True
  with assms(2,4) show ?thesis by (simp add: apply_on_accounts)
next
  case False
  with assms(2,4) have u: "account_undo a (world_accounts w) = Inr undo" "w' = do_account a w"
    by (auto simp: apply_on_accounts split: sum.splits)
  have "taken_back a w undo"
    using assms(1-3) u(1) False
    by (cases a) (auto simp: reversible_def intro: add_group_back set_group_gid_back delete_group_back add_user_back
      set_user_ids_back delete_user_back add_member_back remove_member_back simp del: account_undo.simps done_already.simps)
  with u(2) show ?thesis by simp
qed

lemma reversible_step:
  assumes w: "world_ok w" "reversible a w" and a: "apply_action a w = (Inr undo, w')"
  shows "world_ok w' \<and> w_acting w' = w_acting w \<and>
    (\<exists>us w''. run_all apply_action undo w' = (Inr us, w'') \<and> alike w'' w)"
proof (cases "on_accounts a")
  case True
  from w(1) have ok: "machine_ok w" "accounts_ok w" by (simp_all add: world_ok_def)
  from account_action_back [OF ok(2) True w(2) a] show ?thesis
  proof
    assume "w' = w \<and> undo = []"
    with w(1) show ?thesis by auto
  next
    assume "w' = do_account a w \<and> taken_back a w undo"
    with ok(1) machine_ok_cong [OF do_account_rest, of a w] but_accounts_fields [OF do_account_rest, of a w] show ?thesis by (auto simp: taken_back_def world_ok_def)
  qed
next
  case False
  with w have "machine_ok w" "file_fits a w" by (simp_all add: world_ok_def reversible_def)
  from file_action_back [OF this a] w(1) accounts_ok_cong [of w' w] show ?thesis
    by (auto simp: goes_back_def world_ok_def)
qed

lemma put_file_backward: "put_file p contents mode owner e w = (Inr undo, w') \<Longrightarrow> u \<in> set undo \<Longrightarrow> backward u"
  by (auto simp: put_file_def Let_def case_prod_unfold split: sum.splits expect.splits)

lemma reversible_backward:
  assumes "reversible a w" "apply_action a w = (Inr undo, w')" "u \<in> set undo"
  shows "backward u"
proof (cases "on_accounts a")
  case True
  with assms(2,3) show ?thesis
    by (cases a) (auto simp: apply_on_accounts split: sum.splits if_splits option.splits)
next
  case False
  with assms(1) have f: "file_fits a w" by (simp add: reversible_def)
  then have "on_files a" by (cases a) simp_all
  from assms(2,3) obtain c where "perform a c [] w = (Inr undo, w')"
    by (auto simp: apply_on_files [OF \<open>on_files a\<close>] split: sum.splits if_splits)
  with f assms(3) show ?thesis
    by (cases a) (auto simp: do_create_dir_def do_create_dirs_def do_set_mode_def do_set_owner_def do_set_aside_def
      do_reclaim_tree_def do_copy_tree_def Let_def case_prod_unfold put_file_backward split: clearance.splits option.splits if_splits)
qed

interpretation wr: undo_laws apply_action world_ok reversible backward alike
proof
  show "alike s s" for s by simp
  show "alike s s' \<Longrightarrow> alike s' s" for s s' by (rule alike_sym)
  show "alike s s' \<Longrightarrow> alike s' s'' \<Longrightarrow> alike s s''" for s s' s'' by (rule alike_trans)
  show "world_ok s \<Longrightarrow> reversible a s \<Longrightarrow> apply_action a s = (Inr undo, s') \<Longrightarrow> world_ok s'" for s a undo s'
    using reversible_step by blast
  show "reversible a s \<Longrightarrow> apply_action a s = (Inr undo, s') \<Longrightarrow> u \<in> set undo \<Longrightarrow> backward u" for s a undo s' u
    by (rule reversible_backward)
  show "world_ok s \<Longrightarrow> reversible a s \<Longrightarrow> apply_action a s = (Inr undo, s') \<Longrightarrow>
      \<exists>us s''. run_all apply_action undo s' = (Inr us, s'') \<and> alike s'' s" for s a undo s'
    using reversible_step by blast
  show "backward u \<Longrightarrow> alike s t \<Longrightarrow> apply_action u s = (Inr us, s') \<Longrightarrow>
      \<exists>t'. apply_action u t = (Inr us, t') \<and> alike s' t'" for u s t us s'
    by (rule backward_alike)
qed

text \<open>Where the actions fit whatever the machine, as long as it acts for the same request.\<close>

lemma fits_all_static:
  "world_ok w \<Longrightarrow> \<forall>a \<in> set as. \<forall>w1. w_acting w1 = w_acting w \<longrightarrow> reversible a w1 \<Longrightarrow> fits_all reversible apply_action as w"
proof (induction as arbitrary: w)
  case (Cons a as)
  then have r: "reversible a w" by simp
  have "fits_all reversible apply_action as w1" if "apply_action a w = (Inr undo, w1)" for undo w1
    using reversible_step [OF Cons.prems(1) r that] Cons.prems(2) by (intro Cons.IH) auto
  with r show ?case by (auto split: prod.split sum.split)
qed simp

end
