(* ===== verification/World_Again.thy ===== *)
theory World_Again
  imports World_Rollback
begin

text \<open>
  What an undo action does to the model machine when it is not known whether it has anything to undo:
  before its action was done it does nothing, done again it changes nothing, and which request holds
  the machine makes no difference.
\<close>

section \<open>Which request holds the machine\<close>

definition held_by :: "string \<Rightarrow> world \<Rightarrow> world" where
  "held_by req w = w\<lparr>w_acting := req\<rparr>"

lemma held_by_file_at [simp]: "file_at (held_by req w) = file_at w"
  by (simp add: fun_eq_iff file_at_def held_by_def)

lemma held_by_spot [simp]: "spot_of (held_by req w) = spot_of w"
  by (rule spot_cong) simp

lemma held_by_accounts [simp]: "world_accounts (held_by req w) = world_accounts w"
  by (simp add: world_accounts_def held_by_def)

lemma held_by_held_by [simp]: "held_by r (held_by q w) = held_by r w"
  by (simp add: held_by_def)

lemma held_by_fields [simp]:
  "w_files (held_by req w) = w_files w" "w_pending (held_by req w) = w_pending w" "w_aside (held_by req w) = w_aside w"
  "w_profiles (held_by req w) = w_profiles w" "w_groups (held_by req w) = w_groups w" "w_users (held_by req w) = w_users w"
  "w_next (held_by req w) = w_next w" "w_acting (held_by req w) = req"
  by (simp_all add: held_by_def)

lemma held_by_ops [simp]:
  "add_file p e (held_by req w) = held_by req (add_file p e w)" "del_file p (held_by req w) = held_by req (del_file p w)"
  "paths_below p (held_by req w) = paths_below p w" "has_children p (held_by req w) = has_children p w"
  "unpend p (held_by req w) = held_by req (unpend p w)" "bring_back p (held_by req w) = held_by req (bring_back p w)"
  by (simp_all add: add_file_def del_file_def held_by_def paths_below_def range_from_def has_children_def unpend_def bring_back_def
    split: option.split)

lemma held_by_move_one [simp]: "move_one p q r (held_by req w) = held_by req (move_one p q r w)"
  by (simp add: move_one_def split: option.split)

lemma held_by_fold:
  "(\<And>x w. f x (held_by req w) = held_by req (f x w)) \<Longrightarrow> fold f xs (held_by req w) = held_by req (fold f xs w)"
  by (induction xs arbitrary: w) simp_all

lemma held_by_trees [simp]:
  "remove_tree p (held_by req w) = held_by req (remove_tree p w)" "move_tree p q (held_by req w) = held_by req (move_tree p q w)"
  by (simp_all add: remove_tree_def move_tree_def held_by_fold)

lemma held_by_groups:
  "set_group n f (held_by req w) = held_by req (set_group n f w)" "set_user n g (held_by req w) = held_by req (set_user n g w)"
  by (simp_all add: set_group_def set_user_def held_by_def split: option.split)

lemma held_by_do_account [simp]: "do_account a (held_by req w) = held_by req (do_account a w)"
proof -
  have "(held_by req w)\<lparr>w_groups := gs\<rparr> = held_by req (w\<lparr>w_groups := gs\<rparr>)" "(held_by req w)\<lparr>w_users := us\<rparr> = held_by req (w\<lparr>w_users := us\<rparr>)"
    for w gs us by (simp_all add: held_by_def)
  then show ?thesis by (cases a) (simp_all add: held_by_groups held_by_fold)
qed

lemma backward_held_by:
  assumes "backward u"
  shows "apply_action u (held_by req w) = (let (oc, w') = apply_action u w in (oc, held_by req w'))"
proof (cases "on_accounts u")
  case True
  then show ?thesis by (simp add: apply_on_accounts split: sum.split)
next
  case False
  with assms have f: "on_files u" by (cases u) simp_all
  have c: "cleared u (held_by req w) = cleared u w"
    using assms False restorable_cong [of "world_ground (held_by req w)" "world_ground w"]
    by (cases u) (simp_all add: cleared_def)
  have "perform u cl [] (held_by req w) = (let (oc, w') = perform u cl [] w in (oc, held_by req w'))" for cl
    using assms False
    by (cases u) (simp_all add: do_remove_created_def do_restore_def do_set_mode_def do_set_owner_def split: option.split)
  then show ?thesis by (simp add: apply_on_files [OF f] c split: sum.split)
qed

text \<open>Machines that are the same but for the request that holds them.\<close>

definition same_machine :: "world \<Rightarrow> world \<Rightarrow> bool" where
  "same_machine a b \<longleftrightarrow> alike (held_by [] a) (held_by [] b)"

lemma same_machine_refl [simp]: "same_machine a a"
  and same_machine_sym: "same_machine a b \<Longrightarrow> same_machine b a"
  and same_machine_trans: "same_machine a b \<Longrightarrow> same_machine b c \<Longrightarrow> same_machine a c"
  by (auto simp: same_machine_def intro: alike_sym alike_trans)

lemma same_machine_held_by [simp]: "same_machine (held_by req a) a" "same_machine a (held_by req a)"
  by (simp_all add: same_machine_def)

lemma alike_held_by: "alike a b \<Longrightarrow> alike (held_by req a) (held_by req b)"
proof -
  assume a: "alike a b"
  have "frame (held_by req w) = held_by req (frame w)" for w by (simp add: frame_def held_by_def)
  with a show ?thesis by (simp add: alike_def all_pending_def)
qed

lemma alike_same_machine: "alike a b \<Longrightarrow> same_machine a b"
  by (simp add: same_machine_def alike_held_by)

lemma same_machine_eq: "same_machine a b \<Longrightarrow> world_eq a b"
proof -
  assume "same_machine a b"
  then have "world_eq (held_by [] a) (held_by [] b)" by (simp add: same_machine_def alike_world_eq)
  then show ?thesis
    by (simp add: world_eq_def held_by_def comparable_files_def meaningful_units_def all_pending_def)
qed

lemma backward_same_machine:
  assumes b: "backward u" and s: "same_machine s t" and u: "apply_action u s = (Inr us, s')"
  shows "\<exists>t'. apply_action u t = (Inr us, t') \<and> same_machine s' t'"
proof -
  have "apply_action u (held_by [] s) = (Inr us, held_by [] s')" using backward_held_by [OF b, of "[]" s] u by simp
  from backward_alike [OF b s [unfolded same_machine_def] this] obtain t1 where
    t1: "apply_action u (held_by [] t) = (Inr us, t1)" "alike (held_by [] s') t1" by blast
  obtain oc t' where t': "apply_action u t = (oc, t')" by (cases "apply_action u t")
  with backward_held_by [OF b, of "[]" t] t1(1) have "oc = Inr us" "t1 = held_by [] t'" by simp_all
  with t1(2) t' show ?thesis by (auto simp: same_machine_def)
qed

section \<open>Identities\<close>

text \<open>The counter is ahead of every identity, so that what is new can be told from what was there.\<close>

definition ids_known :: "world \<Rightarrow> bool" where
  "ids_known w \<longleftrightarrow> (\<forall>p e. file_at w p = Some e \<longrightarrow> fid_ino (en_id e) < w_next w)"

lemma ids_add: "ids_known w \<Longrightarrow> fid_ino (en_id e) < w_next w \<Longrightarrow> ids_known (add_file p e w)"
  by (auto simp: ids_known_def file_at_def add_file_def)

lemma ids_del: "ids_known w \<Longrightarrow> ids_known (del_file p w)"
  by (auto simp: ids_known_def file_at_def del_file_def split: if_splits)

lemma ids_more: "ids_known w \<Longrightarrow> w_files w' = w_files w \<Longrightarrow> w_next w \<le> w_next w' \<Longrightarrow> ids_known w'"
  by (fastforce simp: ids_known_def file_at_def)

lemma ids_fresh: "ids_known w \<Longrightarrow> ids_known (snd (fresh w))"
  by (erule ids_more) (simp_all add: fresh_def)

lemma ids_place: "ids_known w \<Longrightarrow> ids_known (snd (place p c mode owner w))"
  using ids_add [OF ids_fresh] by (simp add: place_fresh) (simp add: fresh_def new_entry_def)

lemma ids_place_all: "ids_known w \<Longrightarrow> ids_known (snd (place_all items w))"
proof (induction items arbitrary: w)
  case (Cons item items)
  obtain p c mode owner where i: "item = (p, c, mode, owner)" by (cases item)
  from Cons.IH [OF ids_place [OF Cons.prems]] show ?case by (simp add: i case_prod_unfold Let_def)
qed simp

lemma ids_move_one: "ids_known w \<Longrightarrow> ids_known (move_one p q old w)"
  using ids_add [OF ids_del] by (auto simp: move_one_def ids_known_def [of w] split: option.split)

lemma ids_fold: "(\<And>x w. ids_known w \<Longrightarrow> ids_known (f x w)) \<Longrightarrow> ids_known w \<Longrightarrow> ids_known (fold f xs w)"
  by (induction xs arbitrary: w) simp_all

lemma ids_trees: "ids_known w \<Longrightarrow> ids_known (remove_tree p w)" "ids_known w \<Longrightarrow> ids_known (move_tree p q w)"
  by (simp_all add: remove_tree_def move_tree_def ids_fold ids_del ids_move_one)

lemma ids_others:
  "ids_known w \<Longrightarrow> ids_known (pend p w)" "ids_known w \<Longrightarrow> ids_known (unpend p w)" "ids_known w \<Longrightarrow> ids_known (bring_back p w)"
  "ids_known w \<Longrightarrow> ids_known (aside_profile p r w)"
  by (erule ids_more, auto simp: aside_profile_def split: option.split)+

lemma next_place: "w_next (snd (place p c mode owner w)) = Suc (w_next w)"
  by (simp add: place_fresh)

lemma ids_put_file: "ids_known w \<Longrightarrow> ids_known (snd (put_file p contents mode owner e w))"
proof -
  assume w: "ids_known w"
  let ?fid = "fst (fresh w)" and ?w1 = "snd (fresh w)"
  have "ids_known (snd (sibling p ''backup'' ?w1))" using ids_fresh [OF ids_fresh [OF w]] by (simp add: sibling_split)
  then have m: "ids_known (pend r (move_tree p r (snd (sibling p ''backup'' ?w1))))" for r by (intro ids_others ids_trees)
  have n: "w_next (move_tree p r v) = w_next v" for r v using frameD [OF move_tree_frame(1)] by simp
  have "fid_ino ?fid < w_next ?w1" "fid_ino ?fid < w_next (pend r (move_tree p r (snd (sibling p ''backup'' ?w1))))" for r
    by (simp_all add: n sibling_split) (simp_all add: fresh_def)
  with w m ids_fresh [OF w] show ?thesis
    by (simp add: put_file_def Let_def case_prod_unfold new_entry_def ids_add split: sum.split expect.split)
qed

lemma ids_reversible:
  assumes w: "ids_known w" and a: "on_accounts a \<or> file_fits a w"
  shows "ids_known (snd (apply_action a w))"
proof (cases "on_accounts a")
  case True
  have "ids_known (do_account a w)"
    by (rule ids_more [OF w]) (use but_accounts_fields [OF do_account_rest, of a w] in simp_all)
  with w True show ?thesis by (simp add: apply_on_accounts split: sum.split)
next
  case False
  with a have f: "on_files a" "file_fits a w" by (cases a; simp)+
  note ids = ids_place ids_place_all ids_trees ids_others ids_put_file ids_fresh
  have "ids_known (snd (perform a c [] w))" for c
    using f w ids
    by (cases a) (auto simp: do_create_dir_def do_create_dirs_def do_set_mode_def do_set_owner_def do_set_aside_def
      do_reclaim_tree_def do_copy_tree_def sibling_split Let_def case_prod_unfold ids_known_def [of w] intro!: ids_add
      split: clearance.split option.split)
  with w show ?thesis by (simp add: apply_on_files [OF f(1)] split: sum.split)
qed

section \<open>Undo actions of what was not done\<close>

lemma spot_at: "spot_of w p = Spot_Present nd \<Longrightarrow> \<exists>e. file_at w p = Some e \<and> nd_id nd = en_id e"
  by (auto simp: spot_of_def split: if_splits sum.splits option.splits)

lemma remove_not_there:
  assumes "\<And>nd. spot_of w p = Spot_Present nd \<Longrightarrow> nd_id nd \<noteq> fid"
  shows "snd (apply_action (RemoveCreated p fid) w) = w \<and> snd (apply_action (RemoveCreatedTree p fid) w) = w"
proof (cases "removable p fid (spot_of w p)")
  case (Inr c)
  with assms have "c = Clear_Done" by (auto simp: removable_Inr split: if_splits)
  with Inr show ?thesis by (simp add: apply_on_files cleared_def)
qed (simp add: apply_on_files cleared_def)

lemma remove_missing:
  assumes "file_at w p = None"
  shows "snd (apply_action (RemoveCreated p fid) w) = w" "snd (apply_action (RemoveCreatedTree p fid) w) = w"
  using remove_not_there [of w p fid] spot_at [of w p] assms by auto

lemma remove_other:
  assumes "file_at w p = Some e" "en_id e \<noteq> fid"
  shows "snd (apply_action (RemoveCreatedTree p fid) w) = w"
  using remove_not_there [of w p fid] spot_at [of w p] assms by auto

lemma restore_missing:
  assumes "file_at w old = None"
  shows "\<exists>f. apply_action (Restore p old e) w = (Inl f, w)"
proof (cases "restorable (world_ground w) p old e")
  case (Inr x)
  with assms spot_at [of w old] show ?thesis by (auto simp: restorable_Inr)
qed (simp add: apply_on_files cleared_def and_go_def)

lemma refused_unchanged:
  assumes "on_files a \<or> on_accounts a" and "apply_action a w = (Inl f, w')"
  shows "w' = w"
proof (cases "on_accounts a")
  case True
  with assms(2) show ?thesis by (auto simp: apply_on_accounts split: sum.splits if_splits)
next
  case False
  with assms(1) have f: "on_files a" by simp
  with assms(2) show ?thesis
    by (cases a) (auto simp: apply_on_files do_create_dir_def do_create_dirs_def put_file_def do_set_mode_def do_set_owner_def
      do_set_aside_def do_reclaim_tree_def do_copy_tree_def do_remove_created_def do_restore_def Let_def case_prod_unfold
      split: sum.splits if_splits clearance.splits option.splits expect.splits)
qed

lemma place_all_fresh: "(q, fid) \<in> set (fst (place_all items w)) \<Longrightarrow> w_next w \<le> fid_ino fid"
proof (induction items arbitrary: w)
  case (Cons item items)
  obtain p c mode owner where i: "item = (p, c, mode, owner)" by (cases item)
  have "w_next w \<le> fid_ino (fst (place p c mode owner w))" by (simp add: place_fresh) (simp add: fresh_def)
  with Cons next_place [of p c mode owner w] show ?case
    by (fastforce simp: i case_prod_unfold Let_def)
qed simp

lemma set_same_entry: "files_ok w \<Longrightarrow> file_at w p = Some e \<Longrightarrow> add_file p e w = w"
proof -
  assume w: "files_ok w" "file_at w p = Some e"
  then have "w_files (add_file p e w) = w_files w" by (intro files_ext) (auto simp: fun_eq_iff)
  then show ?thesis by (cases w) (simp add: add_file_def)
qed

lemma mode_not_set:
  assumes w: "machine_ok w" and a: "apply_action (SetMode p mode expect) w = (Inr undo, w')"
  shows "undo = [SetMode p expect mode] \<and> snd (apply_action (SetMode p expect mode) w) = w"
proof -
  note sp = spot_present [OF machine_okD(2) [OF w]]
  from a obtain nd where "node_at p (spot_of w p) = Inr nd" "nd_mode nd = expect"
    by (auto simp: apply_on_files cleared_def split: sum.splits if_splits)
  then obtain e where e: "p \<noteq> []" "file_at w p = Some e" "en_mode e = expect" "spot_of w p = Spot_Present (node_of e)"
    by (auto simp: node_at_Inr sp)
  have "e\<lparr>en_mode := expect\<rparr> = e" using e(3) by simp
  with set_same_entry [OF machine_okD(1) [OF w] e(2)] a e show ?thesis
    by (auto simp: apply_on_files cleared_def node_at_def do_set_mode_def)
qed

lemma owner_not_set:
  assumes w: "machine_ok w" and a: "apply_action (SetOwner p owner expect) w = (Inr undo, w')"
  shows "undo = [SetOwner p expect owner] \<and> snd (apply_action (SetOwner p expect owner) w) = w"
proof -
  note sp = spot_present [OF machine_okD(2) [OF w]]
  from a obtain nd where "node_at p (spot_of w p) = Inr nd" "nd_owner nd = expect"
    by (auto simp: apply_on_files cleared_def split: sum.splits if_splits)
  then obtain e where e: "p \<noteq> []" "file_at w p = Some e" "en_owner e = expect" "spot_of w p = Spot_Present (node_of e)"
    by (auto simp: node_at_Inr sp)
  have "e\<lparr>en_owner := expect\<rparr> = e" using e(3) by simp
  with set_same_entry [OF machine_okD(1) [OF w] e(2)] a e show ?thesis
    by (auto simp: apply_on_files cleared_def node_at_def do_set_owner_def)
qed

lemma reclaim_not_done:
  assumes w: "machine_ok w" "ids_known w" and a: "apply_action (ReclaimTree p expect owner mode) w = (Inr undo, w')" and u: "u \<in> set undo"
  shows "snd (apply_action u w) = w"
proof -
  note ok = machine_okD [OF w(1)]
  let ?r = "sibling_of p ''aside'' w" and ?w1 = "snd (fresh w)"
  let ?items = "tree_items p p owner mode ?w1" and ?x = "move_tree p ?r ?w1"
  have sl: "slash \<notin> set ''aside''" by (simp add: slash_def)
  from a obtain c where c: "and_go (holding p expect (spot_of w p)) = Inr c"
    by (auto simp: apply_on_files cleared_def split: sum.splits)
  note p = holding_action(1,2) [OF w(1) c]
  have r: "file_at w ?r = None" using new_siblingD(5) [OF new_sibling_of [OF w(1) p sl]] by (simp add: known_paths_def)
  have ok1: "files_ok ?w1" using ok(1) by simp
  obtain fid where fid: "map_of (fst (place_all ?items ?x)) p = Some fid"
    using copied_top [OF ok1] p(2) by (metis fresh_simps(4))
  from a fid c have undo: "undo = [RemoveCreatedTree p fid, Restore p ?r Expect_Absent]"
    by (auto simp: apply_on_files cleared_def do_reclaim_tree_def case_prod_unfold Let_def sibling_split split: sum.splits)
  have "w_next ?x \<le> fid_ino fid" using place_all_fresh [OF map_of_SomeD [OF fid]] .
  moreover have "w_next ?x = w_next ?w1" by simp
  ultimately have "w_next w < fid_ino fid" by (simp add: fresh_def)
  moreover obtain e where "file_at w p = Some e" using p(2) by blast
  ultimately have "snd (apply_action (RemoveCreatedTree p fid) w) = w"
    using remove_other [of w p e fid] w(2) by (fastforce simp: ids_known_def)
  with u undo restore_missing [OF r, of p Expect_Absent] show ?thesis by auto
qed

lemma account_not_done:
  assumes "on_accounts a" "apply_action a w = (Inr undo, w')" "u \<in> set undo"
  shows "snd (apply_action u w) = w"
proof (cases "done_already a (world_accounts w)")
  case True
  with assms show ?thesis by (simp add: apply_on_accounts)
next
  case False
  with assms(1,2) have undo: "account_undo a (world_accounts w) = Inr undo"
    by (auto simp: apply_on_accounts split: sum.splits)
  with assms(1,3) False have "on_accounts u \<and> done_already u (world_accounts w)"
    by (cases a) (auto simp: expect_group_Inr expect_user_Inr user_spec_of_def user_ids_def members_def
      split: option.splits if_splits)
  then show ?thesis by (simp add: apply_on_accounts)
qed

text \<open>Before an action was done its undo actions do nothing.\<close>

lemma undo_of_undone:
  assumes w: "world_ok w" "ids_known w" "reversible a w" and a: "apply_action a w = (Inr undo, w')" and u: "u \<in> set undo"
  shows "snd (apply_action u w) = w"
proof (cases "on_accounts a")
  case True
  with account_not_done [OF _ a u] show ?thesis by blast
next
  case False
  with w have m: "machine_ok w" and f: "file_fits a w" by (simp_all add: world_ok_def reversible_def)
  note ok = machine_okD [OF m]
  show ?thesis
  proof (cases a)
    case (CreateDir p mode owner)
    with a have "spot_of w p = Spot_Missing" by (auto simp: apply_on_files cleared_def split: sum.splits)
    then have "file_at w p = None" by (auto simp: spot_missing [OF ok(2)])
    moreover from a CreateDir have "\<exists>fid. undo = [RemoveCreated p fid]"
      by (auto simp: apply_on_files cleared_def do_create_dir_def case_prod_unfold Let_def split: sum.splits)
    ultimately show ?thesis using u remove_missing(1) by auto
  next
    case (CreateDirs p mode owner)
    from a obtain c where c: "created_below (world_ground w) p = Inr c" by (auto simp: CreateDirs apply_on_files cleared_def split: sum.splits)
    show ?thesis
    proof (cases c)
      case (Clear_Below head_dir)
      from created_below_Below [OF c [unfolded Clear_Below]] have "file_at w head_dir = None"
        by (auto simp: spot_missing [OF ok(2)])
      moreover from a CreateDirs c Clear_Below have "\<exists>fid. undo = [RemoveCreatedTree head_dir fid]"
        by (auto simp: apply_on_files cleared_def do_create_dirs_def case_prod_unfold Let_def)
      ultimately show ?thesis using u remove_missing(2) by auto
    qed (use a u c CreateDirs in \<open>auto simp: apply_on_files cleared_def\<close>)
  next
    case (PutFile p contents mode owner e)
    with a obtain ow where put: "put_file p contents mode ow e w = (Inr undo, w')" by (auto simp: apply_on_files cleared_def)
    then obtain c where c: "and_go (expecting p e (spot_of w p)) = Inr c"
      by (cases "and_go (expecting p e (spot_of w p))") (auto simp: put_file_def simp del: and_go_Inr)
    show ?thesis
    proof (cases e)
      case Expect_Absent
      with c have "file_at w p = None" by (auto simp: expecting_Inr spot_missing [OF ok(2)])
      moreover from put c Expect_Absent have "\<exists>fid. undo = [RemoveCreated p fid]"
        by (auto simp: put_file_def case_prod_unfold Let_def simp del: and_go_Inr)
      ultimately show ?thesis using u remove_missing(1) by auto
    next
      case (Expect_Present old)
      with c have p: "p \<noteq> []" "file_at w p \<noteq> None" by (auto simp: expecting_Inr spot_present [OF ok(2)])
      let ?r = "sibling_of p ''backup'' (snd (fresh w))"
      have r: "file_at w ?r = None"
        using new_siblingD(5) [OF new_sibling_of [OF machine_ok_fresh [OF m] p(1), of "''backup''"]] p(2)
        by (simp add: known_paths_def slash_def)
      from put c Expect_Present obtain fid where "undo = [Restore p ?r (Expect_Present fid)]"
        by (auto simp: put_file_def case_prod_unfold Let_def sibling_split simp del: and_go_Inr)
      with u restore_missing [OF r, of p "Expect_Present fid"] show ?thesis by auto
    qed
  next
    case (SetMode p mode expect)
    with mode_not_set [OF m a [unfolded SetMode]] u show ?thesis by auto
  next
    case (SetOwner p owner expect)
    with owner_not_set [OF m a [unfolded SetOwner]] u show ?thesis by auto
  next
    case (SetAside p expect)
    note s = set_aside_action [OF m a [unfolded SetAside]]
    have "file_at w (sibling_of p ''aside'' w) = None" using new_siblingD(5) [OF s(4)] by (simp add: known_paths_def)
    from restore_missing [OF this, of p Expect_Absent] s(3) u show ?thesis by auto
  next
    case (Discard p expect)
    with a have "undo = [Keep p]" by (auto simp: apply_on_files cleared_def split: sum.splits if_splits)
    moreover have "unpend p w = w"
    proof -
      have "filter (\<lambda>q. q \<noteq> p) ps = ps" if "(k, ps) \<in> set (w_pending w)" for k ps
        using f that by (auto simp: Discard all_pending_def filter_id_conv)
      then have "bt_map (filter (\<lambda>q. q \<noteq> p)) (w_pending w) = w_pending w"
        by (auto simp: bt_map_def intro!: map_idI)
      then show ?thesis by (cases w) (simp add: unpend_def)
    qed
    ultimately show ?thesis using u by (simp add: apply_on_files cleared_def)
  next
    case (ReclaimTree p expect owner mode)
    with reclaim_not_done [OF m w(2)] a u show ?thesis by blast
  next
    case (CopyTree src to owner mode)
    with a have "spot_of w to = Spot_Missing" by (auto simp: apply_on_files cleared_def split: sum.splits)
    then have "file_at w to = None" by (auto simp: spot_missing [OF ok(2)])
    moreover from a CopyTree have "\<exists>fid. undo = [RemoveCreatedTree to fid]"
      by (auto simp: apply_on_files cleared_def do_copy_tree_def case_prod_unfold Let_def split: sum.splits if_splits)
    ultimately show ?thesis using u remove_missing(2) by auto
  qed (use f in simp_all)
qed

section \<open>Undo actions that are done again\<close>

lemma account_done_again:
  assumes "on_accounts a" "apply_action a w = (Inr undo, w')"
  shows "apply_action a w' = (Inr [], w')"
proof (cases "done_already a (world_accounts w)")
  case False
  with assms have u: "account_undo a (world_accounts w) = Inr undo" "w' = do_account a w"
    by (auto simp: apply_on_accounts split: sum.splits)
  then have "done_already a (world_accounts w')"
    using assms(1) by (cases a) (auto simp: expect_group_Inr expect_user_Inr fold_set_group facts_of_spec_def user_ids_def members_def
      split: option.splits if_splits)
  with assms(1) show ?thesis by (simp add: apply_on_accounts)
qed (use assms in \<open>simp add: apply_on_accounts\<close>)

lemma insert_twice: "bt_insert k v (bt_insert k v' m) = bt_insert k v m"
  by (induction m) auto

lemma moved_source_gone:
  assumes w: "files_ok w" and q: "path_parent q = path_parent p" "q \<noteq> []" and gone: "\<And>x. starts_with x p \<Longrightarrow> file_at w x = None"
  shows "file_at (move_tree q p w) q = None"
proof (cases "q = p")
  case True
  with gone have "paths_below q w = []" using set_paths_below [OF w, of q] by (auto simp flip: set_empty)
  with True gone [of q] show ?thesis by (simp add: move_tree_def)
next
  case False
  from q have b: "butlast q = butlast p" "p \<noteq> []" by (auto simp: path_parent_def split: if_splits)
  then have "length q = length p" using q(2) by (metis append_butlast_last_id length_append_singleton)
  with False have "apart q p" by (auto simp: apart_def starts_with_iff)
  from file_at_moved [OF w this gone] this show ?thesis by (simp add: patch_def apart_def)
qed

text \<open>Done a second time, an undo action is refused or leaves the machine as it is.\<close>

lemma undo_done_again:
  assumes b: "backward u" and w: "files_ok w" and u: "apply_action u w = (Inr us, w')" and again: "apply_action u w' = (Inr us', w'')"
  shows "alike w'' w'"
proof (cases "on_accounts u")
  case True
  with account_done_again [OF _ u] again show ?thesis by simp
next
  case False
  with b have f: "on_files u" by (cases u) simp_all
  from u obtain c where c: "cleared u w = Inr c" by (auto simp: apply_on_files [OF f] split: sum.splits)
  show ?thesis
  proof (cases "c = Clear_Done")
    case True
    with u c have "w' = w" by (simp add: apply_on_files [OF f])
    with again u show ?thesis by simp
  next
    case go: False
    with u c have p: "perform u c [] w = (Inr us, w')" by (simp add: apply_on_files [OF f])
    show ?thesis
    proof (cases u)
      case (RemoveCreated p fid)
      with p have "file_at w' p = None" by (auto simp: do_remove_created_def split: if_splits)
      from remove_missing(1) [OF this, of fid] again RemoveCreated show ?thesis by simp
    next
      case (RemoveCreatedTree p fid)
      with p have "file_at w' p = None" by (auto simp: file_at_remove_tree [OF w])
      from remove_missing(2) [OF this, of fid] again RemoveCreatedTree show ?thesis by simp
    next
      case (Restore p old e)
      with c have r: "restorable (world_ground w) p old e = Inr ()" by (auto simp: cleared_def)
      then have o: "path_parent old = path_parent p" "old \<noteq> []" by (simp_all add: restorable_Inr)
      have "file_at (move_tree old p (remove_tree p w)) old = None"
        by (rule moved_source_gone [OF files_ok_remove_tree [OF w] o]) (simp add: file_at_remove_tree [OF w])
      moreover from p Restore have "w' = unpend old (bring_back old (move_tree old p (remove_tree p w)))" by (simp add: do_restore_def)
      ultimately have "file_at w' old = None" by simp
      from restore_missing [OF this, of p e] again Restore show ?thesis by simp
    next
      case (SetMode p mode expect)
      with p obtain e where e: "file_at w p = Some e" "w' = add_file p (e\<lparr>en_mode := mode\<rparr>) w"
        by (auto simp: do_set_mode_def split: option.splits)
      with again SetMode have "w'' = w' \<or> w'' = add_file p (e\<lparr>en_mode := mode\<rparr>) w'"
        by (auto simp: apply_on_files do_set_mode_def split: sum.splits if_splits)
      with e show ?thesis by (auto simp: add_file_def insert_twice)
    next
      case (SetOwner p owner expect)
      with p obtain e where e: "file_at w p = Some e" "w' = add_file p (e\<lparr>en_owner := owner\<rparr>) w"
        by (auto simp: do_set_owner_def split: option.splits)
      with again SetOwner have "w'' = w' \<or> w'' = add_file p (e\<lparr>en_owner := owner\<rparr>) w'"
        by (auto simp: apply_on_files do_set_owner_def split: sum.splits if_splits)
      with e show ?thesis by (auto simp: add_file_def insert_twice)
    next
      case (Keep p)
      with p have "w' = unpend p w" by simp
      moreover have "w'' = unpend p w'" using again Keep by (simp add: apply_on_files cleared_def)
      moreover have "unpend p (unpend p w) = unpend p w" by (simp add: unpend_def bt_map_def split_beta)
      ultimately show ?thesis by simp
    qed (use b False in simp_all)
  qed
qed

lemma backward_files_ok:
  assumes b: "backward u" and w: "files_ok w"
  shows "files_ok (snd (apply_action u w))"
proof (cases "on_accounts u")
  case True
  have "w_files (do_account u w) = w_files w" using but_accounts_fields [OF do_account_rest, of u w] by simp
  with w True show ?thesis by (simp add: apply_on_accounts files_ok_def split: sum.split)
next
  case False
  with b have f: "on_files u" by (cases u) simp_all
  have "files_ok (snd (perform u c [] w))" for c
    using b False w
    by (cases u) (auto simp: do_remove_created_def do_restore_def do_set_mode_def do_set_owner_def files_ok_remove_tree split: option.split)
  with w show ?thesis by (simp add: apply_on_files [OF f] split: sum.split)
qed

end
