(* ===== verification/World_Properties.thy ===== *)
theory World_Properties
  imports World_Again
begin

text \<open>
  The properties of the model machine: a rollback brings it back, its invariants hold, a refused
  action changes nothing, and what an interrupted action leaves behind is recognised.
\<close>

section \<open>The new machine\<close>

lemma default_world_files:
  "map (\<lambda>x. (fst x, en_content (snd x))) (w_files default_world) =
   map (\<lambda>p. (p, Content_Directory)) [[], [''etc''], [''etc'', ''systemd''], [''etc'', ''systemd'', ''system''], [''home''],
     [''var''], [''var'', ''empty''], [''var'', ''lib'']]"
  by code_simp

lemma default_world_rest:
  "w_groups default_world = []" "w_users default_world = []" "w_profiles default_world = []" "w_aside default_world = []"
  "w_pending default_world = []" "w_acting default_world = ''model''" "w_next default_world = 9"
  by code_simp+

lemma default_world_paths:
  "file_at default_world p \<noteq> None \<longleftrightarrow>
    p \<in> {[], [''etc''], [''etc'', ''systemd''], [''etc'', ''systemd'', ''system''], [''home''], [''var''], [''var'', ''empty''], [''var'', ''lib'']}"
proof -
  have "map fst (w_files default_world) = map fst (map (\<lambda>x. (fst x, en_content (snd x))) (w_files default_world))" by (simp add: comp_def)
  then show ?thesis unfolding file_at_keys default_world_files by simp
qed

lemma default_world_dirs: "file_at default_world p = Some e \<Longrightarrow> en_content e = Content_Directory"
proof -
  assume "file_at default_world p = Some e"
  then have "(p, e) \<in> set (w_files default_world)" by (simp add: file_at_def map_of_SomeD)
  then have "(p, en_content e) \<in> set (map (\<lambda>x. (fst x, en_content (snd x))) (w_files default_world))" by force
  then show ?thesis unfolding default_world_files by auto
qed

lemma no_dash_not_numbered: "CHR ''-'' \<notin> set c \<Longrightarrow> \<not> numbered acting n c"
  by (auto simp: numbered_def suffix_def)

lemma default_world_ok: "world_ok default_world"
proof -
  have dir: "is_dir default_world p" if "file_at default_world p \<noteq> None" for p
    using that default_world_dirs by (auto simp: is_dir_def)
  have "tree_shaped default_world"
    unfolding tree_shaped_def
  proof (intro allI impI)
    fix p e assume "file_at default_world p = Some e"
    then have "p \<in> {[], [''etc''], [''etc'', ''systemd''], [''etc'', ''systemd'', ''system''], [''home''], [''var''],
        [''var'', ''empty''], [''var'', ''lib'']}" by (simp only: default_world_paths [symmetric]) simp
    then have "p = [] \<or> file_at default_world (butlast p) \<noteq> None" by (auto simp: default_world_paths simp del: not_None_eq)
    with dir show "p = [] \<or> is_dir default_world (butlast p)" by blast
  qed
  moreover have "files_ok default_world"
  proof -
    have "map fst (w_files default_world) = map fst (map (\<lambda>x. (fst x, en_content (snd x))) (w_files default_world))" by (simp add: comp_def)
    then show ?thesis unfolding files_ok_def bt_ok_def default_world_files by simp
  qed
  moreover have "proper ''model'' 9 p" if "p \<in> known_paths default_world" for p
  proof -
    from that have "file_at default_world p \<noteq> None" by (simp add: known_paths_def all_pending_def default_world_rest)
    then show ?thesis unfolding default_world_paths
      by (auto simp: proper_def plain_component_def slash_def no_dash_not_numbered)
  qed
  ultimately have "machine_ok default_world" by (simp add: machine_ok_def default_world_rest slash_def)
  moreover have "accounts_ok default_world"
    by (simp add: accounts_ok_def accounts_bt_def member_lists_def ids_unique_def gids_held_def default_world_rest)
  ultimately show ?thesis by (simp add: world_ok_def)
qed

definition sample_actions :: "action list" where
  "sample_actions =
     [AddGroup ''nixbld'' 30,
      AddUser \<lparr>us_name = ''nixbld1'', us_uid = 31, us_gid = 30, us_home = [''var'', ''empty''],
        us_shell = [''sbin'', ''nologin''], us_comment = ''Nix build user 1'', us_groups = [''nixbld'']\<rparr>,
      CreateDirs [''nix'', ''var'', ''nix''] (mode_of 7 5 5) None,
      PutFile [''etc'', ''nix.conf''] ''build-users-group = nixbld'' (mode_of 6 4 4) None Expect_Absent,
      SetAside [''var'', ''lib''] \<lparr>fid_dev = 1, fid_ino = 7, fid_born = Some (7, 0)\<rparr>,
      SetGroupGid ''nixbld'' 40 30]"

lemma sample_runs: "is_ok (fst (apply_all sample_actions default_world))"
  by code_simp

section \<open>Rolling back\<close>

lemma backward_no_sync: "backward u \<Longrightarrow> \<not> is_sync u"
  by (cases u) (simp_all add: is_sync_def)

lemma run_no_syncs:
  "fits_all reversible apply_action as w \<Longrightarrow> run_all apply_action as w = (Inr undos, w') \<Longrightarrow>
   rollback_order undos = concat (rev undos)"
  using wr.run_backward backward_no_sync by (intro rollback_order_no_syncs ballI) blast


lemma sample_fits: "fits_all reversible apply_action sample_actions default_world"
proof (rule fits_all_static [OF default_world_ok], intro ballI allI impI)
  fix a and w1 :: world assume "a \<in> set sample_actions" "w_acting w1 = w_acting default_world"
  then show "reversible a w1"
    by (auto simp: sample_actions_def reversible_def default_world_rest)
      (simp_all add: proper_def plain_component_def slash_def no_dash_not_numbered)
qed




section \<open>Refusing, repeating\<close>

text \<open>C24: A file or account action that is refused has changed nothing, whatever the machine.\<close>

theorem refused_action_changes_nothing:
  assumes "on_files a \<or> on_accounts a" and "apply_action a w = (Inl f, w')"
  shows "w' = w"
  using assms by (rule refused_unchanged)

theorem refused_action_changes_nothing_witness:
  "\<exists>f w'. apply_action (CreateDir [''nix'', ''store''] 0 None) default_world = (Inl f, w') \<and> w' = default_world"
proof -
  have "\<not> is_ok (fst (apply_action (CreateDir [''nix'', ''store''] 0 None) default_world))" by code_simp
  then obtain f w' where "apply_action (CreateDir [''nix'', ''store''] 0 None) default_world = (Inl f, w')"
    by (cases "apply_action (CreateDir [''nix'', ''store''] 0 None) default_world") (auto simp: is_ok_def split: sum.splits)
  with refused_action_changes_nothing [of "CreateDir [''nix'', ''store''] 0 None"] show ?thesis by simp
qed

text \<open>C25: An account action that was done is done: repeating it, as a resumed run does, succeeds, changes
  nothing and leaves nothing to undo. So does starting or stopping a unit.\<close>

theorem repeating_changes_nothing:
  assumes "on_accounts a \<or> (\<exists>unit. a = StartUnit unit \<or> a = StopUnit unit)" and "apply_action a w = (Inr undo, w')"
  shows "apply_action a w' = (Inr [], w')"
proof (cases "on_accounts a")
  case True
  with account_done_again assms(2) show ?thesis by blast
next
  case False
  with assms(1) obtain unit where "a = StartUnit unit \<or> a = StopUnit unit" by blast
  then show ?thesis
  proof
    assume a: "a = StartUnit unit"
    have "ut_running (unit_at w' unit) \<noteq> None" using assms(2)
      by (auto simp: a apply_action_def cleared_def account_precondition_def do_start_unit_def loaded_unit_def Let_def case_prod_unfold
        unit_at_def set_unit_def fresh_def split: if_splits)
    then show ?thesis by (simp add: a apply_action_def)
  next
    assume a: "a = StopUnit unit"
    have "ut_running (unit_at w' unit) = None" using assms(2)
      by (auto simp: a apply_action_def cleared_def account_precondition_def do_stop_unit_def Let_def
        unit_at_def set_unit_def forget_unless_held_def split: if_splits)
    then show ?thesis by (simp add: a apply_action_def)
  qed
qed

theorem repeating_changes_nothing_witness:
  "\<exists>undo w'. apply_action (AddGroup ''nixbld'' 30) default_world = (Inr undo, w') \<and>
     apply_action (AddGroup ''nixbld'' 30) w' = (Inr [], w')"
proof -
  have "is_ok (fst (apply_action (AddGroup ''nixbld'' 30) default_world))" by code_simp
  then obtain undo w' where run: "apply_action (AddGroup ''nixbld'' 30) default_world = (Inr undo, w')"
    by (cases "apply_action (AddGroup ''nixbld'' 30) default_world") (auto simp: is_ok_def split: sum.splits)
  from repeating_changes_nothing [OF _ run] run show ?thesis by simp
qed

section \<open>What is left behind\<close>

lemma marked_leftover_skip: "marked_leftover (at + length pre) rest \<Longrightarrow> marked_leftover at (pre @ rest)"
  by (induction pre arbitrary: at) auto

lemma leftover_name:
  assumes "stem \<noteq> []" "number \<noteq> []" "purpose \<in> set LEFTOVER_PURPOSES"
  shows "is_leftover (''.'' @ stem @ ''.mix-'' @ purpose @ ''-'' @ number)"
proof -
  have "marked_leftover (0 + length stem) (''.mix-'' @ purpose @ ''-'' @ number)"
    using assms by (auto simp: leftover_marker_def Let_def starts_with_iff intro!: bexI [of _ purpose])
  from marked_leftover_skip [OF this] show ?thesis by (simp add: is_leftover_def)
qed

lemma sibling_is_leftover:
  assumes "p \<noteq> []" "last p \<noteq> []" "purpose \<in> set LEFTOVER_PURPOSES" "plain_component (last p)" "slash \<notin> set (w_acting w)"
  obtains name where "sibling_of p purpose w = butlast p @ [name]" "is_leftover (utf8_lossy name)"
proof -
  have ascii: "\<forall>c \<in> set purpose. (of_char c :: nat) < 0x80" "slash \<notin> set purpose"
    using assms(3) by (auto simp: LEFTOVER_PURPOSES_def slash_def)
  have lossy: "utf8_lossy (xs @ a @ ys) = utf8_lossy xs @ a @ utf8_lossy ys" if "a \<noteq> []" "\<forall>c \<in> set a. (of_char c :: nat) < 0x80" for a xs ys
    using that
  proof (induction a arbitrary: xs)
    case (Cons c a)
    then show ?case
      using utf8_lossy_ascii [of c xs "a @ ys"] Cons.IH [of "[]"] by (cases a) (simp_all add: utf8_lossy.simps [of "[]"])
  qed simp
  let ?number = "w_acting w @ ''-'' @ show_nat (w_next w)"
  define name where "name = ''.'' @ utf8_lossy (last p) @ (''.mix-'' @ purpose @ ''-'') @ ?number"
  have "plain_component name"
    using lossy_no_slash [of "last p"] assms(4,5) ascii(2) show_nat_free by (auto simp: plain_component_def name_def slash_def)
  then have "sibling_of p purpose w = butlast p @ [name]"
    using assms(1) path_join_plain
    by (simp add: sibling_of_def sibling_def Let_def case_prod_unfold fresh_def with_file_name_def file_name_def name_def)
  moreover have "utf8_lossy name = ''.'' @ utf8_lossy (utf8_lossy (last p)) @ (''.mix-'' @ purpose @ ''-'') @ utf8_lossy ?number"
    using lossy [of "''.''" "[]"] lossy [of "''.mix-'' @ purpose @ ''-''"] ascii(1) by (simp add: name_def utf8_lossy.simps [of "[]"])
  with leftover_name [of "utf8_lossy (utf8_lossy (last p))" "utf8_lossy ?number" purpose] assms(2,3)
  have "is_leftover (utf8_lossy name)" by simp
  ultimately show thesis by (rule that)
qed

text \<open>C26: What an action sets aside is a leftover: any other request that looks for leftovers in the
  directory finds it, while the request that is still to reclaim or restore it does not.\<close>

theorem set_aside_is_a_leftover:
  assumes "world_ok w" and "apply_action (SetAside p expect) w = (Inr [Restore p aside e], w')"
    and "path_parent p = Some dir" and "other \<noteq> w_acting w"
  shows "aside \<in> fst ` set (leftovers_answer (w'\<lparr>w_acting := other\<rparr>) dir) \<and> aside \<notin> fst ` set (leftovers_answer w' dir)"
proof -
  from assms(1) have m: "machine_ok w" by (simp add: world_ok_def)
  note s = set_aside_action [OF m assms(2)] and sib = new_siblingD [OF set_aside_action(4) [OF m assms(2)]]
  from s(3) have r: "sibling_of p ''aside'' w = aside" by simp
  note at = set_aside_asD(2) [OF s(6)]
  from s(2) obtain e0 where "file_at w p = Some e0" by blast
  with at have e0: "file_at w' aside = Some e0" by (simp add: r patch_def relocated_def original_def)
  then have mem: "(aside, e0) \<in> set (w_files w')" by (simp add: file_at_def map_of_SomeD)
  have uniq: "e = e0" if "(aside, e) \<in> set (w_files w')" for e
    using that e0 bt_ok_mem [of "w_files w'" aside] set_aside_asD(1) [OF s(6)] by (simp add: files_ok_def file_at_def)
  have dir: "path_parent aside = Some dir" using sib(1,2) assms(3) s(1) by (simp add: r path_parent_def)
  have "proper (w_acting w) (w_next w) p" using machine_okD(7) [OF m] s(2) by blast
  then have last: "plain_component (last p)" "last p \<noteq> []" using s(1) by (auto simp: proper_def plain_component_def)
  obtain name where name: "sibling_of p ''aside'' w = butlast p @ [name]" "is_leftover (utf8_lossy name)"
    using sibling_is_leftover [OF s(1) last(2) _ last(1) machine_okD(6) [OF m], of "''aside''"] by (auto simp: LEFTOVER_PURPOSES_def)
  then have fname: "file_name aside = Some name" by (simp add: r file_name_def)
  have pend: "map_of (w_pending w') k = (if k = w_acting w
      then Some ((case map_of (w_pending w) k of Some ps \<Rightarrow> ps | None \<Rightarrow> []) @ [aside]) else map_of (w_pending w) k)" for k
    by (simp add: s(7) r pend_def world_adopt_def)
  have "aside \<notin> set ps" if "map_of (w_pending w) other = Some ps" for ps
    using sib(5) map_of_SomeD [OF that] by (force simp: r known_paths_def all_pending_def)
  then have "(aside, e0) \<in> set (filter (\<lambda>(p, e). path_parent p = Some dir \<and>
      (case file_name p of Some name \<Rightarrow> is_leftover (utf8_lossy name) | None \<Rightarrow> False) \<and>
      \<not> (case map_of (w_pending w') other of Some own \<Rightarrow> p \<in> set own | None \<Rightarrow> False)) (w_files w'))"
    using mem dir fname name(2) assms(4) by (auto simp: pend split: option.split)
  then have "aside \<in> fst ` set (leftovers_answer (w'\<lparr>w_acting := other\<rparr>) dir)"
    by (force simp: leftovers_answer_def)
  moreover have "aside \<notin> fst ` set (leftovers_answer w' dir)"
    by (auto simp: leftovers_answer_def s(8) pend)
  ultimately show ?thesis by simp
qed

theorem set_aside_is_a_leftover_witness:
  "\<exists>undo w' aside. apply_action (SetAside [''var'', ''lib''] \<lparr>fid_dev = 1, fid_ino = 7, fid_born = Some (7, 0)\<rparr>) default_world = (Inr undo, w') \<and>
     aside \<in> fst ` set (leftovers_answer (w'\<lparr>w_acting := ''other''\<rparr>) [''var'']) \<and> aside \<notin> fst ` set (leftovers_answer w' [''var''])"
proof -
  let ?a = "SetAside [''var'', ''lib''] \<lparr>fid_dev = 1, fid_ino = 7, fid_born = Some (7, 0)\<rparr>"
  have "is_ok (fst (apply_action ?a default_world))" by code_simp
  then obtain undo w' where run: "apply_action ?a default_world = (Inr undo, w')"
    by (cases "apply_action ?a default_world") (auto simp: is_ok_def split: sum.splits)
  from default_world_ok have "machine_ok default_world" by (simp add: world_ok_def)
  from set_aside_action(3) [OF this run] run
  have "apply_action ?a default_world = (Inr [Restore [''var'', ''lib''] (sibling_of [''var'', ''lib''] ''aside'' default_world) Expect_Absent], w')"
    by simp
  from set_aside_is_a_leftover [OF default_world_ok this, of "[''var'']" "''other''"]
  have "sibling_of [''var'', ''lib''] ''aside'' default_world \<in> fst ` set (leftovers_answer (w'\<lparr>w_acting := ''other''\<rparr>) [''var'']) \<and>
    sibling_of [''var'', ''lib''] ''aside'' default_world \<notin> fst ` set (leftovers_answer w' [''var''])"
    by (simp add: path_parent_def default_world_rest)
  with run show ?thesis by blast
qed

end
