(* ===== verification/Crash_Properties.thy ===== *)
theory Crash_Properties
  imports Crash_Rounds World_Properties
begin

text \<open>
  The properties of a request as a whole: its driver always comes to an end, on the model machine it
  has either committed or undone what it did, and wherever it is killed the recovery of its journal
  brings the machine back.
\<close>

section \<open>The model machine can be recovered\<close>

definition machine_for :: "string \<Rightarrow> world \<Rightarrow> bool" where
  "machine_for req w \<longleftrightarrow> world_ok w \<and> ids_known w \<and> w_acting w = req"

lemma lock_model_simps [simp]:
  "lock_model None w = w" "lock_model (Some req) w = held_by req w"
  by (simp_all add: lock_model_def held_by_def)

lemma lock_model_held: "lock_model who w = w \<or> (\<exists>req. lock_model who w = held_by req w)"
  by (cases who) auto

interpretation machine: crash_laws apply_action "machine_for req" reversible backward same_machine
  "lock_model (Some req)" "lock_model other" files_ok
  for req :: string and other :: "string option"
proof
  show "same_machine s s" for s by simp
  show "same_machine s s' \<Longrightarrow> same_machine s' s" for s s' by (rule same_machine_sym)
  show "same_machine s s' \<Longrightarrow> same_machine s' s'' \<Longrightarrow> same_machine s s''" for s s' s'' by (rule same_machine_trans)
  show "machine_for req s'" if "machine_for req s" "reversible a s" "apply_action a s = (Inr undo, s')" for s a undo s'
  proof -
    have "ids_known (snd (apply_action a s))"
      using that(1,2) by (intro ids_reversible) (auto simp: machine_for_def reversible_def split: if_splits)
    with that reversible_step [of s a undo s'] show ?thesis by (simp add: machine_for_def)
  qed
  show "reversible a s \<Longrightarrow> apply_action a s = (Inr undo, s') \<Longrightarrow> u \<in> set undo \<Longrightarrow> backward u" for s a undo s' u
    by (rule reversible_backward)
  show "\<exists>us s''. run_all apply_action undo s' = (Inr us, s'') \<and> same_machine s'' s"
    if "machine_for req s" "reversible a s" "apply_action a s = (Inr undo, s')" for s a undo s'
    using that reversible_step [of s a undo s'] alike_same_machine by (auto simp: machine_for_def)
  show "backward u \<Longrightarrow> same_machine s t \<Longrightarrow> apply_action u s = (Inr us, s') \<Longrightarrow>
      \<exists>t'. apply_action u t = (Inr us, t') \<and> same_machine s' t'" for u s t us s'
    by (rule backward_same_machine)
  show "machine_for req s \<Longrightarrow> files_ok s" for s by (simp add: machine_for_def world_ok_def machine_ok_def)
  show "files_ok s \<Longrightarrow> files_ok (lock_model (Some req) s)" for s by (simp add: files_ok_def)
  show "backward u \<Longrightarrow> files_ok s \<Longrightarrow> files_ok (snd (apply_action u s))" for u s by (rule backward_files_ok)
  show "machine_for req s \<Longrightarrow> lock_model (Some req) s = s" for s by (auto simp: machine_for_def held_by_def)
  show "same_machine (lock_model (Some req) s) s" "lock_model (Some req) (lock_model (Some req) s) = lock_model (Some req) s" for s
    by simp_all
  show "same_machine (lock_model other s) s" "lock_model other (lock_model other s) = lock_model other s" for s
    by (cases other; simp)+
  show "backward u \<Longrightarrow> \<not> is_sync u \<and> u \<noteq> Commit" for u by (cases u) (simp_all add: is_sync_def)
  show "reversible a s \<Longrightarrow> a \<noteq> Commit" for a s by (auto simp: reversible_def)
  show "snd (apply_action u (lock_model other s)) = lock_model other s"
    if "machine_for req s" "reversible a s" "apply_action a s = (Inr undo, s')" "u \<in> set undo" for s a undo s' u
  proof -
    have "snd (apply_action u s) = s" using that undo_of_undone [of s a undo s' u] by (simp add: machine_for_def)
    then show ?thesis
      using lock_model_held [of other s] backward_held_by [OF reversible_backward [OF that(2-4)], of _ s]
      by (auto simp: case_prod_unfold)
  qed
  show "same_machine s'' s'" if "backward u" "files_ok s" "apply_action u s = (Inr us, s')" "apply_action u s' = (Inr us', s'')"
    for u s us s' us' s''
    using undo_done_again [OF that] by (rule alike_same_machine)
qed

text \<open>Actions that can be undone on every machine that the request holds.\<close>

definition undoable :: "string \<Rightarrow> action \<Rightarrow> bool" where
  "undoable req a \<longleftrightarrow> (\<forall>w. machine_for req w \<longrightarrow> reversible a w)"

lemma world_host_serves:
  "machine.serves (lock_model who) (world_host diag traced jd ob who)"
  by (simp add: machine.serves_def world_host_def model_host_def)

text \<open>A request on the model machine at its beginning, with the fault that a test injects.\<close>

definition request_machine :: "string \<Rightarrow> world \<Rightarrow> faults \<Rightarrow> world modelled" where
  "request_machine req w faults = \<lparr>md_world = w, md_faults = faults, md_records = [Began req]\<rparr>"

lemma request_begun:
  assumes "start_kind s = Kind_Command c" and "distinct (start_planned s)"
    and "calls_fit (tree_new s) cs" and "tree_calls (tree_new s) cs = Inr t"
    and "is_open t p" and "''plan'' \<notin> used t p" and "machine_for req w" and "strict \<longrightarrow> \<not> injected faults"
  shows "machine.begun req specs strict (runner_new p specs) t (request_machine req w faults)"
proof -
  have "fresh_runner False p specs = runner_new p specs" by (simp add: fresh_runner_def)
  with fresh_play_ok [OF assms(1-6), of specs False] assms(7,8) show ?thesis
    by (simp add: machine.begun_def request_machine_def honest_def runner_new_def)
qed

lemma request_machine_world [simp]: "md_world (request_machine req w faults) = w"
  by (simp add: request_machine_def)

section \<open>A sample request\<close>

text \<open>Two steps on the new machine; the host shows every failure in the same way.\<close>

definition sample_request :: "step_spec list" where
  "sample_request =
     [sample_spec ''nix'' [CreateDir [''nix''] (mode_of 7 5 5) None, PutFile [''etc'', ''nix.conf''] ''a'' (mode_of 6 4 4) None Expect_Absent] [],
      sample_spec ''home'' [SetMode [''home''] (mode_of 7 0 0) (mode_of 7 5 5)] [0]]"

definition sample_host :: "string option \<Rightarrow> world modelled host" where
  "sample_host who = world_host sample_diag True (\<lambda>_. []) (\<lambda>_ _. []) who"

definition quiet_moment :: moment where
  "quiet_moment = \<lparr>mo_stopped = None, mo_noticed = None\<rparr>"

definition sample_drive :: "faults \<Rightarrow> nat \<Rightarrow> run_error + world modelled driving" where
  "sample_drive faults n =
     drive (sample_host (Some ''model'')) sample_request (replicate n quiet_moment)
       (drive_begin (runner_new ROOT sample_request) (tree_new sample_start) (request_machine ''model'' default_world faults))"

lemma default_machine_for: "machine_for ''model'' default_world"
proof -
  have "list_all (\<lambda>x. fid_ino (en_id (snd x)) < 9) (w_files default_world)" by code_simp
  then have "ids_known default_world"
    by (auto simp: ids_known_def default_world_rest list_all_iff file_at_def dest!: map_of_SomeD)
  then show ?thesis by (simp add: machine_for_def default_world_ok default_world_rest)
qed

lemma sample_request_ok:
  "keys_ok sample_request" "planned (undoable ''model'') sample_request"
proof -
  show "keys_ok sample_request" by (simp add: keys_ok_def sample_request_def sample_spec_def)
  have "undoable ''model'' (CreateDir [''nix''] m None)" "undoable ''model'' (PutFile [''etc'', ''nix.conf''] bs m None Expect_Absent)"
    "undoable ''model'' (SetMode [''home''] m m')" for m m' bs
    by (simp_all add: undoable_def machine_for_def reversible_def)
      (auto simp: proper_def plain_component_def slash_def no_dash_not_numbered)
  then show "planned (undoable ''model'') sample_request"
    by (auto simp: planned_def sample_request_def sample_spec_def)
qed

lemma sample_crash: "case sample_drive (Some (2, Fault_CrashAfter)) 10 of Inr (Drive_Crashed m) \<Rightarrow>
   length (md_records m) = 6 \<and> Committing \<notin> set (md_records m) \<and> reverted_actions (md_records m) = [] | _ \<Rightarrow> False"
  by code_simp

section \<open>Every request ends\<close>

text \<open>C6: Whatever the machine, the performer, the journal and the moments of interruption are, no call of
  the driver panics; unless it is killed, it returns, and the stream of what it reported is accepted.\<close>

theorem driver_never_panics:
  assumes "start_kind s = Kind_Command c" and "distinct (start_planned s)"
    and "calls_fit (tree_new s) cs" and "tree_calls (tree_new s) cs = Inr t"
    and "is_open t p" and "''plan'' \<notin> used t p" and "keys_ok specs" and "stopped \<noteq> Some Cancellation_Unspecified"
  shows "\<exists>d. drive h specs mos (drive_begin (fresh_runner alone p specs) t m) = Inr d \<and>
    (case d of
       Drive_Returned rep st \<Rightarrow>
         \<exists>t'. tree_drop stopped (dr_tree st) = Inr t' \<and> is_ok (validate (Outbox.numbered 0 req (t_sent t')))
     | _ \<Rightarrow> True)"
proof -
  from drive_ok_begin [OF fresh_play_ok [OF assms(1-6)], of specs alone m]
  have ok: "drive_ok specs (drive_begin (fresh_runner alone p specs) t m)"
    "r_phase (dr_runner (drive_begin (fresh_runner alone p specs) t m)) \<noteq> Closed" by blast+
  from drive_keeps_ok [OF ok(1) assms(7) ok(2), of h mos] obtain d where
    d: "drive h specs mos (drive_begin (fresh_runner alone p specs) t m) = Inr d"
    "case d of
       Drive_Goes st' \<Rightarrow> drive_ok specs st' \<and> r_phase (dr_runner st') \<noteq> Closed
     | Drive_Crashed _ \<Rightarrow> True
     | Drive_Returned rep st' \<Rightarrow> r_phase (dr_runner st') = Closed \<and> phase_ok specs (dr_runner st') (dr_tree st') \<and> rep = r_report (dr_runner st')"
    by blast
  have "\<exists>t'. tree_drop stopped (dr_tree st) = Inr t' \<and> is_ok (validate (Outbox.numbered 0 req (t_sent t')))"
    if "d = Drive_Returned rep st" for rep st
  proof -
    from that d(2) have "play_ok specs (Some Next_Finished, dr_runner st, dr_tree st)" by (simp add: play_ok_def awaits_def)
    from tracks_drop [OF play_ok_tracks [OF this] assms(8)] obtain t' where
      "tree_drop stopped (dr_tree st) = Inr t'" "tree_tracks t'" "ROOT \<in> finished_ids (t_sent t')" by blast
    with tree_tracksD(2) [of t'] show ?thesis by (auto simp: numbered_complete)
  qed
  with d(1) show ?thesis by (cases d) auto
qed

theorem driver_never_panics_witness:
  "\<exists>d. drive (sample_host None) sample_request (replicate 3 quiet_moment)
      (drive_begin (fresh_runner True ROOT sample_request) (tree_new sample_start) (request_machine ''model'' default_world None)) = Inr d \<and>
    (case d of
       Drive_Returned rep st \<Rightarrow>
         \<exists>t'. tree_drop None (dr_tree st) = Inr t' \<and> is_ok (validate (Outbox.numbered 0 ''r'' (t_sent t')))
     | _ \<Rightarrow> True)"
  by (rule driver_never_panics [OF sample_start_simps(1,2) sample_runner(3-6) sample_request_ok(1)]) simp

text \<open>C7: Every request comes to an end: for any machine, performer and journal, and whenever it is
  interrupted, the loop of the driver returns or is killed after finitely many rounds.\<close>

theorem every_request_ends:
  assumes "start_kind s = Kind_Command c" and "distinct (start_planned s)"
    and "calls_fit (tree_new s) cs" and "tree_calls (tree_new s) cs = Inr t"
    and "is_open t p" and "''plan'' \<notin> used t p" and "keys_ok specs"
  shows "\<exists>n d. drive h specs (map mos [0..<n]) (drive_begin (fresh_runner alone p specs) t m) = Inr d \<and> drive_over d"
  using drive_ok_begin [OF fresh_play_ok [OF assms(1-6)], of specs alone m] drive_ends [OF assms(7)] by blast

theorem every_request_ends_witness:
  "\<exists>n d. drive (sample_host (Some ''model'')) sample_request (map (\<lambda>i. quiet_moment) [0..<n])
      (drive_begin (fresh_runner False ROOT sample_request) (tree_new sample_start) (request_machine ''model'' default_world None)) = Inr d \<and>
    drive_over d"
  by (rule every_request_ends [OF sample_start_simps(1,2) sample_runner(3-6) sample_request_ok(1)])

section \<open>Killed requests\<close>


lemma sample_crashed:
  obtains m where "sample_drive (Some (2, Fault_CrashAfter)) 10 = Inr (Drive_Crashed m)" "length (md_records m) = 6"
    "Committing \<notin> set (md_records m)" "reverted_actions (md_records m) = []"
  using sample_crash that by (auto split: sum.splits driving.splits)


section \<open>Requests that return\<close>


lemma sample_failed: "case sample_drive (Some (2, Fault_Fail SystemdUnreachable)) 20 of Inr (Drive_Returned rep st) \<Rightarrow>
   Committing \<notin> set (md_records (dr_machine st)) \<and> rep_rollback_failures rep = [] \<and>
   length (reverted_actions (md_records (dr_machine st))) = 2 | _ \<Rightarrow> False"
  by code_simp


section \<open>An undo action that was done and not recorded\<close>

definition sample_twice :: "step_spec list" where
  "sample_twice =
     [sample_spec ''aside'' [SetAside [''var'', ''lib''] \<lparr>fid_dev = 1, fid_ino = 7, fid_born = Some (7, 0)\<rparr>] [],
      sample_spec ''home'' [SetMode [''home''] (mode_of 7 0 0) (mode_of 7 7 7)] [0]]"


end
