(* ===== verification/Nix_Ast.thy ===== *)
theory Nix_Ast
  imports Text
begin

text \<open>
  The Nix expressions the program writes (\<open>nixgen/src/ident.rs\<close>, \<open>nixgen/src/ast.rs\<close>): which
  texts are identifiers, file names, relative paths and keys, sets of attributes as the sorted
  vectors they are, and the expressions themselves, with the well-formedness that the private
  fields of the Rust types guarantee.
\<close>

section \<open>Characters\<close>

definition is_lowercase :: "char \<Rightarrow> bool" where
  "is_lowercase c \<longleftrightarrow> 0x61 \<le> byte c \<and> byte c \<le> 0x7A"

definition is_uppercase :: "char \<Rightarrow> bool" where
  "is_uppercase c \<longleftrightarrow> 0x41 \<le> byte c \<and> byte c \<le> 0x5A"

definition is_alphabetic :: "char \<Rightarrow> bool" where
  "is_alphabetic c \<longleftrightarrow> is_lowercase c \<or> is_uppercase c"

definition is_alphanumeric :: "char \<Rightarrow> bool" where
  "is_alphanumeric c \<longleftrightarrow> is_alphabetic c \<or> is_digit c"

abbreviation (input) nul :: char where
  "nul \<equiv> CHR 0x00"

abbreviation (input) carriage_return :: char where
  "carriage_return \<equiv> CHR 0x0D"

abbreviation (input) quote :: char where
  "quote \<equiv> CHR 0x22"

abbreviation (input) backslash :: char where
  "backslash \<equiv> CHR 0x5C"

abbreviation (input) dollar :: char where
  "dollar \<equiv> CHR ''$''"

section \<open>Identifiers and file names\<close>

type_synonym ident = string
type_synonym nix_file_name = string

definition RESERVED_WORDS :: "string list" where
  "RESERVED_WORDS = [''assert'', ''else'', ''if'', ''in'', ''inherit'', ''let'', ''or'', ''rec'', ''then'', ''with'']"

definition is_reserved :: "string \<Rightarrow> bool" where
  "is_reserved s \<longleftrightarrow> s \<in> set RESERVED_WORDS"

definition ident_start :: "char \<Rightarrow> bool" where
  "ident_start c \<longleftrightarrow> is_alphabetic c \<or> c = CHR ''_''"

definition ident_more :: "char \<Rightarrow> bool" where
  "ident_more c \<longleftrightarrow> is_alphanumeric c \<or> c = CHR ''_'' \<or> c = CHR 0x27 \<or> c = CHR ''-''"

fun is_identifier :: "string \<Rightarrow> bool" where
  "is_identifier [] = False"
| "is_identifier (c # s) = (ident_start c \<and> list_all ident_more s \<and> \<not> is_reserved (c # s))"

definition ident_new :: "string \<Rightarrow> string + ident" where
  "ident_new s = (if is_identifier s then Inr s else Inl s)"

definition is_file_name :: "string \<Rightarrow> bool" where
  "is_file_name s \<longleftrightarrow> s \<noteq> [] \<and>
     list_all (\<lambda>i. let b = s ! i;
                       dot = (b = CHR ''.'' \<and> 0 < i \<and> Suc i < length s \<and> s ! (i - 1) \<noteq> CHR ''.'')
                   in is_lowercase b \<or> is_digit b \<or> (b = CHR ''-'' \<and> 0 < i) \<or> dot)
       [0..<length s]"

definition file_name_new :: "string \<Rightarrow> string + nix_file_name" where
  "file_name_new s = (if is_file_name s then Inr s else Inl s)"

lemma ident_new_iff [simp]: "ident_new s = Inr i \<longleftrightarrow> is_identifier s \<and> i = s"
  by (auto simp: ident_new_def)

section \<open>Keys, literals and paths\<close>

text \<open>A key derives its order: by the text, then by the flag.\<close>

datatype key = Key (key_text: string) (key_bare: bool)

instantiation key :: linorder
begin

definition less_eq_key :: "key \<Rightarrow> key \<Rightarrow> bool" where
  "less_eq_key a b \<longleftrightarrow> key_text a < key_text b \<or> (key_text a = key_text b \<and> (key_bare a \<longrightarrow> key_bare b))"

definition less_key :: "key \<Rightarrow> key \<Rightarrow> bool" where
  "less_key a b \<longleftrightarrow> key_text a < key_text b \<or> (key_text a = key_text b \<and> \<not> key_bare a \<and> key_bare b)"

instance
  by intro_classes (auto simp: less_eq_key_def less_key_def key.expand)

end

datatype nul_byte = NulByte

definition key_new :: "string \<Rightarrow> nul_byte + key" where
  "key_new s = (if nul \<in> set s then Inl NulByte else Inr (Key s (is_identifier s)))"

text \<open>A constant is checked when the program is compiled; \<open>None\<close> is the failed assertion.\<close>

definition key_new_static :: "string \<Rightarrow> key option" where
  "key_new_static s = (if nul \<in> set s then None else Some (Key s (is_identifier s)))"

definition key_of_ident :: "ident \<Rightarrow> key" where
  "key_of_ident i = Key i True"

type_synonym nix_str = string
type_synonym rel_path = string

definition nix_str_new :: "string \<Rightarrow> nul_byte + nix_str" where
  "nix_str_new s = (if nul \<in> set s then Inl NulByte else Inr s)"

text \<open>Text that needs no escape; \<open>verbatim_new\<close> is \<open>Verbatim::new\<close>.\<close>

definition is_verbatim :: "string \<Rightarrow> bool" where
  "is_verbatim s \<longleftrightarrow> list_all (\<lambda>b. b \<notin> {quote, backslash, carriage_return, dollar, nul}) s"

definition verbatim_new :: "string \<Rightarrow> string option" where
  "verbatim_new s = (if is_verbatim s then Some s else None)"

fun is_rel_path :: "string \<Rightarrow> bool" where
  "is_rel_path [] = False"
| "is_rel_path (c # s) =
     (c \<noteq> CHR ''.'' \<and> list_all (\<lambda>b. is_lowercase b \<or> is_digit b \<or> b = CHR ''-'' \<or> b = CHR ''.'') (c # s))"

definition rel_path_new :: "string \<Rightarrow> string + rel_path" where
  "rel_path_new s = (if is_rel_path s then Inr s else Inl s)"

lemma key_new_iff [simp]: "key_new s = Inr k \<longleftrightarrow> nul \<notin> set s \<and> k = Key s (is_identifier s)"
  by (auto simp: key_new_def)

lemma nix_str_new_iff [simp]: "nix_str_new s = Inr t \<longleftrightarrow> nul \<notin> set s \<and> t = s"
  by (auto simp: nix_str_new_def)

lemma rel_path_new_iff [simp]: "rel_path_new s = Inr p \<longleftrightarrow> is_rel_path s \<and> p = s"
  by (auto simp: rel_path_new_def)

lemma ident_chars: "ident_start c \<or> ident_more c \<Longrightarrow> c \<noteq> nul"
  by (auto simp: ident_start_def ident_more_def is_alphanumeric_def is_alphabetic_def
      is_lowercase_def is_uppercase_def is_digit_def byte_def)

lemma identifier_nul: "is_identifier i \<Longrightarrow> nul \<notin> set i"
  by (cases i) (use ident_chars [of nul] in \<open>auto simp: list_all_iff\<close>)

text \<open>An identifier makes the key that its text makes: the two constructors agree.\<close>

lemma key_of_ident_new: "is_identifier i \<Longrightarrow> key_new i = Inr (key_of_ident i)"
  by (simp add: key_of_ident_def identifier_nul)

text \<open>A file name is a path that can be written after \<open>./\<close>, so \<open>From<&FileName>\<close> keeps the
  well-formedness of \<open>RelPath\<close>.\<close>

lemma file_name_is_rel_path: "is_file_name s \<Longrightarrow> is_rel_path s"
proof (cases s)
  case (Cons c t)
  assume *: "is_file_name s"
  have "is_lowercase (s ! i) \<or> is_digit (s ! i) \<or> s ! i = CHR ''-'' \<or> s ! i = CHR ''.''"
    if "i < length s" for i
    using * that by (auto simp: is_file_name_def list_all_iff Let_def)
  then have "list_all (\<lambda>b. is_lowercase b \<or> is_digit b \<or> b = CHR ''-'' \<or> b = CHR ''.'') s"
    by (simp add: list_all_length)
  moreover have "is_lowercase (s ! 0) \<or> is_digit (s ! 0) \<or> False"
    using * Cons unfolding is_file_name_def Let_def list_all_iff
    by (metis atLeastLessThan_iff length_greater_0_conv less_numeral_extra(3) set_upt zero_le)
  then have "c \<noteq> CHR ''.''" using Cons by (auto simp: is_lowercase_def is_digit_def byte_def)
  ultimately show ?thesis using Cons by simp
qed (simp add: is_file_name_def)

section \<open>Sets of attributes\<close>

type_synonym 'e attr_set = "(key \<times> 'e) list"

text \<open>The vector is sorted by its keys, so the binary search finds the one entry of a key.\<close>

definition attrs_insert :: "key \<Rightarrow> 'e \<Rightarrow> 'e attr_set \<Rightarrow> 'e option \<times> 'e attr_set" where
  "attrs_insert k v m = (map_of m k, bt_insert k v m)"

text \<open>\<open>dedup_by\<close> with the closure of \<open>from_iter\<close>: of neighbours with one key the later value
  stays.\<close>

fun dedup_keys :: "'e attr_set \<Rightarrow> 'e attr_set" where
  "dedup_keys [] = []"
| "dedup_keys [x] = [x]"
| "dedup_keys (kept # later # es) =
     (if fst later = fst kept then dedup_keys ((fst kept, snd later) # es)
      else kept # dedup_keys (later # es))"

definition attrs_from_iter :: "(key \<times> 'e) list \<Rightarrow> 'e attr_set" where
  "attrs_from_iter es = dedup_keys (sort_key fst es)"

lemma dedup_keys_first: "dedup_keys (x # es) \<noteq> [] \<and> fst (hd (dedup_keys (x # es))) = fst x"
proof (induction es arbitrary: x)
  case (Cons y es)
  then show ?case using Cons [of "(fst x, snd y)"] by auto
qed simp

lemma fst_set_dedup_keys: "fst ` set (dedup_keys es) = fst ` set es"
  by (induction es rule: dedup_keys.induct) auto

lemma bt_ok_dedup_keys: "sorted (map fst es) \<Longrightarrow> bt_ok (dedup_keys es)"
  by (induction es rule: dedup_keys.induct) (auto simp: bt_ok_Cons fst_set_dedup_keys order_le_less)

lemma bt_ok_attrs_from_iter [simp]: "bt_ok (attrs_from_iter es)"
  by (simp add: attrs_from_iter_def bt_ok_dedup_keys)

lemma dedup_keys_same: "bt_ok es \<Longrightarrow> dedup_keys es = es"
  by (induction es rule: dedup_keys.induct) (auto simp: bt_ok_Cons)

lemma bt_ok_sorted: "bt_ok es \<Longrightarrow> sorted (map fst es)"
  by (simp add: bt_ok_def strict_sorted_imp_sorted)

lemma attrs_from_iter_same: "bt_ok es \<Longrightarrow> attrs_from_iter es = es"
  by (simp add: attrs_from_iter_def sort_key_id_if_sorted bt_ok_sorted dedup_keys_same)

text \<open>Looking up in sorted neighbours finds the last value given for the key.\<close>

lemma map_of_dedup_keys:
  "sorted (map fst es) \<Longrightarrow> map_of (dedup_keys es) k = map_of (rev es) k"
proof (induction es rule: dedup_keys.induct)
  case (3 kept later es)
  show ?case
  proof (cases "fst later = fst kept")
    case True
    then show ?thesis
      using 3 by (cases kept; cases later) (auto simp: map_add_def split: option.splits)
  next
    case False
    with 3(3) have "map_of (rev (later # es)) (fst kept) = None"
      by (auto simp: map_of_eq_None_iff)
    with False 3 show ?thesis
      by (cases kept) (auto simp: map_add_def split: option.splits)
  qed
qed auto

lemma map_of_fold_insert:
  "map_of (fold (\<lambda>(k, v). bt_insert k v) es m) k = (case map_of (rev es) k of Some v \<Rightarrow> Some v | None \<Rightarrow> map_of m k)"
  by (induction es arbitrary: m) (auto simp: map_add_def split: option.splits)

lemma bt_ok_fold_insert: "bt_ok m \<Longrightarrow> bt_ok (fold (\<lambda>(k, v). bt_insert k v) es m)"
  by (induction es arbitrary: m) auto

lemma map_of_rev_filter: "map_of (rev xs) k = map_of (rev (filter (\<lambda>p. fst p = k) xs)) k"
  by (induction xs) (auto simp: map_add_def split: option.splits)

lemma map_of_rev_sort_key: "map_of (rev (sort_key fst es)) k = map_of (rev es) (k :: 'k::linorder)"
  by (subst (1 2) map_of_rev_filter) (simp add: sort_key_stable)

lemma attrs_from_iter_fold: "attrs_from_iter es = fold (\<lambda>(k, v). bt_insert k v) es []"
  by (rule bt_ext)
    (auto simp: fun_eq_iff bt_ok_fold_insert attrs_from_iter_def map_of_dedup_keys map_of_rev_sort_key
      bt_ok_dedup_keys map_of_fold_insert split: option.splits)

section \<open>Expressions\<close>

datatype str_part = Lit nix_str | Interp expr
and expr =
    Str "str_part list"
  | Boolean bool
  | EList "expr list"
  | Attrs "(key \<times> expr) list"
  | Var ident
  | Select expr key "key list"
  | Apply expr expr
  | Lambda "ident list" bool expr
  | EPath rel_path

definition expr_string :: "string \<Rightarrow> nul_byte + expr" where
  "expr_string s = and_then (nix_str_new s) (\<lambda>t. Inr (Str [Lit t]))"

definition expr_attrs :: "(key \<times> expr) list \<Rightarrow> expr" where
  "expr_attrs es = Attrs (attrs_from_iter es)"

definition is_path :: "expr \<Rightarrow> bool" where
  "is_path e = (case e of EPath _ \<Rightarrow> True | _ \<Rightarrow> False)"

definition is_lambda :: "expr \<Rightarrow> bool" where
  "is_lambda e = (case e of Lambda _ _ _ \<Rightarrow> True | _ \<Rightarrow> False)"

definition is_select :: "expr \<Rightarrow> bool" where
  "is_select e = (case e of Select _ _ _ \<Rightarrow> True | _ \<Rightarrow> False)"

lemmas expr_kind_defs = is_path_def is_lambda_def is_select_def

text \<open>What the private fields of the types keep: a key's flag tells whether its text is an
  identifier, texts hold no null byte, formals and attributes are sorted without duplicates.\<close>

definition key_ok :: "key \<Rightarrow> bool" where
  "key_ok k \<longleftrightarrow> nul \<notin> set (key_text k) \<and> key_bare k = is_identifier (key_text k)"

fun expr_ok :: "expr \<Rightarrow> bool"
  and part_ok :: "str_part \<Rightarrow> bool" where
  "expr_ok (Str parts) \<longleftrightarrow> (\<forall>p \<in> set parts. part_ok p)"
| "expr_ok (Boolean b) \<longleftrightarrow> True"
| "expr_ok (EList es) \<longleftrightarrow> (\<forall>e \<in> set es. expr_ok e)"
| "expr_ok (Attrs kvs) \<longleftrightarrow> bt_ok kvs \<and> (\<forall>kv \<in> set kvs. key_ok (fst kv) \<and> expr_ok (snd kv))"
| "expr_ok (Var i) \<longleftrightarrow> is_identifier i"
| "expr_ok (Select e k ks) \<longleftrightarrow> expr_ok e \<and> key_ok k \<and> (\<forall>k' \<in> set ks. key_ok k')"
| "expr_ok (Apply f a) \<longleftrightarrow> expr_ok f \<and> expr_ok a"
| "expr_ok (Lambda formals ellipsis body) \<longleftrightarrow>
     sorted_wrt (<) formals \<and> (\<forall>i \<in> set formals. is_identifier i) \<and> expr_ok body"
| "expr_ok (EPath p) \<longleftrightarrow> is_rel_path p"
| "part_ok (Lit t) \<longleftrightarrow> nul \<notin> set t"
| "part_ok (Interp e) \<longleftrightarrow> expr_ok e"

lemma key_new_ok: "key_new s = Inr k \<Longrightarrow> key_ok k"
  by (simp add: key_ok_def)

lemma key_of_ident_ok: "is_identifier i \<Longrightarrow> key_ok (key_of_ident i)"
  by (simp add: key_ok_def key_of_ident_def identifier_nul)

lemma dedup_keys_mem: "kv \<in> set (dedup_keys es) \<Longrightarrow> (\<exists>v. (fst kv, v) \<in> set es) \<and> (\<exists>k. (k, snd kv) \<in> set es)"
proof (induction es rule: dedup_keys.induct)
  case (3 kept later es)
  then show ?case by (cases kept; cases later) (auto split: if_splits)
next
  case (2 x)
  then show ?case by (cases x) auto
qed simp

lemma expr_attrs_ok:
  assumes "\<forall>kv \<in> set es. key_ok (fst kv) \<and> expr_ok (snd kv)"
  shows "expr_ok (expr_attrs es)"
proof -
  have "key_ok k \<and> expr_ok v" if "(k, v) \<in> set (attrs_from_iter es)" for k v
    using dedup_keys_mem [OF that [unfolded attrs_from_iter_def]] assms by fastforce
  then show ?thesis by (auto simp: expr_attrs_def)
qed

end
