(* ===== verification/Nix_Print.thy ===== *)
theory Nix_Print
  imports Nix_Ast
begin

text \<open>
  The printer (\<open>nixgen/src/print.rs\<close>). The writer appends to one text and keeps a depth of
  indentation, so here every operation returns what it appends, at a given depth. Its assertions
  on the order of keys and formals are \<open>writer_asserts\<close>, and a failed one is the \<open>None\<close> of
  \<open>print\<close>.
\<close>

section \<open>Texts and keys\<close>

text \<open>The escape of a byte in front of the rest of its text.\<close>

fun write_escaped :: "string \<Rightarrow> string" where
  "write_escaped [] = []"
| "write_escaped (c # s) =
     (if c = quote then [backslash, quote]
      else if c = backslash then [backslash, backslash]
      else if c = carriage_return then [backslash, CHR ''r'']
      else if c = dollar \<and> prefix ''{'' s then [backslash, dollar]
      else [c]) @ write_escaped s"

definition write_key :: "key \<Rightarrow> string" where
  "write_key k = (if key_bare k then key_text k else quote # write_escaped (key_text k) @ [quote])"

definition write_keys :: "key list \<Rightarrow> string" where
  "write_keys ks = concat (map (\<lambda>k. CHR ''.'' # write_key k) ks)"

definition INDENT :: string where
  "INDENT = ''  ''"

definition indent :: "nat \<Rightarrow> string" where
  "indent depth = concat (replicate depth INDENT)"

text \<open>The writer of a string holds back a dollar at the end of a literal until it knows what
  follows: each operation takes whether one is pending, and returns what it writes and whether
  one is pending then.\<close>

definition held_dollar :: "bool \<Rightarrow> string \<Rightarrow> string" where
  "held_dollar pending text =
     (if pending then (if prefix ''{'' text then [backslash, dollar] else [dollar]) else [])"

definition str_lit :: "bool \<Rightarrow> string \<Rightarrow> string \<times> bool" where
  "str_lit pending text =
     (if text = [] then ([], pending)
      else if last text = dollar then (held_dollar pending text @ write_escaped (butlast text), True)
      else (held_dollar pending text @ write_escaped text, False))"

definition str_verbatim :: "bool \<Rightarrow> string \<Rightarrow> string \<times> bool" where
  "str_verbatim pending text =
     (if text = [] then ([], pending) else (held_dollar pending text @ text, False))"

definition str_interp :: "bool \<Rightarrow> string \<Rightarrow> string \<times> bool" where
  "str_interp pending value =
     ((if pending then [backslash, dollar] else []) @ ''${'' @ value @ ''}'', False)"

definition str_close :: "bool \<Rightarrow> string" where
  "str_close pending = (if pending then [dollar] else []) @ [quote]"

section \<open>Expressions\<close>

definition write_bool :: "bool \<Rightarrow> string" where
  "write_bool b = (if b then ''true'' else ''false'')"

definition write_path :: "rel_path \<Rightarrow> string" where
  "write_path p = ''./'' @ p"

definition parenthesized :: "string \<Rightarrow> string" where
  "parenthesized s = ''('' @ s @ '')''"

fun write_formals :: "bool \<Rightarrow> ident list \<Rightarrow> string" where
  "write_formals first [] = []"
| "write_formals first (i # is) = (if first then '' '' else '', '') @ i @ write_formals False is"

definition write_lambda :: "ident list \<Rightarrow> bool \<Rightarrow> string \<Rightarrow> string" where
  "write_lambda formals ellipsis body =
     ''{'' @ write_formals True formals
     @ (if ellipsis then if formals = [] then '' ...'' else '', ...'' else [])
     @ (if formals = [] \<and> \<not> ellipsis then ''}: '' else '' }: '') @ body"

text \<open>The entries of a set and the items of a list, the values already written one level deeper.\<close>

definition write_entries :: "nat \<Rightarrow> (key \<times> string) list \<Rightarrow> string" where
  "write_entries depth es =
     (if es = [] then ''{ }''
      else ''{'' @ [newline]
        @ concat (map (\<lambda>(k, v). indent (Suc depth) @ write_key k @ '' = '' @ v @ '';'' @ [newline]) es)
        @ indent depth @ ''}'')"

definition write_items :: "nat \<Rightarrow> string list \<Rightarrow> string" where
  "write_items depth vs =
     (if vs = [] then ''[ ]''
      else ''['' @ [newline] @ concat (map (\<lambda>v. indent (Suc depth) @ v @ [newline]) vs) @ indent depth @ '']'')"

definition is_operand :: "expr \<Rightarrow> bool" where
  "is_operand e = (case e of Apply _ _ \<Rightarrow> False | Lambda _ _ _ \<Rightarrow> False | _ \<Rightarrow> True)"

text \<open>\<open>write_operand\<close> given what \<open>write_expr\<close> writes for the expression.\<close>

definition operand_of :: "expr \<Rightarrow> string \<Rightarrow> string" where
  "operand_of e s = (if is_operand e then s else parenthesized s)"

fun write_expr :: "nat \<Rightarrow> expr \<Rightarrow> string"
  and write_parts :: "nat \<Rightarrow> bool \<Rightarrow> str_part list \<Rightarrow> string" where
  "write_expr d (Str parts) = quote # write_parts d False parts"
| "write_expr d (Boolean b) = write_bool b"
| "write_expr d (EList items) = write_items d (map (\<lambda>e. operand_of e (write_expr (Suc d) e)) items)"
| "write_expr d (Attrs entries) = write_entries d (map (\<lambda>kv. (fst kv, write_expr (Suc d) (snd kv))) entries)"
| "write_expr d (Var i) = i"
| "write_expr d (Select base first rest) =
     (if is_path base then parenthesized (write_expr d base) else operand_of base (write_expr d base))
     @ write_keys (first # rest)"
| "write_expr d (Apply function argument) =
     (if is_lambda function then parenthesized (write_expr d function) else write_expr d function)
     @ '' '' @ operand_of argument (write_expr d argument)"
| "write_expr d (Lambda formals ellipsis body) = write_lambda formals ellipsis (write_expr d body)"
| "write_expr d (EPath p) = write_path p"
| "write_parts d pending [] = str_close pending"
| "write_parts d pending (Lit text # parts) =
     (let (out, pending') = str_lit pending text in out @ write_parts d pending' parts)"
| "write_parts d pending (Interp e # parts) =
     (let (out, pending') = str_interp pending (write_expr d e) in out @ write_parts d pending' parts)"

definition write_operand :: "nat \<Rightarrow> expr \<Rightarrow> string" where
  "write_operand d e = operand_of e (write_expr d e)"

fun writer_asserts :: "expr \<Rightarrow> bool"
  and part_asserts :: "str_part \<Rightarrow> bool" where
  "writer_asserts (Str parts) \<longleftrightarrow> (\<forall>p \<in> set parts. part_asserts p)"
| "writer_asserts (EList items) \<longleftrightarrow> (\<forall>e \<in> set items. writer_asserts e)"
| "writer_asserts (Attrs entries) \<longleftrightarrow>
     sorted_wrt (<) (map fst entries) \<and> (\<forall>kv \<in> set entries. writer_asserts (snd kv))"
| "writer_asserts (Select base first rest) \<longleftrightarrow> writer_asserts base"
| "writer_asserts (Apply function argument) \<longleftrightarrow> writer_asserts function \<and> writer_asserts argument"
| "writer_asserts (Lambda formals ellipsis body) \<longleftrightarrow> sorted_wrt (<) formals \<and> writer_asserts body"
| "writer_asserts _ \<longleftrightarrow> True"
| "part_asserts (Lit text) \<longleftrightarrow> True"
| "part_asserts (Interp e) \<longleftrightarrow> writer_asserts e"

definition print :: "expr \<Rightarrow> string option" where
  "print e = (if writer_asserts e then Some (write_expr 0 e) else None)"

lemma expr_ok_asserts: "expr_ok e \<Longrightarrow> writer_asserts e" "part_ok p \<Longrightarrow> part_asserts p"
  by (induction e and p rule: writer_asserts_part_asserts.induct) (auto simp: bt_ok_def)

end
