(* ===== verification/Nix_Parse.thy ===== *)
theory Nix_Parse
  imports Nix_Ast
begin

text \<open>
  The parser (\<open>nixgen/src/parse.rs\<close>) and the normal form in which it is compared with what was
  printed. The parser's state is the text that is left. Its functions call each other without a
  bound in the code; here every one of them has fuel, one unit a call, and a result
  \<open>None\<close> when it runs out, which \<open>parse\<close> never does (\<open>Nix_Parse_Total\<close>).

  A literal is read byte by byte where the code reads characters: the bytes of a longer
  character are all above \<open>0x7F\<close>, none of them has a meaning in the syntax, and \<open>unescape\<close> keeps
  them, so the text collected is the same.
\<close>

section \<open>Normal form\<close>

text \<open>Neighbouring literals join, empty ones go. \<open>NixStr::new\<close> of a join cannot fail:\<close>

lemma joined_literals_hold_no_nul:
  "nix_str_new a = Inr a' \<Longrightarrow> nix_str_new b = Inr b' \<Longrightarrow> nix_str_new (a @ b) = Inr (a' @ b')"
  by simp

definition push_literal :: "string \<Rightarrow> str_part list \<Rightarrow> str_part list" where
  "push_literal text out =
     (if text = [] then out
      else case rev out of
          Lit previous # before \<Rightarrow> rev before @ [Lit (previous @ text)]
        | _ \<Rightarrow> out @ [Lit text])"

fun normalize :: "expr \<Rightarrow> expr"
  and normalize_parts :: "str_part list \<Rightarrow> str_part list \<Rightarrow> str_part list" where
  "normalize (Str parts) = Str (normalize_parts [] parts)"
| "normalize (EList items) = EList (map normalize items)"
| "normalize (Attrs entries) = Attrs (attrs_from_iter (map (\<lambda>kv. (fst kv, normalize (snd kv))) entries))"
| "normalize (Select base first rest) =
     (case normalize base of
        Select inner inner_first inner_rest \<Rightarrow> Select inner inner_first (inner_rest @ first # rest)
      | base' \<Rightarrow> Select base' first rest)"
| "normalize (Apply function argument) = Apply (normalize function) (normalize argument)"
| "normalize (Lambda formals ellipsis body) = Lambda formals ellipsis (normalize body)"
| "normalize other = other"
| "normalize_parts out [] = out"
| "normalize_parts out (Lit text # parts) = normalize_parts (push_literal text out) parts"
| "normalize_parts out (Interp e # parts) = normalize_parts (out @ [Interp (normalize e)]) parts"

section \<open>Results of the parser\<close>

text \<open>An error holds its message and the text that was left, from which \<open>parse\<close> computes its offset.\<close>

type_synonym 'a parsed = "((string \<times> string) + ('a \<times> string)) option"

definition p_ret :: "'a \<Rightarrow> string \<Rightarrow> 'a parsed" where
  "p_ret x s = Some (Inr (x, s))"

definition p_error :: "string \<Rightarrow> string \<Rightarrow> 'a parsed" where
  "p_error message s = Some (Inl (message, s))"

definition p_then :: "'a parsed \<Rightarrow> ('a \<Rightarrow> string \<Rightarrow> 'b parsed) \<Rightarrow> 'b parsed" where
  "p_then r f = (case r of
      None \<Rightarrow> None
    | Some (Inl e) \<Rightarrow> Some (Inl e)
    | Some (Inr (x, s)) \<Rightarrow> f x s)"

lemma p_then_simps [simp]:
  "p_then None f = None" "p_then (p_error m s) f = p_error m s" "p_then (p_ret x s) f = f x s"
  by (simp_all add: p_then_def p_ret_def p_error_def)

lemma p_then_cong [fundef_cong]:
  assumes "r = r'" "\<And>x s. r' = p_ret x s \<Longrightarrow> f x s = g x s"
  shows "p_then r f = p_then r' g"
  using assms by (auto simp: p_then_def p_ret_def split: option.splits sum.splits)

section \<open>Tokens\<close>

definition peek :: "string \<Rightarrow> char option" where
  "peek s = (case s of [] \<Rightarrow> None | c # _ \<Rightarrow> Some c)"

definition peek_at :: "nat \<Rightarrow> string \<Rightarrow> char option" where
  "peek_at i s = (if i < length s then Some (s ! i) else None)"

definition is_blank :: "char \<Rightarrow> bool" where
  "is_blank c \<longleftrightarrow> c = CHR '' '' \<or> c = CHR 0x09 \<or> c = newline \<or> c = carriage_return"

function skip_trivia :: "string \<Rightarrow> string" where
  "skip_trivia [] = []"
| "skip_trivia (c # s) =
     (if is_blank c then skip_trivia s
      else if c = CHR ''#'' then skip_trivia (dropWhile (\<lambda>b. b \<noteq> newline \<and> b \<noteq> carriage_return) s)
      else c # s)"
  by pat_completeness auto
termination
  by (relation "measure length") (auto simp: le_imp_less_Suc length_dropWhile_le)

definition p_expect :: "string \<Rightarrow> string \<Rightarrow> unit parsed" where
  "p_expect token s =
     (let s = skip_trivia s
      in if prefix token s then p_ret () (drop (length token) s) else p_error ''unexpected token'' s)"

definition skip_space :: "string \<Rightarrow> string" where
  "skip_space s = dropWhile is_blank s"

text \<open>The length of the identifier a text begins with, keyword or not.\<close>

definition identifier_end :: "string \<Rightarrow> nat" where
  "identifier_end s = (case s of
      [] \<Rightarrow> 0
    | c # t \<Rightarrow> if ident_start c then Suc (length (takeWhile ident_more t)) else 0)"

definition read_identifier :: "string \<Rightarrow> string parsed" where
  "read_identifier s =
     (let s = skip_trivia s; n = identifier_end s
      in if n = 0 then p_error ''expected an identifier'' s else p_ret (take n s) (drop n s))"

definition at_lambda :: "string \<Rightarrow> bool" where
  "at_lambda s \<longleftrightarrow> peek s = Some CHR ''{'' \<and>
     (let t = skip_space (tl s); n = identifier_end t
      in if peek t = Some CHR ''}'' then peek (skip_space (tl t)) = Some CHR '':''
         else prefix ''...'' t
           \<or> (n \<noteq> 0 \<and> peek (skip_space (drop n t)) \<in> {Some CHR '','', Some CHR ''}''}))"

definition at_operand :: "string \<Rightarrow> bool" where
  "at_operand s = (case peek s of
      None \<Rightarrow> False
    | Some c \<Rightarrow> c \<in> {quote, CHR ''['', CHR ''{'', CHR ''(''}
        \<or> (c = CHR ''.'' \<and> peek_at 1 s = Some CHR ''/'')
        \<or> is_alphabetic c \<or> c = CHR ''_'')"

definition unescape :: "char \<Rightarrow> char" where
  "unescape c = (if c = CHR ''n'' then newline else if c = CHR ''r'' then carriage_return
     else if c = CHR ''t'' then CHR 0x09 else c)"

definition next_char :: "string \<Rightarrow> char parsed" where
  "next_char s = (case s of [] \<Rightarrow> p_error ''unterminated escape'' s | c # t \<Rightarrow> p_ret c t)"

definition path_char :: "char \<Rightarrow> bool" where
  "path_char c \<longleftrightarrow> is_alphanumeric c \<or> c \<in> {CHR ''.'', CHR ''_'', CHR ''-'', CHR ''+''}"

section \<open>The head of a lambda\<close>

lemma skip_trivia_length: "length (skip_trivia s) \<le> length s"
  by (induction s rule: skip_trivia.induct)
    (auto intro: le_trans [OF _ length_dropWhile_le] le_SucI)

lemma identifier_end_le: "identifier_end s \<le> length s"
  by (auto simp: identifier_end_def length_takeWhile_le split: list.splits)

lemma identifier_shrinks: "read_identifier s = p_ret i t \<Longrightarrow> length t < length s"
  using skip_trivia_length [of s] identifier_end_le [of "skip_trivia s"]
  by (auto simp: read_identifier_def Let_def p_ret_def p_error_def split: if_splits)

text \<open>\<open>BTreeSet::insert\<close> on the sorted list of the formals.\<close>

function p_formals :: "ident list \<Rightarrow> string \<Rightarrow> (ident list \<times> bool) parsed" where
  "p_formals formals s =
     (let s = skip_trivia s
      in if peek s = Some CHR ''}'' then p_ret (formals, False) (tl s)
         else if prefix ''...'' s then p_then (p_expect ''}'' (drop 3 s)) (\<lambda>_. p_ret (formals, True))
         else p_then (read_identifier s) (\<lambda>name s.
           case ident_new name of
             Inl _ \<Rightarrow> p_error ''a keyword as a formal'' s
           | Inr ident \<Rightarrow>
               if ident \<in> set formals then p_error ''duplicate formal function argument'' s
               else (let s = skip_trivia s
                     in p_formals (insort ident formals) (if peek s = Some CHR '','' then tl s else s))))"
  by pat_completeness auto
termination
proof (relation "measure (\<lambda>(formals, s). length s)", goal_cases)
  case (2 formals s x name t ident y)
  then have "length t < length s"
    using identifier_shrinks [of "skip_trivia s" name t] skip_trivia_length [of s] by simp
  then show ?case
    using skip_trivia_length [of t] 2 by (auto simp: Let_def)
qed simp

declare p_formals.simps [simp del]

definition lambda_head :: "string \<Rightarrow> (ident list \<times> bool) parsed" where
  "lambda_head s =
     p_then (p_expect ''{'' s) (\<lambda>_ s. p_then (p_formals [] s) (\<lambda>head s.
     p_then (p_expect '':'' s) (\<lambda>_. p_ret head)))"

section \<open>Expressions\<close>

definition flush_text :: "string \<Rightarrow> str_part list \<Rightarrow> string \<Rightarrow> str_part list parsed" where
  "flush_text text parts s =
     (if text = [] then p_ret parts s
      else case nix_str_new text of
          Inl _ \<Rightarrow> p_error ''a null byte in a string'' s
        | Inr lit \<Rightarrow> p_ret (parts @ [Lit lit]) s)"

definition selected :: "expr \<Rightarrow> key list \<Rightarrow> expr" where
  "selected base keys = (case keys of [] \<Rightarrow> base | first # rest \<Rightarrow> Select base first rest)"

definition quoted_key :: "str_part list \<Rightarrow> string \<Rightarrow> key parsed" where
  "quoted_key parts s = (case normalize_parts [] parts of
      [] \<Rightarrow> p_ret (Key [] (is_identifier [])) s
    | [Lit text] \<Rightarrow> (case key_new text of Inl _ \<Rightarrow> p_error ''a null byte in a key'' s | Inr k \<Rightarrow> p_ret k s)
    | _ \<Rightarrow> p_error ''an interpolated key'' s)"

definition bare_key :: "string \<Rightarrow> string \<Rightarrow> key parsed" where
  "bare_key name s = (case ident_new name of
      Inl _ \<Rightarrow> p_error ''a keyword as a key'' s
    | Inr _ \<Rightarrow> (case key_new name of Inl _ \<Rightarrow> p_error ''a null byte in a key'' s | Inr k \<Rightarrow> p_ret k s))"

definition word_expr :: "string \<Rightarrow> string \<Rightarrow> expr parsed" where
  "word_expr name s =
     (if name = ''true'' then p_ret (Boolean True) s
      else if name = ''false'' then p_ret (Boolean False) s
      else case ident_new name of
          Inl _ \<Rightarrow> p_error ''a keyword where a variable was expected'' s
        | Inr i \<Rightarrow> p_ret (Var i) s)"

definition path_expr :: "string \<Rightarrow> expr parsed" where
  "path_expr s =
     (let t = dropWhile path_char s
      in case rel_path_new (takeWhile path_char s) of
          Inl _ \<Rightarrow> p_error ''a path mix does not write'' t
        | Inr p \<Rightarrow> p_ret (EPath p) t)"

text \<open>
  The functions of the parser call each other through \<open>expr\<close> and \<open>selection\<close>. Each of them
  takes those two as arguments, \<open>pe\<close> and \<open>ps\<close>, with the fuel of its own loop; the knot is
  tied in \<open>p_expr\<close> and \<open>p_selection\<close>. The loop of \<open>string\<close>:
\<close>

fun p_body :: "(string \<Rightarrow> expr parsed) \<Rightarrow> nat \<Rightarrow> str_part list \<Rightarrow> string \<Rightarrow> string \<Rightarrow> str_part list parsed" where
  "p_body pe 0 parts text s = None"
| "p_body pe (Suc n) parts text s =
     (case s of
        [] \<Rightarrow> p_error ''unterminated string'' s
      | c # t \<Rightarrow>
          if c = quote then flush_text text parts t
          else if c = backslash then p_then (next_char t) (\<lambda>e. p_body pe n parts (text @ [unescape e]))
          else if c = dollar then
            (if peek t = Some CHR ''{'' then
               p_then (flush_text text parts (tl t)) (\<lambda>parts s. p_then (pe s) (\<lambda>e s.
                 p_then (p_expect ''}'' s) (\<lambda>_. p_body pe n (parts @ [Interp e]) [])))
             else if peek t = Some dollar then p_body pe n parts (text @ [dollar, dollar]) (tl t)
             else if peek t = Some backslash then
               p_then (next_char (tl t)) (\<lambda>e. p_body pe n parts (text @ [dollar, unescape e]))
             else p_body pe n parts (text @ [dollar]) t)
          else if c = carriage_return then
            p_body pe n parts (text @ [newline]) (if peek t = Some newline then tl t else t)
          else p_body pe n parts (text @ [c]) t)"

definition p_string :: "(string \<Rightarrow> expr parsed) \<Rightarrow> nat \<Rightarrow> string \<Rightarrow> str_part list parsed" where
  "p_string pe n s = p_then (p_expect [quote] s) (\<lambda>_. p_body pe n [] [])"

definition p_key :: "(string \<Rightarrow> expr parsed) \<Rightarrow> nat \<Rightarrow> string \<Rightarrow> key parsed" where
  "p_key pe n s =
     (let s = skip_trivia s
      in if peek s = Some quote then p_then (p_string pe n s) quoted_key
         else p_then (read_identifier s) bare_key)"

fun p_items :: "(string \<Rightarrow> expr parsed) \<Rightarrow> nat \<Rightarrow> expr list \<Rightarrow> string \<Rightarrow> expr parsed" where
  "p_items ps 0 items s = None"
| "p_items ps (Suc n) items s =
     (let s = skip_trivia s
      in if peek s = Some CHR '']'' then p_ret (EList items) (tl s)
         else p_then (ps s) (\<lambda>item. p_items ps n (items @ [item])))"

fun p_entries :: "(string \<Rightarrow> expr parsed) \<Rightarrow> nat \<Rightarrow> expr attr_set \<Rightarrow> string \<Rightarrow> expr parsed" where
  "p_entries pe 0 entries s = None"
| "p_entries pe (Suc n) entries s =
     (let s = skip_trivia s
      in if peek s = Some CHR ''}'' then p_ret (Attrs entries) (tl s)
         else p_then (p_key pe n s) (\<lambda>k s. p_then (p_expect ''='' s) (\<lambda>_ s.
           p_then (pe s) (\<lambda>v s. p_then (p_expect '';'' s) (\<lambda>_ s.
             case attrs_insert k v entries of
               (Some _, _) \<Rightarrow> p_error ''attribute already defined'' s
             | (None, entries') \<Rightarrow> p_entries pe n entries' s)))))"

definition p_simple ::
  "(string \<Rightarrow> expr parsed) \<Rightarrow> (string \<Rightarrow> expr parsed) \<Rightarrow> nat \<Rightarrow> string \<Rightarrow> expr parsed" where
  "p_simple pe ps n s =
     (let s = skip_trivia s
      in if peek s = Some quote then p_then (p_string pe n s) (\<lambda>parts. p_ret (Str parts))
         else if peek s = Some CHR ''['' then p_items ps n [] (tl s)
         else if peek s = Some CHR ''{'' then p_entries pe n [] (tl s)
         else if peek s = Some CHR ''('' then
           p_then (pe (tl s)) (\<lambda>e s. p_then (p_expect '')'' s) (\<lambda>_. p_ret e))
         else if peek s = Some CHR ''.'' \<and> peek_at 1 s = Some CHR ''/'' then path_expr (drop 2 s)
         else p_then (read_identifier s) word_expr)"

fun p_keys :: "(string \<Rightarrow> expr parsed) \<Rightarrow> nat \<Rightarrow> key list \<Rightarrow> string \<Rightarrow> key list parsed" where
  "p_keys pe 0 keys s = None"
| "p_keys pe (Suc n) keys s =
     (let s = skip_trivia s
      in if peek s = Some CHR ''.'' \<and> peek_at 1 s \<notin> {Some CHR ''.'', Some CHR ''/''}
         then p_then (p_key pe n (tl s)) (\<lambda>k. p_keys pe n (keys @ [k]))
         else p_ret keys s)"

fun p_args :: "(string \<Rightarrow> expr parsed) \<Rightarrow> nat \<Rightarrow> expr \<Rightarrow> string \<Rightarrow> expr parsed" where
  "p_args ps 0 function s = None"
| "p_args ps (Suc n) function s =
     (let s = skip_trivia s
      in if \<not> at_operand s then p_ret function s
         else p_then (ps s) (\<lambda>argument. p_args ps n (Apply function argument)))"

text \<open>\<open>lambda\<close> and \<open>application\<close>.\<close>

definition p_lambda :: "(string \<Rightarrow> expr parsed) \<Rightarrow> string \<Rightarrow> expr parsed" where
  "p_lambda pe s = p_then (lambda_head s) (\<lambda>head s.
     p_then (pe s) (\<lambda>body. p_ret (Lambda (fst head) (snd head) body)))"

definition p_application :: "(string \<Rightarrow> expr parsed) \<Rightarrow> nat \<Rightarrow> string \<Rightarrow> expr parsed" where
  "p_application ps n s = p_then (ps s) (p_args ps n)"

fun p_expr :: "nat \<Rightarrow> string \<Rightarrow> expr parsed"
  and p_selection :: "nat \<Rightarrow> string \<Rightarrow> expr parsed" where
  "p_expr 0 s = None"
| "p_expr (Suc n) s =
     (let s = skip_trivia s
      in if at_lambda s then p_lambda (p_expr n) s else p_application (p_selection n) n s)"
| "p_selection 0 s = None"
| "p_selection (Suc n) s =
     p_then (p_simple (p_expr n) (p_selection n) n s) (\<lambda>base s.
       p_then (p_keys (p_expr n) n [] s) (\<lambda>keys. p_ret (selected base keys)))"

text \<open>Two calls for every byte are enough (\<open>parse_returns\<close>).\<close>

definition parse_fuel :: "string \<Rightarrow> nat" where
  "parse_fuel source = 2 * length source + 4"

record parse_error =
  offset :: nat
  message :: string

definition parse :: "string \<Rightarrow> (parse_error + expr) option" where
  "parse source =
     (case p_then (p_expr (parse_fuel source) source) (\<lambda>e s.
         let s = skip_trivia s in if s \<noteq> [] then p_error ''trailing input'' s else p_ret e s) of
        None \<Rightarrow> None
      | Some (Inl (m, s)) \<Rightarrow> Some (Inl \<lparr>offset = length source - length s, message = m\<rparr>)
      | Some (Inr (e, s)) \<Rightarrow> Some (Inr e))"

end
