(* ===== verification/Nix_Parse_Total.thy ===== *)
theory Nix_Parse_Total
  imports Nix_Parse
begin

text \<open>
  The parser returns on every text, and what it returns is well formed: with enough fuel none of
  its functions runs out, each that succeeds has consumed something, and more fuel never changes
  a result.
\<close>

section \<open>Results that are there\<close>

text \<open>The result is an error, or a value and a rest with the property.\<close>

definition gives :: "('a \<Rightarrow> string \<Rightarrow> bool) \<Rightarrow> 'a parsed \<Rightarrow> bool" where
  "gives P r = (case r of None \<Rightarrow> False | Some (Inl _) \<Rightarrow> True | Some (Inr (x, s)) \<Rightarrow> P x s)"

lemma gives_simps [simp]: "gives P (p_error m s)" "gives P (p_ret x s) = P x s" "\<not> gives P None"
  by (simp_all add: gives_def p_error_def p_ret_def)

lemma gives_then:
  assumes "gives Q r" "\<And>x s. Q x s \<Longrightarrow> gives P (f x s)"
  shows "gives P (p_then r f)"
proof (cases r)
  case (Some v)
  then show ?thesis
  proof (cases v)
    case (Inr xs)
    with Some assms(1) have "Q (fst xs) (snd xs)" by (auto simp: gives_def split: prod.splits)
    then have "gives P (f (fst xs) (snd xs))" by (rule assms(2))
    with Some Inr show ?thesis by (simp add: p_then_def split_beta)
  qed (use Some in \<open>simp add: p_then_def gives_def\<close>)
qed (use assms(1) in simp)

lemma gives_mono: "gives Q r \<Longrightarrow> (\<And>x s. Q x s \<Longrightarrow> P x s) \<Longrightarrow> gives P r"
  by (auto simp: gives_def split: option.splits sum.splits)

lemma gives_if: "(b \<Longrightarrow> gives P r) \<Longrightarrow> (\<not> b \<Longrightarrow> gives P r') \<Longrightarrow> gives P (if b then r else r')"
  by simp

lemma gives_exists: "gives P r \<Longrightarrow> r \<noteq> None"
  by (cases r) auto

text \<open>What every parser of the grammar promises: a good value, and a shorter rest.\<close>

abbreviation shrinks :: "('a \<Rightarrow> bool) \<Rightarrow> string \<Rightarrow> 'a parsed \<Rightarrow> bool" where
  "shrinks ok s r \<equiv> gives (\<lambda>x t. ok x \<and> length t < length s) r"

definition sub_ok :: "nat \<Rightarrow> (string \<Rightarrow> expr parsed) \<Rightarrow> bool" where
  "sub_ok k p \<longleftrightarrow> (\<forall>s. length s < k \<longrightarrow> shrinks expr_ok s (p s))"

lemma sub_okD: "sub_ok k p \<Longrightarrow> length s < k \<Longrightarrow> shrinks expr_ok s (p s)"
  by (simp add: sub_ok_def)

lemma sub_ok_mono: "sub_ok k p \<Longrightarrow> j \<le> k \<Longrightarrow> sub_ok j p"
  by (simp add: sub_ok_def)

abbreviation parts_ok :: "str_part list \<Rightarrow> bool" where
  "parts_ok parts \<equiv> \<forall>p \<in> set parts. part_ok p"

section \<open>Tokens\<close>

lemma expect_shrinks: "token \<noteq> [] \<Longrightarrow> shrinks (\<lambda>_. True) s (p_expect token s)"
  using skip_trivia_length [of s]
  by (cases token) (auto simp: p_expect_def Let_def prefix_def)

lemma read_identifier_gives: "shrinks (\<lambda>_. True) s (read_identifier s)"
  using skip_trivia_length [of s] identifier_end_le [of "skip_trivia s"]
  by (auto simp: read_identifier_def Let_def)

lemma next_char_shrinks: "shrinks (\<lambda>_. True) s (next_char s)"
  by (auto simp: next_char_def split: list.splits)

lemma flush_text_gives: "parts_ok parts \<Longrightarrow> gives (\<lambda>parts t. parts_ok parts \<and> t = s) (flush_text text parts s)"
  by (auto simp: flush_text_def nix_str_new_def)

lemma insort_formals:
  assumes "sorted_wrt (<) formals" "(i :: string) \<notin> set formals"
  shows "sorted_wrt (<) (insort i formals)"
  using assms by (simp add: strict_sorted_iff sorted_insort distinct_insort)

abbreviation formals_ok :: "ident list \<Rightarrow> bool" where
  "formals_ok is \<equiv> sorted_wrt (<) is \<and> (\<forall>i \<in> set is. is_identifier i)"

lemma p_formals_gives:
  "formals_ok formals \<Longrightarrow> shrinks (\<lambda>head. formals_ok (fst head)) s (p_formals formals s)"
proof (induction formals s rule: p_formals.induct)
  case (1 formals s)
  let ?s = "skip_trivia s"
  note len = skip_trivia_length [of s]
  have rest: "shrinks (\<lambda>head. formals_ok (fst head)) s
    (p_formals (insort name formals) (if peek (skip_trivia t) = Some CHR '','' then tl (skip_trivia t) else skip_trivia t))"
    if "peek ?s \<noteq> Some CHR ''}''" "\<not> prefix ''...'' ?s" "read_identifier ?s = p_ret name t"
      "is_identifier name" "name \<notin> set formals" for name t
  proof -
    have "length t < length s" using identifier_shrinks [OF that(3)] len by simp
    then have len': "length (if peek (skip_trivia t) = Some CHR '','' then tl (skip_trivia t) else skip_trivia t) < length s"
      using skip_trivia_length [of t] by auto
    have "formals_ok (insort name formals)"
      using 1(2) that by (auto simp: insort_formals set_insort_key)
    with that show ?thesis
      by (intro gives_mono [OF 1(1) [OF refl _ _ _ _ _ refl, of name t name]])
        (use len' in \<open>auto simp: ident_new_def simp del: if_split intro: less_trans\<close>)
  qed
  show ?case
  proof (cases "peek ?s = Some CHR ''}'' \<or> prefix ''...'' ?s")
    case True
    then show ?thesis
      using len 1(2)
      by (subst p_formals.simps)
        (auto simp: Let_def peek_def neq_Nil_conv split: list.splits
          intro!: gives_then [OF expect_shrinks])
  next
    case False
    show ?thesis
    proof (cases "\<exists>name t. read_identifier ?s = p_ret name t")
      case True
      then obtain name t where "read_identifier ?s = p_ret name t" by blast
      with False rest [of name t] show ?thesis
        by (subst p_formals.simps) (auto simp: Let_def ident_new_def)
    next
      case no: False
      with read_identifier_gives [of ?s] obtain m t where "read_identifier ?s = p_error m t"
        by (auto simp: gives_def p_error_def p_ret_def split: option.splits sum.splits)
      with False show ?thesis by (subst p_formals.simps) (simp add: Let_def)
    qed
  qed
qed

lemma lambda_head_gives: "shrinks (\<lambda>head. formals_ok (fst head)) s (lambda_head s)"
  unfolding lambda_head_def
  by (rule gives_then [OF expect_shrinks], simp, rule gives_then [OF p_formals_gives], simp,
      rule gives_then [OF expect_shrinks], simp) auto

section \<open>The functions of the grammar\<close>

lemma quoted_key_gives: "gives (\<lambda>k t. key_ok k \<and> t = s) (quoted_key parts s)"
  by (auto simp: quoted_key_def key_new_def key_ok_def split: list.splits str_part.splits)

lemma bare_key_gives: "gives (\<lambda>k t. key_ok k \<and> t = s) (bare_key name s)"
  by (auto simp: bare_key_def ident_new_def key_new_def key_ok_def)

lemma word_expr_gives: "gives (\<lambda>e t. expr_ok e \<and> t = s) (word_expr name s)"
  by (auto simp: word_expr_def ident_new_def)

lemma path_expr_gives: "gives (\<lambda>e t. expr_ok e \<and> length t \<le> length s) (path_expr s)"
  by (auto simp: path_expr_def rel_path_new_def Let_def length_dropWhile_le)

lemma p_body_gives:
  "sub_ok k pe \<Longrightarrow> length s \<le> k \<Longrightarrow> length s < n \<Longrightarrow> parts_ok parts
   \<Longrightarrow> shrinks parts_ok s (p_body pe n parts tx s)"
proof (induction n arbitrary: parts tx s)
  case (Suc n)
  have step: "shrinks parts_ok s (p_body pe n parts' tx' t)"
    if "length t < length s" "parts_ok parts'" for parts' tx' t
    using that Suc.prems by (intro gives_mono [OF Suc.IH]) auto
  show ?case
  proof (cases s)
    case (Cons c t)
    have close: "shrinks parts_ok s (flush_text tx parts t)"
      using Suc.prems(4) Cons by (intro gives_mono [OF flush_text_gives]) auto
    have escape: "shrinks parts_ok s (p_then (next_char u) (\<lambda>e. p_body pe n parts (f e)))"
      if "length u < length s" for u f
      using that Suc.prems(4) by (intro gives_then [OF next_char_shrinks] step) auto
    have interp: "shrinks parts_ok s (p_then (flush_text tx parts (tl t)) (\<lambda>parts s. p_then (pe s) (\<lambda>e s.
        p_then (p_expect ''}'' s) (\<lambda>_. p_body pe n (parts @ [Interp e]) []))))"
      if "t \<noteq> []"
      using Suc.prems that Cons
      by (intro gives_then [OF flush_text_gives] gives_then [OF sub_okD] gives_then [OF expect_shrinks] step)
        auto
    have "p_body pe (Suc n) parts tx s = p_body pe (Suc n) parts tx (c # t)" by (simp only: Cons)
    then show ?thesis
      unfolding p_body.simps(2) list.case
      by (simp only:, intro gives_if close interp escape step)
        (use Suc.prems(4) Cons in \<open>auto simp: peek_def split: list.splits\<close>)
  qed simp
qed simp

lemma p_string_gives:
  assumes "sub_ok k pe" "length s \<le> Suc k" "length s \<le> n"
  shows "shrinks parts_ok s (p_string pe n s)"
  unfolding p_string_def
  by (rule gives_then [OF expect_shrinks], simp, rule gives_mono [OF p_body_gives [OF assms(1)]])
    (use assms(2,3) in auto)

lemma p_key_gives:
  assumes "sub_ok k pe" "length s \<le> Suc k" "length s \<le> n"
  shows "shrinks key_ok s (p_key pe n s)"
proof -
  note len = skip_trivia_length [of s]
  have "shrinks key_ok s (p_then (p_string pe n (skip_trivia s)) quoted_key)"
    by (rule gives_then [OF p_string_gives [OF assms(1)]])
      (use len assms(2,3) in \<open>auto intro: gives_mono [OF quoted_key_gives]\<close>)
  moreover have "shrinks key_ok s (p_then (read_identifier (skip_trivia s)) bare_key)"
    by (rule gives_then [OF read_identifier_gives]) (use len in \<open>auto intro: gives_mono [OF bare_key_gives]\<close>)
  ultimately show ?thesis by (simp add: p_key_def Let_def)
qed

lemma p_items_gives:
  "sub_ok k ps \<Longrightarrow> length s < k \<Longrightarrow> length s < n \<Longrightarrow> \<forall>e \<in> set items. expr_ok e
   \<Longrightarrow> shrinks expr_ok s (p_items ps n items s)"
proof (induction n arbitrary: items s)
  case (Suc n)
  note len = skip_trivia_length [of s]
  have "shrinks expr_ok s (p_then (ps (skip_trivia s)) (\<lambda>item. p_items ps n (items @ [item])))"
    by (rule gives_then [OF sub_okD [OF Suc.prems(1)]], use len Suc.prems in simp,
        rule gives_mono [OF Suc.IH]) (use len Suc.prems in auto)
  moreover have "length (tl (skip_trivia s)) < length s" if "peek (skip_trivia s) = Some c" for c
    using that len by (auto simp: peek_def split: list.splits)
  ultimately show ?case using Suc.prems(4) by (auto simp: Let_def)
qed simp

lemma p_entries_gives:
  "sub_ok k pe \<Longrightarrow> length s \<le> k \<Longrightarrow> length s < n \<Longrightarrow> expr_ok (Attrs entries)
   \<Longrightarrow> shrinks expr_ok s (p_entries pe n entries s)"
proof (induction n arbitrary: entries s)
  case (Suc n)
  note len = skip_trivia_length [of s]
  have entry: "shrinks expr_ok s (case attrs_insert key v entries of
      (Some _, _) \<Rightarrow> p_error ''attribute already defined'' t
    | (None, entries') \<Rightarrow> p_entries pe n entries' t)"
    if "key_ok key" "expr_ok v" "length t < length s" for key v t
  proof -
    have "set (bt_insert key v entries) \<subseteq> insert (key, v) (set entries)"
      by (induction entries) auto
    then have "expr_ok (Attrs (bt_insert key v entries))"
      using Suc.prems(4) that by auto
    then show ?thesis
      using that Suc.prems
      by (auto simp: attrs_insert_def split: option.splits intro!: gives_mono [OF Suc.IH])
  qed
  have "shrinks expr_ok s (p_then (p_key pe n (skip_trivia s)) (\<lambda>key s. p_then (p_expect ''='' s) (\<lambda>_ s.
      p_then (pe s) (\<lambda>v s. p_then (p_expect '';'' s) (\<lambda>_ s.
        case attrs_insert key v entries of
          (Some _, _) \<Rightarrow> p_error ''attribute already defined'' s
        | (None, entries') \<Rightarrow> p_entries pe n entries' s)))))"
    by (rule gives_then [OF p_key_gives [OF Suc.prems(1)]],
        use len Suc.prems in simp, use len Suc.prems in simp,
        rule gives_then [OF expect_shrinks], simp,
        rule gives_then [OF sub_okD [OF Suc.prems(1)]], use len Suc.prems in simp,
        rule gives_then [OF expect_shrinks], simp, rule entry)
      (use len in auto)
  moreover have "length (tl (skip_trivia s)) < length s" if "peek (skip_trivia s) = Some c" for c
    using that len by (auto simp: peek_def split: list.splits)
  ultimately show ?case using Suc.prems(4) by (auto simp: Let_def)
qed simp

lemma p_simple_gives:
  assumes "sub_ok (length s) pe" "sub_ok (length s) ps" "length s \<le> n"
  shows "shrinks expr_ok s (p_simple pe ps n s)"
proof -
  note len = skip_trivia_length [of s]
  have tl: "length (tl (skip_trivia s)) < length s" if "peek (skip_trivia s) = Some c" for c
    using that len by (auto simp: peek_def split: list.splits)
  have "shrinks expr_ok s (p_then (p_string pe n (skip_trivia s)) (\<lambda>parts. p_ret (Str parts)))"
    by (rule gives_then [OF p_string_gives [OF assms(1)]]) (use len assms(3) in auto)
  moreover have "shrinks expr_ok s (p_items ps n [] (tl (skip_trivia s)))"
    if "peek (skip_trivia s) = Some CHR ''[''"
    by (rule gives_mono [OF p_items_gives [OF assms(2)]]) (use tl [OF that] assms(3) in auto)
  moreover have "shrinks expr_ok s (p_entries pe n [] (tl (skip_trivia s)))"
    if "peek (skip_trivia s) = Some CHR ''{''"
    by (rule gives_mono [OF p_entries_gives [OF assms(1)]]) (use tl [OF that] assms(3) in auto)
  moreover have "shrinks expr_ok s (p_then (pe (tl (skip_trivia s)))
      (\<lambda>e s. p_then (p_expect '')'' s) (\<lambda>_. p_ret e)))"
    if "peek (skip_trivia s) = Some CHR ''(''"
    by (rule gives_then [OF sub_okD [OF assms(1)]], use tl [OF that] in simp,
        rule gives_then [OF expect_shrinks]) (use tl [OF that] in auto)
  moreover have "shrinks expr_ok s (path_expr (drop 2 (skip_trivia s)))"
    if "peek (skip_trivia s) = Some CHR ''.''"
    by (rule gives_mono [OF path_expr_gives]) (use len that in \<open>auto simp: peek_def split: list.splits\<close>)
  moreover have "shrinks expr_ok s (p_then (read_identifier (skip_trivia s)) word_expr)"
    by (rule gives_then [OF read_identifier_gives], rule gives_mono [OF word_expr_gives]) (use len in auto)
  ultimately show ?thesis by (simp add: p_simple_def Let_def)
qed

lemma p_keys_gives:
  "sub_ok k pe \<Longrightarrow> length s \<le> k \<Longrightarrow> length s < n \<Longrightarrow> \<forall>key \<in> set keys. key_ok key
   \<Longrightarrow> gives (\<lambda>keys t. (\<forall>key \<in> set keys. key_ok key) \<and> length t \<le> length s) (p_keys pe n keys s)"
proof (induction n arbitrary: keys s)
  case (Suc n)
  note len = skip_trivia_length [of s]
  have "gives (\<lambda>keys t. (\<forall>key \<in> set keys. key_ok key) \<and> length t \<le> length s)
      (p_then (p_key pe n (tl (skip_trivia s))) (\<lambda>key. p_keys pe n (keys @ [key])))"
    by (rule gives_then [OF p_key_gives [OF Suc.prems(1)]],
        use len Suc.prems in simp, use len Suc.prems in simp, rule gives_mono [OF Suc.IH])
      (use len Suc.prems in auto)
  then show ?case using len Suc.prems(4) by (auto simp: Let_def)
qed simp

lemma p_args_gives:
  "sub_ok k ps \<Longrightarrow> length s < k \<Longrightarrow> length s < n \<Longrightarrow> expr_ok f
   \<Longrightarrow> gives (\<lambda>e t. expr_ok e \<and> length t \<le> length s) (p_args ps n f s)"
proof (induction n arbitrary: f s)
  case (Suc n)
  note len = skip_trivia_length [of s]
  have "gives (\<lambda>e t. expr_ok e \<and> length t \<le> length s)
      (p_then (ps (skip_trivia s)) (\<lambda>argument. p_args ps n (Apply f argument)))"
    by (rule gives_then [OF sub_okD [OF Suc.prems(1)]], use len Suc.prems in simp,
        rule gives_mono [OF Suc.IH]) (use len Suc.prems in auto)
  then show ?case using len Suc.prems(4) by (auto simp: Let_def)
qed simp

lemma selected_ok: "expr_ok e \<Longrightarrow> \<forall>k \<in> set keys. key_ok k \<Longrightarrow> expr_ok (selected e keys)"
  by (auto simp: selected_def split: list.splits)

lemma p_expr_gives:
  "(2 * length s + 2 \<le> n \<longrightarrow> shrinks expr_ok s (p_expr n s))
   \<and> (2 * length s + 1 \<le> n \<longrightarrow> shrinks expr_ok s (p_selection n s))"
proof (induction n arbitrary: s)
  case (Suc n)
  note len = skip_trivia_length [of s]
  show ?case
  proof (intro conjI impI)
    assume n: "2 * length s + 2 \<le> Suc n"
    with Suc have pe: "sub_ok (length s) (p_expr n)" and ps: "sub_ok (Suc (length s)) (p_selection n)"
      by (auto simp: sub_ok_def)
    have "shrinks expr_ok s (p_lambda (p_expr n) (skip_trivia s))"
      unfolding p_lambda_def
      by (rule gives_then [OF lambda_head_gives], rule gives_then [OF sub_okD [OF pe]])
        (use len in auto)
    moreover have "shrinks expr_ok s (p_application (p_selection n) n (skip_trivia s))"
      unfolding p_application_def
      by (rule gives_then [OF sub_okD [OF ps]], use len in simp, rule gives_mono [OF p_args_gives [OF ps]])
        (use len n in auto)
    ultimately show "shrinks expr_ok s (p_expr (Suc n) s)" by (simp add: Let_def)
  next
    assume n: "2 * length s + 1 \<le> Suc n"
    with Suc have pe: "sub_ok (length s) (p_expr n)" and ps: "sub_ok (length s) (p_selection n)"
      by (auto simp: sub_ok_def)
    show "shrinks expr_ok s (p_selection (Suc n) s)"
      by (simp, rule gives_then [OF p_simple_gives [OF pe ps]], use n in simp,
          rule gives_then [OF p_keys_gives [OF pe]])
        (use n in \<open>auto intro: selected_ok\<close>)
  qed
qed simp

lemma parse_gives: "\<exists>r. parse source = Some r \<and> (\<forall>e. r = Inr e \<longrightarrow> expr_ok e)"
proof -
  have "gives (\<lambda>e t. expr_ok e) (p_then (p_expr (parse_fuel source) source) (\<lambda>e s.
         let s = skip_trivia s in if s \<noteq> [] then p_error ''trailing input'' s else p_ret e s))"
    by (rule gives_then, rule conjunct1 [OF p_expr_gives, rule_format])
      (auto simp: parse_fuel_def Let_def)
  then show ?thesis
    by (auto simp: parse_def gives_def split: option.splits sum.splits)
qed

section \<open>More fuel\<close>

definition kept_by :: "'a parsed \<Rightarrow> 'a parsed \<Rightarrow> bool" where
  "kept_by r r' \<longleftrightarrow> r = None \<or> r = r'"

definition all_kept :: "(string \<Rightarrow> 'a parsed) \<Rightarrow> (string \<Rightarrow> 'a parsed) \<Rightarrow> bool" where
  "all_kept p p' \<longleftrightarrow> (\<forall>s. kept_by (p s) (p' s))"

lemma kept_by_simps [simp]: "kept_by r r" "kept_by None r"
  by (simp_all add: kept_by_def)

lemma kept_by_then:
  assumes "kept_by r r'" "\<And>x s. kept_by (f x s) (g x s)"
  shows "kept_by (p_then r f) (p_then r' g)"
  using assms by (auto simp: kept_by_def p_then_def split: option.splits sum.splits)

lemma kept_by_if:
  "(b \<Longrightarrow> kept_by r r') \<Longrightarrow> (\<not> b \<Longrightarrow> kept_by q q') \<Longrightarrow> kept_by (if b then r else q) (if b then r' else q')"
  by simp

lemma all_keptD: "all_kept p p' \<Longrightarrow> kept_by (p s) (p' s)"
  by (simp add: all_kept_def)

lemmas kept_by_intros = kept_by_simps kept_by_if kept_by_then

lemma p_body_kept:
  "all_kept pe pe' \<Longrightarrow> n \<le> n' \<Longrightarrow> kept_by (p_body pe n parts tx s) (p_body pe' n' parts tx s)"
proof (induction n arbitrary: n' parts tx s)
  case (Suc n)
  then obtain m where m: "n' = Suc m" "n \<le> m" by (cases n') auto
  show ?case
  proof (cases s)
    case (Cons c t)
    show ?thesis
      unfolding m Cons p_body.simps(2) list.case
      by (intro kept_by_intros all_keptD [OF Suc.prems(1)] Suc.IH Suc.prems m(2))
  qed (simp add: m)
qed simp

lemma p_string_kept: "all_kept pe pe' \<Longrightarrow> n \<le> n' \<Longrightarrow> kept_by (p_string pe n s) (p_string pe' n' s)"
  unfolding p_string_def by (intro kept_by_intros p_body_kept)

lemma p_key_kept: "all_kept pe pe' \<Longrightarrow> n \<le> n' \<Longrightarrow> kept_by (p_key pe n s) (p_key pe' n' s)"
  unfolding p_key_def Let_def by (intro kept_by_intros p_string_kept)

lemma p_items_kept:
  "all_kept ps ps' \<Longrightarrow> n \<le> n' \<Longrightarrow> kept_by (p_items ps n items s) (p_items ps' n' items s)"
proof (induction n arbitrary: n' items s)
  case (Suc n)
  then obtain m where m: "n' = Suc m" "n \<le> m" by (cases n') auto
  show ?case
    unfolding m p_items.simps(2) Let_def by (intro kept_by_intros all_keptD [OF Suc.prems(1)] Suc.IH Suc.prems m(2))
qed simp

lemma p_entries_kept:
  "all_kept pe pe' \<Longrightarrow> n \<le> n' \<Longrightarrow> kept_by (p_entries pe n entries s) (p_entries pe' n' entries s)"
proof (induction n arbitrary: n' entries s)
  case (Suc n)
  then obtain m where m: "n' = Suc m" "n \<le> m" by (cases n') auto
  have "kept_by (case attrs_insert k v entries of
      (Some _, _) \<Rightarrow> p_error ''attribute already defined'' t | (None, es) \<Rightarrow> p_entries pe n es t)
    (case attrs_insert k v entries of
      (Some _, _) \<Rightarrow> p_error ''attribute already defined'' t | (None, es) \<Rightarrow> p_entries pe' m es t)" for k v t
    using Suc.IH [OF Suc.prems(1) m(2)] by (auto split: prod.splits option.splits)
  then show ?case
    unfolding m p_entries.simps(2) Let_def
    by (intro kept_by_intros p_key_kept all_keptD [OF Suc.prems(1)] Suc.prems m(2))
qed simp

lemma p_simple_kept:
  assumes "all_kept pe pe'" "all_kept ps ps'" "n \<le> n'"
  shows "kept_by (p_simple pe ps n s) (p_simple pe' ps' n' s)"
  unfolding p_simple_def Let_def
  by (intro kept_by_intros all_keptD [OF assms(1)] p_string_kept p_items_kept p_entries_kept assms)

lemma p_keys_kept:
  "all_kept pe pe' \<Longrightarrow> n \<le> n' \<Longrightarrow> kept_by (p_keys pe n keys s) (p_keys pe' n' keys s)"
proof (induction n arbitrary: n' keys s)
  case (Suc n)
  then obtain m where m: "n' = Suc m" "n \<le> m" by (cases n') auto
  show ?case
    unfolding m p_keys.simps(2) Let_def by (intro kept_by_intros p_key_kept Suc.IH Suc.prems m(2))
qed simp

lemma p_args_kept:
  "all_kept ps ps' \<Longrightarrow> n \<le> n' \<Longrightarrow> kept_by (p_args ps n f s) (p_args ps' n' f s)"
proof (induction n arbitrary: n' f s)
  case (Suc n)
  then obtain m where m: "n' = Suc m" "n \<le> m" by (cases n') auto
  show ?case
    unfolding m p_args.simps(2) Let_def by (intro kept_by_intros all_keptD [OF Suc.prems(1)] Suc.IH Suc.prems m(2))
qed simp

lemma p_expr_kept:
  "n \<le> n' \<Longrightarrow> kept_by (p_expr n s) (p_expr n' s) \<and> kept_by (p_selection n s) (p_selection n' s)"
proof (induction n arbitrary: n' s)
  case (Suc n)
  then obtain m where m: "n' = Suc m" "n \<le> m" by (cases n') auto
  have pe: "all_kept (p_expr n) (p_expr m)" and ps: "all_kept (p_selection n) (p_selection m)"
    using Suc.IH [OF m(2)] by (simp_all add: all_kept_def)
  show ?case
    unfolding m p_expr.simps(2) p_selection.simps(2) Let_def p_lambda_def p_application_def
    by (intro conjI kept_by_intros all_keptD [OF pe] all_keptD [OF ps] p_args_kept p_simple_kept p_keys_kept pe ps m(2))
qed simp

text \<open>So whatever amount of fuel gives a result, the result of \<open>parse\<close> is that one.\<close>

lemma parse_eqI:
  assumes "\<And>n. N \<le> n \<Longrightarrow> p_expr n source = p_ret e rest" "skip_trivia rest = []"
  shows "parse source = Some (Inr e)"
proof -
  let ?m = "max N (parse_fuel source)"
  have "p_expr (parse_fuel source) source \<noteq> None"
    using p_expr_gives [of source "parse_fuel source"] by (intro gives_exists [of "\<lambda>e t. expr_ok e \<and> length t < length source"]) (simp add: parse_fuel_def)
  moreover have "kept_by (p_expr (parse_fuel source) source) (p_expr ?m source)"
    using p_expr_kept [of "parse_fuel source" ?m] by simp
  ultimately have "p_expr (parse_fuel source) source = p_ret e rest"
    using assms(1) [of ?m] by (auto simp: kept_by_def)
  then show ?thesis using assms(2) by (simp add: parse_def p_ret_def p_then_def)
qed

end
