(* ===== verification/Nix_Round.thy ===== *)
theory Nix_Round
  imports Nix_Print Nix_Parse_Total
begin

text \<open>
  What the printer writes, the parser reads. Every function of the parser gets a lemma that tells
  what it reads from the printed text of a node in front of any text that may follow it; the
  lemmas speak of all amounts of fuel above some bound, so they compose without counting it.
\<close>

section \<open>From some fuel on\<close>

text \<open>The two numbers are the fuel of \<open>expr\<close> and \<open>selection\<close> and the fuel of a loop.\<close>

definition late :: "(nat \<Rightarrow> nat \<Rightarrow> bool) \<Rightarrow> bool" where
  "late P \<longleftrightarrow> (\<exists>N. \<forall>m \<ge> N. \<forall>n \<ge> N. P m n)"

lemma late_always: "(\<And>m n. P m n) \<Longrightarrow> late P"
  by (simp add: late_def)

lemma late_mono: "late P \<Longrightarrow> (\<And>m n. P m n \<Longrightarrow> Q m n) \<Longrightarrow> late Q"
  unfolding late_def by meson

lemma late_both:
  assumes "late P" "late Q" "\<And>m n. P m n \<Longrightarrow> Q m n \<Longrightarrow> R m n"
  shows "late R"
proof -
  obtain M N where "\<forall>m \<ge> M. \<forall>n \<ge> M. P m n" "\<forall>m \<ge> N. \<forall>n \<ge> N. Q m n"
    using assms(1,2) by (auto simp: late_def)
  then have "\<forall>m \<ge> max M N. \<forall>n \<ge> max M N. R m n" using assms(3) by simp
  then show ?thesis unfolding late_def by blast
qed

lemma late_Suc: "late (\<lambda>m n. P m (Suc n)) \<longleftrightarrow> late P"
proof
  assume "late (\<lambda>m n. P m (Suc n))"
  then obtain N where N: "\<forall>m \<ge> N. \<forall>n \<ge> N. P m (Suc n)" by (auto simp: late_def)
  have "P m n" if "Suc N \<le> m" "Suc N \<le> n" for m n
    using N that by (cases n) auto
  then show "late P" unfolding late_def by blast
qed (auto simp: late_def intro: le_SucI)

lemma late_diag:
  assumes "late P" "\<And>m. P m m \<Longrightarrow> Q (Suc m)"
  shows "late (\<lambda>m n. Q m)"
proof -
  obtain N where N: "\<forall>m \<ge> N. \<forall>n \<ge> N. P m n" using assms(1) by (auto simp: late_def)
  have "Q m" if "Suc N \<le> m" for m
    using N that assms(2) by (cases m) auto
  then show ?thesis unfolding late_def by blast
qed

lemma late_step:
  assumes "\<And>m n. p m (Suc n) = q m n"
  shows "late (\<lambda>m n. p m n = r) \<longleftrightarrow> late (\<lambda>m n. q m n = r)"
  by (subst late_Suc [symmetric]) (simp add: assms)

definition expr_to :: "string \<Rightarrow> expr \<Rightarrow> string \<Rightarrow> bool" where
  "expr_to s e t \<longleftrightarrow> late (\<lambda>m n. p_expr m s = p_ret e t)"

definition selection_to :: "string \<Rightarrow> expr \<Rightarrow> string \<Rightarrow> bool" where
  "selection_to s e t \<longleftrightarrow> late (\<lambda>m n. p_selection m s = p_ret e t)"

definition body_to :: "str_part list \<Rightarrow> string \<Rightarrow> string \<Rightarrow> str_part list \<Rightarrow> string \<Rightarrow> bool" where
  "body_to parts tx s out t \<longleftrightarrow> late (\<lambda>m n. p_body (p_expr m) n parts tx s = p_ret out t)"

definition key_to :: "string \<Rightarrow> key \<Rightarrow> string \<Rightarrow> bool" where
  "key_to s k t \<longleftrightarrow> late (\<lambda>m n. p_key (p_expr m) n s = p_ret k t)"

definition keys_to :: "key list \<Rightarrow> string \<Rightarrow> key list \<Rightarrow> string \<Rightarrow> bool" where
  "keys_to ks s out t \<longleftrightarrow> late (\<lambda>m n. p_keys (p_expr m) n ks s = p_ret out t)"

definition items_to :: "expr list \<Rightarrow> string \<Rightarrow> expr \<Rightarrow> string \<Rightarrow> bool" where
  "items_to es s e t \<longleftrightarrow> late (\<lambda>m n. p_items (p_selection m) n es s = p_ret e t)"

definition entries_to :: "expr attr_set \<Rightarrow> string \<Rightarrow> expr \<Rightarrow> string \<Rightarrow> bool" where
  "entries_to es s e t \<longleftrightarrow> late (\<lambda>m n. p_entries (p_expr m) n es s = p_ret e t)"

definition simple_to :: "string \<Rightarrow> expr \<Rightarrow> string \<Rightarrow> bool" where
  "simple_to s e t \<longleftrightarrow> late (\<lambda>m n. p_simple (p_expr m) (p_selection m) n s = p_ret e t)"

definition args_to :: "expr \<Rightarrow> string \<Rightarrow> expr \<Rightarrow> string \<Rightarrow> bool" where
  "args_to f s e t \<longleftrightarrow> late (\<lambda>m n. p_args (p_selection m) n f s = p_ret e t)"

definition application_to :: "string \<Rightarrow> expr \<Rightarrow> string \<Rightarrow> bool" where
  "application_to s e t \<longleftrightarrow> late (\<lambda>m n. p_application (p_selection m) n s = p_ret e t)"

section \<open>Tokens\<close>

definition solid :: "char \<Rightarrow> bool" where
  "solid c \<longleftrightarrow> \<not> is_blank c \<and> c \<noteq> CHR ''#''"

lemma skip_idem [simp]: "skip_trivia (skip_trivia s) = skip_trivia s"
  by (induction s rule: skip_trivia.induct) auto

declare skip_trivia.simps(2) [simp del]

lemma skip_solid [simp]: "solid c \<Longrightarrow> skip_trivia (c # s) = c # s"
  by (simp add: solid_def skip_trivia.simps)

lemma skip_blank [simp]: "is_blank c \<Longrightarrow> skip_trivia (c # s) = skip_trivia s"
  by (simp add: skip_trivia.simps)

lemma blanks [simp]: "is_blank CHR '' ''" "is_blank newline"
  by (simp_all add: is_blank_def)

lemma skip_indent: "skip_trivia (indent d @ s) = skip_trivia s"
  by (induction d) (simp_all add: indent_def INDENT_def)

lemma skip_space_indent: "skip_space (indent d @ s) = skip_space s"
  by (induction d) (simp_all add: indent_def INDENT_def skip_space_def)

lemma ident_char_solid: "ident_more c \<or> ident_start c \<Longrightarrow> solid c"
  by (auto simp: solid_def is_blank_def ident_more_def ident_start_def is_alphanumeric_def is_alphabetic_def
      is_lowercase_def is_uppercase_def is_digit_def byte_def newline_def)

definition ends_word :: "string \<Rightarrow> bool" where
  "ends_word s \<longleftrightarrow> (case s of [] \<Rightarrow> True | c # _ \<Rightarrow> \<not> ident_more c)"

lemma identifier_end_word:
  assumes "is_identifier i" "ends_word s"
  shows "identifier_end (i @ s) = length i"
proof -
  from assms(1) obtain c t where i: "i = c # t" "ident_start c" "\<forall>b \<in> set t. ident_more b"
    by (cases i) (auto simp: list_all_iff)
  then have "takeWhile ident_more (t @ s) = t"
    using assms(2) by (cases s) (auto simp: ends_word_def takeWhile_append)
  with i show ?thesis by (simp add: identifier_end_def)
qed

lemma skip_identifier: "is_identifier i \<Longrightarrow> skip_trivia (i @ s) = i @ s"
  by (cases i) (simp_all add: ident_char_solid)

lemma read_identifier_word: "is_identifier i \<Longrightarrow> ends_word s \<Longrightarrow> read_identifier (i @ s) = p_ret i s"
  by (cases "i = []") (simp_all add: read_identifier_def skip_identifier identifier_end_word)

lemma expect_here: "token = c # cs \<Longrightarrow> solid c \<Longrightarrow> p_expect token (token @ s) = p_ret () s"
  by (simp add: p_expect_def Let_def skip_solid)

lemma expect_skip: "skip_trivia s = skip_trivia s' \<Longrightarrow> p_expect token s = p_expect token s'"
  by (simp add: p_expect_def)

section \<open>Literals\<close>

text \<open>A dollar the printer leaves bare is read as itself, unless it joins, across the dollars after
  it, with a brace.\<close>

fun brace_after :: "string \<Rightarrow> bool" where
  "brace_after [] = False"
| "brace_after (c # s) = (if c = dollar then brace_after s else c = CHR ''{'')"

lemma body_step:
  assumes "\<And>m n. p_body (p_expr m) (Suc n) parts tx s = p_body (p_expr m) n parts' tx' s'"
  shows "body_to parts tx s out t \<longleftrightarrow> body_to parts' tx' s' out t"
  unfolding body_to_def by (rule late_step) (rule assms)

lemma body_plain:
  "c \<notin> {quote, backslash, dollar, carriage_return} \<Longrightarrow>
   body_to parts tx (c # s) out t \<longleftrightarrow> body_to parts (tx @ [c]) s out t"
  by (rule body_step) simp

lemma body_escape:
  "body_to parts tx (backslash # c # s) out t \<longleftrightarrow> body_to parts (tx @ [unescape c]) s out t"
  by (rule body_step) (simp add: next_char_def)

lemma body_dollar:
  "\<not> brace_after s \<Longrightarrow> body_to parts tx (dollar # s) out t \<longleftrightarrow> body_to parts (tx @ [dollar]) s out t"
proof (induction s arbitrary: tx rule: length_induct)
  case (1 s)
  consider (empty) "s = []" | (pair) u where "s = dollar # u" | (escape) u where "s = backslash # u"
    | (other) c u where "s = c # u" "c \<noteq> dollar" "c \<noteq> backslash"
    by (cases s) auto
  then show ?case
  proof cases
    case empty
    then show ?thesis by (intro body_step) (simp add: peek_def)
  next
    case pair
    have "body_to parts tx (dollar # s) out t \<longleftrightarrow> body_to parts (tx @ [dollar, dollar]) u out t"
      unfolding pair by (rule body_step) (simp add: peek_def)
    also have "\<dots> \<longleftrightarrow> body_to parts (tx @ [dollar]) s out t"
      using 1 pair by simp
    finally show ?thesis .
  next
    case escape
    have "p_body (p_expr m) (Suc n) parts tx (dollar # s) = p_body (p_expr m) (Suc n) parts (tx @ [dollar]) s" for m n
      by (simp add: escape peek_def)
    then show ?thesis
      unfolding body_to_def by (subst (1 2) late_Suc [symmetric]) (simp del: p_body.simps)
  next
    case other
    with 1 show ?thesis by (intro body_step) (simp add: peek_def)
  qed
qed

lemma brace_after_escaped:
  "brace_after (write_escaped tx @ s) \<Longrightarrow> prefix ''{'' tx \<or> (set tx \<subseteq> {dollar} \<and> brace_after s)"
proof (induction tx)
  case (Cons c tx)
  then show ?case by (cases tx) (auto split: if_splits)
qed simp

lemma unescape_simps [simp]:
  "unescape quote = quote" "unescape backslash = backslash" "unescape CHR ''r'' = carriage_return"
  "unescape dollar = dollar"
  by (simp_all add: unescape_def)

lemma body_escaped:
  "(tx \<noteq> [] \<and> last tx = dollar \<longrightarrow> \<not> brace_after s) \<Longrightarrow>
   body_to parts acc (write_escaped tx @ s) out t \<longleftrightarrow> body_to parts (acc @ tx) s out t"
proof (induction tx arbitrary: acc)
  case (Cons c tx)
  from Cons.prems have IH: "body_to parts (acc @ [c]) (write_escaped tx @ s) out t \<longleftrightarrow> body_to parts (acc @ c # tx) s out t"
    using Cons.IH [of "acc @ [c]"] by (cases tx) auto
  consider (escaped) "c \<in> {quote, backslash, carriage_return} \<or> (c = dollar \<and> prefix ''{'' tx)"
    | (lone) "c = dollar" "\<not> prefix ''{'' tx" | (plain) "c \<notin> {quote, backslash, dollar, carriage_return}"
    by blast
  then show ?case
  proof cases
    case escaped
    then have "body_to parts acc (write_escaped (c # tx) @ s) out t \<longleftrightarrow> body_to parts (acc @ [c]) (write_escaped tx @ s) out t"
      by (elim disjE conjE insertE emptyE) (simp_all add: body_escape)
    with IH show ?thesis by simp
  next
    case lone
    have "\<not> brace_after (write_escaped tx @ s)"
    proof
      assume "brace_after (write_escaped tx @ s)"
      from brace_after_escaped [OF this] lone have "set tx \<subseteq> {dollar}" "brace_after s" by auto
      with Cons.prems lone show False by (cases tx rule: rev_cases) auto
    qed
    with lone IH show ?thesis by (simp add: body_dollar)
  next
    case plain
    with IH show ?thesis by (simp add: body_plain)
  qed
qed simp

lemma push_push: "push_literal b (push_literal a out) = push_literal (a @ b) out"
  by (auto simp: push_literal_def split: list.splits str_part.splits)

definition sealed :: "str_part list \<Rightarrow> bool" where
  "sealed parts \<longleftrightarrow> (\<forall>before text. parts \<noteq> before @ [Lit text])"

lemma sealed_simps [simp]: "sealed []" "sealed (parts @ [Interp e])"
  by (simp_all add: sealed_def)

lemma flush_text_sealed:
  "sealed parts \<Longrightarrow> nul \<notin> set tx \<Longrightarrow> flush_text tx parts s = p_ret (push_literal tx parts) s"
  by (cases parts rule: rev_cases)
    (auto simp: flush_text_def push_literal_def nix_str_new_def sealed_def split: list.splits str_part.splits)

lemma body_close:
  assumes "sealed parts" "nul \<notin> set tx"
  shows "body_to parts tx (quote # s) (push_literal tx parts) s"
  unfolding body_to_def
  by (subst late_Suc [symmetric], rule late_always) (simp add: flush_text_sealed assms)

lemma body_interp:
  assumes "sealed parts" "nul \<notin> set tx" "expr_to s e (CHR ''}'' # s')"
    "body_to (push_literal tx parts @ [Interp e]) [] s' out t"
  shows "body_to parts tx (dollar # CHR ''{'' # s) out t"
proof -
  have "p_expect ''}'' (CHR ''}'' # s') = p_ret () s'" using expect_here [of "''}''" "CHR ''}''" "[]" s']
    by (simp add: solid_def is_blank_def newline_def)
  then show ?thesis
    unfolding body_to_def
    by (subst late_Suc [symmetric], intro late_both [OF assms(3) [unfolded expr_to_def] assms(4) [unfolded body_to_def]])
      (simp add: flush_text_sealed assms(1,2) peek_def)
qed

lemma no_brace_pending: "\<not> brace_after (write_parts d True parts @ s)"
proof (induction parts)
  case (Cons p parts)
  show ?case
  proof (cases p)
    case (Lit tx)
    show ?thesis
    proof (cases "tx = [] \<or> prefix ''{'' tx")
      case True
      with Lit Cons show ?thesis by (auto simp: str_lit_def held_dollar_def)
    next
      case False
      then show ?thesis
        using Lit Cons brace_after_escaped [of "butlast tx" "write_parts d True parts @ s"]
          brace_after_escaped [of tx "write_parts d False parts @ s"]
        by (cases tx rule: rev_cases) (auto simp: str_lit_def held_dollar_def prefix_def Cons_eq_append_conv)
    qed
  qed (simp add: str_interp_def)
qed (simp add: str_close_def)

text \<open>What the printer holds back when a literal ends in a dollar.\<close>

definition held :: "bool \<Rightarrow> string" where
  "held pending = (if pending then [dollar] else [])"

lemma body_held:
  assumes "pending \<longrightarrow> prefix ''{'' tx \<or> \<not> brace_after s"
  shows "body_to parts acc (held_dollar pending tx @ s) out t \<longleftrightarrow> body_to parts (acc @ held pending) s out t"
  using assms by (auto simp: held_dollar_def held_def body_escape body_dollar)

lemma body_literal:
  assumes "tx \<noteq> []" "str_lit pending tx = (o', pending')"
    "rest = write_parts d pending' parts' @ s"
  shows "body_to parts acc (o' @ rest) out t \<longleftrightarrow>
    (\<exists>tx'. tx' @ held pending' = tx \<and> body_to parts (acc @ held pending @ tx') rest out t)"
proof -
  define tx' where "tx' = (if last tx = dollar then butlast tx else tx)"
  have tx: "tx' @ held pending' = tx" and pending': "pending' = (last tx = dollar)"
    and o': "o' = held_dollar pending tx @ write_escaped tx'"
    using assms(1,2) by (auto simp: str_lit_def tx'_def held_def split: if_splits) (metis append_butlast_last_id)
  have free: "\<not> brace_after rest" if pending'
    using that assms(3) by (simp add: no_brace_pending)
  have lone: "prefix ''{'' tx \<or> \<not> brace_after (write_escaped tx' @ rest)"
  proof (rule ccontr)
    assume *: "\<not> ?thesis"
    then have "prefix ''{'' tx' \<or> (set tx' \<subseteq> {dollar} \<and> brace_after rest)"
      using brace_after_escaped by blast
    moreover have "\<not> prefix ''{'' tx'" using * tx by (metis prefix_prefix)
    ultimately have "set tx' \<subseteq> {dollar}" "brace_after rest" by auto
    with free have np: "\<not> pending'" by blast
    with tx have "tx' = tx" by (simp add: held_def)
    with \<open>set tx' \<subseteq> {dollar}\<close> assms(1) np pending' show False using last_in_set by blast
  qed
  have "body_to parts acc (o' @ rest) out t \<longleftrightarrow> body_to parts (acc @ held pending) (write_escaped tx' @ rest) out t"
    unfolding o' append_assoc by (rule body_held) (use lone in blast)
  also have "\<dots> \<longleftrightarrow> body_to parts ((acc @ held pending) @ tx') rest out t"
    by (rule body_escaped)
      (metis free pending' tx'_def)
  finally show ?thesis using tx by (metis append.assoc append_same_eq)
qed

lemma body_parts:
  assumes "\<And>e u. Interp e \<in> set ps \<Longrightarrow> expr_to (write_expr d e @ CHR ''}'' # u) (normalize e) (CHR ''}'' # u)"
    "parts_ok ps" "sealed parts" "nul \<notin> set tx"
  shows "body_to parts tx (write_parts d pending ps @ s) (normalize_parts (push_literal (tx @ held pending) parts) ps) s"
  using assms
proof (induction ps arbitrary: parts tx pending)
  case Nil
  have "nul \<notin> set (tx @ held pending)" using Nil.prems by (simp add: held_def)
  from body_close [OF Nil.prems(3) this] show ?case
    by (cases pending) (simp_all add: str_close_def body_dollar held_def)
next
  case (Cons p ps)
  show ?case
  proof (cases p)
    case (Lit l)
    obtain o' pending' where o': "str_lit pending l = (o', pending')" by force
    show ?thesis
    proof (cases "l = []")
      case True
      then show ?thesis
        using Cons.IH [of parts tx pending] Cons.prems Lit by (simp add: str_lit_def push_literal_def)
    next
      case False
      have "nul \<notin> set l" using Cons.prems(2) Lit by simp
      moreover obtain l' where l': "l' @ held pending' = l"
        using False o' by (auto simp: str_lit_def held_def split: if_splits) (metis append_butlast_last_id)
      ultimately have "body_to parts (tx @ held pending @ l') (write_parts d pending' ps @ s)
          (normalize_parts (push_literal ((tx @ held pending @ l') @ held pending') parts) ps) s"
        using Cons.prems by (intro Cons.IH) (auto simp: held_def)
      then have "body_to parts tx (o' @ write_parts d pending' ps @ s)
          (normalize_parts (push_literal ((tx @ held pending @ l') @ held pending') parts) ps) s"
        using l' by (subst body_literal [OF False o' refl]) auto
      then show ?thesis
        using l' Lit o' by (simp add: push_push)
    qed
  next
    case (Interp e)
    have "body_to (push_literal (tx @ held pending) parts @ [Interp (normalize e)]) [] (write_parts d False ps @ s)
        (normalize_parts (push_literal ([] @ held False) (push_literal (tx @ held pending) parts @ [Interp (normalize e)])) ps) s"
      using Cons.prems Interp by (intro Cons.IH) auto
    moreover have "nul \<notin> set (tx @ held pending)" using Cons.prems by (simp add: held_def)
    moreover have "expr_to (write_expr d e @ CHR ''}'' # write_parts d False ps @ s) (normalize e)
        (CHR ''}'' # write_parts d False ps @ s)"
      using Cons.prems(1) Interp by simp
    ultimately have "body_to parts (tx @ held pending)
        (dollar # CHR ''{'' # write_expr d e @ CHR ''}'' # write_parts d False ps @ s)
        (normalize_parts (push_literal (tx @ held pending) parts @ [Interp (normalize e)]) ps) s"
      using Cons.prems(3) by (intro body_interp) (simp_all add: held_def push_literal_def)
    then show ?thesis
      using Interp by (cases pending) (simp_all add: str_interp_def body_escape held_def)
  qed
qed

lemma string_solid: "solid quote"
  by (simp add: solid_def is_blank_def newline_def)

lemma p_string_quote: "p_string pe n (quote # s) = p_body pe n [] [] s"
  using expect_here [of "[quote]" quote "[]" s] by (simp add: p_string_def string_solid)

lemma simple_string:
  assumes "\<And>e u. Interp e \<in> set ps \<Longrightarrow> expr_to (write_expr d e @ CHR ''}'' # u) (normalize e) (CHR ''}'' # u)"
    "parts_ok ps"
  shows "simple_to (write_expr d (Str ps) @ s) (normalize (Str ps)) s"
proof -
  have "body_to [] [] (write_parts d False ps @ s) (normalize_parts [] ps) s"
    using body_parts [OF assms, of "[]" "[]" False s] by (simp add: held_def push_literal_def)
  then show ?thesis
    unfolding simple_to_def body_to_def
    by (elim late_mono) (simp add: p_simple_def string_solid peek_def p_string_quote)
qed

section \<open>Keys\<close>

lemma write_key_solid: "key_ok k \<Longrightarrow> \<exists>c s. write_key k = c # s \<and> (c = quote \<or> ident_start c)"
  by (cases "key_text k") (auto simp: write_key_def key_ok_def)

lemma key_reads:
  assumes "key_ok k" "ends_word s"
  shows "key_to (write_key k @ s) k s"
proof (cases "key_bare k")
  case True
  with assms have i: "is_identifier (key_text k)" by (simp add: key_ok_def)
  then have "hd (key_text k) \<noteq> quote \<and> key_text k \<noteq> []"
    by (cases "key_text k") (auto simp: ident_start_def is_alphabetic_def is_lowercase_def is_uppercase_def byte_def)
  then have "peek (key_text k @ s) \<noteq> Some quote" by (cases "key_text k") (auto simp: peek_def)
  with i True assms have "p_key pe n (write_key k @ s) = p_ret k s" for pe n
    by (cases k) (simp add: p_key_def write_key_def skip_identifier read_identifier_word bare_key_def identifier_nul
        ident_new_def key_new_def key_ok_def)
  then show ?thesis unfolding key_to_def by (intro late_always)
next
  case False
  have nul: "nul \<notin> set (key_text k)" and bare: "key_bare k = is_identifier (key_text k)"
    using assms by (simp_all add: key_ok_def)
  have "body_to [] [] (write_escaped (key_text k) @ quote # s) (push_literal (key_text k) []) s"
    using body_close [of "[]" "key_text k" s] nul by (simp add: body_escaped)
  moreover have "quoted_key (push_literal (key_text k) []) s = p_ret k s"
    using nul bare by (cases k) (auto simp: quoted_key_def push_literal_def key_new_def)
  ultimately show ?thesis
    using False unfolding key_to_def body_to_def
    by (elim late_mono) (simp add: p_key_def write_key_def string_solid peek_def p_string_quote)
qed

definition keeps_selecting :: "string \<Rightarrow> bool" where
  "keeps_selecting s \<longleftrightarrow> peek s = Some CHR ''.'' \<and> peek_at 1 s \<notin> {Some CHR ''.'', Some CHR ''/''}"

lemma dot_solid: "solid CHR ''.''"
  by (simp add: solid_def is_blank_def newline_def)

lemma ends_word_simps [simp]: "ends_word []" "ends_word (c # s) \<longleftrightarrow> \<not> ident_more c"
  by (simp_all add: ends_word_def)

lemma not_ident_more [simp]:
  "\<not> ident_more CHR ''.''" "\<not> ident_more CHR '' ''" "\<not> ident_more newline" "\<not> ident_more CHR '',''"
  "\<not> ident_more CHR '';''" "\<not> ident_more CHR ''}''" "\<not> ident_more CHR '')''"
  by (simp_all add: ident_more_def is_alphanumeric_def
      is_alphabetic_def is_lowercase_def is_uppercase_def is_digit_def byte_def newline_def)

lemma p_keys_stop: "\<not> keeps_selecting (skip_trivia s) \<Longrightarrow> p_keys pe (Suc n) ks s = p_ret ks (skip_trivia s)"
  by (auto simp: keeps_selecting_def Let_def)

lemma p_keys_next:
  "keeps_selecting (skip_trivia s) \<Longrightarrow>
   p_keys pe (Suc n) ks s = p_then (p_key pe n (tl (skip_trivia s))) (\<lambda>k. p_keys pe n (ks @ [k]))"
  by (simp add: keeps_selecting_def Let_def)

lemma dot_key_selects:
  assumes "key_ok k"
  shows "keeps_selecting (CHR ''.'' # write_key k @ s)"
proof -
  obtain c u where "write_key k = c # u" "c = quote \<or> ident_start c"
    using write_key_solid assms by metis
  then show ?thesis
    by (auto simp: keeps_selecting_def peek_def peek_at_def ident_start_def is_alphabetic_def
        is_lowercase_def is_uppercase_def byte_def)
qed

lemma keys_reads:
  assumes "\<forall>k \<in> set ks. key_ok k" "ends_word s" "\<not> keeps_selecting (skip_trivia s)"
  shows "keys_to acc (write_keys ks @ s) (acc @ ks) (skip_trivia s)"
  using assms(1)
proof (induction ks arbitrary: acc)
  case Nil
  show ?case
    unfolding keys_to_def
    by (subst late_Suc [symmetric], rule late_always) (simp add: write_keys_def p_keys_stop assms(3) del: p_keys.simps)
next
  case (Cons k ks)
  have "ends_word (write_keys ks @ s)"
    using assms(2) by (cases ks) (auto simp: write_keys_def)
  with Cons.prems have key: "key_to (write_key k @ write_keys ks @ s) k (write_keys ks @ s)"
    by (intro key_reads) auto
  have "keeps_selecting (CHR ''.'' # write_key k @ write_keys ks @ s)"
    using Cons.prems by (intro dot_key_selects) simp
  then have "p_keys pe (Suc n) acc (write_keys (k # ks) @ s) =
      p_then (p_key pe n (write_key k @ write_keys ks @ s)) (\<lambda>k. p_keys pe n (acc @ [k]))" for pe n
    by (simp add: write_keys_def p_keys_next dot_solid del: p_keys.simps)
  moreover have "keys_to (acc @ [k]) (write_keys ks @ s) (acc @ k # ks) (skip_trivia s)"
    using Cons.IH [of "acc @ [k]"] Cons.prems by simp
  ultimately show ?case
    unfolding keys_to_def
    by (subst late_Suc [symmetric], elim late_both [OF key [unfolded key_to_def]]) simp
qed

end
