(* ===== verification/Nix_Round_Expr.thy ===== *)
theory Nix_Round_Expr
  imports Nix_Round
begin

text \<open>
  The expressions: how a selection prints as its innermost base and all its keys, how the first
  byte of a printed expression tells the parser which branch to take, what lists, sets,
  applications and lambdas read back, and with them the round trip of every well-formed
  expression.
\<close>

section \<open>Spines of selections\<close>

fun base_of :: "expr \<Rightarrow> expr" where
  "base_of (Select base first rest) = base_of base"
| "base_of e = e"

fun keys_of :: "expr \<Rightarrow> key list" where
  "keys_of (Select base first rest) = keys_of base @ first # rest"
| "keys_of e = []"

definition write_head :: "nat \<Rightarrow> bool \<Rightarrow> expr \<Rightarrow> string" where
  "write_head d sel e =
     (if sel \<and> is_path e then parenthesized (write_expr d e) else write_operand d e)"

lemma write_spine: "write_operand d e = write_head d (keys_of e \<noteq> []) (base_of e) @ write_keys (keys_of e)"
proof (induction e rule: base_of.induct)
  case (1 base first rest)
  show ?case
  proof (cases "is_path base")
    case True
    then show ?thesis by (cases base) (auto simp: write_operand_def write_head_def operand_of_def is_operand_def is_path_def)
  next
    case False
    have "write_head d (keys_of base \<noteq> []) (base_of base) = write_head d True (base_of base)"
      using False by (cases base) (auto simp: write_head_def is_path_def)
    with 1 False show ?thesis
      by (simp add: write_operand_def operand_of_def is_operand_def write_keys_def)
  qed
qed (simp_all add: write_head_def write_keys_def)

lemma not_select_base: "\<not> is_select (base_of e)"
  by (induction e rule: base_of.induct) (auto simp: is_select_def)

lemma not_select_normalize: "\<not> is_select e \<Longrightarrow> \<not> is_select (normalize e)"
  by (cases e) (auto simp: is_select_def)

lemma normalize_spine: "normalize e = selected (normalize (base_of e)) (keys_of e)"
proof (induction e rule: base_of.induct)
  case (1 base first rest)
  have "\<not> is_select (normalize (base_of base))" using not_select_base not_select_normalize by blast
  with 1 show ?case
    by (cases "keys_of base") (auto simp: selected_def is_select_def split: expr.splits)
qed (simp_all add: selected_def)

lemma expr_ok_spine: "expr_ok e \<Longrightarrow> expr_ok (base_of e) \<and> (\<forall>k \<in> set (keys_of e). key_ok k)"
  by (induction e rule: base_of.induct) auto

section \<open>First bytes\<close>

text \<open>What a printed expression or operand begins with.\<close>

definition opens :: "string \<Rightarrow> bool" where
  "opens s \<longleftrightarrow> (case s of [] \<Rightarrow> False | c # t \<Rightarrow>
     c \<in> {quote, CHR ''['', CHR ''{'', CHR ''(''} \<or> ident_start c \<or> (c = CHR ''.'' \<and> prefix ''/'' t))"

lemma opens_append [simp]: "opens s \<Longrightarrow> opens (s @ t)"
  by (auto simp: opens_def split: list.splits)

lemma opens_simps [simp]:
  "opens (quote # s)" "opens (CHR ''['' # s)" "opens (CHR ''{'' # s)" "opens (CHR ''('' # s)"
  "opens (CHR ''.'' # CHR ''/'' # s)" "ident_start c \<Longrightarrow> opens (c # s)"
  by (simp_all add: opens_def)

lemma write_opens: "expr_ok e \<Longrightarrow> opens (write_expr d e)"
proof (induction e arbitrary: d)
  case (Var i)
  then show ?case by (cases i) auto
next
  case (Boolean b)
  then show ?case by (simp add: write_bool_def opens_def ident_start_def is_alphabetic_def is_lowercase_def byte_def)
qed (simp_all add: write_items_def write_entries_def write_lambda_def write_path_def operand_of_def parenthesized_def)

lemma operand_opens: "expr_ok e \<Longrightarrow> opens (write_operand d e)"
  using write_opens [of e d] by (auto simp: write_operand_def operand_of_def parenthesized_def opens_def)

lemma ident_start_not:
  "ident_start c \<Longrightarrow> c \<notin> {CHR '':'', CHR '']'', CHR ''}'', CHR ''.'', CHR ''/''}"
  by (auto simp: ident_start_def is_alphabetic_def is_lowercase_def is_uppercase_def byte_def)

lemma brackets_solid: "c \<in> {quote, CHR ''['', CHR ''{'', CHR ''('', CHR ''.''} \<Longrightarrow> solid c"
  by (auto simp: solid_def is_blank_def newline_def)

lemma opens_solid: "opens (c # t) \<Longrightarrow> solid c"
  unfolding opens_def list.case using brackets_solid [of c] ident_char_solid [of c] by blast

lemma opens_operand: "opens (c # t) \<Longrightarrow> at_operand (c # t)"
  by (auto simp: opens_def at_operand_def peek_def peek_at_def ident_start_def prefix_def)

lemma opens_not:
  "opens (c # t) \<Longrightarrow> c \<notin> {CHR '':'', CHR '']'', CHR ''}''} \<and> (c = CHR ''.'' \<longrightarrow> prefix ''/'' t)"
  using ident_start_not [of c] by (auto simp: opens_def)

lemma opens_not_selecting: "opens (c # t) \<Longrightarrow> \<not> keeps_selecting (c # t)"
  using opens_not [of c t] by (auto simp: keeps_selecting_def peek_def peek_at_def prefix_def)

lemma opens_facts:
  assumes "opens s"
  shows "skip_trivia s = s" "at_operand s" "\<not> keeps_selecting s" "peek s \<noteq> Some CHR '':''"
    "skip_space s = s" "peek s \<noteq> Some CHR '']''" "peek s \<noteq> Some CHR ''}''"
proof -
  obtain c t where s: "s = c # t" using assms by (cases s) (simp_all add: opens_def)
  with assms have o': "opens (c # t)" by simp
  show "skip_trivia s = s" using opens_solid [OF o'] by (simp add: s)
  show "skip_space s = s" using opens_solid [OF o'] by (simp add: s solid_def skip_space_def)
  show "at_operand s" "\<not> keeps_selecting s"
    unfolding s using opens_operand [OF o'] opens_not_selecting [OF o'] .
  show "peek s \<noteq> Some CHR '':''" "peek s \<noteq> Some CHR '']''" "peek s \<noteq> Some CHR ''}''"
    using opens_not [OF o'] by (simp_all add: s peek_def)
qed

section \<open>What may follow\<close>

definition ends_path :: "string \<Rightarrow> bool" where
  "ends_path s \<longleftrightarrow> (case s of [] \<Rightarrow> True | c # _ \<Rightarrow> \<not> path_char c)"

text \<open>After an operand: the end, a bracket or a semicolon, or a blank and another operand.\<close>

definition follows :: "string \<Rightarrow> bool" where
  "follows s \<longleftrightarrow> ends_word s \<and> ends_path s \<and> \<not> keeps_selecting (skip_trivia s) \<and> peek (skip_space s) \<noteq> Some CHR '':''"

text \<open>After an expression: the end, the newline that ends a file, or a token that closes.\<close>

definition closes :: "string \<Rightarrow> bool" where
  "closes s \<longleftrightarrow> s = [newline] \<or> (case s of [] \<Rightarrow> True | c # _ \<Rightarrow> c \<in> {CHR '';'', CHR ''}'', CHR '')''})"

lemma not_path_char [simp]:
  "\<not> path_char CHR '' ''" "\<not> path_char newline" "\<not> path_char CHR '';''" "\<not> path_char CHR ''}''" "\<not> path_char CHR '')''"
  by (simp_all add: path_char_def is_alphanumeric_def
      is_alphabetic_def is_lowercase_def is_uppercase_def is_digit_def byte_def newline_def)

lemma closers_solid [simp]: "solid CHR '';''" "solid CHR ''}''" "solid CHR '')''" "solid CHR '']''" "solid CHR ''=''" "solid CHR '':''"
  "solid CHR ''{''" "solid CHR ''(''" "solid CHR ''[''"
  by (simp_all add: solid_def is_blank_def newline_def)

lemma closes_cases:
  assumes "closes s"
  obtains "s = []" | "s = [newline]" | t where "s = CHR '';'' # t" | t where "s = CHR ''}'' # t" | t where "s = CHR '')'' # t"
  using assms by (auto simp: closes_def split: list.splits)

lemma closes_simps [simp]:
  "closes []" "closes [newline]" "closes (CHR '';'' # t)" "closes (CHR ''}'' # t)" "closes (CHR '')'' # t)"
  by (simp_all add: closes_def)

lemma closes_facts:
  assumes "closes s"
  shows "follows s" "\<not> at_operand (skip_trivia s)"
proof -
  have "follows s \<and> \<not> at_operand (skip_trivia s)"
    using assms by (cases s rule: closes_cases)
      (simp_all add: follows_def ends_path_def keeps_selecting_def peek_def skip_space_def is_blank_def newline_def
        at_operand_def ident_more_def path_char_def is_alphanumeric_def is_digit_def is_alphabetic_def is_lowercase_def is_uppercase_def byte_def)
  then show "follows s" "\<not> at_operand (skip_trivia s)" by simp_all
qed

lemma follows_blank:
  assumes "c = CHR '' '' \<or> c = newline" "opens (skip_trivia s) \<or> peek (skip_trivia s) = Some CHR '']''"
    "skip_space s = skip_trivia s"
  shows "follows (c # s)"
proof -
  have "\<not> keeps_selecting (skip_trivia s)" "peek (skip_trivia s) \<noteq> Some CHR '':''"
    using assms(2) opens_facts [of "skip_trivia s"] by (auto simp: keeps_selecting_def)
  then show ?thesis using assms by (auto simp: follows_def ends_path_def skip_space_def)
qed

section \<open>The pieces of the grammar\<close>

text \<open>What is to be shown of an expression: how its base is read as a simple expression, and how it
  is read as a whole.\<close>

definition reads_base :: "expr \<Rightarrow> bool" where
  "reads_base e \<longleftrightarrow> (\<forall>d sel s. ends_word s \<and> (is_path (base_of e) \<and> \<not> sel \<longrightarrow> ends_path s) \<longrightarrow>
     simple_to (write_head d sel (base_of e) @ s) (normalize (base_of e)) s)"

definition reads_operand :: "expr \<Rightarrow> bool" where
  "reads_operand e \<longleftrightarrow> (\<forall>d s. follows s \<longrightarrow> selection_to (write_operand d e @ s) (normalize e) (skip_trivia s))"

definition reads_application :: "expr \<Rightarrow> bool" where
  "reads_application e \<longleftrightarrow> (\<forall>d s out t. follows s \<longrightarrow> args_to (normalize e) s out t \<longrightarrow>
     application_to (write_expr d e @ s) out t)"

definition reads_expr :: "expr \<Rightarrow> bool" where
  "reads_expr e \<longleftrightarrow> (\<forall>d s. closes s \<longrightarrow> expr_to (write_expr d e @ s) (normalize e) (skip_trivia s))"

lemma reads_exprD:
  assumes "reads_expr e"
  shows "closes s \<Longrightarrow> expr_to (write_expr d e @ s) (normalize e) (skip_trivia s)"
    "expr_to (write_expr d e @ CHR '';'' # t) (normalize e) (CHR '';'' # t)"
    "expr_to (write_expr d e @ CHR ''}'' # t) (normalize e) (CHR ''}'' # t)"
    "expr_to (write_expr d e @ CHR '')'' # t) (normalize e) (CHR '')'' # t)"
proof -
  have all: "closes s \<Longrightarrow> expr_to (write_expr d e @ s) (normalize e) (skip_trivia s)" for s
    using assms by (simp add: reads_expr_def)
  then show "closes s \<Longrightarrow> expr_to (write_expr d e @ s) (normalize e) (skip_trivia s)" .
  show "expr_to (write_expr d e @ CHR '';'' # t) (normalize e) (CHR '';'' # t)"
    "expr_to (write_expr d e @ CHR ''}'' # t) (normalize e) (CHR ''}'' # t)"
    "expr_to (write_expr d e @ CHR '')'' # t) (normalize e) (CHR '')'' # t)"
    using all [of "CHR '';'' # t"] all [of "CHR ''}'' # t"] all [of "CHR '')'' # t"] by simp_all
qed

lemma reads_operandI:
  assumes "\<And>d s. ends_word s \<and> (is_path (base_of e) \<and> \<not> keys_of e \<noteq> [] \<longrightarrow> ends_path s) \<Longrightarrow>
      simple_to (write_head d (keys_of e \<noteq> []) (base_of e) @ s) (normalize (base_of e)) s"
    "expr_ok e"
  shows "reads_operand e"
  unfolding reads_operand_def
proof (intro allI impI)
  fix d s assume s: "follows s"
  let ?rest = "write_keys (keys_of e) @ s"
  have "ends_word ?rest \<and> (is_path (base_of e) \<and> \<not> keys_of e \<noteq> [] \<longrightarrow> ends_path ?rest)"
    using s by (cases "keys_of e") (auto simp: follows_def write_keys_def)
  then have "simple_to (write_head d (keys_of e \<noteq> []) (base_of e) @ ?rest) (normalize (base_of e)) ?rest"
    by (rule assms(1))
  moreover have "keys_to [] ?rest (keys_of e) (skip_trivia s)"
    using keys_reads [of "keys_of e" s "[]"] expr_ok_spine [OF assms(2)] s by (simp add: follows_def)
  ultimately have "late (\<lambda>m n. p_then (p_simple (p_expr m) (p_selection m) n (write_operand d e @ s))
      (\<lambda>base s. p_then (p_keys (p_expr m) n [] s) (\<lambda>keys. p_ret (selected base keys))) = p_ret (normalize e) (skip_trivia s))"
    unfolding simple_to_def keys_to_def
    by (rule late_both) (simp add: write_spine [of d e] normalize_spine [of e])
  then show "selection_to (write_operand d e @ s) (normalize e) (skip_trivia s)"
    unfolding selection_to_def by (rule late_diag) simp
qed

lemma args_skip: "args_to f (skip_trivia s) out t \<longleftrightarrow> args_to f s out t"
  unfolding args_to_def by (subst (1 2) late_Suc [symmetric]) simp

lemma args_stop: "\<not> at_operand (skip_trivia s) \<Longrightarrow> args_to f s f (skip_trivia s)"
  unfolding args_to_def by (subst late_Suc [symmetric], rule late_always) simp

lemma application_operand:
  assumes "selection_to s e u" "args_to e u out t"
  shows "application_to s out t"
  using assms unfolding selection_to_def args_to_def application_to_def
  by (rule late_both) (simp add: p_application_def)

lemma args_operand:
  assumes "at_operand (skip_trivia s)" "selection_to (skip_trivia s) e u" "args_to (Apply f e) u out t"
  shows "args_to f s out t"
  using assms(2,3) unfolding selection_to_def args_to_def
  by (subst late_Suc [symmetric], rule late_both) (use assms(1) in simp)

lemma reads_applicationI: "reads_operand e \<Longrightarrow> is_operand e \<Longrightarrow> reads_application e"
  unfolding reads_application_def reads_operand_def write_operand_def operand_of_def
  using application_operand args_skip by simp blast

lemma follows_operand: "expr_ok e \<Longrightarrow> follows (CHR '' '' # write_operand d e @ s)"
  using opens_facts [of "write_operand d e @ s"] operand_opens [of e d] by (intro follows_blank) auto

lemma reads_apply:
  assumes "reads_operand f" "is_lambda f \<or> reads_application f" "reads_operand a" "expr_ok f" "expr_ok a"
  shows "reads_application (Apply f a)"
  unfolding reads_application_def
proof (intro allI impI)
  fix d s out t assume s: "follows s" and "args_to (normalize (Apply f a)) s out t"
  then have then_args: "args_to (Apply (normalize f) (normalize a)) (skip_trivia s) out t" by (simp add: args_skip)
  let ?arg = "write_operand d a @ s"
  have opened: "skip_trivia (CHR '' '' # ?arg) = ?arg" "at_operand ?arg"
    using opens_facts [OF opens_append [OF operand_opens [OF assms(5)]]] by simp_all
  have "selection_to ?arg (normalize a) (skip_trivia s)"
    using assms(3) s by (simp add: reads_operand_def)
  with opened then_args have args: "args_to (normalize f) (CHR '' '' # ?arg) out t"
    by - (rule args_operand [of _ "normalize a" "skip_trivia s"], simp_all)
  have fol: "follows (CHR '' '' # ?arg)" using follows_operand assms(5) .
  show "application_to (write_expr d (Apply f a) @ s) out t"
  proof (cases "is_lambda f")
    case True
    then have "write_expr d (Apply f a) @ s = write_operand d f @ CHR '' '' # ?arg"
      by (cases f) (auto simp: write_operand_def operand_of_def is_operand_def is_lambda_def)
    moreover have "selection_to (write_operand d f @ CHR '' '' # ?arg) (normalize f) (skip_trivia (CHR '' '' # ?arg))"
      using assms(1) [unfolded reads_operand_def, rule_format, OF fol] .
    ultimately show ?thesis
      using application_operand [of _ "normalize f" "skip_trivia (CHR '' '' # ?arg)"] args by (simp only: args_skip)
  next
    case False
    then have "reads_application f" using assms(2) by blast
    from this [unfolded reads_application_def, rule_format, OF fol args] show ?thesis
      using False by (simp add: write_operand_def)
  qed
qed

lemma expr_skip: "expr_to (skip_trivia s) e t \<longleftrightarrow> expr_to s e t"
proof -
  have "p_expr m (skip_trivia s) = p_expr m s" for m by (cases m) simp_all
  then show ?thesis by (simp add: expr_to_def)
qed

lemma expr_application:
  assumes "\<not> at_lambda (skip_trivia s)" "application_to (skip_trivia s) e t"
  shows "expr_to s e t"
  using assms(2) unfolding application_to_def expr_to_def
  by (rule late_diag) (use assms(1) in simp)

lemma reads_exprI:
  assumes "reads_application e" "expr_ok e" "\<And>d s. closes s \<Longrightarrow> \<not> at_lambda (write_expr d e @ s)"
  shows "reads_expr e"
  unfolding reads_expr_def
proof (intro allI impI)
  fix d s assume s: "closes s"
  have "opens (write_expr d e @ s)" using write_opens assms(2) by simp
  moreover have "args_to (normalize e) s (normalize e) (skip_trivia s)"
    by (rule args_stop [OF closes_facts(2) [OF s]])
  ultimately show "expr_to (write_expr d e @ s) (normalize e) (skip_trivia s)"
    using assms s opens_facts(1) closes_facts(1) by (intro expr_application) (auto simp: reads_application_def)
qed

lemma simple_parenthesized:
  assumes "expr_to s e (CHR '')'' # t)"
  shows "simple_to (CHR ''('' # s) e t"
proof -
  have "p_expect '')'' (CHR '')'' # t) = p_ret () t" using expect_here [of "'')''" "CHR '')''" "[]" t] by simp
  then show ?thesis
    using assms unfolding simple_to_def expr_to_def
    by (elim late_mono) (simp add: p_simple_def peek_def)
qed

lemma reads_baseI:
  assumes "base_of e = e" "\<not> is_operand e \<or> is_path e \<Longrightarrow> reads_expr e"
    "\<And>d s. is_operand e \<Longrightarrow> ends_word s \<Longrightarrow> (is_path e \<Longrightarrow> ends_path s) \<Longrightarrow> simple_to (write_expr d e @ s) (normalize e) s"
  shows "reads_base e"
  unfolding reads_base_def
proof (intro allI impI)
  fix d sel s assume s: "ends_word s \<and> (is_path (base_of e) \<and> \<not> sel \<longrightarrow> ends_path s)"
  show "simple_to (write_head d sel (base_of e) @ s) (normalize (base_of e)) s"
  proof (cases "\<not> is_operand e \<or> (sel \<and> is_path e)")
    case True
    have "expr_to (write_expr d e @ CHR '')'' # s) (normalize e) (CHR '')'' # s)"
      using assms(2) True reads_exprD(4) by blast
    from simple_parenthesized [OF this] show ?thesis
      using True by (auto simp: assms(1) write_head_def parenthesized_def write_operand_def operand_of_def)
  next
    case False
    then show ?thesis
      using assms(3) [of s d] s by (auto simp: assms(1) write_head_def write_operand_def operand_of_def)
  qed
qed

section \<open>Lists and sets\<close>

lemma items_skip: "items_to es (skip_trivia s) out t \<longleftrightarrow> items_to es s out t"
  unfolding items_to_def by (subst (1 2) late_Suc [symmetric]) simp

lemma entries_skip: "entries_to es (skip_trivia s) out t \<longleftrightarrow> entries_to es s out t"
  unfolding entries_to_def by (subst (1 2) late_Suc [symmetric]) simp

lemma items_item:
  assumes "peek (skip_trivia s) \<noteq> Some CHR '']''" "selection_to (skip_trivia s) e u" "items_to (es @ [e]) u out t"
  shows "items_to es s out t"
  using assms(2,3) unfolding selection_to_def items_to_def
  by (subst late_Suc [symmetric], rule late_both) (use assms(1) in simp)

lemma simple_list:
  assumes "\<And>e d. e \<in> set es \<Longrightarrow> expr_ok e \<and> reads_operand e"
  shows "simple_to (write_expr d (EList es) @ s) (normalize (EList es)) s"
proof -
  let ?closing = "indent d @ CHR '']'' # s"
  let ?items = "\<lambda>es. concat (map (\<lambda>e. indent (Suc d) @ write_operand (Suc d) e @ [newline]) es) @ ?closing"
  have start: "opens (skip_trivia (?items es)) \<or> peek (skip_trivia (?items es)) = Some CHR '']''"
    "skip_space (?items es) = skip_trivia (?items es)"
    if "\<And>e. e \<in> set es \<Longrightarrow> expr_ok e" for es
    using that operand_opens opens_facts(1,5)
    by (cases es; simp add: skip_indent skip_space_indent peek_def; simp add: skip_space_def is_blank_def newline_def)+
  have read: "items_to acc (?items es) (EList (acc @ map normalize es)) s"
    if "\<And>e. e \<in> set es \<Longrightarrow> expr_ok e \<and> reads_operand e" for acc es
    using that
  proof (induction es arbitrary: acc)
    case Nil
    show ?case
      unfolding items_to_def
      by (subst late_Suc [symmetric], rule late_always) (simp add: skip_indent peek_def)
  next
    case (Cons e es)
    let ?rest = "newline # ?items es"
    have fol: "follows ?rest" using start [of es] Cons.prems by (intro follows_blank) auto
    have "reads_operand e" using Cons.prems [of e] by simp
    from this [unfolded reads_operand_def, rule_format, OF fol, of "Suc d"]
    have item: "selection_to (write_operand (Suc d) e @ ?rest) (normalize e) (skip_trivia (?items es))"
      by simp
    note first = opens_facts [OF opens_append [OF operand_opens [of e "Suc d"], of ?rest]]
    have "items_to (acc @ [normalize e]) (skip_trivia (?items es)) (EList (acc @ normalize e # map normalize es)) s"
      using Cons.IH [of "acc @ [normalize e]"] Cons.prems by (simp add: items_skip)
    from items_item [OF _ _ this, of "?items (e # es)"] show ?case
      using item first Cons.prems [of e] by (simp add: skip_indent)
  qed
  have "p_simple (p_expr m) (p_selection m) n (write_expr d (EList es) @ s) = p_items (p_selection m) n []
      (if es = [] then CHR '' '' # CHR '']'' # s else newline # ?items es)" for m n
    by (simp add: p_simple_def peek_def write_items_def write_operand_def comp_def)
  moreover have "items_to [] (if es = [] then CHR '' '' # CHR '']'' # s else newline # ?items es)
      (EList (map normalize es)) s"
    using read [of es "[]"] assms items_skip [of "[]" "newline # ?items es"] items_skip [of "[]" "?items es"]
      items_skip [of "[]" "CHR '' '' # CHR '']'' # s"] items_skip [of "[]" "CHR '']'' # s"]
    by (cases "es = []") (simp_all add: skip_indent)
  ultimately show ?thesis by (simp add: simple_to_def items_to_def)
qed

lemma bt_insert_last:
  "\<forall>k' \<in> fst ` set m. k' < k \<Longrightarrow> bt_insert k v m = m @ [(k, v)] \<and> map_of m k = None"
  by (induction m) (auto simp: map_of_eq_None_iff)

lemma p_entry:
  assumes "key_ok k" "opens v" "expr_to (v @ CHR '';'' # u) e (CHR '';'' # u)"
    "\<forall>k' \<in> fst ` set acc. k' < k" "entries_to (acc @ [(k, e)]) u out t"
  shows "entries_to acc (write_key k @ '' = '' @ v @ CHR '';'' # u) out t"
proof -
  let ?v = "CHR '' '' # v @ CHR '';'' # u"
  let ?s = "write_key k @ '' = '' @ v @ CHR '';'' # u"
  have key: "key_to ?s k ('' ='' @ ?v)"
    using key_reads [OF assms(1), of "'' ='' @ ?v"] by simp
  have val: "expr_to ?v e (CHR '';'' # u)"
    using assms(2,3) expr_skip [of ?v] opens_facts(1) [OF opens_append [OF assms(2)], of "CHR '';'' # u"] by simp
  have eq: "p_expect ''='' ('' ='' @ ?v) = p_ret () ?v"
    by (simp add: p_expect_def)
  have semi: "p_expect '';'' (CHR '';'' # u) = p_ret () u" by (simp add: p_expect_def)
  obtain c w where c: "write_key k = c # w" "c = quote \<or> ident_start c"
    using write_key_solid assms(1) by metis
  have start: "skip_trivia ?s = ?s" "peek ?s \<noteq> Some CHR ''}''"
    using c ident_char_solid [of c] string_solid ident_start_not [of c] by (auto simp: peek_def)
  have insert: "attrs_insert k e acc = (None, acc @ [(k, e)])"
    using bt_insert_last [OF assms(4), of e] by (simp add: attrs_insert_def)
  have both: "late (\<lambda>m n. p_key (p_expr m) n ?s = p_ret k ('' ='' @ ?v) \<and> p_expr m ?v = p_ret e (CHR '';'' # u))"
    using key [unfolded key_to_def] val [unfolded expr_to_def] by (rule late_both) simp
  show ?thesis
    unfolding entries_to_def
    by (subst late_Suc [symmetric], rule late_both [OF both assms(5) [unfolded entries_to_def]])
      (use start eq semi insert in \<open>simp add: Let_def\<close>)
qed


lemma entries_indent: "entries_to es (newline # indent d @ s) out t \<longleftrightarrow> entries_to es s out t"
  using entries_skip [of es "newline # indent d @ s"] entries_skip [of es s] by (simp add: skip_indent)

text \<open>What is left of a set after its first newline.\<close>

definition entry_lines :: "nat \<Rightarrow> (key \<times> expr) list \<Rightarrow> string \<Rightarrow> string" where
  "entry_lines d kvs s = concat (map (\<lambda>kv. indent (Suc d) @ write_key (fst kv) @ '' = ''
     @ write_expr (Suc d) (snd kv) @ '';'' @ [newline]) kvs) @ indent d @ ''}'' @ s"

lemma entries_read:
  assumes "\<And>kv. kv \<in> set kvs \<Longrightarrow> key_ok (fst kv) \<and> expr_ok (snd kv) \<and> reads_expr (snd kv)"
    "bt_ok (acc @ kvs)"
  shows "entries_to acc (newline # entry_lines d kvs s) (Attrs (acc @ map (\<lambda>kv. (fst kv, normalize (snd kv))) kvs)) s"
  using assms
proof (induction kvs arbitrary: acc)
  case Nil
  show ?case
    unfolding entries_to_def entry_lines_def
    by (subst late_Suc [symmetric], rule late_always) (simp add: skip_indent peek_def)
next
  case (Cons kv kvs)
  obtain k e where kv: "kv = (k, e)" by force
  with Cons.prems(1) [of kv] have ok: "key_ok k" "expr_ok e" "reads_expr e" by auto
  let ?u = "newline # entry_lines d kvs s"
  have small: "\<forall>k' \<in> fst ` set acc. k' < k"
    using Cons.prems(2) kv by (auto simp: bt_ok_def sorted_wrt_append)
  have "bt_ok ((acc @ [(k, normalize e)]) @ kvs)"
    using Cons.prems(2) kv by (simp add: bt_ok_def)
  with Cons have rest: "entries_to (acc @ [(k, normalize e)]) ?u
      (Attrs ((acc @ [(k, normalize e)]) @ map (\<lambda>kv. (fst kv, normalize (snd kv))) kvs)) s"
    by (intro Cons.IH) auto
  have "expr_to (write_expr (Suc d) e @ CHR '';'' # ?u) (normalize e) (CHR '';'' # ?u)"
    using reads_exprD(2) [OF ok(3)] by simp
  from p_entry [OF ok(1) write_opens [OF ok(2)] this small rest] show ?case
    by (simp add: entry_lines_def kv entries_indent)
qed

lemma simple_attrs:
  assumes "\<And>kv. kv \<in> set kvs \<Longrightarrow> key_ok (fst kv) \<and> expr_ok (snd kv) \<and> reads_expr (snd kv)" "bt_ok kvs"
  shows "simple_to (write_expr d (Attrs kvs) @ s) (normalize (Attrs kvs)) s"
proof -
  have "bt_ok (map (\<lambda>kv. (fst kv, normalize (snd kv))) kvs)"
    using assms(2) by (simp add: bt_ok_def comp_def)
  then have n: "normalize (Attrs kvs) = Attrs (map (\<lambda>kv. (fst kv, normalize (snd kv))) kvs)"
    by (simp add: attrs_from_iter_same)
  have written: "write_expr d (Attrs kvs) @ s =
      CHR ''{'' # (if kvs = [] then CHR '' '' # CHR ''}'' # s else newline # entry_lines d kvs s)"
    by (simp add: write_entries_def entry_lines_def comp_def)
  have "entries_to [] (newline # entry_lines d kvs s) (Attrs (map (\<lambda>kv. (fst kv, normalize (snd kv))) kvs)) s"
    using entries_read [of kvs "[]"] assms by simp
  then have "entries_to [] (if kvs = [] then CHR '' '' # CHR ''}'' # s else newline # entry_lines d kvs s)
      (Attrs (map (\<lambda>kv. (fst kv, normalize (snd kv))) kvs)) s"
    using entries_skip [of "[]" "CHR '' '' # CHR ''}'' # s"] entries_skip [of "[]" "newline # entry_lines d kvs s"]
    by (cases kvs) (simp_all add: entry_lines_def skip_indent)
  then show ?thesis
    unfolding n written simple_to_def entries_to_def
    by (elim late_mono) (simp add: p_simple_def peek_def)
qed

section \<open>Lambdas\<close>

text \<open>Not to be taken for one: every other expression, unless a colon follows it.\<close>

lemma skip_space_solid: "solid c \<Longrightarrow> skip_space (c # s) = c # s"
  by (simp add: skip_space_def solid_def)

lemma skip_space_blank: "is_blank c \<Longrightarrow> skip_space (c # s) = skip_space s"
  by (simp add: skip_space_def)

lemma at_lambda_key:
  assumes "key_ok k"
  shows "\<not> at_lambda (CHR ''{'' # newline # indent (Suc d) @ write_key k @ '' = '' @ s)"
proof -
  obtain c w where c: "write_key k = c # w" "c = quote \<or> ident_start c"
    using write_key_solid assms by metis
  have "solid c" using c(2) string_solid ident_char_solid by auto
  then have t: "skip_space (newline # indent (Suc d) @ write_key k @ '' = '' @ s) = write_key k @ '' = '' @ s"
    by (simp add: c(1) skip_space_blank skip_space_indent skip_space_solid)
  have dots: "peek (write_key k @ '' = '' @ s) \<noteq> Some CHR ''}''" "\<not> prefix ''...'' (write_key k @ '' = '' @ s)"
    using c ident_start_not [of c] by (auto simp: peek_def)
  have "identifier_end (write_key k @ '' = '' @ s) = 0 \<or>
      drop (identifier_end (write_key k @ '' = '' @ s)) (write_key k @ '' = '' @ s) = '' = '' @ s"
  proof (cases "key_bare k")
    case True
    then show ?thesis
      using assms identifier_end_word [of "key_text k" "'' = '' @ s"] by (simp add: write_key_def key_ok_def)
  next
    case False
    have "\<not> ident_start quote"
      by (simp add: ident_start_def is_alphabetic_def is_lowercase_def is_uppercase_def byte_def)
    with False show ?thesis by (simp add: write_key_def identifier_end_def)
  qed
  with dots t show ?thesis
    by (auto simp: at_lambda_def Let_def peek_def skip_space_blank skip_space_solid)
qed

lemma at_lambda_other: "peek s \<noteq> Some CHR ''{'' \<Longrightarrow> \<not> at_lambda s"
  by (simp add: at_lambda_def)

lemma not_at_lambda:
  "expr_ok e \<Longrightarrow> \<not> is_lambda e \<Longrightarrow> peek (skip_space s) \<noteq> Some CHR '':'' \<Longrightarrow> \<not> at_lambda (write_expr d e @ s)"
proof (induction e arbitrary: d s)
  case (Attrs kvs)
  show ?case
  proof (cases kvs)
    case Nil
    then show ?thesis
      using Attrs.prems by (simp add: write_entries_def at_lambda_def Let_def peek_def skip_space_blank skip_space_solid)
  next
    case (Cons kv kvs')
    then show ?thesis
      using Attrs.prems at_lambda_key [of "fst kv" d] by (simp add: write_entries_def)
  qed
next
  case (Select e k ks)
  show ?case
  proof (cases "is_path e \<or> \<not> is_operand e")
    case True
    then show ?thesis
      by (intro at_lambda_other) (auto simp: parenthesized_def operand_of_def peek_def)
  next
    case False
    then have "\<not> is_lambda e" by (auto simp: is_operand_def is_lambda_def split: expr.splits)
    then show ?thesis
      using False Select.prems Select.IH [of "write_keys (k # ks) @ s" d] dot_solid
      by (simp add: operand_of_def write_keys_def skip_space_solid peek_def)
  qed
next
  case (Apply f a)
  have "peek (skip_space (CHR '' '' # write_operand d a @ s)) \<noteq> Some CHR '':''"
    using opens_facts(4,5) [OF opens_append [OF operand_opens]] Apply.prems by (simp add: skip_space_blank)
  then show ?case
    using Apply.prems Apply.IH(1)
    by (cases "is_lambda f") (auto simp: write_operand_def parenthesized_def intro!: at_lambda_other simp: peek_def)
next
  case (Var i)
  then show ?case
    by (cases i) (auto simp: peek_def ident_start_def is_alphabetic_def is_lowercase_def is_uppercase_def byte_def intro!: at_lambda_other)
qed (auto simp: write_items_def write_bool_def write_path_def peek_def is_lambda_def intro!: at_lambda_other)

lemma formals_close:
  "p_formals fs ('' }'' @ z) = p_ret (fs, False) z" "p_formals fs (CHR ''}'' # z) = p_ret (fs, False) z"
  "p_formals fs ('' ... }'' @ z) = p_ret (fs, True) z"
  by (simp_all add: p_formals.simps [of _ "_ # _"] peek_def dot_solid p_expect_def)

lemma insort_last: "sorted_wrt (<) (fs @ [i]) \<Longrightarrow> insort (i :: string) fs = fs @ [i] \<and> i \<notin> set fs"
  by (induction fs) auto

lemma p_formals_next:
  assumes "is_identifier i" "ends_word u" "i \<notin> set fs"
  shows "p_formals fs (CHR '' '' # i @ u) =
    p_formals (insort i fs) (if peek (skip_trivia u) = Some CHR '','' then tl (skip_trivia u) else skip_trivia u)"
proof -
  obtain c w where i: "i = c # w" "ident_start c" using assms(1) by (cases i) auto
  have "skip_trivia (i @ u) = i @ u" using skip_identifier assms(1) .
  moreover have "peek (i @ u) \<noteq> Some CHR ''}''" "\<not> prefix ''...'' (i @ u)"
    using i ident_start_not [of c] by (auto simp: peek_def)
  ultimately show ?thesis
    using assms by (subst p_formals.simps) (simp add: Let_def read_identifier_word ident_new_def)
qed

lemma formals_read:
  "sorted_wrt (<) (fs @ i # is) \<Longrightarrow> \<forall>j \<in> set (i # is). is_identifier j \<Longrightarrow>
   p_formals fs (CHR '' '' # i @ write_formals False is @ (if ell then '', ...'' else []) @ '' }'' @ z) = p_ret (fs @ i # is, ell) z"
proof (induction "is" arbitrary: fs i)
  case Nil
  then have "insort i fs = fs @ [i] \<and> i \<notin> set fs" by (intro insort_last) simp
  with Nil show ?case
    by (cases ell)
      (simp_all add: p_formals_next formals_close [simplified] peek_def solid_def is_blank_def newline_def)
next
  case (Cons j js)
  have "sorted_wrt (<) (fs @ [i])" "sorted_wrt (<) ((fs @ [i]) @ j # js)"
    using Cons.prems(1) by (simp_all add: sorted_wrt_append)
  then have "insort i fs = fs @ [i] \<and> i \<notin> set fs"
    "p_formals (fs @ [i]) (CHR '' '' # j @ write_formals False js @ (if ell then '', ...'' else []) @ '' }'' @ z) = p_ret (fs @ i # j # js, ell) z"
    using insort_last Cons.IH [of "fs @ [i]" j] Cons.prems(2) by simp_all
  with Cons.prems(2) show ?case
    by (simp add: p_formals_next peek_def solid_def is_blank_def newline_def del: append.append_Cons [of "CHR '' ''"])
qed

lemma lambda_head_read:
  assumes "formals_ok fs"
  shows "lambda_head (write_lambda fs ell body @ s) = p_ret (fs, ell) (CHR '' '' # body @ s)"
    "at_lambda (write_lambda fs ell body @ s)"
proof -
  let ?z = "CHR '':'' # CHR '' '' # body @ s"
  obtain u where u: "write_lambda fs ell body @ s = CHR ''{'' # u" "p_formals [] u = p_ret (fs, ell) ?z"
    "at_lambda (CHR ''{'' # u)"
  proof (cases fs)
    case Nil
    show ?thesis
      by (rule that [of "(if ell then '' ... }'' else ''}'') @ ?z"])
        (auto simp: Nil write_lambda_def formals_close [simplified] at_lambda_def Let_def peek_def
          skip_space_def is_blank_def newline_def)
  next
    case (Cons i "is")
    let ?u = "CHR '' '' # i @ write_formals False is @ (if ell then '', ...'' else []) @ '' }'' @ ?z"
    let ?w = "write_formals False is @ (if ell then '', ...'' else []) @ '' }'' @ ?z"
    have i: "is_identifier i" using assms Cons by simp
    then obtain c w where c: "i = c # w" "ident_start c" by (cases i) auto
    have w: "ends_word ?w" "peek (skip_space ?w) \<in> {Some CHR '','', Some CHR ''}''}"
      by (cases "is"; auto simp: peek_def skip_space_def is_blank_def newline_def)+
    have "skip_space (i @ ?w) = i @ ?w"
      using c ident_char_solid [of c] by (simp add: skip_space_solid)
    moreover have "peek (i @ ?w) \<noteq> Some CHR ''}''" "i \<noteq> []"
      using c ident_start_not [of c] by (auto simp: peek_def)
    ultimately have "at_lambda (CHR ''{'' # ?u)"
      using identifier_end_word [OF i w(1)] w(2)
      by (auto simp: at_lambda_def peek_def [of "_ # _"] skip_space_blank Let_def)
    moreover have "p_formals [] ?u = p_ret (fs, ell) ?z"
      using formals_read [of "[]" i "is" ell ?z] assms Cons by simp
    ultimately show ?thesis by (intro that [of ?u]) (auto simp: Cons write_lambda_def)
  qed
  then show "at_lambda (write_lambda fs ell body @ s)" by simp
  show "lambda_head (write_lambda fs ell body @ s) = p_ret (fs, ell) (CHR '' '' # body @ s)"
    using u by (simp add: lambda_head_def p_expect_def)
qed

lemma reads_lambda:
  assumes "formals_ok fs" "expr_ok body" "reads_expr body"
  shows "reads_expr (Lambda fs ell body)"
  unfolding reads_expr_def
proof (intro allI impI)
  fix d s assume s: "closes s"
  let ?s = "write_lambda fs ell (write_expr d body) @ s"
  have "expr_to (write_expr d body @ s) (normalize body) (skip_trivia s)" using reads_exprD(1) [OF assms(3) s] .
  moreover have "skip_trivia (write_expr d body @ s) = write_expr d body @ s"
    using opens_facts(1) [OF opens_append [OF write_opens [OF assms(2)]]] .
  ultimately have body: "expr_to (CHR '' '' # write_expr d body @ s) (normalize body) (skip_trivia s)"
    using expr_skip [of "CHR '' '' # write_expr d body @ s"] by simp
  have "skip_trivia ?s = ?s" by (simp add: write_lambda_def)
  then have "p_expr (Suc m) ?s = p_then (p_expr m (CHR '' '' # write_expr d body @ s)) (\<lambda>b. p_ret (Lambda fs ell b))" for m
    using lambda_head_read [OF assms(1)] by (simp add: p_lambda_def)
  with body show "expr_to (write_expr d (Lambda fs ell body) @ s) (normalize (Lambda fs ell body)) (skip_trivia s)"
    unfolding expr_to_def by (intro late_diag [OF body [unfolded expr_to_def]]) simp
qed

section \<open>Every expression\<close>

text \<open>The words \<open>true\<close> and \<open>false\<close> are read as booleans, so no variable may have those names.\<close>

fun no_bool_vars :: "expr \<Rightarrow> bool"
  and part_no_bool_vars :: "str_part \<Rightarrow> bool" where
  "no_bool_vars (Str parts) \<longleftrightarrow> (\<forall>p \<in> set parts. part_no_bool_vars p)"
| "no_bool_vars (EList es) \<longleftrightarrow> (\<forall>e \<in> set es. no_bool_vars e)"
| "no_bool_vars (Attrs kvs) \<longleftrightarrow> (\<forall>kv \<in> set kvs. no_bool_vars (snd kv))"
| "no_bool_vars (Var i) \<longleftrightarrow> i \<noteq> ''true'' \<and> i \<noteq> ''false''"
| "no_bool_vars (Select e k ks) \<longleftrightarrow> no_bool_vars e"
| "no_bool_vars (Apply f a) \<longleftrightarrow> no_bool_vars f \<and> no_bool_vars a"
| "no_bool_vars (Lambda formals ellipsis body) \<longleftrightarrow> no_bool_vars body"
| "no_bool_vars _ \<longleftrightarrow> True"
| "part_no_bool_vars (Lit t) \<longleftrightarrow> True"
| "part_no_bool_vars (Interp e) \<longleftrightarrow> no_bool_vars e"

definition reads :: "expr \<Rightarrow> bool" where
  "reads e \<longleftrightarrow> reads_base e \<and> reads_expr e \<and> reads_operand e \<and> (is_lambda e \<or> reads_application e)"

lemma reads_of_application:
  assumes "reads_operand e" "is_operand e" "expr_ok e"
  shows "reads_application e" "reads_expr e"
proof -
  show app: "reads_application e" using reads_applicationI assms(1,2) .
  have "\<not> is_lambda e" using assms(2) by (auto simp: is_operand_def is_lambda_def split: expr.splits)
  then show "reads_expr e"
    using assms(3) closes_facts(1) app by (intro reads_exprI not_at_lambda) (auto simp: follows_def)
qed

lemma reads_simple:
  assumes "expr_ok e" "is_operand e" "\<not> is_select e"
    "\<And>d s. ends_word s \<Longrightarrow> (is_path e \<Longrightarrow> ends_path s) \<Longrightarrow> simple_to (write_expr d e @ s) (normalize e) s"
  shows "reads e"
proof -
  have e: "base_of e = e" "keys_of e = []" using assms(3) by (cases e; simp add: is_select_def)+
  have op: "reads_operand e"
    using assms by (intro reads_operandI) (auto simp: e write_head_def write_operand_def operand_of_def)
  moreover note reads_of_application [OF op assms(2,1)]
  ultimately show ?thesis using reads_baseI [OF e(1) _ assms(4)] by (simp add: reads_def)
qed

lemma reads_select:
  assumes "reads e" "expr_ok (Select e k ks)"
  shows "reads (Select e k ks)"
proof -
  have base: "reads_base (Select e k ks)" using assms(1) by (simp add: reads_def reads_base_def)
  then have op: "reads_operand (Select e k ks)"
    using assms(2) unfolding reads_base_def by (intro reads_operandI) blast+
  moreover note reads_of_application [OF op _ assms(2)]
  ultimately show ?thesis using base by (simp add: reads_def is_operand_def)
qed

lemma reads_enclosed:
  assumes "expr_ok e" "\<not> is_operand e" "reads_expr e" "is_lambda e \<or> reads_application e"
  shows "reads e"
proof -
  have e: "base_of e = e" "keys_of e = []" using assms(2) by (cases e; simp add: is_operand_def)+
  have base: "reads_base e" by (rule reads_baseI [OF e(1)]) (use assms(2,3) in auto)
  then have "reads_operand e"
    using assms(1) unfolding reads_base_def by (intro reads_operandI) (simp_all add: e(2))
  with base assms(3,4) show ?thesis by (simp add: reads_def)
qed

lemma simple_word:
  assumes "is_identifier i" "ends_word s" "\<And>t. word_expr i t = p_ret e t"
  shows "simple_to (i @ s) e s"
proof -
  obtain c w where i: "i = c # w" "ident_start c" using assms(1) by (cases i) auto
  have "peek (i @ s) \<notin> {Some quote, Some CHR ''['', Some CHR ''{'', Some CHR ''('', Some CHR ''.''}"
    using i by (auto simp: peek_def ident_start_def is_alphabetic_def is_lowercase_def is_uppercase_def byte_def)
  then have "p_simple pe ps n (i @ s) = p_ret e s" for pe ps n
    using assms by (simp add: p_simple_def Let_def skip_identifier read_identifier_word)
  then show ?thesis unfolding simple_to_def by (intro late_always)
qed

lemma simple_path:
  assumes "is_rel_path p" "ends_path s"
  shows "simple_to (write_path p @ s) (EPath p) s"
proof -
  have "list_all (\<lambda>b. is_lowercase b \<or> is_digit b \<or> b = CHR ''-'' \<or> b = CHR ''.'') p"
    using assms(1) by (cases p) auto
  then have "\<forall>c \<in> set p. path_char c"
    by (auto simp: list_all_iff path_char_def is_alphanumeric_def is_alphabetic_def)
  then have "takeWhile path_char (p @ s) = p" "dropWhile path_char (p @ s) = s"
    using assms(2) by (cases s; auto simp: ends_path_def takeWhile_append dropWhile_append)+
  with assms(1) have "p_simple pe ps n (write_path p @ s) = p_ret (EPath p) s" for pe ps n
    by (simp add: p_simple_def write_path_def dot_solid peek_def peek_at_def path_expr_def rel_path_new_def)
  then show ?thesis unfolding simple_to_def by (intro late_always)
qed

lemma bool_words: "is_identifier (write_bool b)" "word_expr (write_bool b) t = p_ret (Boolean b) t"
  by (cases b; simp add: write_bool_def word_expr_def ident_start_def ident_more_def is_alphanumeric_def
      is_alphabetic_def is_lowercase_def byte_def is_reserved_def RESERVED_WORDS_def)+

theorem reads_all: "expr_ok e \<Longrightarrow> no_bool_vars e \<Longrightarrow> reads e"
  and "\<And>e. p = Interp e \<Longrightarrow> expr_ok e \<Longrightarrow> no_bool_vars e \<Longrightarrow> reads e"
proof (induction e and p)
  case (Str parts)
  have "reads_expr e" if "Interp e \<in> set parts" for e
    using Str.IH [OF that refl] Str.prems that by (force simp: reads_def)
  then show ?case
    using Str.prems by (intro reads_simple simple_string) (auto simp: is_operand_def is_select_def intro: reads_exprD(3))
next
  case (Boolean b)
  show ?case
    using simple_word [OF bool_words(1) _ bool_words(2), of _ b]
    by (intro reads_simple) (auto simp: is_operand_def is_select_def)
next
  case (EList es)
  then have "expr_ok e \<and> reads_operand e" if "e \<in> set es" for e
    using that by (simp add: reads_def)
  with EList.prems show ?case
    by (intro reads_simple simple_list) (auto simp: is_operand_def is_select_def)
next
  case (Attrs kvs)
  have "key_ok (fst kv) \<and> expr_ok (snd kv) \<and> reads_expr (snd kv)" if "kv \<in> set kvs" for kv
    using Attrs.IH [OF that, of "snd kv"] Attrs.prems that by (auto simp: reads_def snds.simps)
  with Attrs.prems show ?case
    by (intro reads_simple simple_attrs) (auto simp: is_operand_def is_select_def)
next
  case (Var i)
  then show ?case
    using simple_word [of i _ "Var i"]
    by (intro reads_simple) (auto simp: is_operand_def is_select_def word_expr_def ident_new_def)
next
  case (Select e k ks)
  then show ?case by (intro reads_select) auto
next
  case (Apply f a)
  then have app: "reads_application (Apply f a)"
    by (intro reads_apply) (auto simp: reads_def)
  moreover have "reads_expr (Apply f a)"
    using app Apply.prems closes_facts(1)
    by (intro reads_exprI not_at_lambda) (auto simp: is_lambda_def follows_def)
  ultimately show ?case
    using Apply.prems by (intro reads_enclosed) (simp_all add: is_operand_def)
next
  case (Lambda fs ell body)
  then have "reads_expr (Lambda fs ell body)" by (intro reads_lambda) (auto simp: reads_def)
  with Lambda.prems show ?case
    by (intro reads_enclosed) (simp_all add: is_operand_def is_lambda_def)
next
  case (EPath p)
  then show ?case
    using simple_path by (intro reads_simple) (auto simp: is_operand_def is_select_def is_path_def)
qed simp_all

text \<open>A file: comments and blanks, an expression, the newline that may end it.\<close>

lemma parse_written:
  assumes "expr_ok e" "no_bool_vars e" "\<And>s. skip_trivia (header @ s) = skip_trivia s" "end_of_file = [] \<or> end_of_file = [newline]"
  shows "parse (header @ write_expr 0 e @ end_of_file) = Some (Inr (normalize e))"
proof -
  have rest: "closes end_of_file" "skip_trivia end_of_file = []" using assms(4) by auto
  have "expr_to (write_expr 0 e @ end_of_file) (normalize e) []"
    using reads_exprD(1) [OF _ rest(1)] reads_all(1) [OF assms(1,2)] rest(2) by (metis reads_def)
  then have "expr_to (header @ write_expr 0 e @ end_of_file) (normalize e) []"
    using assms(3) [of "write_expr 0 e @ end_of_file"] by (metis expr_skip)
  then obtain N where "\<And>n. N \<le> n \<Longrightarrow> p_expr n (header @ write_expr 0 e @ end_of_file) = p_ret (normalize e) []"
    by (auto simp: expr_to_def late_def)
  then show ?thesis by (rule parse_eqI) simp_all
qed

lemma parse_printed:
  assumes "expr_ok e" "no_bool_vars e"
  shows "print e = Some (write_expr 0 e)" "parse (write_expr 0 e) = Some (Inr (normalize e))"
  using expr_ok_asserts(1) [OF assms(1)] parse_written [OF assms, of "[]" "[]"] by (simp_all add: print_def)

end
