(* ===== verification/Policy.thy ===== *)
theory Policy
  imports Paths
begin

text \<open>
  What an administrator may set for a machine: the mirror of packages
  (\<open>crates/events/src/mirror.rs\<close>) and the policy that holds it and renders the \<open>nix.conf\<close> of the
  machine (\<open>core/src/declared/policy.rs\<close>). Reading JSON is third-party code: the reader is an
  argument, and what is shown holds for every reader.
\<close>

section \<open>Characters\<close>

text \<open>\<open>char::is_control\<close> of the character the text begins with: the code points below \<open>U+0020\<close> and
  from \<open>U+007F\<close> to \<open>U+009F\<close>.\<close>

definition control_at :: "string \<Rightarrow> bool" where
  "control_at s \<longleftrightarrow> byte_in 0 0x1F s 0 \<or> byte_in 0x7F 0x7F s 0
     \<or> (byte_in 0xC2 0xC2 s 0 \<and> byte_in 0x80 0x9F s 1)"

text \<open>Whether some character of the text is white space, a control character or one of the given
  ones. Bytes inside a character match neither test, so all suffixes are looked at.\<close>

fun any_blank :: "string \<Rightarrow> string \<Rightarrow> bool" where
  "any_blank others [] = False"
| "any_blank others (c # s) =
     (white_space (c # s) \<noteq> 0 \<or> control_at (c # s) \<or> c \<in> set others \<or> any_blank others s)"

lemma white_space_bytes:
  "white_space (newline # s) \<noteq> 0" "white_space (CHR 0x0D # s) \<noteq> 0" "white_space (CHR '' '' # s) \<noteq> 0"
  by (simp_all add: white_space_def byte_in_def byte_def newline_def)

lemma any_blank_free:
  "\<not> any_blank others s \<Longrightarrow> c \<in> set s \<Longrightarrow> c \<noteq> newline \<and> c \<noteq> CHR 0x0D \<and> c \<noteq> CHR '' '' \<and> c \<notin> set others"
proof (induction s)
  case (Cons d s)
  then show ?case using white_space_bytes [of s] by (cases "c = d") auto
qed simp

section \<open>Mirrors\<close>

datatype invalid_mirror = Invalid_Url string | Invalid_Key string | Invalid_KeyWithoutMirror

record mirror =
  mirror_url :: string
  mirror_key :: "string option"

definition is_mirror_url :: "string \<Rightarrow> bool" where
  "is_mirror_url url \<longleftrightarrow>
     (let rest = (if starts_with url ''https://'' then Some (drop 8 url)
                  else if starts_with url ''http://'' then Some (drop 7 url) else None)
      in (case rest of None \<Rightarrow> False | Some r \<Rightarrow> r \<noteq> []))
     \<and> \<not> any_blank [CHR ''#'', CHR 0x22] url"

definition is_binary_cache_key :: "string \<Rightarrow> bool" where
  "is_binary_cache_key key =
     (case split_once CHR '':'' key of
        None \<Rightarrow> False
      | Some (name, material) \<Rightarrow>
          name \<noteq> [] \<and> material \<noteq> [] \<and> CHR '':'' \<notin> set material \<and> \<not> any_blank [CHR ''#''] key)"

definition trim_end_matches :: "char \<Rightarrow> string \<Rightarrow> string" where
  "trim_end_matches c s = rev (dropWhile (\<lambda>d. d = c) (rev s))"

definition trimmed :: "string option \<Rightarrow> string option" where
  "trimmed t = (case t of None \<Rightarrow> None | Some s \<Rightarrow> if trim s = [] then None else Some (trim s))"

definition mirror_new :: "string \<Rightarrow> string option \<Rightarrow> invalid_mirror + mirror" where
  "mirror_new url key =
     (let url = trim_end_matches slash (trim url)
      in if \<not> is_mirror_url url then Inl (Invalid_Url url)
         else case trimmed key of
             None \<Rightarrow> Inr \<lparr>mirror_url = url, mirror_key = None\<rparr>
           | Some k \<Rightarrow> if is_binary_cache_key k then Inr \<lparr>mirror_url = url, mirror_key = Some k\<rparr>
                      else Inl (Invalid_Key k))"

definition mirror_given :: "string option \<Rightarrow> string option \<Rightarrow> invalid_mirror + mirror option" where
  "mirror_given url key =
     (case (trimmed url, trimmed key) of
        (Some u, k) \<Rightarrow> and_then (mirror_new u k) (\<lambda>m. Inr (Some m))
      | (None, Some _) \<Rightarrow> Inl Invalid_KeyWithoutMirror
      | (None, None) \<Rightarrow> Inr None)"

section \<open>Policies\<close>

definition FORMAT :: u32 where
  "FORMAT = 1"

definition CACHE_NIXOS_ORG_KEY :: string where
  "CACHE_NIXOS_ORG_KEY = ''cache.nixos.org-1:6NCHdD59X431o0gWypbMrAURkbJ16ZPMQFGspcDShjY=''"

datatype invalid_policy = Invalid_Mirror invalid_mirror | Invalid_Newer u32 | Invalid_Malformed string

record stored_mirror =
  sm_url :: string
  sm_key :: "string option"

record stored =
  stored_format :: u32
  stored_mirror :: "stored_mirror option"

definition nix_conf :: "mirror option \<Rightarrow> string" where
  "nix_conf mirror =
     ''build-users-group = nixbld'' @ [newline]
     @ ''experimental-features = nix-command flakes'' @ [newline]
     @ ''fsync-store-paths = true'' @ [newline]
     @ ''trusted-users = root'' @ [newline]
     @ (case mirror of
          None \<Rightarrow> []
        | Some m \<Rightarrow> ''substituters = '' @ mirror_url m @ ''/cache'' @ [newline]
            @ (case mirror_key m of
                 None \<Rightarrow> []
               | Some key \<Rightarrow> ''trusted-public-keys = '' @ CACHE_NIXOS_ORG_KEY @ '' '' @ key @ [newline]))"

definition to_stored :: "mirror option \<Rightarrow> stored" where
  "to_stored mirror =
     \<lparr>stored_format = FORMAT,
      stored_mirror = map_option (\<lambda>m. \<lparr>sm_url = mirror_url m, sm_key = mirror_key m\<rparr>) mirror\<rparr>"

text \<open>\<open>to_string_pretty\<close> is the argument \<open>pretty\<close>.\<close>

definition policy_render :: "(stored \<Rightarrow> string) \<Rightarrow> mirror option \<Rightarrow> string" where
  "policy_render pretty mirror = pretty (to_stored mirror) @ [newline]"

record policy =
  policy_mirror :: "mirror option"
  policy_rendered :: string
  policy_nix_conf :: string

definition policy_with :: "(stored \<Rightarrow> string) \<Rightarrow> mirror option \<Rightarrow> policy" where
  "policy_with pretty mirror =
     \<lparr>policy_mirror = mirror, policy_rendered = policy_render pretty mirror, policy_nix_conf = nix_conf mirror\<rparr>"

definition policy_new ::
  "(stored \<Rightarrow> string) \<Rightarrow> string option \<Rightarrow> string option \<Rightarrow> invalid_policy + policy" where
  "policy_new pretty url key =
     (case mirror_given url key of
        Inl e \<Rightarrow> Inl (Invalid_Mirror e)
      | Inr m \<Rightarrow> Inr (policy_with pretty m))"

text \<open>\<open>from_str\<close> is the argument \<open>from_json\<close>.\<close>

definition policy_parse ::
  "(string \<Rightarrow> string + stored) \<Rightarrow> (stored \<Rightarrow> string) \<Rightarrow> string \<Rightarrow> invalid_policy + policy" where
  "policy_parse from_json pretty contents =
     (case from_json contents of
        Inl e \<Rightarrow> Inl (Invalid_Malformed e)
      | Inr s \<Rightarrow>
          if FORMAT < stored_format s then Inl (Invalid_Newer (stored_format s))
          else case stored_mirror s of
              Some m \<Rightarrow> policy_new pretty (Some (sm_url m)) (sm_key m)
            | None \<Rightarrow> Inr (policy_with pretty None))"

definition policy_load ::
  "(string \<Rightarrow> string + stored) \<Rightarrow> (stored \<Rightarrow> string) \<Rightarrow> string option \<Rightarrow> policy" where
  "policy_load from_json pretty contents =
     (case contents of
        None \<Rightarrow> policy_with pretty None
      | Some c \<Rightarrow> (case policy_parse from_json pretty c of
            Inl _ \<Rightarrow> policy_with pretty None | Inr p \<Rightarrow> p))"

section \<open>What a configuration holds\<close>

definition one_line :: "string \<Rightarrow> bool" where
  "one_line s \<longleftrightarrow> newline \<notin> set s \<and> CHR 0x0D \<notin> set s \<and> CHR ''#'' \<notin> set s \<and> CHR '' '' \<notin> set s"

definition mirror_ok :: "mirror \<Rightarrow> bool" where
  "mirror_ok m \<longleftrightarrow> one_line (mirror_url m) \<and> (\<forall>k. mirror_key m = Some k \<longrightarrow> one_line k)"

lemma any_blank_one_line: "\<not> any_blank others s \<Longrightarrow> CHR ''#'' \<in> set others \<Longrightarrow> one_line s"
  using any_blank_free [of others s] by (auto simp: one_line_def)

lemma mirror_new_ok: "mirror_new url key = Inr m \<Longrightarrow> mirror_ok m"
  unfolding mirror_new_def mirror_ok_def is_mirror_url_def is_binary_cache_key_def Let_def
  by (auto simp del: any_blank.simps split: if_splits option.splits intro: any_blank_one_line)

lemma mirror_given_ok: "mirror_given url key = Inr (Some m) \<Longrightarrow> mirror_ok m"
  by (auto simp: mirror_given_def split: option.splits intro: mirror_new_ok)

lemma strip_cr_same: "CHR 0x0D \<notin> set s \<Longrightarrow> strip_cr s = s"
  by (cases s rule: rev_cases) (auto simp: strip_cr_def)

lemma lines_line: "newline \<notin> set s \<Longrightarrow> CHR 0x0D \<notin> set s \<Longrightarrow> lines (s @ newline # t) = s # lines t"
  by (simp add: lines_def split_on_app strip_cr_same Let_def)

lemma lines_of_lines:
  "\<forall>l \<in> set ls. newline \<notin> set l \<and> CHR 0x0D \<notin> set l \<Longrightarrow> lines (concat (map (\<lambda>l. l @ [newline]) ls)) = ls"
  by (induction ls) (simp_all add: lines_line, simp add: lines_def)

text \<open>The lines of the configuration, which are what they are meant to be.\<close>

definition conf_lines :: "mirror option \<Rightarrow> string list" where
  "conf_lines mirror =
     [''build-users-group = nixbld'', ''experimental-features = nix-command flakes'',
      ''fsync-store-paths = true'', ''trusted-users = root'']
     @ (case mirror of
          None \<Rightarrow> []
        | Some m \<Rightarrow> (''substituters = '' @ mirror_url m @ ''/cache'')
            # (case mirror_key m of
                 None \<Rightarrow> []
               | Some key \<Rightarrow> [''trusted-public-keys = '' @ CACHE_NIXOS_ORG_KEY @ '' '' @ key]))"

lemma nix_conf_concat: "nix_conf mirror = concat (map (\<lambda>l. l @ [newline]) (conf_lines mirror))"
  by (simp add: nix_conf_def conf_lines_def split: option.split)

lemma nix_conf_lines:
  assumes "\<And>m. mirror = Some m \<Longrightarrow> mirror_ok m"
  shows "lines (nix_conf mirror) = conf_lines mirror"
proof -
  have "newline \<notin> set l \<and> CHR 0x0D \<notin> set l" if "l \<in> set (conf_lines mirror)" for l
    using that assms
    by (auto simp: conf_lines_def newline_def CACHE_NIXOS_ORG_KEY_def mirror_ok_def one_line_def split: option.splits)
  then show ?thesis unfolding nix_conf_concat by (intro lines_of_lines) blast
qed

lemma policy_load_ok:
  assumes "policy_mirror (policy_load from_json pretty contents) = Some m"
  shows "mirror_ok m"
  using assms
  by (auto simp: policy_load_def policy_parse_def policy_new_def policy_with_def
      split: option.splits sum.splits if_splits intro: mirror_given_ok)

lemma policy_load_conf:
  "policy_nix_conf (policy_load from_json pretty contents) = nix_conf (policy_mirror (policy_load from_json pretty contents))"
  by (auto simp: policy_load_def policy_parse_def policy_new_def policy_with_def split: option.splits sum.splits)

end
