(* ===== verification/Pins.thy ===== *)
theory Pins
  imports Nix_Ast
begin

text \<open>
  The revisions of the two inputs of a user's flake: what a revision and a hash look like
  (\<open>nixgen/src/flake.rs\<close>, \<open>nixgen/src/lock.rs\<close>), the table of inputs (\<open>nixgen/src/inputs.rs\<close>), how a lock
  file is read and which pins a user gets (\<open>core/src/declared/pins.rs\<close>), and the list of packages
  (\<open>core/src/declared/state.rs\<close>). Reading JSON text is third-party code: the reader is an argument.
\<close>

section \<open>Revisions and hashes\<close>

definition is_rev :: "string \<Rightarrow> bool" where
  "is_rev s \<longleftrightarrow> length s = 40 \<and> list_all (\<lambda>b. is_digit b \<or> (byte CHR ''a'' \<le> byte b \<and> byte b \<le> byte CHR ''f'')) s"

definition rev_parse :: "string \<Rightarrow> string + string" where
  "rev_parse s = (if is_rev s then Inr s else Inl s)"

definition NAR_PREFIX :: string where
  "NAR_PREFIX = ''sha256-''"

definition BASE64_LEN :: nat where
  "BASE64_LEN = 44"

definition is_nar_hash :: "string \<Rightarrow> bool" where
  "is_nar_hash s \<longleftrightarrow>
     length s = length NAR_PREFIX + BASE64_LEN
     \<and> take (length NAR_PREFIX) s = NAR_PREFIX
     \<and> list_all (\<lambda>b. is_alphanumeric b \<or> b = CHR ''+'' \<or> b = CHR ''/'') (butlast (drop (length NAR_PREFIX) s))
     \<and> last s = CHR ''=''"

definition nar_hash_parse :: "string \<Rightarrow> string + string" where
  "nar_hash_parse s = (if is_nar_hash s then Inr s else Inl s)"

section \<open>Inputs and pins\<close>

datatype pin = Pin_HomeManager | Pin_Nixpkgs

record 'a pins =
  home_manager :: 'a
  nixpkgs :: 'a

fun pin_of :: "'a pins \<Rightarrow> pin \<Rightarrow> 'a" where
  "pin_of ps Pin_HomeManager = home_manager ps"
| "pin_of ps Pin_Nixpkgs = nixpkgs ps"

record flake_input =
  in_pin :: pin
  in_name :: string
  in_owner :: string
  in_repo :: string
  in_branch :: string
  in_follows :: "string option"

definition INPUTS :: "flake_input list" where
  "INPUTS =
     [\<lparr>in_pin = Pin_HomeManager, in_name = ''home-manager'', in_owner = ''nix-community'',
        in_repo = ''home-manager'', in_branch = ''master'', in_follows = Some ''nixpkgs''\<rparr>,
      \<lparr>in_pin = Pin_Nixpkgs, in_name = ''nixpkgs'', in_owner = ''NixOS'',
        in_repo = ''nixpkgs'', in_branch = ''nixos-unstable'', in_follows = None\<rparr>]"

fun pin_index :: "pin \<Rightarrow> nat" where
  "pin_index Pin_HomeManager = 0"
| "pin_index Pin_Nixpkgs = 1"

definition pin_input :: "pin \<Rightarrow> flake_input" where
  "pin_input p = INPUTS ! pin_index p"

text \<open>The assertions on the table that the compiler evaluates.\<close>

lemma inputs_checked:
  "\<forall>i < length INPUTS. pin_index (in_pin (INPUTS ! i)) = i"
  "\<forall>i \<in> set INPUTS. in_name i < ''root''"
  "sorted_wrt (<) (map in_name INPUTS)"
  "\<forall>i \<in> set INPUTS. \<forall>f. in_follows i = Some f \<longrightarrow> f \<in> in_name ` set INPUTS"
  by (auto simp: INPUTS_def less_Suc_eq less_char_def)

record locked_input =
  li_rev :: string
  li_nar_hash :: string
  li_last_modified :: u64

definition EMBEDDED :: "locked_input pins" where
  "EMBEDDED =
     \<lparr>home_manager =
        \<lparr>li_rev = ''c216bf5a1f173b0481bd5c8c489ebe5595ecc68c'',
         li_nar_hash = ''sha256-/0tELNnhdSnP+bHSdWiEe6KpfSwi6WrTnT9cm/jNkjA='',
         li_last_modified = 1792896866\<rparr>,
      nixpkgs =
        \<lparr>li_rev = ''3ec636362e1816bc2f0888fa0fa2c69f1bc9e504'',
         li_nar_hash = ''sha256-rZLrzrC6i+jnTAlvPZHogKDulY7WWDEv9hJeHieO7Zw='',
         li_last_modified = 1792773339\<rparr>\<rparr>"

section \<open>Reading a lock file\<close>

text \<open>\<open>serde_json::Value\<close>: a number is a whole number or a text of one that is not. An object keeps
  one value for a key.\<close>

datatype json =
    JNull
  | JBool bool
  | JInt int
  | JFloat string
  | JString string
  | JArray "json list"
  | JObject "(string \<times> json) list"

fun json_get :: "json \<Rightarrow> string \<Rightarrow> json option" where
  "json_get (JObject members) k = map_of members k"
| "json_get _ k = None"

fun as_str :: "json \<Rightarrow> string option" where
  "as_str (JString s) = Some s"
| "as_str _ = None"

fun as_u64 :: "json \<Rightarrow> nat option" where
  "as_u64 (JInt i) = (if 0 \<le> i \<and> i < 2 ^ 64 then Some (nat i) else None)"
| "as_u64 _ = None"

definition json_text :: "json \<Rightarrow> string \<Rightarrow> string option" where
  "json_text v k = Option.bind (json_get v k) as_str"

definition ok :: "'e + 'a \<Rightarrow> 'a option" where
  "ok r = (case r of Inl _ \<Rightarrow> None | Inr x \<Rightarrow> Some x)"

definition locked :: "flake_input \<Rightarrow> json \<Rightarrow> locked_input option" where
  "locked input v =
     (if json_text v ''type'' = Some ''github'' \<and> json_text v ''owner'' = Some (in_owner input)
         \<and> json_text v ''repo'' = Some (in_repo input)
      then Option.bind (Option.bind (json_text v ''rev'') (\<lambda>s. ok (rev_parse s))) (\<lambda>rev.
        Option.bind (Option.bind (json_text v ''narHash'') (\<lambda>s. ok (nar_hash_parse s))) (\<lambda>hash.
        Option.bind (Option.bind (json_get v ''lastModified'') as_u64) (\<lambda>seconds.
          if seconds < 2 ^ 63
          then Some \<lparr>li_rev = rev, li_nar_hash = hash, li_last_modified = of_nat seconds\<rparr>
          else None)))
      else None)"

definition pinned :: "json \<Rightarrow> json \<Rightarrow> pin \<Rightarrow> locked_input option" where
  "pinned nodes root p =
     Option.bind (Option.bind (json_get root (in_name (pin_input p))) as_str) (\<lambda>name.
     Option.bind (json_get nodes name) (\<lambda>node.
     Option.bind (json_get node ''locked'') (locked (pin_input p))))"

definition from_lock :: "json \<Rightarrow> locked_input pins option" where
  "from_lock lock =
     Option.bind (json_get lock ''nodes'') (\<lambda>nodes.
     Option.bind (Option.bind (Option.bind (Option.bind (json_get lock ''root'') as_str) (json_get nodes))
       (\<lambda>root. json_get root ''inputs'')) (\<lambda>root.
     Option.bind (pinned nodes root Pin_HomeManager) (\<lambda>hm.
     Option.bind (pinned nodes root Pin_Nixpkgs) (\<lambda>np.
       Some \<lparr>home_manager = hm, nixpkgs = np\<rparr>))))"

definition read_lock :: "(string \<Rightarrow> json option) \<Rightarrow> string \<Rightarrow> locked_input pins option" where
  "read_lock from_str lock = Option.bind (from_str lock) from_lock"

definition newer_pin :: "locked_input pins \<Rightarrow> locked_input pins \<Rightarrow> pin \<Rightarrow> locked_input" where
  "newer_pin from_pins to_pins p =
     (if li_last_modified (pin_of from_pins p) < li_last_modified (pin_of to_pins p)
      then pin_of to_pins p else pin_of from_pins p)"

definition forward :: "locked_input pins \<Rightarrow> locked_input pins \<Rightarrow> locked_input pins" where
  "forward from_pins to_pins =
     \<lparr>home_manager = newer_pin from_pins to_pins Pin_HomeManager,
      nixpkgs = newer_pin from_pins to_pins Pin_Nixpkgs\<rparr>"

definition settle ::
  "(string \<Rightarrow> json option) \<Rightarrow> string option \<Rightarrow> string option \<Rightarrow> bool \<Rightarrow> locked_input pins" where
  "settle from_str file generation mirrored =
     (if mirrored then EMBEDDED
      else
        (let found =
           (case (Option.bind file (read_lock from_str), Option.bind generation (read_lock from_str)) of
              (Some f, Some g) \<Rightarrow> if f \<noteq> g then Some g else Some f
            | (Some f, None) \<Rightarrow> Some f
            | (None, g) \<Rightarrow> g)
         in case found of Some found \<Rightarrow> forward found EMBEDDED | None \<Rightarrow> EMBEDDED))"

section \<open>The text of a lock file\<close>

definition line_of :: "string \<Rightarrow> string" where
  "line_of s = s @ [newline]"

definition quoted :: "string \<Rightarrow> string" where
  "quoted s = CHR 0x22 # s @ [CHR 0x22]"

definition field_line :: "string \<Rightarrow> string \<Rightarrow> string \<Rightarrow> bool \<Rightarrow> string" where
  "field_line ind name value_text comma = line_of (ind @ quoted name @ '': '' @ value_text @ (if comma then '','' else []))"

definition render_input :: "locked_input pins \<Rightarrow> flake_input \<Rightarrow> string" where
  "render_input ps input =
     (let pin = pin_of ps (in_pin input)
      in line_of (''    '' @ quoted (in_name input) @ '': {'')
       @ (case in_follows input of
            None \<Rightarrow> []
          | Some follows \<Rightarrow> line_of (''      '' @ quoted ''inputs'' @ '': {'')
              @ line_of (''        '' @ quoted follows @ '': ['')
              @ line_of (''          '' @ quoted follows)
              @ line_of ''        ]'' @ line_of ''      },'')
       @ line_of (''      '' @ quoted ''locked'' @ '': {'')
       @ field_line ''        '' ''lastModified'' (show_nat (unat (li_last_modified pin))) True
       @ field_line ''        '' ''narHash'' (quoted (li_nar_hash pin)) True
       @ field_line ''        '' ''owner'' (quoted (in_owner input)) True
       @ field_line ''        '' ''repo'' (quoted (in_repo input)) True
       @ field_line ''        '' ''rev'' (quoted (li_rev pin)) True
       @ field_line ''        '' ''type'' (quoted ''github'') False
       @ line_of ''      },''
       @ line_of (''      '' @ quoted ''original'' @ '': {'')
       @ field_line ''        '' ''owner'' (quoted (in_owner input)) True
       @ field_line ''        '' ''repo'' (quoted (in_repo input)) True
       @ field_line ''        '' ''rev'' (quoted (li_rev pin)) True
       @ field_line ''        '' ''type'' (quoted ''github'') False
       @ line_of ''      }'' @ line_of ''    },'')"

definition lock_render :: "locked_input pins \<Rightarrow> string" where
  "lock_render ps =
     line_of ''{'' @ line_of (''  '' @ quoted ''nodes'' @ '': {'')
     @ concat (map (render_input ps) INPUTS)
     @ line_of (''    '' @ quoted ''root'' @ '': {'') @ line_of (''      '' @ quoted ''inputs'' @ '': {'')
     @ concat (map (\<lambda>i. line_of (''        '' @ quoted (in_name (INPUTS ! i)) @ '': '' @ quoted (in_name (INPUTS ! i))
         @ (if Suc i < length INPUTS then '','' else []))) [0..<length INPUTS])
     @ line_of ''      }'' @ line_of ''    }'' @ line_of ''  },''
     @ line_of (''  '' @ quoted ''root'' @ '': '' @ quoted ''root'' @ '','')
     @ line_of (''  '' @ quoted ''version'' @ '': 7'') @ line_of ''}''"

section \<open>The list of packages\<close>

definition REQUIRED_PACKAGES :: "string list" where
  "REQUIRED_PACKAGES = [''git'']"

record state_manifest =
  sm_version :: u32
  sm_packages :: "string list"

record package_partition =
  pp_installed :: "string list"
  pp_missing :: "string list"

definition manifest_seed :: state_manifest where
  "manifest_seed = \<lparr>sm_version = 1, sm_packages = REQUIRED_PACKAGES\<rparr>"

text \<open>\<open>to_string_pretty\<close> is the argument \<open>pretty\<close>.\<close>

definition manifest_render :: "(state_manifest \<Rightarrow> string) \<Rightarrow> state_manifest \<Rightarrow> string" where
  "manifest_render pretty m = pretty m @ [CHR 0x0A]"

definition manifest_sorted :: "state_manifest \<Rightarrow> state_manifest" where
  "manifest_sorted m = m\<lparr>sm_packages := dedup (sort (sm_packages m))\<rparr>"

text \<open>Each of the following keeps a set of the names it has seen.\<close>

fun protected_names :: "string set \<Rightarrow> string list \<Rightarrow> string list" where
  "protected_names seen [] = []"
| "protected_names seen (p # ps) =
     (if p \<in> set REQUIRED_PACKAGES \<and> p \<notin> seen then p # protected_names (insert p seen) ps
      else protected_names seen ps)"

definition protected :: "string list \<Rightarrow> string list" where
  "protected requested = protected_names {} requested"

definition manifest_without :: "string list \<Rightarrow> state_manifest \<Rightarrow> state_manifest" where
  "manifest_without removed m = m\<lparr>sm_packages := filter (\<lambda>p. p \<notin> set removed) (sm_packages m)\<rparr>"

fun partition_names :: "string set \<Rightarrow> string set \<Rightarrow> string list \<Rightarrow> package_partition \<Rightarrow> package_partition" where
  "partition_names installed seen [] pp = pp"
| "partition_names installed seen (p # ps) pp =
     (if p \<in> seen then partition_names installed seen ps pp
      else if p \<in> installed
      then partition_names installed (insert p seen) ps (pp\<lparr>pp_installed := pp_installed pp @ [p]\<rparr>)
      else partition_names installed (insert p seen) ps (pp\<lparr>pp_missing := pp_missing pp @ [p]\<rparr>))"

definition manifest_partition :: "state_manifest \<Rightarrow> string list \<Rightarrow> package_partition" where
  "manifest_partition m requested =
     partition_names (set (sm_packages m)) {} requested \<lparr>pp_installed = [], pp_missing = []\<rparr>"

text \<open>The request without its repetitions, split by whether the package is on the list.\<close>

lemma remdups_snoc: "remdups (xs @ [x]) = filter (\<lambda>y. y \<noteq> x) (remdups xs) @ [x]"
  by (induction xs) auto

lemma partition_names_split:
  "partition_names installed seen ps pp =
   \<lparr>pp_installed = pp_installed pp @ filter (\<lambda>p. p \<in> installed) (filter (\<lambda>p. p \<notin> seen) (rev (remdups (rev ps)))),
    pp_missing = pp_missing pp @ filter (\<lambda>p. p \<notin> installed) (filter (\<lambda>p. p \<notin> seen) (rev (remdups (rev ps))))\<rparr>"
proof (induction ps arbitrary: seen pp)
  case (Cons p ps)
  show ?case
    by (auto simp: Cons remdups_snoc rev_filter conj_commute intro!: filter_cong)
qed simp

lemma embedded_ok:
  "is_rev (li_rev (pin_of EMBEDDED p))" "is_nar_hash (li_nar_hash (pin_of EMBEDDED p))"
  by (cases p; simp add: EMBEDDED_def is_rev_def is_nar_hash_def NAR_PREFIX_def BASE64_LEN_def is_digit_def byte_def
      is_alphanumeric_def is_alphabetic_def is_lowercase_def is_uppercase_def)+

definition pin_ok :: "locked_input \<Rightarrow> bool" where
  "pin_ok li \<longleftrightarrow> is_rev (li_rev li) \<and> is_nar_hash (li_nar_hash li) \<and> li_last_modified li < 2 ^ 63"

lemma locked_ok: "locked input v = Some li \<Longrightarrow> pin_ok li"
  by (auto simp: locked_def pin_ok_def ok_def rev_parse_def nar_hash_parse_def bind_eq_Some_conv word_less_nat_alt unat_of_nat
      split: if_splits)

lemma read_lock_ok: "read_lock from_str lock = Some ps \<Longrightarrow> pin_ok (pin_of ps p)"
  by (cases p) (auto simp: read_lock_def from_lock_def pinned_def bind_eq_Some_conv intro: locked_ok)

lemma pin_of_forward: "pin_of (forward f t) p = newer_pin f t p"
  by (cases p) (simp_all add: forward_def)

lemma embedded_pin_ok: "pin_ok (pin_of EMBEDDED p)"
  using embedded_ok [of p] by (cases p) (simp_all add: pin_ok_def EMBEDDED_def word_less_nat_alt)

text \<open>What \<open>settle\<close> chooses from: the embedded pins, or pins that were read, moved up.\<close>

lemma settle_cases:
  "settle from_str file generation mirrored = EMBEDDED \<or>
   (\<exists>ps lock. settle from_str file generation mirrored = forward ps EMBEDDED \<and>
     (file = Some lock \<or> generation = Some lock) \<and> read_lock from_str lock = Some ps)"
proof -
  let ?f = "Option.bind file (read_lock from_str)" and ?g = "Option.bind generation (read_lock from_str)"
  consider "?f = None" "?g = None" | g where "?g = Some g" | f where "?f = Some f" "?g = None"
    by (cases ?f; cases ?g) auto
  then show ?thesis
  proof cases
    case 2
    then have "mirrored \<or> settle from_str file generation mirrored = forward g EMBEDDED"
      by (auto simp: settle_def split: option.splits)
    with 2 show ?thesis by (auto simp: settle_def bind_eq_Some_conv)
  next
    case 3
    then show ?thesis by (auto simp: settle_def bind_eq_Some_conv)
  qed (simp add: settle_def)
qed

end
