(* ===== verification/Targets.thy ===== *)
theory Targets
  imports Policy Pins Wire
begin

text \<open>
  What mix declares of a machine (the types of \<open>core/src/declared/targets.rs\<close>, the constants of
  \<open>declared/paths.rs\<close> and \<open>declared/identity.rs\<close> they are made of): targets with their labels and
  categories, and the modes of files.
\<close>

section \<open>Build users\<close>

definition NIXBLD_GROUP :: string where "NIXBLD_GROUP = ''nixbld''"
definition NIXBLD_GID :: u32 where "NIXBLD_GID = 30000"
definition NIXBLD_USER_COUNT :: u32 where "NIXBLD_USER_COUNT = 32"
definition NIXBLD_UID_BASE :: u32 where "NIXBLD_UID_BASE = 30000"
definition NIXBLD_HOME :: path where "NIXBLD_HOME = components ''/var/empty''"
definition MIX_USERS_GROUP :: string where "MIX_USERS_GROUP = ''mix-users''"
definition MIX_USERS_GID :: u32 where "MIX_USERS_GID = 30100"

text \<open>The table of names holds what the format would give, so one branch is enough
  (\<open>user_name_table\<close>).\<close>

definition NIXBLD_USER_NAMES :: "string list" where
  "NIXBLD_USER_NAMES = map (\<lambda>n. ''nixbld'' @ show_nat n) [1..<33]"

definition user_name :: "u32 \<Rightarrow> string" where
  "user_name n =
     (let i = unat (n - 1)
      in if n \<noteq> 0 \<and> i < length NIXBLD_USER_NAMES then NIXBLD_USER_NAMES ! i
         else NIXBLD_GROUP @ show_nat (unat n))"

section \<open>Places\<close>

definition NIX_TREE_MODE :: u32 where "NIX_TREE_MODE = 0x1ED"

definition NIX_TREE_PATHS :: "path list" where
  "NIX_TREE_PATHS = map components
     [''/nix/var'', ''/nix/var/log'', ''/nix/var/log/nix'', ''/nix/var/log/nix/drvs'', ''/nix/var/nix'',
      ''/nix/var/nix/db'', ''/nix/var/nix/gcroots'', ''/nix/var/nix/gcroots/per-user'',
      ''/nix/var/nix/profiles'', ''/nix/var/nix/profiles/per-user'', ''/nix/var/nix/temproots'',
      ''/nix/var/nix/userpool'', ''/nix/var/nix/daemon-socket'']"

definition NIX_DAEMON_SERVICE_UNIT :: string where "NIX_DAEMON_SERVICE_UNIT = ''nix-daemon.service''"
definition NIX_DAEMON_SOCKET_UNIT :: string where "NIX_DAEMON_SOCKET_UNIT = ''nix-daemon.socket''"
definition NIX_DAEMON_SERVICE_DEST :: path where
  "NIX_DAEMON_SERVICE_DEST = components ''/etc/systemd/system/nix-daemon.service''"
definition NIX_DAEMON_SOCKET_DEST :: path where
  "NIX_DAEMON_SOCKET_DEST = components ''/etc/systemd/system/nix-daemon.socket''"
definition NIX_OWNERSHIP_MARKER :: path where "NIX_OWNERSHIP_MARKER = components ''/nix/.mix-managed''"
definition NIX_CONF_DEST :: path where "NIX_CONF_DEST = components ''/etc/nix/nix.conf''"
definition PROFILE_SNIPPET_DEST :: path where "PROFILE_SNIPPET_DEST = components ''/etc/profile.d/mix-nix.sh''"
definition POLICY_FILE :: path where "POLICY_FILE = components ''/etc/mix/policy.json''"
definition JOURNAL_DIR :: path where "JOURNAL_DIR = components ''/var/lib/mix/journal''"
definition RUNNING_PROGRAM :: path where "RUNNING_PROGRAM = components ''/proc/self/exe''"
definition MIX_VAR_DIR :: path where "MIX_VAR_DIR = components ''/var/lib/mix''"
definition MIX_BIN_DIR :: path where "MIX_BIN_DIR = components ''/var/lib/mix/bin''"
definition MIX_DAEMON_BIN :: path where "MIX_DAEMON_BIN = components ''/var/lib/mix/bin/mix-daemon''"
definition MIX_DAEMON_BIN_MODE :: u32 where "MIX_DAEMON_BIN_MODE = 0x1ED"
definition MIX_VAR_DIR_MODE :: u32 where "MIX_VAR_DIR_MODE = 0x1ED"
definition MIX_DAEMON_SOCKET_UNIT :: string where "MIX_DAEMON_SOCKET_UNIT = ''mix-daemon.socket''"
definition MIX_DAEMON_SERVICE_UNIT :: string where "MIX_DAEMON_SERVICE_UNIT = ''mix-daemon.service''"
definition MIX_DAEMON_SOCKET_DEST :: path where
  "MIX_DAEMON_SOCKET_DEST = components ''/etc/systemd/system/mix-daemon.socket''"
definition MIX_DAEMON_SERVICE_DEST :: path where
  "MIX_DAEMON_SERVICE_DEST = components ''/etc/systemd/system/mix-daemon.service''"
definition NIX_PROFILE_LINK :: string where "NIX_PROFILE_LINK = ''.nix-profile''"
definition MIX_STATE_DIR_MODE :: u32 where "MIX_STATE_DIR_MODE = 0x1C0"
definition NIX_PROFILES_DIR_MODE :: u32 where "NIX_PROFILES_DIR_MODE = 0x1ED"
definition NIXBLD_HOME_MODE :: u32 where "NIXBLD_HOME_MODE = 0x16D"

definition unlines :: "string list \<Rightarrow> string" where
  "unlines ls = concat (map (\<lambda>l. l @ [newline]) ls)"

definition MIX_DAEMON_SOCKET :: string where
  "MIX_DAEMON_SOCKET = unlines
     [''[Unit]'', ''Description=mix daemon socket'', [], ''[Socket]'', ''ListenStream=/run/mix/daemon.sock'',
      ''SocketMode=0666'', ''DirectoryMode=0755'', ''RemoveOnStop=yes'', [], ''[Install]'',
      ''WantedBy=sockets.target'']"

definition MIX_DAEMON_SERVICE :: string where
  "MIX_DAEMON_SERVICE = unlines
     [''[Unit]'', ''Description=mix daemon'', ''Requires=mix-daemon.socket'',
      ''After=mix-daemon.socket nix-daemon.socket'', [], ''[Service]'', ''Type=notify'',
      ''ExecStart=/var/lib/mix/bin/mix-daemon serve'', ''KillMode=mixed'', ''TimeoutStopSec=infinity'',
      ''Restart=on-failure'', ''RestartForceExitStatus=75'', ''SuccessExitStatus=75'', ''OOMPolicy=continue'',
      ''ProtectSystem=yes'', ''PrivateTmp=yes'', ''PrivateDevices=yes'', ''ProtectKernelTunables=yes'',
      ''ProtectKernelModules=yes'', ''ProtectKernelLogs=yes'', ''ProtectControlGroups=yes'', ''ProtectClock=yes'',
      ''LockPersonality=yes'', ''NoNewPrivileges=yes'', [], ''[Install]'', ''WantedBy=multi-user.target'']"

definition PROFILE_SNIPPET :: string where
  "PROFILE_SNIPPET = unlines
     [''# Managed by mix -- do not edit, changes are overwritten and will trip `mix doctor`.'',
      ''if [ -e '' @ [CHR 0x27] @ ''/nix/var/nix/profiles/default/etc/profile.d/nix-daemon.sh'' @ [CHR 0x27] @ '' ]; then'',
      ''    . '' @ [CHR 0x27] @ ''/nix/var/nix/profiles/default/etc/profile.d/nix-daemon.sh'' @ [CHR 0x27],
      ''fi'']"

section \<open>Modes\<close>

unbundle bit_operations_syntax

type_synonym owner_of = "(u32 \<times> u32) option"

definition ROOT_OWNER :: owner_of where "ROOT_OWNER = Some (0, 0)"

datatype mode = Exact u32 | AtLeast u32

definition SYSTEM_FILE :: mode where "SYSTEM_FILE = AtLeast 0x1A4"
definition USER_FILE :: mode where "USER_FILE = AtLeast 0x180"
definition WRITABLE_BY_OTHERS :: u32 where "WRITABLE_BY_OTHERS = 0x12"

fun mode_bits :: "mode \<Rightarrow> u32" where
  "mode_bits (Exact bits) = bits"
| "mode_bits (AtLeast bits) = bits"

fun settled :: "mode \<Rightarrow> u32 \<Rightarrow> owner_of \<Rightarrow> u32" where
  "settled (Exact mode) found owner = mode"
| "settled (AtLeast bits) found owner =
     (let foreign = (case owner of
          Some (uid, _) \<Rightarrow> if uid = 0 then WRITABLE_BY_OTHERS AND NOT bits else 0
        | None \<Rightarrow> 0)
      in (found OR bits) AND NOT foreign)"

text \<open>Settling gives the bits that are asked for, keeps the others on files of users, and is done
  once.\<close>

lemma settled_bits: "settled mode found owner AND mode_bits mode = mode_bits mode"
  by (cases mode)
    (auto simp: Let_def bit_eq_iff bit_and_iff bit_or_iff bit_not_iff split: option.splits)

lemma settled_again: "settled mode (settled mode found owner) owner = settled mode found owner"
  by (cases mode)
    (auto simp: Let_def bit_eq_iff bit_and_iff bit_or_iff bit_not_iff split: option.splits)

section \<open>Targets\<close>

datatype category = Category_Filesystem | Category_Identity | Category_Services | Category_Configuration

fun category_label :: "category \<Rightarrow> string" where
  "category_label Category_Filesystem = ''Filesystem''"
| "category_label Category_Identity = ''Identity/Users''"
| "category_label Category_Services = ''Services''"
| "category_label Category_Configuration = ''Configuration''"

datatype unit_source = Source_File path | Source_Text string

record runtime =
  rt_url :: string
  rt_sha256 :: bytes
  rt_size :: u64

datatype target =
    T_Precondition path
  | T_Link path
  | T_Parent path mode owner_of
  | T_Directory path mode owner_of
  | T_File path "string option" mode owner_of
  | T_SeededFile path string mode owner_of
  | T_Group string u32
  | T_GroupMember string string
  | T_User u32 u32 u32
  | T_SystemdUnit string unit_source path
  | T_UnitActive string
  | T_PathExists string path "runtime option"
  | T_Repository path invoking_user
  | T_History path invoking_user
  | T_Program path path mode
  | T_Journals path
  | T_Leftovers path path
  | T_Generations path invoking_user
  | T_HomeFiles path invoking_user
  | T_Activation path invoking_user "verb option" string "locked_input pins"
  | T_Retention path invoking_user bool

definition path_text :: "path \<Rightarrow> string" where
  "path_text p = utf8_lossy (path_display p)"

definition suffixed :: "path \<Rightarrow> string \<Rightarrow> string" where
  "suffixed p s = path_text p @ s"

fun target_label :: "target \<Rightarrow> string" where
  "target_label (T_Precondition p) = path_text p"
| "target_label (T_Link p) = path_text p"
| "target_label (T_Parent p _ _) = path_text p"
| "target_label (T_Directory p _ _) = path_text p"
| "target_label (T_File p _ _ _) = path_text p"
| "target_label (T_SeededFile p _ _ _) = path_text p"
| "target_label (T_Group name _) = name"
| "target_label (T_GroupMember _ user) = user"
| "target_label (T_User n _ _) = user_name n"
| "target_label (T_SystemdUnit name _ _) = name"
| "target_label (T_UnitActive name) = name @ '' activation''"
| "target_label (T_PathExists name _ _) = name"
| "target_label (T_History p _) = suffixed p '' history''"
| "target_label (T_HomeFiles p _) = suffixed p '' files in the way''"
| "target_label (T_Leftovers d _) = suffixed d '' leftovers''"
| "target_label (T_Activation p _ _ _ _) = suffixed p '' profile''"
| "target_label (T_Retention p _ _) = suffixed p '' old generations''"
| "target_label (T_Repository p _) = path_text p"
| "target_label (T_Generations p _) = path_text p"
| "target_label (T_Program p _ _) = path_display p"
| "target_label (T_Journals p) = path_display p"

definition is_configuration :: "path \<Rightarrow> bool" where
  "is_configuration p \<longleftrightarrow> p \<in> set [NIX_CONF_DEST, POLICY_FILE, PROFILE_SNIPPET_DEST]"

fun target_category :: "target \<Rightarrow> category" where
  "target_category (T_File p _ _ _) = (if is_configuration p then Category_Configuration else Category_Filesystem)"
| "target_category (T_Group _ _) = Category_Identity"
| "target_category (T_GroupMember _ _) = Category_Identity"
| "target_category (T_User _ _ _) = Category_Identity"
| "target_category (T_SystemdUnit _ _ _) = Category_Services"
| "target_category (T_UnitActive _) = Category_Services"
| "target_category (T_Program _ _ _) = Category_Services"
| "target_category (T_Generations _ _) = Category_Configuration"
| "target_category (T_Activation _ _ _ _ _) = Category_Configuration"
| "target_category (T_Retention _ _ _) = Category_Configuration"
| "target_category _ = Category_Filesystem"

definition target_writes :: "target \<Rightarrow> bool" where
  "target_writes t = (case t of
      T_Parent _ _ _ \<Rightarrow> True | T_Directory _ _ _ \<Rightarrow> True | T_File _ _ _ _ \<Rightarrow> True
    | T_SeededFile _ _ _ _ \<Rightarrow> True | T_SystemdUnit _ _ _ \<Rightarrow> True | T_Program _ _ _ \<Rightarrow> True
    | T_Repository _ _ \<Rightarrow> True | _ \<Rightarrow> False)"

end
