(* ===== verification/Check_Tree.thy ===== *)
theory Check_Tree
  imports Targets "HOL-Library.Option_ord" "HOL-Library.Product_Lexorder"
begin

text \<open>
  The tree of checks (\<open>core/src/declared/tree/mod.rs\<close>): a builder keeps a draft for every node, links
  the drafts into a tree by their paths, puts what a node refers to before it, and lists the checks
  of the nodes on the way down and on the way up. A \<open>Handle\<close> is the index of a draft. Loops that
  follow parents and the loop over the stack have fuel: \<open>None\<close> is a loop that does not end.
\<close>

type_synonym handle = nat

datatype check_phase = Phase_Down | Phase_Up

record check =
  ck_target :: target
  ck_phase :: check_phase
  ck_after :: "nat list"
  ck_within :: "nat \<times> nat"

definition check_alone :: "target \<Rightarrow> check" where
  "check_alone t = \<lparr>ck_target = t, ck_phase = Phase_Down, ck_after = [], ck_within = (0, 0)\<rparr>"

definition check_label :: "check \<Rightarrow> string" where
  "check_label c = target_label (ck_target c)"

definition waits_on :: "check \<Rightarrow> nat list" where
  "waits_on c = ck_after c @ [fst (ck_within c) ..< snd (ck_within c)]"

record draft =
  dr_down :: "target option"
  dr_up :: "target list"
  dr_refers :: "handle list"
  dr_up_refers :: "handle list"
  dr_parent :: "handle option"
  dr_children :: "handle list"
  dr_path :: "path option"

definition draft_new :: "target option \<Rightarrow> path option \<Rightarrow> draft" where
  "draft_new down path =
     \<lparr>dr_down = down, dr_up = [], dr_refers = [], dr_up_refers = [], dr_parent = None,
      dr_children = [], dr_path = path\<rparr>"

record builder =
  bd_drafts :: "draft list"
  bd_paths :: "(path, handle) btree"
  bd_leftovers :: "path option"

definition MACHINE :: handle where "MACHINE = 0"
definition ACCOUNTS :: handle where "ACCOUNTS = 1"
definition ROOT_NODE :: handle where "ROOT_NODE = 2"

lemmas handle_defs = MACHINE_def ACCOUNTS_def ROOT_NODE_def

section \<open>Building\<close>

definition at_draft :: "handle \<Rightarrow> (draft \<Rightarrow> draft) \<Rightarrow> draft list \<Rightarrow> draft list" where
  "at_draft h f ds = ds[h := f (ds ! h)]"

definition builder_new :: "path option \<Rightarrow> builder" where
  "builder_new leftovers =
     \<lparr>bd_drafts =
        [draft_new None None,
         (draft_new None None)\<lparr>dr_parent := Some MACHINE\<rparr>,
         (draft_new None (Some []))\<lparr>dr_parent := Some MACHINE\<rparr>],
      bd_paths = bt_insert [] ROOT_NODE [],
      bd_leftovers = leftovers\<rparr>"

definition push_path :: "builder \<Rightarrow> path \<Rightarrow> target option \<Rightarrow> builder \<times> handle" where
  "push_path b p down =
     (let h = length (bd_drafts b)
      in (b\<lparr>bd_drafts := bd_drafts b @ [draft_new down (Some p)], bd_paths := bt_insert p h (bd_paths b)\<rparr>, h))"

definition builder_path :: "builder \<Rightarrow> path \<Rightarrow> target \<Rightarrow> builder \<times> handle" where
  "builder_path b p down =
     (case map_of (bd_paths b) p of
        Some found \<Rightarrow>
          (b\<lparr>bd_drafts := at_draft found
               (\<lambda>d. if dr_down d = None then d\<lparr>dr_down := Some down\<rparr> else d) (bd_drafts b)\<rparr>, found)
      | None \<Rightarrow> push_path b p (Some down))"

definition builder_place :: "builder \<Rightarrow> path \<Rightarrow> builder \<times> handle" where
  "builder_place b p =
     (case map_of (bd_paths b) p of Some found \<Rightarrow> (b, found) | None \<Rightarrow> push_path b p None)"

definition builder_account :: "builder \<Rightarrow> handle option \<Rightarrow> target \<Rightarrow> builder \<times> handle" where
  "builder_account b parent down =
     (b\<lparr>bd_drafts := bd_drafts b @
          [(draft_new (Some down) None)\<lparr>dr_parent := Some (case parent of Some p \<Rightarrow> p | None \<Rightarrow> ACCOUNTS)\<rparr>]\<rparr>,
      length (bd_drafts b))"

definition builder_up :: "builder \<Rightarrow> handle \<Rightarrow> target \<Rightarrow> builder" where
  "builder_up b at check = b\<lparr>bd_drafts := at_draft at (\<lambda>d. d\<lparr>dr_up := dr_up d @ [check]\<rparr>) (bd_drafts b)\<rparr>"

definition builder_refers :: "builder \<Rightarrow> handle \<Rightarrow> handle \<Rightarrow> builder" where
  "builder_refers b h to =
     b\<lparr>bd_drafts := at_draft h (\<lambda>d. d\<lparr>dr_refers := dr_refers d @ [to]\<rparr>) (bd_drafts b)\<rparr>"

definition builder_up_refers :: "builder \<Rightarrow> handle \<Rightarrow> handle \<Rightarrow> builder" where
  "builder_up_refers b h to =
     b\<lparr>bd_drafts := at_draft h (\<lambda>d. d\<lparr>dr_up_refers := dr_up_refers d @ [to]\<rparr>) (bd_drafts b)\<rparr>"

section \<open>Linking\<close>

definition path_above :: "(path, handle) btree \<Rightarrow> path \<Rightarrow> handle" where
  "path_above paths p =
     (case List.find (\<lambda>a. map_of paths a \<noteq> None) (tl (ancestors p)) of
        Some a \<Rightarrow> the (map_of paths a)
      | None \<Rightarrow> ROOT_NODE)"

definition set_parents :: "(path, handle) btree \<Rightarrow> draft list \<Rightarrow> draft list" where
  "set_parents paths ds =
     fold (\<lambda>(p, h). at_draft h (\<lambda>d. d\<lparr>dr_parent := Some (path_above paths p)\<rparr>))
       (filter (\<lambda>(p, h). h \<noteq> ROOT_NODE) paths) ds"

definition add_child :: "handle \<Rightarrow> draft list \<Rightarrow> draft list" where
  "add_child i ds =
     (case dr_parent (ds ! i) of
        Some p \<Rightarrow> at_draft p (\<lambda>d. d\<lparr>dr_children := dr_children d @ [i]\<rparr>) ds
      | None \<Rightarrow> ds)"

definition set_children :: "draft list \<Rightarrow> draft list" where
  "set_children ds = fold add_child [1..<length ds] ds"

definition sort_children :: "draft list \<Rightarrow> draft list" where
  "sort_children ds =
     fold (\<lambda>i ds. if i = MACHINE \<or> i = ROOT_NODE then ds
        else at_draft i (\<lambda>d. d\<lparr>dr_children := sort_key (\<lambda>h. (dr_path (ds ! h), h)) (dr_children d)\<rparr>) ds)
       [0..<length ds] ds"

text \<open>From a node to the machine, over its parents.\<close>

fun line :: "draft list \<Rightarrow> nat \<Rightarrow> handle \<Rightarrow> handle list option" where
  "line ds 0 h = None"
| "line ds (Suc n) h =
     (case dr_parent (ds ! h) of
        None \<Rightarrow> Some [h]
      | Some p \<Rightarrow> map_option (\<lambda>l. h # l) (line ds n p))"

definition move_before :: "nat \<Rightarrow> nat \<Rightarrow> 'a list \<Rightarrow> 'a list" where
  "move_before first second xs =
     (let rest = remove_at second xs in take first rest @ xs ! second # drop first rest)"

text \<open>One turn of the loop of \<open>put_referred_first\<close>, on the two lines.\<close>

definition put_first :: "handle list \<Rightarrow> handle list \<Rightarrow> draft list \<Rightarrow> draft list" where
  "put_first from_line to_line ds =
     (case find_index (\<lambda>a. a \<in> set to_line) from_line of
        None \<Rightarrow> ds
      | Some at \<Rightarrow>
          let ancestor = from_line ! at in
          case find_index (\<lambda>n. n = ancestor) to_line of
            None \<Rightarrow> ds
          | Some below \<Rightarrow>
              if at = 0 \<or> below = 0 then ds
              else let children = dr_children (ds ! ancestor) in
                case (find_index (\<lambda>c. c = from_line ! (at - 1)) children,
                      find_index (\<lambda>c. c = to_line ! (below - 1)) children) of
                  (Some first, Some second) \<Rightarrow>
                    if first < second
                    then at_draft ancestor (\<lambda>d. d\<lparr>dr_children := move_before first second children\<rparr>) ds
                    else ds
                | _ \<Rightarrow> ds)"

definition references :: "draft list \<Rightarrow> (handle \<times> handle) list" where
  "references ds =
     concat (map (\<lambda>(i, d). map (\<lambda>to. (i, to)) (dr_refers d @ dr_up_refers d)) (enumerate 0 ds))"

fun put_referred :: "(handle \<times> handle) list \<Rightarrow> draft list \<Rightarrow> draft list option" where
  "put_referred [] ds = Some ds"
| "put_referred ((h, to) # rs) ds =
     (case (line ds (length ds) h, line ds (length ds) to) of
        (Some from_line, Some to_line) \<Rightarrow> put_referred rs (put_first from_line to_line ds)
      | _ \<Rightarrow> None)"

definition put_referred_first :: "draft list \<Rightarrow> draft list option" where
  "put_referred_first ds = put_referred (references ds) ds"

definition builder_link :: "builder \<Rightarrow> builder option" where
  "builder_link b =
     map_option (\<lambda>ds. b\<lparr>bd_drafts := ds\<rparr>)
       (put_referred_first (sort_children (set_children (set_parents (bd_paths b) (bd_drafts b)))))"

section \<open>Finishing\<close>

definition draft_written :: "draft list \<Rightarrow> draft \<Rightarrow> bool" where
  "draft_written ds d \<longleftrightarrow>
     (\<exists>c \<in> set (dr_children d). case dr_down (ds ! c) of None \<Rightarrow> False | Some t \<Rightarrow> target_writes t)"

definition mark_leftovers :: "builder \<Rightarrow> builder" where
  "mark_leftovers b =
     (case bd_leftovers b of
        None \<Rightarrow> b
      | Some journals \<Rightarrow>
          b\<lparr>bd_drafts := map (\<lambda>d.
              case dr_path d of
                Some dir \<Rightarrow> if draft_written (bd_drafts b) d then d\<lparr>dr_up := dr_up d @ [T_Leftovers dir journals]\<rparr> else d
              | None \<Rightarrow> d) (bd_drafts b)\<rparr>)"

text \<open>The state of the loop: the stack's top is the head of the list.\<close>

record walk =
  wk_drafts :: "draft list"
  wk_down_at :: "nat option list"
  wk_checks :: "check list"
  wk_stack :: "(handle \<times> nat option) list"

fun nearest_down :: "draft list \<Rightarrow> nat option list \<Rightarrow> nat \<Rightarrow> handle option \<Rightarrow> nat option option" where
  "nearest_down ds down_at n None = Some None"
| "nearest_down ds down_at 0 (Some p) = None"
| "nearest_down ds down_at (Suc n) (Some p) =
     (case down_at ! p of Some i \<Rightarrow> Some (Some i) | None \<Rightarrow> nearest_down ds down_at n (dr_parent (ds ! p)))"

definition referred :: "handle list \<Rightarrow> nat option list \<Rightarrow> nat list" where
  "referred targets down_at = List.map_filter (\<lambda>t. down_at ! t) targets"

definition option_list :: "'a option \<Rightarrow> 'a list" where
  "option_list x = (case x of None \<Rightarrow> [] | Some y \<Rightarrow> [y])"

fun up_checks :: "nat list \<Rightarrow> nat \<Rightarrow> target list \<Rightarrow> check list \<Rightarrow> check list" where
  "up_checks after opened [] cs = cs"
| "up_checks after opened (t # ts) cs =
     up_checks after opened ts
       (cs @ [\<lparr>ck_target = t, ck_phase = Phase_Up, ck_after = after, ck_within = (opened, length cs)\<rparr>])"

definition close_node :: "handle \<Rightarrow> nat \<Rightarrow> walk \<Rightarrow> walk" where
  "close_node h opened w =
     (let d = wk_drafts w ! h;
          after = referred (dr_refers d) (wk_down_at w) @ referred (dr_up_refers d) (wk_down_at w)
      in w\<lparr>wk_drafts := at_draft h (\<lambda>d. d\<lparr>dr_up := []\<rparr>) (wk_drafts w),
           wk_checks := up_checks after opened (dr_up d) (wk_checks w)\<rparr>)"

definition enter_node :: "handle \<Rightarrow> walk \<Rightarrow> walk option" where
  "enter_node h w =
     (let d = wk_drafts w ! h; opened = length (wk_checks w);
          pushed = map (\<lambda>c. (c, None)) (dr_children d) @ (h, Some opened) # wk_stack w
      in case dr_down d of
           None \<Rightarrow> Some (w\<lparr>wk_stack := pushed\<rparr>)
         | Some t \<Rightarrow>
             (case nearest_down (wk_drafts w) (wk_down_at w) (length (wk_drafts w)) (dr_parent d) of
                None \<Rightarrow> None
              | Some near \<Rightarrow>
                  Some (w\<lparr>wk_drafts := at_draft h (\<lambda>d. d\<lparr>dr_down := None\<rparr>) (wk_drafts w),
                          wk_down_at := (wk_down_at w)[h := Some opened],
                          wk_checks := wk_checks w @
                            [\<lparr>ck_target = t, ck_phase = Phase_Down,
                              ck_after = option_list near @ referred (dr_refers d) (wk_down_at w),
                              ck_within = (0, 0)\<rparr>],
                          wk_stack := pushed\<rparr>)))"

fun visit :: "nat \<Rightarrow> walk \<Rightarrow> walk option" where
  "visit n w =
     (case wk_stack w of
        [] \<Rightarrow> Some w
      | (h, opened) # rest \<Rightarrow>
          (case n of
             0 \<Rightarrow> None
           | Suc m \<Rightarrow>
               (let w = w\<lparr>wk_stack := rest\<rparr> in
                case opened of
                  Some o1 \<Rightarrow> visit m (close_node h o1 w)
                | None \<Rightarrow> Option.bind (enter_node h w) (visit m))))"

declare visit.simps [simp del]

definition walk_start :: "draft list \<Rightarrow> walk" where
  "walk_start ds =
     \<lparr>wk_drafts = ds, wk_down_at = replicate (length ds) None, wk_checks = [], wk_stack = [(MACHINE, None)]\<rparr>"

definition builder_finish :: "builder \<Rightarrow> check list option" where
  "builder_finish b =
     Option.bind (builder_link b) (\<lambda>b.
       let ds = bd_drafts (mark_leftovers b)
       in map_option wk_checks (visit (2 * length ds) (walk_start ds)))"

end
