(* ===== verification/Check_Tree_Forest.thy ===== *)
theory Check_Tree_Forest
  imports Check_Tree "HOL-Library.Multiset"
begin

text \<open>
  What the operations of the builder keep, and that linking gives a tree: every node but the machine
  has a parent, following parents ends, and the children of a node are the nodes it is the parent of.
\<close>

section \<open>Changing one draft\<close>

lemma length_at_draft [simp]: "length (at_draft h f ds) = length ds"
  by (simp add: at_draft_def)

lemma nth_at_draft: "i < length ds \<Longrightarrow> at_draft h f ds ! i = (if i = h then f (ds ! h) else ds ! i)"
  by (auto simp: at_draft_def nth_list_update)

lemma map_at_draft:
  "(h < length ds \<Longrightarrow> g (f (ds ! h)) = g (ds ! h)) \<Longrightarrow> map g (at_draft h f ds) = map g ds"
  by (rule nth_equalityI) (auto simp: nth_at_draft)

text \<open>A draft up to the order of its children.\<close>

definition draft_bag :: "draft \<Rightarrow> draft \<times> handle multiset" where
  "draft_bag d = (d\<lparr>dr_children := []\<rparr>, mset (dr_children d))"

lemma draft_bag_eq:
  "draft_bag d = draft_bag d' \<longleftrightarrow>
   dr_down d = dr_down d' \<and> dr_up d = dr_up d' \<and> dr_refers d = dr_refers d' \<and> dr_up_refers d = dr_up_refers d' \<and>
   dr_parent d = dr_parent d' \<and> dr_path d = dr_path d' \<and> mset (dr_children d) = mset (dr_children d')"
  by (cases d; cases d') (auto simp: draft_bag_def)

lemma bag_children:
  "mset cs = mset (dr_children (ds ! h)) \<Longrightarrow>
   map draft_bag (at_draft h (\<lambda>d. d\<lparr>dr_children := cs\<rparr>) ds) = map draft_bag ds"
  by (rule map_at_draft) (simp add: draft_bag_def)

section \<open>Trees of drafts\<close>

definition ranked_by :: "(handle \<Rightarrow> nat) \<Rightarrow> draft list \<Rightarrow> bool" where
  "ranked_by r ds \<longleftrightarrow>
     (\<forall>j < length ds. \<forall>p. dr_parent (ds ! j) = Some p \<longrightarrow> p < length ds \<and> r p < r j)"

definition rooted :: "draft list \<Rightarrow> bool" where
  "rooted ds \<longleftrightarrow> 0 < length ds \<and> (\<forall>j < length ds. dr_parent (ds ! j) = None \<longleftrightarrow> j = MACHINE)"

definition child_set :: "draft list \<Rightarrow> handle \<Rightarrow> handle set" where
  "child_set ds i = {j. j < length ds \<and> dr_parent (ds ! j) = Some i}"

definition childed :: "draft list \<Rightarrow> bool" where
  "childed ds \<longleftrightarrow> (\<forall>i < length ds. mset (dr_children (ds ! i)) = mset_set (child_set ds i))"

definition draft_forest :: "(handle \<Rightarrow> nat) \<Rightarrow> draft list \<Rightarrow> bool" where
  "draft_forest r ds \<longleftrightarrow> ranked_by r ds \<and> rooted ds \<and> childed ds"

lemma ranked_byD: "ranked_by r ds \<Longrightarrow> j < length ds \<Longrightarrow> dr_parent (ds ! j) = Some p \<Longrightarrow> p < length ds \<and> r p < r j"
  by (simp add: ranked_by_def)

lemma finite_child_set [simp]: "finite (child_set ds i)"
  by (simp add: child_set_def)

lemma mset_eq_mset_set:
  fixes xs :: "'a::linorder list"
  assumes "mset xs = mset_set A" "finite A"
  shows "distinct xs \<and> set xs = A"
proof
  from assms have "mset xs = mset (sorted_list_of_set A)"
    using mset_set_set [of "sorted_list_of_set A"] by simp
  then show "distinct xs"
    using mset_eq_imp_distinct_iff [of xs "sorted_list_of_set A"] by simp
  show "set xs = A"
    using assms by (metis finite_set_mset_mset_set set_mset_mset)
qed

lemma childed_children:
  "childed ds \<Longrightarrow> i < length ds \<Longrightarrow> distinct (dr_children (ds ! i)) \<and> set (dr_children (ds ! i)) = child_set ds i"
  by (rule mset_eq_mset_set) (simp_all add: childed_def)

lemma nth_same: "map f xs = map f ys \<Longrightarrow> i < length xs \<Longrightarrow> f (xs ! i) = f (ys ! i)"
  by (metis length_map nth_map)

lemma length_same: "map f xs = map f ys \<Longrightarrow> length xs = length ys"
  by (rule map_eq_imp_length_eq)

lemma ranked_same:
  assumes "map dr_parent ds = map dr_parent ds'"
  shows "ranked_by r ds \<longleftrightarrow> ranked_by r ds'"
  unfolding ranked_by_def length_same [OF assms] using nth_same [OF assms] length_same [OF assms] by auto

lemma rooted_same:
  assumes "map dr_parent ds = map dr_parent ds'"
  shows "rooted ds \<longleftrightarrow> rooted ds'"
  unfolding rooted_def length_same [OF assms] using nth_same [OF assms] length_same [OF assms] by auto

lemma child_set_same:
  assumes "map dr_parent ds = map dr_parent ds'"
  shows "child_set ds i = child_set ds' i"
  unfolding child_set_def length_same [OF assms] using nth_same [OF assms] length_same [OF assms] by auto

lemma bag_nth: "map draft_bag ds = map draft_bag ds' \<Longrightarrow> i < length ds \<Longrightarrow> draft_bag (ds ! i) = draft_bag (ds' ! i)"
  by (rule nth_same)

lemma bag_parents:
  assumes "map draft_bag ds = map draft_bag ds'"
  shows "map dr_parent ds = map dr_parent ds'"
proof (rule nth_equalityI)
  show "length (map dr_parent ds) = length (map dr_parent ds')" using length_same [OF assms] by simp
  fix i
  assume "i < length (map dr_parent ds)"
  with bag_nth [OF assms, of i] length_same [OF assms] show "map dr_parent ds ! i = map dr_parent ds' ! i"
    by (simp add: draft_bag_eq)
qed

lemma childed_same:
  assumes bag: "map draft_bag ds = map draft_bag ds'" and "childed ds"
  shows "childed ds'"
  unfolding childed_def
proof (intro allI impI)
  fix i
  assume "i < length ds'"
  then have i: "i < length ds" using length_same [OF bag] by simp
  with bag_nth [OF bag i] assms(2) show "mset (dr_children (ds' ! i)) = mset_set (child_set ds' i)"
    by (simp add: draft_bag_eq childed_def child_set_same [OF bag_parents [OF bag]])
qed

lemma draft_forest_same:
  assumes bag: "map draft_bag ds = map draft_bag ds'" and "draft_forest r ds"
  shows "draft_forest r ds'"
  using assms(2) ranked_same [OF bag_parents [OF bag]] rooted_same [OF bag_parents [OF bag]] childed_same [OF bag]
  by (simp add: draft_forest_def)

section \<open>Following parents ends\<close>

lemma rank_below:
  assumes "(r p :: nat) < r j" "j < (n :: nat)"
  shows "card {m. m < n \<and> r m \<le> r p} < card {m. m < n \<and> r m \<le> r j}"
proof (rule psubset_card_mono)
  have "j \<in> {m. m < n \<and> r m \<le> r j}" "j \<notin> {m. m < n \<and> r m \<le> r p}" using assms by simp_all
  moreover have "{m. m < n \<and> r m \<le> r p} \<subseteq> {m. m < n \<and> r m \<le> r j}" using assms by fastforce
  ultimately show "{m. m < n \<and> r m \<le> r p} \<subset> {m. m < n \<and> r m \<le> r j}" by blast
  show "finite {m. m < n \<and> r m \<le> r j}" by (rule finite_subset [of _ "{..<n}"]) auto
qed

lemma line_ends:
  assumes r: "ranked_by r ds"
  shows "h < length ds \<Longrightarrow> card {m. m < length ds \<and> r m \<le> r h} \<le> n \<Longrightarrow> \<exists>l. line ds n h = Some l"
proof (induction n arbitrary: h)
  case 0
  then have "{m. m < length ds \<and> r m \<le> r h} = {}" by simp
  with 0 show ?case by blast
next
  case (Suc n)
  show ?case
  proof (cases "dr_parent (ds ! h)")
    case (Some p)
    with Suc.prems ranked_byD [OF r] have p: "p < length ds" "r p < r h" by blast+
    with rank_below [of r p h "length ds"] Suc.prems have "card {m. m < length ds \<and> r m \<le> r p} \<le> n" by linarith
    with Suc.IH p Some show ?thesis by fastforce
  qed simp
qed

lemma card_ranks: "card {m. m < n \<and> (r m :: nat) \<le> k} \<le> n"
  by (rule order.trans [OF card_mono [of "{..<n}"]]) auto

lemma line_of_ranked: "ranked_by r ds \<Longrightarrow> h < length ds \<Longrightarrow> \<exists>l. line ds (length ds) h = Some l"
  by (rule line_ends [OF _ _ card_ranks])

lemma nearest_ends:
  assumes r: "ranked_by r ds"
  shows "h < length ds \<Longrightarrow> card {m. m < length ds \<and> r m \<le> r h} \<le> n
    \<Longrightarrow> \<exists>x. nearest_down ds down_at n (Some h) = Some x"
proof (induction n arbitrary: h)
  case 0
  then have "{m. m < length ds \<and> r m \<le> r h} = {}" by simp
  with 0 show ?case by blast
next
  case (Suc n)
  show ?case
  proof (cases "dr_parent (ds ! h)")
    case (Some p)
    with Suc.prems ranked_byD [OF r] have p: "p < length ds" "r p < r h" by blast+
    with rank_below [of r p h "length ds"] Suc.prems have "card {m. m < length ds \<and> r m \<le> r p} \<le> n" by linarith
    with Suc.IH p Some show ?thesis by (auto split: option.splits)
  qed (auto split: option.splits)
qed

lemma nearest_of_ranked:
  assumes "ranked_by r ds" "h < length ds"
  shows "\<exists>x. nearest_down ds down_at (length ds) (dr_parent (ds ! h)) = Some x"
proof (cases "dr_parent (ds ! h)")
  case (Some p)
  with assms ranked_byD have "p < length ds" by blast
  with nearest_ends [OF assms(1) _ card_ranks] Some show ?thesis by simp
qed simp

section \<open>Putting children in order\<close>

lemma fold_bag:
  assumes "\<And>x ds. map draft_bag (f x ds) = map draft_bag ds"
  shows "map draft_bag (fold f xs ds) = map draft_bag ds"
  by (induction xs arbitrary: ds) (simp_all add: assms)

lemma sort_children_bag: "map draft_bag (sort_children ds) = map draft_bag ds"
  unfolding sort_children_def
proof (rule fold_bag)
  fix i es
  show "map draft_bag (if i = MACHINE \<or> i = ROOT_NODE then es
      else at_draft i (\<lambda>d. d\<lparr>dr_children := sort_key (\<lambda>h. (dr_path (es ! h), h)) (dr_children d)\<rparr>) es)
    = map draft_bag es"
    by (auto intro!: map_at_draft simp: draft_bag_def)
qed

lemma mset_move_before: "first < second \<Longrightarrow> second < length xs \<Longrightarrow> mset (move_before first second xs) = mset xs"
proof -
  assume "second < length xs"
  then have "xs = take second xs @ xs ! second # drop (Suc second) xs" by (rule id_take_nth_drop)
  then have "mset xs = add_mset (xs ! second) (mset (remove_at second xs))"
    by (metis add_mset_add_single mset.simps(2) mset_append remove_at_def union_mset_add_mset_right)
  moreover have "mset (remove_at second xs) = mset (take first (remove_at second xs)) + mset (drop first (remove_at second xs))"
    by (metis append_take_drop_id mset_append)
  ultimately show ?thesis by (simp add: move_before_def Let_def)
qed

lemma put_first_bag: "map draft_bag (put_first l l' ds) = map draft_bag ds"
  unfolding put_first_def Let_def
  by (auto split: option.splits intro!: bag_children mset_move_before dest: find_index_Some)

lemma put_referred_bag:
  "ranked_by r ds \<Longrightarrow> \<forall>(h, to) \<in> set rs. h < length ds \<and> to < length ds
   \<Longrightarrow> \<exists>ds'. put_referred rs ds = Some ds' \<and> map draft_bag ds' = map draft_bag ds"
proof (induction rs arbitrary: ds)
  case (Cons x rs)
  obtain h to where x: "x = (h, to)" by force
  from Cons.prems x have "h < length ds" "to < length ds" by simp_all
  from this [THEN line_of_ranked [OF Cons.prems(1)]]
  obtain l l' where l: "line ds (length ds) h = Some l" "line ds (length ds) to = Some l'" by blast
  let ?ds = "put_first l l' ds"
  have bag: "map draft_bag ?ds = map draft_bag ds" by (rule put_first_bag)
  have "ranked_by r ?ds" using Cons.prems(1) ranked_same [OF bag_parents [OF bag]] by simp
  moreover have "\<forall>(h, to) \<in> set rs. h < length ?ds \<and> to < length ?ds"
    using Cons.prems(2) length_same [OF bag] by simp
  ultimately obtain ds' where "put_referred rs ?ds = Some ds'" "map draft_bag ds' = map draft_bag ?ds"
    using Cons.IH by blast
  with x l bag show ?case by simp
qed simp

section \<open>What the builder keeps\<close>

definition draft_ok :: "nat \<Rightarrow> handle \<Rightarrow> draft \<Rightarrow> bool" where
  "draft_ok n h d \<longleftrightarrow>
     dr_children d = [] \<and> (\<forall>t \<in> set (dr_refers d @ dr_up_refers d). t < n) \<and>
     (case dr_path d of
        Some p \<Rightarrow> h \<noteq> MACHINE \<and> (h = ROOT_NODE \<longleftrightarrow> p = []) \<and> dr_parent d = (if p = [] then Some MACHINE else None)
      | None \<Rightarrow> if h = MACHINE then dr_parent d = None else (\<exists>q < h. dr_parent d = Some q))"

definition builder_ok :: "builder \<Rightarrow> bool" where
  "builder_ok b \<longleftrightarrow>
     ROOT_NODE < length (bd_drafts b) \<and> bt_ok (bd_paths b) \<and> map_of (bd_paths b) [] = Some ROOT_NODE \<and>
     (\<forall>p h. map_of (bd_paths b) p = Some h \<longleftrightarrow> h < length (bd_drafts b) \<and> dr_path (bd_drafts b ! h) = Some p) \<and>
     (\<forall>h < length (bd_drafts b). draft_ok (length (bd_drafts b)) h (bd_drafts b ! h))"

lemma builder_okD:
  assumes "builder_ok b"
  shows "ROOT_NODE < length (bd_drafts b)" "bt_ok (bd_paths b)" "map_of (bd_paths b) [] = Some ROOT_NODE"
    "map_of (bd_paths b) p = Some h \<longleftrightarrow> h < length (bd_drafts b) \<and> dr_path (bd_drafts b ! h) = Some p"
    "h < length (bd_drafts b) \<Longrightarrow> draft_ok (length (bd_drafts b)) h (bd_drafts b ! h)"
  using assms by (auto simp: builder_ok_def)

lemma draft_ok_more: "draft_ok n h d \<Longrightarrow> n \<le> m \<Longrightarrow> draft_ok m h d"
  unfolding draft_ok_def by (intro conjI) (auto dest: less_le_trans)

lemma builder_new_ok: "builder_ok (builder_new leftovers)"
  by (auto simp: builder_ok_def builder_new_def draft_new_def draft_ok_def handle_defs less_Suc_eq bt_ok_def nth_Cons'
      split: option.splits if_splits)

lemma at_draft_ok:
  assumes ok: "builder_ok b"
    and same: "\<And>d. dr_path (f d) = dr_path d" "\<And>d. dr_parent (f d) = dr_parent d" "\<And>d. dr_children (f d) = dr_children d"
    and refs: "\<And>d. set (dr_refers (f d) @ dr_up_refers (f d)) \<subseteq> set (dr_refers d @ dr_up_refers d) \<union> {..<length (bd_drafts b)}"
  shows "builder_ok (b\<lparr>bd_drafts := at_draft h f (bd_drafts b)\<rparr>)"
proof -
  let ?ds = "at_draft h f (bd_drafts b)"
  note ok' = builder_okD [OF ok]
  have path: "dr_path (?ds ! i) = dr_path (bd_drafts b ! i)" if "i < length (bd_drafts b)" for i
    using that same(1) by (simp add: nth_at_draft)
  have "draft_ok (length (bd_drafts b)) i (f d)" if "draft_ok (length (bd_drafts b)) i d" for i d
    using that refs [of d] unfolding draft_ok_def same by blast
  then have "draft_ok (length ?ds) i (?ds ! i)" if "i < length ?ds" for i
    using that ok'(5) by (simp add: nth_at_draft)
  moreover have "map_of (bd_paths b) p = Some i \<longleftrightarrow> i < length ?ds \<and> dr_path (?ds ! i) = Some p" for p i
    using ok'(4) [of p i] path [of i] by auto
  ultimately show ?thesis using ok'(1-3) by (simp add: builder_ok_def)
qed

lemma append_ok:
  assumes ok: "builder_ok b" and d: "draft_ok (length (bd_drafts b)) (length (bd_drafts b)) d"
    and paths: "bt_ok ps" "map_of ps = (case dr_path d of None \<Rightarrow> map_of (bd_paths b)
      | Some p \<Rightarrow> (map_of (bd_paths b))(p := Some (length (bd_drafts b))))"
    and fresh: "\<And>p. dr_path d = Some p \<Longrightarrow> map_of (bd_paths b) p = None"
  shows "builder_ok (b\<lparr>bd_drafts := bd_drafts b @ [d], bd_paths := ps\<rparr>)"
proof -
  let ?n = "length (bd_drafts b)"
  note ok' = builder_okD [OF ok]
  have p: "map_of ps p = Some h \<longleftrightarrow> h < Suc ?n \<and> dr_path ((bd_drafts b @ [d]) ! h) = Some p" for p h
  proof (cases "h = ?n")
    case True
    then show ?thesis using paths(2) ok'(4) [of p h] by (auto split: option.splits)
  next
    case False
    then show ?thesis using paths(2) ok'(4) [of p h] fresh
      by (auto simp: nth_append less_Suc_eq split: option.splits if_splits)
  qed
  have "draft_ok (Suc ?n) h ((bd_drafts b @ [d]) ! h)" if "h < Suc ?n" for h
    using that ok'(5) [of h] d by (auto simp: nth_append less_Suc_eq intro: draft_ok_more)
  moreover have "map_of ps [] = Some ROOT_NODE"
    using p [of "[]" ROOT_NODE] ok'(1,3) ok'(4) [of "[]" ROOT_NODE] by (simp add: nth_append)
  ultimately show ?thesis using ok'(1) p paths(1) unfolding builder_ok_def by simp
qed

lemma push_path_ok:
  assumes ok: "builder_ok b" and fresh: "map_of (bd_paths b) p = None"
  shows "builder_ok (fst (push_path b p down))"
proof -
  have "p \<noteq> []" using fresh builder_okD(3) [OF ok] by auto
  then have "draft_ok (length (bd_drafts b)) (length (bd_drafts b)) (draft_new down (Some p))"
    using builder_okD(1) [OF ok] by (auto simp: draft_ok_def draft_new_def handle_defs)
  from append_ok [OF ok this, of "bt_insert p (length (bd_drafts b)) (bd_paths b)"] show ?thesis
    using fresh builder_okD(2) [OF ok] by (simp add: push_path_def Let_def draft_new_def)
qed

lemma builder_path_ok: "builder_ok b \<Longrightarrow> builder_ok (fst (builder_path b p down))"
  by (auto simp: builder_path_def intro!: push_path_ok at_draft_ok split: option.split if_splits)

lemma builder_place_ok: "builder_ok b \<Longrightarrow> builder_ok (fst (builder_place b p))"
  by (auto simp: builder_place_def intro!: push_path_ok split: option.split)

lemma builder_account_ok:
  assumes ok: "builder_ok b" and "\<And>p. parent = Some p \<Longrightarrow> p < length (bd_drafts b)"
  shows "builder_ok (fst (builder_account b parent down))"
proof -
  let ?d = "(draft_new (Some down) None)\<lparr>dr_parent := Some (case parent of Some p \<Rightarrow> p | None \<Rightarrow> ACCOUNTS)\<rparr>"
  have "draft_ok (length (bd_drafts b)) (length (bd_drafts b)) ?d"
    using assms(2) builder_okD(1) [OF ok]
    by (auto simp: draft_ok_def draft_new_def handle_defs split: option.split)
  from append_ok [OF ok this builder_okD(2) [OF ok]] show ?thesis
    by (simp add: builder_account_def draft_new_def)
qed

lemma builder_up_ok: "builder_ok b \<Longrightarrow> builder_ok (builder_up b h t)"
  unfolding builder_up_def by (rule at_draft_ok) auto

lemma builder_refers_ok: "builder_ok b \<Longrightarrow> to < length (bd_drafts b) \<Longrightarrow> builder_ok (builder_refers b h to)"
  unfolding builder_refers_def by (rule at_draft_ok) auto

lemma builder_up_refers_ok: "builder_ok b \<Longrightarrow> to < length (bd_drafts b) \<Longrightarrow> builder_ok (builder_up_refers b h to)"
  unfolding builder_up_refers_def by (rule at_draft_ok) auto

section \<open>Linking gives a tree\<close>

lemma set_parents_fold:
  assumes "\<forall>(p, h) \<in> set xs. h < length ds \<and> dr_path (ds ! h) = Some p" "i < length ds"
  shows "fold (\<lambda>(p, h). at_draft h (\<lambda>d. d\<lparr>dr_parent := Some (par p)\<rparr>)) xs ds ! i =
    (if i \<in> snd ` set xs then (ds ! i)\<lparr>dr_parent := Some (par (the (dr_path (ds ! i))))\<rparr> else ds ! i)"
  using assms
proof (induction xs arbitrary: ds)
  case (Cons x xs)
  obtain p h where x: "x = (p, h)" by force
  let ?ds = "at_draft h (\<lambda>d. d\<lparr>dr_parent := Some (par p)\<rparr>) ds"
  have "\<forall>(p, h) \<in> set xs. h < length ?ds \<and> dr_path (?ds ! h) = Some p"
    using Cons.prems by (auto simp: nth_at_draft)
  from Cons.IH [OF this] Cons.prems x show ?case by (auto simp: nth_at_draft)
qed simp

lemma fold_length:
  assumes "\<And>x ds. length (f x ds) = length ds"
  shows "length (fold f xs ds) = length ds"
  by (induction xs arbitrary: ds) (simp_all add: assms)

lemma add_child_nth:
  "i < length ds \<Longrightarrow> add_child j ds ! i =
   (if dr_parent (ds ! j) = Some i then (ds ! i)\<lparr>dr_children := dr_children (ds ! i) @ [j]\<rparr> else ds ! i)"
  by (auto simp: add_child_def nth_at_draft split: option.split)

lemma length_add_child [simp]: "length (add_child j ds) = length ds"
  by (simp add: add_child_def split: option.split)

lemma add_children_fold:
  "\<forall>j \<in> set xs. j < length ds \<Longrightarrow> i < length ds \<Longrightarrow>
   fold add_child xs ds ! i =
   (ds ! i)\<lparr>dr_children := dr_children (ds ! i) @ filter (\<lambda>j. dr_parent (ds ! j) = Some i) xs\<rparr>"
proof (induction xs arbitrary: ds)
  case (Cons x xs)
  have "filter (\<lambda>j. dr_parent (add_child x ds ! j) = Some i) xs = filter (\<lambda>j. dr_parent (ds ! j) = Some i) xs"
    using Cons.prems by (intro filter_cong) (auto simp: add_child_nth)
  with Cons.IH [of "add_child x ds"] Cons.prems show ?case by (simp add: add_child_nth)
qed simp

lemma length_set_parents [simp]: "length (set_parents ps ds) = length ds"
  unfolding set_parents_def by (rule fold_length) (auto split: prod.split)

lemma length_set_children [simp]: "length (set_children ds) = length ds"
  unfolding set_children_def by (rule fold_length) simp

definition linked_parent :: "(path, handle) btree \<Rightarrow> draft \<Rightarrow> handle option" where
  "linked_parent paths d =
     (case dr_path d of
        None \<Rightarrow> dr_parent d
      | Some p \<Rightarrow> if p = [] then Some MACHINE else Some (path_above paths p))"

lemma set_parents_nth:
  assumes ok: "builder_ok b" and i: "i < length (bd_drafts b)"
  shows "set_parents (bd_paths b) (bd_drafts b) ! i =
    (bd_drafts b ! i)\<lparr>dr_parent := linked_parent (bd_paths b) (bd_drafts b ! i)\<rparr>"
proof -
  let ?ds = "bd_drafts b" and ?xs = "filter (\<lambda>(p, h). h \<noteq> ROOT_NODE) (bd_paths b)"
  have mem: "(p, h) \<in> set (bd_paths b) \<longleftrightarrow> h < length ?ds \<and> dr_path (?ds ! h) = Some p" for p h
    unfolding bt_ok_mem [OF builder_okD(2) [OF ok]] by (rule builder_okD(4) [OF ok])
  have eq: "set_parents (bd_paths b) ?ds ! i =
      (if i \<in> snd ` set ?xs then (?ds ! i)\<lparr>dr_parent := Some (path_above (bd_paths b) (the (dr_path (?ds ! i))))\<rparr> else ?ds ! i)"
    unfolding set_parents_def by (rule set_parents_fold [OF _ i]) (auto simp: mem)
  have "i \<in> snd ` set ?xs \<longleftrightarrow> (\<exists>p. (p, i) \<in> set (bd_paths b)) \<and> i \<noteq> ROOT_NODE"
    by (auto simp: image_iff) 
  then have in_xs: "i \<in> snd ` set ?xs \<longleftrightarrow> (\<exists>p. dr_path (?ds ! i) = Some p) \<and> i \<noteq> ROOT_NODE"
    using i by (simp only: mem) simp
  note d = builder_okD(5) [OF ok i]
  show ?thesis
  proof (cases "dr_path (?ds ! i)")
    case None
    then show ?thesis using eq in_xs by (simp add: linked_parent_def)
  next
    case (Some p)
    then show ?thesis using eq in_xs d by (auto simp: linked_parent_def draft_ok_def)
  qed
qed

lemma set_children_nth:
  assumes "i < length ds"
  shows "set_children ds ! i =
    (ds ! i)\<lparr>dr_children := dr_children (ds ! i) @ filter (\<lambda>j. dr_parent (ds ! j) = Some i) [1..<length ds]\<rparr>"
  unfolding set_children_def by (rule add_children_fold) (use assms in auto)

lemma path_above_found:
  assumes ok: "builder_ok b" and p: "p \<noteq> []"
  shows "path_above (bd_paths b) p < length (bd_drafts b)"
    "\<exists>q. dr_path (bd_drafts b ! path_above (bd_paths b) p) = Some q \<and> length q < length p"
proof -
  let ?h = "path_above (bd_paths b) p"
  have "\<exists>q. map_of (bd_paths b) q = Some ?h \<and> length q < length p"
  proof (cases "List.find (\<lambda>a. map_of (bd_paths b) a \<noteq> None) (tl (ancestors p))")
    case None
    then show ?thesis using builder_okD(3) [OF ok] p by (auto simp: path_above_def)
  next
    case (Some q)
    have "set (tl (ancestors p)) = (\<lambda>n. take n p) ` {..<length p}"
      by (auto simp: ancestors_def)
    moreover from Some have "q \<in> set (tl (ancestors p))" and found: "map_of (bd_paths b) q \<noteq> None"
      by (auto simp: find_Some_iff)
    ultimately have "length q < length p" by auto
    with found Some show ?thesis by (auto simp: path_above_def)
  qed
  then show "?h < length (bd_drafts b)" "\<exists>q. dr_path (bd_drafts b ! ?h) = Some q \<and> length q < length p"
    using builder_okD(4) [OF ok] by blast+
qed

text \<open>The path above is the longest that is known: every other known one is above it too.\<close>

lemma path_above_longest:
  assumes ok: "builder_ok b" and q: "strict_prefix q p" "map_of (bd_paths b) q \<noteq> None"
  shows "\<exists>a. map_of (bd_paths b) a = Some (path_above (bd_paths b) p) \<and> prefix q a \<and> strict_prefix a p"
proof -
  let ?P = "\<lambda>a. map_of (bd_paths b) a \<noteq> None" and ?xs = "tl (ancestors p)"
  have xs: "?xs = map (\<lambda>n. take n p) (rev [0..<length p])" by (simp add: ancestors_def)
  have nth: "?xs ! i = take (length p - Suc i) p" if "i < length p" for i
    unfolding xs using that by (simp add: rev_nth)
  from q(1) have m: "length q < length p" "q = take (length q) p"
    by (auto simp: strict_prefix_def prefix_def)
  let ?j = "length p - Suc (length q)"
  have j: "?j < length ?xs" "?xs ! ?j = q" using m nth [of ?j] by (simp_all add: xs)
  have "q \<in> set ?xs" using nth_mem [OF j(1)] j(2) by simp
  with q(2) have "List.find ?P ?xs \<noteq> None" by (auto simp: find_None_iff)
  then obtain a where a: "List.find ?P ?xs = Some a" by blast
  then obtain i where i: "i < length ?xs" "?P (?xs ! i)" "a = ?xs ! i" "\<forall>k < i. \<not> ?P (?xs ! k)"
    by (auto simp: find_Some_iff)
  have "\<not> ?j < i" using i(4) j(2) q(2) by auto
  moreover have il: "i < length p" using i(1) by (simp add: xs)
  ultimately have le: "length q \<le> length p - Suc i" using m(1) by linarith
  have "take (length q) (take (length p - Suc i) p) = q" using le m(2) by (simp add: min_def)
  then have "prefix q a" unfolding i(3) nth [OF il] using take_is_prefix [of "length q" "take (length p - Suc i) p"] by simp
  moreover have "length (take (length p - Suc i) p) \<noteq> length p" using il by simp
  then have "strict_prefix a p" unfolding i(3) nth [OF il] strict_prefix_def using take_is_prefix by metis
  ultimately show ?thesis using a i(2,3) by (auto simp: path_above_def)
qed

text \<open>Parents have shorter paths, and accounts are declared after their parents.\<close>

definition link_rank :: "draft list \<Rightarrow> handle \<Rightarrow> nat" where
  "link_rank ds h =
     (if h = MACHINE then 0
      else case dr_path (ds ! h) of
          Some p \<Rightarrow> Suc (length p)
        | None \<Rightarrow> Suc (sum_list (map (\<lambda>d. case dr_path d of Some p \<Rightarrow> Suc (length p) | None \<Rightarrow> 0) ds)) + h)"

lemma path_rank: "h < length ds \<Longrightarrow> dr_path (ds ! h) = Some p
  \<Longrightarrow> Suc (length p) \<le> sum_list (map (\<lambda>d. case dr_path d of Some p \<Rightarrow> Suc (length p) | None \<Rightarrow> 0) ds)"
  by (rule member_le_sum_list) (force simp: image_iff in_set_conv_nth, simp)

lemma linked_ranked:
  assumes ok: "builder_ok b"
  shows "ranked_by (link_rank (bd_drafts b)) (set_parents (bd_paths b) (bd_drafts b))"
  unfolding ranked_by_def
proof (intro allI impI)
  let ?ds = "bd_drafts b"
  fix j q
  assume "j < length (set_parents (bd_paths b) ?ds)" "dr_parent (set_parents (bd_paths b) ?ds ! j) = Some q"
  then have j: "j < length ?ds" and q: "linked_parent (bd_paths b) (?ds ! j) = Some q"
    using set_parents_nth [OF ok] by simp_all
  have d: "draft_ok (length ?ds) j (?ds ! j)" by (rule builder_okD(5) [OF ok j])
  have "q < length ?ds \<and> link_rank ?ds q < link_rank ?ds j"
  proof (cases "dr_path (?ds ! j)")
    case None
    with d q j have "q < j" "j \<noteq> MACHINE" by (auto simp: draft_ok_def linked_parent_def split: if_splits)
    with j None show ?thesis using path_rank [of q ?ds]
      by (fastforce simp: link_rank_def split: option.split)
  next
    case (Some p)
    then have "j \<noteq> MACHINE" using d by (simp add: draft_ok_def)
    show ?thesis
    proof (cases "p = []")
      case True
      with Some q have "q = MACHINE" by (simp add: linked_parent_def)
      with builder_okD(1) [OF ok] Some \<open>j \<noteq> MACHINE\<close> show ?thesis by (auto simp: link_rank_def handle_defs)
    next
      case False
      with Some q have "q = path_above (bd_paths b) p" by (simp add: linked_parent_def)
      with path_above_found [OF ok False] Some \<open>j \<noteq> MACHINE\<close> show ?thesis by (auto simp: link_rank_def)
    qed
  qed
  then show "q < length (set_parents (bd_paths b) ?ds) \<and> link_rank ?ds q < link_rank ?ds j" by simp
qed

definition draft_contents :: "draft \<Rightarrow> target option \<times> target list \<times> handle list \<times> handle list \<times> path option" where
  "draft_contents d = (dr_down d, dr_up d, dr_refers d, dr_up_refers d, dr_path d)"

lemma bag_contents:
  assumes "map draft_bag ds = map draft_bag ds'"
  shows "map draft_contents ds = map draft_contents ds'"
proof (rule nth_equalityI)
  show "length (map draft_contents ds) = length (map draft_contents ds')" using length_same [OF assms] by simp
  fix i
  assume "i < length (map draft_contents ds)"
  with bag_nth [OF assms, of i] length_same [OF assms] show "map draft_contents ds ! i = map draft_contents ds' ! i"
    by (simp add: draft_bag_eq draft_contents_def)
qed

lemma link_children:
  assumes ok: "builder_ok b"
  defines "ds \<equiv> set_children (set_parents (bd_paths b) (bd_drafts b))"
  shows "draft_forest (link_rank (bd_drafts b)) ds" "map draft_contents ds = map draft_contents (bd_drafts b)"
    "map dr_parent ds = map (linked_parent (bd_paths b)) (bd_drafts b)"
proof -
  let ?ds = "bd_drafts b" and ?ps = "set_parents (bd_paths b) (bd_drafts b)"
  have len: "length ds = length ?ds" by (simp add: ds_def)
  have nth: "ds ! i = (?ps ! i)\<lparr>dr_children := filter (\<lambda>j. dr_parent (?ps ! j) = Some i) [1..<length ?ds]\<rparr>"
    if "i < length ?ds" for i
    using that set_children_nth [of i ?ps] set_parents_nth [OF ok that] builder_okD(5) [OF ok that]
    by (simp add: ds_def draft_ok_def)
  show "map draft_contents ds = map draft_contents ?ds"
    by (rule nth_equalityI) (auto simp: len nth set_parents_nth [OF ok] draft_contents_def)
  have parents: "map dr_parent ds = map dr_parent ?ps"
    by (rule nth_equalityI) (auto simp: len nth)
  show "map dr_parent ds = map (linked_parent (bd_paths b)) ?ds"
    unfolding parents by (rule nth_equalityI) (auto simp: set_parents_nth [OF ok])
  have root: "rooted ?ps"
  proof -
    have "linked_parent (bd_paths b) (?ds ! j) = None \<longleftrightarrow> j = MACHINE" if "j < length ?ds" for j
      using builder_okD(5) [OF ok that] by (auto simp: linked_parent_def draft_ok_def split: option.splits if_splits)
    then show ?thesis using builder_okD(1) [OF ok] set_parents_nth [OF ok] by (auto simp: rooted_def)
  qed
  have "mset (filter (\<lambda>j. dr_parent (?ps ! j) = Some i) [1..<length ?ds]) = mset_set (child_set ds i)"
    if "i < length ?ds" for i
  proof -
    have "mset (filter (\<lambda>j. dr_parent (?ps ! j) = Some i) [1..<length ?ds])
        = mset_set {j \<in> {1..<length ?ds}. dr_parent (?ps ! j) = Some i}"
      by (simp add: mset_filter)
    also have "{j \<in> {1..<length ?ds}. dr_parent (?ps ! j) = Some i} = child_set ?ps i"
      using root by (fastforce simp: child_set_def rooted_def handle_defs Suc_le_eq)
    finally show ?thesis using child_set_same [OF parents] by simp
  qed
  then have "childed ds" by (simp add: childed_def len nth)
  with linked_ranked [OF ok] root show "draft_forest (link_rank ?ds) ds"
    by (simp add: draft_forest_def ranked_same [OF parents] rooted_same [OF parents])
qed

lemma references_mem: "(h, to) \<in> set (references ds) \<Longrightarrow> h < length ds \<and> to \<in> set (dr_refers (ds ! h) @ dr_up_refers (ds ! h))"
  by (auto simp: references_def in_set_enumerate_eq)

theorem builder_link_forest:
  assumes ok: "builder_ok b"
  shows "\<exists>b'. builder_link b = Some b' \<and> draft_forest (link_rank (bd_drafts b)) (bd_drafts b')
    \<and> map draft_contents (bd_drafts b') = map draft_contents (bd_drafts b) \<and> bd_leftovers b' = bd_leftovers b
    \<and> map dr_parent (bd_drafts b') = map (linked_parent (bd_paths b)) (bd_drafts b)"
proof -
  let ?c = "set_children (set_parents (bd_paths b) (bd_drafts b))"
  let ?s = "sort_children ?c"
  have bag: "map draft_bag ?c = map draft_bag ?s" using sort_children_bag by metis
  have f: "draft_forest (link_rank (bd_drafts b)) ?s" by (rule draft_forest_same [OF bag link_children(1) [OF ok]])
  have c: "map draft_contents ?s = map draft_contents (bd_drafts b)"
    using link_children(2) [OF ok] bag_contents [OF bag] by simp
  have "h < length ?s \<and> to < length ?s" if "(h, to) \<in> set (references ?s)" for h to
  proof -
    from references_mem [OF that] have h: "h < length ?s" and to: "to \<in> set (dr_refers (?s ! h) @ dr_up_refers (?s ! h))" by simp_all
    have len: "length ?s = length (bd_drafts b)" using length_same [OF c] .
    have "draft_ok (length (bd_drafts b)) h (bd_drafts b ! h)" using h len builder_okD(5) [OF ok] by simp
    moreover have "draft_contents (?s ! h) = draft_contents (bd_drafts b ! h)" by (rule nth_same [OF c h])
    ultimately show ?thesis using to h len by (auto simp: draft_ok_def draft_contents_def)
  qed
  then obtain ds where ds: "put_referred (references ?s) ?s = Some ds" "map draft_bag ds = map draft_bag ?s"
    using put_referred_bag [of "link_rank (bd_drafts b)" ?s "references ?s"] f by (fastforce simp: draft_forest_def)
  have "map dr_parent ds = map (linked_parent (bd_paths b)) (bd_drafts b)"
    using bag_parents [OF ds(2)] bag_parents [OF bag] link_children(3) [OF ok] by simp
  with draft_forest_same [OF ds(2) [symmetric] f] bag_contents [OF ds(2)] c ds(1) show ?thesis
    by (simp add: builder_link_def put_referred_first_def)
qed

end
