(* ===== verification/Check_Tree_Walk.thy ===== *)
theory Check_Tree_Walk
  imports Check_Tree_Forest
begin

text \<open>
  The walk over a linked tree: it ends within twice as many turns as there are nodes, it takes every
  target once, and every check it lists waits on checks before it only.
\<close>

section \<open>Targets of drafts\<close>

definition own_targets :: "draft \<Rightarrow> target list" where
  "own_targets d = option_list (dr_down d) @ dr_up d"

definition draft_targets :: "draft list \<Rightarrow> target list" where
  "draft_targets ds = concat (map own_targets ds)"

lemma draft_targets_at:
  assumes "h < length ds"
  shows "mset (draft_targets (at_draft h f ds)) + mset (own_targets (ds ! h)) = mset (draft_targets ds) + mset (own_targets (f (ds ! h)))"
proof -
  have "ds = take h ds @ ds ! h # drop (Suc h) ds" using assms by (rule id_take_nth_drop)
  then have "mset (draft_targets ds) =
      mset (draft_targets (take h ds)) + mset (own_targets (ds ! h)) + mset (draft_targets (drop (Suc h) ds))"
    unfolding draft_targets_def
    by (metis (no_types, lifting) concat.simps(2) concat_append list.simps(9) map_append mset_append union_assoc)
  moreover have "at_draft h f ds = take h ds @ f (ds ! h) # drop (Suc h) ds"
    using assms by (simp add: at_draft_def upd_conv_take_nth_drop)
  ultimately show ?thesis by (simp add: draft_targets_def)
qed

lemma draft_targets_empty: "\<forall>d \<in> set ds. dr_down d = None \<and> dr_up d = [] \<Longrightarrow> draft_targets ds = []"
  by (simp add: draft_targets_def own_targets_def option_list_def)

lemma own_targets_contents: "draft_contents d = draft_contents d' \<Longrightarrow> own_targets d = own_targets d'"
  by (simp add: draft_contents_def own_targets_def)

lemma draft_targets_contents:
  assumes "map draft_contents ds = map draft_contents ds'"
  shows "draft_targets ds = draft_targets ds'"
proof -
  have "map own_targets ds = map own_targets ds'"
  proof (rule nth_equalityI)
    show "length (map own_targets ds) = length (map own_targets ds')" using length_same [OF assms] by simp
    fix i
    assume "i < length (map own_targets ds)"
    with own_targets_contents [OF nth_same [OF assms, of i]] length_same [OF assms]
    show "map own_targets ds ! i = map own_targets ds' ! i" by simp
  qed
  then show ?thesis by (simp add: draft_targets_def)
qed

lemma mset_up_checks:
  "image_mset ck_target (mset (up_checks after opened ts cs)) = image_mset ck_target (mset cs) + mset ts"
  by (induction ts arbitrary: cs) simp_all

section \<open>The state of the walk\<close>

definition waiting :: "walk \<Rightarrow> handle list" where
  "waiting w = map fst (filter (\<lambda>e. snd e = None) (wk_stack w))"

definition opened :: "walk \<Rightarrow> handle list" where
  "opened w = map fst (filter (\<lambda>e. snd e \<noteq> None) (wk_stack w))"

text \<open>The walk has the given tree under way: \<open>V\<close> are the nodes that were opened.\<close>

definition under_way :: "draft list \<Rightarrow> handle set \<Rightarrow> walk \<Rightarrow> bool" where
  "under_way ds V w \<longleftrightarrow>
     length (wk_drafts w) = length ds \<and> length (wk_down_at w) = length ds \<and>
     (\<forall>i < length ds. dr_parent (wk_drafts w ! i) = dr_parent (ds ! i) \<and> dr_children (wk_drafts w ! i) = dr_children (ds ! i)) \<and>
     V \<subseteq> {..<length ds} \<and> set (waiting w) \<subseteq> {..<length ds} - V \<and> set (opened w) \<subseteq> V \<and>
     distinct (waiting w) \<and> distinct (opened w) \<and>
     (\<forall>j < length ds. (j \<in> V \<or> j \<in> set (waiting w)) \<longleftrightarrow> (case dr_parent (ds ! j) of None \<Rightarrow> True | Some p \<Rightarrow> p \<in> V)) \<and>
     (\<forall>v \<in> V. dr_down (wk_drafts w ! v) = None) \<and>
     (\<forall>v \<in> V - set (opened w). dr_up (wk_drafts w ! v) = [])"

lemma under_wayD:
  assumes "under_way ds V w"
  shows "length (wk_drafts w) = length ds" "length (wk_down_at w) = length ds"
    "i < length ds \<Longrightarrow> dr_parent (wk_drafts w ! i) = dr_parent (ds ! i)"
    "i < length ds \<Longrightarrow> dr_children (wk_drafts w ! i) = dr_children (ds ! i)"
    "V \<subseteq> {..<length ds}" "set (waiting w) \<subseteq> {..<length ds} - V" "set (opened w) \<subseteq> V"
    "distinct (waiting w)" "distinct (opened w)"
    "j < length ds \<Longrightarrow> (j \<in> V \<or> j \<in> set (waiting w)) \<longleftrightarrow> (case dr_parent (ds ! j) of None \<Rightarrow> True | Some p \<Rightarrow> p \<in> V)"
    "v \<in> V \<Longrightarrow> dr_down (wk_drafts w ! v) = None"
    "v \<in> V \<Longrightarrow> v \<notin> set (opened w) \<Longrightarrow> dr_up (wk_drafts w ! v) = []"
  using assms by (simp_all add: under_way_def)

lemma under_way_start:
  assumes "draft_forest r ds"
  shows "under_way ds {} (walk_start ds)"
proof -
  have "rooted ds" using assms by (simp add: draft_forest_def)
  then show ?thesis
    by (auto simp: under_way_def walk_start_def waiting_def opened_def rooted_def MACHINE_def split: option.split)
qed

lemma close_under_way:
  assumes w: "under_way ds V w" and st: "wk_stack w = (h, Some o1) # rest"
  shows "under_way ds V (close_node h o1 (w\<lparr>wk_stack := rest\<rparr>))"
proof -
  note d = under_wayD [OF w]
  let ?w = "close_node h o1 (w\<lparr>wk_stack := rest\<rparr>)"
  have p: "waiting ?w = waiting w" and o1: "opened w = h # opened ?w"
    by (simp_all add: st waiting_def opened_def close_node_def Let_def)
  have ds: "wk_drafts ?w = at_draft h (\<lambda>d. d\<lparr>dr_up := []\<rparr>) (wk_drafts w)" and da: "wk_down_at ?w = wk_down_at w"
    by (simp_all add: close_node_def Let_def)
  have len: "length (wk_drafts w) = length ds" by (rule d(1))
  have V: "v < length (wk_drafts w)" if "v \<in> V" for v using that d(1,5) by auto
  show ?thesis
    unfolding under_way_def
  proof (intro conjI)
    show "\<forall>i < length ds. dr_parent (wk_drafts ?w ! i) = dr_parent (ds ! i) \<and> dr_children (wk_drafts ?w ! i) = dr_children (ds ! i)"
      using d(3,4) by (auto simp: ds nth_at_draft len)
    have nth: "wk_drafts ?w ! v = (if v = h then (wk_drafts w ! h)\<lparr>dr_up := []\<rparr> else wk_drafts w ! v)" if "v \<in> V" for v
      unfolding ds by (rule nth_at_draft [OF V [OF that]])
    show "\<forall>v \<in> V. dr_down (wk_drafts ?w ! v) = None"
      using d(11) nth by simp
    show "\<forall>v \<in> V - set (opened ?w). dr_up (wk_drafts ?w ! v) = []"
    proof
      fix v
      assume v: "v \<in> V - set (opened ?w)"
      show "dr_up (wk_drafts ?w ! v) = []"
      proof (cases "v = h")
        case False
        with v have "v \<notin> set (opened w)" unfolding o1 by simp
        with v False show ?thesis using d(12) nth by simp
      qed (use v nth in simp)
    qed
    show "set (opened ?w) \<subseteq> V" "distinct (opened ?w)" using d(7,9) o1 by auto
    show "\<forall>j < length ds. (j \<in> V \<or> j \<in> set (waiting ?w)) \<longleftrightarrow> (case dr_parent (ds ! j) of None \<Rightarrow> True | Some p \<Rightarrow> p \<in> V)"
      unfolding p using d(10) by blast
  qed (use d(2,5,6,8) in \<open>simp_all add: p ds da len\<close>)
qed

lemma open_ready:
  assumes f: "draft_forest r ds" and w: "under_way ds V w" and h: "h < length ds"
  shows "\<exists>x. nearest_down (wk_drafts w) da (length (wk_drafts w)) (dr_parent (wk_drafts w ! h)) = Some x"
proof (rule nearest_of_ranked)
  have eq: "map dr_parent (wk_drafts w) = map dr_parent ds"
  proof (rule nth_equalityI)
    show "length (map dr_parent (wk_drafts w)) = length (map dr_parent ds)" using under_wayD(1) [OF w] by simp
    fix i
    assume "i < length (map dr_parent (wk_drafts w))"
    with under_wayD(1) [OF w] under_wayD(3) [OF w, of i]
    show "map dr_parent (wk_drafts w) ! i = map dr_parent ds ! i" by simp
  qed
  show "ranked_by r (wk_drafts w)" unfolding ranked_same [OF eq] using f by (simp add: draft_forest_def)
  show "h < length (wk_drafts w)" using h under_wayD(1) [OF w] by simp
qed

text \<open>Opening a node, with and without a target on the way down, leaves the same shape.\<close>

lemma enter_node_shape:
  assumes f: "draft_forest r ds" and w: "under_way ds V w" and st: "wk_stack w = (h, None) # rest"
  shows "\<exists>w' o1. enter_node h (w\<lparr>wk_stack := rest\<rparr>) = Some w' \<and>
    wk_drafts w' = at_draft h (\<lambda>d. d\<lparr>dr_down := None\<rparr>) (wk_drafts w) \<and>
    length (wk_down_at w') = length (wk_down_at w) \<and>
    wk_stack w' = map (\<lambda>c. (c, None)) (dr_children (ds ! h)) @ (h, Some o1) # rest"
proof -
  have h: "h < length ds" using under_wayD(6) [OF w] by (auto simp: waiting_def st)
  then have ch: "dr_children (wk_drafts w ! h) = dr_children (ds ! h)" by (rule under_wayD(4) [OF w])
  have none: "dr_down (wk_drafts w ! h) = None \<Longrightarrow> at_draft h (\<lambda>d. d\<lparr>dr_down := None\<rparr>) (wk_drafts w) = wk_drafts w"
    by (rule nth_equalityI) (auto simp: nth_at_draft)
  from open_ready [OF f w h] obtain x where
    "nearest_down (wk_drafts w) (wk_down_at w) (length (wk_drafts w)) (dr_parent (wk_drafts w ! h)) = Some x" by blast
  then show ?thesis by (auto simp: enter_node_def Let_def ch none split: option.split)
qed

lemma open_under_way:
  assumes f: "draft_forest r ds" and w: "under_way ds V w" and st: "wk_stack w = (h, None) # rest"
    and w': "wk_drafts w' = at_draft h (\<lambda>d. d\<lparr>dr_down := None\<rparr>) (wk_drafts w)"
      "length (wk_down_at w') = length (wk_down_at w)"
      "wk_stack w' = map (\<lambda>c. (c, None)) (dr_children (ds ! h)) @ (h, Some o1) # rest"
  shows "under_way ds (insert h V) w'"
proof -
  note d = under_wayD [OF w]
  have p: "waiting w = h # waiting (w\<lparr>wk_stack := rest\<rparr>)" and o1: "opened w = opened (w\<lparr>wk_stack := rest\<rparr>)"
    by (simp_all add: st waiting_def opened_def)
  have p': "waiting w' = dr_children (ds ! h) @ waiting (w\<lparr>wk_stack := rest\<rparr>)"
    and o': "opened w' = h # opened (w\<lparr>wk_stack := rest\<rparr>)"
    by (simp_all add: w' waiting_def opened_def filter_map o_def)
  have h: "h < length ds" "h \<notin> V" using d(6) p by auto
  have ch: "distinct (dr_children (ds ! h))" "set (dr_children (ds ! h)) = child_set ds h"
    using childed_children [of ds h] f h(1) by (auto simp: draft_forest_def)
  have "h \<notin> child_set ds h" using f h(1) ranked_byD [of r ds h h] by (auto simp: draft_forest_def child_set_def)
  have new: "child_set ds h \<inter> (V \<union> set (waiting w)) = {}"
  proof -
    have "x \<notin> V \<and> x \<notin> set (waiting w)" if "x \<in> child_set ds h" for x
      using d(10) [of x] that h(2) by (auto simp: child_set_def)
    then show ?thesis by blast
  qed
  have all: "(j \<in> insert h V \<or> j \<in> set (waiting w')) \<longleftrightarrow> (case dr_parent (ds ! j) of None \<Rightarrow> True | Some q \<Rightarrow> q \<in> insert h V)"
    if "j < length ds" for j
    using d(10) [OF that] that unfolding p' p by (auto simp: ch child_set_def split: option.splits)
  show ?thesis
    unfolding under_way_def
  proof (intro conjI)
    show "set (waiting w') \<subseteq> {..<length ds} - insert h V"
      using d(6,8) new \<open>h \<notin> child_set ds h\<close> unfolding p' p by (auto simp: ch child_set_def)
    show "distinct (waiting w')" using d(8) new unfolding p' p by (auto simp: ch)
    show "set (opened w') \<subseteq> insert h V" "distinct (opened w')" using d(7,9) h(2) unfolding o' o1 by auto
    have nth: "wk_drafts w' ! v = (if v = h then (wk_drafts w ! h)\<lparr>dr_down := None\<rparr> else wk_drafts w ! v)"
      if "v \<in> insert h V" for v
      unfolding w' by (rule nth_at_draft) (use that d(1,5) h(1) in auto)
    show "\<forall>v \<in> insert h V. dr_down (wk_drafts w' ! v) = None"
      using d(11) nth by simp
    show "\<forall>v \<in> insert h V - set (opened w'). dr_up (wk_drafts w' ! v) = []"
    proof
      fix v
      assume "v \<in> insert h V - set (opened w')"
      then have "v \<in> V" "v \<noteq> h" "v \<notin> set (opened w)" unfolding o' o1 by auto
      then show "dr_up (wk_drafts w' ! v) = []" using d(12) nth by simp
    qed
    show "\<forall>i < length ds. dr_parent (wk_drafts w' ! i) = dr_parent (ds ! i) \<and> dr_children (wk_drafts w' ! i) = dr_children (ds ! i)"
      using d(1,3,4) by (auto simp: w' nth_at_draft)
  qed (use d(1,2,5) h(1) all w' in auto)
qed

section \<open>The walk ends\<close>

lemma visit_open: "wk_stack w = (h, None) # rest \<Longrightarrow> visit (Suc m) w = Option.bind (enter_node h (w\<lparr>wk_stack := rest\<rparr>)) (visit m)"
  by (subst visit.simps) (simp add: Let_def)

lemma visit_close: "wk_stack w = (h, Some o1) # rest \<Longrightarrow> visit (Suc m) w = visit m (close_node h o1 (w\<lparr>wk_stack := rest\<rparr>))"
  by (subst visit.simps) (simp add: Let_def)

lemma visit_done: "wk_stack w = [] \<Longrightarrow> visit m w = Some w"
  by (subst visit.simps) simp

text \<open>Anything that opening and closing keep holds of the state the walk ends in.\<close>

lemma visit_keeps:
  assumes f: "draft_forest r ds"
    and closes: "\<And>V w h o1 rest. under_way ds V w \<Longrightarrow> I V w \<Longrightarrow> wk_stack w = (h, Some o1) # rest
      \<Longrightarrow> I V (close_node h o1 (w\<lparr>wk_stack := rest\<rparr>))"
    and opens: "\<And>V w h rest w'. under_way ds V w \<Longrightarrow> I V w \<Longrightarrow> wk_stack w = (h, None) # rest
      \<Longrightarrow> enter_node h (w\<lparr>wk_stack := rest\<rparr>) = Some w' \<Longrightarrow> I (insert h V) w'"
  shows "under_way ds V w \<Longrightarrow> I V w \<Longrightarrow> 2 * (length ds - card V) + length (opened w) \<le> m
    \<Longrightarrow> \<exists>w' V'. visit m w = Some w' \<and> wk_stack w' = [] \<and> under_way ds V' w' \<and> I V' w'"
proof (induction m arbitrary: V w)
  case 0
  then have "length ds \<le> card V" "opened w = []" by simp_all
  with under_wayD(5) [OF "0.prems"(1)] have "V = {..<length ds}"
    by (metis card_lessThan card_mono card_subset_eq finite_lessThan le_antisym)
  with under_wayD(6) [OF "0.prems"(1)] have "waiting w = []" by simp
  with \<open>opened w = []\<close> have "wk_stack w = []"
    by (cases "wk_stack w") (auto simp: waiting_def opened_def split: if_splits)
  with 0 visit_done show ?case by blast
next
  case (Suc m)
  note d = under_wayD [OF Suc.prems(1)]
  show ?case
  proof (cases "wk_stack w")
    case Nil
    with Suc.prems visit_done show ?thesis by blast
  next
    case (Cons e rest)
    obtain h x where e: "e = (h, x)" by force
    show ?thesis
    proof (cases x)
      case (Some o1)
      let ?w = "close_node h o1 (w\<lparr>wk_stack := rest\<rparr>)"
      have st: "wk_stack w = (h, Some o1) # rest" using Cons e Some by simp
      have "length (opened w) = Suc (length (opened ?w))" by (simp add: st opened_def close_node_def Let_def)
      with Suc.prems(3) have "2 * (length ds - card V) + length (opened ?w) \<le> m" by simp
      from Suc.IH [OF close_under_way [OF Suc.prems(1) st] closes [OF Suc.prems(1,2) st] this]
      show ?thesis by (simp add: visit_close [OF st])
    next
      case None
      have st: "wk_stack w = (h, None) # rest" using Cons e None by simp
      from enter_node_shape [OF f Suc.prems(1) st] obtain w' o1
        where w': "enter_node h (w\<lparr>wk_stack := rest\<rparr>) = Some w'"
          "wk_drafts w' = at_draft h (\<lambda>d. d\<lparr>dr_down := None\<rparr>) (wk_drafts w)"
          "length (wk_down_at w') = length (wk_down_at w)"
          "wk_stack w' = map (\<lambda>c. (c, None)) (dr_children (ds ! h)) @ (h, Some o1) # rest" by blast
      have "h \<notin> V" "h < length ds" using d(6) by (auto simp: waiting_def st)
      then have "card (insert h V) = Suc (card V)" "insert h V \<subseteq> {..<length ds}"
        using d(5) by (auto simp: finite_subset [OF d(5)])
      then have "Suc (card V) \<le> length ds" using card_mono [of "{..<length ds}" "insert h V"] by simp
      moreover have "length (opened w') = Suc (length (opened w))"
        by (simp add: w'(4) st opened_def filter_map o_def)
      ultimately have "2 * (length ds - card (insert h V)) + length (opened w') \<le> m"
        using Suc.prems(3) \<open>card (insert h V) = Suc (card V)\<close> by simp
      from Suc.IH [OF open_under_way [OF f Suc.prems(1) st w'(2-4)] opens [OF Suc.prems(1,2) st w'(1)] this]
      show ?thesis by (simp add: visit_open [OF st] w'(1))
    qed
  qed
qed

lemma walk_all:
  assumes f: "draft_forest r ds" and w: "under_way ds V w" and st: "wk_stack w = []"
  shows "V = {..<length ds}" "draft_targets (wk_drafts w) = []"
proof -
  note d = under_wayD [OF w]
  have e: "waiting w = []" "opened w = []" by (simp_all add: waiting_def opened_def st)
  have "j \<in> V" if "j < length ds" for j
    using that
  proof (induction "r j" arbitrary: j rule: less_induct)
    case less
    show ?case
    proof (cases "dr_parent (ds ! j)")
      case None
      then show ?thesis using d(10) [OF less.prems] e by simp
    next
      case (Some p)
      with f less.prems have "p < length ds" "r p < r j" by (auto simp: draft_forest_def dest: ranked_byD)
      with less.hyps have "p \<in> V" by blast
      then show ?thesis using d(10) [OF less.prems] e Some by simp
    qed
  qed
  with d(5) show V: "V = {..<length ds}" by auto
  show "draft_targets (wk_drafts w) = []"
    by (rule draft_targets_empty) (use d(1,11,12) e V in \<open>auto simp: in_set_conv_nth\<close>)
qed

section \<open>Every target is taken once\<close>

definition targets_seen :: "walk \<Rightarrow> target multiset" where
  "targets_seen w = mset (map ck_target (wk_checks w)) + mset (draft_targets (wk_drafts w))"

lemma enter_node_result:
  assumes "enter_node h (w\<lparr>wk_stack := rest\<rparr>) = Some w'"
  shows "(dr_down (wk_drafts w ! h) = None \<and> wk_drafts w' = wk_drafts w \<and> wk_down_at w' = wk_down_at w \<and> wk_checks w' = wk_checks w)
    \<or> (\<exists>t near. dr_down (wk_drafts w ! h) = Some t
        \<and> nearest_down (wk_drafts w) (wk_down_at w) (length (wk_drafts w)) (dr_parent (wk_drafts w ! h)) = Some near
        \<and> wk_drafts w' = at_draft h (\<lambda>d. d\<lparr>dr_down := None\<rparr>) (wk_drafts w)
        \<and> wk_down_at w' = (wk_down_at w)[h := Some (length (wk_checks w))]
        \<and> wk_checks w' = wk_checks w @ [\<lparr>ck_target = t, ck_phase = Phase_Down,
            ck_after = option_list near @ referred (dr_refers (wk_drafts w ! h)) (wk_down_at w), ck_within = (0, 0)\<rparr>])"
    "wk_stack w' = map (\<lambda>c. (c, None)) (dr_children (wk_drafts w ! h)) @ (h, Some (length (wk_checks w))) # rest"
  using assms by (auto simp: enter_node_def Let_def split: option.splits)

lemma close_targets:
  assumes "h < length (wk_drafts w)"
  shows "targets_seen (close_node h o1 (w\<lparr>wk_stack := rest\<rparr>)) = targets_seen w"
  using draft_targets_at [OF assms, of "\<lambda>d. d\<lparr>dr_up := []\<rparr>"]
  by (simp add: targets_seen_def close_node_def Let_def mset_up_checks own_targets_def union_commute union_lcomm)

lemma open_targets:
  assumes "h < length (wk_drafts w)" "enter_node h (w\<lparr>wk_stack := rest\<rparr>) = Some w'"
  shows "targets_seen w' = targets_seen w"
  using enter_node_result(1) [OF assms(2)] draft_targets_at [OF assms(1), of "\<lambda>d. d\<lparr>dr_down := None\<rparr>"]
  by (auto simp: targets_seen_def own_targets_def option_list_def)

section \<open>Checks wait on earlier checks\<close>

definition waits_earlier :: "check list \<Rightarrow> bool" where
  "waits_earlier cs \<longleftrightarrow> (\<forall>i < length cs. \<forall>x \<in> set (waits_on (cs ! i)). x < i)"

lemma waits_earlier_snoc:
  "waits_earlier (cs @ [c]) \<longleftrightarrow> waits_earlier cs \<and> (\<forall>x \<in> set (waits_on c). x < length cs)"
  by (auto simp: waits_earlier_def less_Suc_eq nth_append)

lemma waits_earlier_up:
  "waits_earlier cs \<Longrightarrow> \<forall>x \<in> set after. x < length cs \<Longrightarrow> waits_earlier (up_checks after o1 ts cs)"
proof (induction ts arbitrary: cs)
  case (Cons t ts)
  have "waits_earlier (cs @ [\<lparr>ck_target = t, ck_phase = Phase_Up, ck_after = after, ck_within = (o1, length cs)\<rparr>])"
    using Cons.prems by (auto simp: waits_earlier_snoc waits_on_def)
  with Cons.IH Cons.prems(2) show ?case by (simp add: less_Suc_eq)
qed simp

lemma length_up_checks: "length (up_checks after o1 ts cs) = length cs + length ts"
  by (induction ts arbitrary: cs) simp_all

definition refs_inside :: "draft list \<Rightarrow> bool" where
  "refs_inside ds \<longleftrightarrow> (\<forall>h < length ds. \<forall>t \<in> set (dr_refers (ds ! h) @ dr_up_refers (ds ! h)). t < length ds)"

definition down_before :: "walk \<Rightarrow> bool" where
  "down_before w \<longleftrightarrow>
     refs_inside (wk_drafts w) \<and> waits_earlier (wk_checks w) \<and>
     (\<forall>x. Some x \<in> set (wk_down_at w) \<longrightarrow> x < length (wk_checks w))"

lemma refs_inside_at:
  "refs_inside ds \<Longrightarrow> (\<And>d. dr_refers (f d) = dr_refers d \<and> dr_up_refers (f d) = dr_up_refers d)
   \<Longrightarrow> refs_inside (at_draft h f ds)"
  by (simp add: refs_inside_def nth_at_draft)

lemma referred_mem:
  "\<forall>t \<in> set ts. t < length down_at \<Longrightarrow> x \<in> set (referred ts down_at) \<Longrightarrow> Some x \<in> set down_at"
  by (fastforce simp: referred_def List.map_filter_def dest: nth_mem)

lemma nearest_down_mem:
  "ranked_by r ds \<Longrightarrow> length down_at = length ds \<Longrightarrow> at = None \<or> (\<exists>p < length ds. at = Some p)
   \<Longrightarrow> nearest_down ds down_at n at = Some (Some x) \<Longrightarrow> Some x \<in> set down_at"
proof (induction ds down_at n at rule: nearest_down.induct)
  case (3 ds down_at n p)
  then have p: "p < length ds" by simp
  show ?case
  proof (cases "down_at ! p")
    case None
    have "dr_parent (ds ! p) = None \<or> (\<exists>q < length ds. dr_parent (ds ! p) = Some q)"
      using ranked_byD [OF "3.prems"(1) p] by (cases "dr_parent (ds ! p)") auto
    with 3 None show ?thesis by simp
  next
    case (Some i)
    with 3 p show ?thesis by (metis nearest_down.simps(3) nth_mem option.inject option.simps(5))
  qed
qed simp_all

lemma close_down_before:
  assumes w: "under_way ds V w" and b: "down_before w" and st: "wk_stack w = (h, Some o1) # rest"
  shows "down_before (close_node h o1 (w\<lparr>wk_stack := rest\<rparr>))"
proof -
  note d = under_wayD [OF w]
  have "h \<in> set (opened w)" by (simp add: st opened_def)
  then have h: "h < length (wk_drafts w)" using d(1,5,7) by auto
  let ?d = "wk_drafts w ! h"
  have "x < length (wk_checks w)"
    if "x \<in> set (referred ts (wk_down_at w))" "ts = dr_refers ?d \<or> ts = dr_up_refers ?d" for x ts
  proof -
    from that(2) b h d(1,2) have "\<forall>t \<in> set ts. t < length (wk_down_at w)" by (auto simp: down_before_def refs_inside_def)
    from referred_mem [OF this that(1)] b show ?thesis by (simp add: down_before_def)
  qed
  with b show ?thesis
    by (auto simp: down_before_def close_node_def Let_def length_up_checks intro!: waits_earlier_up refs_inside_at
        intro: trans_less_add1)
qed

lemma open_down_before:
  assumes f: "draft_forest r ds" and w: "under_way ds V w" and b: "down_before w" and st: "wk_stack w = (h, None) # rest"
    and w': "enter_node h (w\<lparr>wk_stack := rest\<rparr>) = Some w'"
  shows "down_before w'"
proof -
  note d = under_wayD [OF w]
  have "h \<in> set (waiting w)" by (simp add: st waiting_def)
  then have h: "h < length (wk_drafts w)" using d(1,6) by auto
  show ?thesis
    using enter_node_result(1) [OF w']
  proof (elim disjE exE conjE)
    fix t near
    assume t: "dr_down (wk_drafts w ! h) = Some t"
      "nearest_down (wk_drafts w) (wk_down_at w) (length (wk_drafts w)) (dr_parent (wk_drafts w ! h)) = Some near"
      "wk_drafts w' = at_draft h (\<lambda>d. d\<lparr>dr_down := None\<rparr>) (wk_drafts w)"
      "wk_down_at w' = (wk_down_at w)[h := Some (length (wk_checks w))]"
      "wk_checks w' = wk_checks w @ [\<lparr>ck_target = t, ck_phase = Phase_Down,
         ck_after = option_list near @ referred (dr_refers (wk_drafts w ! h)) (wk_down_at w), ck_within = (0, 0)\<rparr>]"
    have ranked: "ranked_by r (wk_drafts w)"
      using f d(1,3) by (auto simp: draft_forest_def ranked_by_def)
    have "dr_parent (wk_drafts w ! h) = None \<or> (\<exists>p < length (wk_drafts w). dr_parent (wk_drafts w ! h) = Some p)"
      using ranked_byD [OF ranked h] by (cases "dr_parent (wk_drafts w ! h)") auto
    then have "x < length (wk_checks w)" if "near = Some x" for x
      using nearest_down_mem [OF ranked] t(2) that b d(1,2) by (simp add: down_before_def)
    moreover have "\<forall>r \<in> set (dr_refers (wk_drafts w ! h)). r < length (wk_down_at w)"
      using b h d(1,2) by (auto simp: down_before_def refs_inside_def)
    then have "x < length (wk_checks w)" if "x \<in> set (referred (dr_refers (wk_drafts w ! h)) (wk_down_at w))" for x
      using referred_mem that b by (simp add: down_before_def)
    ultimately have "waits_earlier (wk_checks w')"
      using b unfolding t(5) waits_earlier_snoc by (auto simp: down_before_def waits_on_def option_list_def split: option.splits)
    moreover have "refs_inside (wk_drafts w')"
      unfolding t(3) by (rule refs_inside_at) (use b in \<open>simp_all add: down_before_def\<close>)
    moreover have "x < length (wk_checks w')" if "Some x \<in> set (wk_down_at w')" for x
      using set_update_subset_insert [of "wk_down_at w" h "Some (length (wk_checks w))"] that b
      unfolding t(4) t(5) by (auto simp: down_before_def less_Suc_eq)
    ultimately show ?thesis by (simp add: down_before_def)
  qed (use b in \<open>simp add: down_before_def\<close>)
qed

section \<open>The nearest declared node above\<close>

text \<open>A table in which every declared node is found as itself: looking up the nearest entry of it
  gives the nearest declared node.\<close>

definition own_table :: "draft list \<Rightarrow> nat option list" where
  "own_table ds = map (\<lambda>i. map_option (\<lambda>_. i) (dr_down (ds ! i))) [0..<length ds]"

definition nearest_declared :: "draft list \<Rightarrow> handle \<Rightarrow> nat option option" where
  "nearest_declared ds h = nearest_down ds (own_table ds) (length ds) (dr_parent (ds ! h))"

lemma own_table_nth: "i < length ds \<Longrightarrow> own_table ds ! i = map_option (\<lambda>_. i) (dr_down (ds ! i))"
  by (simp add: own_table_def)

lemma nearest_down_sim:
  assumes V: "\<And>v q. v \<in> V \<Longrightarrow> dr_parent (ds ! v) = Some q \<Longrightarrow> q \<in> V"
    and tab: "\<And>v. v \<in> V \<Longrightarrow> tab ! v = None \<and> da ! v = None \<or> tab ! v = Some v \<and> da ! v \<noteq> None"
    and par: "\<And>v. v \<in> V \<Longrightarrow> dr_parent (ds' ! v) = dr_parent (ds ! v)"
  shows "(\<And>p. at = Some p \<Longrightarrow> p \<in> V) \<Longrightarrow> nearest_down ds tab n at = Some x
    \<Longrightarrow> nearest_down ds' da n at = Some (Option.bind x (\<lambda>u. da ! u)) \<and> (\<forall>u. x = Some u \<longrightarrow> u \<in> V \<and> da ! u \<noteq> None)"
proof (induction n arbitrary: at)
  case 0
  then show ?case by (cases at) auto
next
  case (Suc n)
  show ?case
  proof (cases at)
    case (Some p)
    with Suc.prems(1) have p: "p \<in> V" by simp
    from tab [OF p] show ?thesis
    proof (elim disjE conjE)
      assume none: "tab ! p = None" "da ! p = None"
      have "q \<in> V" if "dr_parent (ds ! p) = Some q" for q using V [OF p that] .
      from Suc.IH [OF this] Suc.prems(2) none Some par [OF p] show ?thesis by simp
    next
      assume "tab ! p = Some p" "da ! p \<noteq> None"
      with Suc.prems(2) Some p show ?thesis by auto
    qed
  qed (use Suc.prems in auto)
qed

definition checked :: "draft list \<Rightarrow> handle set \<Rightarrow> walk \<Rightarrow> bool" where
  "checked ds V w \<longleftrightarrow>
     (\<forall>j < length ds. dr_refers (wk_drafts w ! j) = dr_refers (ds ! j)) \<and>
     (\<forall>j < length ds. j \<notin> V \<longrightarrow> dr_down (wk_drafts w ! j) = dr_down (ds ! j)) \<and>
     (\<forall>j < length ds. wk_down_at w ! j \<noteq> None \<longleftrightarrow> j \<in> V \<and> dr_down (ds ! j) \<noteq> None) \<and>
     (\<forall>v \<in> V. \<forall>t. dr_down (ds ! v) = Some t \<longrightarrow>
        (\<exists>k < length (wk_checks w). wk_down_at w ! v = Some k \<and> ck_target (wk_checks w ! k) = t
           \<and> ck_phase (wk_checks w ! k) = Phase_Down
           \<and> (\<forall>u. nearest_declared ds v = Some (Some u) \<longrightarrow>
                (\<exists>m. wk_down_at w ! u = Some m \<and> u \<in> V \<and> m \<in> set (ck_after (wk_checks w ! k))))))"

lemma checked_more:
  assumes c: "checked ds V w" and w': "wk_checks w' = wk_checks w @ xs" "wk_down_at w' = wk_down_at w"
    "\<And>j. j < length ds \<Longrightarrow> dr_refers (wk_drafts w' ! j) = dr_refers (wk_drafts w ! j)"
    "\<And>j. j < length ds \<Longrightarrow> dr_down (wk_drafts w' ! j) = dr_down (wk_drafts w ! j)"
  shows "checked ds V w'"
  unfolding checked_def
proof (intro conjI ballI allI impI)
  fix v t
  assume "v \<in> V" "dr_down (ds ! v) = Some t"
  with c obtain k where k: "k < length (wk_checks w)" "wk_down_at w ! v = Some k" "ck_target (wk_checks w ! k) = t"
    "ck_phase (wk_checks w ! k) = Phase_Down"
    "\<forall>u. nearest_declared ds v = Some (Some u) \<longrightarrow> (\<exists>m. wk_down_at w ! u = Some m \<and> u \<in> V \<and> m \<in> set (ck_after (wk_checks w ! k)))"
    unfolding checked_def by blast
  then show "\<exists>k < length (wk_checks w'). wk_down_at w' ! v = Some k \<and> ck_target (wk_checks w' ! k) = t
           \<and> ck_phase (wk_checks w' ! k) = Phase_Down
           \<and> (\<forall>u. nearest_declared ds v = Some (Some u) \<longrightarrow>
                (\<exists>m. wk_down_at w' ! u = Some m \<and> u \<in> V \<and> m \<in> set (ck_after (wk_checks w' ! k))))"
    by (intro exI [of _ k]) (simp add: w' nth_append)
qed (use c w' in \<open>auto simp: checked_def\<close>)

lemma up_checks_more: "\<exists>xs. up_checks after o1 ts cs = cs @ xs"
  by (induction ts arbitrary: cs) (simp, metis append_assoc up_checks.simps(2))

lemma close_checked:
  assumes c: "checked ds V w" and len: "length (wk_drafts w) = length ds"
  shows "checked ds V (close_node h o1 (w\<lparr>wk_stack := rest\<rparr>))"
proof -
  let ?w = "close_node h o1 (w\<lparr>wk_stack := rest\<rparr>)"
  obtain xs where "wk_checks ?w = wk_checks w @ xs"
    using up_checks_more by (fastforce simp: close_node_def Let_def)
  then show ?thesis
    by (rule checked_more [OF c]) (auto simp: close_node_def Let_def nth_at_draft len)
qed

lemma open_checked:
  assumes f: "draft_forest r ds" and w: "under_way ds V w" and c: "checked ds V w" and st: "wk_stack w = (h, None) # rest"
    and w': "enter_node h (w\<lparr>wk_stack := rest\<rparr>) = Some w'"
  shows "checked ds (insert h V) w'"
proof -
  note d = under_wayD [OF w]
  have "h \<in> set (waiting w)" by (simp add: st waiting_def)
  then have h: "h < length ds" "h \<notin> V" using d(6) by auto
  have parent_in: "q \<in> V" if "v \<in> V \<or> v = h" "dr_parent (ds ! v) = Some q" for v q
    using that d(5) d(10) [of v] h \<open>h \<in> set (waiting w)\<close> by (auto split: option.splits)
  have V: "v < length ds" if "v \<in> V" for v using that d(5) by auto
  have old: "\<exists>k < length (wk_checks w). wk_down_at w ! v = Some k \<and> ck_target (wk_checks w ! k) = t
      \<and> ck_phase (wk_checks w ! k) = Phase_Down
      \<and> (\<forall>u. nearest_declared ds v = Some (Some u) \<longrightarrow>
          (\<exists>m. wk_down_at w ! u = Some m \<and> u \<in> V \<and> m \<in> set (ck_after (wk_checks w ! k))))"
    if "v \<in> V" "dr_down (ds ! v) = Some t" for v t
    using c that unfolding checked_def by blast
  show ?thesis
    using enter_node_result(1) [OF w']
  proof (elim disjE exE conjE)
    assume n: "dr_down (wk_drafts w ! h) = None" "wk_drafts w' = wk_drafts w" "wk_down_at w' = wk_down_at w"
      "wk_checks w' = wk_checks w"
    then have "dr_down (ds ! h) = None" using c h by (simp add: checked_def)
    with c n show ?thesis unfolding checked_def by fastforce
  next
    fix t near
    assume t: "dr_down (wk_drafts w ! h) = Some t"
      "nearest_down (wk_drafts w) (wk_down_at w) (length (wk_drafts w)) (dr_parent (wk_drafts w ! h)) = Some near"
      "wk_drafts w' = at_draft h (\<lambda>d. d\<lparr>dr_down := None\<rparr>) (wk_drafts w)"
      "wk_down_at w' = (wk_down_at w)[h := Some (length (wk_checks w))]"
      "wk_checks w' = wk_checks w @ [\<lparr>ck_target = t, ck_phase = Phase_Down,
         ck_after = option_list near @ referred (dr_refers (wk_drafts w ! h)) (wk_down_at w), ck_within = (0, 0)\<rparr>]"
    have dh: "dr_down (ds ! h) = Some t" using t(1) c h by (simp add: checked_def)
    have same: "wk_down_at w' ! u = wk_down_at w ! u" if "u \<in> V" for u
    proof -
      have "h \<noteq> u" using that h(2) by blast
      then show ?thesis by (simp add: t(4))
    qed
    have near: "near = wk_down_at w ! u \<and> u \<in> V \<and> near \<noteq> None" if u: "nearest_declared ds h = Some (Some u)" for u
    proof -
      have tab: "own_table ds ! v = None \<and> wk_down_at w ! v = None \<or> own_table ds ! v = Some v \<and> wk_down_at w ! v \<noteq> None"
        if "v \<in> V" for v
        using c V [OF that] that by (cases "dr_down (ds ! v)") (auto simp: checked_def own_table_nth)
      have par: "dr_parent (wk_drafts w ! v) = dr_parent (ds ! v)" if "v \<in> V" for v
        using d(3) V [OF that] .
      have at: "p \<in> V" if "dr_parent (ds ! h) = Some p" for p
        using parent_in that by blast
      have up: "q \<in> V" if "v \<in> V" "dr_parent (ds ! v) = Some q" for v q
        using parent_in that by blast
      from u have "nearest_down ds (own_table ds) (length ds) (dr_parent (ds ! h)) = Some (Some u)"
        by (simp add: nearest_declared_def)
      from nearest_down_sim [where ds' = "wk_drafts w" and da = "wk_down_at w", OF up tab par at this]
        t(2) d(1) d(3) [OF h(1)]
      show ?thesis by (auto simp: nearest_declared_def)
    qed
    show ?thesis
      unfolding checked_def
    proof (intro conjI ballI allI impI)
      fix j
      assume j: "j < length ds"
      show "dr_refers (wk_drafts w' ! j) = dr_refers (ds ! j)"
        using c j d(1) by (auto simp: t(3) nth_at_draft checked_def)
      show "dr_down (wk_drafts w' ! j) = dr_down (ds ! j)" if "j \<notin> insert h V"
        using c j d(1) that by (auto simp: t(3) nth_at_draft checked_def)
      show "(wk_down_at w' ! j \<noteq> None) = (j \<in> insert h V \<and> dr_down (ds ! j) \<noteq> None)"
        using c j d(2) dh by (cases "j = h") (auto simp: t(4) checked_def)
    next
      fix v t'
      assume v: "v \<in> insert h V" "dr_down (ds ! v) = Some t'"
      let ?goal = "\<lambda>k. k < length (wk_checks w') \<and> wk_down_at w' ! v = Some k \<and> ck_target (wk_checks w' ! k) = t'
        \<and> ck_phase (wk_checks w' ! k) = Phase_Down
        \<and> (\<forall>u. nearest_declared ds v = Some (Some u) \<longrightarrow>
            (\<exists>m. wk_down_at w' ! u = Some m \<and> u \<in> insert h V \<and> m \<in> set (ck_after (wk_checks w' ! k))))"
      show "\<exists>k. ?goal k"
      proof (cases "v = h")
        case True
        have "?goal (length (wk_checks w))"
          using True v(2) dh h d(2) near same by (fastforce simp: t(4,5) option_list_def)
        then show ?thesis by blast
      next
        case False
        with v have "v \<in> V" by simp
        from old [OF this v(2)] obtain k where k: "k < length (wk_checks w)" "wk_down_at w ! v = Some k"
          "ck_target (wk_checks w ! k) = t'" "ck_phase (wk_checks w ! k) = Phase_Down"
          "\<forall>u. nearest_declared ds v = Some (Some u) \<longrightarrow>
            (\<exists>m. wk_down_at w ! u = Some m \<and> u \<in> V \<and> m \<in> set (ck_after (wk_checks w ! k)))" by blast
        have "wk_checks w' ! k = wk_checks w ! k" using k(1) by (simp add: t(5) nth_append)
        with k same \<open>v \<in> V\<close> have "?goal k" by (auto simp: t(5))
        then show ?thesis by blast
      qed
    qed
  qed
qed

lemma checked_start: "checked ds {} (walk_start ds)"
  by (simp add: checked_def walk_start_def)

section \<open>What finishing gives\<close>

text \<open>Everything the walk keeps, at once.\<close>

definition walk_kept :: "draft list \<Rightarrow> handle set \<Rightarrow> walk \<Rightarrow> bool" where
  "walk_kept ds V w \<longleftrightarrow> targets_seen w = mset (draft_targets ds) \<and> down_before w \<and> checked ds V w"

lemma walk_result:
  assumes f: "draft_forest r ds" and refs: "refs_inside ds"
  shows "\<exists>w. visit (2 * length ds) (walk_start ds) = Some w \<and> mset (map ck_target (wk_checks w)) = mset (draft_targets ds)
    \<and> waits_earlier (wk_checks w) \<and> checked ds {..<length ds} w"
proof -
  have start: "walk_kept ds {} (walk_start ds)"
    using refs checked_start
    by (auto simp: walk_kept_def targets_seen_def down_before_def walk_start_def waits_earlier_def)
  have "\<exists>w V. visit (2 * length ds) (walk_start ds) = Some w \<and> wk_stack w = [] \<and> under_way ds V w \<and> walk_kept ds V w"
  proof (rule visit_keeps [OF f])
    fix V w h o1 rest
    assume w: "under_way ds V w" and k: "walk_kept ds V w" and st: "wk_stack w = (h, Some o1) # rest"
    have "h \<in> set (opened w)" by (simp add: st opened_def)
    then have "h < length (wk_drafts w)" using under_wayD(1,5,7) [OF w] by auto
    with k close_targets close_down_before [OF w _ st] close_checked under_wayD(1) [OF w]
    show "walk_kept ds V (close_node h o1 (w\<lparr>wk_stack := rest\<rparr>))" by (simp add: walk_kept_def)
  next
    fix V w h rest w'
    assume w: "under_way ds V w" and k: "walk_kept ds V w" and st: "wk_stack w = (h, None) # rest"
      and w': "enter_node h (w\<lparr>wk_stack := rest\<rparr>) = Some w'"
    have "h \<in> set (waiting w)" by (simp add: st waiting_def)
    then have "h < length (wk_drafts w)" using under_wayD(1,6) [OF w] by auto
    with k open_targets [OF _ w'] open_down_before [OF f w _ st w'] open_checked [OF f w _ st w']
    show "walk_kept ds (insert h V) w'" by (simp add: walk_kept_def)
  qed (use under_way_start [OF f] start in \<open>simp_all add: opened_def walk_start_def\<close>)
  then obtain w V where w: "visit (2 * length ds) (walk_start ds) = Some w" "wk_stack w = []"
    "under_way ds V w" "walk_kept ds V w" by blast
  from walk_all [OF f w(3,2)] w(1,4) show ?thesis
    by (auto simp: walk_kept_def targets_seen_def down_before_def)
qed

lemma draft_forest_shape:
  assumes eq: "map dr_parent ds = map dr_parent ds'" "map dr_children ds = map dr_children ds'" and f: "draft_forest r ds"
  shows "draft_forest r ds'"
proof -
  have "childed ds'"
    unfolding childed_def
  proof (intro allI impI)
    fix i
    assume "i < length ds'"
    then have i: "i < length ds" using length_same [OF eq(1)] by simp
    have "mset (dr_children (ds ! i)) = mset_set (child_set ds i)" using f i by (simp add: draft_forest_def childed_def)
    then show "mset (dr_children (ds' ! i)) = mset_set (child_set ds' i)"
      unfolding nth_same [OF eq(2) i] child_set_same [OF eq(1)] .
  qed
  with f show ?thesis using ranked_same [OF eq(1)] rooted_same [OF eq(1)] by (simp add: draft_forest_def)
qed

text \<open>Marking adds targets on the way up, which look for leftovers.\<close>

definition leftover_marks :: "builder \<Rightarrow> draft \<Rightarrow> target list" where
  "leftover_marks b d =
     (case (bd_leftovers b, dr_path d) of
        (Some journals, Some dir) \<Rightarrow> if draft_written (bd_drafts b) d then [T_Leftovers dir journals] else []
      | _ \<Rightarrow> [])"

lemma mark_leftovers_drafts:
  "bd_drafts (mark_leftovers b) = map (\<lambda>d. d\<lparr>dr_up := dr_up d @ leftover_marks b d\<rparr>) (bd_drafts b)"
  by (auto simp: mark_leftovers_def leftover_marks_def intro!: map_idI split: option.split)

lemma mark_leftovers_targets:
  "mset (draft_targets (bd_drafts (mark_leftovers b)))
   = mset (draft_targets (bd_drafts b)) + mset (concat (map (leftover_marks b) (bd_drafts b)))"
proof -
  have "mset (concat (map (\<lambda>d. own_targets (d\<lparr>dr_up := dr_up d @ leftover_marks b d\<rparr>)) ds))
      = mset (concat (map own_targets ds)) + mset (concat (map (leftover_marks b) ds))" for ds
    by (induction ds) (simp_all add: own_targets_def)
  then show ?thesis by (simp add: mark_leftovers_drafts draft_targets_def o_def)
qed

text \<open>The drafts a walk begins with.\<close>

lemma linked_result:
  assumes ok: "builder_ok b"
  shows "\<exists>b'. builder_link b = Some b' \<and> bd_leftovers b' = bd_leftovers b
    \<and> mset (draft_targets (bd_drafts (mark_leftovers b')))
        = mset (draft_targets (bd_drafts b)) + mset (concat (map (leftover_marks b') (bd_drafts b')))
    \<and> map dr_parent (bd_drafts (mark_leftovers b')) = map (linked_parent (bd_paths b)) (bd_drafts b)
    \<and> map dr_down (bd_drafts (mark_leftovers b')) = map dr_down (bd_drafts b)
    \<and> (\<forall>i < length (bd_drafts b). set (dr_up (bd_drafts b ! i)) \<subseteq> set (dr_up (bd_drafts (mark_leftovers b') ! i)))
    \<and> draft_forest (link_rank (bd_drafts b)) (bd_drafts (mark_leftovers b'))
    \<and> refs_inside (bd_drafts (mark_leftovers b'))"
proof -
  from builder_link_forest [OF ok] obtain b' where b': "builder_link b = Some b'"
    "draft_forest (link_rank (bd_drafts b)) (bd_drafts b')" "map draft_contents (bd_drafts b') = map draft_contents (bd_drafts b)"
    "bd_leftovers b' = bd_leftovers b" "map dr_parent (bd_drafts b') = map (linked_parent (bd_paths b)) (bd_drafts b)" by blast
  let ?ds = "bd_drafts (mark_leftovers b')"
  have len: "length ?ds = length (bd_drafts b)" "length (bd_drafts b') = length (bd_drafts b)"
    using length_same [OF b'(3)] by (simp_all add: mark_leftovers_drafts)
  have f: "draft_forest (link_rank (bd_drafts b)) ?ds"
    by (rule draft_forest_shape [OF _ _ b'(2)]) (simp_all add: mark_leftovers_drafts o_def)
  have content: "draft_contents (bd_drafts b' ! i) = draft_contents (bd_drafts b ! i)" if "i < length (bd_drafts b)" for i
    using nth_same [OF b'(3), of i] that len by simp
  have "refs_inside ?ds"
    unfolding refs_inside_def len
  proof (intro allI impI ballI)
    fix h t
    assume h: "h < length (bd_drafts b)" and t: "t \<in> set (dr_refers (?ds ! h) @ dr_up_refers (?ds ! h))"
    from builder_okD(5) [OF ok h] content [OF h] t h show "t < length (bd_drafts b)"
      by (auto simp: mark_leftovers_drafts len draft_ok_def draft_contents_def)
  qed
  moreover have "map dr_parent ?ds = map (linked_parent (bd_paths b)) (bd_drafts b)"
    using b'(5) by (simp add: mark_leftovers_drafts o_def)
  moreover have "map dr_down ?ds = map dr_down (bd_drafts b)"
  proof (rule nth_equalityI)
    fix i
    assume "i < length (map dr_down ?ds)"
    with content [of i] show "map dr_down ?ds ! i = map dr_down (bd_drafts b) ! i"
      by (simp add: len mark_leftovers_drafts draft_contents_def)
  qed (simp add: len)
  moreover have "\<forall>i < length (bd_drafts b). set (dr_up (bd_drafts b ! i)) \<subseteq> set (dr_up (?ds ! i))"
    using content by (auto simp: mark_leftovers_drafts len draft_contents_def)
  moreover have "mset (draft_targets ?ds) = mset (draft_targets (bd_drafts b)) + mset (concat (map (leftover_marks b') (bd_drafts b')))"
    using mark_leftovers_targets [of b'] draft_targets_contents [OF b'(3)] by simp
  ultimately show ?thesis using f b'(1,4) by (intro exI [of _ b']) simp
qed

lemma finish_result:
  assumes ok: "builder_ok b"
  shows "\<exists>b' cs w. builder_link b = Some b' \<and> builder_finish b = Some cs \<and> wk_checks w = cs
    \<and> mset (map ck_target cs) = mset (draft_targets (bd_drafts b)) + mset (concat (map (leftover_marks b') (bd_drafts b')))
    \<and> bd_leftovers b' = bd_leftovers b \<and> waits_earlier cs
    \<and> map dr_parent (bd_drafts (mark_leftovers b')) = map (linked_parent (bd_paths b)) (bd_drafts b)
    \<and> map dr_down (bd_drafts (mark_leftovers b')) = map dr_down (bd_drafts b)
    \<and> draft_forest (link_rank (bd_drafts b)) (bd_drafts (mark_leftovers b'))
    \<and> checked (bd_drafts (mark_leftovers b')) {..<length (bd_drafts b)} w"
proof -
  from linked_result [OF ok] obtain b' where b': "builder_link b = Some b'" "bd_leftovers b' = bd_leftovers b"
    "mset (draft_targets (bd_drafts (mark_leftovers b')))
        = mset (draft_targets (bd_drafts b)) + mset (concat (map (leftover_marks b') (bd_drafts b')))"
    "map dr_parent (bd_drafts (mark_leftovers b')) = map (linked_parent (bd_paths b)) (bd_drafts b)"
    "map dr_down (bd_drafts (mark_leftovers b')) = map dr_down (bd_drafts b)"
    "draft_forest (link_rank (bd_drafts b)) (bd_drafts (mark_leftovers b'))"
    "refs_inside (bd_drafts (mark_leftovers b'))" by blast
  let ?ds = "bd_drafts (mark_leftovers b')"
  have len: "length ?ds = length (bd_drafts b)" using b'(4) by (metis length_map)
  from walk_result [OF b'(6,7)] obtain w where w: "visit (2 * length ?ds) (walk_start ?ds) = Some w"
    "mset (map ck_target (wk_checks w)) = mset (draft_targets ?ds)" "waits_earlier (wk_checks w)"
    "checked ?ds {..<length ?ds} w" by blast
  have "builder_finish b = Some (wk_checks w)" using b'(1) w(1) by (simp add: builder_finish_def Let_def)
  with b' w show ?thesis unfolding len by (intro exI [of _ b'] exI [of _ "wk_checks w"] exI [of _ w]) simp
qed

section \<open>Nearest declared paths\<close>

definition declared_at :: "builder \<Rightarrow> path \<Rightarrow> target option" where
  "declared_at b p = Option.bind (map_of (bd_paths b) p) (\<lambda>h. dr_down (bd_drafts b ! h))"

lemma nearest_path:
  assumes ok: "builder_ok b"
    and ds: "map dr_parent ds = map (linked_parent (bd_paths b)) (bd_drafts b)" "map dr_down ds = map dr_down (bd_drafts b)"
    and q: "map_of (bd_paths b) q = Some u" "declared_at b q \<noteq> None"
  shows "map_of (bd_paths b) a = Some g \<Longrightarrow> prefix q a
    \<Longrightarrow> (\<And>e. prefix e a \<Longrightarrow> declared_at b e \<noteq> None \<Longrightarrow> prefix e q)
    \<Longrightarrow> nearest_down ds (own_table ds) n (Some g) = Some x \<Longrightarrow> x = Some u"
proof (induction n arbitrary: a g)
  case (Suc n)
  have g: "g < length (bd_drafts b)" "dr_path (bd_drafts b ! g) = Some a"
    using Suc.prems(1) builder_okD(4) [OF ok] by auto
  have len: "length ds = length (bd_drafts b)" using ds(1) by (metis length_map)
  have down: "dr_down (ds ! g) = dr_down (bd_drafts b ! g)" using nth_same [OF ds(2)] g(1) len by simp
  have decl: "declared_at b a = dr_down (bd_drafts b ! g)" using Suc.prems(1) by (simp add: declared_at_def)
  show ?case
  proof (cases "dr_down (bd_drafts b ! g)")
    case (Some t)
    then have "prefix a q" using Suc.prems(3) [of a] decl by simp
    with Suc.prems(2) have "a = q" by (rule prefix_order.antisym [rotated])
    with Suc.prems(1,4) q(1) Some down g(1) len show ?thesis by (simp add: own_table_nth)
  next
    case None
    with decl q(2) Suc.prems(2) have sp: "strict_prefix q a" by (auto simp: strict_prefix_def)
    then have "a \<noteq> []" by auto
    have "dr_parent (ds ! g) = linked_parent (bd_paths b) (bd_drafts b ! g)"
      using arg_cong [OF ds(1), of "\<lambda>xs. xs ! g"] g(1) len by simp
    then have par: "dr_parent (ds ! g) = Some (path_above (bd_paths b) a)"
      using g(2) \<open>a \<noteq> []\<close> by (simp add: linked_parent_def)
    from path_above_longest [OF ok sp] q(1) obtain c
      where c: "map_of (bd_paths b) c = Some (path_above (bd_paths b) a)" "prefix q c" "strict_prefix c a" by auto
    have "nearest_down ds (own_table ds) n (Some (path_above (bd_paths b) a)) = Some x"
      using Suc.prems(4) None down par g(1) len by (simp add: own_table_nth)
    moreover have "prefix e q" if "prefix e c" "declared_at b e \<noteq> None" for e
      using that Suc.prems(3) [of e] c(3) by (auto simp: strict_prefix_def)
    ultimately show ?thesis using Suc.IH [OF c(1,2)] by blast
  qed
qed simp

lemma path_check_waits:
  assumes ok: "builder_ok b"
    and p: "declared_at b p = Some t" and q: "declared_at b q = Some s" "strict_prefix q p"
    and nearest: "\<And>a. strict_prefix a p \<Longrightarrow> declared_at b a \<noteq> None \<Longrightarrow> prefix a q"
  shows "\<exists>cs i k. builder_finish b = Some cs \<and> i < length cs \<and> k < i
    \<and> ck_target (cs ! i) = t \<and> ck_phase (cs ! i) = Phase_Down \<and> ck_target (cs ! k) = s \<and> ck_phase (cs ! k) = Phase_Down
    \<and> k \<in> set (ck_after (cs ! i))"
proof -
  from finish_result [OF ok] obtain b' cs w where cs: "builder_finish b = Some cs" "wk_checks w = cs" "waits_earlier cs"
    "map dr_parent (bd_drafts (mark_leftovers b')) = map (linked_parent (bd_paths b)) (bd_drafts b)"
    "map dr_down (bd_drafts (mark_leftovers b')) = map dr_down (bd_drafts b)"
    "draft_forest (link_rank (bd_drafts b)) (bd_drafts (mark_leftovers b'))"
    "checked (bd_drafts (mark_leftovers b')) {..<length (bd_drafts b)} w" by blast
  let ?ds = "bd_drafts (mark_leftovers b')"
  have len: "length ?ds = length (bd_drafts b)" using cs(4) by (metis length_map)
  from p obtain h where h: "map_of (bd_paths b) p = Some h" "dr_down (bd_drafts b ! h) = Some t"
    by (auto simp: declared_at_def bind_eq_Some_conv)
  from q obtain u where u: "map_of (bd_paths b) q = Some u" "dr_down (bd_drafts b ! u) = Some s"
    by (auto simp: declared_at_def bind_eq_Some_conv)
  have hn: "h < length (bd_drafts b)" "dr_path (bd_drafts b ! h) = Some p" and un: "u < length (bd_drafts b)"
    using h(1) u(1) builder_okD(4) [OF ok] by auto
  have down: "dr_down (?ds ! v) = dr_down (bd_drafts b ! v)" if "v < length (bd_drafts b)" for v
    using nth_same [OF cs(5), of v] that len by simp
  have "p \<noteq> []" using q(2) by auto
  have "dr_parent (?ds ! h) = linked_parent (bd_paths b) (bd_drafts b ! h)"
    using arg_cong [OF cs(4), of "\<lambda>xs. xs ! h"] hn(1) len by simp
  then have par: "dr_parent (?ds ! h) = Some (path_above (bd_paths b) p)"
    using hn(2) \<open>p \<noteq> []\<close> by (simp add: linked_parent_def)
  from nearest_of_ranked [of _ ?ds h] cs(6) hn(1) len obtain x
    where x: "nearest_down ?ds (own_table ?ds) (length ?ds) (dr_parent (?ds ! h)) = Some x" by (auto simp: draft_forest_def)
  from path_above_longest [OF ok q(2)] u(1) obtain c
    where c: "map_of (bd_paths b) c = Some (path_above (bd_paths b) p)" "prefix q c" "strict_prefix c p" by auto
  have "prefix e q" if "prefix e c" "declared_at b e \<noteq> None" for e
    using nearest [of e] that c(3) by (auto intro: prefix_order.le_less_trans)
  then have "x = Some u"
    using nearest_path [OF ok cs(4,5) u(1) _ c(1,2)] q(1) x par by simp
  then have near: "nearest_declared ?ds h = Some (Some u)" using x by (simp add: nearest_declared_def)
  have "\<exists>k < length cs. wk_down_at w ! v = Some k \<and> ck_target (cs ! k) = e \<and> ck_phase (cs ! k) = Phase_Down
      \<and> (\<forall>u. nearest_declared ?ds v = Some (Some u) \<longrightarrow> (\<exists>m. wk_down_at w ! u = Some m \<and> m \<in> set (ck_after (cs ! k))))"
    if "v < length (bd_drafts b)" "dr_down (bd_drafts b ! v) = Some e" for v e
    using cs(7) that down [OF that(1)] unfolding checked_def cs(2) by (metis lessThan_iff)
  from this [OF hn(1) h(2)] this [OF un u(2)] near obtain i k where ik: "i < length cs" "ck_target (cs ! i) = t"
    "ck_phase (cs ! i) = Phase_Down" "k \<in> set (ck_after (cs ! i))" "ck_target (cs ! k) = s" "ck_phase (cs ! k) = Phase_Down"
    by fastforce
  moreover have "k < i" using cs(3) ik(1,4) by (auto simp: waits_earlier_def waits_on_def)
  ultimately show ?thesis using cs(1) by blast
qed

end
