(* ===== verification/Desired.thy ===== *)
theory Desired
  imports Check_Tree_Walk
begin

text \<open>
  What mix wants of a machine: the tree of checks for an intent (\<open>tree_for\<close> and \<open>user_tree\<close> of
  \<open>core/src/declared/targets.rs\<close>), built with the operations of the tree's builder, which is passed
  along. The list a new user starts from is printed as JSON by third-party code, the argument
  \<open>pretty\<close>.
\<close>

section \<open>Intents\<close>

datatype reach = Reach_Machine | Reach_User

record user_config =
  uc_user :: invoking_user
  uc_pins :: "locked_input pins"
  uc_flake :: string
  uc_lock :: string
  uc_home :: string
  uc_restored_state :: "string option"

record intent =
  it_policy :: policy
  it_user :: "user_config option"
  it_reach :: reach
  it_runtime :: "runtime option"
  it_activating :: "(verb \<times> string) option"
  it_retention :: "bool option"
  it_tidy :: bool

definition intent_machine :: "user_config option \<Rightarrow> policy \<Rightarrow> intent" where
  "intent_machine user policy =
     \<lparr>it_policy = policy, it_user = user, it_reach = Reach_Machine, it_runtime = None, it_activating = None,
      it_retention = None, it_tidy = True\<rparr>"

definition intent_user :: "user_config \<Rightarrow> policy \<Rightarrow> intent" where
  "intent_user user policy = (intent_machine (Some user) policy)\<lparr>it_reach := Reach_User, it_tidy := False\<rparr>"

definition STATES :: string where "STATES = ''.local/state''"
definition USER_PARENTS :: "string list" where "USER_PARENTS = [''.local'', STATES, ''.local/state/nix'']"
definition USER_PARENT_BITS :: u32 where "USER_PARENT_BITS = 0x1C0"
definition REPOSITORY_DIRS :: "string list" where "REPOSITORY_DIRS = [''objects'', ''refs'']"

section \<open>The tree of a user\<close>

definition put_path :: "path \<times> target \<Rightarrow> builder \<Rightarrow> builder" where
  "put_path pt b = fst (builder_path b (fst pt) (snd pt))"

definition user_file :: "path \<Rightarrow> owner_of \<Rightarrow> string \<Rightarrow> string \<Rightarrow> path \<times> target" where
  "user_file state_dir owner name expected =
     (let p = path_join state_dir name in (p, T_File p (Some expected) USER_FILE owner))"

definition user_parent :: "path \<Rightarrow> owner_of \<Rightarrow> string \<Rightarrow> path \<times> target" where
  "user_parent base owner name =
     (let p = path_join base name in (p, T_Parent p (AtLeast USER_PARENT_BITS) owner))"

definition user_parents :: "path \<Rightarrow> owner_of \<Rightarrow> builder \<Rightarrow> builder \<times> handle option" where
  "user_parents home owner b =
     fold (\<lambda>name (b, states).
        let (p, t) = user_parent home owner name; (b, h) = builder_path b p t
        in (b, if name = STATES then Some h else states)) USER_PARENTS (b, None)"

definition state_target :: "(state_manifest \<Rightarrow> string) \<Rightarrow> path \<Rightarrow> owner_of \<Rightarrow> user_config \<Rightarrow> path \<times> target" where
  "state_target pretty state_dir owner cfg =
     (case uc_restored_state cfg of
        Some restored \<Rightarrow> user_file state_dir owner STATE_FILE restored
      | None \<Rightarrow>
          let p = path_join state_dir STATE_FILE
          in (p, T_SeededFile p (manifest_render pretty manifest_seed) USER_FILE owner))"

definition deferred_targets :: "bool \<Rightarrow> path \<Rightarrow> invoking_user \<Rightarrow> owner_of \<Rightarrow> target list" where
  "deferred_targets tidy repository user owner =
     [T_Repository repository user,
      T_File (path_join repository REPOSITORY_CONFIG) (Some REPOSITORY_CONFIG_CONTENTS) USER_FILE owner]
     @ map (\<lambda>name. snd (user_parent repository owner name)) REPOSITORY_DIRS
     @ (if tidy then [T_Leftovers repository JOURNAL_DIR] else [])
     @ [T_History repository user]"

text \<open>The places of a user in the order they are declared, after the parents of the state directory.\<close>

definition user_places :: "(state_manifest \<Rightarrow> string) \<Rightarrow> user_config \<Rightarrow> (path \<times> target) list" where
  "user_places pretty cfg =
     (let user = uc_user cfg; state_dir = mix_state_dir (iu_home user); profiles_dir = nix_profiles_dir (iu_home user);
          owner = Some (iu_uid user, iu_gid user)
      in [(state_dir, T_Directory state_dir (Exact MIX_STATE_DIR_MODE) owner),
          user_file state_dir owner HOME_NIX (uc_home cfg), user_file state_dir owner FLAKE_NIX (uc_flake cfg),
          user_file state_dir owner FLAKE_LOCK (uc_lock cfg), user_file state_dir owner GITIGNORE GITIGNORE_CONTENTS,
          state_target pretty state_dir owner cfg,
          (profiles_dir, T_Directory profiles_dir (Exact NIX_PROFILES_DIR_MODE) owner)])"

definition user_above :: "intent \<Rightarrow> user_config \<Rightarrow> handle \<Rightarrow> handle \<Rightarrow> builder \<Rightarrow> builder" where
  "user_above intent cfg at link b =
     (let user = uc_user cfg; home = iu_home user; owner = Some (iu_uid user, iu_gid user);
          b = builder_up_refers b at link;
          (verb, subject) = (case it_activating intent of Some (v, s) \<Rightarrow> (Some v, s) | None \<Rightarrow> (None, []))
      in fold (\<lambda>t b. builder_up b at t)
           (T_Activation home user verb subject (uc_pins cfg)
            # deferred_targets (it_tidy intent) (path_join (mix_state_dir home) GIT_DIR) user owner) b)"

definition user_profile :: "intent \<Rightarrow> user_config \<Rightarrow> builder \<Rightarrow> builder" where
  "user_profile intent cfg b =
     (let user = uc_user cfg; generations = path_join (nix_profiles_dir (iu_home user)) HOME_MANAGER_PROFILE_NAME;
          (b, profile) = (if it_tidy intent then builder_path b generations (T_Generations generations user)
                          else builder_place b generations)
      in case it_retention intent of
           Some collect \<Rightarrow> builder_up b profile (T_Retention generations user collect)
         | None \<Rightarrow> b)"

definition user_tree ::
  "(state_manifest \<Rightarrow> string) \<Rightarrow> builder \<Rightarrow> intent \<Rightarrow> user_config \<Rightarrow> handle \<Rightarrow> builder" where
  "user_tree pretty b intent cfg members =
     (let user = uc_user cfg; home = iu_home user;
          (b, _) = builder_account b (Some members) (T_GroupMember MIX_USERS_GROUP (iu_name user));
          (b, home_node) = builder_path b home (T_Precondition home);
          b = builder_up b home_node (T_HomeFiles home user);
          profile_link = path_join home NIX_PROFILE_LINK;
          (b, link) = builder_path b profile_link (T_Link profile_link);
          (b, states) = user_parents home (Some (iu_uid user, iu_gid user)) b;
          b = user_profile intent cfg (fold put_path (user_places pretty cfg) b)
      in case states of None \<Rightarrow> b | Some at \<Rightarrow> user_above intent cfg at link b)"

section \<open>The tree of a machine\<close>

definition precondition_at :: "string \<Rightarrow> path \<times> target" where
  "precondition_at s = (components s, T_Precondition (components s))"

definition parent_at :: "u32 \<Rightarrow> path \<Rightarrow> path \<times> target" where
  "parent_at bits p = (p, T_Parent p (AtLeast bits) ROOT_OWNER)"

definition file_place :: "path \<Rightarrow> string \<Rightarrow> path \<times> target" where
  "file_place p expected = (p, T_File p (Some expected) SYSTEM_FILE ROOT_OWNER)"

definition directory_at :: "path \<Rightarrow> u32 \<Rightarrow> owner_of \<Rightarrow> path \<times> target" where
  "directory_at p m owner = (p, T_Directory p (Exact m) owner)"

definition UNITS :: "(string \<times> unit_source \<times> path) list" where
  "UNITS =
     [(NIX_DAEMON_SERVICE_UNIT, Source_File NIX_DAEMON_SERVICE_SRC, NIX_DAEMON_SERVICE_DEST),
      (NIX_DAEMON_SOCKET_UNIT, Source_File NIX_DAEMON_SOCKET_SRC, NIX_DAEMON_SOCKET_DEST),
      (MIX_DAEMON_SERVICE_UNIT, Source_Text MIX_DAEMON_SERVICE, MIX_DAEMON_SERVICE_DEST),
      (MIX_DAEMON_SOCKET_UNIT, Source_Text MIX_DAEMON_SOCKET, MIX_DAEMON_SOCKET_DEST)]"

definition put_unit :: "handle \<Rightarrow> handle \<Rightarrow> string \<times> unit_source \<times> path \<Rightarrow> builder \<Rightarrow> builder" where
  "put_unit runtime program u b =
     (case u of (name, src, dest) \<Rightarrow>
        let (b, h) = builder_path b dest (T_SystemdUnit name src dest)
        in case src of
             Source_File _ \<Rightarrow> builder_refers b h runtime
           | Source_Text _ \<Rightarrow> if name = MIX_DAEMON_SERVICE_UNIT then builder_refers b h program else b)"

definition put_user :: "handle \<Rightarrow> u32 \<Rightarrow> builder \<Rightarrow> builder" where
  "put_user nixbld n b = fst (builder_account b (Some nixbld) (T_User n (NIXBLD_UID_BASE + n) NIXBLD_GID))"

text \<open>The first part of \<open>tree_for\<close> for a machine is its accounts, the second its places.\<close>

definition machine_accounts :: "builder \<Rightarrow> builder \<times> handle" where
  "machine_accounts b =
     (let (b, nixbld) = builder_account b None (T_Group NIXBLD_GROUP NIXBLD_GID);
          b = fold (put_user nixbld) (map of_nat [1..<Suc (unat NIXBLD_USER_COUNT)]) b
      in builder_account b None (T_Group MIX_USERS_GROUP MIX_USERS_GID))"

definition STORE_PLACES :: "(path \<times> target) list" where
  "STORE_PLACES =
     directory_at (components ''/nix'') 0x1ED ROOT_OWNER
     # directory_at NIX_STORE 0x3FD (Some (0, NIXBLD_GID))
     # map (\<lambda>p. directory_at p NIX_TREE_MODE ROOT_OWNER) NIX_TREE_PATHS
     @ [file_place NIX_OWNERSHIP_MARKER []]"

definition VAR_PLACES :: "(path \<times> target) list" where
  "VAR_PLACES =
     [precondition_at ''/var'', precondition_at ''/var/lib'', directory_at NIXBLD_HOME NIXBLD_HOME_MODE ROOT_OWNER]
     @ map (parent_at MIX_VAR_DIR_MODE) [MIX_VAR_DIR, MIX_BIN_DIR]"

definition etc_places :: "policy \<Rightarrow> (path \<times> target) list" where
  "etc_places policy =
     [(JOURNAL_DIR, T_Journals JOURNAL_DIR), precondition_at ''/etc'']
     @ map (\<lambda>s. parent_at 0x1ED (components s)) [''/etc/mix'', ''/etc/nix'', ''/etc/profile.d'']
     @ [file_place POLICY_FILE (policy_rendered policy), file_place NIX_CONF_DEST (policy_nix_conf policy),
        file_place PROFILE_SNIPPET_DEST PROFILE_SNIPPET, precondition_at ''/etc/systemd'']"

definition machine_places :: "intent \<Rightarrow> builder \<Rightarrow> builder" where
  "machine_places intent b =
     (let b = fold put_path STORE_PLACES b;
          (b, runtime) = builder_path b DEFAULT_PROFILE_NIX_ENV
             (T_PathExists ''default profile'' DEFAULT_PROFILE_NIX_ENV (it_runtime intent));
          b = fold put_path VAR_PLACES b;
          (b, program) = builder_path b MIX_DAEMON_BIN
             (T_Program MIX_DAEMON_BIN RUNNING_PROGRAM (Exact MIX_DAEMON_BIN_MODE));
          b = fold put_path (etc_places (it_policy intent)) b;
          (b, unit_dir) = builder_path b SYSTEMD_UNIT_DIR (T_Precondition SYSTEMD_UNIT_DIR);
          b = fold (put_unit runtime program) UNITS b
      in fold (\<lambda>name b. builder_up b unit_dir (T_UnitActive name))
           [NIX_DAEMON_SOCKET_UNIT, MIX_DAEMON_SOCKET_UNIT, MIX_DAEMON_SERVICE_UNIT] b)"

definition intent_builder :: "(state_manifest \<Rightarrow> string) \<Rightarrow> intent \<Rightarrow> builder" where
  "intent_builder pretty intent =
     (let b = builder_new (if it_tidy intent then Some JOURNAL_DIR else None);
          (b, members) =
            (if it_reach intent = Reach_User then builder_account b None (T_Group MIX_USERS_GROUP MIX_USERS_GID)
             else let (b, members) = machine_accounts b in (machine_places intent b, members))
      in case it_user intent of
           Some cfg \<Rightarrow> user_tree pretty b intent cfg members
         | None \<Rightarrow> b)"

definition tree_for :: "(state_manifest \<Rightarrow> string) \<Rightarrow> intent \<Rightarrow> check list option" where
  "tree_for pretty intent = builder_finish (intent_builder pretty intent)"

section \<open>Every intent builds a builder\<close>

lemma handles_stay:
  "length (bd_drafts b) \<le> length (bd_drafts (fst (builder_path b p t)))"
  "length (bd_drafts b) \<le> length (bd_drafts (fst (builder_place b p)))"
  "length (bd_drafts b) \<le> length (bd_drafts (fst (builder_account b q t)))"
  "length (bd_drafts (builder_up b h t)) = length (bd_drafts b)"
  "length (bd_drafts (builder_refers b h h')) = length (bd_drafts b)"
  "length (bd_drafts (builder_up_refers b h h')) = length (bd_drafts b)"
  by (simp_all add: builder_path_def builder_place_def push_path_def builder_account_def builder_up_def
      builder_refers_def builder_up_refers_def Let_def split: option.split)

lemma handles_new:
  "builder_ok b \<Longrightarrow> snd (builder_path b p t) < length (bd_drafts (fst (builder_path b p t)))"
  "builder_ok b \<Longrightarrow> snd (builder_place b p) < length (bd_drafts (fst (builder_place b p)))"
  "snd (builder_account b q t) < length (bd_drafts (fst (builder_account b q t)))"
  by (auto simp: builder_path_def builder_place_def push_path_def builder_account_def Let_def
      dest: builder_okD(4) split: option.split)

text \<open>What a step leaves: a builder, in which the handles from before are still handles.\<close>

definition grown :: "builder \<Rightarrow> builder \<Rightarrow> bool" where
  "grown b0 b \<longleftrightarrow> builder_ok b \<and> length (bd_drafts b0) \<le> length (bd_drafts b)"

lemma grown_refl: "builder_ok b \<Longrightarrow> grown b b"
  by (simp add: grown_def)

lemma grown_handle: "grown b0 b \<Longrightarrow> h < length (bd_drafts b0) \<Longrightarrow> h < length (bd_drafts b)"
  by (simp add: grown_def)

lemma grown_trans: "grown b0 b \<Longrightarrow> grown b b' \<Longrightarrow> grown b0 b'"
  by (simp add: grown_def)

lemma fold_grown: "(\<And>x b. x \<in> set xs \<Longrightarrow> grown b0 b \<Longrightarrow> grown b0 (f x b)) \<Longrightarrow> grown b0 b \<Longrightarrow> grown b0 (fold f xs b)"
  by (induction xs arbitrary: b) auto

lemma put_path_grown: "grown b0 b \<Longrightarrow> grown b0 (put_path pt b)"
  using handles_stay(1) by (auto simp: grown_def put_path_def builder_path_ok intro: le_trans)

lemma put_paths_grown: "grown b0 b \<Longrightarrow> grown b0 (fold put_path pts b)"
  by (rule fold_grown [OF put_path_grown])

lemma up_grown: "grown b0 b \<Longrightarrow> grown b0 (builder_up b h t)"
  by (simp add: grown_def builder_up_ok handles_stay)

lemma ups_grown: "grown b0 b \<Longrightarrow> grown b0 (fold (\<lambda>x b. builder_up b h (t x)) ts b)"
  by (rule fold_grown [OF up_grown])

lemma path_rule:
  assumes "grown b0 b" "\<And>b' h. grown b0 b' \<Longrightarrow> h < length (bd_drafts b') \<Longrightarrow> P (f b' h)"
  shows "P (case builder_path b p t of (b', h) \<Rightarrow> f b' h)"
proof -
  have "grown b0 (fst (builder_path b p t))" using put_path_grown [OF assms(1), of "(p, t)"] by (simp add: put_path_def)
  from assms(2) [OF this] handles_new(1) assms(1) show ?thesis by (simp add: grown_def case_prod_unfold)
qed

lemma account_rule:
  assumes "grown b0 b" "\<And>p. q = Some p \<Longrightarrow> p < length (bd_drafts b)"
    "\<And>b' h. grown b0 b' \<Longrightarrow> h < length (bd_drafts b') \<Longrightarrow> P (f b' h)"
  shows "P (case builder_account b q t of (b', h) \<Rightarrow> f b' h)"
proof -
  have "grown b0 (fst (builder_account b q t))"
    using assms(1,2) handles_stay(3) by (auto simp: grown_def builder_account_ok intro: le_trans)
  from assms(3) [OF this handles_new(3)] show ?thesis by (simp add: case_prod_unfold)
qed

lemma put_user_grown:
  assumes "grown b0 b" "h < length (bd_drafts b0)"
  shows "grown b0 (put_user h n b)"
  unfolding put_user_def grown_def
  using assms handles_stay(3) by (auto simp: grown_def intro: builder_account_ok le_trans)

lemma put_unit_grown:
  assumes b: "grown b0 b" "runtime < length (bd_drafts b)" "program < length (bd_drafts b)"
  shows "grown b (put_unit runtime program u b)"
proof (cases u)
  case (fields name src dest)
  have "grown b b" using b(1) by (simp add: grown_def)
  then show ?thesis
    unfolding put_unit_def fields prod.case Let_def
  proof (rule path_rule [where P = "grown b"])
    fix b' h
    assume b': "grown b b'"
    have "grown b (builder_refers b' h x)" if "x < length (bd_drafts b)" for x
      using b' grown_handle [OF b' that] by (simp add: grown_def builder_refers_ok handles_stay)
    with b(2,3) b' show "grown b (case src of Source_File x \<Rightarrow> builder_refers b' h runtime
        | Source_Text x \<Rightarrow> if name = MIX_DAEMON_SERVICE_UNIT then builder_refers b' h program else b')"
      by (simp split: unit_source.split)
  qed
qed

definition handled :: "builder \<times> handle \<Rightarrow> bool" where
  "handled r \<longleftrightarrow> builder_ok (fst r) \<and> snd r < length (bd_drafts (fst r))"

lemma account_handled:
  "builder_ok b \<Longrightarrow> handled (builder_account b None t)"
  using handles_new(3) builder_account_ok [of b None t] by (simp add: handled_def)

lemma machine_accounts_handled:
  assumes "builder_ok b"
  shows "handled (machine_accounts b)"
  unfolding machine_accounts_def Let_def
proof (rule account_rule [where P = handled, OF grown_refl [OF assms]], simp)
  fix b1 nixbld
  assume b1: "grown b b1" "nixbld < length (bd_drafts b1)"
  have "grown b1 (fold (put_user nixbld) (map of_nat [1..<Suc (unat NIXBLD_USER_COUNT)]) b1)"
    by (rule fold_grown [OF put_user_grown]) (use b1 in \<open>auto simp: grown_def\<close>)
  then show "handled (builder_account (fold (put_user nixbld) (map of_nat [1..<Suc (unat NIXBLD_USER_COUNT)]) b1)
      None (T_Group MIX_USERS_GROUP MIX_USERS_GID))"
    by (intro account_handled) (simp add: grown_def)
qed

lemma units_grown:
  "grown b0 b \<Longrightarrow> runtime < length (bd_drafts b) \<Longrightarrow> program < length (bd_drafts b)
   \<Longrightarrow> grown b0 (fold (put_unit runtime program) us b)"
proof (induction us arbitrary: b)
  case (Cons u us)
  from put_unit_grown [OF Cons.prems, of u] have "grown b (put_unit runtime program u b)" .
  with Cons grown_trans [OF Cons.prems(1) this] grown_handle [OF this] show ?case by simp
qed simp

lemma machine_places_grown:
  assumes "builder_ok b"
  shows "grown b (machine_places intent b)"
  unfolding machine_places_def Let_def
proof (rule path_rule [where P = "grown b", OF put_paths_grown [OF grown_refl [OF assms]]])
  fix b1 runtime
  assume b1: "grown b b1" "runtime < length (bd_drafts b1)"
  then have ok1: "builder_ok b1" by (simp add: grown_def)
  show "grown b (case builder_path (fold put_path VAR_PLACES b1) MIX_DAEMON_BIN
             (T_Program MIX_DAEMON_BIN RUNNING_PROGRAM (Exact MIX_DAEMON_BIN_MODE)) of (b, program) \<Rightarrow>
        (case builder_path (fold put_path (etc_places (it_policy intent)) b) SYSTEMD_UNIT_DIR (T_Precondition SYSTEMD_UNIT_DIR) of
          (b, unit_dir) \<Rightarrow> fold (\<lambda>name b. builder_up b unit_dir (T_UnitActive name))
           [NIX_DAEMON_SOCKET_UNIT, MIX_DAEMON_SOCKET_UNIT, MIX_DAEMON_SERVICE_UNIT] (fold (put_unit runtime program) UNITS b)))"
  proof (rule path_rule [where P = "grown b", OF put_paths_grown [OF grown_refl [OF ok1]]])
    fix b2 program
    assume b2: "grown b1 b2" "program < length (bd_drafts b2)"
    then have ok2: "builder_ok b2" by (simp add: grown_def)
    show "grown b (case builder_path (fold put_path (etc_places (it_policy intent)) b2) SYSTEMD_UNIT_DIR (T_Precondition SYSTEMD_UNIT_DIR) of
          (b, unit_dir) \<Rightarrow> fold (\<lambda>name b. builder_up b unit_dir (T_UnitActive name))
           [NIX_DAEMON_SOCKET_UNIT, MIX_DAEMON_SOCKET_UNIT, MIX_DAEMON_SERVICE_UNIT] (fold (put_unit runtime program) UNITS b))"
    proof (rule path_rule [where P = "grown b", OF put_paths_grown [OF grown_refl [OF ok2]]])
      fix b3 unit_dir
      assume b3: "grown b2 b3"
      have "grown b b3" by (rule grown_trans [OF grown_trans [OF b1(1) b2(1)] b3])
      moreover have "runtime < length (bd_drafts b3)" "program < length (bd_drafts b3)"
        using b1(2) b2 b3 by (auto simp: grown_def)
      ultimately have "grown b (fold (put_unit runtime program) UNITS b3)" by (rule units_grown)
      then show "grown b (fold (\<lambda>name b. builder_up b unit_dir (T_UnitActive name))
          [NIX_DAEMON_SOCKET_UNIT, MIX_DAEMON_SOCKET_UNIT, MIX_DAEMON_SERVICE_UNIT] (fold (put_unit runtime program) UNITS b3))"
        by (rule ups_grown)
    qed
  qed
qed

lemma user_parents_grown:
  assumes "builder_ok b"
  shows "grown b (fst (user_parents home owner b))"
    "snd (user_parents home owner b) = Some h \<Longrightarrow> h < length (bd_drafts (fst (user_parents home owner b)))"
proof -
  let ?f = "\<lambda>name (b, states). let (p, t) = user_parent home owner name; (b, h) = builder_path b p t
        in (b, if name = STATES then Some h else states)"
  have "grown b (fst (fold ?f ns (b', s))) \<and> (\<forall>h. snd (fold ?f ns (b', s)) = Some h \<longrightarrow> h < length (bd_drafts (fst (fold ?f ns (b', s)))))"
    if "grown b b'" "\<forall>h. s = Some h \<longrightarrow> h < length (bd_drafts b')" for ns b' s
    using that
  proof (induction ns arbitrary: b' s)
    case (Cons n ns)
    obtain p t where pt: "user_parent home owner n = (p, t)" by force
    obtain b1 h1 where b1: "builder_path b' p t = (b1, h1)" by force
    have "grown b b1" using put_path_grown [OF Cons.prems(1), of "(p, t)"] b1 by (simp add: put_path_def)
    moreover have "h1 < length (bd_drafts b1)" "length (bd_drafts b') \<le> length (bd_drafts b1)"
      using handles_new(1) [of b' p t] handles_stay(1) [of b' p t] Cons.prems(1) b1 by (simp_all add: grown_def)
    then have "\<forall>h. (if n = STATES then Some h1 else s) = Some h \<longrightarrow> h < length (bd_drafts b1)"
      using Cons.prems(2) by (auto dest: less_le_trans)
    ultimately show ?case using Cons.IH pt b1 by simp
  qed simp
  from this [OF grown_refl [OF assms], of None] show "grown b (fst (user_parents home owner b))"
    "snd (user_parents home owner b) = Some h \<Longrightarrow> h < length (bd_drafts (fst (user_parents home owner b)))"
    by (simp_all add: user_parents_def)
qed

lemma user_profile_grown:
  assumes "grown b0 b"
  shows "grown b0 (user_profile intent cfg b)"
proof -
  have "grown b0 (fst (builder_place b p))" for p
    using assms handles_stay(2) by (auto simp: grown_def builder_place_ok intro: le_trans)
  moreover have "grown b0 (fst (builder_path b p t))" for p t
    using put_path_grown [OF assms, of "(p, t)"] by (simp add: put_path_def)
  ultimately show ?thesis by (auto simp: user_profile_def Let_def case_prod_unfold up_grown split: option.split)
qed

lemma user_above_ok:
  assumes "grown b0 b" "link < length (bd_drafts b)"
  shows "grown b0 (user_above intent cfg at link b)"
proof -
  have "grown b0 (builder_up_refers b at link)"
    using assms by (simp add: grown_def builder_up_refers_ok handles_stay)
  then show ?thesis by (simp add: user_above_def Let_def case_prod_unfold up_grown ups_grown del: fold_simps)
qed

lemma user_tree_ok:
  assumes "builder_ok b" "members < length (bd_drafts b)"
  shows "builder_ok (user_tree pretty b intent cfg members)"
  unfolding user_tree_def Let_def
proof (rule account_rule [where P = builder_ok, OF grown_refl [OF assms(1)]])
  show "\<And>p. Some members = Some p \<Longrightarrow> p < length (bd_drafts b)" using assms(2) by simp
  let ?u = "uc_user cfg"
  let ?rest = "\<lambda>b2 link. case user_parents (iu_home ?u) (Some (iu_uid ?u, iu_gid ?u)) b2 of (b, states) \<Rightarrow>
      (case states of None \<Rightarrow> user_profile intent cfg (fold put_path (user_places pretty cfg) b)
       | Some at \<Rightarrow> user_above intent cfg at link (user_profile intent cfg (fold put_path (user_places pretty cfg) b)))"
  have rest: "builder_ok (?rest b2 link)" if b2: "builder_ok b2" "link < length (bd_drafts b2)" for b2 link
  proof -
    obtain b3 states where up: "user_parents (iu_home ?u) (Some (iu_uid ?u, iu_gid ?u)) b2 = (b3, states)" by force
    from user_parents_grown(1) [OF b2(1), of "iu_home ?u" "Some (iu_uid ?u, iu_gid ?u)"] up have "grown b2 b3" by simp
    then have g: "grown b2 (user_profile intent cfg (fold put_path (user_places pretty cfg) b3))"
      by (intro user_profile_grown put_paths_grown)
    with user_above_ok [OF g] grown_handle [OF g b2(2)] up show ?thesis by (auto simp: grown_def split: option.split)
  qed
  fix b1 h1
  assume "grown b b1"
  then have ok1: "builder_ok b1" by (simp add: grown_def)
  show "builder_ok (case builder_path b1 (iu_home ?u) (T_Precondition (iu_home ?u)) of (b, home_node) \<Rightarrow>
      (case builder_path (builder_up b home_node (T_HomeFiles (iu_home ?u) ?u)) (path_join (iu_home ?u) NIX_PROFILE_LINK)
          (T_Link (path_join (iu_home ?u) NIX_PROFILE_LINK)) of (b, link) \<Rightarrow> ?rest b link))"
  proof (rule path_rule [where P = builder_ok, OF grown_refl [OF ok1]])
    fix b2 home_node
    assume "grown b1 b2"
    then have "builder_ok (builder_up b2 home_node (T_HomeFiles (iu_home ?u) ?u))" by (simp add: grown_def builder_up_ok)
    then show "builder_ok (case builder_path (builder_up b2 home_node (T_HomeFiles (iu_home ?u) ?u))
        (path_join (iu_home ?u) NIX_PROFILE_LINK) (T_Link (path_join (iu_home ?u) NIX_PROFILE_LINK)) of (b, link) \<Rightarrow> ?rest b link)"
      by (rule path_rule [where P = builder_ok, OF grown_refl]) (auto simp: grown_def intro!: rest)
  qed
qed

lemma user_part_ok:
  "handled r \<Longrightarrow> builder_ok (case r of (b, members) \<Rightarrow>
     case user of Some cfg \<Rightarrow> user_tree pretty b intent cfg members | None \<Rightarrow> b)"
  by (cases r) (auto simp: handled_def user_tree_ok split: option.split)

theorem intent_builder_ok: "builder_ok (intent_builder pretty intent)"
proof -
  have new: "builder_ok (builder_new l)" for l by (rule builder_new_ok)
  have "handled (machine_places intent b, members)" if "machine_accounts (builder_new l) = (b, members)" for l b members
    using machine_accounts_handled [OF new, of l] machine_places_grown [of b intent] that
    by (auto simp: handled_def grown_def)
  then show ?thesis
    unfolding intent_builder_def Let_def
    by (intro user_part_ok) (auto simp: account_handled [OF new] split: prod.split)
qed

end
