(* ===== verification/Check_Tree_Up.thy ===== *)
theory Check_Tree_Up
  imports Check_Tree_Walk
begin

text \<open>
  Checks on the way up: a node is closed when everything below it was opened and closed, so the range
  a check on the way up encloses holds all checks below its node.
\<close>

section \<open>Below a node\<close>

definition parents :: "draft list \<Rightarrow> (handle \<times> handle) set" where
  "parents ds = {(a, b). a < length ds \<and> dr_parent (ds ! a) = Some b}"

lemma parents_one: "(a, b) \<in> parents ds \<Longrightarrow> (a, c) \<in> parents ds \<Longrightarrow> b = c"
  by (simp add: parents_def)

text \<open>Opened nodes have opened parents, so a node above an opened one is opened.\<close>

lemma opened_up:
  assumes w: "under_way ds V w"
  shows "(x, h) \<in> (parents ds)\<^sup>* \<Longrightarrow> x \<in> V \<Longrightarrow> h \<in> V"
proof (induction rule: rtrancl_induct)
  case (step y z)
  then show ?case using under_wayD(10) [OF w, of y] by (auto simp: parents_def)
qed

lemma pending_up:
  assumes w: "under_way ds V w" and x: "x \<in> set (waiting w)" and "(x, h) \<in> (parents ds)\<^sup>+"
  shows "h \<in> V"
proof -
  from assms(3) obtain y where y: "(x, y) \<in> parents ds" "(y, h) \<in> (parents ds)\<^sup>*" by (metis tranclD)
  then have "y \<in> V" using under_wayD(10) [OF w, of x] x by (auto simp: parents_def)
  with opened_up [OF w y(2)] show ?thesis .
qed

text \<open>On the way from an unopened node to an opened one there is a waiting node.\<close>

lemma pending_between:
  assumes w: "under_way ds V w" and "(x, h) \<in> (parents ds)\<^sup>*" "h \<in> V" "x \<notin> V"
  shows "\<exists>y \<in> set (waiting w). (y, h) \<in> (parents ds)\<^sup>*"
  using assms(2-4)
proof (induction rule: converse_rtrancl_induct)
  case (step x z)
  then show ?case
    using under_wayD(10) [OF w, of x]
    by (cases "z \<in> V") (auto simp: parents_def intro: converse_rtrancl_into_rtrancl)
qed simp

section \<open>What the stack keeps\<close>

fun stack_ordered :: "(handle \<times> handle) set \<Rightarrow> (handle \<times> nat option) list \<Rightarrow> bool" where
  "stack_ordered R [] = True"
| "stack_ordered R ((h, x) # rest) =
     ((x \<noteq> None \<longrightarrow> (\<forall>y. (y, None) \<in> set rest \<longrightarrow> (y, h) \<notin> R\<^sup>*)) \<and> stack_ordered R rest)"

lemma stack_ordered_push: "stack_ordered R (map (\<lambda>c. (c, None)) cs @ rest) = stack_ordered R rest"
  by (induction cs) simp_all

lemma in_waiting: "x \<in> set (waiting w) \<longleftrightarrow> (x, None) \<in> set (wk_stack w)"
  by (force simp: waiting_def)

definition up_checked :: "draft list \<Rightarrow> handle set \<Rightarrow> walk \<Rightarrow> handle \<Rightarrow> bool" where
  "up_checked ds V w v \<longleftrightarrow>
     (\<forall>x. (x, v) \<in> (parents ds)\<^sup>* \<longrightarrow> x \<in> V) \<and>
     (\<forall>t \<in> set (dr_up (ds ! v)). \<exists>i < length (wk_checks w).
        ck_target (wk_checks w ! i) = t \<and> ck_phase (wk_checks w ! i) = Phase_Up
        \<and> (\<forall>x k. (x, v) \<in> (parents ds)\<^sup>* \<longrightarrow> wk_down_at w ! x = Some k \<longrightarrow> k \<in> set (waits_on (wk_checks w ! i))))"

definition rising :: "draft list \<Rightarrow> handle set \<Rightarrow> walk \<Rightarrow> bool" where
  "rising ds V w \<longleftrightarrow>
     (\<forall>h o1. (h, Some o1) \<in> set (wk_stack w) \<longrightarrow> o1 \<le> length (wk_checks w) \<and>
        (\<forall>v \<in> V. (v, h) \<in> (parents ds)\<^sup>* \<longrightarrow> (\<forall>k. wk_down_at w ! v = Some k \<longrightarrow> o1 \<le> k))) \<and>
     stack_ordered (parents ds) (wk_stack w) \<and>
     (\<forall>j < length ds. j \<notin> V \<or> j \<in> set (opened w) \<longrightarrow> dr_up (wk_drafts w ! j) = dr_up (ds ! j)) \<and>
     (\<forall>v \<in> V. v \<in> set (opened w) \<or> up_checked ds V w v)"

lemma up_checks_each:
  "t \<in> set ts \<Longrightarrow> \<exists>i m. i < length (up_checks after o1 ts cs) \<and> length cs \<le> m \<and>
     up_checks after o1 ts cs ! i = \<lparr>ck_target = t, ck_phase = Phase_Up, ck_after = after, ck_within = (o1, m)\<rparr>"
proof (induction ts arbitrary: cs)
  case (Cons u ts)
  let ?c = "\<lparr>ck_target = u, ck_phase = Phase_Up, ck_after = after, ck_within = (o1, length cs)\<rparr>"
  show ?case
  proof (cases "t = u")
    case True
    obtain xs where "up_checks after o1 ts (cs @ [?c]) = (cs @ [?c]) @ xs" using up_checks_more by blast
    with True show ?thesis by (intro exI [of _ "length cs"]) (simp add: nth_append)
  next
    case False
    with Cons obtain i m where "i < length (up_checks after o1 ts (cs @ [?c]))" "length (cs @ [?c]) \<le> m"
      "up_checks after o1 ts (cs @ [?c]) ! i = \<lparr>ck_target = t, ck_phase = Phase_Up, ck_after = after, ck_within = (o1, m)\<rparr>"
      by fastforce
    then show ?thesis by (intro exI [of _ i] exI [of _ m]) simp
  qed
qed simp

lemma up_checked_more:
  assumes u: "up_checked ds V w v" and "wk_checks w' = wk_checks w @ xs" "V \<subseteq> V'"
    and "\<And>x. x \<in> V \<Longrightarrow> wk_down_at w' ! x = wk_down_at w ! x"
  shows "up_checked ds V' w' v"
  unfolding up_checked_def
proof (intro conjI ballI)
  show "\<forall>x. (x, v) \<in> (parents ds)\<^sup>* \<longrightarrow> x \<in> V'" using u assms(3) by (auto simp: up_checked_def)
  fix t
  assume "t \<in> set (dr_up (ds ! v))"
  with u obtain i where i: "i < length (wk_checks w)" "ck_target (wk_checks w ! i) = t" "ck_phase (wk_checks w ! i) = Phase_Up"
    "\<forall>x k. (x, v) \<in> (parents ds)\<^sup>* \<longrightarrow> wk_down_at w ! x = Some k \<longrightarrow> k \<in> set (waits_on (wk_checks w ! i))"
    unfolding up_checked_def by blast
  have "wk_down_at w' ! x = wk_down_at w ! x" if "(x, v) \<in> (parents ds)\<^sup>*" for x
    using that u assms(4) by (simp add: up_checked_def)
  with i show "\<exists>i < length (wk_checks w'). ck_target (wk_checks w' ! i) = t \<and> ck_phase (wk_checks w' ! i) = Phase_Up
      \<and> (\<forall>x k. (x, v) \<in> (parents ds)\<^sup>* \<longrightarrow> wk_down_at w' ! x = Some k \<longrightarrow> k \<in> set (waits_on (wk_checks w' ! i)))"
    by (intro exI [of _ i]) (simp add: assms(2) nth_append)
qed

section \<open>Closing and opening\<close>

lemma close_rising:
  assumes w: "under_way ds V w" and r: "rising ds V w" and db: "down_before w"
    and st: "wk_stack w = (h, Some o1) # rest"
  shows "rising ds V (close_node h o1 (w\<lparr>wk_stack := rest\<rparr>))"
proof -
  let ?w = "close_node h o1 (w\<lparr>wk_stack := rest\<rparr>)"
  note d = under_wayD [OF w]
  have w': "wk_stack ?w = rest" "wk_down_at ?w = wk_down_at w" "wk_drafts ?w = at_draft h (\<lambda>d. d\<lparr>dr_up := []\<rparr>) (wk_drafts w)"
    by (simp_all add: close_node_def Let_def)
  obtain after where cs: "wk_checks ?w = up_checks after o1 (dr_up (wk_drafts w ! h)) (wk_checks w)"
    by (simp add: close_node_def Let_def)
  obtain xs where more: "wk_checks ?w = wk_checks w @ xs" using up_checks_more cs by metis
  have o': "opened w = h # opened ?w" by (simp add: opened_def st w')
  have h: "h \<in> V" "h < length ds" using d(5,7) o' by auto
  have up: "dr_up (wk_drafts w ! h) = dr_up (ds ! h)" using r h(2) o' by (auto simp: rising_def)
  have inside: "x \<in> V" if x: "(x, h) \<in> (parents ds)\<^sup>*" for x
  proof (rule ccontr)
    assume "x \<notin> V"
    from pending_between [OF w x h(1) this] obtain y where "(y, None) \<in> set rest" "(y, h) \<in> (parents ds)\<^sup>*"
      by (auto simp: in_waiting st)
    with r st show False by (auto simp: rising_def)
  qed
  have closed: "up_checked ds V ?w h"
    unfolding up_checked_def
  proof (intro conjI ballI)
    fix t
    assume "t \<in> set (dr_up (ds ! h))"
    from up_checks_each [OF this [folded up], of after o1 "wk_checks w"] obtain i m where
      i: "i < length (wk_checks ?w)" "length (wk_checks w) \<le> m"
      "wk_checks ?w ! i = \<lparr>ck_target = t, ck_phase = Phase_Up, ck_after = after, ck_within = (o1, m)\<rparr>"
      unfolding cs by blast
    have "k \<in> set (waits_on (wk_checks ?w ! i))" if x: "(x, h) \<in> (parents ds)\<^sup>*" "wk_down_at w ! x = Some k" for x k
    proof -
      have "x \<in> V" by (rule inside [OF x(1)])
      then have "o1 \<le> k" using r st x by (auto simp: rising_def)
      moreover have "x < length (wk_down_at w)" using \<open>x \<in> V\<close> d(2,5) by auto
      then have "Some k \<in> set (wk_down_at w)" using x(2) nth_mem by metis
      then have "k < length (wk_checks w)" using db by (simp add: down_before_def)
      ultimately show ?thesis using i(2,3) by (simp add: waits_on_def)
    qed
    with i(1,3) show "\<exists>i < length (wk_checks ?w). ck_target (wk_checks ?w ! i) = t \<and> ck_phase (wk_checks ?w ! i) = Phase_Up
        \<and> (\<forall>x k. (x, h) \<in> (parents ds)\<^sup>* \<longrightarrow> wk_down_at ?w ! x = Some k \<longrightarrow> k \<in> set (waits_on (wk_checks ?w ! i)))"
      unfolding w' by (intro exI [of _ i]) simp
  qed (use inside in blast)
  have stays: "up_checked ds V ?w v" if "up_checked ds V w v" for v
    by (rule up_checked_more [OF that more subset_refl]) (simp add: w')
  show ?thesis
    unfolding rising_def
  proof (intro conjI)
    show "\<forall>g o2. (g, Some o2) \<in> set (wk_stack ?w) \<longrightarrow> o2 \<le> length (wk_checks ?w) \<and>
        (\<forall>v \<in> V. (v, g) \<in> (parents ds)\<^sup>* \<longrightarrow> (\<forall>k. wk_down_at ?w ! v = Some k \<longrightarrow> o2 \<le> k))"
      using r st unfolding more w' by (auto simp: rising_def intro: trans_le_add1)
    show "stack_ordered (parents ds) (wk_stack ?w)" using r st by (simp add: rising_def w')
    show "\<forall>j < length ds. j \<notin> V \<or> j \<in> set (opened ?w) \<longrightarrow> dr_up (wk_drafts ?w ! j) = dr_up (ds ! j)"
      using r h(1) d(1,9) o' by (auto simp: rising_def w' nth_at_draft)
    show "\<forall>v \<in> V. v \<in> set (opened ?w) \<or> up_checked ds V ?w v"
      using r closed stays o' by (auto simp: rising_def)
  qed
qed

lemma open_rising:
  assumes w: "under_way ds V w" and r: "rising ds V w" and c: "checked ds V w"
    and st: "wk_stack w = (h, None) # rest" and w': "enter_node h (w\<lparr>wk_stack := rest\<rparr>) = Some w'"
  shows "rising ds (insert h V) w'"
proof -
  note d = under_wayD [OF w]
  have hp: "h \<in> set (waiting w)" by (simp add: in_waiting st)
  then have h: "h \<notin> V" "h < length ds" using d(6) by auto
  have stack: "wk_stack w' = map (\<lambda>c. (c, None)) (dr_children (ds ! h)) @ (h, Some (length (wk_checks w))) # rest"
    using enter_node_result(2) [OF w'] d(4) [OF h(2)] by simp
  have o': "opened w' = h # opened w" by (simp add: opened_def stack st filter_map o_def)
  obtain xs where more: "wk_checks w' = wk_checks w @ xs"
    and down: "wk_down_at w' = wk_down_at w \<or> wk_down_at w' = (wk_down_at w)[h := Some (length (wk_checks w))]"
    and ups: "\<And>j. j < length ds \<Longrightarrow> dr_up (wk_drafts w' ! j) = dr_up (wk_drafts w ! j)"
    using enter_node_result(1) [OF w'] d(1) by (auto simp: nth_at_draft)
  have same: "wk_down_at w' ! x = wk_down_at w ! x" if "x \<in> V" for x
    using down that h(1) by (cases "x = h") auto
  have unmarked: "wk_down_at w ! h = None" using c h unfolding checked_def by blast
  have none_below: "(v, h) \<notin> (parents ds)\<^sup>*" if "v \<in> V" for v
    using opened_up [OF w _ that] h(1) by blast
  show ?thesis
    unfolding rising_def
  proof (intro conjI allI impI ballI)
    fix g o2
    assume "(g, Some o2) \<in> set (wk_stack w')"
    then have g: "g = h \<and> o2 = length (wk_checks w) \<or> (g, Some o2) \<in> set (wk_stack w)" by (auto simp: stack st)
    then show "o2 \<le> length (wk_checks w')" using r unfolding more by (auto simp: rising_def intro: trans_le_add1)
    fix v k
    assume v: "v \<in> insert h V" "(v, g) \<in> (parents ds)\<^sup>*" "wk_down_at w' ! v = Some k"
    show "o2 \<le> k"
    proof (cases "v \<in> V")
      case True
      with g v none_below same show ?thesis using r unfolding rising_def by auto
    next
      case False
      with v have vh: "v = h" by simp
      from g have "o2 \<le> length (wk_checks w)" using r by (auto simp: rising_def)
      moreover have "length (wk_checks w) \<le> k"
        using down v(3) vh unmarked h(2) d(2) by auto
      ultimately show ?thesis by simp
    qed
  next
    show "stack_ordered (parents ds) (wk_stack w')"
    proof -
      have "(y, h) \<notin> (parents ds)\<^sup>*" if y: "(y, None) \<in> set rest" for y
      proof
        assume "(y, h) \<in> (parents ds)\<^sup>*"
        moreover have "y \<noteq> h" using d(8) y by (force simp: waiting_def st)
        ultimately have "(y, h) \<in> (parents ds)\<^sup>+" by (metis rtranclD)
        from pending_up [OF w _ this] y h(1) show False by (simp add: in_waiting st)
      qed
      then show ?thesis using r by (simp add: stack stack_ordered_push rising_def st)
    qed
    fix j
    assume "j < length ds" "j \<notin> insert h V \<or> j \<in> set (opened w')"
    then show "dr_up (wk_drafts w' ! j) = dr_up (ds ! j)"
      using r h ups by (auto simp: rising_def o')
  next
    fix v
    assume "v \<in> insert h V"
    then show "v \<in> set (opened w') \<or> up_checked ds (insert h V) w' v"
      using r up_checked_more [OF _ more subset_insertI same] by (auto simp: rising_def o')
  qed
qed

definition rise_kept :: "draft list \<Rightarrow> handle set \<Rightarrow> walk \<Rightarrow> bool" where
  "rise_kept ds V w \<longleftrightarrow> down_before w \<and> checked ds V w \<and> rising ds V w"

lemma walk_rises:
  assumes f: "draft_forest r ds" and refs: "refs_inside ds"
  shows "\<exists>w. visit (2 * length ds) (walk_start ds) = Some w \<and> waits_earlier (wk_checks w)
    \<and> checked ds {..<length ds} w \<and> (\<forall>v < length ds. up_checked ds {..<length ds} w v)"
proof -
  have start: "rise_kept ds {} (walk_start ds)"
    using refs checked_start
    by (auto simp: rise_kept_def rising_def down_before_def walk_start_def waits_earlier_def)
  have "\<exists>w V. visit (2 * length ds) (walk_start ds) = Some w \<and> wk_stack w = [] \<and> under_way ds V w \<and> rise_kept ds V w"
  proof (rule visit_keeps [OF f])
    fix V w h o1 rest
    assume w: "under_way ds V w" and k: "rise_kept ds V w" and st: "wk_stack w = (h, Some o1) # rest"
    with close_rising [OF w _ _ st] close_down_before [OF w _ st] close_checked under_wayD(1) [OF w]
    show "rise_kept ds V (close_node h o1 (w\<lparr>wk_stack := rest\<rparr>))" by (simp add: rise_kept_def)
  next
    fix V w h rest w'
    assume w: "under_way ds V w" and k: "rise_kept ds V w" and st: "wk_stack w = (h, None) # rest"
      and w': "enter_node h (w\<lparr>wk_stack := rest\<rparr>) = Some w'"
    with open_rising [OF w _ _ st w'] open_down_before [OF f w _ st w'] open_checked [OF f w _ st w']
    show "rise_kept ds (insert h V) w'" by (simp add: rise_kept_def)
  qed (use under_way_start [OF f] start in \<open>simp_all add: opened_def walk_start_def\<close>)
  then obtain w V where w: "visit (2 * length ds) (walk_start ds) = Some w" "wk_stack w = []"
    "under_way ds V w" "rise_kept ds V w" by blast
  have "opened w = []" by (simp add: opened_def w(2))
  with walk_all(1) [OF f w(3,2)] w(1,4) show ?thesis by (auto simp: rise_kept_def rising_def down_before_def)
qed

section \<open>Checks of directories\<close>

definition above_at :: "builder \<Rightarrow> path \<Rightarrow> target list" where
  "above_at b p = (case map_of (bd_paths b) p of None \<Rightarrow> [] | Some h \<Rightarrow> dr_up (bd_drafts b ! h))"

lemma path_below:
  assumes ok: "builder_ok b" and ds: "map dr_parent ds = map (linked_parent (bd_paths b)) (bd_drafts b)"
    and p: "map_of (bd_paths b) p = Some g"
  shows "map_of (bd_paths b) q = Some h \<Longrightarrow> prefix p q \<Longrightarrow> (h, g) \<in> (parents ds)\<^sup>*"
proof (induction "length q" arbitrary: q h rule: less_induct)
  case less
  show ?case
  proof (cases "p = q")
    case True
    with less.prems p show ?thesis by simp
  next
    case False
    with less.prems have sp: "strict_prefix p q" by (simp add: strict_prefix_def)
    then have "q \<noteq> []" by auto
    have h: "h < length (bd_drafts b)" "dr_path (bd_drafts b ! h) = Some q"
      using less.prems(1) builder_okD(4) [OF ok] by auto
    have len: "length ds = length (bd_drafts b)" using ds by (metis length_map)
    have "dr_parent (ds ! h) = linked_parent (bd_paths b) (bd_drafts b ! h)"
      using arg_cong [OF ds, of "\<lambda>xs. xs ! h"] h(1) len by simp
    then have "(h, path_above (bd_paths b) q) \<in> parents ds"
      using h len \<open>q \<noteq> []\<close> by (simp add: linked_parent_def parents_def)
    moreover from path_above_longest [OF ok sp] p obtain c where c: "map_of (bd_paths b) c = Some (path_above (bd_paths b) q)"
      "prefix p c" "strict_prefix c q" by auto
    then have "length c < length q" by (auto simp: strict_prefix_def prefix_def)
    from less.hyps [OF this c(1,2)] have "(path_above (bd_paths b) q, g) \<in> (parents ds)\<^sup>*" .
    ultimately show ?thesis by (rule converse_rtrancl_into_rtrancl)
  qed
qed

lemma up_check_waits:
  assumes ok: "builder_ok b"
    and p: "t \<in> set (above_at b p)" and q: "declared_at b q = Some s" "prefix p q"
  shows "\<exists>cs i k. builder_finish b = Some cs \<and> i < length cs \<and> k < i
    \<and> ck_target (cs ! i) = t \<and> ck_phase (cs ! i) = Phase_Up \<and> ck_target (cs ! k) = s \<and> ck_phase (cs ! k) = Phase_Down
    \<and> k \<in> set (waits_on (cs ! i))"
proof -
  from linked_result [OF ok] obtain b' where b': "builder_link b = Some b'"
    "draft_forest (link_rank (bd_drafts b)) (bd_drafts (mark_leftovers b'))" "refs_inside (bd_drafts (mark_leftovers b'))"
    "map dr_parent (bd_drafts (mark_leftovers b')) = map (linked_parent (bd_paths b)) (bd_drafts b)"
    "map dr_down (bd_drafts (mark_leftovers b')) = map dr_down (bd_drafts b)"
    "\<forall>i < length (bd_drafts b). set (dr_up (bd_drafts b ! i)) \<subseteq> set (dr_up (bd_drafts (mark_leftovers b') ! i))" by blast
  let ?ds = "bd_drafts (mark_leftovers b')"
  have len: "length ?ds = length (bd_drafts b)" using b'(4) by (metis length_map)
  from walk_rises [OF b'(2,3)] obtain w where w: "visit (2 * length ?ds) (walk_start ?ds) = Some w"
    "waits_earlier (wk_checks w)" "checked ?ds {..<length ?ds} w" "\<forall>v < length ?ds. up_checked ?ds {..<length ?ds} w v" by blast
  have fin: "builder_finish b = Some (wk_checks w)" using b'(1) w(1) by (simp add: builder_finish_def Let_def)
  from p obtain g where g: "map_of (bd_paths b) p = Some g" "t \<in> set (dr_up (bd_drafts b ! g))"
    by (cases "map_of (bd_paths b) p") (auto simp: above_at_def)
  from q obtain h where h: "map_of (bd_paths b) q = Some h" "dr_down (bd_drafts b ! h) = Some s"
    by (auto simp: declared_at_def bind_eq_Some_conv)
  have n: "g < length ?ds" "h < length ?ds" using g(1) h(1) builder_okD(4) [OF ok] len by auto
  have "dr_down (?ds ! h) = Some s" using nth_same [OF b'(5) n(2)] h(2) by simp
  with w(3) n(2) obtain k where k: "wk_down_at w ! h = Some k" "ck_target (wk_checks w ! k) = s" "ck_phase (wk_checks w ! k) = Phase_Down"
    unfolding checked_def by (meson lessThan_iff)
  have "t \<in> set (dr_up (?ds ! g))" using b'(6) g(2) n(1) len by auto
  with w(4) n(1) obtain i where i: "i < length (wk_checks w)" "ck_target (wk_checks w ! i) = t" "ck_phase (wk_checks w ! i) = Phase_Up"
    "\<forall>x k. (x, g) \<in> (parents ?ds)\<^sup>* \<longrightarrow> wk_down_at w ! x = Some k \<longrightarrow> k \<in> set (waits_on (wk_checks w ! i))"
    unfolding up_checked_def by blast
  with path_below [OF ok b'(4) g(1) h(1) q(2)] k(1) have ki: "k \<in> set (waits_on (wk_checks w ! i))" by blast
  then have "k < i" using w(2) i(1) by (simp add: waits_earlier_def)
  with fin i k ki show ?thesis by blast
qed

end
