(* ===== verification/Declared_Properties.thy ===== *)
theory Declared_Properties
  imports Desired Check_Tree_Up
begin

text \<open>
  The properties of what mix declares: the tree of checks, the configuration of Nix and the pins of
  a user. The tree's builder is any that its operations make, with handles
  they gave.
\<close>

inductive built :: "builder \<Rightarrow> bool" where
  built_new: "built (builder_new leftovers)"
| built_path: "built b \<Longrightarrow> built (fst (builder_path b p t))"
| built_place: "built b \<Longrightarrow> built (fst (builder_place b p))"
| built_account: "built b \<Longrightarrow> \<forall>h. parent = Some h \<longrightarrow> h < length (bd_drafts b) \<Longrightarrow> built (fst (builder_account b parent t))"
| built_up: "built b \<Longrightarrow> h < length (bd_drafts b) \<Longrightarrow> built (builder_up b h t)"
| built_refers: "built b \<Longrightarrow> h < length (bd_drafts b) \<Longrightarrow> to < length (bd_drafts b) \<Longrightarrow> built (builder_refers b h to)"
| built_up_refers: "built b \<Longrightarrow> h < length (bd_drafts b) \<Longrightarrow> to < length (bd_drafts b) \<Longrightarrow> built (builder_up_refers b h to)"

lemma built_ok: "built b \<Longrightarrow> builder_ok b"
  by (induction rule: built.induct)
    (auto intro: builder_new_ok builder_path_ok builder_place_ok builder_account_ok builder_up_ok
      builder_refers_ok builder_up_refers_ok)

definition sample_dir :: target where
  "sample_dir = T_Precondition [''a'']"

definition sample_file :: target where
  "sample_file = T_File [''a'', ''b'', ''c''] None (Exact 0x1A4) None"

definition sample_builder :: builder where
  "sample_builder =
     (let (b, _) = builder_path (builder_new None) [''a''] sample_dir; (b, place) = builder_place b [''a'', ''b''];
          (b, file) = builder_path b [''a'', ''b'', ''c''] sample_file
      in builder_refers (builder_up b place (T_UnitActive ''u'')) file place)"

lemma sample_built: "built sample_builder"
proof -
  let ?n = "builder_new None"
  let ?a = "fst (builder_path ?n [''a''] sample_dir)"
  let ?b = "fst (builder_place ?a [''a'', ''b''])"
  let ?c = "fst (builder_path ?b [''a'', ''b'', ''c''] sample_file)"
  have "length (bd_drafts ?c) = 6" "snd (builder_place ?a [''a'', ''b'']) = 4"
    "snd (builder_path ?b [''a'', ''b'', ''c''] sample_file) = 5"
    by (simp_all add: builder_new_def builder_path_def builder_place_def push_path_def Let_def)
  moreover have "built ?c" by (intro built_path built_place built_new)
  ultimately have "built (builder_refers (builder_up ?c (snd (builder_place ?a [''a'', ''b''])) (T_UnitActive ''u''))
      (snd (builder_path ?b [''a'', ''b'', ''c''] sample_file)) (snd (builder_place ?a [''a'', ''b''])))"
    by (intro built_refers built_up) (simp_all add: handles_stay)
  then show ?thesis by (simp add: sample_builder_def case_prod_unfold Let_def)
qed

text \<open>C30: Finishing a builder gives a list of checks, in which every check waits on checks before it
  only: those it comes after and those of the range it encloses.\<close>

theorem checks_wait_on_earlier_checks:
  assumes "built b"
  shows "\<exists>cs. builder_finish b = Some cs \<and> (\<forall>i < length cs. \<forall>x \<in> set (waits_on (cs ! i)). x < i)"
  using finish_result [OF built_ok [OF assms]] by (auto simp: waits_earlier_def)

theorem checks_wait_on_earlier_checks_witness:
  "\<exists>cs. builder_finish sample_builder = Some cs \<and> (\<forall>i < length cs. \<forall>x \<in> set (waits_on (cs ! i)). x < i)"
  by (rule checks_wait_on_earlier_checks [OF sample_built])



text \<open>C32: A check of a path comes after the check of the nearest declared path above it, and waits on
  it.\<close>

theorem path_waits_on_the_nearest_above:
  assumes "built b" "declared_at b p = Some t" "declared_at b q = Some s" "strict_prefix q p"
    and "\<forall>a. strict_prefix a p \<and> declared_at b a \<noteq> None \<longrightarrow> prefix a q"
  shows "\<exists>cs i k. builder_finish b = Some cs \<and> i < length cs \<and> k < i
    \<and> ck_target (cs ! i) = t \<and> ck_phase (cs ! i) = Phase_Down \<and> ck_target (cs ! k) = s \<and> ck_phase (cs ! k) = Phase_Down
    \<and> k \<in> set (ck_after (cs ! i))"
  by (rule path_check_waits [OF built_ok [OF assms(1)] assms(2-4)]) (use assms(5) in blast)

theorem path_waits_on_the_nearest_above_witness:
  "\<exists>cs i k. builder_finish sample_builder = Some cs \<and> i < length cs \<and> k < i
    \<and> ck_target (cs ! i) = sample_file \<and> ck_phase (cs ! i) = Phase_Down
    \<and> ck_target (cs ! k) = sample_dir \<and> ck_phase (cs ! k) = Phase_Down \<and> k \<in> set (ck_after (cs ! i))"
proof (rule path_waits_on_the_nearest_above [OF sample_built, of "[''a'', ''b'', ''c'']" _ "[''a'']"])
  have decl: "declared_at sample_builder p =
      (if p = [''a''] then Some sample_dir else if p = [''a'', ''b'', ''c''] then Some sample_file else None)" for p
    by (auto simp: sample_builder_def declared_at_def builder_new_def builder_path_def builder_place_def push_path_def
        builder_refers_def builder_up_def at_draft_def draft_new_def handle_defs)
  show "declared_at sample_builder [''a'', ''b'', ''c''] = Some sample_file"
    "declared_at sample_builder [''a''] = Some sample_dir" by (simp_all add: decl)
  show "\<forall>a. strict_prefix a [''a'', ''b'', ''c''] \<and> declared_at sample_builder a \<noteq> None \<longrightarrow> prefix a [''a'']"
    by (auto simp: decl split: if_splits)
qed (simp add: strict_prefix_def)

text \<open>C33: A check of a path on the way up comes after the checks of everything declared at or below the
  path, and waits on each of them.\<close>

theorem way_up_waits_on_everything_below:
  assumes "built b" "t \<in> set (above_at b p)" "declared_at b q = Some s" "prefix p q"
  shows "\<exists>cs i k. builder_finish b = Some cs \<and> i < length cs \<and> k < i
    \<and> ck_target (cs ! i) = t \<and> ck_phase (cs ! i) = Phase_Up \<and> ck_target (cs ! k) = s \<and> ck_phase (cs ! k) = Phase_Down
    \<and> k \<in> set (waits_on (cs ! i))"
  by (rule up_check_waits [OF built_ok [OF assms(1)] assms(2-4)])

theorem way_up_waits_on_everything_below_witness:
  "\<exists>cs i k. builder_finish sample_builder = Some cs \<and> i < length cs \<and> k < i
    \<and> ck_target (cs ! i) = T_UnitActive ''u'' \<and> ck_phase (cs ! i) = Phase_Up
    \<and> ck_target (cs ! k) = sample_file \<and> ck_phase (cs ! k) = Phase_Down \<and> k \<in> set (waits_on (cs ! i))"
proof (rule way_up_waits_on_everything_below [OF sample_built, of _ "[''a'', ''b'']" "[''a'', ''b'', ''c'']"])
  show "T_UnitActive ''u'' \<in> set (above_at sample_builder [''a'', ''b''])"
    "declared_at sample_builder [''a'', ''b'', ''c''] = Some sample_file"
    by (simp_all add: sample_builder_def above_at_def declared_at_def builder_new_def builder_path_def builder_place_def
        push_path_def builder_refers_def builder_up_def at_draft_def draft_new_def handle_defs)
qed simp

text \<open>C34: Whatever the policy file holds and however it is read, the lines of the configuration of Nix
  are the ones that are meant, with the mirror's fields inside their lines: only root is trusted.\<close>

theorem policy_adds_no_lines:
  "lines (policy_nix_conf (policy_load from_json pretty contents))
     = conf_lines (policy_mirror (policy_load from_json pretty contents))
   \<and> filter (\<lambda>l. starts_with l ''trusted-users'') (lines (policy_nix_conf (policy_load from_json pretty contents)))
     = [''trusted-users = root'']"
proof -
  let ?p = "policy_load from_json pretty contents"
  have "lines (policy_nix_conf ?p) = conf_lines (policy_mirror ?p)"
    unfolding policy_load_conf by (rule nix_conf_lines) (rule policy_load_ok)
  then show ?thesis by (simp add: conf_lines_def split: option.split)
qed

text \<open>C35: The pins a user gets are well formed, with a time that fits a signed number, and never older
  than the ones mix was built with, whatever the lock files hold and however they are read.\<close>

theorem settled_pins_are_never_older:
  "pin_ok (pin_of (settle from_str file generation mirrored) p)
   \<and> li_last_modified (pin_of EMBEDDED p) \<le> li_last_modified (pin_of (settle from_str file generation mirrored) p)"
  using settle_cases [of from_str "file" generation mirrored]
  by (auto simp: embedded_pin_ok pin_of_forward newer_pin_def intro: read_lock_ok)

end
