(* ===== verification/Changes.thy ===== *)
theory Changes
  imports Targets Effects
begin

text \<open>
  Changes to the list of packages (\<open>core/src/ops/change/mod.rs\<close>), to the pins (\<open>ops/update.rs\<close>), and the
  join of what is installed with what is known of it (\<open>ops/list.rs\<close>). Reading the list is
  third-party code (JSON): the reader is an argument.
\<close>

section \<open>Lists of packages\<close>

definition STATE_VERSION :: u32 where
  "STATE_VERSION = 1"

datatype invalid_list =
    Invalid_Unreadable string
  | Invalid_NewerList u32
  | Invalid_UnknownVersion u32
  | Invalid_Package string
  | Invalid_Missing string

type_synonym list_reader = "string \<Rightarrow> string + state_manifest"

definition validate_manifest :: "state_manifest \<Rightarrow> invalid_list + state_manifest" where
  "validate_manifest m =
     (if STATE_VERSION < sm_version m then Inl (Invalid_NewerList (sm_version m))
      else if sm_version m \<noteq> STATE_VERSION then Inl (Invalid_UnknownVersion (sm_version m))
      else case List.find (\<lambda>p. \<not> is_identifier p) (sm_packages m) of
          Some p \<Rightarrow> Inl (Invalid_Package p)
        | None \<Rightarrow>
            (case List.find (\<lambda>r. r \<notin> set (sm_packages m)) REQUIRED_PACKAGES of
               Some r \<Rightarrow> Inl (Invalid_Missing r)
             | None \<Rightarrow> Inr m))"

definition validate_list :: "list_reader \<Rightarrow> string \<Rightarrow> invalid_list + state_manifest" where
  "validate_list parse raw =
     (case parse raw of Inl e \<Rightarrow> Inl (Invalid_Unreadable e) | Inr m \<Rightarrow> validate_manifest m)"

datatype list_source = Source_List | Source_Generation | Source_Fresh

datatype settled_list = Settled_Current state_manifest list_source | Settled_Newer u32

definition valid_part :: "(invalid_list + state_manifest) option \<Rightarrow> state_manifest option" where
  "valid_part r = (case r of Some (Inr m) \<Rightarrow> Some m | _ \<Rightarrow> None)"

definition settle_list :: "list_reader \<Rightarrow> string option \<Rightarrow> string option \<Rightarrow> settled_list" where
  "settle_list parse file generation =
     (let file = map_option (validate_list parse) file
      in case file of
           Some (Inl (Invalid_NewerList v)) \<Rightarrow> Settled_Newer v
         | _ \<Rightarrow>
             (let generation = valid_part (map_option (validate_list parse) generation)
              in case (valid_part file, generation) of
                   (Some f, Some g) \<Rightarrow> if f \<noteq> g then Settled_Current g Source_Generation else Settled_Current f Source_List
                 | (Some f, None) \<Rightarrow> Settled_Current f Source_List
                 | (None, Some g) \<Rightarrow> Settled_Current g Source_Generation
                 | (None, None) \<Rightarrow> Settled_Current manifest_seed Source_Fresh))"

record list_change =
  lc_changed :: "string list"
  lc_skipped :: "string list"
  lc_manifest :: state_manifest
  lc_source :: list_source

datatype refusal = Refusal_Protected "string list" | Refusal_Newer u32

definition current_list :: "settled_list \<Rightarrow> u32 + state_manifest \<times> list_source" where
  "current_list s = (case s of Settled_Current m src \<Rightarrow> Inr (m, src) | Settled_Newer v \<Rightarrow> Inl v)"

definition install_change :: "string list \<Rightarrow> settled_list \<Rightarrow> u32 + list_change" where
  "install_change packages st =
     and_then (current_list st) (\<lambda>(m, src).
       let partition = manifest_partition m packages
       in Inr \<lparr>lc_changed = pp_missing partition, lc_skipped = pp_installed partition,
               lc_manifest = manifest_sorted \<lparr>sm_version = sm_version m, sm_packages = sm_packages m @ pp_missing partition\<rparr>,
               lc_source = src\<rparr>)"

definition remove_change :: "string list \<Rightarrow> settled_list \<Rightarrow> refusal + list_change" where
  "remove_change packages st =
     (if protected packages \<noteq> [] then Inl (Refusal_Protected (protected packages))
      else case current_list st of
          Inl v \<Rightarrow> Inl (Refusal_Newer v)
        | Inr (m, src) \<Rightarrow>
            (let partition = manifest_partition m packages
             in Inr \<lparr>lc_changed = pp_installed partition, lc_skipped = pp_missing partition,
                     lc_manifest = manifest_sorted (manifest_without (pp_installed partition) m),
                     lc_source = src\<rparr>))"

definition old_generations :: "profile_facts \<Rightarrow> nat list" where
  "old_generations p = filter (\<lambda>g. Some g \<noteq> pf_active p) (pf_generations p)"

definition change_subject :: "string list \<Rightarrow> string" where
  "change_subject packages =
     (if length packages \<le> 3 then join_with '', '' packages else show_nat (length packages) @ '' packages'')"

section \<open>Newer pins\<close>

datatype pin_outcome = Outcome_Updated | Outcome_Current | Outcome_Kept

record input_update =
  inu_pin :: pin
  inu_outcome :: pin_outcome
  inu_from :: locked_input
  inu_to :: locked_input

record decision =
  dec_inputs :: "input_update list"
  dec_pins :: "locked_input pins"

definition pin_step :: "locked_input \<Rightarrow> locked_input \<Rightarrow> pin_outcome \<times> locked_input" where
  "pin_step have newest =
     (if li_rev newest = li_rev have then (Outcome_Current, have)
      else if li_last_modified have < li_last_modified newest then (Outcome_Updated, newest)
      else (Outcome_Kept, have))"

text \<open>\<open>None\<close> is the panic of a pin without an input.\<close>

definition decide :: "locked_input pins \<Rightarrow> locked_input pins \<Rightarrow> decision option" where
  "decide have newest =
     (let inputs = map (\<lambda>i.
            let p = in_pin i; (oc, to) = pin_step (pin_of have p) (pin_of newest p)
            in \<lparr>inu_pin = p, inu_outcome = oc, inu_from = pin_of have p, inu_to = to\<rparr>) INPUTS;
          to = (\<lambda>p. map_option inu_to (List.find (\<lambda>u. inu_pin u = p) inputs))
      in Option.bind (to Pin_HomeManager) (\<lambda>hm. Option.bind (to Pin_Nixpkgs) (\<lambda>np.
           Some \<lparr>dec_inputs = inputs, dec_pins = \<lparr>home_manager = hm, nixpkgs = np\<rparr>\<rparr>)))"

definition moved_inputs :: "decision \<Rightarrow> input_update list" where
  "moved_inputs d = filter (\<lambda>u. inu_outcome u = Outcome_Updated) (dec_inputs d)"

definition is_current :: "decision \<Rightarrow> bool" where
  "is_current d \<longleftrightarrow> moved_inputs d = []"

definition decision_subject :: "decision \<Rightarrow> string" where
  "decision_subject d = join_with '', '' (map (\<lambda>u. in_name (pin_input (inu_pin u))) (moved_inputs d))"

record package_change =
  pc_name :: string
  pc_from :: "string option"
  pc_to :: "string option"

type_synonym versions = "(string, string option) btree"

definition version_of :: "versions \<Rightarrow> string \<Rightarrow> string option" where
  "version_of m name = (case map_of m name of Some v \<Rightarrow> v | None \<Rightarrow> None)"

definition package_changes :: "versions \<Rightarrow> versions \<Rightarrow> package_change list" where
  "package_changes before after =
     List.map_filter (\<lambda>name.
         if version_of before name \<noteq> version_of after name
         then Some \<lparr>pc_name = name, pc_from = version_of before name, pc_to = version_of after name\<rparr>
         else None)
       (dedup (sort (map fst before @ map fst after)))"

section \<open>What is installed\<close>

record described =
  ds_name :: string
  ds_pname :: "string option"
  ds_version :: "string option"
  ds_store_name :: "string option"
  ds_outputs :: "string list"
  ds_description :: "string option"
  ds_homepage :: "string option"
  ds_licenses :: "string list"
  ds_main_program :: "string option"
  ds_changelog :: "string option"

record stored_path =
  st_path :: string
  st_nar_size :: u64
  st_nar_hash :: string
  st_deriver :: "string option"
  st_ultimate :: bool
  st_signers :: "string list"

record package_output =
  po_output :: string
  po_store_path :: string
  po_nar_size :: u64
  po_nar_hash :: string
  po_deriver :: "string option"
  po_built_locally :: bool
  po_signers :: "string list"

record installed_package =
  ip_name :: string
  ip_pname :: "string option"
  ip_version :: "string option"
  ip_description :: "string option"
  ip_homepage :: "string option"
  ip_licenses :: "string list"
  ip_main_program :: "string option"
  ip_changelog :: "string option"
  ip_outputs :: "package_output list"

definition store_name :: "string \<Rightarrow> string option" where
  "store_name p = map_option snd (split_once CHR ''-'' (last (split_on slash p)))"

definition expected_name :: "string \<Rightarrow> string \<Rightarrow> string" where
  "expected_name base output = (if output = ''out'' then base else base @ ''-'' @ output)"

text \<open>A map filled with \<open>entry().or_insert()\<close> keeps the first value of a key: looking a key up finds
  the first element of the list that has it.\<close>

definition outputs_of :: "described \<Rightarrow> (string \<Rightarrow> stored_path option) \<Rightarrow> package_output list" where
  "outputs_of d by_name =
     (case ds_store_name d of
        None \<Rightarrow> []
      | Some base \<Rightarrow> List.map_filter (\<lambda>output.
          map_option (\<lambda>found.
            \<lparr>po_output = output, po_store_path = st_path found, po_nar_size = st_nar_size found,
             po_nar_hash = st_nar_hash found, po_deriver = st_deriver found, po_built_locally = st_ultimate found,
             po_signers = st_signers found\<rparr>)
            (by_name (expected_name base output))) (ds_outputs d))"

definition unresolved_package :: "string \<Rightarrow> installed_package" where
  "unresolved_package name =
     \<lparr>ip_name = name, ip_pname = None, ip_version = None, ip_description = None, ip_homepage = None,
      ip_licenses = [], ip_main_program = None, ip_changelog = None, ip_outputs = []\<rparr>"

definition join_packages :: "string list \<Rightarrow> described list \<Rightarrow> stored_path list \<Rightarrow> installed_package list" where
  "join_packages requested described stored =
     map (\<lambda>name.
         case List.find (\<lambda>d. ds_name d = name) described of
           None \<Rightarrow> unresolved_package name
         | Some found \<Rightarrow>
             (let outputs = outputs_of found (\<lambda>n. List.find (\<lambda>s. store_name (st_path s) = Some n) stored)
              in if outputs = [] then unresolved_package name
                 else \<lparr>ip_name = name, ip_pname = ds_pname found, ip_version = ds_version found,
                       ip_description = ds_description found, ip_homepage = ds_homepage found,
                       ip_licenses = ds_licenses found, ip_main_program = ds_main_program found,
                       ip_changelog = ds_changelog found, ip_outputs = outputs\<rparr>))
       (dedup (sort requested))"

section \<open>What changes keep\<close>

definition list_valid :: "state_manifest \<Rightarrow> bool" where
  "list_valid m \<longleftrightarrow> validate_manifest m = Inr m"

lemma list_valid_iff:
  "list_valid m \<longleftrightarrow> sm_version m = STATE_VERSION \<and> list_all is_identifier (sm_packages m) \<and> set REQUIRED_PACKAGES \<subseteq> set (sm_packages m)"
proof -
  consider p where "List.find (\<lambda>p. \<not> is_identifier p) (sm_packages m) = Some p"
    | r where "List.find (\<lambda>p. \<not> is_identifier p) (sm_packages m) = None"
        "List.find (\<lambda>r. r \<notin> set (sm_packages m)) REQUIRED_PACKAGES = Some r"
    | "List.find (\<lambda>p. \<not> is_identifier p) (sm_packages m) = None"
        "List.find (\<lambda>r. r \<notin> set (sm_packages m)) REQUIRED_PACKAGES = None"
    by fastforce
  then show ?thesis
  proof cases
    case 1
    then have "p \<in> set (sm_packages m)" "\<not> is_identifier p" by (auto simp: find_Some_iff)
    with 1 show ?thesis by (auto simp: list_valid_def validate_manifest_def list_all_iff)
  next
    case 2
    then have "r \<in> set REQUIRED_PACKAGES" "r \<notin> set (sm_packages m)" by (auto simp: find_Some_iff)
    with 2 show ?thesis by (auto simp: list_valid_def validate_manifest_def)
  next
    case 3
    then have "list_all is_identifier (sm_packages m) \<and> set REQUIRED_PACKAGES \<subseteq> set (sm_packages m)"
      by (auto simp: find_None_iff list_all_iff)
    with 3 show ?thesis by (auto simp: list_valid_def validate_manifest_def)
  qed
qed

lemma validate_list_valid: "validate_list parse raw = Inr m \<Longrightarrow> list_valid m"
  by (auto simp: list_valid_def validate_list_def validate_manifest_def split: sum.splits if_splits option.splits)

lemma valid_part_simps [simp]:
  "valid_part None = None" "valid_part (Some (Inl e)) = None" "valid_part (Some (Inr m)) = Some m"
  by (simp_all add: valid_part_def)

lemma settle_list_valid: "settle_list parse file generation = Settled_Current m src \<Longrightarrow> list_valid m"
proof -
  have seed: "list_valid manifest_seed"
    by (simp add: list_valid_iff manifest_seed_def STATE_VERSION_def REQUIRED_PACKAGES_def ident_start_def ident_more_def
        is_alphabetic_def is_alphanumeric_def is_lowercase_def is_uppercase_def byte_def is_reserved_def RESERVED_WORDS_def)
  have part: "list_valid m" if "valid_part (map_option (validate_list parse) x) = Some m" for x m
    using that by (cases x) (auto simp: valid_part_def dest: validate_list_valid split: sum.splits)
  let ?f = "map_option (validate_list parse) file" and ?g = "valid_part (map_option (validate_list parse) generation)"
  assume eq: "settle_list parse file generation = Settled_Current m src"
  then have "valid_part ?f = Some m \<or> ?g = Some m \<or> m = manifest_seed"
    by (cases "valid_part ?f"; cases ?g)
      (auto simp: settle_list_def Let_def split: option.splits sum.splits invalid_list.splits if_splits)
  with seed part show ?thesis by blast
qed

lemma sorted_set: "set (sm_packages (manifest_sorted m)) = set (sm_packages m)"
  "sm_version (manifest_sorted m) = sm_version m"
  "sorted (sm_packages (manifest_sorted m)) \<and> distinct (sm_packages (manifest_sorted m))"
  by (simp_all add: manifest_sorted_def sorted_dedup)

lemma partition_parts:
  "set (pp_installed (manifest_partition m ps)) = set ps \<inter> set (sm_packages m)"
  "set (pp_missing (manifest_partition m ps)) = set ps - set (sm_packages m)"
  by (auto simp: manifest_partition_def partition_names_split)

lemma protected_names_set: "set (protected_names seen ps) = (set ps \<inter> set REQUIRED_PACKAGES) - seen"
  by (induction ps arbitrary: seen) auto

end
