(* ===== verification/Health.thy ===== *)
theory Health
  imports Changes "HOL-Library.Monad_Syntax"
begin

text \<open>
  What is wrong with a target and what is done about it (\<open>core/src/ops/health/mod.rs\<close>): the queries of
  a target, the finding that their facts give, the drift of a file, and the actions that repair it.

  The code indexes the facts and panics when a fact is missing or of another kind than the query:
  such a panic is the outer \<open>None\<close> of the functions here. Reading JSON and the diff of two texts are
  third-party code and arguments.
\<close>

section \<open>Findings\<close>

datatype finding =
    F_Missing
  | F_Unreadable error_kind
  | F_NotADirectory
  | F_NotALink
  | F_NewerState u32
  | F_Mode u32 u32
  | F_Owner owner owner
  | F_ContentDrift
  | F_GroupMissing
  | F_GroupGid u32 u32
  | F_NotAMember string
  | F_NoSuchUser
  | F_UserMissing
  | F_UserIds owner owner
  | F_UnitMissing
  | F_UnitDrift
  | F_UnitInactive
  | F_RuntimeMissing
  | F_RepositoryBroken
  | F_RepositoryLocked
  | F_Interrupted "string list" "string list"
  | F_Leftovers "string list"
  | F_GenerationDangling nat
  | F_InTheWay "string list"
  | F_ProfileStale
  | F_OldGenerations "nat list"

definition finding_unfixable :: "finding \<Rightarrow> unfixable option" where
  "finding_unfixable f =
     (case f of
        F_NotADirectory \<Rightarrow> Some Unfixable_NotADirectory
      | F_NoSuchUser \<Rightarrow> Some Unfixable_MissingUser
      | F_RuntimeMissing \<Rightarrow> Some Unfixable_MissingRuntime
      | F_InTheWay _ \<Rightarrow> Some Unfixable_InTheWay
      | F_NotALink \<Rightarrow> Some Unfixable_InTheWay
      | F_NewerState _ \<Rightarrow> Some Unfixable_Newer
      | _ \<Rightarrow> None)"

section \<open>Queries\<close>

definition owner_query :: "path \<Rightarrow> owner_of \<Rightarrow> query list" where
  "owner_query p ow = (case ow of Some (uid, _) \<Rightarrow> if uid \<noteq> 0 then [Query_TreeOwner p] else [] | None \<Rightarrow> [])"

fun target_queries :: "target \<Rightarrow> query list" where
  "target_queries (T_Precondition p) = [Query_Path p]"
| "target_queries (T_Parent p _ _) = [Query_Path p]"
| "target_queries (T_Link p) = [Query_Path p]"
| "target_queries (T_Directory p _ ow) = Query_Path p # owner_query p ow"
| "target_queries (T_File p _ _ ow) = Query_Path p # Query_Contents p # owner_query p ow"
| "target_queries (T_SeededFile p _ _ ow) = Query_Path p # owner_query p ow"
| "target_queries (T_Group name _) = [Query_Group name]"
| "target_queries (T_GroupMember grp user) = [Query_Group grp, Query_User user]"
| "target_queries (T_User n _ _) = [Query_User (user_name n)]"
| "target_queries (T_SystemdUnit name src dest) =
     [Query_Contents dest, Query_Path dest, Query_Unit name]
     @ (case src of Source_File p \<Rightarrow> [Query_Contents p] | Source_Text _ \<Rightarrow> [])"
| "target_queries (T_UnitActive name) = [Query_Unit name]"
| "target_queries (T_PathExists _ p _) = [Query_Path p]"
| "target_queries (T_Repository p user) = [Query_Path p, Query_Strangers p (iu_uid user, iu_gid user)]"
| "target_queries (T_History p user) = [Query_Path (path_join p INDEX_LOCK), Query_Path p, Query_Repository user]"
| "target_queries (T_Program p source _) = [Query_Path p, Query_Program p source]"
| "target_queries (T_Journals p) = [Query_Journals p, Query_Path p]"
| "target_queries (T_Leftovers dir journals) = [Query_Journals journals, Query_Leftovers dir]"
| "target_queries (T_Generations _ user) = [Query_Profile user]"
| "target_queries (T_Retention _ user _) = [Query_Profile user]"
| "target_queries (T_Activation _ user _ _ _) =
     [Query_Contents (path_join (mix_state_dir (iu_home user)) STATE_FILE), Query_ActiveList user,
      Query_Path (path_join (repository_dir (iu_home user)) REPOSITORY_BRANCH), Query_ActiveLock user]"
| "target_queries (T_HomeFiles _ user) = [Query_Clobbered user]"

section \<open>Facts\<close>

definition fact_at :: "fact list \<Rightarrow> nat \<Rightarrow> fact option" where
  "fact_at facts i = (if i < length facts then Some (facts ! i) else None)"

definition path_fact :: "fact list \<Rightarrow> nat \<Rightarrow> path_facts option" where
  "path_fact facts i = (case fact_at facts i of Some (Fact_Path p) \<Rightarrow> Some p | _ \<Rightarrow> None)"

definition contents_fact :: "fact list \<Rightarrow> nat \<Rightarrow> bytes option option" where
  "contents_fact facts i = (case fact_at facts i of Some (Fact_Contents c) \<Rightarrow> Some c | _ \<Rightarrow> None)"

definition unit_source_bytes :: "unit_source \<Rightarrow> fact list \<Rightarrow> bytes option option" where
  "unit_source_bytes src facts =
     (case src of Source_File _ \<Rightarrow> contents_fact facts 3 | Source_Text t \<Rightarrow> Some (Some t))"

definition absent_finding :: "path_kind \<Rightarrow> finding option" where
  "absent_finding kind =
     (case kind of PathKind_Missing \<Rightarrow> Some F_Missing | PathKind_Unreadable k \<Rightarrow> Some (F_Unreadable k) | _ \<Rightarrow> None)"

fun or_else :: "'a option \<Rightarrow> 'a option \<Rightarrow> 'a option" where
  "or_else (Some x) y = Some x"
| "or_else None y = y"

definition owner_drift :: "owner \<Rightarrow> owner_of \<Rightarrow> finding option" where
  "owner_drift actual ow =
     (case ow of None \<Rightarrow> None | Some expected \<Rightarrow> if actual \<noteq> expected then Some (F_Owner actual expected) else None)"

definition shape_finding :: "path_facts \<Rightarrow> mode \<Rightarrow> owner_of \<Rightarrow> finding option" where
  "shape_finding found mode ow =
     or_else (owner_drift (paf_owner found) ow)
       (let expected = settled mode (paf_mode found) ow
        in if paf_mode found \<noteq> expected then Some (F_Mode (paf_mode found) expected) else None)"

definition remode :: "path \<Rightarrow> path_facts \<Rightarrow> mode \<Rightarrow> owner_of \<Rightarrow> action list" where
  "remode p found mode ow =
     (let bits = settled mode (paf_mode found) ow
      in if paf_mode found \<noteq> bits then [SetMode p bits (paf_mode found)] else [])"

definition reshape :: "path \<Rightarrow> path_facts \<Rightarrow> mode \<Rightarrow> owner_of \<Rightarrow> action list" where
  "reshape p found mode ow =
     (case ow of
        Some expected \<Rightarrow> if paf_owner found \<noteq> expected then [SetOwner p expected (paf_owner found)] else []
      | None \<Rightarrow> [])
     @ remode p found mode ow"

section \<open>Drift\<close>

definition SECRET_SETTINGS :: "string list" where
  "SECRET_SETTINGS = [''access-tokens'']"

text \<open>\<open>trim_start_matches\<close> with a text.\<close>

function trim_start_matches :: "string \<Rightarrow> string \<Rightarrow> string" where
  "trim_start_matches pat s =
     (if pat \<noteq> [] \<and> starts_with s pat then trim_start_matches pat (drop (length pat) s) else s)"
  by pat_completeness auto
termination
proof (relation "measure (\<lambda>(pat, s). length s)")
  fix pat s :: string
  assume "pat \<noteq> [] \<and> starts_with s pat"
  then show "((pat, drop (length pat) s), pat, s) \<in> measure (\<lambda>(pat, s). length s)"
    by (auto simp: starts_with_iff)
qed simp

declare trim_start_matches.simps [simp del]

definition hidden :: "string \<Rightarrow> string" where
  "hidden l =
     (case split_once CHR ''='' l of
        Some (key, _) \<Rightarrow>
          if trim_start_matches ''extra-'' (trim key) \<in> set SECRET_SETTINGS then trim key @ '' = <hidden>'' else l
      | None \<Rightarrow> l)"

record hunk =
  hk_found_line :: u32
  hk_found :: "string list"
  hk_expected :: "string list"

record file_drift =
  fd_path :: string
  fd_hunks :: "hunk list"

text \<open>An operation of the diff: whether the two ranges are equal, the range of what is expected and the
  range of what was found.\<close>

record diff_op =
  do_equal :: bool
  do_old :: "nat \<times> nat"
  do_new :: "nat \<times> nat"

type_synonym differ = "string list \<Rightarrow> string list \<Rightarrow> diff_op list"

definition range_of :: "'a list \<Rightarrow> nat \<times> nat \<Rightarrow> 'a list" where
  "range_of xs r = take (snd r - fst r) (drop (fst r) xs)"

definition line_number :: "nat \<Rightarrow> u32" where
  "line_number n = (if n < 2 ^ 32 then of_nat n else - 1)"

fun add_hunks :: "string list \<Rightarrow> string list \<Rightarrow> bool \<Rightarrow> diff_op list \<Rightarrow> hunk list \<Rightarrow> hunk list" where
  "add_hunks expected found open_hunk [] hs = hs"
| "add_hunks expected found open_hunk (d # ds) hs =
     (if do_equal d then add_hunks expected found False ds hs
      else
        let hs = (if open_hunk then hs
                  else hs @ [\<lparr>hk_found_line = line_number (fst (do_new d) + 1), hk_found = [], hk_expected = []\<rparr>]);
            hs = (if hs = [] then hs
                  else butlast hs @ [(last hs)\<lparr>hk_found := hk_found (last hs) @ map hidden (range_of found (do_new d)),
                                               hk_expected := hk_expected (last hs) @ map hidden (range_of expected (do_old d))\<rparr>])
        in add_hunks expected found True ds hs)"

definition hunks :: "differ \<Rightarrow> string \<Rightarrow> string \<Rightarrow> hunk list" where
  "hunks diff expected found =
     add_hunks (lines expected) (lines found) False (diff (lines expected) (lines found)) []"

definition drift :: "differ \<Rightarrow> target \<Rightarrow> fact list \<Rightarrow> file_drift option option" where
  "drift diff t facts =
     (case t of
        T_File p (Some expected) _ _ \<Rightarrow> do {
          c \<leftarrow> contents_fact facts 1;
          Some (case c of
              None \<Rightarrow> None
            | Some current \<Rightarrow>
                if current \<noteq> expected then Some \<lparr>fd_path = path_text p, fd_hunks = hunks diff expected (utf8_lossy current)\<rparr>
                else None)
        }
      | T_SystemdUnit _ src dest \<Rightarrow> do {
          c \<leftarrow> contents_fact facts 0;
          case c of
            None \<Rightarrow> Some None
          | Some installed \<Rightarrow> do {
              s \<leftarrow> unit_source_bytes src facts;
              Some (case s of
                  None \<Rightarrow> None
                | Some source \<Rightarrow>
                    if installed \<noteq> source
                    then Some \<lparr>fd_path = path_display dest, fd_hunks = hunks diff (utf8_lossy source) (utf8_lossy installed)\<rparr>
                    else None)
            }
        }
      | _ \<Rightarrow> Some None)"

section \<open>Leftovers\<close>

fun contains_text :: "string \<Rightarrow> string \<Rightarrow> bool" where
  "contains_text [] pat = (pat = [])"
| "contains_text (c # s) pat = (starts_with (c # s) pat \<or> contains_text s pat)"

definition named_by :: "string \<Rightarrow> string \<Rightarrow> bool" where
  "named_by name request_id \<longleftrightarrow>
     contains_text name (''-'' @ request_id @ ''-'') \<or> starts_with (rev name) (rev (''-'' @ request_id))"

definition found_leftovers :: "fact list \<Rightarrow> (path \<times> file_id) list" where
  "found_leftovers facts = concat (map (\<lambda>f. case f of Fact_Leftovers found \<Rightarrow> found | _ \<Rightarrow> []) facts)"

definition leftovers :: "fact list \<Rightarrow> string option \<Rightarrow> (path \<times> file_id) list option" where
  "leftovers facts running = do {
     f \<leftarrow> fact_at facts 0;
     let abandoned = (case f of Fact_Journals a \<Rightarrow> a | _ \<Rightarrow> []);
     Some (filter (\<lambda>(p, _).
         let name = (case file_name p of Some n \<Rightarrow> utf8_lossy n | None \<Rightarrow> [])
         in \<not> (\<exists>request_id \<in> set abandoned. named_by name (ab_request request_id))
            \<and> \<not> (case running of Some r \<Rightarrow> named_by name r | None \<Rightarrow> False))
       (found_leftovers (tl facts)))
   }"


section \<open>What is wrong\<close>

definition JOURNAL_DIR_MODE :: u32 where "JOURNAL_DIR_MODE = 0x1C0"
definition FILE_MODE :: u32 where "FILE_MODE = 0x1A4"
definition NIXBLD_SHELL :: path where "NIXBLD_SHELL = components ''/usr/sbin/nologin''"

text \<open>\<open>std::str::from_utf8\<close> of contents that may be missing.\<close>

definition utf8_text :: "bytes option \<Rightarrow> string option" where
  "utf8_text c = (case c of Some b \<Rightarrow> if valid_utf8 b then Some b else None | None \<Rightarrow> None)"

definition IS_A_DIRECTORY :: error_kind where "IS_A_DIRECTORY = ''IsADirectory''"
definition OTHER_ERROR :: error_kind where "OTHER_ERROR = ''Other''"

definition classify_directory :: "path_facts \<Rightarrow> mode \<Rightarrow> owner_of \<Rightarrow> finding option" where
  "classify_directory found mode ow =
     (case absent_finding (paf_kind found) of
        Some f \<Rightarrow> Some f
      | None \<Rightarrow>
          if paf_kind found \<noteq> PathKind_Directory then Some F_NotADirectory else shape_finding found mode ow)"

definition classify_file :: "fact list \<Rightarrow> string option \<Rightarrow> mode \<Rightarrow> owner_of \<Rightarrow> finding option option" where
  "classify_file facts expected mode ow = do {
     found \<leftarrow> path_fact facts 0;
     case expected of
       Some text \<Rightarrow>
         (case absent_finding (paf_kind found) of
            Some f \<Rightarrow> Some (Some f)
          | None \<Rightarrow> do {
              c \<leftarrow> contents_fact facts 1;
              Some (case c of
                  Some current \<Rightarrow>
                    if current = text then shape_finding found mode ow else Some F_ContentDrift
                | None \<Rightarrow>
                    (case paf_kind found of
                       PathKind_Directory \<Rightarrow> Some (F_Unreadable IS_A_DIRECTORY)
                     | PathKind_Symlink \<Rightarrow> Some F_ContentDrift
                     | PathKind_Other \<Rightarrow> Some F_ContentDrift
                     | _ \<Rightarrow> or_else (shape_finding found mode ow) (Some (F_Unreadable OTHER_ERROR))))
            })
     | None \<Rightarrow> Some (if paf_kind found = PathKind_Missing then None else shape_finding found mode ow)
   }"

definition classify_unit :: "unit_source \<Rightarrow> fact list \<Rightarrow> finding option option" where
  "classify_unit src facts = do {
     installed \<leftarrow> contents_fact facts 0;
     source \<leftarrow> unit_source_bytes src facts;
     case installed of
       None \<Rightarrow>
         if source = None then Some (Some F_RuntimeMissing)
         else do {
           found \<leftarrow> path_fact facts 1;
           Some (Some (case paf_kind found of
               PathKind_Missing \<Rightarrow> F_UnitMissing
             | PathKind_Unreadable k \<Rightarrow> F_Unreadable k
             | _ \<Rightarrow> F_UnitDrift))
         }
     | Some installed \<Rightarrow>
         if source \<noteq> None \<and> source \<noteq> Some installed then Some (Some F_UnitDrift)
         else do {
           found \<leftarrow> path_fact facts 1;
           Some (shape_finding found SYSTEM_FILE ROOT_OWNER)
         }
   }"

definition classify_journals :: "fact list \<Rightarrow> finding option option" where
  "classify_journals facts = do {
     f \<leftarrow> fact_at facts 0;
     case f of
       Fact_Journals abandoned \<Rightarrow>
         if abandoned = []
         then do {
           found \<leftarrow> path_fact facts 1;
           Some (case paf_kind found of
               PathKind_Missing \<Rightarrow> None
             | PathKind_Directory \<Rightarrow> shape_finding found (Exact JOURNAL_DIR_MODE) ROOT_OWNER
             | PathKind_Unreadable k \<Rightarrow> Some (F_Unreadable k)
             | _ \<Rightarrow> Some F_NotADirectory)
         }
         else Some (Some (F_Interrupted (map ab_request abandoned) (dedup (sort (concat (map ab_pending abandoned))))))
     | _ \<Rightarrow> Some None
   }"

definition newer_list :: "invalid_list + state_manifest \<Rightarrow> u32 option" where
  "newer_list r = (case r of Inl (Invalid_NewerList v) \<Rightarrow> Some v | _ \<Rightarrow> None)"

definition classify_activation ::
  "list_reader \<Rightarrow> (string \<Rightarrow> json option) \<Rightarrow> locked_input pins \<Rightarrow> fact list \<Rightarrow> finding option option" where
  "classify_activation pl lk ps facts = do {
     c \<leftarrow> contents_fact facts 0;
     case utf8_text c of
       None \<Rightarrow> Some None
     | Some listed_text \<Rightarrow>
         (case newer_list (validate_list pl listed_text) of
            Some v \<Rightarrow> Some (Some (F_NewerState v))
          | None \<Rightarrow> do {
              a \<leftarrow> contents_fact facts 1;
              let active = Option.bind (utf8_text a) (\<lambda>t. ok (validate_list pl t));
              other \<leftarrow> (if active = None then Some False
                       else do {
                         built \<leftarrow> contents_fact facts 3;
                         Some (Option.bind (utf8_text built) (read_lock lk) \<noteq> Some ps)
                       });
              Some (if active \<noteq> ok (validate_list pl listed_text) \<or> other then Some F_ProfileStale else None)
            })
   }"

definition classify_generations :: "profile_facts \<Rightarrow> finding option" where
  "classify_generations p =
     map_option F_GenerationDangling
       (or_else (case pf_active p of Some a \<Rightarrow> if a \<in> set (pf_dangling p) then Some a else None | None \<Rightarrow> None)
         (case pf_dangling p of d # _ \<Rightarrow> Some d | [] \<Rightarrow> None))"

definition masked :: "fact \<Rightarrow> bool" where
  "masked f = (case f of Fact_Unit u \<Rightarrow> starts_with (unf_file_state u) ''masked'' | _ \<Rightarrow> False)"

fun classify :: "list_reader \<Rightarrow> (string \<Rightarrow> json option) \<Rightarrow> target \<Rightarrow> fact list \<Rightarrow> finding option option" where
  "classify pl lk (T_Link _) facts = do {
     found \<leftarrow> path_fact facts 0;
     Some (case paf_kind found of
         PathKind_Missing \<Rightarrow> None | PathKind_Symlink \<Rightarrow> None | PathKind_Unreadable k \<Rightarrow> Some (F_Unreadable k)
       | _ \<Rightarrow> Some F_NotALink)
   }"
| "classify pl lk (T_Precondition _) facts = do {
     found \<leftarrow> path_fact facts 0;
     Some (or_else (absent_finding (paf_kind found))
       (if paf_kind found \<noteq> PathKind_Directory then Some F_NotADirectory else None))
   }"
| "classify pl lk (T_Parent _ mode ow) facts = do {
     found \<leftarrow> path_fact facts 0; Some (classify_directory found mode ow)
   }"
| "classify pl lk (T_Directory _ mode ow) facts = do {
     found \<leftarrow> path_fact facts 0; Some (classify_directory found mode ow)
   }"
| "classify pl lk (T_File _ expected mode ow) facts = classify_file facts expected mode ow"
| "classify pl lk (T_SeededFile _ _ mode ow) facts = do {
     found \<leftarrow> path_fact facts 0;
     Some (or_else (absent_finding (paf_kind found)) (shape_finding found mode ow))
   }"
| "classify pl lk (T_Group _ gid) facts = do {
     f \<leftarrow> fact_at facts 0;
     Some (case f of
         Fact_Group None \<Rightarrow> Some F_GroupMissing
       | Fact_Group (Some g) \<Rightarrow> if gf_gid g \<noteq> gid then Some (F_GroupGid (gf_gid g) gid) else None
       | _ \<Rightarrow> None)
   }"
| "classify pl lk (T_GroupMember grp user) facts = do {
     f \<leftarrow> fact_at facts 0;
     u \<leftarrow> fact_at facts 1;
     Some (if (case f of Fact_Group (Some g) \<Rightarrow> user \<in> set (gf_members g) | _ \<Rightarrow> False) then None
       else (case u of Fact_User (Some _) \<Rightarrow> Some (F_NotAMember grp) | _ \<Rightarrow> Some F_NoSuchUser))
   }"
| "classify pl lk (T_User _ uid gid) facts = do {
     f \<leftarrow> fact_at facts 0;
     Some (case f of
         Fact_User None \<Rightarrow> Some F_UserMissing
       | Fact_User (Some u) \<Rightarrow>
           if (uf_uid u, uf_gid u) \<noteq> (uid, gid) then Some (F_UserIds (uf_uid u, uf_gid u) (uid, gid)) else None
       | _ \<Rightarrow> None)
   }"
| "classify pl lk (T_SystemdUnit _ src _) facts = classify_unit src facts"
| "classify pl lk (T_UnitActive _) facts = do {
     f \<leftarrow> fact_at facts 0;
     Some (if (case f of Fact_Unit u \<Rightarrow> unf_active_state u = ''active'' \<or> unf_active_state u = ''reloading''
                | _ \<Rightarrow> False)
           then None else Some F_UnitInactive)
   }"
| "classify pl lk (T_PathExists _ _ _) facts = do {
     found \<leftarrow> path_fact facts 0;
     Some (if paf_kind found = PathKind_Missing then Some F_RuntimeMissing else None)
   }"
| "classify pl lk (T_Repository _ user) facts = do {
     found \<leftarrow> path_fact facts 0;
     case absent_finding (paf_kind found) of
       Some f \<Rightarrow> Some (Some f)
     | None \<Rightarrow>
         if paf_kind found \<noteq> PathKind_Directory then Some (Some F_RepositoryBroken)
         else do {
           f \<leftarrow> fact_at facts 1;
           Some (case f of Fact_Stranger (Some (_, actual)) \<Rightarrow> Some (F_Owner actual (iu_uid user, iu_gid user)) | _ \<Rightarrow> None)
         }
   }"
| "classify pl lk (T_History _ _) facts = do {
     f \<leftarrow> fact_at facts 2;
     if \<not> (case f of Fact_Repository intact _ \<Rightarrow> intact | _ \<Rightarrow> False) then Some (Some F_RepositoryBroken)
     else do {
       found \<leftarrow> path_fact facts 0;
       Some (if paf_kind found \<noteq> PathKind_Missing then Some F_RepositoryLocked else None)
     }
   }"
| "classify pl lk (T_Program _ _ mode) facts = do {
     found \<leftarrow> path_fact facts 0;
     case absent_finding (paf_kind found) of
       Some f \<Rightarrow> Some (Some f)
     | None \<Rightarrow> do {
         f \<leftarrow> fact_at facts 1;
         Some (if (case f of Fact_Program p \<Rightarrow> \<not> prf_same p | _ \<Rightarrow> False) then Some F_ContentDrift
               else shape_finding found mode ROOT_OWNER)
       }
   }"
| "classify pl lk (T_Journals _) facts = classify_journals facts"
| "classify pl lk (T_Leftovers _ _) facts = do {
     found \<leftarrow> leftovers facts None;
     let paths = map (\<lambda>(p, _). path_text p) found;
     Some (if paths \<noteq> [] then Some (F_Leftovers paths) else None)
   }"
| "classify pl lk (T_Generations _ _) facts = do {
     f \<leftarrow> fact_at facts 0;
     Some (case f of Fact_Profile p \<Rightarrow> classify_generations p | _ \<Rightarrow> None)
   }"
| "classify pl lk (T_HomeFiles _ _) facts = do {
     f \<leftarrow> fact_at facts 0;
     Some (case f of
         Fact_Clobbered ps \<Rightarrow> if ps \<noteq> [] then Some (F_InTheWay (map path_text ps)) else None
       | _ \<Rightarrow> None)
   }"
| "classify pl lk (T_Activation _ _ _ _ ps) facts = classify_activation pl lk ps facts"
| "classify pl lk (T_Retention _ _ collect) facts = do {
     f \<leftarrow> fact_at facts 0;
     Some (case f of
         Fact_Profile p \<Rightarrow>
           if old_generations p \<noteq> [] \<or> collect then Some (F_OldGenerations (old_generations p)) else None
       | _ \<Rightarrow> None)
   }"

section \<open>What is done about it\<close>

definition expect_of :: "file_id option \<Rightarrow> expect" where
  "expect_of fid = (case fid of None \<Rightarrow> Expect_Absent | Some i \<Rightarrow> Expect_Present i)"

definition tree_owner_fact :: "fact list \<Rightarrow> nat \<Rightarrow> u32 option" where
  "tree_owner_fact facts i = (case fact_at facts i of Some (Fact_TreeOwner ow) \<Rightarrow> ow | _ \<Rightarrow> None)"

definition own_again :: "path \<Rightarrow> path_facts \<Rightarrow> owner_of \<Rightarrow> u32 option \<Rightarrow> action list" where
  "own_again p found ow tree =
     (case ow of
        None \<Rightarrow> []
      | Some expected \<Rightarrow>
          if paf_owner found = expected then []
          else (case paf_id found of
              Some fid \<Rightarrow>
                if fst expected \<noteq> 0 \<and> tree = Some (fst expected)
                then [ReclaimTree p fid expected (paf_mode found)]
                else [SetOwner p expected (paf_owner found)]
            | None \<Rightarrow> [SetOwner p expected (paf_owner found)]))"

definition set_aside_found :: "path \<Rightarrow> path_facts \<Rightarrow> action list" where
  "set_aside_found p found = (case paf_id found of Some fid \<Rightarrow> [SetAside p fid] | None \<Rightarrow> [])"

definition replaced :: "path \<Rightarrow> path_facts \<Rightarrow> invoking_user \<Rightarrow> action list" where
  "replaced p found user = set_aside_found p found @ [CreateRepository user]"

definition is_shape :: "finding \<Rightarrow> bool" where
  "is_shape f = (case f of F_Owner _ _ \<Rightarrow> True | F_Mode _ _ \<Rightarrow> True | _ \<Rightarrow> False)"

definition is_gone :: "path_kind \<Rightarrow> bool" where
  "is_gone k = (case k of PathKind_Missing \<Rightarrow> True | PathKind_Unreadable _ \<Rightarrow> True | _ \<Rightarrow> False)"

definition fix_directory :: "path \<Rightarrow> mode \<Rightarrow> owner_of \<Rightarrow> path_facts \<Rightarrow> u32 option \<Rightarrow> action list" where
  "fix_directory p mode ow found tree =
     (if is_gone (paf_kind found) then [CreateDirs p (mode_bits mode) ow]
      else (case own_again p found ow tree of
          ReclaimTree p' fid ow' _ # rest \<Rightarrow> ReclaimTree p' fid ow' (settled mode (paf_mode found) ow) # rest
        | acts \<Rightarrow> remode p found mode ow @ acts))"

definition fix_file ::
  "path \<Rightarrow> string option \<Rightarrow> mode \<Rightarrow> owner_of \<Rightarrow> fact list \<Rightarrow> action list option" where
  "fix_file p expected mode ow facts = do {
     found \<leftarrow> path_fact facts 0;
     let kept = own_again p found ow (tree_owner_fact facts 2) @ remode p found mode ow;
     case expected of
       Some text \<Rightarrow> do {
         c \<leftarrow> contents_fact facts 1;
         Some (if c \<noteq> Some text
           then [PutFile p text (settled mode (if paf_kind found = PathKind_File then paf_mode found else FILE_MODE) ow)
                  ow (expect_of (paf_id found))]
           else kept)
       }
     | None \<Rightarrow> Some kept
   }"

definition fix_unit ::
  "string \<Rightarrow> unit_source \<Rightarrow> path \<Rightarrow> finding \<Rightarrow> fact list \<Rightarrow> (unfixable + action list) option" where
  "fix_unit name src dest f facts = do {
     u \<leftarrow> fact_at facts 2;
     if masked u then Some (Inl Unfixable_Masked)
     else if is_shape f then do {
       found \<leftarrow> path_fact facts 1;
       Some (Inr (reshape dest found SYSTEM_FILE ROOT_OWNER))
     }
     else do {
       wanted \<leftarrow> unit_source_bytes src facts;
       case wanted of
         None \<Rightarrow> Some (Inl Unfixable_MissingRuntime)
       | Some text \<Rightarrow> do {
           found \<leftarrow> path_fact facts 1;
           Some (Inr [InstallUnit name text (expect_of (paf_id found)), DaemonReload])
         }
     }
   }"

definition build_user :: "u32 \<Rightarrow> u32 \<Rightarrow> u32 \<Rightarrow> string \<Rightarrow> user_spec" where
  "build_user n uid gid req =
     \<lparr>us_name = user_name n, us_uid = uid, us_gid = gid, us_home = NIXBLD_HOME, us_shell = NIXBLD_SHELL,
      us_comment = ''mix build user '' @ show_nat (unat n) @ '' for request '' @ req,
      us_groups = [NIXBLD_GROUP]\<rparr>"

definition fix_generations :: "invoking_user \<Rightarrow> profile_facts \<Rightarrow> action list" where
  "fix_generations user p =
     (if (case pf_active p of Some a \<Rightarrow> a \<in> set (pf_dangling p) | None \<Rightarrow> False)
      then [ActivateProfile user FlakeSource_Git] else [])
     @ map (DeleteGeneration user) (pf_dangling p)"

fun fix_fixable :: "target \<Rightarrow> finding \<Rightarrow> fact list \<Rightarrow> string \<Rightarrow> (unfixable + action list) option" where
  "fix_fixable (T_Precondition _) f facts req = Some (Inl Unfixable_Outside)"
| "fix_fixable (T_Link _) f facts req = Some (Inl Unfixable_InTheWay)"
| "fix_fixable (T_Parent p mode ow) f facts req =
     (if is_shape f then do { found \<leftarrow> path_fact facts 0; Some (Inr (reshape p found mode ow)) }
      else Some (Inr [CreateDirs p (mode_bits mode) ow]))"
| "fix_fixable (T_Directory p mode ow) f facts req = do {
     found \<leftarrow> path_fact facts 0;
     Some (Inr (fix_directory p mode ow found (tree_owner_fact facts 1)))
   }"
| "fix_fixable (T_File p expected mode ow) f facts req = map_option Inr (fix_file p expected mode ow facts)"
| "fix_fixable (T_SeededFile p seed mode ow) f facts req = do {
     found \<leftarrow> path_fact facts 0;
     Some (Inr (if is_gone (paf_kind found)
       then [PutFile p seed (settled mode FILE_MODE ow) ow (expect_of (paf_id found))]
       else own_again p found ow (tree_owner_fact facts 1) @ remode p found mode ow))
   }"
| "fix_fixable (T_Group name gid) f facts req =
     Some (Inr (case f of F_GroupGid actual _ \<Rightarrow> [SetGroupGid name gid actual] | _ \<Rightarrow> [AddGroup name gid]))"
| "fix_fixable (T_GroupMember grp user) f facts req = Some (Inr [AddMember grp user])"
| "fix_fixable (T_User n uid gid) f facts req =
     Some (Inr (case f of
         F_UserIds actual _ \<Rightarrow> [SetUserIds (user_name n) (uid, gid) actual]
       | _ \<Rightarrow> [AddUser (build_user n uid gid req)]))"
| "fix_fixable (T_SystemdUnit name src dest) f facts req = fix_unit name src dest f facts"
| "fix_fixable (T_UnitActive name) f facts req = do {
     u \<leftarrow> fact_at facts 0;
     Some (if masked u then Inl Unfixable_Masked else Inr [EnableUnit name, StartUnit name])
   }"
| "fix_fixable (T_PathExists _ _ _) f facts req = Some (Inl Unfixable_MissingRuntime)"
| "fix_fixable (T_Repository p user) f facts req = do {
     found \<leftarrow> path_fact facts 0;
     Some (Inr (case f of
         F_Owner _ expected \<Rightarrow>
           (case paf_id found of Some fid \<Rightarrow> [ReclaimTree p fid expected (paf_mode found)] | None \<Rightarrow> [])
       | _ \<Rightarrow> replaced p found user))
   }"
| "fix_fixable (T_History p user) f facts req =
     (if f = F_RepositoryLocked
      then do { found \<leftarrow> path_fact facts 0; Some (Inr (set_aside_found (path_join p INDEX_LOCK) found)) }
      else do { found \<leftarrow> path_fact facts 1; Some (Inr (replaced p found user)) })"
| "fix_fixable (T_Program p source mode) f facts req = do {
     found \<leftarrow> path_fact facts 0;
     if is_shape f then Some (Inr (reshape p found mode ROOT_OWNER))
     else do {
       g \<leftarrow> fact_at facts 1;
       Some (case (case g of Fact_Program pr \<Rightarrow> prf_source pr | _ \<Rightarrow> None) of
           Some text \<Rightarrow> Inr [PutFile p text (mode_bits mode) None (expect_of (paf_id found))]
         | None \<Rightarrow> Inl Unfixable_MissingRuntime)
     }
   }"
| "fix_fixable (T_Journals p) f facts req =
     (if is_shape f
      then do { found \<leftarrow> path_fact facts 1; Some (Inr (reshape p found (Exact JOURNAL_DIR_MODE) ROOT_OWNER)) }
      else Some (Inl Unfixable_Unrecovered))"
| "fix_fixable (T_HomeFiles _ _) f facts req = Some (Inl Unfixable_InTheWay)"
| "fix_fixable (T_Leftovers _ _) f facts req =
     map_option (\<lambda>found. Inr (map (\<lambda>(p, fid). RemoveCreatedTree p fid) found)) (leftovers facts (Some req))"
| "fix_fixable (T_Activation _ user _ _ _) f facts req = do {
     found \<leftarrow> path_fact facts 2;
     Some (Inr [ActivateProfile user
       (if paf_kind found = PathKind_File then FlakeSource_Git else FlakeSource_Path)])
   }"
| "fix_fixable (T_Retention _ user collect) f facts req =
     Some (Inr (case f of
         F_OldGenerations gs \<Rightarrow> map (DeleteGeneration user) gs @ (if collect then [CollectGarbage user] else [])
       | _ \<Rightarrow> []))"
| "fix_fixable (T_Generations _ user) f facts req = do {
     g \<leftarrow> fact_at facts 0;
     Some (Inr (case g of Fact_Profile p \<Rightarrow> fix_generations user p | _ \<Rightarrow> []))
   }"

definition fix_target :: "target \<Rightarrow> finding \<Rightarrow> fact list \<Rightarrow> string \<Rightarrow> (unfixable + action list) option" where
  "fix_target t f facts req =
     (case t of
        T_PathExists _ _ (Some r) \<Rightarrow> Some (Inr [InstallRuntime (rt_url r) (rt_sha256 r) (unat (rt_size r))])
      | _ \<Rightarrow>
          (case finding_unfixable f of
             Some why \<Rightarrow> Some (Inl why)
           | None \<Rightarrow> fix_fixable t f facts req))"

end
