(* ===== verification/Diagnosis.thy ===== *)
theory Diagnosis
  imports Health Check_Tree
begin

text \<open>
  The audit of a machine (\<open>Audit\<close> and \<open>audit\<close> of \<open>core/src/ops/health/mod.rs\<close>): it takes the checks of
  a tree in order, asks for the facts of one whose conditions are well, and reports each check once.
  The outer \<open>None\<close> is a panic, or a loop that does not end with the fuel it has.
\<close>

section \<open>The audit\<close>

record health_report =
  hr_name :: string
  hr_category :: category
  hr_finding :: "finding option"
  hr_drift :: "file_drift option"
  hr_blocked_by :: "string option"

definition report_healthy :: "health_report \<Rightarrow> bool" where
  "report_healthy r \<longleftrightarrow> hr_finding r = None"

record audit =
  au_checks :: "check list"
  au_causes :: "nat option list"
  au_reports :: "health_report list"

datatype audited = Audited_Observe "query list" | Audited_Reported | Audited_Done

text \<open>The readers and the diff that the audit is given.\<close>

record readers =
  rd_list :: list_reader
  rd_json :: "string \<Rightarrow> json option"
  rd_diff :: differ

definition unreadable :: "failure \<Rightarrow> finding" where
  "unreadable f = F_Unreadable (case f of Io _ k \<Rightarrow> k | SpawnFailed _ k \<Rightarrow> k | _ \<Rightarrow> OTHER_ERROR)"

definition audit_new :: "check list \<Rightarrow> audit" where
  "audit_new cs = \<lparr>au_checks = cs, au_causes = replicate (length cs) None, au_reports = []\<rparr>"

definition audit_planned :: "audit \<Rightarrow> string list" where
  "audit_planned a = map check_label (au_checks a)"

definition audit_settling :: "audit \<Rightarrow> string \<Rightarrow> nat option" where
  "audit_settling a label =
     find_index (\<lambda>r. case hr_finding r of Some (F_Interrupted _ pending) \<Rightarrow> label \<in> set pending | _ \<Rightarrow> False)
       (au_reports a)"

text \<open>The first cause among checks that are waited on; an index that is out of range panics.\<close>

fun first_cause :: "nat option list \<Rightarrow> nat list \<Rightarrow> nat option option" where
  "first_cause causes [] = Some None"
| "first_cause causes (b # bs) =
     (if b < length causes
      then (case causes ! b of Some c \<Rightarrow> Some (Some c) | None \<Rightarrow> first_cause causes bs)
      else None)"

definition audit_report ::
  "check \<Rightarrow> finding option \<Rightarrow> file_drift option \<Rightarrow> string option \<Rightarrow> audit \<Rightarrow> audit" where
  "audit_report c f d blocked a =
     (let at = length (au_reports a)
      in a\<lparr>au_causes := (if f \<noteq> None then (au_causes a)[at := Some at] else au_causes a),
           au_reports := au_reports a
             @ [\<lparr>hr_name = check_label c, hr_category = target_category (ck_target c), hr_finding = f,
                 hr_drift = d, hr_blocked_by = blocked\<rparr>]\<rparr>)"

definition audit_step ::
  "readers \<Rightarrow> (failure + fact list) option \<Rightarrow> audit \<Rightarrow> (audited \<times> audit) option" where
  "audit_step rd facts a =
     (let at = length (au_reports a)
      in if length (au_checks a) \<le> at then Some (Audited_Done, a)
         else let c = au_checks a ! at
           in case facts of
              Some (Inr facts) \<Rightarrow> do {
                f \<leftarrow> classify (rd_list rd) (rd_json rd) (ck_target c) facts;
                d \<leftarrow> drift (rd_diff rd) (ck_target c) facts;
                Some (Audited_Reported, audit_report c f d None a)
              }
            | Some (Inl e) \<Rightarrow> Some (Audited_Reported, audit_report c (Some (unreadable e)) None None a)
            | None \<Rightarrow> do {
                waited \<leftarrow> first_cause (au_causes a) (waits_on c);
                case or_else waited (audit_settling a (check_label c)) of
                  Some cause \<Rightarrow>
                    if cause < length (au_checks a)
                    then Some (Audited_Reported, audit_report c None None (Some (check_label (au_checks a ! cause)))
                      (a\<lparr>au_causes := (au_causes a)[at := Some cause]\<rparr>))
                    else None
                | None \<Rightarrow> Some (Audited_Observe (target_queries (ck_target c)), a)
              })"

text \<open>The loop. What observes the machine has a state of its own.\<close>

type_synonym 's observer = "query list \<Rightarrow> 's \<Rightarrow> (failure + fact list) \<times> 's"

fun audit_loop ::
  "nat \<Rightarrow> readers \<Rightarrow> 's observer \<Rightarrow> (failure + fact list) option \<Rightarrow> audit \<Rightarrow> 's \<Rightarrow> (health_report list \<times> 's) option" where
  "audit_loop 0 rd observe facts a s = None"
| "audit_loop (Suc n) rd observe facts a s = do {
     r \<leftarrow> audit_step rd facts a;
     case r of
       (Audited_Observe qs, a) \<Rightarrow> (let (answer, s) = observe qs s in audit_loop n rd observe (Some answer) a s)
     | (Audited_Reported, a) \<Rightarrow> audit_loop n rd observe None a s
     | (Audited_Done, a) \<Rightarrow> Some (au_reports a, s)
   }"

definition audit_tree :: "readers \<Rightarrow> 's observer \<Rightarrow> check list \<Rightarrow> 's \<Rightarrow> (health_report list \<times> 's) option" where
  "audit_tree rd observe cs s = audit_loop (Suc (2 * length cs)) rd observe None (audit_new cs) s"

section \<open>Facts that answer queries\<close>

text \<open>A fact of the kind that the query asks for (\<open>observe\<close> of the daemon and of the model machine).\<close>

fun answers :: "query \<Rightarrow> fact \<Rightarrow> bool" where
  "answers (Query_Path _) f \<longleftrightarrow> (\<exists>p. f = Fact_Path p)"
| "answers (Query_Contents _) f \<longleftrightarrow> (\<exists>c. f = Fact_Contents c)"
| "answers (Query_Group _) f \<longleftrightarrow> (\<exists>g. f = Fact_Group g)"
| "answers (Query_User _) f \<longleftrightarrow> (\<exists>u. f = Fact_User u)"
| "answers (Query_Unit _) f \<longleftrightarrow> (\<exists>u. f = Fact_Unit u)"
| "answers (Query_UnitLinks _) f \<longleftrightarrow> (\<exists>u. f = Fact_UnitLinks u)"
| "answers (Query_Profile _) f \<longleftrightarrow> (\<exists>p. f = Fact_Profile p)"
| "answers (Query_TreeOwner _) f \<longleftrightarrow> (\<exists>p. f = Fact_TreeOwner p)"
| "answers (Query_Repository _) f \<longleftrightarrow> (\<exists>i r. f = Fact_Repository i r)"
| "answers (Query_ActiveList _) f \<longleftrightarrow> (\<exists>c. f = Fact_Contents c)"
| "answers (Query_ActiveLock _) f \<longleftrightarrow> (\<exists>c. f = Fact_Contents c)"
| "answers (Query_Journals _) f \<longleftrightarrow> (\<exists>c. f = Fact_Journals c)"
| "answers (Query_Leftovers _) f \<longleftrightarrow> (\<exists>c. f = Fact_Leftovers c)"
| "answers (Query_Strangers _ _) f \<longleftrightarrow> (\<exists>c. f = Fact_Stranger c)"
| "answers (Query_Clobbered _) f \<longleftrightarrow> (\<exists>c. f = Fact_Clobbered c)"
| "answers (Query_Program _ _) f \<longleftrightarrow> (\<exists>c. f = Fact_Program c)"
| "answers (Query_Linked _) f \<longleftrightarrow> (\<exists>c. f = Fact_Linked c)"
| "answers Query_Accounts f \<longleftrightarrow> (\<exists>c. f = Fact_Accounts c)"

definition answered :: "query list \<Rightarrow> fact list \<Rightarrow> bool" where
  "answered qs fs \<longleftrightarrow> list_all2 answers qs fs"

definition sound_observer :: "'s observer \<Rightarrow> bool" where
  "sound_observer observe \<longleftrightarrow> (\<forall>qs s fs. fst (observe qs s) = Inr fs \<longrightarrow> answered qs fs)"

lemma fact_at_simps [simp]:
  "fact_at (f # fs) 0 = Some f" "fact_at (f # fs) (Suc i) = fact_at fs i"
  "fact_at (f # fs) (numeral k) = fact_at fs (pred_numeral k)" "fact_at [] i = None"
  by (simp_all add: fact_at_def numeral_eq_Suc)

lemma facts_simps [simp]:
  "path_fact fs i = Some p \<longleftrightarrow> fact_at fs i = Some (Fact_Path p)"
  "contents_fact fs i = Some c \<longleftrightarrow> fact_at fs i = Some (Fact_Contents c)"
  by (auto simp: path_fact_def contents_fact_def split: option.splits fact.splits)

lemma answered_simps [simp]:
  "answered [] fs \<longleftrightarrow> fs = []"
  "answered (q # qs) fs \<longleftrightarrow> (\<exists>f gs. fs = f # gs \<and> answers q f \<and> answered qs gs)"
  by (auto simp: answered_def list_all2_Cons1)

lemma answered_append: "answered (qs @ rs) fs \<longleftrightarrow> (\<exists>gs hs. fs = gs @ hs \<and> answered qs gs \<and> answered rs hs)"
  unfolding answered_def list_all2_append1 by (metis list_all2_lengthD)

text \<open>No target panics on facts that answer its queries.\<close>

lemma bind_not_None: "Option.bind x f \<noteq> None \<longleftrightarrow> (\<exists>y. x = Some y \<and> f y \<noteq> None)"
  by (cases x) auto

lemma classify_answers:
  assumes "answered (target_queries t) facts"
  shows "\<exists>f. classify pl lk t facts = Some f"
  using assms
  by (cases t)
    (auto simp: owner_query_def classify_file_def classify_unit_def unit_source_bytes_def classify_journals_def
      classify_activation_def leftovers_def path_fact_def contents_fact_def Let_def
      split: option.splits unit_source.splits if_splits)

section \<open>Reports are honest\<close>

definition report_ok :: "check list \<Rightarrow> nat option list \<Rightarrow> health_report list \<Rightarrow> nat \<Rightarrow> bool" where
  "report_ok cs causes rs i \<longleftrightarrow>
     hr_name (rs ! i) = check_label (cs ! i) \<and>
     (causes ! i = None \<longleftrightarrow> hr_finding (rs ! i) = None \<and> hr_blocked_by (rs ! i) = None) \<and>
     (\<forall>c. causes ! i = Some c \<longrightarrow> c \<le> i \<and> hr_finding (rs ! c) \<noteq> None) \<and>
     (hr_blocked_by (rs ! i) = None \<longrightarrow> (\<forall>x \<in> set (waits_on (cs ! i)). causes ! x = None)) \<and>
     (\<forall>n. hr_blocked_by (rs ! i) = Some n \<longrightarrow>
        hr_finding (rs ! i) = None \<and> (\<exists>c < i. hr_finding (rs ! c) \<noteq> None \<and> hr_name (rs ! c) = n))"

definition audit_ok :: "audit \<Rightarrow> bool" where
  "audit_ok a \<longleftrightarrow>
     length (au_causes a) = length (au_checks a) \<and> length (au_reports a) \<le> length (au_checks a) \<and>
     (\<forall>i < length (au_checks a). \<forall>x \<in> set (waits_on (au_checks a ! i)). x < i) \<and>
     (\<forall>i < length (au_reports a). report_ok (au_checks a) (au_causes a) (au_reports a) i) \<and>
     (\<forall>i. length (au_reports a) \<le> i \<and> i < length (au_checks a) \<longrightarrow> au_causes a ! i = None)"

lemma audit_ok_new:
  "\<forall>i < length cs. \<forall>x \<in> set (waits_on (cs ! i)). x < i \<Longrightarrow> audit_ok (audit_new cs)"
  by (simp add: audit_ok_def audit_new_def)

lemma first_cause_ends:
  assumes "\<forall>x \<in> set bs. x < length causes"
  shows "(first_cause causes bs = Some None \<and> (\<forall>x \<in> set bs. causes ! x = None)) \<or>
    (\<exists>c. first_cause causes bs = Some (Some c) \<and> (\<exists>x \<in> set bs. causes ! x = Some c))"
  using assms by (induction bs) (auto split: option.splits)

lemma report_ok_same:
  assumes "report_ok cs causes rs i" "\<And>x. x \<le> i \<Longrightarrow> causes' ! x = causes ! x" "\<And>x. x \<le> i \<Longrightarrow> rs' ! x = rs ! x"
    "\<forall>x \<in> set (waits_on (cs ! i)). x < i"
  shows "report_ok cs causes' rs' i"
proof -
  have "rs' ! i = rs ! i" "causes' ! i = causes ! i" using assms by simp_all
  moreover have "\<forall>x \<in> set (waits_on (cs ! i)). causes' ! x = causes ! x"
    using assms(2) [OF less_imp_le] assms(4) by blast
  moreover have "\<And>c. c < i \<Longrightarrow> rs' ! c = rs ! c" "\<And>c. c \<le> i \<Longrightarrow> rs' ! c = rs ! c" using assms(3) by simp_all
  ultimately show ?thesis using assms(1) unfolding report_ok_def by (auto 4 3)
qed

text \<open>Adding a report keeps what was reported.\<close>

lemma audit_ok_report:
  assumes ok: "audit_ok a" and at: "at = length (au_reports a)" and lt: "at < length (au_checks a)"
    and cause: "causes = (au_causes a)[at := cause]"
    and r: "hr_name r = check_label (au_checks a ! at)"
    and new: "cause = (if hr_finding r \<noteq> None then Some at else case hr_blocked_by r of None \<Rightarrow> None | Some _ \<Rightarrow> Some c)"
    and clear: "hr_blocked_by r = None \<Longrightarrow> \<forall>x \<in> set (waits_on (au_checks a ! at)). au_causes a ! x = None"
    and blocked: "\<And>n. hr_blocked_by r = Some n \<Longrightarrow>
      hr_finding r = None \<and> c < at \<and> hr_finding (au_reports a ! c) \<noteq> None \<and> n = check_label (au_checks a ! c)"
  shows "audit_ok (a\<lparr>au_causes := causes, au_reports := au_reports a @ [r]\<rparr>)"
proof -
  note ok = ok [unfolded audit_ok_def]
  have len: "length (au_causes a) = length (au_checks a)" using ok by blast
  have early: "\<And>i. i < length (au_checks a) \<Longrightarrow> \<forall>x \<in> set (waits_on (au_checks a ! i)). x < i" using ok by blast
  have waits: "x < at" if "x \<in> set (waits_on (au_checks a ! i))" "i \<le> at" for i x
    using early [of i] that lt by (meson dual_order.strict_trans1 le_less_trans)
  have old: "report_ok (au_checks a) causes (au_reports a @ [r]) i" if i: "i < at" for i
  proof -
    from ok i at have "report_ok (au_checks a) (au_causes a) (au_reports a) i" by blast
    then show ?thesis
    proof (rule report_ok_same)
      show "causes ! x = au_causes a ! x" "(au_reports a @ [r]) ! x = au_reports a ! x" if "x \<le> i" for x
        using that i cause at by (simp_all add: nth_append)
      show "\<forall>x \<in> set (waits_on (au_checks a ! i)). x < i" using early [of i] i lt by linarith
    qed
  qed
  have last: "report_ok (au_checks a) causes (au_reports a @ [r]) at"
  proof -
    have names: "hr_name (au_reports a ! x) = check_label (au_checks a ! x)" if "x < at" for x
      using ok that at unfolding report_ok_def by blast
    have here: "causes ! at = cause" "(au_reports a @ [r]) ! at = r" using cause lt len at by simp_all
    have before: "(au_reports a @ [r]) ! x = au_reports a ! x" "causes ! x = au_causes a ! x" if "x < at" for x
      using that at cause by (simp_all add: nth_append)
    show ?thesis
    proof (cases "hr_blocked_by r")
      case None
      with here r new show ?thesis using clear waits [of _ at] before by (auto simp: report_ok_def)
    next
      case (Some n)
      with blocked [OF Some] here r new names show ?thesis
        by (auto simp: report_ok_def before intro!: exI [of _ c])
    qed
  qed
  show ?thesis
    unfolding audit_ok_def
  proof (simp, intro conjI allI impI)
    show "length causes = length (au_checks a)" using cause len by simp
    show "Suc (length (au_reports a)) \<le> length (au_checks a)" using lt at by simp
    show "\<forall>x \<in> set (waits_on (au_checks a ! i)). x < i" if "i < length (au_checks a)" for i using ok that by blast
    show "report_ok (au_checks a) causes (au_reports a @ [r]) i" if "i < Suc (length (au_reports a))" for i
      using old last that at less_Suc_eq by metis
    show "causes ! i = None" if "Suc (length (au_reports a)) \<le> i \<and> i < length (au_checks a)" for i
      using ok that cause at by simp
  qed
qed

lemma drift_answers:
  assumes "answered (target_queries t) facts"
  shows "\<exists>d. drift df t facts = Some d"
  using assms
  by (cases t)
    (auto simp: drift_def unit_source_bytes_def contents_fact_def owner_query_def
      split: option.splits unit_source.splits if_splits)

text \<open>One more report, and one more step of the audit.\<close>

definition audit_next :: "audit \<Rightarrow> audit \<Rightarrow> bool" where
  "audit_next a a' \<longleftrightarrow>
     audit_ok a' \<and> au_checks a' = au_checks a \<and> length (au_reports a') = Suc (length (au_reports a))"

lemma blocked_next:
  assumes "audit_ok a" "length (au_reports a) < length (au_checks a)" "c < length (au_reports a)"
    and "hr_finding (au_reports a ! c) \<noteq> None"
  shows "audit_next a (audit_report (au_checks a ! length (au_reports a)) None None
    (Some (check_label (au_checks a ! c))) (a\<lparr>au_causes := (au_causes a)[length (au_reports a) := Some c]\<rparr>))"
  unfolding audit_next_def audit_report_def Let_def
  using audit_ok_report [OF assms(1) refl assms(2) refl, of "\<lparr>hr_name = check_label (au_checks a ! length (au_reports a)),
      hr_category = target_category (ck_target (au_checks a ! length (au_reports a))), hr_finding = None, hr_drift = None,
      hr_blocked_by = Some (check_label (au_checks a ! c))\<rparr>" "Some c" c] assms(3,4) by simp

lemma found_next:
  assumes "audit_ok a" "length (au_reports a) < length (au_checks a)"
    and "\<forall>x \<in> set (waits_on (au_checks a ! length (au_reports a))). au_causes a ! x = None"
  shows "audit_next a (audit_report (au_checks a ! length (au_reports a)) f d None a)"
proof -
  let ?at = "length (au_reports a)"
  have "au_causes a ! ?at = None" "?at < length (au_causes a)" using assms(1,2) by (simp_all add: audit_ok_def)
  then have "(if f \<noteq> None then (au_causes a)[?at := Some ?at] else au_causes a)
      = (au_causes a)[?at := (if f \<noteq> None then Some ?at else None)]"
    using list_update_id [of "au_causes a" ?at] by auto
  moreover have "audit_ok (a\<lparr>au_causes := (au_causes a)[?at := (if f \<noteq> None then Some ?at else None)],
      au_reports := au_reports a @ [\<lparr>hr_name = check_label (au_checks a ! ?at),
      hr_category = target_category (ck_target (au_checks a ! ?at)), hr_finding = f, hr_drift = d, hr_blocked_by = None\<rparr>]\<rparr>)"
    by (rule audit_ok_report [OF assms(1) refl assms(2) refl, where c = 0]) (use assms(3) in simp_all)
  ultimately show ?thesis unfolding audit_next_def audit_report_def Let_def by simp
qed

text \<open>A cause is an earlier report with a finding.\<close>

lemma audit_cause:
  assumes ok: "audit_ok a" and lt: "length (au_reports a) < length (au_checks a)"
  shows "(\<exists>c. first_cause (au_causes a) (waits_on (au_checks a ! length (au_reports a))) = Some c \<and>
      or_else c (audit_settling a l) = None \<and>
      (\<forall>x \<in> set (waits_on (au_checks a ! length (au_reports a))). au_causes a ! x = None)) \<or>
    (\<exists>w c. first_cause (au_causes a) (waits_on (au_checks a ! length (au_reports a))) = Some w \<and>
      or_else w (audit_settling a l) = Some c \<and> c < length (au_reports a) \<and> hr_finding (au_reports a ! c) \<noteq> None)"
proof -
  let ?at = "length (au_reports a)" and ?bs = "waits_on (au_checks a ! length (au_reports a))"
  have early: "\<forall>x \<in> set ?bs. x < ?at" and len: "length (au_causes a) = length (au_checks a)"
    using ok lt unfolding audit_ok_def by blast+
  have "\<forall>x \<in> set ?bs. x < length (au_causes a)" using early len lt by fastforce
  from first_cause_ends [OF this] show ?thesis
  proof (elim disjE exE conjE bexE)
    fix c x assume x: "first_cause (au_causes a) ?bs = Some (Some c)" "x \<in> set ?bs" "au_causes a ! x = Some c"
    then have "x < ?at" using early by blast
    with ok have "report_ok (au_checks a) (au_causes a) (au_reports a) x" unfolding audit_ok_def by blast
    with x(3) have "c \<le> x" "hr_finding (au_reports a ! c) \<noteq> None" unfolding report_ok_def by blast+
    with x \<open>x < ?at\<close> show ?thesis by auto
  next
    assume n: "first_cause (au_causes a) ?bs = Some None" "\<forall>x \<in> set ?bs. au_causes a ! x = None"
    show ?thesis
    proof (cases "audit_settling a l")
      case (Some c)
      then have "c < ?at" "hr_finding (au_reports a ! c) \<noteq> None"
        by (auto simp: audit_settling_def dest!: find_index_Some split: option.splits)
      with n Some show ?thesis by auto
    qed (use n in auto)
  qed
qed

definition honest_reports :: "check list \<Rightarrow> health_report list \<Rightarrow> bool" where
  "honest_reports cs rs \<longleftrightarrow>
     map hr_name rs = map check_label cs \<and>
     (\<forall>i < length cs.
        (case hr_blocked_by (rs ! i) of
           None \<Rightarrow> \<forall>x \<in> set (waits_on (cs ! i)). hr_finding (rs ! x) = None \<and> hr_blocked_by (rs ! x) = None
         | Some n \<Rightarrow> hr_finding (rs ! i) = None \<and> (\<exists>c < i. hr_finding (rs ! c) \<noteq> None \<and> hr_name (rs ! c) = n)))"

lemma audit_ok_honest:
  assumes "audit_ok a" "length (au_reports a) = length (au_checks a)"
  shows "honest_reports (au_checks a) (au_reports a)"
proof -
  have r: "report_ok (au_checks a) (au_causes a) (au_reports a) i"
    "\<forall>x \<in> set (waits_on (au_checks a ! i)). x < i" if "i < length (au_checks a)" for i
    using assms that unfolding audit_ok_def by simp_all
  have names: "map hr_name (au_reports a) = map check_label (au_checks a)"
    using assms(2) r(1) by (intro nth_equalityI) (auto simp: report_ok_def)
  have "case hr_blocked_by (au_reports a ! i) of
      None \<Rightarrow> \<forall>x \<in> set (waits_on (au_checks a ! i)). hr_finding (au_reports a ! x) = None \<and> hr_blocked_by (au_reports a ! x) = None
    | Some n \<Rightarrow> hr_finding (au_reports a ! i) = None \<and> (\<exists>c < i. hr_finding (au_reports a ! c) \<noteq> None \<and> hr_name (au_reports a ! c) = n)"
    if i: "i < length (au_checks a)" for i
  proof (cases "hr_blocked_by (au_reports a ! i)")
    case None
    have "hr_finding (au_reports a ! x) = None \<and> hr_blocked_by (au_reports a ! x) = None"
      if x: "x \<in> set (waits_on (au_checks a ! i))" for x
    proof -
      have "x < length (au_checks a)" using r(2) [OF i] x i by fastforce
      moreover have "au_causes a ! x = None" using r(1) [OF i] None x unfolding report_ok_def by blast
      ultimately show ?thesis using r(1) [of x] unfolding report_ok_def by blast
    qed
    with None show ?thesis by simp
  next
    case (Some n)
    with r(1) [OF i] show ?thesis unfolding report_ok_def by simp
  qed
  with names show ?thesis by (simp add: honest_reports_def)
qed

lemma audit_loop_ends:
  assumes "sound_observer observe"
  shows "audit_ok a \<Longrightarrow> k = length (au_checks a) - length (au_reports a) \<Longrightarrow>
    \<exists>rs s'. audit_loop (Suc (2 * k + j)) rd observe None a s = Some (rs, s') \<and> honest_reports (au_checks a) rs"
proof (induction k arbitrary: a s j)
  case 0
  then have "length (au_reports a) = length (au_checks a)" by (simp add: audit_ok_def)
  with audit_ok_honest [OF 0(1)] show ?case by (simp add: audit_step_def)
next
  case (Suc k)
  let ?at = "length (au_reports a)" and ?c = "au_checks a ! length (au_reports a)"
  from Suc.prems(2) have lt: "?at < length (au_checks a)" by simp
  have more: "\<exists>rs s'. audit_loop (Suc (2 * k + j')) rd observe None a' s = Some (rs, s') \<and> honest_reports (au_checks a) rs"
    if "audit_next a a'" for a' s j'
  proof -
    from that have a': "audit_ok a'" "au_checks a' = au_checks a" "length (au_reports a') = Suc (length (au_reports a))"
      by (simp_all only: audit_next_def)
    then have "k = length (au_checks a') - length (au_reports a')" using Suc.prems(2) by simp
    from Suc.IH [OF a'(1) this, of j' s] show ?thesis by (simp only: a'(2))
  qed
  from audit_cause [OF Suc.prems(1) lt, of "check_label ?c"] show ?case
  proof (elim disjE exE conjE)
    fix w c assume w: "first_cause (au_causes a) (waits_on ?c) = Some w"
      "or_else w (audit_settling a (check_label ?c)) = Some c" "c < ?at" "hr_finding (au_reports a ! c) \<noteq> None"
    with lt more [OF blocked_next [OF Suc.prems(1) lt w(3,4)], where s = s and j' = "Suc j"] show ?case
      by (simp add: audit_step_def Let_def)
  next
    fix c assume w: "first_cause (au_causes a) (waits_on ?c) = Some c"
      "or_else c (audit_settling a (check_label ?c)) = None" "\<forall>x \<in> set (waits_on ?c). au_causes a ! x = None"
    obtain answer s1 where o: "observe (target_queries (ck_target ?c)) s = (answer, s1)" by fastforce
    show ?case
    proof (cases answer)
      case (Inl e)
      with lt w o more [OF found_next [OF Suc.prems(1) lt w(3), of "Some (unreadable e)" None], where s = s1 and j' = j]
      show ?thesis by (simp add: audit_step_def Let_def)
    next
      case (Inr facts)
      with assms o have "answered (target_queries (ck_target ?c)) facts"
        unfolding sound_observer_def by (metis fst_conv)
      then obtain f d where "classify (rd_list rd) (rd_json rd) (ck_target ?c) facts = Some f"
        "drift (rd_diff rd) (ck_target ?c) facts = Some d"
        using classify_answers drift_answers by blast
      with Inr lt w o more [OF found_next [OF Suc.prems(1) lt w(3), of f d], where s = s1 and j' = j]
      show ?thesis by (simp add: audit_step_def Let_def)
    qed
  qed
qed

lemma audit_tree_honest:
  assumes "\<forall>i < length cs. \<forall>x \<in> set (waits_on (cs ! i)). x < i" "sound_observer observe"
  shows "\<exists>rs s'. audit_tree rd observe cs s = Some (rs, s') \<and> honest_reports cs rs"
  using audit_loop_ends [OF assms(2) audit_ok_new [OF assms(1)] refl, of 0 rd s]
  by (simp add: audit_tree_def audit_new_def)

end
