(* ===== verification/Plans.thy ===== *)
theory Plans
  imports Diagnosis
begin

text \<open>
  The plans of requests (\<open>StepSpec\<close> and its implementors in \<open>core/src/ops\<close>): the steps that bring targets
  in line and their companions (\<open>health/mod.rs\<close>), the removal of an installation (\<open>purge/mod.rs\<close>,
  \<open>user_remove/mod.rs\<close>, \<open>removal.rs\<close>), and the plan of an installation (\<open>bootstrap/mod.rs\<close>).

  The outer \<open>None\<close> of \<open>plan_actions\<close> is a panic: a fact that is missing or of another kind.
\<close>

section \<open>Shared parts of removals\<close>

definition NIX_PROVISIONING_MANIFEST :: path where
  "NIX_PROVISIONING_MANIFEST = components ''/nix/.mix-provisioning-manifest''"

definition NIX_ENTRIES :: "path list" where
  "NIX_ENTRIES = [components ''/nix/store'', components ''/nix/var'', NIX_OWNERSHIP_MARKER, NIX_PROVISIONING_MANIFEST]"

definition HOME_TRACES :: "string list" where
  "HOME_TRACES =
     [MIX_STATE_DIR, ''.local/state/nix'', ''.local/state/home-manager'', NIX_PROFILE_LINK, ''.nix-defexpr'',
      ''.nix-channels'', ''.cache/nix'']"

definition MIX_RUN_DIR :: path where "MIX_RUN_DIR = components ''/run/mix''"
definition LOGIN_DEFS :: path where "LOGIN_DEFS = components ''/etc/login.defs''"

text \<open>All values, or \<open>None\<close> when one is missing.\<close>

fun all_some :: "'a option list \<Rightarrow> 'a list option" where
  "all_some [] = Some []"
| "all_some (x # xs) = do { y \<leftarrow> x; ys \<leftarrow> all_some xs; Some (y # ys) }"

definition slice :: "'a list \<Rightarrow> nat \<Rightarrow> nat \<Rightarrow> 'a list option" where
  "slice xs i j = (if i \<le> j \<and> j \<le> length xs then Some (take (j - i) (drop i xs)) else None)"

definition path_of_fact :: "fact \<Rightarrow> path_facts option" where
  "path_of_fact f = (case f of Fact_Path p \<Rightarrow> Some p | _ \<Rightarrow> None)"

definition unit_of_fact :: "fact \<Rightarrow> unit_facts option" where
  "unit_of_fact f = (case f of Fact_Unit u \<Rightarrow> Some u | _ \<Rightarrow> None)"

definition links_of_fact :: "fact \<Rightarrow> (path \<times> file_id) list option" where
  "links_of_fact f = (case f of Fact_UnitLinks ls \<Rightarrow> Some ls | _ \<Rightarrow> None)"

definition set_aside_each :: "path list \<Rightarrow> fact list \<Rightarrow> action list option" where
  "set_aside_each ps facts =
     map_option concat (all_some (map (\<lambda>(p, f). map_option (set_aside_found p) (path_of_fact f)) (zip ps facts)))"

fun aside_links :: "(path \<times> file_id) list \<Rightarrow> path list \<Rightarrow> action list \<times> path list" where
  "aside_links [] seen = ([], seen)"
| "aside_links ((link, fid) # ls) seen =
     (if link \<in> set seen then aside_links ls seen
      else (let (acts, seen) = aside_links ls (seen @ [link]) in (SetAside link fid # acts, seen)))"

fun aside_files :: "(path \<times> fact) list \<Rightarrow> path list \<Rightarrow> action list option" where
  "aside_files [] seen = Some []"
| "aside_files ((p, f) # fs) seen =
     (if p \<in> set seen then aside_files fs seen
      else do {
        found \<leftarrow> path_of_fact f;
        let acts = set_aside_found p found;
        rest \<leftarrow> aside_files fs (if acts = [] then seen else seen @ [p]);
        Some (acts @ rest)
      })"

definition set_aside_units :: "fact list \<Rightarrow> path list \<Rightarrow> fact list \<Rightarrow> action list option" where
  "set_aside_units links files found = do {
     ls \<leftarrow> all_some (map links_of_fact links);
     let (moved, seen) = aside_links (concat ls) [];
     put \<leftarrow> aside_files (zip files found) seen;
     let acts = moved @ put;
     Some (if acts = [] then [] else acts @ [DaemonReload])
   }"

text \<open>The units of \<open>units\<close> that run, stopped.\<close>

definition stop_active :: "string list \<Rightarrow> fact list \<Rightarrow> action list option" where
  "stop_active units facts =
     map_option concat (all_some (map (\<lambda>(unit, f).
         map_option (\<lambda>u. if unf_active_state u = ''active'' then [StopUnit unit] else []) (unit_of_fact f))
       (zip units facts)))"

definition home_traces :: "invoking_user \<Rightarrow> path list" where
  "home_traces user = map (path_join (iu_home user)) HOME_TRACES"

definition remove_home :: "invoking_user \<Rightarrow> fact list \<Rightarrow> action list option" where
  "remove_home user facts = do {
     f \<leftarrow> fact_at facts 0;
     linked \<leftarrow> (case f of Fact_Linked l \<Rightarrow> Some l | _ \<Rightarrow> None);
     rest \<leftarrow> set_aside_each (home_traces user) (tl facts);
     Some (map (\<lambda>(p, fid). SetAside p fid)
         (filter (\<lambda>(p, _). \<not> (\<exists>trace \<in> set (home_traces user). starts_with p trace)) linked) @ rest)
   }"

section \<open>Removing everything\<close>

definition PURGED_UNITS :: "string list" where
  "PURGED_UNITS = [MIX_DAEMON_SOCKET_UNIT, MIX_DAEMON_SERVICE_UNIT, NIX_DAEMON_SOCKET_UNIT, NIX_DAEMON_SERVICE_UNIT]"

definition PURGED_UNIT_FILES :: "path list" where
  "PURGED_UNIT_FILES = [MIX_DAEMON_SOCKET_DEST, MIX_DAEMON_SERVICE_DEST, NIX_DAEMON_SOCKET_DEST, NIX_DAEMON_SERVICE_DEST]"

definition remove_units :: "fact list \<Rightarrow> action list option" where
  "remove_units facts = do {
     stops \<leftarrow> stop_active PURGED_UNITS facts;
     links \<leftarrow> slice facts (length PURGED_UNITS) (2 * length PURGED_UNITS);
     found \<leftarrow> slice facts (2 * length PURGED_UNITS) (length facts);
     asides \<leftarrow> set_aside_units links PURGED_UNIT_FILES found;
     Some (stops @ asides)
   }"

definition policy_dir :: path where
  "policy_dir = (case path_parent POLICY_FILE of Some dir \<Rightarrow> dir | None \<Rightarrow> POLICY_FILE)"

definition machine_paths :: "path list" where
  "machine_paths = NIX_ENTRIES @ [NIX_CONF_DEST, PROFILE_SNIPPET_DEST, policy_dir, MIX_BIN_DIR, MIX_RUN_DIR]"

definition discard_found :: "path \<Rightarrow> path_facts \<Rightarrow> action list" where
  "discard_found p found = (case paf_id found of Some fid \<Rightarrow> [Discard p fid] | None \<Rightarrow> [])"

definition remove_machine :: "fact list \<Rightarrow> action list option" where
  "remove_machine facts = do {
     nix \<leftarrow> slice facts 0 (length NIX_ENTRIES);
     rest \<leftarrow> slice facts (length NIX_ENTRIES) (length facts);
     gone \<leftarrow> map_option concat (all_some (map (\<lambda>(p, f). map_option (discard_found p) (path_of_fact f))
       (zip machine_paths nix)));
     asides \<leftarrow> set_aside_each (drop (length NIX_ENTRIES) machine_paths) rest;
     Some (gone @ asides)
   }"

definition build_users :: "u32 list" where
  "build_users = map of_nat [1..<Suc (unat NIXBLD_USER_COUNT)]"

definition delete_user_found :: "u32 \<Rightarrow> user_facts option \<Rightarrow> action list" where
  "delete_user_found n found =
     (case found of Some u \<Rightarrow> [DeleteUser (user_name n) (uf_uid u, uf_gid u) (uf_comment u)] | None \<Rightarrow> [])"

definition delete_group_found :: "string \<Rightarrow> group_facts option \<Rightarrow> action list" where
  "delete_group_found name found = (case found of Some g \<Rightarrow> [DeleteGroup name (gf_gid g)] | None \<Rightarrow> [])"

definition remove_accounts :: "fact list \<Rightarrow> action list option" where
  "remove_accounts facts = do {
     groups \<leftarrow> slice facts (unat NIXBLD_USER_COUNT) (length facts);
     Some (concat (map (\<lambda>(n, f). case f of Fact_User u \<Rightarrow> delete_user_found n u | _ \<Rightarrow> []) (zip build_users facts))
       @ concat (map (\<lambda>(name, f). case f of Fact_Group g \<Rightarrow> delete_group_found name g | _ \<Rightarrow> [])
           (zip [NIXBLD_GROUP, MIX_USERS_GROUP] groups)))
   }"

section \<open>Who holds a part of the installation\<close>

definition discovery :: "query list" where
  "discovery = [Query_Group MIX_USERS_GROUP, Query_Group NIXBLD_GROUP, Query_Accounts, Query_Contents LOGIN_DEFS]"

record candidates =
  cd_members :: "invoking_user list"
  cd_others :: "invoking_user list"

definition uid_setting :: "string \<Rightarrow> string \<Rightarrow> nat option" where
  "uid_setting login_defs key =
     (case List.map_filter (\<lambda>l. case split_whitespace l of
            w # v # _ \<Rightarrow> if w = key then parse_unsigned (2 ^ 32) v else None
          | _ \<Rightarrow> None) (lines login_defs) of
        n # _ \<Rightarrow> Some n
      | [] \<Rightarrow> None)"

definition or_default :: "'a \<Rightarrow> 'a option \<Rightarrow> 'a" where
  "or_default d x = (case x of Some y \<Rightarrow> y | None \<Rightarrow> d)"

definition uid_range :: "string \<Rightarrow> nat \<times> nat" where
  "uid_range login_defs =
     (or_default 1000 (uid_setting login_defs ''UID_MIN''), or_default 60000 (uid_setting login_defs ''UID_MAX''))"

definition account_user :: "string \<Rightarrow> user_facts \<Rightarrow> invoking_user" where
  "account_user name found = \<lparr>iu_uid = uf_uid found, iu_gid = uf_gid found, iu_name = name, iu_home = uf_home found\<rparr>"

text \<open>Homes are absolute paths in the model.\<close>

definition usable_account :: "string \<Rightarrow> user_facts \<Rightarrow> bool" where
  "usable_account name found \<longleftrightarrow> CHR 0x22 \<notin> set name \<and> valid_utf8 (path_display (uf_home found))"

definition candidates_of :: "fact list \<Rightarrow> candidates option" where
  "candidates_of facts =
     (case facts of
        [Fact_Group members, Fact_Group builders, Fact_Accounts accounts, Fact_Contents login_defs] \<Rightarrow>
          (let mems = List.map_filter (\<lambda>member.
                 case List.find (\<lambda>(name, _). name = member) accounts of
                   Some (name, found) \<Rightarrow> if usable_account name found then Some (account_user name found) else None
                 | None \<Rightarrow> None)
               (case members of Some g \<Rightarrow> gf_members g | None \<Rightarrow> []);
               (lo, hi) = uid_range (utf8_lossy (or_default [] login_defs));
               builders = map_option gf_gid builders;
               others = map (\<lambda>(name, found). account_user name found)
                 (filter (\<lambda>(name, found).
                     lo \<le> unat (uf_uid found) \<and> unat (uf_uid found) \<le> hi \<and> Some (uf_gid found) \<noteq> builders
                     \<and> usable_account name found \<and> name \<notin> iu_name ` set mems) accounts)
           in Some \<lparr>cd_members = mems, cd_others = others\<rparr>)
      | _ \<Rightarrow> None)"

definition candidate_queries :: "candidates \<Rightarrow> query list" where
  "candidate_queries c = map (\<lambda>other. Query_Path (mix_state_dir (iu_home other))) (cd_others c)"

definition holders :: "candidates \<Rightarrow> fact list \<Rightarrow> invoking_user list" where
  "holders c states =
     cd_members c @ map fst (filter (\<lambda>(_, f). case f of Fact_Path p \<Rightarrow> paf_id p \<noteq> None | _ \<Rightarrow> False)
       (zip (cd_others c) states))"

section \<open>An existing installation\<close>

definition EXISTING_UNITS :: "string list" where
  "EXISTING_UNITS = [NIX_DAEMON_SOCKET_UNIT, NIX_DAEMON_SERVICE_UNIT]"

definition EXISTING_UNIT_FILES :: "path list" where
  "EXISTING_UNIT_FILES = [NIX_DAEMON_SERVICE_DEST, NIX_DAEMON_SOCKET_DEST]"

definition EXISTING_PATHS :: "path list" where
  "EXISTING_PATHS = [NIX_CONF_DEST, PROFILE_SNIPPET_DEST, POLICY_FILE, components ''/nix'']"

definition existing_queries :: "path option \<Rightarrow> query list" where
  "existing_queries profiles =
     map Query_Unit EXISTING_UNITS @ map Query_UnitLinks EXISTING_UNITS @ map Query_Path EXISTING_UNIT_FILES
     @ map (\<lambda>n. Query_User (user_name n)) build_users @ [Query_Group NIXBLD_GROUP, Query_Group MIX_USERS_GROUP]
     @ map Query_Path EXISTING_PATHS @ (case profiles of Some p \<Rightarrow> [Query_Path p] | None \<Rightarrow> [])"

definition user_fact :: "fact list \<Rightarrow> nat \<Rightarrow> user_facts option option" where
  "user_fact facts i = (case fact_at facts i of Some (Fact_User u) \<Rightarrow> Some u | _ \<Rightarrow> None)"

definition group_fact :: "fact list \<Rightarrow> nat \<Rightarrow> group_facts option option" where
  "group_fact facts i = (case fact_at facts i of Some (Fact_Group g) \<Rightarrow> Some g | _ \<Rightarrow> None)"

definition unit_fact :: "fact list \<Rightarrow> nat \<Rightarrow> unit_facts option" where
  "unit_fact facts i = Option.bind (fact_at facts i) unit_of_fact"

definition indexed_from :: "nat \<Rightarrow> 'a list \<Rightarrow> (nat \<times> 'a) list" where
  "indexed_from n xs = zip [n..<n + length xs] xs"

definition remove_existing :: "path option \<Rightarrow> fact list \<Rightarrow> action list option" where
  "remove_existing profiles facts = do {
     stops \<leftarrow> all_some (map (\<lambda>(i, unit).
         map_option (\<lambda>u. if unf_active_state u = ''active'' then [StopUnit unit] else []) (unit_fact facts i))
       (indexed_from 0 EXISTING_UNITS));
     let files = 2 * length EXISTING_UNITS;
     links \<leftarrow> slice facts (length EXISTING_UNITS) files;
     found \<leftarrow> slice facts files (files + length EXISTING_UNIT_FILES);
     asides \<leftarrow> set_aside_units links EXISTING_UNIT_FILES found;
     let users = files + length EXISTING_UNIT_FILES;
     accounts \<leftarrow> all_some (map (\<lambda>(i, n). map_option (delete_user_found n) (user_fact facts i))
       (indexed_from users build_users));
     let groups = users + unat NIXBLD_USER_COUNT;
     gs \<leftarrow> all_some (map (\<lambda>(i, name). map_option (delete_group_found name) (group_fact facts i))
       (indexed_from groups [NIXBLD_GROUP, MIX_USERS_GROUP]));
     let paths = groups + 2;
     ps \<leftarrow> all_some (map (\<lambda>(i, p). map_option (set_aside_found p) (path_fact facts i))
       (indexed_from paths EXISTING_PATHS));
     profile \<leftarrow> (case profiles of
         None \<Rightarrow> Some []
       | Some p \<Rightarrow> map_option (set_aside_found p) (path_fact facts (paths + length EXISTING_PATHS)));
     Some (concat stops @ asides @ concat accounts @ concat gs @ concat ps @ profile)
   }"

definition stale_restart :: "unit_facts \<Rightarrow> (int \<times> nat) option \<Rightarrow> action list" where
  "stale_restart service configured =
     (if unf_active_state service = ''active''
         \<and> (case (unf_active_since service, configured) of (Some since, Some c) \<Rightarrow> since < c | _ \<Rightarrow> False)
      then [RestartUnit NIX_DAEMON_SERVICE_UNIT] else [])"

section \<open>Steps\<close>

datatype plan_step =
    Step_Target target string string verb "nat list" "nat \<times> nat"
  | Step_RestartIfStale "nat list"
  | Step_DrainIfStale "nat list"
  | Step_Record invoking_user "nat list"
  | Step_StopServices
  | Step_RemoveHome invoking_user
  | Step_RemoveUnits
  | Step_RemoveMachine
  | Step_RemoveAccounts
  | Step_RemoveMembership invoking_user
  | Step_RemoveExisting "path option"

definition DRAINED_BY :: "path list" where
  "DRAINED_BY = [MIX_DAEMON_BIN, MIX_DAEMON_SERVICE_DEST, MIX_DAEMON_SOCKET_DEST]"

fun plan_key :: "plan_step \<Rightarrow> string" where
  "plan_key (Step_Target _ label _ _ _ _) = label"
| "plan_key (Step_RestartIfStale _) = ''restart-nix-daemon''"
| "plan_key (Step_DrainIfStale _) = ''drain-mix-daemon''"
| "plan_key (Step_Record _ _) = ''record''"
| "plan_key Step_StopServices = ''stop-services''"
| "plan_key (Step_RemoveHome user) = ''remove-home:'' @ iu_name user"
| "plan_key Step_RemoveUnits = ''remove-units''"
| "plan_key Step_RemoveMachine = ''remove-machine''"
| "plan_key Step_RemoveAccounts = ''remove-accounts''"
| "plan_key (Step_RemoveMembership user) = ''remove-membership:'' @ iu_name user"
| "plan_key (Step_RemoveExisting _) = ''remove-existing-installation''"

definition target_title :: "target \<Rightarrow> verb \<Rightarrow> string \<Rightarrow> verb \<times> string" where
  "target_title t verb label =
     (case t of
        T_Activation _ _ (Some v) subject _ \<Rightarrow> (v, subject)
      | T_Retention _ _ _ \<Rightarrow> (Verb_Removing, ''old generations'')
      | _ \<Rightarrow> (verb, label))"

fun plan_title :: "plan_step \<Rightarrow> verb \<times> string" where
  "plan_title (Step_Target t label _ verb _ _) = target_title t verb label"
| "plan_title (Step_RestartIfStale _) = (Verb_Restarting, ''Nix daemon'')"
| "plan_title (Step_DrainIfStale _) = (Verb_Restarting, ''mix daemon'')"
| "plan_title (Step_Record _ _) = (Verb_Recording, ''configuration'')"
| "plan_title Step_StopServices = (Verb_Removing, ''mix and Nix services'')"
| "plan_title (Step_RemoveHome user) = (Verb_Removing, ''mix from '' @ path_text (iu_home user))"
| "plan_title Step_RemoveUnits = (Verb_Removing, ''mix and Nix unit files'')"
| "plan_title Step_RemoveMachine = (Verb_Removing, ''/nix, /etc, /run/mix and /var/lib/mix'')"
| "plan_title Step_RemoveAccounts = (Verb_Removing, ''build users and groups'')"
| "plan_title (Step_RemoveMembership user) = (Verb_Removing, iu_name user @ '' from '' @ MIX_USERS_GROUP)"
| "plan_title (Step_RemoveExisting _) = (Verb_Removing, ''existing installation'')"

fun plan_queries :: "plan_step \<Rightarrow> query list" where
  "plan_queries (Step_Target t _ _ _ _ _) = target_queries t"
| "plan_queries (Step_RestartIfStale _) = [Query_Unit NIX_DAEMON_SERVICE_UNIT, Query_Path NIX_CONF_DEST]"
| "plan_queries (Step_DrainIfStale _) = Query_Unit MIX_DAEMON_SERVICE_UNIT # map Query_Path DRAINED_BY"
| "plan_queries (Step_Record user _) = [Query_Repository user]"
| "plan_queries Step_StopServices = map Query_Unit PURGED_UNITS"
| "plan_queries (Step_RemoveHome user) = Query_Linked user # map Query_Path (home_traces user)"
| "plan_queries Step_RemoveUnits =
     map Query_Unit PURGED_UNITS @ map Query_UnitLinks PURGED_UNITS @ map Query_Path PURGED_UNIT_FILES"
| "plan_queries Step_RemoveMachine = map Query_Path machine_paths"
| "plan_queries Step_RemoveAccounts =
     map (\<lambda>n. Query_User (user_name n)) build_users @ map Query_Group [NIXBLD_GROUP, MIX_USERS_GROUP]"
| "plan_queries (Step_RemoveMembership user) = [Query_Group MIX_USERS_GROUP]"
| "plan_queries (Step_RemoveExisting profiles) = existing_queries profiles"

fun plan_shielded :: "plan_step \<Rightarrow> bool" where
  "plan_shielded (Step_Record _ _) = True"
| "plan_shielded _ = False"

fun plan_after :: "plan_step \<Rightarrow> nat list" where
  "plan_after (Step_Target _ _ _ _ after _) = after"
| "plan_after (Step_RestartIfStale after) = after"
| "plan_after (Step_DrainIfStale after) = after"
| "plan_after (Step_Record _ after) = after"
| "plan_after _ = []"

fun plan_within :: "plan_step \<Rightarrow> nat \<times> nat" where
  "plan_within (Step_Target _ _ _ _ _ within) = within"
| "plan_within _ = (0, 0)"

definition target_actions ::
  "readers \<Rightarrow> target \<Rightarrow> string \<Rightarrow> string \<Rightarrow> fact list \<Rightarrow> (failure + action list) option" where
  "target_actions rd t label req facts = do {
     f \<leftarrow> classify (rd_list rd) (rd_json rd) t facts;
     case f of
       None \<Rightarrow> Some (Inr [])
     | Some f \<Rightarrow> do {
         r \<leftarrow> fix_target t f facts req;
         Some (case r of Inl why \<Rightarrow> Inl (Unrepairable label why) | Inr acts \<Rightarrow> Inr acts)
       }
   }"

text \<open>Whether a path changed later: the search stops at the first that did.\<close>

fun any_newer :: "int \<times> nat \<Rightarrow> fact list \<Rightarrow> bool option" where
  "any_newer since [] = Some False"
| "any_newer since (f # fs) = do {
     p \<leftarrow> path_of_fact f;
     if (case paf_changed p of Some c \<Rightarrow> since < c | None \<Rightarrow> False) then Some True else any_newer since fs
   }"

definition drain_if_stale :: "fact list \<Rightarrow> action list option" where
  "drain_if_stale facts = do {
     f \<leftarrow> fact_at facts 0;
     case f of
       Fact_Unit service \<Rightarrow>
         (case unf_active_since service of
            Some since \<Rightarrow>
              if unf_active_state service = ''active''
              then do {
                stale \<leftarrow> any_newer since (tl facts);
                Some (if stale then [DrainService MIX_DAEMON_SERVICE_UNIT] else [])
              }
              else Some []
          | None \<Rightarrow> Some [])
     | _ \<Rightarrow> Some []
   }"

fun plan_actions :: "readers \<Rightarrow> plan_step \<Rightarrow> fact list \<Rightarrow> (failure + action list) option" where
  "plan_actions rd (Step_Target t label req _ _ _) facts = target_actions rd t label req facts"
| "plan_actions rd (Step_RestartIfStale _) facts = do {
     f \<leftarrow> fact_at facts 0;
     case f of
       Fact_Unit service \<Rightarrow> do { p \<leftarrow> path_fact facts 1; Some (Inr (stale_restart service (paf_changed p))) }
     | _ \<Rightarrow> Some (Inr [])
   }"
| "plan_actions rd (Step_DrainIfStale _) facts = map_option Inr (drain_if_stale facts)"
| "plan_actions rd (Step_Record user _) facts = do {
     f \<leftarrow> fact_at facts 0;
     Some (Inr (case f of Fact_Repository True False \<Rightarrow> [RecordState user] | _ \<Rightarrow> []))
   }"
| "plan_actions rd Step_StopServices facts = map_option Inr (stop_active PURGED_UNITS facts)"
| "plan_actions rd (Step_RemoveHome user) facts = map_option Inr (remove_home user facts)"
| "plan_actions rd Step_RemoveUnits facts = map_option Inr (remove_units facts)"
| "plan_actions rd Step_RemoveMachine facts = map_option Inr (remove_machine facts)"
| "plan_actions rd Step_RemoveAccounts facts = map_option Inr (remove_accounts facts)"
| "plan_actions rd (Step_RemoveMembership user) facts = do {
     f \<leftarrow> fact_at facts 0;
     Some (Inr (case f of
         Fact_Group (Some g) \<Rightarrow>
           if iu_name user \<in> set (gf_members g) then [RemoveMember MIX_USERS_GROUP (iu_name user)] else []
       | _ \<Rightarrow> []))
   }"
| "plan_actions rd (Step_RemoveExisting profiles) facts = map_option Inr (remove_existing profiles facts)"

section \<open>Plans\<close>

definition shifted :: "nat \<Rightarrow> nat \<times> nat \<Rightarrow> nat \<times> nat" where
  "shifted offset r = (fst r + offset, snd r + offset)"

definition target_step :: "nat \<Rightarrow> string \<Rightarrow> verb \<Rightarrow> check \<Rightarrow> plan_step" where
  "target_step offset req verb c =
     Step_Target (ck_target c) (check_label c) req verb (map (\<lambda>i. i + offset) (ck_after c)) (shifted offset (ck_within c))"

definition check_at :: "nat \<Rightarrow> (target \<Rightarrow> bool) \<Rightarrow> check list \<Rightarrow> nat option" where
  "check_at offset wanted cs = map_option (\<lambda>i. i + offset) (find_index (\<lambda>c. wanted (ck_target c)) cs)"

definition is_unit_target :: "string \<Rightarrow> target \<Rightarrow> bool" where
  "is_unit_target name t = (case t of T_SystemdUnit n _ _ \<Rightarrow> n = name | _ \<Rightarrow> False)"

definition is_conf_target :: "target \<Rightarrow> bool" where
  "is_conf_target t = (case t of T_File p _ _ _ \<Rightarrow> p = NIX_CONF_DEST | _ \<Rightarrow> False)"

definition is_program_target :: "target \<Rightarrow> bool" where
  "is_program_target t = (case t of T_Program _ _ _ \<Rightarrow> True | _ \<Rightarrow> False)"

definition is_activation_target :: "target \<Rightarrow> bool" where
  "is_activation_target t = (case t of T_Activation _ _ _ _ _ \<Rightarrow> True | _ \<Rightarrow> False)"

definition is_history_target :: "target \<Rightarrow> bool" where
  "is_history_target t = (case t of T_History _ _ \<Rightarrow> True | _ \<Rightarrow> False)"

definition reconcile_steps :: "plan_step list \<Rightarrow> check list \<Rightarrow> string \<Rightarrow> verb \<Rightarrow> plan_step list" where
  "reconcile_steps before cs req verb =
     (let offset = length before;
          nix_conf = check_at offset is_conf_target cs;
          program = check_at offset is_program_target cs;
          activation = check_at offset is_activation_target cs
      in before @ map (target_step offset req verb) cs
       @ (case check_at offset (is_unit_target NIX_DAEMON_SERVICE_UNIT) cs of
            Some service \<Rightarrow> [Step_RestartIfStale (option_list nix_conf @ [service])] | None \<Rightarrow> [])
       @ (case check_at offset (is_unit_target MIX_DAEMON_SERVICE_UNIT) cs of
            Some service \<Rightarrow> [Step_DrainIfStale (option_list program @ [service])] | None \<Rightarrow> [])
       @ (case find_index (\<lambda>c. is_history_target (ck_target c)) cs of
            Some i \<Rightarrow>
              (case ck_target (cs ! i) of
                 T_History _ user \<Rightarrow> [Step_Record user ((i + offset) # option_list activation)]
               | _ \<Rightarrow> [])
          | None \<Rightarrow> []))"

definition repair_steps :: "check list \<Rightarrow> string \<Rightarrow> plan_step list" where
  "repair_steps cs req = reconcile_steps [] cs req Verb_Repairing"

definition target_steps :: "check list \<Rightarrow> string \<Rightarrow> plan_step list" where
  "target_steps cs req =
     map (\<lambda>c. Step_Target (ck_target c) (check_label c) req Verb_Repairing (ck_after c) (ck_within c)) cs"

definition purge_steps :: "invoking_user list \<Rightarrow> plan_step list" where
  "purge_steps users =
     [Step_StopServices] @ map Step_RemoveHome users @ [Step_RemoveUnits, Step_RemoveMachine, Step_RemoveAccounts]"

definition user_remove_steps :: "invoking_user \<Rightarrow> plan_step list" where
  "user_remove_steps user = [Step_RemoveHome user, Step_RemoveMembership user]"

lemma fix_answers:
  assumes "answered (target_queries t) facts"
  shows "\<exists>r. fix_target t f facts req = Some r"
proof -
  have "\<exists>r. fix_fixable t f facts req = Some r"
    using assms
    by (cases t)
      (auto simp: owner_query_def fix_file_def fix_unit_def unit_source_bytes_def leftovers_def path_fact_def
        contents_fact_def Let_def split: option.splits unit_source.splits if_splits)
  then show ?thesis by (auto simp: fix_target_def split: target.splits option.splits)
qed

section \<open>No step panics\<close>

lemma all_some_iff: "(\<exists>ys. all_some xs = Some ys) \<longleftrightarrow> (\<forall>x \<in> set xs. x \<noteq> None)"
  by (induction xs) (auto simp: bind_eq_Some_conv)

lemma all_someI: "(\<And>x. x \<in> set xs \<Longrightarrow> x \<noteq> None) \<Longrightarrow> \<exists>ys. all_some xs = Some ys"
  using all_some_iff by blast

lemma answered_map:
  "answered (map q xs) facts \<longleftrightarrow> length facts = length xs \<and> (\<forall>i < length xs. answers (q (xs ! i)) (facts ! i))"
  by (auto simp: answered_def list_all2_conv_all_nth)

lemma answered_length: "answered qs facts \<Longrightarrow> length facts = length qs"
  by (simp add: answered_def list_all2_lengthD)

lemma paths_answered:
  assumes "answered (map Query_Path ps) facts" "f \<in> set facts"
  shows "\<exists>p. f = Fact_Path p" "\<exists>p. path_of_fact f = Some p"
  using assms by (auto simp: answered_map in_set_conv_nth path_of_fact_def)

lemma units_answered:
  assumes "answered (map Query_Unit us) facts" "f \<in> set facts"
  shows "\<exists>u. unit_of_fact f = Some u"
  using assms by (auto simp: answered_map in_set_conv_nth unit_of_fact_def)

lemma links_answered:
  assumes "answered (map Query_UnitLinks us) facts" "f \<in> set facts"
  shows "\<exists>l. links_of_fact f = Some l"
  using assms by (auto simp: answered_map in_set_conv_nth links_of_fact_def)

lemma set_aside_each_some:
  assumes "answered (map Query_Path qs) facts"
  shows "\<exists>acts. set_aside_each ps facts = Some acts"
proof -
  have "\<exists>ys. all_some (map (\<lambda>(p, f). map_option (set_aside_found p) (path_of_fact f)) (zip ps facts)) = Some ys"
    by (rule all_someI) (auto dest!: set_zip_rightD paths_answered(2) [OF assms])
  then show ?thesis by (auto simp: set_aside_each_def)
qed

lemma aside_files_some:
  "\<forall>x \<in> set fs. \<exists>p. snd x = Fact_Path p \<Longrightarrow> \<exists>acts. aside_files fs seen = Some acts"
proof (induction fs arbitrary: seen)
  case (Cons x fs)
  then obtain p where "snd x = Fact_Path p" by auto
  then have "\<exists>acts. aside_files (x # fs) seen = Some acts" if "\<forall>seen. \<exists>acts. aside_files fs seen = Some acts"
    using that by (cases x) (auto simp: path_of_fact_def Let_def bind_eq_Some_conv)
  with Cons show ?case by simp
qed simp

lemma set_aside_units_some:
  assumes "answered (map Query_UnitLinks us) links" "answered (map Query_Path qs) found"
  shows "\<exists>acts. set_aside_units links files found = Some acts"
proof -
  have "\<exists>ls. all_some (map links_of_fact links) = Some ls"
    by (rule all_someI) (auto dest!: links_answered [OF assms(1)])
  then obtain ls where ls: "all_some (map links_of_fact links) = Some ls" by blast
  have "\<forall>x \<in> set (zip files found). \<exists>p. snd x = Fact_Path p"
    using paths_answered(1) [OF assms(2)] by (auto dest!: set_zip_rightD)
  from aside_files_some [OF this] obtain put where
    "aside_files (zip files found) (snd (aside_links (concat ls) [])) = Some put" by blast
  with ls show ?thesis by (simp add: set_aside_units_def Let_def split_beta)
qed

lemma stop_active_some:
  assumes "answered (map Query_Unit qs) facts" "length us \<le> length facts"
  shows "\<exists>acts. stop_active us (facts @ rest) = Some acts"
proof -
  have z: "zip us (facts @ rest) = zip us facts" using assms(2) by (simp add: zip_append2)
  have "\<exists>ys. all_some (map (\<lambda>(unit, f).
      map_option (\<lambda>u. if unf_active_state u = ''active'' then [StopUnit unit] else []) (unit_of_fact f))
      (zip us facts)) = Some ys"
    by (rule all_someI) (auto dest!: set_zip_rightD units_answered [OF assms(1)])
  then show ?thesis by (auto simp: stop_active_def z)
qed

lemma remove_home_some:
  assumes "answered (Query_Linked user # map Query_Path (home_traces user)) facts"
  shows "\<exists>acts. remove_home user facts = Some acts"
proof -
  from assms obtain l fs where facts: "facts = Fact_Linked l # fs" "answered (map Query_Path (home_traces user)) fs"
    by (auto simp del: answered_map)
  from set_aside_each_some [OF facts(2)] obtain acts where "set_aside_each (home_traces user) fs = Some acts" by blast
  with facts(1) show ?thesis by (simp add: remove_home_def)
qed

lemma any_newer_some: "\<forall>f \<in> set fs. \<exists>p. path_of_fact f = Some p \<Longrightarrow> \<exists>b. any_newer since fs = Some b"
  by (induction fs) auto

lemma slice_parts:
  "length xs = i \<Longrightarrow> length ys = j - i \<Longrightarrow> i \<le> j \<Longrightarrow> slice (xs @ ys @ zs) i j = Some ys"
  "length xs = i \<Longrightarrow> j = i + length ys \<Longrightarrow> slice (xs @ ys) i j = Some ys"
  by (auto simp: slice_def)

lemma remove_units_some:
  assumes "answered (plan_queries Step_RemoveUnits) facts"
  shows "\<exists>acts. remove_units facts = Some acts"
proof -
  from assms obtain us ls fs where facts: "facts = us @ ls @ fs" "answered (map Query_Unit PURGED_UNITS) us"
    "answered (map Query_UnitLinks PURGED_UNITS) ls" "answered (map Query_Path PURGED_UNIT_FILES) fs"
    by (auto simp: answered_append simp del: answered_map)
  then have len: "length us = length PURGED_UNITS" "length ls = length PURGED_UNITS" "length fs = length PURGED_UNIT_FILES"
    by (simp_all add: answered_map)
  obtain stops where s: "stop_active PURGED_UNITS facts = Some stops"
    using stop_active_some [OF facts(2), of PURGED_UNITS "ls @ fs"] len facts(1) by auto
  obtain asides where a: "set_aside_units ls PURGED_UNIT_FILES fs = Some asides"
    using set_aside_units_some [OF facts(3,4)] by blast
  have "slice facts (length PURGED_UNITS) (2 * length PURGED_UNITS) = Some ls"
    "slice facts (2 * length PURGED_UNITS) (length facts) = Some fs"
    using len facts(1) slice_parts(1) [of us "length PURGED_UNITS" ls "2 * length PURGED_UNITS" fs]
      slice_parts(2) [of "us @ ls" "2 * length PURGED_UNITS" "length facts" fs] by simp_all
  with s a show ?thesis by (simp add: remove_units_def)
qed

lemma remove_machine_some:
  assumes "answered (plan_queries Step_RemoveMachine) facts"
  shows "\<exists>acts. remove_machine facts = Some acts"
proof -
  have "machine_paths = take (length NIX_ENTRIES) machine_paths @ drop (length NIX_ENTRIES) machine_paths" by simp
  with assms obtain nix fs where facts: "facts = nix @ fs" "answered (map Query_Path (take (length NIX_ENTRIES) machine_paths)) nix"
    "answered (map Query_Path (drop (length NIX_ENTRIES) machine_paths)) fs"
    unfolding plan_queries.simps by (metis answered_append map_append)
  have len: "length nix = length NIX_ENTRIES"
    using answered_length [OF facts(2)] by (simp add: machine_paths_def)
  have "\<exists>ys. all_some (map (\<lambda>(p, f). map_option (discard_found p) (path_of_fact f)) (zip machine_paths nix)) = Some ys"
    by (rule all_someI) (auto dest!: set_zip_rightD paths_answered(2) [OF facts(2)])
  moreover obtain asides where "set_aside_each (drop (length NIX_ENTRIES) machine_paths) fs = Some asides"
    using set_aside_each_some [OF facts(3)] by blast
  moreover have "slice facts 0 (length NIX_ENTRIES) = Some nix" "slice facts (length NIX_ENTRIES) (length facts) = Some fs"
    using len facts(1) by (simp_all add: slice_def)
  ultimately show ?thesis by (auto simp: remove_machine_def)
qed

lemma remove_accounts_some:
  assumes "answered (plan_queries Step_RemoveAccounts) facts"
  shows "\<exists>acts. remove_accounts facts = Some acts"
proof -
  have "unat NIXBLD_USER_COUNT \<le> length facts"
    using answered_length [OF assms] by (simp add: build_users_def)
  then show ?thesis by (simp add: remove_accounts_def slice_def)
qed

text \<open>The facts of an installation, by their places.\<close>

lemma answered_nth:
  assumes "answered (qs @ map q xs @ rs) facts" "(i, x) \<in> set (indexed_from (length qs) xs)"
  shows "\<exists>f. fact_at facts i = Some f \<and> answers (q x) f"
proof -
  from assms(1) obtain as bs cs where f: "facts = as @ bs @ cs" "answered qs as" "answered (map q xs) bs"
    by (auto simp: answered_append simp del: answered_map)
  from assms(2) obtain k where k: "k < length xs" "i = length qs + k" "x = xs ! k"
    by (auto simp: indexed_from_def in_set_conv_nth)
  with f answered_length [OF f(2)] show ?thesis
    by (auto simp: answered_map fact_at_def nth_append)
qed

lemma answered_slice:
  assumes "answered (qs @ map q xs @ rs) facts" "length qs = i" "length xs = j - i" "i \<le> j"
  shows "\<exists>fs. slice facts i j = Some fs \<and> answered (map q xs) fs"
proof -
  from assms(1) obtain as bs cs where f: "facts = as @ bs @ cs" "answered qs as" "answered (map q xs) bs"
    by (auto simp: answered_append simp del: answered_map)
  then have "length as = i" "length bs = j - i" using answered_length assms(2,3) by force+
  with f assms(4) slice_parts(1) show ?thesis by blast
qed

lemma remove_existing_some:
  assumes "answered (existing_queries profiles) facts"
  shows "\<exists>acts. remove_existing profiles facts = Some acts"
proof -
  let ?u = "map Query_Unit EXISTING_UNITS" and ?l = "map Query_UnitLinks EXISTING_UNITS"
    and ?f = "map Query_Path EXISTING_UNIT_FILES" and ?b = "map (\<lambda>n. Query_User (user_name n)) build_users"
    and ?g = "map Query_Group [NIXBLD_GROUP, MIX_USERS_GROUP]" and ?p = "map Query_Path EXISTING_PATHS"
    and ?r = "map Query_Path (option_list profiles)"
  have all: "answered (?u @ ?l @ ?f @ ?b @ ?g @ ?p @ ?r) facts"
    using assms by (simp add: existing_queries_def option_list_def split: option.splits)
  have len: "length EXISTING_UNITS = 2" "length EXISTING_UNIT_FILES = 2" "length build_users = 32"
    "unat NIXBLD_USER_COUNT = 32" "length EXISTING_PATHS = 4"
    by (simp_all add: EXISTING_UNITS_def EXISTING_UNIT_FILES_def build_users_def NIXBLD_USER_COUNT_def EXISTING_PATHS_def)
  have stops: "\<exists>ys. all_some (map (\<lambda>(i, unit).
      map_option (\<lambda>u. if unf_active_state u = ''active'' then [StopUnit unit] else []) (unit_fact facts i))
      (indexed_from 0 EXISTING_UNITS)) = Some ys"
    by (rule all_someI)
      (auto dest!: answered_nth [of "[]" Query_Unit EXISTING_UNITS, simplified, OF all] simp: unit_fact_def unit_of_fact_def)
  have users: "\<exists>ys. all_some (map (\<lambda>(i, n). map_option (delete_user_found n) (user_fact facts i))
      (indexed_from 6 build_users)) = Some ys"
    using answered_nth [of "?u @ ?l @ ?f" "\<lambda>n. Query_User (user_name n)" build_users "?g @ ?p @ ?r" facts] all len
    by (intro all_someI) (fastforce simp: user_fact_def)
  have groups: "\<exists>ys. all_some (map (\<lambda>(i, name). map_option (delete_group_found name) (group_fact facts i))
      (indexed_from 38 [NIXBLD_GROUP, MIX_USERS_GROUP])) = Some ys"
    using answered_nth [of "?u @ ?l @ ?f @ ?b" Query_Group "[NIXBLD_GROUP, MIX_USERS_GROUP]" "?p @ ?r" facts] all len
    by (intro all_someI) (fastforce simp: group_fact_def)
  have paths: "\<exists>ys. all_some (map (\<lambda>(i, p). map_option (set_aside_found p) (path_fact facts i))
      (indexed_from 40 EXISTING_PATHS)) = Some ys"
    using answered_nth [of "?u @ ?l @ ?f @ ?b @ ?g" Query_Path EXISTING_PATHS ?r facts] all len
    by (intro all_someI) (fastforce simp: path_fact_def)
  have profile: "\<exists>p. path_fact facts 44 = Some p" if "profiles = Some q" for q
    using answered_nth [of "?u @ ?l @ ?f @ ?b @ ?g @ ?p" Query_Path "option_list profiles" "[]" facts 44 q] all len that
    by (auto simp: indexed_from_def option_list_def)
  from answered_slice [of ?u Query_UnitLinks EXISTING_UNITS "?f @ ?b @ ?g @ ?p @ ?r" facts 2 4] all len
  obtain links where links: "slice facts 2 4 = Some links" "answered ?l links" by auto
  from answered_slice [of "?u @ ?l" Query_Path EXISTING_UNIT_FILES "?b @ ?g @ ?p @ ?r" facts 4 6] all len
  obtain found where found: "slice facts 4 6 = Some found" "answered ?f found" by auto
  obtain asides where "set_aside_units links EXISTING_UNIT_FILES found = Some asides"
    using set_aside_units_some [OF links(2) found(2)] by blast
  with stops users groups paths profile links(1) found(1) show ?thesis
    by (cases profiles) (auto simp: remove_existing_def len simp del: facts_simps)
qed

lemma plan_answers:
  assumes "answered (plan_queries step) facts"
  shows "\<exists>r. plan_actions rd step facts = Some r"
proof (cases step)
  case (Step_Target t label req verb after within)
  with assms obtain f where "classify (rd_list rd) (rd_json rd) t facts = Some f" using classify_answers by fastforce
  moreover have "\<exists>r. fix_target t f facts req = Some r" for f using assms Step_Target fix_answers by simp
  ultimately show ?thesis using Step_Target by (auto simp: target_actions_def split: option.splits) (metis bind.bind_lunit)
next
  case (Step_DrainIfStale after)
  with assms obtain u fs where facts: "facts = Fact_Unit u # fs" "answered (map Query_Path DRAINED_BY) fs" by auto
  have "\<exists>b. any_newer since fs = Some b" for since
    using any_newer_some paths_answered(2) [OF facts(2)] by blast
  then show ?thesis
    unfolding Step_DrainIfStale facts(1) by (cases "unf_active_since u") (auto simp: drain_if_stale_def bind_eq_Some_conv)
next
  case Step_StopServices
  then show ?thesis using assms stop_active_some [of PURGED_UNITS facts PURGED_UNITS "[]"] answered_length [OF assms] by auto
next
  case (Step_RemoveHome user)
  then show ?thesis using assms remove_home_some by auto
next
  case (Step_RemoveExisting profiles)
  then show ?thesis using assms remove_existing_some by auto
next
  case (Step_RestartIfStale after)
  then show ?thesis using assms by (auto simp: path_fact_def)
qed (use assms remove_units_some remove_machine_some remove_accounts_some in \<open>auto simp del: answered_map\<close>)

section \<open>Steps wait on earlier steps\<close>

definition plan_waits :: "plan_step \<Rightarrow> nat set" where
  "plan_waits s = set (plan_after s) \<union> {fst (plan_within s) ..< snd (plan_within s)}"

definition plan_ordered :: "plan_step list \<Rightarrow> bool" where
  "plan_ordered plan \<longleftrightarrow> (\<forall>i < length plan. \<forall>x \<in> plan_waits (plan ! i). x < i)"

lemma plan_ordered_snoc: "plan_ordered (plan @ [s]) \<longleftrightarrow> plan_ordered plan \<and> (\<forall>x \<in> plan_waits s. x < length plan)"
  unfolding plan_ordered_def by (auto simp: nth_append less_Suc_eq)

lemma plan_ordered_before:
  assumes "plan_ordered plan" "\<forall>s \<in> set more_steps. \<forall>x \<in> plan_waits s. x < length plan"
  shows "plan_ordered (plan @ more_steps)"
  using assms(2)
proof (induction more_steps rule: rev_induct)
  case (snoc s ss)
  then have "plan_ordered (plan @ ss)" "\<forall>x \<in> plan_waits s. x < length (plan @ ss)" by auto
  then show ?case using plan_ordered_snoc [of "plan @ ss" s] by simp
qed (use assms(1) in simp)

lemma target_step_waits: "plan_waits (target_step n req verb c) = (\<lambda>x. x + n) ` set (waits_on c)"
proof -
  have "{a + n ..< b + n} = (\<lambda>x. x + n) ` {a ..< b}" for a b by simp
  then show ?thesis by (simp add: plan_waits_def target_step_def waits_on_def shifted_def image_Un)
qed

lemma check_at_less: "check_at n wanted cs = Some i \<Longrightarrow> i < n + length cs"
  by (auto simp: check_at_def dest: find_index_Some)

lemma reconcile_ordered:
  assumes before: "plan_ordered before" and waits: "\<forall>i < length cs. \<forall>x \<in> set (waits_on (cs ! i)). x < i"
  shows "plan_ordered (reconcile_steps before cs req verb)"
proof -
  let ?ts = "map (target_step (length before) req verb) cs"
  have "plan_ordered (before @ map (target_step (length before) req verb) (take n cs))" if "n \<le> length cs" for n
    using that
  proof (induction n)
    case (Suc n)
    then have "n < length cs" by simp
    with waits have "\<forall>x \<in> plan_waits (target_step (length before) req verb (cs ! n)). x < length before + n"
      by (auto simp: target_step_waits)
    with Suc show ?case
      using plan_ordered_snoc [of "before @ map (target_step (length before) req verb) (take n cs)"]
      by (simp add: take_Suc_conv_app_nth)
  qed (use before in simp)
  from this [of "length cs"] have targets: "plan_ordered (before @ ?ts)" by simp
  show ?thesis
    unfolding reconcile_steps_def Let_def append.assoc [symmetric]
    unfolding append.assoc
    by (subst append.assoc [symmetric], rule plan_ordered_before [OF targets])
      (auto simp: plan_waits_def option_list_def
        dest!: check_at_less check_at_less [OF sym] find_index_Some find_index_Some [OF sym]
        split: option.splits target.splits)
qed

end
