(* ===== verification/Nix_Home.thy ===== *)
theory Nix_Home
  imports Nix_Round_Expr Paths
begin

text \<open>
  The module of home-manager that mix writes for a user (\<open>nixgen/src/home.rs\<close>): what it accepts, the
  file it renders with the operations of the writer, and the expression that file is.
\<close>

section \<open>The module\<close>

datatype invalid_input =
    Invalid_UserName string
  | Invalid_HomeDirectory path
  | Invalid_Ident string

definition rejected :: "invalid_input \<Rightarrow> string option" where
  "rejected e = (case e of Invalid_Ident i \<Rightarrow> Some i | _ \<Rightarrow> None)"

definition is_state_version :: "string \<Rightarrow> bool" where
  "is_state_version s \<longleftrightarrow>
     length s = 5 \<and> is_digit (s ! 0) \<and> is_digit (s ! 1) \<and> s ! 2 = CHR ''.''
     \<and> ((s ! 3 = CHR ''0'' \<and> s ! 4 = CHR ''5'') \<or> (s ! 3 = CHR ''1'' \<and> s ! 4 = CHR ''1''))"

definition home_user_name :: "string \<Rightarrow> invalid_input + nix_str" where
  "home_user_name name =
     (let blank = list_all (\<lambda>c. c = CHR '' '' \<or> c = CHR 0x09 \<or> c = newline) name
      in case nix_str_new name of
          Inr t \<Rightarrow> if \<not> blank then Inr t else Inl (Invalid_UserName name)
        | Inl _ \<Rightarrow> Inl (Invalid_UserName name))"

text \<open>Paths are absolute in the model; \<open>to_str\<close> fails on a text that is not UTF-8.\<close>

definition home_dir :: "path \<Rightarrow> invalid_input + nix_str" where
  "home_dir p =
     (if \<not> valid_utf8 (path_display p) then Inl (Invalid_HomeDirectory p)
      else case nix_str_new (path_display p) of Inr t \<Rightarrow> Inr t | Inl _ \<Rightarrow> Inl (Invalid_HomeDirectory p))"

record copy_into_generation =
  cg_source :: nix_file_name
  cg_target :: nix_file_name

record home_module =
  hm_username :: nix_str
  hm_home_directory :: nix_str
  hm_state_version :: string
  hm_packages :: "ident list"
  hm_files :: "copy_into_generation list"

definition home_module_new :: "string \<Rightarrow> path \<Rightarrow> string \<Rightarrow> invalid_input + home_module" where
  "home_module_new name dir version =
     and_then (home_user_name name) (\<lambda>u. and_then (home_dir dir) (\<lambda>d.
       Inr \<lparr>hm_username = u, hm_home_directory = d, hm_state_version = version, hm_packages = [], hm_files = []\<rparr>))"

text \<open>The first name that is not an identifier is the error.\<close>

definition home_packages :: "string list \<Rightarrow> home_module \<Rightarrow> invalid_input + home_module" where
  "home_packages names m =
     (case List.find (\<lambda>n. \<not> is_identifier n) names of
        Some n \<Rightarrow> Inl (Invalid_Ident n)
      | None \<Rightarrow> Inr (m\<lparr>hm_packages := names\<rparr>))"

definition copy_into :: "copy_into_generation \<Rightarrow> home_module \<Rightarrow> home_module" where
  "copy_into c m = m\<lparr>hm_files := hm_files m @ [c]\<rparr>"

section \<open>Rendering\<close>

definition PKGS :: ident where "PKGS = ''pkgs''"
definition CP :: string where "CP = ''cp ''"
definition NEXT_CP :: string where "NEXT_CP = newline # ''cp ''"
definition INTO_OUT :: string where "INTO_OUT = '' $out/''"

definition static_key :: "string \<Rightarrow> key" where
  "static_key s = Key s (is_identifier s)"

definition write_text :: "nix_str \<Rightarrow> string" where
  "write_text t = (let (out, pending) = str_lit False t in quote # out @ str_close pending)"

definition write_select_ident :: "ident \<Rightarrow> ident \<Rightarrow> string" where
  "write_select_ident var attr = var @ ''.'' @ attr"

fun write_copies :: "bool \<Rightarrow> bool \<Rightarrow> copy_into_generation list \<Rightarrow> string \<times> bool" where
  "write_copies first pending [] = ([], pending)"
| "write_copies first pending (c # cs) =
     (let (a, p) = str_verbatim pending (if first then CP else NEXT_CP);
          (b, p) = str_interp p (write_path (cg_source c));
          (d, p) = str_lit p INTO_OUT;
          (e, p) = str_verbatim p (cg_target c);
          (rest, p) = write_copies False p cs
      in (a @ b @ d @ e @ rest, p))"

definition write_commands :: "copy_into_generation list \<Rightarrow> string" where
  "write_commands cs = (let (out, pending) = write_copies True False cs in quote # out @ str_close pending)"

definition write_version :: "string \<Rightarrow> string" where
  "write_version v = (let (out, pending) = str_verbatim False v in quote # out @ str_close pending)"

definition home_write :: "home_module \<Rightarrow> string" where
  "home_write m =
     write_lambda [PKGS] True (write_entries 0
       [(static_key ''home'', write_entries 1
          ((if hm_files m \<noteq> [] then [(static_key ''extraBuilderCommands'', write_commands (hm_files m))] else [])
           @ [(static_key ''homeDirectory'', write_text (hm_home_directory m)),
              (static_key ''packages'', write_items 2 (map (write_select_ident PKGS) (hm_packages m))),
              (static_key ''stateVersion'', write_version (hm_state_version m)),
              (static_key ''username'', write_text (hm_username m))]))])"

definition GENERATED_HEADER :: string where
  "GENERATED_HEADER =
     ''# Code generated by mix. DO NOT EDIT.'' @ [newline]
     @ ''# Manual changes will be overwritten. Use `mix` commands to manage this configuration.''
     @ [newline, newline]"

definition home_render :: "home_module \<Rightarrow> string" where
  "home_render m = GENERATED_HEADER @ home_write m @ [newline]"

section \<open>The expression it writes\<close>

fun copy_parts :: "bool \<Rightarrow> copy_into_generation list \<Rightarrow> str_part list" where
  "copy_parts first [] = []"
| "copy_parts first (c # cs) =
     [Lit (if first then CP else NEXT_CP), Interp (EPath (cg_source c)), Lit INTO_OUT, Lit (cg_target c)]
     @ copy_parts False cs"

definition home_expr :: "home_module \<Rightarrow> expr" where
  "home_expr m =
     Lambda [PKGS] True (Attrs
       [(static_key ''home'', Attrs
          ((if hm_files m \<noteq> [] then [(static_key ''extraBuilderCommands'', Str (copy_parts True (hm_files m)))] else [])
           @ [(static_key ''homeDirectory'', Str [Lit (hm_home_directory m)]),
              (static_key ''packages'', EList (map (\<lambda>p. Select (Var PKGS) (static_key p) []) (hm_packages m))),
              (static_key ''stateVersion'', Str [Lit (hm_state_version m)]),
              (static_key ''username'', Str [Lit (hm_username m)])]))])"

definition home_ok :: "home_module \<Rightarrow> bool" where
  "home_ok m \<longleftrightarrow> nul \<notin> set (hm_username m) \<and> nul \<notin> set (hm_home_directory m) \<and> is_state_version (hm_state_version m)
     \<and> list_all is_identifier (hm_packages m) \<and> list_all (\<lambda>c. is_file_name (cg_source c) \<and> is_file_name (cg_target c)) (hm_files m)"

lemma verbatim_plain:
  assumes "is_verbatim t"
  shows "write_escaped t = t" "str_verbatim pending t = str_lit pending t" "nul \<notin> set t"
proof -
  have plain: "is_verbatim t \<Longrightarrow> write_escaped t = t" for t
  proof (induction t)
    case (Cons c t)
    then have "c \<noteq> quote" "c \<noteq> backslash" "c \<noteq> carriage_return" "c \<noteq> dollar" "is_verbatim t"
      unfolding is_verbatim_def list.pred_inject by blast+
    with Cons.IH show ?case by (simp only: write_escaped.simps if_False simp_thms append.simps)
  qed simp
  then show "write_escaped t = t" using assms .
  have free: "dollar \<notin> set t" "nul \<notin> set t" using assms unfolding is_verbatim_def list_all_iff by blast+
  then show "nul \<notin> set t" by simp
  have "t = [] \<or> last t \<noteq> dollar" using free(1) last_in_set by metis
  with plain [OF assms] show "str_verbatim pending t = str_lit pending t"
    by (simp only: str_verbatim_def str_lit_def if_False split: if_split) blast
qed

lemma chars_verbatim:
  assumes "\<forall>c \<in> set t. is_lowercase c \<or> is_digit c \<or> c = CHR ''-'' \<or> c = CHR ''.'' \<or> c = CHR '' '' \<or> c = newline"
  shows "is_verbatim t"
proof -
  have "c \<notin> {quote, backslash, carriage_return, dollar, nul}"
    if "is_lowercase c \<or> is_digit c \<or> c = CHR ''-'' \<or> c = CHR ''.'' \<or> c = CHR '' '' \<or> c = newline" for c
    using that by (auto simp: is_lowercase_def is_digit_def byte_def newline_def)
  with assms show ?thesis by (simp add: is_verbatim_def list_all_iff)
qed

lemma file_name_chars:
  "is_rel_path s \<Longrightarrow> \<forall>c \<in> set s. is_lowercase c \<or> is_digit c \<or> c = CHR ''-'' \<or> c = CHR ''.''"
  by (cases s) (auto simp: list_all_iff)

lemma state_version_chars:
  assumes "is_state_version s"
  shows "\<forall>c \<in> set s. is_digit c \<or> c = CHR ''.''"
proof -
  have "is_digit CHR ''0''" "is_digit CHR ''1''" "is_digit CHR ''5''" by (simp_all add: is_digit_def byte_def)
  moreover from assms obtain a b c d e where "s = [a, b, c, d, e]"
    unfolding is_state_version_def by (auto simp: numeral_eq_Suc length_Suc_conv)
  ultimately show ?thesis using assms by (auto simp: is_state_version_def numeral_eq_Suc)
qed

lemma static_verbatim: "is_verbatim CP" "is_verbatim NEXT_CP"
  by (simp_all add: is_verbatim_def CP_def NEXT_CP_def newline_def)

lemma write_copies_parts:
  assumes "list_all (\<lambda>c. is_file_name (cg_source c) \<and> is_file_name (cg_target c)) cs"
  shows "write_parts d pending (copy_parts first cs @ ps) =
    fst (write_copies first pending cs) @ write_parts d (snd (write_copies first pending cs)) ps"
  using assms
proof (induction cs arbitrary: first pending)
  case (Cons c cs)
  have "is_verbatim (cg_target c)"
    using Cons.prems file_name_chars [OF file_name_is_rel_path] by (intro chars_verbatim) auto
  with Cons static_verbatim show ?case
    by (simp add: verbatim_plain(2) Let_def split_beta)
qed simp

lemma home_write_expr:
  assumes "home_ok m"
  shows "home_write m = write_expr 0 (home_expr m)"
proof -
  have "is_verbatim (hm_state_version m)"
    using assms state_version_chars by (intro chars_verbatim) (auto simp: home_ok_def)
  then have version: "write_version (hm_state_version m) = write_expr d (Str [Lit (hm_state_version m)])" for d
    by (simp add: write_version_def verbatim_plain(2) split_beta)
  have commands: "write_commands (hm_files m) = write_expr d (Str (copy_parts True (hm_files m)))" for d
    using assms write_copies_parts [of "hm_files m" d False True "[]"]
    by (simp add: home_ok_def write_commands_def split_beta)
  have items: "write_items d (map (write_select_ident PKGS) (hm_packages m)) =
      write_expr d (EList (map (\<lambda>p. Select (Var PKGS) (static_key p) []) (hm_packages m)))" for d
  proof -
    have "map (write_select_ident PKGS) (hm_packages m) =
        map (\<lambda>e. operand_of e (write_expr (Suc d) e)) (map (\<lambda>p. Select (Var PKGS) (static_key p) []) (hm_packages m))"
      using assms
      by (auto simp: home_ok_def list_all_iff write_select_ident_def operand_of_def is_operand_def is_path_def write_keys_def
          write_key_def static_key_def)
    then show ?thesis by (simp only: write_expr.simps)
  qed
  have texts: "write_text t = write_expr d (Str [Lit t])" for t d
    by (simp add: write_text_def split_beta)
  show ?thesis
    unfolding home_write_def home_expr_def texts [of _ 2] version [of 2] commands [of 2] items
    by (simp add: numeral_2_eq_2)
qed

lemma static_keys:
  "is_identifier ''home''" "is_identifier ''extraBuilderCommands''" "is_identifier ''homeDirectory''"
  "is_identifier ''packages''" "is_identifier ''stateVersion''" "is_identifier ''username''" "is_identifier PKGS"
  by (simp_all add: ident_start_def ident_more_def is_alphanumeric_def is_alphabetic_def is_lowercase_def is_uppercase_def
      byte_def is_reserved_def RESERVED_WORDS_def PKGS_def)

lemma static_key_ok [simp]: "is_identifier s \<Longrightarrow> key_ok (static_key s)"
  by (simp add: static_key_def key_ok_def identifier_nul)

lemma static_key_less: "s < t \<Longrightarrow> static_key s < static_key t"
  by (simp add: less_key_def static_key_def)

lemma home_keys:
  "static_key ''extraBuilderCommands'' < static_key ''homeDirectory''" "static_key ''homeDirectory'' < static_key ''packages''"
  "static_key ''packages'' < static_key ''stateVersion''" "static_key ''stateVersion'' < static_key ''username''"
  by (rule static_key_less, simp add: less_char_def)+

lemma copy_parts_ok:
  "list_all (\<lambda>c. is_file_name (cg_source c) \<and> is_file_name (cg_target c)) cs \<Longrightarrow> p \<in> set (copy_parts first cs) \<Longrightarrow>
    part_ok p \<and> part_no_bool_vars p"
proof (induction cs arbitrary: first)
  case (Cons c cs)
  have "nul \<notin> set (cg_target c)"
    using Cons.prems(1) file_name_chars [OF file_name_is_rel_path] by (intro verbatim_plain(3) chars_verbatim) auto
  with Cons file_name_is_rel_path show ?case
    by (auto simp: CP_def NEXT_CP_def INTO_OUT_def newline_def)
qed simp

lemma home_expr_ok:
  assumes "home_ok m"
  shows "expr_ok (home_expr m)" "no_bool_vars (home_expr m)"
proof -
  have version: "nul \<notin> set (hm_state_version m)"
    using assms state_version_chars [of "hm_state_version m"]
    by (intro verbatim_plain(3) chars_verbatim) (auto simp: home_ok_def)
  let ?entries = "(if hm_files m \<noteq> [] then [(static_key ''extraBuilderCommands'', Str (copy_parts True (hm_files m)))] else [])
      @ [(static_key ''homeDirectory'', Str [Lit (hm_home_directory m)]),
         (static_key ''packages'', EList (map (\<lambda>p. Select (Var PKGS) (static_key p) []) (hm_packages m))),
         (static_key ''stateVersion'', Str [Lit (hm_state_version m)]), (static_key ''username'', Str [Lit (hm_username m)])]"
  have sorted: "bt_ok ?entries"
    using home_keys order.strict_trans [OF home_keys(1,2)] order.strict_trans [OF home_keys(2,3)]
      order.strict_trans [OF home_keys(3,4)] order.strict_trans [OF order.strict_trans [OF home_keys(1,2)] home_keys(3)]
      order.strict_trans [OF order.strict_trans [OF home_keys(2,3)] home_keys(4)]
      order.strict_trans [OF order.strict_trans [OF order.strict_trans [OF home_keys(1,2)] home_keys(3)] home_keys(4)]
    by (simp add: bt_ok_def)
  have parts: "\<forall>p \<in> set (copy_parts first (hm_files m)). part_ok p \<and> part_no_bool_vars p" for first
    using copy_parts_ok [of "hm_files m"] assms by (simp add: home_ok_def)
  have ok: "\<forall>kv \<in> set ?entries. key_ok (fst kv) \<and> expr_ok (snd kv)"
    using assms parts version static_keys by (auto simp: home_ok_def list_all_iff simp del: is_identifier.simps)
  have "expr_ok (Attrs ?entries)" using sorted ok unfolding expr_ok.simps by blast
  then show "expr_ok (home_expr m)"
    using static_keys by (simp add: home_expr_def bt_ok_def del: is_identifier.simps)
  show "no_bool_vars (home_expr m)"
    using assms parts by (auto simp: home_expr_def home_ok_def PKGS_def)
qed

lemma skip_header: "skip_trivia (GENERATED_HEADER @ s) = skip_trivia s"
  by (simp add: GENERATED_HEADER_def skip_trivia.simps(2) is_blank_def newline_def)

lemma home_parsed:
  assumes "home_ok m"
  shows "parse (home_render m) = Some (Inr (normalize (home_expr m)))"
  unfolding home_render_def home_write_expr [OF assms]
  by (rule parse_written [OF home_expr_ok [OF assms] skip_header]) simp

end
