(* ===== verification/Requests.thy ===== *)
theory Requests
  imports Plans Desired Nix_Home
begin

text \<open>
  The plans of requests from what they ask for: installing mix (\<open>core/src/ops/bootstrap/mod.rs\<close>),
  changing the list of packages, the pins, and cleaning up (\<open>core/src/ops/change/mod.rs\<close>), with the
  files that a changed list renders to. The outer \<open>None\<close> is a tree of checks that is not listed.
\<close>

section \<open>Installing\<close>

record install_settings =
  is_policy :: policy
  is_user :: "user_config option"
  is_force :: bool
  is_runtime :: runtime
  is_request :: string

definition install_intent :: "install_settings \<Rightarrow> intent" where
  "install_intent st = (intent_machine (is_user st) (is_policy st))\<lparr>it_runtime := Some (is_runtime st), it_tidy := False\<rparr>"

definition install_steps :: "(state_manifest \<Rightarrow> string) \<Rightarrow> install_settings \<Rightarrow> plan_step list option" where
  "install_steps pretty st = do {
     let before = (if is_force st
       then [Step_RemoveExisting (map_option (\<lambda>cfg. nix_profiles_dir (iu_home (uc_user cfg))) (is_user st))] else []);
     cs \<leftarrow> tree_for pretty (install_intent st);
     Some (reconcile_steps before cs (is_request st) Verb_Configuring)
   }"

section \<open>Rendering a list\<close>

definition HOME_MANAGER_STATE_VERSION :: string where "HOME_MANAGER_STATE_VERSION = ''24.05''"

definition INPUTS_INTO_GENERATION :: "copy_into_generation list" where
  "INPUTS_INTO_GENERATION = map (\<lambda>(source, target). \<lparr>cg_source = source, cg_target = target\<rparr>) GENERATION_INPUTS"

definition render_home :: "invoking_user \<Rightarrow> string list \<Rightarrow> invalid_input + string" where
  "render_home user packages =
     and_then (home_module_new (iu_name user) (iu_home user) HOME_MANAGER_STATE_VERSION) (\<lambda>m.
       and_then (home_packages packages (fold copy_into INPUTS_INTO_GENERATION m)) (\<lambda>m.
         Inr (home_render m)))"

record rendered =
  rn_state :: string
  rn_home_nix :: string

datatype unrenderable = Unrenderable_Package invalid_input | Unrenderable_State invalid_list

definition render_list ::
  "list_reader \<Rightarrow> (state_manifest \<Rightarrow> string) \<Rightarrow> invoking_user \<Rightarrow> state_manifest \<Rightarrow> unrenderable + rendered" where
  "render_list pl pretty user m =
     (case render_home user (sm_packages m) of
        Inl e \<Rightarrow> Inl (Unrenderable_Package e)
      | Inr home_nix \<Rightarrow>
          (let state = manifest_render pretty m
           in case validate_list pl state of
               Inl e \<Rightarrow> Inl (Unrenderable_State e)
             | Inr _ \<Rightarrow> Inr \<lparr>rn_state = state, rn_home_nix = home_nix\<rparr>))"

section \<open>Changes\<close>

definition change_intent :: "user_config \<Rightarrow> policy \<Rightarrow> verb \<Rightarrow> list_change \<Rightarrow> rendered \<Rightarrow> intent" where
  "change_intent cfg policy verb change files =
     (intent_user (cfg\<lparr>uc_home := rn_home_nix files, uc_restored_state := Some (rn_state files)\<rparr>) policy)
       \<lparr>it_activating := Some (verb, change_subject (lc_changed change))\<rparr>"

definition change_steps ::
  "list_reader \<Rightarrow> (state_manifest \<Rightarrow> string) \<Rightarrow> user_config \<Rightarrow> policy \<Rightarrow> list_change \<Rightarrow> verb \<Rightarrow> string
   \<Rightarrow> (unrenderable + plan_step list) option" where
  "change_steps pl pretty cfg policy change verb req =
     (if lc_changed change = [] \<and> lc_source change = Source_List then Some (Inr [])
      else case render_list pl pretty (uc_user cfg) (lc_manifest change) of
          Inl e \<Rightarrow> Some (Inl e)
        | Inr files \<Rightarrow> do {
            cs \<leftarrow> tree_for pretty (change_intent cfg policy verb change files);
            Some (Inr (reconcile_steps [] cs req Verb_Configuring))
          })"

definition pin_steps ::
  "(state_manifest \<Rightarrow> string) \<Rightarrow> user_config \<Rightarrow> policy \<Rightarrow> string option \<Rightarrow> string \<Rightarrow> plan_step list option" where
  "pin_steps pretty cfg policy moved req = do {
     cs \<leftarrow> tree_for pretty ((intent_user cfg policy)\<lparr>it_activating := map_option (\<lambda>s. (Verb_Updating, s)) moved\<rparr>);
     Some (reconcile_steps [] cs req Verb_Configuring)
   }"

definition clean_steps ::
  "(state_manifest \<Rightarrow> string) \<Rightarrow> user_config \<Rightarrow> policy \<Rightarrow> bool \<Rightarrow> string \<Rightarrow> plan_step list option" where
  "clean_steps pretty cfg policy everything req = do {
     cs \<leftarrow> tree_for pretty ((intent_user cfg policy)\<lparr>it_retention := Some everything\<rparr>);
     Some (reconcile_steps [] cs req Verb_Configuring)
   }"

section \<open>Every plan is ordered\<close>

lemma tree_for_waits: "\<exists>cs. tree_for pretty intent = Some cs \<and> (\<forall>i < length cs. \<forall>x \<in> set (waits_on (cs ! i)). x < i)"
  using finish_result [OF intent_builder_ok [of pretty intent]] by (auto simp: tree_for_def waits_earlier_def)

lemma intent_plan_ordered:
  assumes "plan_ordered before"
  shows "\<exists>cs. tree_for pretty intent = Some cs \<and> plan_ordered (reconcile_steps before cs req verb)"
  using tree_for_waits [of pretty intent] reconcile_ordered [OF assms] by blast

lemma plan_ordered_simps [simp]: "plan_ordered []" "plan_ordered [Step_RemoveExisting p]"
  by (simp_all add: plan_ordered_def plan_waits_def)

lemma install_ordered: "\<exists>plan. install_steps pretty st = Some plan \<and> plan_ordered plan"
proof -
  let ?before = "if is_force st
      then [Step_RemoveExisting (map_option (\<lambda>cfg. nix_profiles_dir (iu_home (uc_user cfg))) (is_user st))] else []"
  have "plan_ordered ?before" by simp
  from intent_plan_ordered [OF this, of pretty "install_intent st" "is_request st" Verb_Configuring]
  show ?thesis by (auto simp: install_steps_def)
qed

section \<open>The files of a list\<close>

lemma fold_copy_into: "fold copy_into cs m = m\<lparr>hm_files := hm_files m @ cs\<rparr>"
  by (induction cs arbitrary: m) (simp_all add: copy_into_def)

definition user_module :: "invoking_user \<Rightarrow> string list \<Rightarrow> home_module" where
  "user_module user packages =
     \<lparr>hm_username = iu_name user, hm_home_directory = path_display (iu_home user),
      hm_state_version = HOME_MANAGER_STATE_VERSION, hm_packages = packages, hm_files = INPUTS_INTO_GENERATION\<rparr>"

lemma inputs_ok: "list_all (\<lambda>c. is_file_name (cg_source c) \<and> is_file_name (cg_target c)) INPUTS_INTO_GENERATION"
  by code_simp

lemma state_version_ok: "is_state_version HOME_MANAGER_STATE_VERSION"
  by code_simp

lemma render_home_result:
  assumes "render_home user packages = Inr out"
  shows "out = home_render (user_module user packages)" "home_ok (user_module user packages)"
proof -
  from assms obtain m0 m1 where m0: "home_module_new (iu_name user) (iu_home user) HOME_MANAGER_STATE_VERSION = Inr m0"
    and m1: "home_packages packages (fold copy_into INPUTS_INTO_GENERATION m0) = Inr m1" and out: "out = home_render m1"
    by (auto simp: render_home_def and_then_Inr_iff)
  have names: "nul \<notin> set (iu_name user)" "nul \<notin> set (path_display (iu_home user))"
    and m0': "m0 = \<lparr>hm_username = iu_name user, hm_home_directory = path_display (iu_home user),
      hm_state_version = HOME_MANAGER_STATE_VERSION, hm_packages = [], hm_files = []\<rparr>"
    using m0 by (auto simp: home_module_new_def and_then_Inr_iff home_user_name_def home_dir_def nix_str_new_def split: if_splits sum.splits)
  have packages: "list_all is_identifier packages" "m1 = user_module user packages"
    using m1 m0' by (auto simp: home_packages_def user_module_def fold_copy_into find_None_iff list_all_iff split: option.splits)
  with out show "out = home_render (user_module user packages)" by simp
  show "home_ok (user_module user packages)"
    using names packages(1) inputs_ok state_version_ok by (simp add: home_ok_def user_module_def)
qed

end
