(* ===== verification/Repairs.thy ===== *)
theory Repairs
  imports Requests World_Accounts
begin

text \<open>
  Repairs on the model machine: what the actions of \<open>fix\<close> leave behind, for accounts, files and
  directories, and that a target that was mended is classified as well.
\<close>

definition target_facts :: "world \<Rightarrow> target \<Rightarrow> fact list" where
  "target_facts w t = map (observe_query w) (target_queries t)"

lemma observe_answers: "answers q (observe_query w q)"
  by (cases q) (simp_all add: repository_answer_def Let_def)

lemma machine_answers: "answered qs (map (observe_query w) qs)"
  by (simp add: answered_def list_all2_conv_all_nth observe_answers)

text \<open>The targets that are mended by accounts, modes, owners and written files alone.\<close>

fun mendable :: "target \<Rightarrow> bool" where
  "mendable (T_Parent _ _ _) = True"
| "mendable (T_Directory _ _ _) = True"
| "mendable (T_File _ _ _ _) = True"
| "mendable (T_SeededFile _ _ _ _) = True"
| "mendable (T_Group _ _) = True"
| "mendable (T_GroupMember _ _) = True"
| "mendable (T_User _ _ _) = True"
| "mendable _ = False"

section \<open>Accounts\<close>

lemma account_after:
  assumes "on_accounts a" "apply_action a w = (Inr us, w')"
  shows "(done_already a (world_accounts w) \<and> w' = w) \<or>
    (w' = do_account a w \<and> (\<exists>u. account_undo a (world_accounts w) = Inr u))"
  using assms by (cases a) (auto simp: apply_action_def cleared_def account_precondition_def
    split: if_splits sum.splits accounted.splits)

section \<open>Files\<close>

text \<open>What the actions on modes and owners do to the mode and the owner of their path.\<close>

fun shapes :: "path \<Rightarrow> action \<Rightarrow> bool" where
  "shapes p (SetMode q _ _) = (q = p)"
| "shapes p (SetOwner q _ _) = (q = p)"
| "shapes p (ReclaimTree q _ _ _) = (q = p)"
| "shapes p _ = False"

fun shape_after :: "action \<Rightarrow> u32 \<times> owner \<Rightarrow> u32 \<times> owner" where
  "shape_after (SetMode _ m _) s = (m, snd s)"
| "shape_after (SetOwner _ ow _) s = (fst s, ow)"
| "shape_after (ReclaimTree _ _ ow m) s = (m, ow)"
| "shape_after _ s = s"

definition entry_shape :: "file_entry \<Rightarrow> u32 \<times> owner" where
  "entry_shape e = (en_mode e, en_owner e)"

lemma reclaimed:
  assumes "files_ok w" "file_at w p = Some e" "do_reclaim_tree p ow m w = (Inr us, w')"
  shows "files_ok w' \<and> (\<exists>e'. file_at w' p = Some e' \<and> en_content e' = en_content e \<and> entry_shape e' = (m, ow))"
proof -
  obtain aside w1 where s: "sibling p ''aside'' w = (aside, w1)" by fastforce
  then have w1: "files_ok w1" "file_at w1 = file_at w" "w_files w1 = w_files w"
    using assms(1) by (auto simp: sibling_def fresh_def file_at_def files_ok_def Let_def fun_eq_iff)
  let ?items = "tree_items p p ow m w1" and ?w2 = "move_tree p aside w1"
  have paths: "map fst ?items = map (moved p p) (paths_below p w1)"
  proof -
    have "\<forall>q \<in> set (paths_below p w1). file_at w1 q \<noteq> None" using set_paths_below [OF w1(1)] by auto
    then show ?thesis unfolding tree_items_def
      by (induction "paths_below p w1") (auto simp: List.map_filter_def)
  qed
  have same: "moved p p q = q" if "q \<in> set (paths_below p w1)" for q
    using that set_paths_below [OF w1(1)] by (auto simp: moved_def starts_with_iff)
  then have keys: "map fst ?items = paths_below p w1" using paths by (simp add: map_idI)
  then have dist: "distinct (map fst ?items)" using distinct_paths_below [OF w1(1)] by simp
  have "p \<in> set (paths_below p w1)" using set_paths_below [OF w1(1)] assms(2) w1(2) by simp
  then have "(p, en_content e, m, ow) \<in> set ?items"
    using assms(2) w1(2) same by (auto simp: tree_items_def List.map_filter_def image_iff intro!: bexI [of _ p])
  then have at: "map_of ?items p = Some (en_content e, m, ow)" using dist by (simp add: map_of_eq_Some_iff)
  have w2: "files_ok ?w2" using w1(1) by simp
  have "w' = pend aside (snd (place_all ?items ?w2))"
    using assms(3) s by (simp add: do_reclaim_tree_def Let_def case_prod_unfold)
  then have "file_at w' p = file_at (snd (place_all ?items ?w2)) p" "files_ok w'"
    using w2 by simp_all
  then show ?thesis using file_at_place_all [OF dist, of ?w2 p] at by (auto simp: new_entry_def entry_shape_def)
qed

lemma shaped_once:
  assumes "shapes p a" "files_ok w" "apply_action a w = (Inr us, w')" "file_at w p = Some e"
  shows "files_ok w' \<and> (\<exists>e'. file_at w' p = Some e' \<and> en_content e' = en_content e \<and>
    entry_shape e' = shape_after a (entry_shape e))"
proof (cases a)
  case (ReclaimTree q fid ow m)
  with assms have "do_reclaim_tree p ow m w = (Inr us, w')"
    by (auto simp: apply_on_files cleared_def and_go_def split: sum.splits if_splits)
  from reclaimed [OF assms(2,4) this] show ?thesis using ReclaimTree by simp
qed (use assms in \<open>auto simp: apply_on_files cleared_def do_set_mode_def do_set_owner_def entry_shape_def
    split: sum.splits if_splits\<close>)

lemma shaped_run:
  assumes "list_all (shapes p) as" "files_ok w" "apply_all as w = (Inr us, w')" "file_at w p = Some e"
  shows "\<exists>e'. file_at w' p = Some e' \<and> en_content e' = en_content e \<and>
    entry_shape e' = fold shape_after as (entry_shape e)"
  using assms
proof (induction as arbitrary: w e us)
  case (Cons a as)
  obtain r w1 where r: "apply_action a w = (r, w1)" by fastforce
  with Cons.prems(3) obtain u where u: "r = Inr u" by (cases r) auto
  then obtain r2 w2 where r2: "apply_all as w1 = (r2, w2)" by fastforce
  with Cons.prems(3) r u obtain v where v: "r2 = Inr v" "w2 = w'" by (cases r2) auto
  from shaped_once [of p a w u w1 e] Cons.prems r u obtain e1 where
    "files_ok w1" "file_at w1 p = Some e1" "en_content e1 = en_content e" "entry_shape e1 = shape_after a (entry_shape e)"
    by auto
  with Cons.IH [of w1 v e1] Cons.prems(1) r2 v show ?case by auto
qed simp

lemma put_after:
  assumes "apply_all [PutFile p t m ow x] w = (Inr us, w')"
  shows "\<exists>e. file_at w' p = Some e \<and> en_content e = Content_File t \<and>
    entry_shape e = (m, case ow of Some o' \<Rightarrow> o' | None \<Rightarrow> root_owner)"
proof -
  obtain r w1 where r: "apply_action (PutFile p t m ow x) w = (r, w1)" by fastforce
  with assms obtain u where "r = Inr u" "w1 = w'" by (cases r) auto
  with r have "put_file p t m (case ow of Some o' \<Rightarrow> o' | None \<Rightarrow> root_owner) x w = (Inr u, w')"
    by (auto simp: apply_on_files cleared_def split: option.splits)
  then show ?thesis
    by (auto simp: put_file_def Let_def case_prod_unfold new_entry_def entry_shape_def split: sum.splits expect.splits)
qed

lemma created_after:
  assumes "apply_all [CreateDirs p m ow] w = (Inr us, w')" "file_at w p = None"
  shows "\<exists>e. file_at w' p = Some e \<and> en_content e = Content_Directory \<and>
    entry_shape e = (m, case ow of Some o' \<Rightarrow> o' | None \<Rightarrow> root_owner)"
proof -
  obtain r w1 where r: "apply_action (CreateDirs p m ow) w = (r, w1)" by fastforce
  with assms obtain u where u: "r = Inr u" "w1 = w'" by (cases r) auto
  with r obtain c where c: "created_below (world_ground w) p = Inr c"
    by (auto simp: apply_on_files cleared_def split: sum.splits)
  have "\<forall>nd. spot_of w p \<noteq> Spot_Present nd"
    using assms(2) by (auto simp: spot_of_def split: sum.splits)
  then have "c \<noteq> Clear_Done" "c \<noteq> Clear_Go"
    using c by (auto simp: created_below_def Let_def and_then_Inr_iff split: spot.splits if_splits)
  then obtain q where q: "c = Clear_Below q" by (cases c) auto
  with r u c have d: "do_create_dirs p m ow q w = (Inr u, w')" by (auto simp: apply_on_files cleared_def)
  from c q created_below_Below [of "world_ground w" p q] have "q = climb (world_ground w) p" by auto
  then have pre: "starts_with p q" using climb_prefix [of p "world_ground w"] unfolding starts_with_iff by metis
  let ?o = "case ow of Some o' \<Rightarrow> o' | None \<Rightarrow> root_owner"
  let ?dirs = "map (\<lambda>n. take n p) [length q..<Suc (length p)]"
  let ?new = "\<lambda>dir. (dir, Content_Directory, if dir = p then m else mode_of 7 5 5, ?o)"
  let ?items = "map ?new ?dirs"
  have "distinct ?dirs"
    by (auto simp: distinct_map inj_on_def simp del: upt_Suc dest: arg_cong [of _ _ length])
  then have dist: "distinct (map fst ?items)" by (simp add: comp_def del: upt_Suc)
  have "p \<in> set ?dirs" using starts_with_length [OF pre] by (auto simp del: upt_Suc intro!: image_eqI [of _ _ "length p"])
  then have "?new p \<in> set ?items" unfolding list.set_map [of ?new ?dirs] by (rule imageI)
  then have "map_of ?items p = Some (Content_Directory, m, ?o)"
    unfolding map_of_eq_Some_iff [OF dist] by (simp only: if_True simp_thms)
  moreover have "w' = snd (place_all ?items w)"
    using d by (simp add: do_create_dirs_def ancestors_below [OF pre] Let_def case_prod_unfold comp_def del: upt_Suc)
  ultimately show ?thesis using file_at_place_all [OF dist, of w p] by (simp add: new_entry_def entry_shape_def del: upt_Suc)
qed

section \<open>Mended targets\<close>

definition well :: "list_reader \<Rightarrow> (string \<Rightarrow> json option) \<Rightarrow> world \<Rightarrow> target \<Rightarrow> bool" where
  "well pl lk w t \<longleftrightarrow> classify pl lk t (target_facts w t) = Some None"

lemma shape_well:
  assumes "en_mode e = settled mode m ow" "\<forall>o'. ow = Some o' \<longrightarrow> en_owner e = o'"
  shows "shape_finding (entry_facts (Some e)) mode ow = None"
  using assms by (auto simp: shape_finding_def owner_drift_def entry_facts_def settled_again split: option.splits)

lemma entry_kind: "paf_kind (entry_facts x) =
    (case x of None \<Rightarrow> PathKind_Missing
     | Some e \<Rightarrow> (case en_content e of Content_Directory \<Rightarrow> PathKind_Directory | Content_File _ \<Rightarrow> PathKind_File))"
  by (auto simp: entry_facts_def split: option.splits content.splits)

lemma entry_mode [simp]:
  "paf_mode (entry_facts (Some e)) = en_mode e" "paf_owner (entry_facts (Some e)) = en_owner e"
  by (simp_all add: entry_facts_def)

text \<open>What the lists of repairs do to mode and owner.\<close>

lemma shapes_lists:
  "list_all (shapes p) (own_again p found ow tree)" "list_all (shapes p) (remode p found mode ow)"
  "list_all (shapes p) (reshape p found mode ow)"
  by (auto simp: own_again_def remode_def reshape_def Let_def split: option.splits)

lemma fold_own_again:
  "fold shape_after (own_again p (entry_facts (Some e)) ow tree) (entry_shape e) =
    (en_mode e, case ow of Some o' \<Rightarrow> o' | None \<Rightarrow> en_owner e)"
  by (auto simp: own_again_def entry_shape_def split: option.splits)

lemma fold_remode:
  "fold shape_after (remode p (entry_facts (Some e)) mode ow) (en_mode e, x) = (settled mode (en_mode e) ow, x)"
  by (simp add: remode_def Let_def)

lemma fold_reshape:
  "fold shape_after (reshape p (entry_facts (Some e)) mode ow) (entry_shape e) =
    (settled mode (en_mode e) ow, case ow of Some o' \<Rightarrow> o' | None \<Rightarrow> en_owner e)"
  by (auto simp: reshape_def remode_def Let_def entry_shape_def split: option.splits)

lemma fold_own_first:
  "fold shape_after (own_again p (entry_facts (Some e)) ow tree @ remode p (entry_facts (Some e)) mode ow) (entry_shape e) =
    (settled mode (en_mode e) ow, case ow of Some o' \<Rightarrow> o' | None \<Rightarrow> en_owner e)"
  by (simp only: fold_append comp_apply fold_own_again fold_remode)

lemma directory_repair:
  assumes "en_content e = Content_Directory"
  shows "list_all (shapes p) (fix_directory p mode ow (entry_facts (Some e)) tree)"
    "fold shape_after (fix_directory p mode ow (entry_facts (Some e)) tree) (entry_shape e) =
      (settled mode (en_mode e) ow, case ow of Some o' \<Rightarrow> o' | None \<Rightarrow> en_owner e)"
  using assms
  by (auto simp: fix_directory_def entry_kind is_gone_def own_again_def remode_def Let_def entry_shape_def split: option.splits)

text \<open>A run of such repairs leaves the shape that is wanted.\<close>

lemma mended_shape:
  assumes "list_all (shapes p) acts" "files_ok w" "apply_all acts w = (Inr us, w')" "file_at w p = Some e"
    and "fold shape_after acts (entry_shape e) = (settled mode (en_mode e) ow, case ow of Some o' \<Rightarrow> o' | None \<Rightarrow> en_owner e)"
  shows "\<exists>e'. file_at w' p = Some e' \<and> en_content e' = en_content e \<and> shape_finding (entry_facts (Some e')) mode ow = None"
proof -
  from shaped_run [OF assms(1-4)] obtain e' where e': "file_at w' p = Some e'" "en_content e' = en_content e"
    "entry_shape e' = fold shape_after acts (entry_shape e)" by blast
  with assms(5) have "en_mode e' = settled mode (en_mode e) ow" "\<forall>o'. ow = Some o' \<longrightarrow> en_owner e' = o'"
    by (auto simp: entry_shape_def)
  from shape_well [OF this] e' show ?thesis by blast
qed

lemma put_shape:
  assumes "apply_all [PutFile p t (settled mode m ow) ow x] w = (Inr us, w')"
  shows "\<exists>e. file_at w' p = Some e \<and> en_content e = Content_File t \<and> shape_finding (entry_facts (Some e)) mode ow = None"
proof -
  from put_after [OF assms] obtain e where "file_at w' p = Some e" "en_content e = Content_File t"
    "entry_shape e = (settled mode m ow, case ow of Some o' \<Rightarrow> o' | None \<Rightarrow> root_owner)" by blast
  then show ?thesis by (auto simp: entry_shape_def intro!: shape_well)
qed

lemma settled_own_bits: "settled mode (mode_bits mode) ow = mode_bits mode"
  by (cases mode) (auto simp: Let_def bit_eq_iff bit_and_iff bit_or_iff bit_not_iff split: option.splits)

lemma created_shape:
  assumes "apply_all [CreateDirs p (mode_bits mode) ow] w = (Inr us, w')" "file_at w p = None"
  shows "\<exists>e. file_at w' p = Some e \<and> en_content e = Content_Directory \<and> shape_finding (entry_facts (Some e)) mode ow = None"
proof -
  from created_after [OF assms] obtain e where "file_at w' p = Some e" "en_content e = Content_Directory"
    "entry_shape e = (mode_bits mode, case ow of Some o' \<Rightarrow> o' | None \<Rightarrow> root_owner)" by blast
  then show ?thesis
    using settled_own_bits [of mode ow] by (auto simp: entry_shape_def intro!: shape_well [of _ _ "mode_bits mode"])
qed

section \<open>The targets\<close>

lemma file_facts:
  "target_facts w (T_File p ex mode ow) =
    Fact_Path (entry_facts (file_at w p)) # Fact_Contents (file_contents w p) # map (observe_query w) (owner_query p ow)"
  "target_facts w (T_SeededFile p seed mode ow) =
    Fact_Path (entry_facts (file_at w p)) # map (observe_query w) (owner_query p ow)"
  "target_facts w (T_Directory p mode ow) =
    Fact_Path (entry_facts (file_at w p)) # map (observe_query w) (owner_query p ow)"
  "target_facts w (T_Parent p mode ow) = [Fact_Path (entry_facts (file_at w p))]"
  by (simp_all add: target_facts_def)

lemma first_fact [simp]: "path_fact (Fact_Path found # fs) 0 = Some found" "contents_fact (f # Fact_Contents c # fs) 1 = Some c"
  "contents_fact (f # Fact_Contents c # fs) (Suc 0) = Some c"
  by simp_all

lemma absent_kinds [simp]:
  "absent_finding PathKind_Missing = Some F_Missing" "absent_finding PathKind_Directory = None" "absent_finding PathKind_File = None"
  by (simp_all add: absent_finding_def)

lemma absent_entry [simp]:
  "absent_finding (paf_kind (entry_facts x)) = (if x = None then Some F_Missing else None)"
  by (cases x) (auto simp: absent_finding_def entry_kind split: content.splits)

lemma directory_well:
  assumes "file_at w p = Some e" "en_content e = Content_Directory" "shape_finding (entry_facts (Some e)) mode ow = None"
  shows "well pl lk w (T_Directory p mode ow)" "well pl lk w (T_Parent p mode ow)"
  using assms by (simp_all add: well_def file_facts classify_directory_def entry_kind del: facts_simps)

lemma file_well:
  assumes "file_at w p = Some e" "shape_finding (entry_facts (Some e)) mode ow = None"
    and "\<forall>t. ex = Some t \<longrightarrow> en_content e = Content_File t"
  shows "well pl lk w (T_File p ex mode ow)"
  using assms
  by (cases ex) (simp_all add: well_def file_facts classify_file_def entry_kind file_contents_def Let_def del: facts_simps split: content.splits)

lemma seeded_well:
  assumes "file_at w p = Some e" "shape_finding (entry_facts (Some e)) mode ow = None"
  shows "well pl lk w (T_SeededFile p seed mode ow)"
  using assms by (simp add: well_def file_facts del: facts_simps)

lemma fix_target_fixable:
  assumes "fix_target t f facts req = Some (Inr acts)" "\<And>n p r. t \<noteq> T_PathExists n p r"
  shows "finding_unfixable f = None" "fix_fixable t f facts req = Some (Inr acts)"
  using assms
  by (cases t; cases "finding_unfixable f"; auto simp: fix_target_def simp del: fix_fixable.simps split: option.splits)+

lemma directory_mended:
  assumes "files_ok w" "classify pl lk (T_Directory p mode ow) (target_facts w (T_Directory p mode ow)) = Some (Some f)"
    and "fix_target (T_Directory p mode ow) f (target_facts w (T_Directory p mode ow)) req = Some (Inr acts)"
    and "apply_all acts w = (Inr us, w')"
  shows "well pl lk w' (T_Directory p mode ow)"
proof -
  have fx: "finding_unfixable f = None" "fix_fixable (T_Directory p mode ow) f (target_facts w (T_Directory p mode ow)) req = Some (Inr acts)"
    using fix_target_fixable [OF assms(3)] by simp_all
  show ?thesis
  proof (cases "file_at w p")
    case None
    with fx(2) have "acts = [CreateDirs p (mode_bits mode) ow]"
      by (simp add: file_facts fix_directory_def entry_kind is_gone_def del: facts_simps)
    from created_shape [OF assms(4) [unfolded this] None] show ?thesis using directory_well(1) by blast
  next
    case (Some e)
    have dir: "en_content e = Content_Directory"
      using assms(2) Some fx(1)
      by (auto simp: file_facts classify_directory_def entry_kind finding_unfixable_def simp del: facts_simps split: content.splits)
    obtain tree where "fix_directory p mode ow (entry_facts (Some e)) tree = acts"
      using fx(2) Some by (simp add: file_facts del: facts_simps)
    then have "acts = fix_directory p mode ow (entry_facts (Some e)) tree" by (rule sym)
    with mended_shape [OF directory_repair(1) [OF dir] assms(1) _ Some directory_repair(2) [OF dir]] assms(4) dir
    show ?thesis using directory_well(1) by metis
  qed
qed

lemma parent_mended:
  assumes "files_ok w" "classify pl lk (T_Parent p mode ow) (target_facts w (T_Parent p mode ow)) = Some (Some f)"
    and "fix_target (T_Parent p mode ow) f (target_facts w (T_Parent p mode ow)) req = Some (Inr acts)"
    and "apply_all acts w = (Inr us, w')"
  shows "well pl lk w' (T_Parent p mode ow)"
proof -
  have fx: "finding_unfixable f = None" "fix_fixable (T_Parent p mode ow) f (target_facts w (T_Parent p mode ow)) req = Some (Inr acts)"
    using fix_target_fixable [OF assms(3)] by simp_all
  show ?thesis
  proof (cases "file_at w p")
    case None
    with assms(2) have "f = F_Missing" by (simp add: file_facts classify_directory_def del: facts_simps)
    with fx(2) have "acts = [CreateDirs p (mode_bits mode) ow]" by (simp add: is_shape_def)
    from created_shape [OF assms(4) [unfolded this] None] show ?thesis using directory_well(2) by blast
  next
    case (Some e)
    have dir: "en_content e = Content_Directory" and f: "shape_finding (entry_facts (Some e)) mode ow = Some f"
      using assms(2) Some fx(1)
      by (auto simp: file_facts classify_directory_def entry_kind finding_unfixable_def simp del: facts_simps split: content.splits if_splits)
    then have "is_shape f"
      by (auto simp: shape_finding_def owner_drift_def is_shape_def Let_def split: option.splits if_splits elim!: or_else.elims)
    then have "acts = reshape p (entry_facts (Some e)) mode ow"
      using fx(2) Some by (simp add: file_facts del: facts_simps)
    with mended_shape [OF shapes_lists(3) assms(1) _ Some fold_reshape] assms(4) dir
    show ?thesis using directory_well(2) by metis
  qed
qed

lemma seeded_mended:
  assumes "files_ok w" "fix_target (T_SeededFile p seed mode ow) f (target_facts w (T_SeededFile p seed mode ow)) req = Some (Inr acts)"
    and "apply_all acts w = (Inr us, w')"
  shows "well pl lk w' (T_SeededFile p seed mode ow)"
proof -
  have fx: "fix_fixable (T_SeededFile p seed mode ow) f (target_facts w (T_SeededFile p seed mode ow)) req = Some (Inr acts)"
    using fix_target_fixable [OF assms(2)] by simp
  show ?thesis
  proof (cases "file_at w p")
    case None
    with fx have "acts = [PutFile p seed (settled mode FILE_MODE ow) ow (expect_of (paf_id (entry_facts None)))]"
      by (simp add: file_facts entry_kind is_gone_def del: facts_simps)
    from put_shape [OF assms(3) [unfolded this]] show ?thesis using seeded_well by blast
  next
    case (Some e)
    obtain tree where "own_again p (entry_facts (Some e)) ow tree @ remode p (entry_facts (Some e)) mode ow = acts"
      using fx Some by (simp add: file_facts entry_kind is_gone_def del: facts_simps split: content.splits)
    then have "acts = own_again p (entry_facts (Some e)) ow tree @ remode p (entry_facts (Some e)) mode ow" by (rule sym)
    with shapes_lists(1,2) have "list_all (shapes p) acts" by simp
    from mended_shape [OF this assms(1,3) Some] \<open>acts = _\<close> fold_own_first show ?thesis using seeded_well by metis
  qed
qed

lemma file_mended:
  assumes "files_ok w" "classify pl lk (T_File p ex mode ow) (target_facts w (T_File p ex mode ow)) = Some (Some f)"
    and "fix_target (T_File p ex mode ow) f (target_facts w (T_File p ex mode ow)) req = Some (Inr acts)"
    and "apply_all acts w = (Inr us, w')"
  shows "well pl lk w' (T_File p ex mode ow)"
proof -
  have fx: "fix_file p ex mode ow (target_facts w (T_File p ex mode ow)) = Some acts"
    using fix_target_fixable(2) [OF assms(3)] by auto
  show ?thesis
  proof (cases "\<exists>t. ex = Some t \<and> file_contents w p \<noteq> Some t")
    case True
    then obtain t where t: "ex = Some t" "file_contents w p \<noteq> Some t" by blast
    with fx obtain m x where "acts = [PutFile p t (settled mode m ow) ow x]"
      by (auto simp: file_facts fix_file_def Let_def simp del: facts_simps)
    from put_shape [OF assms(4) [unfolded this]] t(1) show ?thesis using file_well by blast
  next
    case False
    obtain tree where acts: "acts = own_again p (entry_facts (file_at w p)) ow tree @ remode p (entry_facts (file_at w p)) mode ow"
      using fx False by (cases ex) (auto simp: file_facts fix_file_def Let_def simp del: facts_simps)
    obtain e where e: "file_at w p = Some e"
      using assms(2) False
      by (cases "file_at w p"; cases ex) (auto simp: file_facts classify_file_def entry_kind file_contents_def simp del: facts_simps)
    have content: "\<forall>t. ex = Some t \<longrightarrow> en_content e = Content_File t"
      using False e by (auto simp: file_contents_def split: content.splits)
    have "list_all (shapes p) acts" using acts shapes_lists(1,2) by simp
    from mended_shape [OF this assms(1,4) e] acts e fold_own_first obtain e' where
      "file_at w' p = Some e'" "en_content e' = en_content e" "shape_finding (entry_facts (Some e')) mode ow = None"
      by metis
    then show ?thesis using content file_well [of w' p e'] by simp
  qed
qed

lemma account_mended:
  assumes "t = T_Group name gid \<or> t = T_GroupMember name user \<or> t = T_User n uid gid'"
    and "classify pl lk t (target_facts w t) = Some (Some f)" "fix_target t f (target_facts w t) req = Some (Inr acts)"
    and "apply_all acts w = (Inr us, w')"
  shows "well pl lk w' t"
proof -
  have fx: "finding_unfixable f = None" "fix_fixable t f (target_facts w t) req = Some (Inr acts)"
    using fix_target_fixable [OF assms(3)] assms(1) by auto
  have one: "(done_already a (world_accounts w) \<and> w' = w) \<or>
      (w' = do_account a w \<and> (\<exists>u. account_undo a (world_accounts w) = Inr u))" if "acts = [a]" "on_accounts a" for a
    using account_after [of a w] assms(4) that by (cases "apply_action a w"; cases "fst (apply_action a w)") auto
  from assms(1) show ?thesis
  proof (elim disjE)
    assume t: "t = T_Group name gid"
    show ?thesis
    proof (cases "map_of (w_groups w) name")
      case None
      with assms(2) fx t have "acts = [AddGroup name gid]" by (auto simp: target_facts_def)
      with one None show ?thesis by (fastforce simp: t well_def target_facts_def world_accounts_def)
    next
      case (Some g)
      with assms(2) fx t have "acts = [SetGroupGid name gid (gf_gid g)]" "gf_gid g \<noteq> gid"
        by (auto simp: target_facts_def split: if_splits)
      with one Some show ?thesis by (fastforce simp: t well_def target_facts_def world_accounts_def)
    qed
  next
    assume t: "t = T_GroupMember name user"
    then have "acts = [AddMember name user]" using fx(2) by simp
    moreover have "user \<notin> set (members (world_accounts w) name)"
      using assms(2) t by (auto simp: target_facts_def members_def world_accounts_def split: option.splits if_splits)
    ultimately have w': "w' = set_group name (enrol user) w" "map_of (w_groups w) name \<noteq> None"
      using one [of "AddMember name user"] by (auto simp: world_accounts_def split: if_splits)
    then show ?thesis by (auto simp: t well_def target_facts_def)
  next
    assume t: "t = T_User n uid gid'"
    show ?thesis
    proof (cases "map_of (w_users w) (user_name n)")
      case None
      with assms(2) fx t have "acts = [AddUser (build_user n uid gid' req)]" by (auto simp: target_facts_def)
      with one None show ?thesis
        by (fastforce simp: t well_def target_facts_def world_accounts_def build_user_def facts_of_spec_def)
    next
      case (Some u)
      with assms(2) fx t have "acts = [SetUserIds (user_name n) (uid, gid') (uf_uid u, uf_gid u)]" "(uf_uid u, uf_gid u) \<noteq> (uid, gid')"
        by (auto simp: target_facts_def split: if_splits)
      with one Some show ?thesis by (fastforce simp: t well_def target_facts_def world_accounts_def user_ids_def)
    qed
  qed
qed

end
