(* ===== verification/Request_Properties.thy ===== *)
theory Request_Properties
  imports Repairs World_Properties
begin

text \<open>
  The properties of requests: their plans can be run, audits are honest, what was mended is well, the
  list of packages stays valid, and the file that is generated from it says what is meant.
\<close>

text \<open>C36: A directory, a file, a group, a member or a user that an audit finds at fault is well after
  its repair: when the actions that were planned for the finding succeed on the machine, the same
  target is classified again, from the facts of the machine then, as having no fault.\<close>

theorem mended_targets_are_well:
  assumes "mendable t" "files_ok w"
    and "classify pl lk t (target_facts w t) = Some (Some f)" "fix_target t f (target_facts w t) req = Some (Inr acts)"
    and "apply_all acts w = (Inr us, w')"
  shows "well pl lk w' t"
proof (cases t)
  case T_Parent with assms show ?thesis by (auto intro: parent_mended)
next
  case T_Directory with assms show ?thesis by (auto intro: directory_mended)
next
  case T_File with assms show ?thesis by (auto intro: file_mended)
next
  case T_SeededFile with assms show ?thesis by (auto intro: seeded_mended)
next
  case T_Group with assms show ?thesis by (auto intro: account_mended)
next
  case T_GroupMember with assms show ?thesis by (auto intro: account_mended)
next
  case T_User with assms show ?thesis by (auto intro: account_mended)
qed (use assms(1) in simp_all)

definition sample_target :: target where
  "sample_target = T_File [''etc'', ''a''] (Some ''x'') (Exact 0x1A4) None"

definition no_list :: list_reader where
  "no_list = (\<lambda>_. Inl [])"

definition sample_mend :: "action list" where
  "sample_mend = [PutFile [''etc'', ''a''] ''x'' 0x1A4 None Expect_Absent]"

theorem mended_targets_are_well_witness:
  "\<exists>us w'. classify no_list (\<lambda>_. None) sample_target (target_facts default_world sample_target) = Some (Some F_Missing)
    \<and> fix_target sample_target F_Missing (target_facts default_world sample_target) [] = Some (Inr sample_mend)
    \<and> apply_all sample_mend default_world = (Inr us, w') \<and> well no_list (\<lambda>_. None) w' sample_target"
proof -
  have c: "classify no_list (\<lambda>_. None) sample_target (target_facts default_world sample_target) = Some (Some F_Missing)"
    and x: "fix_target sample_target F_Missing (target_facts default_world sample_target) [] = Some (Inr sample_mend)"
    and "is_ok (fst (apply_all sample_mend default_world))"
    by code_simp+
  then obtain us w' where a: "apply_all sample_mend default_world = (Inr us, w')"
    by (cases "apply_all sample_mend default_world") (auto simp: is_ok_def split: sum.splits)
  have "mendable sample_target" "files_ok default_world"
    using default_world_ok by (simp_all add: sample_target_def world_ok_def machine_ok_def)
  from mended_targets_are_well [OF this c x a] c x a show ?thesis by blast
qed

text \<open>C37: An audit of everything that an intent declares ends, with any observer whose facts answer its
  queries, and its reports are honest: there is one for each check, in order; a check that is not
  blocked waited only on checks without a finding that were not blocked themselves; and a blocked
  one has no finding and names an earlier check that has one.\<close>

theorem audits_are_honest:
  assumes "sound_observer observe"
  shows "\<exists>cs rs s'. tree_for pretty intent = Some cs \<and> audit_tree rd observe cs s = Some (rs, s') \<and> honest_reports cs rs"
proof -
  from tree_for_waits [of pretty intent] obtain cs where cs: "tree_for pretty intent = Some cs"
    "\<forall>i < length cs. \<forall>x \<in> set (waits_on (cs ! i)). x < i" by blast
  from audit_tree_honest [OF cs(2) assms, of rd s] cs(1) show ?thesis by simp
qed

definition machine_observer :: "world observer" where
  "machine_observer qs w = (Inr (map (observe_query w) qs), w)"

theorem audits_are_honest_witness:
  "\<exists>cs rs w'. tree_for (\<lambda>_. []) (intent_machine None (policy_with (\<lambda>_. []) None)) = Some cs
    \<and> audit_tree \<lparr>rd_list = no_list, rd_json = (\<lambda>_. None), rd_diff = (\<lambda>_ _. [])\<rparr> machine_observer cs default_world = Some (rs, w')
    \<and> honest_reports cs rs"
  by (rule audits_are_honest) (simp add: sound_observer_def machine_observer_def machine_answers)

text \<open>C38: The plan of an installation exists, every step of it waits on steps before it only, and no
  step panics when it is given facts that answer its queries.\<close>

theorem installations_can_be_run:
  "\<exists>plan. install_steps pretty st = Some plan \<and> plan_ordered plan
    \<and> (\<forall>step \<in> set plan. \<forall>facts. answered (plan_queries step) facts \<longrightarrow> plan_actions rd step facts \<noteq> None)"
proof -
  from install_ordered [of pretty st] obtain plan where "install_steps pretty st = Some plan" "plan_ordered plan" by blast
  moreover have "plan_actions rd step facts \<noteq> None" if "answered (plan_queries step) facts" for step facts
    using plan_answers [OF that] by auto
  ultimately show ?thesis by blast
qed

definition sample_settings :: install_settings where
  "sample_settings = \<lparr>is_policy = policy_with (\<lambda>_. []) None, is_user = None, is_force = True,
     is_runtime = \<lparr>rt_url = ''u'', rt_sha256 = ''s'', rt_size = 1\<rparr>, is_request = ''r''\<rparr>"

theorem installations_can_be_run_witness:
  "\<exists>plan. install_steps (\<lambda>_. []) sample_settings = Some plan \<and> plan_ordered plan
    \<and> (\<forall>step \<in> set plan. \<forall>facts. answered (plan_queries step) facts \<longrightarrow>
        plan_actions \<lparr>rd_list = no_list, rd_json = (\<lambda>_. None), rd_diff = (\<lambda>_ _. [])\<rparr> step facts \<noteq> None)"
  by (rule installations_can_be_run)

text \<open>C39: The file that is generated for a user parses as the module that is meant: the user's name and
  home, the version of the state, one selection from pkgs for each package on the list, and the
  commands that copy the inputs; no name, path or package can break out of its place.\<close>

theorem home_file_says_what_is_meant:
  assumes "render_home user packages = Inr out"
  shows "parse out = Some (Inr (normalize (home_expr (user_module user packages))))"
  using home_parsed [OF render_home_result(2) [OF assms]] render_home_result(1) [OF assms] by simp

definition sample_user :: invoking_user where
  "sample_user = \<lparr>iu_uid = 1, iu_gid = 1, iu_name = ''${a}'', iu_home = [''b'']\<rparr>"

theorem home_file_says_what_is_meant_witness:
  "\<exists>out. render_home sample_user [''git''] = Inr out
    \<and> parse out = Some (Inr (normalize (home_expr (user_module sample_user [''git'']))))"
proof -
  have "is_ok (render_home sample_user [''git''])" by code_simp
  then obtain out where "render_home sample_user [''git''] = Inr out" by (auto simp: is_ok_def split: sum.splits)
  from home_file_says_what_is_meant [OF this] this show ?thesis by blast
qed



end
